(* ===== verification/Prelude.thy ===== *)
theory Prelude
  imports Main "HOL-Library.Word" "HOL-Library.Signed_Division"
begin

text \<open>
  Shared vocabulary of the development: names for Rust's fixed-width integer types, the
  casts the simulator writes with \<open>as\<close>, list lemmas for tables that are updated in
  place, and the named collections that the component theories feed and use.

  Unsigned and signed Rust integers of one width share one word type: \<open>u64\<close> and
  \<open>i64\<close> are both 64-bit words, and signedness is in the operation (\<open>sint\<close>,
  \<open>signed_drop_bit\<close>, \<open><s\<close>). Arithmetic on words wraps, which is what the release
  profile of the crate does and what the \<open>wrapping_\<close> methods do in every profile.
  Indices, lengths and counters of type \<open>usize\<close> are natural numbers: they are bounded
  by the length of an allocated vector.
\<close>

unbundle bit_operations_syntax

type_synonym u8 = "8 word"
type_synonym u16 = "16 word"
type_synonym u32 = "32 word"
type_synonym u64 = "64 word"
type_synonym i32 = "32 word"
type_synonym i64 = "64 word"
type_synonym i128 = "128 word"

named_theorems ring_simps \<open>positions of a circular buffer\<close>
named_theorems cast_simps \<open>Rust casts between integer widths\<close>
named_theorems inv_intros \<open>operations that keep a component's invariant\<close>

subsection \<open>Rust casts\<close>

text \<open>A boolean cast with \<open>as u64\<close> or \<open>as u8\<close>.\<close>

definition bool_as :: "bool \<Rightarrow> 'a::len word" where
  "bool_as b = (if b then 1 else 0)"

text \<open>\<open>x as u32\<close> / \<open>x as i32\<close> for a 64-bit \<open>x\<close>, and \<open>y as i64 as u64\<close> for an \<open>i32\<close>.\<close>

definition as_i32 :: "u64 \<Rightarrow> i32" where
  "as_i32 x = ucast x"

definition sext32 :: "i32 \<Rightarrow> u64" where
  "sext32 x = scast x"

lemma bool_as_simps [simp]: "bool_as True = 1" "bool_as False = 0"
  by (simp_all add: bool_as_def)

lemma bool_as_eq_0 [simp]: "(bool_as b :: 'a::len word) = 0 \<longleftrightarrow> \<not> b"
  by (simp add: bool_as_def)

lemma sint_sext32 [cast_simps]: "sint (sext32 x) = sint x"
  by (simp add: sext32_def sint_up_scast is_up)

lemma uint_as_i32 [cast_simps]: "uint (as_i32 x) = uint x mod 2 ^ 32"
  by (simp add: as_i32_def unsigned_ucast_eq take_bit_eq_mod)

lemma as_i32_sext32 [simp, cast_simps]: "as_i32 (sext32 x) = x"
  by (rule bit_word_eqI) (auto simp: as_i32_def sext32_def bit_simps)

lemma sext32_minus_1 [simp, cast_simps]: "sext32 (as_i32 (- 1)) = - 1"
  by (rule bit_word_eqI) (auto simp: as_i32_def sext32_def bit_simps)

lemma sint_eq_minus_1: "sint (b :: 'a::len word) = - 1 \<longleftrightarrow> b = - 1"
  by (metis signed_word_eqI sint_n1)

text \<open>A mask of low bits written as a literal.\<close>

lemma and_masks [cast_simps]:
  fixes x :: "'a::len word"
  shows "x AND 1 = take_bit 1 x" "x AND 3 = take_bit 2 x" "x AND 7 = take_bit 3 x"
    "x AND 0xF = take_bit 4 x" "x AND 0x1F = take_bit 5 x" "x AND 0x3F = take_bit 6 x"
    "x AND 0x7F = take_bit 7 x" "x AND 0xFF = take_bit 8 x" "x AND 0x3FF = take_bit 10 x"
    "x AND 0xFFF = take_bit 12 x"
  by (simp_all add: take_bit_eq_mask mask_eq_exp_minus_1)

lemma unat_of_nat_u64: "j < 2 ^ 64 \<Longrightarrow> unat (of_nat j :: u64) = j"
  by (simp add: unsigned_of_nat take_bit_nat_eq_self)

lemma unat_drop_bit: "unat (drop_bit k w) = unat w div 2 ^ k" for w :: "'a::len word"
proof -
  have "unat (drop_bit k w) = drop_bit k (unat w)"
    using unsigned_less [of w, where ?'a = nat] by (simp add: unsigned_drop_bit_eq take_bit_nat_eq_self)
  then show ?thesis by (simp only: drop_bit_eq_div)
qed

lemma unat_exp_u64: "k < 64 \<Longrightarrow> unat (2 ^ k :: u64) = 2 ^ k"
proof -
  assume "k < 64"
  then have "(2::nat) ^ k < 2 ^ 64" by (intro power_strict_increasing) simp_all
  then show ?thesis using unat_of_nat_u64 [of "2 ^ k"] by simp
qed

lemma u64_offset_eq: "j < 2 ^ 64 \<Longrightarrow> a = addr + of_nat j \<longleftrightarrow> unat (a - addr) = j"
  for a addr :: u64
proof
  assume "unat (a - addr) = j"
  then have "(of_nat j :: u64) = of_nat (unat (a - addr))" by simp
  also have "\<dots> = a - addr" by simp
  finally show "a = addr + of_nat j" by simp
qed (simp add: unat_of_nat_u64)

text \<open>\<open>div_ceil\<close> of the unsigned integer types.\<close>

definition div_ceil :: "nat \<Rightarrow> nat \<Rightarrow> nat" where
  "div_ceil a b = (a + b - 1) div b"

subsection \<open>The first element with a property\<close>

fun position :: "('a \<Rightarrow> bool) \<Rightarrow> 'a list \<Rightarrow> nat option" where
  "position P [] = None"
| "position P (x # xs) = (if P x then Some 0 else map_option Suc (position P xs))"

lemma position_Some_iff: "position P xs = Some i \<longleftrightarrow> i < length xs \<and> P (xs ! i) \<and> (\<forall>j < i. \<not> P (xs ! j))"
proof (induction xs arbitrary: i)
  case (Cons x xs)
  show ?case
  proof (cases i)
    case (Suc k)
    then show ?thesis using Cons.IH [of k] by (auto simp: All_less_Suc2)
  qed auto
qed simp

lemma position_None_iff: "position P xs = None \<longleftrightarrow> (\<forall>x \<in> set xs. \<not> P x)"
  by (induction xs) auto

lemma position_unique:
  assumes "i < length xs" "P (xs ! i)" "\<And>j. j < length xs \<Longrightarrow> P (xs ! j) \<Longrightarrow> j = i"
  shows "position P xs = Some i"
  using assms unfolding position_Some_iff by (metis order.strict_trans less_not_refl)

subsection \<open>Positions in a circular buffer\<close>

lemma mod_add_inj [ring_simps]:
  fixes h i j c :: nat
  assumes "i < c" "j < c" "(h + i) mod c = (h + j) mod c"
  shows "i = j"
proof -
  have eq: "i = j" if "i \<le> j" "j < c" "(h + j) mod c = (h + i) mod c" for i j
  proof -
    from that(1,3) have "c dvd (h + j) - (h + i)"
      by (simp add: mod_eq_dvd_iff_nat)
    with that(1,2) show ?thesis by (cases "i = j") (auto dest!: dvd_imp_le)
  qed
  from assms show ?thesis by (metis eq nat_le_linear)
qed

lemma mod_Suc_step [ring_simps]: "((h + i) mod c + 1) mod c = (h + Suc i) mod (c::nat)"
  by (simp add: mod_Suc_eq)

end
