(* ===== verification/Signals.thy ===== *)
theory Signals
  imports Prelude
begin

text \<open>
  The data that every pipeline component shares: the control signals the decoder produces
  (\<open>core/pipeline/signals.rs\<close>), traps and the records an instruction carries to commit
  (\<open>common/error.rs\<close>), register indices, addresses and instruction sizes
  (\<open>common/\<close>). An enum of the source is a datatype with the source's variants in the
  source's order, a struct is a record.
\<close>

subsection \<open>Operations and operand sources\<close>

datatype alu_op =
    Alu_Add | Alu_Sub | Alu_Sll | Alu_Slt | Alu_Sltu | Alu_Xor | Alu_Srl | Alu_Sra
  | Alu_Or | Alu_And | Alu_Mul | Alu_Mulh | Alu_Mulhsu | Alu_Mulhu
  | Alu_Div | Alu_Divu | Alu_Rem | Alu_Remu
  | Alu_FAdd | Alu_FSub | Alu_FMul | Alu_FDiv | Alu_FSqrt | Alu_FMin | Alu_FMax
  | Alu_FMAdd | Alu_FMSub | Alu_FNMAdd | Alu_FNMSub
  | Alu_FCvtWS | Alu_FCvtLS | Alu_FCvtSW | Alu_FCvtSL
  | Alu_FCvtWUS | Alu_FCvtLUS | Alu_FCvtSWU | Alu_FCvtSLU | Alu_FCvtSD | Alu_FCvtDS
  | Alu_FSgnJ | Alu_FSgnJN | Alu_FSgnJX | Alu_FEq | Alu_FLt | Alu_FLe | Alu_FClass
  | Alu_FMvToX | Alu_FMvToF

datatype atomic_op =
    At_None | At_Lr | At_Sc | At_Swap | At_Add | At_Xor | At_And | At_Or
  | At_Min | At_Max | At_Minu | At_Maxu

datatype mem_width = W_Nop | W_Byte | W_Half | W_Word | W_Double

datatype op_a_src = A_Reg1 | A_Pc | A_Zero

datatype op_b_src = B_Imm | B_Reg2 | B_Zero

datatype control_flow = CF_Sequential | CF_Branch | CF_Jump

datatype system_op =
    Sys_None | Sys_Mret | Sys_Sret | Sys_Wfi | Sys_Fence | Sys_FenceI | Sys_SfenceVma | Sys_System

datatype csr_op = Csr_None | Csr_Rw | Csr_Rs | Csr_Rc | Csr_Rwi | Csr_Rsi | Csr_Rci

subsection \<open>Register indices, CSR addresses and instruction sizes\<close>

text \<open>\<open>RegIdx\<close> keeps the low five bits of a byte (\<open>RegIdx::new\<close> masks with \<open>0x1F\<close>), so
  it is a 5-bit word and a subscript made from it is below 32.\<close>

type_synonym reg_idx = "5 word"
type_synonym csr_addr = u16

definition reg_new :: "u8 \<Rightarrow> reg_idx" where
  "reg_new i = ucast (i AND 0x1F)"

definition reg_as_usize :: "reg_idx \<Rightarrow> nat" where
  "reg_as_usize r = unat r"

definition reg_is_zero :: "reg_idx \<Rightarrow> bool" where
  "reg_is_zero r \<longleftrightarrow> r = 0"

datatype inst_size = Compressed | Standard

fun inst_size_as_u64 :: "inst_size \<Rightarrow> u64" where
  "inst_size_as_u64 Compressed = 2"
| "inst_size_as_u64 Standard = 4"

subsection \<open>The control signals of one instruction\<close>

record control_signals =
  cs_reg_write :: bool
  cs_fp_reg_write :: bool
  cs_mem_read :: bool
  cs_mem_write :: bool
  cs_control_flow :: control_flow
  cs_is_rv32 :: bool
  cs_width :: mem_width
  cs_signed_load :: bool
  cs_alu :: alu_op
  cs_a_src :: op_a_src
  cs_b_src :: op_b_src
  cs_system_op :: system_op
  cs_csr_addr :: csr_addr
  cs_csr_op :: csr_op
  cs_rs1_fp :: bool
  cs_rs2_fp :: bool
  cs_rs3_fp :: bool
  cs_atomic_op :: atomic_op

text \<open>\<open>ControlSignals::default()\<close>: every field at its enum's \<open>#[default]\<close> variant.\<close>

definition default_ctrl :: control_signals where
  "default_ctrl = \<lparr> cs_reg_write = False, cs_fp_reg_write = False, cs_mem_read = False,
     cs_mem_write = False, cs_control_flow = CF_Sequential, cs_is_rv32 = False,
     cs_width = W_Nop, cs_signed_load = False, cs_alu = Alu_Add, cs_a_src = A_Reg1,
     cs_b_src = B_Imm, cs_system_op = Sys_None, cs_csr_addr = 0, cs_csr_op = Csr_None,
     cs_rs1_fp = False, cs_rs2_fp = False, cs_rs3_fp = False, cs_atomic_op = At_None \<rparr>"

subsection \<open>Traps and deferred commit-time actions\<close>

datatype exception_stage = Stage_Fetch | Stage_Decode | Stage_Execute | Stage_Memory

datatype trap =
    InstructionAddressMisaligned u64
  | InstructionAccessFault u64
  | IllegalInstruction u32
  | Breakpoint u64
  | LoadAddressMisaligned u64
  | LoadAccessFault u64
  | StoreAddressMisaligned u64
  | StoreAccessFault u64
  | EnvironmentCallFromUMode
  | EnvironmentCallFromSMode
  | EnvironmentCallFromMMode
  | InstructionPageFault u64
  | LoadPageFault u64
  | StorePageFault u64
  | UserSoftwareInterrupt
  | SupervisorSoftwareInterrupt
  | MachineSoftwareInterrupt
  | MachineTimerInterrupt
  | SupervisorTimerInterrupt
  | MachineExternalInterrupt
  | SupervisorExternalInterrupt
  | UserExternalInterrupt
  | RequestedTrap u64
  | DoubleFault u64

fun exception_priority :: "trap \<Rightarrow> nat" where
  "exception_priority (Breakpoint _) = 0"
| "exception_priority (InstructionPageFault _) = 1"
| "exception_priority (InstructionAccessFault _) = 2"
| "exception_priority (IllegalInstruction _) = 3"
| "exception_priority (InstructionAddressMisaligned _) = 4"
| "exception_priority EnvironmentCallFromUMode = 5"
| "exception_priority EnvironmentCallFromSMode = 5"
| "exception_priority EnvironmentCallFromMMode = 5"
| "exception_priority (StoreAddressMisaligned _) = 6"
| "exception_priority (LoadAddressMisaligned _) = 7"
| "exception_priority (StorePageFault _) = 8"
| "exception_priority (LoadPageFault _) = 9"
| "exception_priority (StoreAccessFault _) = 10"
| "exception_priority (LoadAccessFault _) = 11"
| "exception_priority MachineExternalInterrupt = 12"
| "exception_priority MachineSoftwareInterrupt = 13"
| "exception_priority MachineTimerInterrupt = 14"
| "exception_priority SupervisorExternalInterrupt = 15"
| "exception_priority SupervisorSoftwareInterrupt = 16"
| "exception_priority SupervisorTimerInterrupt = 17"
| "exception_priority UserExternalInterrupt = 18"
| "exception_priority UserSoftwareInterrupt = 19"
| "exception_priority (RequestedTrap _) = 20"
| "exception_priority (DoubleFault _) = 21"

type_synonym phys_addr = u64
type_synonym virt_addr = u64

record pte_update =
  pu_pte_addr :: phys_addr
  pu_pte_value :: u64

record sfence_vma_info =
  sf_rs1_idx :: reg_idx
  sf_rs2_idx :: reg_idx
  sf_rs1_val :: u64
  sf_rs2_val :: u64

datatype lr_sc_record = LrRecord phys_addr | ScRecord phys_addr

text \<open>Physical register identifiers (\<open>PhysReg\<close>) and ROB tags (\<open>RobTag\<close>) are
  newtypes over \<open>u16\<close> and \<open>u32\<close>.\<close>

type_synonym phys_reg = u16
type_synonym rob_tag = u32
type_synonym checkpoint_id = u8

lemma reg_as_usize_less [simp]: "reg_as_usize r < 32"
  using unsigned_less [of r, where ?'a = nat] by (simp add: reg_as_usize_def)

lemma reg_as_usize_inj [simp]: "reg_as_usize r = reg_as_usize s \<longleftrightarrow> r = s"
  by (simp add: reg_as_usize_def word_unat_eq_iff)

lemma reg_as_usize_eq_0 [simp]: "reg_as_usize r = 0 \<longleftrightarrow> reg_is_zero r"
  by (simp add: reg_as_usize_def reg_is_zero_def unat_eq_0)

end
