(* ===== verification/Ghr.thy ===== *)
theory Ghr
  imports Signals
begin

text \<open>
  The global history register (\<open>core/units/bru/branch_predictor.rs\<close>): sixteen 64-bit words
  and an effective length. The property compares the word-level shift with a shift register of
  single bits.
\<close>

definition GHR_MAX_WORDS :: nat where
  "GHR_MAX_WORDS = 16"

record ghr =
  ghr_bits :: "u64 list"
  ghr_len :: u16

definition ghr_default :: ghr where
  "ghr_default = \<lparr> ghr_bits = replicate GHR_MAX_WORDS 0, ghr_len = 0 \<rparr>"

definition ghr_new :: "u64 \<Rightarrow> ghr" where
  "ghr_new val = \<lparr> ghr_bits = (replicate GHR_MAX_WORDS 0)[0 := val], ghr_len = 64 \<rparr>"

text \<open>\<open>Ghr::with_len\<close> panics beyond the capacity: \<open>None\<close>.\<close>

definition ghr_with_len :: "nat \<Rightarrow> ghr option" where
  "ghr_with_len max_bits =
    (if max_bits \<le> GHR_MAX_WORDS * 64
     then Some \<lparr> ghr_bits = replicate GHR_MAX_WORDS 0, ghr_len = of_nat max_bits \<rparr> else None)"

definition ghr_val :: "ghr \<Rightarrow> u64" where
  "ghr_val g = ghr_bits g ! 0"

definition ghr_word :: "ghr \<Rightarrow> nat \<Rightarrow> u64" where
  "ghr_word g idx = (if idx < GHR_MAX_WORDS then ghr_bits g ! idx else 0)"

definition ghr_bit :: "ghr \<Rightarrow> nat \<Rightarrow> bool" where
  "ghr_bit g pos =
    (let word_idx = pos div 64; bit_idx = pos mod 64 in
     if GHR_MAX_WORDS \<le> word_idx then False
     else drop_bit bit_idx (ghr_bits g ! word_idx) AND 1 \<noteq> 0)"

text \<open>The loop of \<open>push\<close> over \<open>(1..GHR_MAX_WORDS).rev()\<close>, then the masking of the top word.\<close>

fun ghr_shift :: "nat \<Rightarrow> u64 list \<Rightarrow> u64 list" where
  "ghr_shift 0 bs = bs"
| "ghr_shift (Suc i) bs =
     ghr_shift i (bs[Suc i := push_bit 1 (bs ! Suc i) OR drop_bit 63 (bs ! i)])"

definition ghr_mask :: "nat \<Rightarrow> u64 list \<Rightarrow> u64 list" where
  "ghr_mask len bs =
    (if 0 < len \<and> len < GHR_MAX_WORDS * 64 then
       let top_word_idx = len div 64; top_bit_count = len mod 64 in
       if top_word_idx < GHR_MAX_WORDS then
         let bs1 = bs[top_word_idx := (if 0 < top_bit_count
                     then bs ! top_word_idx AND (2 ^ top_bit_count - 1) else 0)]
         in take (Suc top_word_idx) bs1 @ replicate (length bs - Suc top_word_idx) 0
       else bs
     else bs)"

definition ghr_push :: "bool \<Rightarrow> ghr \<Rightarrow> ghr" where
  "ghr_push taken g =
    (let bs = ghr_shift (GHR_MAX_WORDS - 1) (ghr_bits g);
         bs1 = bs[0 := push_bit 1 (bs ! 0) OR bool_as taken]
     in g\<lparr> ghr_bits := ghr_mask (unat (ghr_len g)) bs1 \<rparr>)"

subsection \<open>The register as a sequence of bits\<close>

definition ghr_wf :: "ghr \<Rightarrow> bool" where
  "ghr_wf g \<longleftrightarrow> length (ghr_bits g) = GHR_MAX_WORDS \<and> unat (ghr_len g) \<le> GHR_MAX_WORDS * 64"

lemma ghr_bit_conv:
  "ghr_bit g pos \<longleftrightarrow> pos < GHR_MAX_WORDS * 64 \<and> bit (ghr_bits g ! (pos div 64)) (pos mod 64)"
proof -
  have "drop_bit n w AND 1 \<noteq> 0 \<longleftrightarrow> bit w n" for w :: u64 and n
    using and_exp_eq_0_iff_not_bit [of "drop_bit n w" 0] by (simp add: bit_simps)
  then show ?thesis by (auto simp: ghr_bit_def Let_def GHR_MAX_WORDS_def)
qed

lemma length_ghr_shift [simp]: "length (ghr_shift n bs) = length bs"
  by (induction n arbitrary: bs) simp_all

lemma ghr_shift_nth:
  "n < length bs \<Longrightarrow> i < length bs \<Longrightarrow> ghr_shift n bs ! i =
    (if 0 < i \<and> i \<le> n then push_bit 1 (bs ! i) OR drop_bit 63 (bs ! (i - 1)) else bs ! i)"
proof (induction n arbitrary: bs)
  case (Suc n)
  then show ?case by (auto simp: nth_list_update le_Suc_eq)
qed auto

text \<open>The shifted words before masking: bit \<open>pos\<close> comes from bit \<open>pos - 1\<close>.\<close>

lemma ghr_shifted_bit:
  fixes bs :: "u64 list" and taken :: bool
  defines "bs' \<equiv> (ghr_shift 15 bs)[0 := push_bit 1 (ghr_shift 15 bs ! 0) OR bool_as taken]"
  assumes "length bs = 16" "pos < 1024"
  shows "bit (bs' ! (pos div 64)) (pos mod 64) \<longleftrightarrow>
    (if pos = 0 then taken else bit (bs ! ((pos - 1) div 64)) ((pos - 1) mod 64))"
proof -
  define w b where "w = pos div 64" and "b = pos mod 64"
  have pos: "pos = 64 * w + b" "b < 64" "w < 16" using assms(3) by (auto simp: w_def b_def)
  have no_low: "\<not> bit (x * 2 :: u64) 0" for x by (simp add: bit_0)
  have dbl: "bit (x * 2 :: u64) n \<longleftrightarrow> bit x (n - 1)" if "0 < n" "n < 64" for x n
    using that by (simp add: bit_double_iff mult.commute [of x 2])
  have high: "\<not> bit (x :: u64) (63 + n)" if "0 < n" for x n
    using that by (auto dest: bit_imp_le_length)
  have nth: "bs' ! w = (if w = 0 then push_bit 1 (bs ! 0) OR bool_as taken
      else push_bit 1 (bs ! w) OR drop_bit 63 (bs ! (w - 1)))"
    using assms(2) pos by (auto simp: bs'_def ghr_shift_nth nth_list_update)
  show ?thesis
  proof (cases "b = 0")
    case True
    then have "0 < w \<Longrightarrow> (pos - 1) div 64 = w - 1 \<and> (pos - 1) mod 64 = 63"
      using pos by (cases w) auto
    with True pos show ?thesis
      unfolding w_def [symmetric] b_def [symmetric]
      by (auto simp: nth bit_simps bool_as_def no_low)
  next
    case False
    then have "pos - 1 = 64 * w + (b - 1)" "b - 1 < 64" using pos by auto
    then have "(pos - 1) div 64 = w \<and> (pos - 1) mod 64 = b - 1"
      by (simp add: div_mult_self2 mod_mult_self4)
    with False pos show ?thesis
      unfolding w_def [symmetric] b_def [symmetric]
      by (auto simp: nth bit_simps bool_as_def dbl high)
  qed
qed

lemma ghr_mask_bit:
  assumes "length bs = 16" "pos < 1024"
  shows "bit (ghr_mask len bs ! (pos div 64)) (pos mod 64) \<longleftrightarrow>
    bit (bs ! (pos div 64)) (pos mod 64) \<and> (len = 0 \<or> 1024 \<le> len \<or> pos < len)"
proof (cases "0 < len \<and> len < 1024")
  case True
  define w b t c where "w = pos div 64" and "b = pos mod 64" and "t = len div 64" and "c = len mod 64"
  have eq: "pos = 64 * w + b" "b < 64" "w < 16" "len = 64 * t + c" "c < 64" "t < 16"
    using assms True by (auto simp: w_def b_def t_def c_def)
  have "pos < len \<longleftrightarrow> w < t \<or> w = t \<and> b < c" using eq by auto
  moreover have "ghr_mask len bs ! w = (if w < t then bs ! w else if w = t
      then (if 0 < c then bs ! t AND (2 ^ c - 1) else 0) else 0)"
    using True eq assms(1)
    by (auto simp: ghr_mask_def Let_def GHR_MAX_WORDS_def nth_append nth_list_update
        simp flip: t_def c_def)
  moreover have "bit ((bs ! t) AND (2 ^ c - 1)) b \<longleftrightarrow> bit (bs ! t) b \<and> b < c"
    using eq(2) by (auto simp: bit_simps simp flip: mask_eq_exp_minus_1)
  ultimately show ?thesis
    using True unfolding w_def [symmetric] b_def [symmetric] by auto
qed (auto simp: ghr_mask_def GHR_MAX_WORDS_def)

subsection \<open>Properties\<close>

text \<open>Pushing an outcome onto the word-level global history register shifts a bit sequence
  by one: position 0 is the new outcome, position \<open>k + 1\<close> is the old position \<open>k\<close>, and the
  positions from the configured length on read as not taken.\<close>
theorem ghr_push_shifts:
  assumes "ghr_wf g" "0 < unat (ghr_len g)"
  shows "ghr_wf (ghr_push taken g)
    \<and> ghr_bit (ghr_push taken g) pos
      = (pos < unat (ghr_len g) \<and> (if pos = 0 then taken else ghr_bit g (pos - 1)))"
proof -
  let ?bs = "ghr_bits g"
  have len: "length ?bs = 16" "unat (ghr_len g) \<le> 1024"
    using assms by (simp_all add: ghr_wf_def GHR_MAX_WORDS_def)
  have "ghr_wf (ghr_push taken g)"
    using len by (auto simp: ghr_wf_def ghr_push_def ghr_mask_def Let_def GHR_MAX_WORDS_def)
  moreover have "ghr_bit (ghr_push taken g) pos
      = (pos < unat (ghr_len g) \<and> (if pos = 0 then taken else ghr_bit g (pos - 1)))"
  proof (cases "pos < 1024")
    case True
    then show ?thesis
      using len assms(2) ghr_shifted_bit [OF len(1), of pos taken]
        ghr_mask_bit [of "(ghr_shift 15 ?bs)[0 := push_bit 1 (ghr_shift 15 ?bs ! 0) OR bool_as taken]" pos]
      by (auto simp: ghr_bit_conv ghr_push_def Let_def GHR_MAX_WORDS_def)
  next
    case False
    then show ?thesis using len by (auto simp: ghr_bit_conv GHR_MAX_WORDS_def)
  qed
  ultimately show ?thesis by blast
qed

theorem ghr_push_shifts_witness:
  "ghr_bit (ghr_push True (ghr_new 5)) 0 \<and> ghr_bit (ghr_push True (ghr_new 5)) 1
   \<and> \<not> ghr_bit (ghr_push True (ghr_new 5)) 2"
  using ghr_push_shifts [of "ghr_new 5" True 0] ghr_push_shifts [of "ghr_new 5" True 1]
    ghr_push_shifts [of "ghr_new 5" True 2]
  by (simp add: ghr_wf_def ghr_new_def ghr_bit_def GHR_MAX_WORDS_def Let_def)

end
