(* ===== verification/Ring.thy ===== *)
theory Ring
  imports Signals
begin

text \<open>
  The circular buffer that the reorder buffer, the store buffer and the load queue share: a
  fixed vector of slots, the index of the oldest slot, the index of the next free slot and the
  number of slots in use. The source repeats the four fields and the loops over them in each
  of the three structs; here they are one record, which each component instantiates with its
  own entry type, and the lemmas about them are proved once.

  The loops of the source that only read walk the slots from the oldest to the newest
  (\<open>ring_walk\<close>) or backwards from the newest (\<open>ring_walk_back\<close>). The abstraction of a
  buffer is \<open>ring_window\<close>, its slots in program order. The locale \<open>slot\<close> is the
  interface a component's entry type provides: how an entry is marked unoccupied, and that
  this keeps its tag.
\<close>

subsection \<open>The buffer and its walks\<close>

record 'e ring =
  ring_entries :: "'e list"
  ring_head :: nat
  ring_tail :: nat
  ring_count :: nat

abbreviation ring_cap :: "('e, 'z) ring_scheme \<Rightarrow> nat" where
  "ring_cap r \<equiv> length (ring_entries r)"

fun ring_walk :: "'e list \<Rightarrow> nat \<Rightarrow> nat \<Rightarrow> 'e list" where
  "ring_walk es idx 0 = []"
| "ring_walk es idx (Suc n) = es ! idx # ring_walk es ((idx + 1) mod length es) n"

definition prev_idx :: "nat \<Rightarrow> nat \<Rightarrow> nat" where
  "prev_idx cap idx = (if idx = 0 then cap - 1 else idx - 1)"

fun ring_walk_back :: "'e list \<Rightarrow> nat \<Rightarrow> nat \<Rightarrow> 'e list" where
  "ring_walk_back es idx 0 = []"
| "ring_walk_back es idx (Suc n) = es ! idx # ring_walk_back es (prev_idx (length es) idx) n"

definition ring_window :: "('e, 'z) ring_scheme \<Rightarrow> 'e list" where
  "ring_window r = ring_walk (ring_entries r) (ring_head r) (ring_count r)"

definition ring_window_back :: "('e, 'z) ring_scheme \<Rightarrow> 'e list" where
  "ring_window_back r =
     ring_walk_back (ring_entries r) (prev_idx (ring_cap r) (ring_tail r)) (ring_count r)"

text \<open>Writing the slot at the tail and advancing it, and retiring the slot at the head.\<close>

definition ring_push :: "'e \<Rightarrow> ('e, 'z) ring_scheme \<Rightarrow> ('e, 'z) ring_scheme" where
  "ring_push e r = r\<lparr> ring_entries := (ring_entries r)[ring_tail r := e],
     ring_tail := (ring_tail r + 1) mod ring_cap r, ring_count := ring_count r + 1 \<rparr>"

definition ring_pop :: "('e \<Rightarrow> 'e) \<Rightarrow> ('e, 'z) ring_scheme \<Rightarrow> ('e, 'z) ring_scheme" where
  "ring_pop inval r = r\<lparr> ring_entries := (ring_entries r)[ring_head r := inval (ring_entries r ! ring_head r)],
     ring_head := (ring_head r + 1) mod ring_cap r, ring_count := ring_count r - 1 \<rparr>"

definition ring_clear :: "('e \<Rightarrow> 'e) \<Rightarrow> ('e, 'z) ring_scheme \<Rightarrow> ('e, 'z) ring_scheme" where
  "ring_clear inval r = r\<lparr> ring_entries := map inval (ring_entries r),
     ring_head := 0, ring_tail := 0, ring_count := 0 \<rparr>"

text \<open>The index loop of \<open>find_by_tag_mut\<close>: the first slot from the head that satisfies a test.\<close>

fun ring_find :: "('e \<Rightarrow> bool) \<Rightarrow> 'e list \<Rightarrow> nat \<Rightarrow> nat \<Rightarrow> nat option" where
  "ring_find p es idx 0 = None"
| "ring_find p es idx (Suc n) =
     (if p (es ! idx) then Some idx else ring_find p es ((idx + 1) mod length es) n)"

text \<open>The compaction loop of \<open>flush_speculative\<close> and \<open>flush_after\<close>: kept entries move to the
  front, the others are marked unoccupied.\<close>

fun compact_loop :: "('e \<Rightarrow> bool) \<Rightarrow> ('e \<Rightarrow> 'e) \<Rightarrow> nat \<Rightarrow> nat \<Rightarrow> nat \<Rightarrow> nat \<Rightarrow> 'e list
    \<Rightarrow> 'e list \<times> nat \<times> nat" where
  "compact_loop keep inval 0 idx new_tail new_count es = (es, new_tail, new_count)"
| "compact_loop keep inval (Suc n) idx new_tail new_count es =
    (let cap = length es; idx' = (idx + 1) mod cap in
     if keep (es ! idx) then
       let es' = (if idx \<noteq> new_tail
                  then (es[new_tail := es ! idx])[idx := inval (es ! idx)] else es)
       in compact_loop keep inval n idx' ((new_tail + 1) mod cap) (new_count + 1) es'
     else compact_loop keep inval n idx' new_tail new_count (es[idx := inval (es ! idx)]))"

definition ring_compact :: "('e \<Rightarrow> bool) \<Rightarrow> ('e \<Rightarrow> 'e) \<Rightarrow> ('e, 'z) ring_scheme \<Rightarrow> ('e, 'z) ring_scheme" where
  "ring_compact keep inval r =
    (if ring_count r = 0 then r
     else let (es, t, c) = compact_loop keep inval (ring_count r) (ring_head r) (ring_head r) 0
                             (ring_entries r)
          in r\<lparr> ring_entries := es, ring_tail := t, ring_count := c \<rparr>)"

definition ring_wf :: "('e, 'z) ring_scheme \<Rightarrow> bool" where
  "ring_wf r \<longleftrightarrow> 0 < ring_cap r \<and> ring_head r < ring_cap r \<and> ring_count r \<le> ring_cap r
     \<and> ring_tail r = (ring_head r + ring_count r) mod ring_cap r"

subsection \<open>Slots by their distance from the head\<close>

definition slot_at :: "'e list \<Rightarrow> nat \<Rightarrow> nat \<Rightarrow> 'e" where
  "slot_at es h i = es ! ((h + i) mod length es)"

lemma slot_at_update:
  "i < length es \<Longrightarrow> j < length es \<Longrightarrow>
   slot_at (es[(h + j) mod length es := e]) h i = (if i = j then e else slot_at es h i)"
proof -
  assume ij: "i < length es" "j < length es"
  then have "(h + j) mod length es < length es" by (cases es) simp_all
  with ij mod_add_inj [of i "length es" j h] show ?thesis
    by (cases "i = j") (auto simp: slot_at_def nth_list_update)
qed

lemma slot_at_shift: "slot_at es (Suc h mod length es) i = slot_at es h (Suc i)"
  by (simp add: slot_at_def mod_add_left_eq)

lemma ring_walk_conv:
  "h < length es \<Longrightarrow> ring_walk es ((h + j) mod length es) n = map (slot_at es h) [j..<j + n]"
proof (induction n arbitrary: j)
  case (Suc n)
  then show ?case
    using Suc.IH [of "Suc j"] by (simp add: slot_at_def mod_Suc_eq upt_rec [of j] del: upt_Suc)
qed simp

lemma ring_window_conv:
  "ring_wf r \<Longrightarrow> ring_window r = map (slot_at (ring_entries r) (ring_head r)) [0..<ring_count r]"
  using ring_walk_conv [of "ring_head r" "ring_entries r" 0 "ring_count r"]
  by (simp add: ring_window_def ring_wf_def)

lemma length_ring_walk [simp]: "length (ring_walk es i n) = n"
  by (induction n arbitrary: i) simp_all

lemma length_ring_window [simp]: "length (ring_window r) = ring_count r"
  by (simp add: ring_window_def)

lemma ring_window_nth:
  "ring_wf r \<Longrightarrow> k < ring_count r \<Longrightarrow>
   ring_window r ! k = ring_entries r ! ((ring_head r + k) mod ring_cap r)"
  by (simp add: ring_window_conv slot_at_def)

lemma prev_idx_step: "0 < c \<Longrightarrow> prev_idx c (Suc (h + i) mod c) = (h + i) mod c"
  by (cases "(h + i) mod c = c - 1") (auto simp: prev_idx_def mod_Suc)

lemma ring_walk_back_conv:
  "0 < length es \<Longrightarrow>
   ring_walk_back es (prev_idx (length es) ((h + n) mod length es)) n = rev (map (slot_at es h) [0..<n])"
proof (induction n)
  case (Suc n)
  then show ?case by (simp add: prev_idx_step slot_at_def)
qed simp

lemma ring_window_back_conv: "ring_wf r \<Longrightarrow> ring_window_back r = rev (ring_window r)"
  by (simp add: ring_window_back_def ring_wf_def ring_walk_back_conv ring_window_conv)

subsection \<open>Operations on the window\<close>

lemma ring_wf_entries:
  "ring_wf r \<Longrightarrow> length es = ring_cap r \<Longrightarrow> ring_wf (r\<lparr>ring_entries := es\<rparr>)"
  by (simp add: ring_wf_def)

lemma ring_push_wf:
  "ring_wf r \<Longrightarrow> ring_count r < ring_cap r \<Longrightarrow> ring_wf (ring_push e r)"
  by (simp add: ring_wf_def ring_push_def mod_Suc_eq)

lemma ring_push_window:
  assumes "ring_wf r" "ring_count r < ring_cap r"
  shows "ring_window (ring_push e r) = ring_window r @ [e]"
proof -
  have "slot_at ((ring_entries r)[ring_tail r := e]) (ring_head r) i
      = (if i = ring_count r then e else slot_at (ring_entries r) (ring_head r) i)"
    if "i \<le> ring_count r" for i
    using assms that by (simp add: ring_wf_def slot_at_update)
  then show ?thesis
    using ring_push_wf [OF assms, of e] assms(1)
    by (simp add: ring_window_conv) (simp add: ring_push_def)
qed

lemma ring_pop_wf:
  assumes "ring_wf r" "0 < ring_count r"
  shows "ring_wf (ring_pop inval r)"
proof -
  obtain n where n: "ring_count r = Suc n" using assms(2) by (cases "ring_count r") auto
  have "(Suc (ring_head r) mod ring_cap r + n) mod ring_cap r = (ring_head r + Suc n) mod ring_cap r"
    by (simp add: mod_add_left_eq)
  with assms n show ?thesis by (auto simp: ring_wf_def ring_pop_def)
qed

lemma ring_pop_window:
  assumes "ring_wf r" "0 < ring_count r"
  shows "ring_window (ring_pop inval r) = tl (ring_window r)"
proof -
  obtain n where n: "ring_count r = Suc n" using assms(2) by (cases "ring_count r") auto
  let ?es = "(ring_entries r)[ring_head r := inval (ring_entries r ! ring_head r)]"
  have "(ring_head r + 0) mod ring_cap r = ring_head r" using assms by (simp add: ring_wf_def)
  then have "slot_at ?es (ring_head r) (Suc i) = slot_at (ring_entries r) (ring_head r) (Suc i)"
    if "i < n" for i
    using slot_at_update [of "Suc i" "ring_entries r" 0 "ring_head r"] assms n that
    by (auto simp: ring_wf_def)
  then have "ring_window (ring_pop inval r) = map (slot_at (ring_entries r) (ring_head r)) (map Suc [0..<n])"
    using ring_pop_wf [OF assms, of inval] n slot_at_shift [of ?es "ring_head r"]
    by (simp add: ring_window_conv) (simp add: ring_pop_def)
  then show ?thesis
    using assms n by (simp add: ring_window_conv map_Suc_upt tl_upt flip: map_tl del: upt_Suc)
qed

lemma ring_update_window:
  assumes "ring_wf r" "k < ring_count r"
  shows "ring_window (r\<lparr>ring_entries := (ring_entries r)[(ring_head r + k) mod ring_cap r := e]\<rparr>)
    = (ring_window r)[k := e]"
proof (rule nth_equalityI)
  let ?r = "r\<lparr>ring_entries := (ring_entries r)[(ring_head r + k) mod ring_cap r := e]\<rparr>"
  have wf: "ring_wf ?r" using assms by (simp add: ring_wf_entries)
  fix i assume "i < length (ring_window ?r)"
  then have i: "i < ring_count r" by simp
  have "slot_at (ring_entries ?r) (ring_head r) i
      = (if i = k then e else slot_at (ring_entries r) (ring_head r) i)"
    using assms i by (simp add: slot_at_update ring_wf_def)
  then show "ring_window ?r ! i = (ring_window r)[k := e] ! i"
    using wf assms i by (simp add: ring_window_conv nth_list_update)
qed simp

lemma ring_clear_wf: "0 < ring_cap r \<Longrightarrow> ring_wf (ring_clear inval r)"
  by (simp add: ring_wf_def ring_clear_def)

lemma ring_clear_window [simp]: "ring_window (ring_clear inval r) = []"
  by (simp add: ring_window_def ring_clear_def)

subsection \<open>Search and compaction\<close>

lemma ring_find_conv:
  assumes "h < length es"
  shows "ring_find p es ((h + j) mod length es) n =
    map_option (\<lambda>k. (h + k) mod length es) (find (\<lambda>k. p (slot_at es h k)) [j..<j + n])"
proof (induction n arbitrary: j)
  case (Suc n)
  show ?case
    using Suc.IH [of "Suc j"] by (simp add: slot_at_def mod_Suc_eq upt_rec [of j] del: upt_Suc)
qed simp

lemma compact_loop_spec:
  assumes "h < length es" "j + n \<le> length es" "m \<le> j"
  shows "case compact_loop keep inval n ((h + j) mod length es) ((h + m) mod length es) m es of
    (es', t, k) \<Rightarrow>
      length es' = length es \<and> t = (h + k) mod length es \<and> k \<le> length es \<and>
      map (slot_at es' h) [0..<k]
        = map (slot_at es h) [0..<m] @ filter keep (map (slot_at es h) [j..<j + n])"
  using assms
proof (induction n arbitrary: j m es)
  case 0
  then show ?case by simp
next
  case (Suc n)
  let ?c = "length es"
  have jc: "j < ?c" "m < ?c" and rest: "[j..<j + Suc n] = j # [Suc j..<Suc j + n]"
    using Suc.prems by (simp_all add: upt_rec [of j] del: upt_Suc)
  have later: "map (slot_at es1 h) [Suc j..<Suc j + n] = map (slot_at es h) [Suc j..<Suc j + n]"
    if "\<And>i. i < ?c \<Longrightarrow> j < i \<Longrightarrow> slot_at es1 h i = slot_at es h i" for es1
    using that Suc.prems by auto
  show ?case
  proof (cases "keep (slot_at es h j)")
    case True
    define es1 where "es1 = (if (h + j) mod ?c \<noteq> (h + m) mod ?c
      then (es[(h + m) mod ?c := slot_at es h j])[(h + j) mod ?c := inval (slot_at es h j)] else es)"
    have len: "length es1 = ?c" by (simp add: es1_def)
    have es1: "slot_at es1 h i = (if i = m then slot_at es h j
        else if i = j then inval (slot_at es h j) else slot_at es h i)" if "i < ?c" for i
    proof (cases "j = m")
      case True
      then show ?thesis by (simp add: es1_def)
    next
      case False
      then have "(h + j) mod ?c \<noteq> (h + m) mod ?c" using jc mod_add_inj by blast
      then show ?thesis
        using that jc False slot_at_update [of i es m h "slot_at es h j"]
          slot_at_update [of i "es[(h + m) mod ?c := slot_at es h j]" j h "inval (slot_at es h j)"]
        by (auto simp: es1_def split: if_splits)
    qed
    have "compact_loop keep inval (Suc n) ((h + j) mod ?c) ((h + m) mod ?c) m es
        = compact_loop keep inval n ((h + Suc j) mod ?c) ((h + Suc m) mod ?c) (Suc m) es1"
      using True by (simp add: Let_def es1_def slot_at_def mod_Suc_eq)
    moreover have "map (slot_at es1 h) [0..<Suc m] = map (slot_at es h) [0..<m] @ [slot_at es h j]"
      using es1 jc Suc.prems by auto
    moreover have "map (slot_at es1 h) [Suc j..<Suc j + n] = map (slot_at es h) [Suc j..<Suc j + n]"
      using es1 Suc.prems(3) by (intro later) simp
    ultimately show ?thesis
      using Suc.IH [of es1 "Suc j" "Suc m"] Suc.prems True
      unfolding rest by (simp add: len del: upt_Suc compact_loop.simps map_eq_conv)
  next
    case False
    let ?es1 = "es[(h + j) mod ?c := inval (slot_at es h j)]"
    have "compact_loop keep inval (Suc n) ((h + j) mod ?c) ((h + m) mod ?c) m es
        = compact_loop keep inval n ((h + Suc j) mod ?c) ((h + m) mod ?c) m ?es1"
      using False by (simp add: Let_def slot_at_def mod_Suc_eq)
    moreover have "map (slot_at ?es1 h) [0..<m] = map (slot_at es h) [0..<m]"
      using jc Suc.prems by (auto simp: slot_at_update)
    moreover have "map (slot_at ?es1 h) [Suc j..<Suc j + n] = map (slot_at es h) [Suc j..<Suc j + n]"
      using jc by (intro later) (simp add: slot_at_update)
    ultimately show ?thesis
      using Suc.IH [of ?es1 "Suc j" m] Suc.prems False
      unfolding rest by (simp del: upt_Suc compact_loop.simps map_eq_conv)
  qed
qed

lemma ring_compact_spec:
  assumes "ring_wf r"
  shows "ring_wf (ring_compact keep inval r)
    \<and> ring_window (ring_compact keep inval r) = filter keep (ring_window r)"
proof (cases "ring_count r = 0")
  case True
  with assms show ?thesis by (simp add: ring_compact_def ring_window_def)
next
  case False
  obtain es t c where loop: "compact_loop keep inval (ring_count r) (ring_head r) (ring_head r) 0
      (ring_entries r) = (es, t, c)"
    by (metis prod_cases3)
  have "length es = ring_cap r \<and> t = (ring_head r + c) mod ring_cap r \<and> c \<le> ring_cap r \<and>
      map (slot_at es (ring_head r)) [0..<c] = filter keep (ring_window r)"
    using compact_loop_spec [of "ring_head r" "ring_entries r" 0 "ring_count r" 0 keep inval] loop assms
    by (simp add: ring_wf_def ring_window_conv)
  moreover from this have wf: "ring_wf (ring_compact keep inval r)"
    using False assms by (simp add: ring_compact_def loop ring_wf_def)
  ultimately show ?thesis
    using False ring_window_conv [OF wf] by (simp add: ring_compact_def loop)
qed

lemmas ring_compact_wf = ring_compact_spec [THEN conjunct1]
lemmas ring_compact_window = ring_compact_spec [THEN conjunct2]

subsection \<open>Updating the first matching slot\<close>

definition ring_update_first :: "('e \<Rightarrow> bool) \<Rightarrow> ('e \<Rightarrow> 'e) \<Rightarrow> ('e, 'z) ring_scheme \<Rightarrow> ('e, 'z) ring_scheme" where
  "ring_update_first p f r =
    (case ring_find p (ring_entries r) (ring_head r) (ring_count r) of
       None \<Rightarrow> r
     | Some i \<Rightarrow> r\<lparr> ring_entries := (ring_entries r)[i := f (ring_entries r ! i)] \<rparr>)"

fun upd_first :: "('e \<Rightarrow> bool) \<Rightarrow> ('e \<Rightarrow> 'e) \<Rightarrow> 'e list \<Rightarrow> 'e list" where
  "upd_first p f [] = []"
| "upd_first p f (x # xs) = (if p x then f x # xs else x # upd_first p f xs)"

lemma upd_first_none: "\<forall>x \<in> set xs. \<not> p x \<Longrightarrow> upd_first p f xs = xs"
  by (induction xs) auto

lemma upd_first_nth:
  "k < length xs \<Longrightarrow> p (xs ! k) \<Longrightarrow> \<forall>i < k. \<not> p (xs ! i) \<Longrightarrow> upd_first p f xs = xs[k := f (xs ! k)]"
proof (induction xs arbitrary: k)
  case (Cons x xs)
  show ?case
  proof (cases k)
    case 0
    with Cons.prems show ?thesis by simp
  next
    case (Suc j)
    with Cons.prems(3) have "\<not> p x" "\<forall>i < j. \<not> p (xs ! i)" by auto
    with Cons Suc show ?thesis by auto
  qed
qed simp

lemma upd_first_map:
  "(\<And>x y. x \<in> set xs \<Longrightarrow> y \<in> set xs \<Longrightarrow> p x \<Longrightarrow> p y \<Longrightarrow> x = y) \<Longrightarrow> distinct xs \<Longrightarrow>
   upd_first p f xs = map (\<lambda>x. if p x then f x else x) xs"
proof (induction xs)
  case (Cons x xs)
  show ?case
  proof (cases "p x")
    case True
    with Cons.prems have "\<forall>y \<in> set xs. \<not> p y" by auto
    with True show ?thesis by (simp add: map_idI)
  next
    case False
    with Cons show ?thesis by auto
  qed
qed simp

lemma length_upd_first [simp]: "length (upd_first p f xs) = length xs"
  by (induction xs) auto

lemma map_upd_first: "(\<And>x. g (f x) = g x) \<Longrightarrow> map g (upd_first p f xs) = map g xs"
  by (induction xs) auto

lemma ring_update_first_fields [simp]:
  "ring_head (ring_update_first p f r) = ring_head r"
  "ring_tail (ring_update_first p f r) = ring_tail r"
  "ring_count (ring_update_first p f r) = ring_count r"
  "ring_cap (ring_update_first p f r) = ring_cap r"
  by (simp_all add: ring_update_first_def split: option.splits)

lemma ring_update_first_wf: "ring_wf r \<Longrightarrow> ring_wf (ring_update_first p f r)"
  by (simp add: ring_wf_def)

lemma ring_update_first_window:
  assumes "ring_wf r"
  shows "ring_window (ring_update_first p f r) = upd_first p f (ring_window r)"
proof -
  let ?at = "slot_at (ring_entries r) (ring_head r)"
  have find: "ring_find p (ring_entries r) (ring_head r) (ring_count r) =
      map_option (\<lambda>k. (ring_head r + k) mod ring_cap r) (find (\<lambda>k. p (?at k)) [0..<ring_count r])"
    using ring_find_conv [of "ring_head r" "ring_entries r" p 0 "ring_count r"] assms
    by (simp add: ring_wf_def)
  show ?thesis
  proof (cases "find (\<lambda>k. p (?at k)) [0..<ring_count r]")
    case None
    with find have "ring_update_first p f r = r" by (simp add: ring_update_first_def)
    moreover have "upd_first p f (ring_window r) = ring_window r"
      using None assms by (intro upd_first_none) (auto simp: find_None_iff ring_window_conv)
    ultimately show ?thesis by simp
  next
    case (Some k)
    then have k: "k < ring_count r" "p (?at k)" "\<forall>i < k. \<not> p (?at i)"
      by (auto simp: find_Some_iff)
    then have "upd_first p f (ring_window r) = (ring_window r)[k := f (ring_window r ! k)]"
      using assms by (intro upd_first_nth) (simp_all add: ring_window_conv)
    with k Some show ?thesis
      using assms find ring_update_window [OF assms, of k]
      by (simp add: ring_update_first_def ring_window_nth)
  qed
qed

subsection \<open>The interface of an entry type\<close>

definition ring_live :: "('e \<Rightarrow> bool) \<Rightarrow> ('e, 'z) ring_scheme \<Rightarrow> 'e list" where
  "ring_live is_valid r = filter is_valid (ring_window r)"

locale slot =
  fixes is_valid :: "'e \<Rightarrow> bool"
    and inval :: "'e \<Rightarrow> 'e"
    and tag_of :: "'e \<Rightarrow> rob_tag"
  assumes inval_invalid: "\<not> is_valid (inval e)"
    and inval_tag: "tag_of (inval e) = tag_of e"
begin

lemma live_push:
  "ring_wf r \<Longrightarrow> ring_count r < ring_cap r \<Longrightarrow> is_valid e \<Longrightarrow>
   ring_live is_valid (ring_push e r) = ring_live is_valid r @ [e]"
  by (simp add: ring_live_def ring_push_window)

lemma live_pop:
  "ring_wf r \<Longrightarrow> 0 < ring_count r \<Longrightarrow> is_valid (hd (ring_window r)) \<Longrightarrow>
   ring_live is_valid (ring_pop inval r) = tl (ring_live is_valid r)"
  by (cases "ring_window r") (auto simp: ring_live_def ring_pop_window)

lemma live_pop_invalid:
  "ring_wf r \<Longrightarrow> 0 < ring_count r \<Longrightarrow> \<not> is_valid (hd (ring_window r)) \<Longrightarrow>
   ring_live is_valid (ring_pop inval r) = ring_live is_valid r"
  by (cases "ring_window r") (auto simp: ring_live_def ring_pop_window)

lemma live_clear: "ring_live is_valid (ring_clear inval r) = []"
  by (simp add: ring_live_def)

lemma live_compact:
  "ring_wf r \<Longrightarrow> (\<And>e. keep e \<Longrightarrow> is_valid e) \<Longrightarrow>
   ring_live is_valid (ring_compact keep inval r) = filter keep (ring_live is_valid r)"
  by (auto simp: ring_live_def ring_compact_window intro: filter_cong)

lemma live_remove:
  assumes "ring_wf r" "distinct (map tag_of (ring_live is_valid r))"
  shows "ring_live is_valid (ring_update_first (\<lambda>e. is_valid e \<and> tag_of e = t) inval r)
    = filter (\<lambda>e. tag_of e \<noteq> t) (ring_live is_valid r)"
proof -
  have "filter is_valid (upd_first (\<lambda>e. is_valid e \<and> tag_of e = t) inval xs)
      = filter (\<lambda>e. tag_of e \<noteq> t) (filter is_valid xs)"
    if "distinct (map tag_of (filter is_valid xs))" for xs
    using that
  proof (induction xs)
    case (Cons x xs)
    show ?case
    proof (cases "is_valid x \<and> tag_of x = t")
      case True
      with Cons.prems have "t \<notin> tag_of ` set (filter is_valid xs)" by simp
      then have "\<forall>y \<in> set (filter is_valid xs). tag_of y \<noteq> t" by blast
      then have "filter (\<lambda>e. tag_of e \<noteq> t) (filter is_valid xs) = filter is_valid xs"
        by (simp add: filter_id_conv del: filter_filter)
      with True show ?thesis by (simp add: inval_invalid del: filter_filter)
    next
      case False
      from Cons.prems have "distinct (map tag_of (filter is_valid xs))"
        by (simp split: if_splits)
      from Cons.IH [OF this] False show ?thesis by auto
    qed
  qed simp
  with assms show ?thesis by (simp add: ring_live_def ring_update_first_window)
qed

lemma live_update:
  assumes "ring_wf r" "\<And>e. is_valid (f e) = is_valid e" "distinct (map tag_of (ring_live is_valid r))"
  shows "ring_live is_valid (ring_update_first (\<lambda>e. is_valid e \<and> tag_of e = t) f r)
    = map (\<lambda>e. if tag_of e = t then f e else e) (ring_live is_valid r)"
proof -
  have "filter is_valid (upd_first (\<lambda>e. is_valid e \<and> tag_of e = t) f xs)
      = map (\<lambda>e. if tag_of e = t then f e else e) (filter is_valid xs)"
    if "distinct (map tag_of (filter is_valid xs))" for xs
    using that
  proof (induction xs)
    case (Cons x xs)
    show ?case
    proof (cases "is_valid x \<and> tag_of x = t")
      case True
      with Cons.prems have "t \<notin> tag_of ` set (filter is_valid xs)" by simp
      then have "\<forall>y \<in> set (filter is_valid xs). tag_of y \<noteq> t" by blast
      then have "map (\<lambda>e. if tag_of e = t then f e else e) (filter is_valid xs) = filter is_valid xs"
        by (intro map_idI) auto
      with True show ?thesis by (simp add: assms(2))
    next
      case False
      from Cons.prems have "distinct (map tag_of (filter is_valid xs))"
        by (simp split: if_splits)
      from Cons.IH [OF this] False show ?thesis by auto
    qed
  qed simp
  with assms show ?thesis by (simp add: ring_live_def ring_update_first_window)
qed

end

end
