(* ===== verification/Rob.thy ===== *)
theory Rob
  imports Ghr Ring
begin

text \<open>
  The reorder buffer (\<open>core/pipeline/rob.rs\<close>): a ring of entries, the counter that hands out
  tags and the hash map from a tag to its slot. The abstraction is the list of live entries in
  program order (\<open>ring_window\<close>); each operation is shown to act on it as the corresponding
  operation of a queue, with the tag index and the age order of tags kept as an invariant.

  Tags are 32-bit and wrap, skipping 0. The age of a tag is its distance behind the counter.
  The comparison \<open>is_older_than\<close> is right while the oldest live tag is less than \<open>2 ^ 31\<close>
  behind, which is the assumption the source documents at the comparison; \<open>rob_room\<close> is that
  assumption for the next allocation.
\<close>

subsection \<open>Tags\<close>

definition is_older_than :: "rob_tag \<Rightarrow> rob_tag \<Rightarrow> bool" where
  "is_older_than a b \<longleftrightarrow> sint (a - b) < 0"

definition is_newer_than :: "rob_tag \<Rightarrow> rob_tag \<Rightarrow> bool" where
  "is_newer_than a b \<longleftrightarrow> is_older_than b a"

definition is_older_or_eq :: "rob_tag \<Rightarrow> rob_tag \<Rightarrow> bool" where
  "is_older_or_eq a b \<longleftrightarrow> \<not> is_older_than b a"

subsection \<open>Entries\<close>

record bp_outcome =
  bo_taken :: bool
  bo_mispredicted :: bool

datatype rob_state = Issued | Completed | Faulted

record csr_update =
  cu_addr :: csr_addr
  cu_old_val :: u64
  cu_new_val :: u64
  cu_applied :: bool

record rob_entry =
  re_tag :: rob_tag
  re_pc :: u64
  re_inst :: u32
  re_inst_size :: inst_size
  re_rd :: reg_idx
  re_rd_fp :: bool
  re_result :: "u64 option"
  re_store_data :: u64
  re_store_addr :: u64
  re_ctrl :: control_signals
  re_state :: rob_state
  re_trap :: "trap option"
  re_exception_stage :: "exception_stage option"
  re_csr_update :: "csr_update option"
  re_valid :: bool
  re_phys_dst :: phys_reg
  re_old_phys_dst :: phys_reg
  re_fp_flags :: u8
  re_bp_update :: bool
  re_bp_outcome :: bp_outcome
  re_bp_target :: "u64 option"
  re_bp_pc :: u64
  re_bp_ghr_snapshot :: ghr
  re_pte_update :: "pte_update option"
  re_sfence_vma :: "sfence_vma_info option"
  re_lr_sc :: "lr_sc_record option"
  re_checkpoint_id :: "checkpoint_id option"

text \<open>The entry that \<open>allocate\<close> writes; a \<open>RobEntry::default()\<close> is one with every argument
  at its default and \<open>valid\<close> false (\<open>InstSize\<close> defaults to \<open>Standard\<close>).\<close>

definition rob_entry_new :: "rob_tag \<Rightarrow> u64 \<Rightarrow> u32 \<Rightarrow> inst_size \<Rightarrow> reg_idx \<Rightarrow> bool \<Rightarrow> control_signals
    \<Rightarrow> phys_reg \<Rightarrow> phys_reg \<Rightarrow> rob_entry" where
  "rob_entry_new tag pc inst inst_size rd rd_fp ctrl phys_dst old_phys_dst =
    \<lparr> re_tag = tag, re_pc = pc, re_inst = inst, re_inst_size = inst_size, re_rd = rd,
      re_rd_fp = rd_fp, re_result = None, re_store_data = 0, re_store_addr = 0, re_ctrl = ctrl,
      re_state = Issued, re_trap = None, re_exception_stage = None, re_csr_update = None,
      re_valid = True, re_phys_dst = phys_dst, re_old_phys_dst = old_phys_dst, re_fp_flags = 0,
      re_bp_update = False, re_bp_outcome = \<lparr> bo_taken = False, bo_mispredicted = False \<rparr>,
      re_bp_target = None, re_bp_pc = 0, re_bp_ghr_snapshot = ghr_default,
      re_pte_update = None, re_sfence_vma = None, re_lr_sc = None, re_checkpoint_id = None \<rparr>"

definition rob_entry_default :: rob_entry where
  "rob_entry_default =
    (rob_entry_new 0 0 0 Standard 0 False default_ctrl 0 0)\<lparr> re_valid := False \<rparr>"

definition rob_inval :: "rob_entry \<Rightarrow> rob_entry" where
  "rob_inval e = e\<lparr> re_valid := False \<rparr>"

subsection \<open>The buffer\<close>

record rob = "rob_entry ring" +
  rob_next_tag :: u32
  rob_tag_index :: "rob_tag \<rightharpoonup> nat"

definition rob_new :: "nat \<Rightarrow> rob" where
  "rob_new capacity = \<lparr> ring_entries = replicate capacity rob_entry_default,
     ring_head = 0, ring_tail = 0, ring_count = 0, rob_next_tag = 1, rob_tag_index = (\<lambda>_. None) \<rparr>"

definition rob_capacity :: "rob \<Rightarrow> nat" where
  "rob_capacity r = length (ring_entries r)"

definition rob_len :: "rob \<Rightarrow> nat" where
  "rob_len r = ring_count r"

definition rob_is_empty :: "rob \<Rightarrow> bool" where
  "rob_is_empty r \<longleftrightarrow> ring_count r = 0"

definition rob_is_full :: "rob \<Rightarrow> bool" where
  "rob_is_full r \<longleftrightarrow> ring_count r = length (ring_entries r)"

definition rob_free_slots :: "rob \<Rightarrow> nat" where
  "rob_free_slots r = length (ring_entries r) - ring_count r"

definition bump_tag :: "u32 \<Rightarrow> u32" where
  "bump_tag t = (if t + 1 = 0 then 1 else t + 1)"

definition rob_allocate :: "rob \<Rightarrow> u64 \<Rightarrow> u32 \<Rightarrow> inst_size \<Rightarrow> reg_idx \<Rightarrow> bool \<Rightarrow> control_signals
    \<Rightarrow> phys_reg \<Rightarrow> phys_reg \<Rightarrow> rob \<times> rob_tag option" where
  "rob_allocate r pc inst inst_size rd rd_fp ctrl phys_dst old_phys_dst =
    (if rob_is_full r then (r, None)
     else let tag = rob_next_tag r;
              e = rob_entry_new tag pc inst inst_size rd rd_fp ctrl phys_dst old_phys_dst
          in (ring_push e (r\<lparr> rob_next_tag := bump_tag tag,
                rob_tag_index := (rob_tag_index r)(tag \<mapsto> ring_tail r) \<rparr>), Some tag))"

text \<open>\<open>find_entry\<close> looks a tag up through the index; \<open>find_entry_mut\<close> followed by an
  assignment to the entry is \<open>rob_update\<close>.\<close>

definition rob_find_entry :: "rob \<Rightarrow> rob_tag \<Rightarrow> rob_entry option" where
  "rob_find_entry r tag =
    (case rob_tag_index r tag of
       None \<Rightarrow> None
     | Some idx \<Rightarrow> if re_valid (ring_entries r ! idx) then Some (ring_entries r ! idx) else None)"

definition rob_update :: "rob_tag \<Rightarrow> (rob_entry \<Rightarrow> rob_entry) \<Rightarrow> rob \<Rightarrow> rob" where
  "rob_update tag f r =
    (case rob_tag_index r tag of
       None \<Rightarrow> r
     | Some idx \<Rightarrow>
         if re_valid (ring_entries r ! idx)
         then r\<lparr> ring_entries := (ring_entries r)[idx := f (ring_entries r ! idx)] \<rparr> else r)"

definition entry_complete :: "u64 \<Rightarrow> rob_entry \<Rightarrow> rob_entry" where
  "entry_complete result e =
    (if re_state e \<noteq> Faulted then e\<lparr> re_state := Completed, re_result := Some result \<rparr> else e)"

definition rob_complete :: "rob_tag \<Rightarrow> u64 \<Rightarrow> rob \<Rightarrow> rob" where
  "rob_complete tag result = rob_update tag (entry_complete result)"

definition rob_fault :: "rob_tag \<Rightarrow> trap \<Rightarrow> exception_stage \<Rightarrow> rob \<Rightarrow> rob" where
  "rob_fault tag trp stage = rob_update tag
     (\<lambda>e. e\<lparr> re_state := Faulted, re_trap := Some trp, re_exception_stage := Some stage \<rparr>)"

definition rob_set_csr_update :: "rob_tag \<Rightarrow> csr_update \<Rightarrow> rob \<Rightarrow> rob" where
  "rob_set_csr_update tag u = rob_update tag (\<lambda>e. e\<lparr> re_csr_update := Some u \<rparr>)"

definition entry_mark_applied :: "rob_entry \<Rightarrow> rob_entry" where
  "entry_mark_applied e = (case re_csr_update e of None \<Rightarrow> e
     | Some u \<Rightarrow> e\<lparr> re_csr_update := Some (u\<lparr> cu_applied := True \<rparr>) \<rparr>)"

definition rob_mark_csr_applied :: "rob_tag \<Rightarrow> rob \<Rightarrow> rob" where
  "rob_mark_csr_applied tag = rob_update tag entry_mark_applied"

definition rob_set_bp_update :: "rob_tag \<Rightarrow> u64 \<Rightarrow> bp_outcome \<Rightarrow> u64 option \<Rightarrow> ghr \<Rightarrow> rob \<Rightarrow> rob" where
  "rob_set_bp_update tag pc outcome target ghr_snapshot = rob_update tag
     (\<lambda>e. e\<lparr> re_bp_update := True, re_bp_pc := pc, re_bp_outcome := outcome,
        re_bp_target := target, re_bp_ghr_snapshot := ghr_snapshot \<rparr>)"

definition rob_set_bp_target :: "rob_tag \<Rightarrow> u64 \<Rightarrow> rob \<Rightarrow> rob" where
  "rob_set_bp_target tag target = rob_update tag (\<lambda>e. e\<lparr> re_bp_target := Some target \<rparr>)"

definition rob_set_fp_flags :: "rob_tag \<Rightarrow> u8 \<Rightarrow> rob \<Rightarrow> rob" where
  "rob_set_fp_flags tag fl = rob_update tag (\<lambda>e. e\<lparr> re_fp_flags := re_fp_flags e OR fl \<rparr>)"

definition rob_set_pte_update :: "rob_tag \<Rightarrow> pte_update \<Rightarrow> rob \<Rightarrow> rob" where
  "rob_set_pte_update tag u = rob_update tag (\<lambda>e. e\<lparr> re_pte_update := Some u \<rparr>)"

definition rob_set_sfence_vma :: "rob_tag \<Rightarrow> sfence_vma_info \<Rightarrow> rob \<Rightarrow> rob" where
  "rob_set_sfence_vma tag i = rob_update tag (\<lambda>e. e\<lparr> re_sfence_vma := Some i \<rparr>)"

definition rob_set_lr_sc :: "rob_tag \<Rightarrow> lr_sc_record \<Rightarrow> rob \<Rightarrow> rob" where
  "rob_set_lr_sc tag l = rob_update tag (\<lambda>e. e\<lparr> re_lr_sc := Some l \<rparr>)"

definition rob_set_checkpoint_id :: "rob_tag \<Rightarrow> checkpoint_id \<Rightarrow> rob \<Rightarrow> rob" where
  "rob_set_checkpoint_id tag i = rob_update tag (\<lambda>e. e\<lparr> re_checkpoint_id := Some i \<rparr>)"

definition rob_set_store_info :: "rob_tag \<Rightarrow> u64 \<Rightarrow> u64 \<Rightarrow> rob \<Rightarrow> rob" where
  "rob_set_store_info tag addr data = rob_update tag
     (\<lambda>e. e\<lparr> re_store_addr := addr, re_store_data := data \<rparr>)"

text \<open>\<open>drain_fp_flags_before\<close>: the loop over the slots from the head.\<close>

fun drain_loop :: "rob_tag \<Rightarrow> nat \<Rightarrow> nat \<Rightarrow> u8 \<Rightarrow> rob_entry list \<Rightarrow> u8 \<times> rob_entry list" where
  "drain_loop before idx 0 acc es = (acc, es)"
| "drain_loop before idx (Suc n) acc es =
    (let e = es ! idx; idx' = (idx + 1) mod length es in
     if re_valid e \<and> is_older_than (re_tag e) before
     then drain_loop before idx' n (acc OR re_fp_flags e) (es[idx := e\<lparr> re_fp_flags := 0 \<rparr>])
     else drain_loop before idx' n acc es)"

definition rob_drain_fp_flags_before :: "rob_tag \<Rightarrow> rob \<Rightarrow> u8 \<times> rob" where
  "rob_drain_fp_flags_before before r =
    (if ring_count r = 0 then (0, r)
     else let (acc, es) = drain_loop before (ring_head r) (ring_count r) 0 (ring_entries r)
          in (acc, r\<lparr> ring_entries := es \<rparr>))"

definition rob_peek_head :: "rob \<Rightarrow> rob_entry option" where
  "rob_peek_head r = (if ring_count r = 0 then None else Some (ring_entries r ! ring_head r))"

definition rob_commit_head :: "rob \<Rightarrow> rob \<times> rob_entry option" where
  "rob_commit_head r =
    (if ring_count r = 0 then (r, None)
     else let e = ring_entries r ! ring_head r in
       if re_state e = Issued then (r, None)
       else (ring_pop rob_inval (r\<lparr> rob_tag_index := (rob_tag_index r)(re_tag e := None) \<rparr>), Some e))"

definition rob_flush_all :: "rob \<Rightarrow> rob" where
  "rob_flush_all r = ring_clear rob_inval (r\<lparr> rob_tag_index := (\<lambda>_. None) \<rparr>)"

text \<open>The two loops of \<open>flush_after\<close> run from an index until the tail. Both indices are slots
  of the vector (a subscript outside it panics), so the distance to the tail decreases.\<close>

function remove_loop :: "nat \<Rightarrow> nat \<Rightarrow> rob_entry list \<Rightarrow> (rob_tag \<rightharpoonup> nat)
    \<Rightarrow> rob_entry list \<times> (rob_tag \<rightharpoonup> nat)" where
  "remove_loop i tail es index =
    (if i = tail \<or> length es \<le> i \<or> length es \<le> tail then (es, index)
     else remove_loop ((i + 1) mod length es) tail (es[i := rob_inval (es ! i)])
            (index(re_tag (es ! i) := None)))"
  by pat_completeness auto

function recount_loop :: "nat \<Rightarrow> nat \<Rightarrow> rob_entry list \<Rightarrow> nat \<Rightarrow> nat" where
  "recount_loop i tail es count =
    (if i = tail \<or> length es \<le> i \<or> length es \<le> tail then count
     else recount_loop ((i + 1) mod length es) tail es (if re_valid (es ! i) then count + 1 else count))"
  by pat_completeness auto

lemma distance_to_tail_decreases:
  "i \<noteq> t \<Longrightarrow> i < c \<Longrightarrow> t < c \<Longrightarrow> (t + c - Suc i mod c) mod c < (t + c - i) mod c"
  for i t c :: nat
proof -
  assume it: "i \<noteq> t" "i < c" "t < c"
  show ?thesis
  proof (cases "i + 1 = c")
    case True
    with it have "t < i" by simp
    with it True show ?thesis by auto
  next
    case False
    with it have "Suc i mod c = Suc i" by simp
    show ?thesis
    proof (cases "i < t")
      case True
      then obtain d where "t = Suc (i + d)" using less_iff_Suc_add by blast
      moreover from this it have "(d + c) mod c = d" "(Suc d + c) mod c = Suc d"
        by (simp_all only: mod_add_self2) simp_all
      ultimately show ?thesis using it \<open>Suc i mod c = Suc i\<close> by simp
    next
      case False
      with it have "t + c - Suc i < c" "t + c - i < c" by simp_all
      with it \<open>Suc i mod c = Suc i\<close> show ?thesis by simp
    qed
  qed
qed

termination remove_loop
  by (relation "measure (\<lambda>(i, t, es, _). (t + length es - i) mod length es)")
     (simp_all add: distance_to_tail_decreases not_le)

termination recount_loop
  by (relation "measure (\<lambda>(i, t, es, _). (t + length es - i) mod length es)")
     (simp_all add: distance_to_tail_decreases not_le)

declare remove_loop.simps [simp del] recount_loop.simps [simp del]

definition rob_flush_after :: "rob_tag \<Rightarrow> rob \<Rightarrow> rob" where
  "rob_flush_after tag r =
    (if ring_count r = 0 then r
     else case ring_find (\<lambda>e. re_tag e = tag) (ring_entries r) (ring_head r) (ring_count r) of
       None \<Rightarrow> r
     | Some idx \<Rightarrow>
         let keep_idx = (idx + 1) mod length (ring_entries r) in
         if keep_idx = ring_tail r then r
         else let (es, index) = remove_loop keep_idx (ring_tail r) (ring_entries r) (rob_tag_index r)
              in r\<lparr> ring_entries := es, rob_tag_index := index, ring_tail := keep_idx,
                    ring_count := recount_loop (ring_head r) keep_idx es 0 \<rparr>)"

text \<open>Searches from the newest entry backwards.\<close>

fun latest_result :: "reg_idx \<Rightarrow> bool \<Rightarrow> rob_entry list \<Rightarrow> u64 option" where
  "latest_result reg is_fp [] = None"
| "latest_result reg is_fp (e # es) =
    (if re_valid e \<and> re_rd e = reg \<and> re_rd_fp e = is_fp
     then (if re_state e = Completed then re_result e else None)
     else latest_result reg is_fp es)"

definition rob_find_latest_result :: "rob \<Rightarrow> reg_idx \<Rightarrow> bool \<Rightarrow> u64 option" where
  "rob_find_latest_result r reg is_fp =
    (if ring_count r = 0 \<or> (\<not> is_fp \<and> reg_is_zero reg) then None
     else latest_result reg is_fp (ring_window_back r))"

fun latest_producer :: "reg_idx \<Rightarrow> bool \<Rightarrow> rob_entry list \<Rightarrow> (u64 \<times> bool) option" where
  "latest_producer reg is_fp [] = None"
| "latest_producer reg is_fp (e # es) =
    (if re_valid e \<and> re_rd e = reg \<and> re_rd_fp e = is_fp
        \<and> (if is_fp then cs_fp_reg_write (re_ctrl e) else cs_reg_write (re_ctrl e))
     then Some (case re_result e of Some v \<Rightarrow> v | None \<Rightarrow> 0, re_state e = Completed)
     else latest_producer reg is_fp es)"

definition rob_find_latest_producer :: "rob \<Rightarrow> reg_idx \<Rightarrow> bool \<Rightarrow> (u64 \<times> bool) option" where
  "rob_find_latest_producer r reg is_fp =
    (if ring_count r = 0 \<or> (\<not> is_fp \<and> reg_is_zero reg) then None
     else latest_producer reg is_fp (ring_window_back r))"

text \<open>Searches and iterators from the oldest entry forwards.\<close>

fun prev_tag_loop :: "rob_tag \<Rightarrow> rob_tag option \<Rightarrow> rob_entry list \<Rightarrow> rob_tag option" where
  "prev_tag_loop tag prev [] = None"
| "prev_tag_loop tag prev (e # es) =
    (if re_valid e then (if re_tag e = tag then prev else prev_tag_loop tag (Some (re_tag e)) es)
     else prev_tag_loop tag prev es)"

definition rob_prev_tag_of :: "rob \<Rightarrow> rob_tag \<Rightarrow> rob_tag option" where
  "rob_prev_tag_of r tag =
    (if ring_count r = 0 then None else prev_tag_loop tag None (ring_window r))"

definition rob_iter_in_order :: "rob \<Rightarrow> rob_entry list" where
  "rob_iter_in_order r = filter re_valid (ring_window r)"

definition rob_iter_after :: "rob \<Rightarrow> rob_tag \<Rightarrow> rob_entry list" where
  "rob_iter_after r keep_tag =
    filter (\<lambda>e. re_valid e \<and> is_newer_than (re_tag e) keep_tag) (ring_window r)"

definition rob_iter_all :: "rob \<Rightarrow> rob_entry list" where
  "rob_iter_all r = filter re_valid (ring_window r)"

text \<open>\<open>for_each_valid\<close> threads the state that the closure captures.\<close>

definition rob_for_each_valid :: "(rob_entry \<Rightarrow> 's \<Rightarrow> 's) \<Rightarrow> rob \<Rightarrow> 's \<Rightarrow> 's" where
  "rob_for_each_valid f r s = fold (\<lambda>e s. if re_valid e then f e s else s) (ring_window r) s"

fun all_before_loop :: "rob_tag \<Rightarrow> rob_entry list \<Rightarrow> bool" where
  "all_before_loop tag [] = True"
| "all_before_loop tag (e # es) =
    (if re_valid e then
       if re_tag e = tag then True
       else if re_state e = Issued then False
       else all_before_loop tag es
     else all_before_loop tag es)"

definition rob_all_before_completed :: "rob \<Rightarrow> rob_tag \<Rightarrow> bool" where
  "rob_all_before_completed r tag \<longleftrightarrow> ring_count r = 0 \<or> all_before_loop tag (ring_window r)"

fun fence_pred_loop :: "rob_tag \<Rightarrow> bool \<Rightarrow> bool \<Rightarrow> rob_entry list \<Rightarrow> bool" where
  "fence_pred_loop tag pred_r pred_w [] = True"
| "fence_pred_loop tag pred_r pred_w (e # es) =
    (if re_valid e then
       if re_tag e = tag then True
       else if re_state e = Issued
            \<and> (pred_r \<and> cs_mem_read (re_ctrl e) \<or> pred_w \<and> cs_mem_write (re_ctrl e)) then False
       else fence_pred_loop tag pred_r pred_w es
     else fence_pred_loop tag pred_r pred_w es)"

definition rob_fence_pred_satisfied :: "rob \<Rightarrow> rob_tag \<Rightarrow> bool \<Rightarrow> bool \<Rightarrow> bool" where
  "rob_fence_pred_satisfied r tag pred_r pred_w \<longleftrightarrow>
     \<not> pred_r \<and> \<not> pred_w \<or> ring_count r = 0 \<or> fence_pred_loop tag pred_r pred_w (ring_window r)"

definition fence_succ_blocks :: "u32 \<Rightarrow> bool \<Rightarrow> bool \<Rightarrow> bool" where
  "fence_succ_blocks inst is_load is_store =
    (let succ_bits = (ucast (drop_bit 20 inst AND 0xF) :: u8);
         succ_r = succ_bits AND 0b0010 \<noteq> 0; succ_w = succ_bits AND 0b0001 \<noteq> 0
     in is_load \<and> succ_r \<or> is_store \<and> succ_w)"

fun fence_block_loop :: "rob_tag \<Rightarrow> bool \<Rightarrow> bool \<Rightarrow> rob_entry list \<Rightarrow> bool" where
  "fence_block_loop tag is_load is_store [] = False"
| "fence_block_loop tag is_load is_store (e # es) =
    (if re_valid e then
       if re_tag e = tag then False
       else if cs_system_op (re_ctrl e) = Sys_Fence \<and> fence_succ_blocks (re_inst e) is_load is_store
            then True
       else fence_block_loop tag is_load is_store es
     else fence_block_loop tag is_load is_store es)"

definition rob_has_fence_blocking :: "rob \<Rightarrow> rob_tag \<Rightarrow> bool \<Rightarrow> bool \<Rightarrow> bool" where
  "rob_has_fence_blocking r tag is_load is_store \<longleftrightarrow>
     ring_count r \<noteq> 0 \<and> (is_load \<or> is_store) \<and> fence_block_loop tag is_load is_store (ring_window r)"

subsection \<open>The age of a tag\<close>

definition tag_age :: "u32 \<Rightarrow> rob_tag \<Rightarrow> nat" where
  "tag_age now t = unat (now - t)"

lemma is_older_than_age:
  assumes "tag_age now a < 2 ^ 31" "tag_age now b < 2 ^ 31"
  shows "is_older_than a b \<longleftrightarrow> tag_age now b < tag_age now a"
proof -
  have "a - b = of_int (int (tag_age now b) - int (tag_age now a))" by (simp add: tag_age_def)
  moreover have "- (2 ^ 31) \<le> int (tag_age now b) - int (tag_age now a)"
      "int (tag_age now b) - int (tag_age now a) < 2 ^ 31"
    using assms by simp_all
  ultimately have "sint (a - b) = int (tag_age now b) - int (tag_age now a)"
    by (simp only: signed_of_int) (simp add: signed_take_bit_int_eq_self)
  then show ?thesis by (simp add: is_older_than_def)
qed

lemma tag_age_inj: "tag_age now a = tag_age now b \<longleftrightarrow> a = b"
  by (simp add: tag_age_def flip: word_unat_eq_iff)

lemma tag_age_self [simp]: "tag_age now now = 0"
  by (simp add: tag_age_def)

lemma tag_age_plus: "tag_age now t + unat d < 2 ^ 32 \<Longrightarrow> tag_age (now + d) t = tag_age now t + unat d"
proof -
  assume "tag_age now t + unat d < 2 ^ 32"
  then have "unat ((now - t) + d) = unat (now - t) + unat d"
    by (subst unat_add_lem [symmetric]) (simp add: tag_age_def)
  moreover have "(now - t) + d = now + d - t" by (simp add: diff_add_eq)
  ultimately show ?thesis by (simp only: tag_age_def)
qed

lemma tag_age_bump:
  assumes "tag_age now t < 2 ^ 31"
  shows "tag_age (bump_tag now) t = tag_age now t + (if now + 1 = 0 then 2 else 1)"
proof -
  have "bump_tag now = now + (if now + 1 = 0 then 2 else 1)"
    by (auto simp: bump_tag_def add.commute dest: arg_cong [where f = "\<lambda>x. x + 1"])
  with assms tag_age_plus [of now t "if now + 1 = 0 then 2 else 1"] show ?thesis by auto
qed

definition ages_ok :: "u32 \<Rightarrow> rob_tag list \<Rightarrow> bool" where
  "ages_ok now ts \<longleftrightarrow> sorted_wrt (\<lambda>a b. tag_age now b < tag_age now a) ts
     \<and> (\<forall>t \<in> set ts. 0 < tag_age now t \<and> tag_age now t < 2 ^ 31)"

lemma ages_ok_Nil [simp]: "ages_ok now []"
  by (simp add: ages_ok_def)

lemma ages_ok_distinct: "ages_ok now ts \<Longrightarrow> distinct ts"
  by (induction ts) (auto simp: ages_ok_def)

lemma ages_ok_tl: "ages_ok now (t # ts) \<Longrightarrow> ages_ok now ts"
  by (simp add: ages_ok_def)

lemma ages_ok_take: "ages_ok now ts \<Longrightarrow> ages_ok now (take n ts)"
  by (auto simp: ages_ok_def sorted_wrt_take dest: in_set_takeD)

lemma ages_ok_push:
  assumes "ages_ok now ts" "\<forall>t \<in> set ts. tag_age now t + 2 < 2 ^ 31"
  shows "ages_ok (bump_tag now) (ts @ [now])"
proof -
  have bump: "tag_age (bump_tag now) t = tag_age now t + (if now + 1 = 0 then 2 else 1)"
    if "t \<in> insert now (set ts)" for t
    using that assms(2) by (intro tag_age_bump) auto
  have "sorted_wrt (\<lambda>a b. tag_age (bump_tag now) b < tag_age (bump_tag now) a) ts"
    using assms(1) bump by (auto simp: ages_ok_def elim!: sorted_wrt_mono_rel [rotated])
  with assms bump show ?thesis
    by (auto simp: ages_ok_def sorted_wrt_append)
qed

subsection \<open>The invariant\<close>

text \<open>The slots in use, oldest first, and the contents the tag index must have.\<close>

definition ring_slots :: "('e, 'z) ring_scheme \<Rightarrow> nat list" where
  "ring_slots r = map (\<lambda>k. (ring_head r + k) mod ring_cap r) [0..<ring_count r]"

abbreviation rob_tags :: "rob \<Rightarrow> rob_tag list" where
  "rob_tags r \<equiv> map re_tag (ring_window r)"

definition rob_inv :: "rob \<Rightarrow> bool" where
  "rob_inv r \<longleftrightarrow> ring_wf r \<and> (\<forall>e \<in> set (ring_window r). re_valid e \<and> re_tag e \<noteq> 0)
     \<and> rob_next_tag r \<noteq> 0 \<and> ages_ok (rob_next_tag r) (rob_tags r)
     \<and> rob_tag_index r = map_of (zip (rob_tags r) (ring_slots r))"

definition rob_room :: "rob \<Rightarrow> bool" where
  "rob_room r \<longleftrightarrow> (\<forall>e \<in> set (ring_window r). tag_age (rob_next_tag r) (re_tag e) + 2 < 2 ^ 31)"

lemma rob_inv_wf [dest]: "rob_inv r \<Longrightarrow> ring_wf r"
  and rob_inv_ages: "rob_inv r \<Longrightarrow> ages_ok (rob_next_tag r) (rob_tags r)"
  and rob_inv_valid: "rob_inv r \<Longrightarrow> e \<in> set (ring_window r) \<Longrightarrow> re_valid e"
  and rob_inv_index: "rob_inv r \<Longrightarrow> rob_tag_index r = map_of (zip (rob_tags r) (ring_slots r))"
  by (simp_all add: rob_inv_def)

lemma rob_inv_distinct: "rob_inv r \<Longrightarrow> distinct (rob_tags r)"
  by (rule ages_ok_distinct) (rule rob_inv_ages)

lemma length_ring_slots [simp]: "length (ring_slots r) = ring_count r"
  by (simp add: ring_slots_def)

lemma ring_slots_nth: "k < ring_count r \<Longrightarrow> ring_slots r ! k = (ring_head r + k) mod ring_cap r"
  by (simp add: ring_slots_def)

lemma ring_slots_cong:
  "ring_head r' = ring_head r \<Longrightarrow> ring_cap r' = ring_cap r \<Longrightarrow> ring_count r' = ring_count r \<Longrightarrow>
   ring_slots r' = ring_slots r"
  by (simp add: ring_slots_def)

lemma map_of_zip_nth_iff:
  "distinct xs \<Longrightarrow> length xs = length ys \<Longrightarrow>
   map_of (zip xs ys) x = Some y \<longleftrightarrow> (\<exists>k < length xs. xs ! k = x \<and> ys ! k = y)"
  by (auto simp: map_of_eq_Some_iff set_zip)

lemma map_of_zip_snoc:
  "length xs = length ys \<Longrightarrow> x \<notin> set xs \<Longrightarrow> map_of (zip (xs @ [x]) (ys @ [y])) = (map_of (zip xs ys))(x \<mapsto> y)"
  by (induction xs ys rule: list_induct2) (auto simp: fun_upd_twist)

lemma map_of_zip_fresh: "x \<notin> set xs \<Longrightarrow> map_of (zip xs ys) x = None"
  by (auto simp: map_of_eq_None_iff dest!: set_zip_leftD)

text \<open>The position of an entry: what the tag index gives for it.\<close>

lemma rob_index_nth:
  "rob_inv r \<Longrightarrow> k < ring_count r \<Longrightarrow> re_tag (ring_window r ! k) = t \<Longrightarrow>
   rob_tag_index r t = Some ((ring_head r + k) mod ring_cap r)"
  unfolding rob_inv_index
  by (subst map_of_zip_nth_iff) (auto simp: rob_inv_distinct ring_slots_nth intro!: exI [of _ k])

lemma find_unique:
  "distinct (map f xs) \<Longrightarrow> k < length xs \<Longrightarrow> f (xs ! k) = t \<Longrightarrow> find (\<lambda>x. f x = t) xs = Some (xs ! k)"
proof (induction xs arbitrary: k)
  case (Cons x xs)
  then show ?case by (cases k) auto
qed simp

lemma rob_index_None: "rob_inv r \<Longrightarrow> t \<notin> set (rob_tags r) \<Longrightarrow> rob_tag_index r t = None"
  by (simp add: rob_inv_index map_of_zip_fresh del: set_map)

lemma rob_find_entry_conv:
  assumes "rob_inv r"
  shows "rob_find_entry r t = find (\<lambda>e. re_tag e = t) (ring_window r)"
proof (cases "t \<in> set (rob_tags r)")
  case True
  then obtain k where k: "k < ring_count r" "re_tag (ring_window r ! k) = t"
    by (auto simp: in_set_conv_nth)
  have "find (\<lambda>e. re_tag e = t) (ring_window r) = Some (ring_window r ! k)"
    using k rob_inv_distinct [OF assms] by (intro find_unique) simp_all
  moreover have "re_valid (ring_window r ! k)"
    using assms k by (auto intro: rob_inv_valid)
  ultimately show ?thesis
    using assms k by (simp add: rob_find_entry_def rob_index_nth ring_window_nth [OF rob_inv_wf, symmetric])
next
  case False
  then have "find (\<lambda>e. re_tag e = t) (ring_window r) = None" by (auto simp: find_None_iff)
  with False show ?thesis by (simp add: rob_find_entry_def rob_index_None [OF assms False])
qed

lemma rob_new_inv [inv_intros]: "0 < n \<Longrightarrow> rob_inv (rob_new n)"
  by (simp add: rob_inv_def rob_new_def ring_wf_def ring_window_def ring_slots_def)

subsection \<open>Allocation, update and commit\<close>

lemma ring_push_slots:
  "ring_wf r \<Longrightarrow> ring_slots (ring_push e r) = ring_slots r @ [ring_tail r]"
  by (simp add: ring_slots_def ring_push_def ring_wf_def)

lemma rob_push_upd:
  "ring_push e (r\<lparr>rob_next_tag := n, rob_tag_index := ix\<rparr>) = (ring_push e r)\<lparr>rob_next_tag := n, rob_tag_index := ix\<rparr>"
  by (simp add: ring_push_def)

lemma ring_view_upd [simp]:
  "ring_window (r\<lparr>rob_next_tag := n\<rparr>) = ring_window r" "ring_slots (r\<lparr>rob_next_tag := n\<rparr>) = ring_slots r"
  "ring_window (r\<lparr>rob_tag_index := ix\<rparr>) = ring_window r" "ring_slots (r\<lparr>rob_tag_index := ix\<rparr>) = ring_slots r"
  "ring_wf (r\<lparr>rob_next_tag := n\<rparr>) = ring_wf r" "ring_wf (r\<lparr>rob_tag_index := ix\<rparr>) = ring_wf r"
  by (simp_all add: ring_window_def ring_slots_def ring_wf_def)

lemma ring_push_fields [simp]:
  "rob_next_tag (ring_push e r) = rob_next_tag r" "rob_tag_index (ring_push e r) = rob_tag_index r"
  "ring_cap (ring_push e q) = ring_cap q"
  by (simp_all add: ring_push_def)

lemma ring_pop_fields [simp]:
  "rob_next_tag (ring_pop f r) = rob_next_tag r" "rob_tag_index (ring_pop f r) = rob_tag_index r"
  "ring_cap (ring_pop f q) = ring_cap q"
  by (simp_all add: ring_pop_def)

lemma bump_tag_nonzero [simp]: "bump_tag t \<noteq> 0"
  by (simp add: bump_tag_def)

lemma rob_allocate_spec:
  assumes "rob_inv r" "\<not> rob_is_full r"
    and e_def: "e = rob_entry_new (rob_next_tag r) pc inst sz rd fp ctrl pd opd"
    and "rob_allocate r pc inst sz rd fp ctrl pd opd = (r', res)"
  shows "res = Some (rob_next_tag r)" "ring_window r' = ring_window r @ [e]"
    and "rob_room r \<Longrightarrow> rob_inv r'" and "rob_next_tag r' = bump_tag (rob_next_tag r)"
proof -
  have room: "ring_count r < ring_cap r"
    using assms(1,2) by (auto simp: rob_is_full_def rob_inv_def ring_wf_def)
  have wf: "ring_wf r" using assms(1) by auto
  have r': "r' = (ring_push e r)\<lparr>rob_next_tag := bump_tag (rob_next_tag r),
      rob_tag_index := (rob_tag_index r)(rob_next_tag r \<mapsto> ring_tail r)\<rparr>"
    and res: "res = Some (rob_next_tag r)"
    using assms(2,4) by (simp_all add: rob_allocate_def Let_def e_def rob_push_upd)
  show "res = Some (rob_next_tag r)" "rob_next_tag r' = bump_tag (rob_next_tag r)"
    using res r' by simp_all
  show win: "ring_window r' = ring_window r @ [e]"
    using r' room wf by (simp add: ring_push_window)
  have fresh: "rob_next_tag r \<notin> set (rob_tags r)"
    using rob_inv_ages [OF assms(1)] by (auto simp: ages_ok_def)
  show "rob_inv r'" if "rob_room r"
  proof -
    have "ages_ok (bump_tag (rob_next_tag r)) (rob_tags r @ [rob_next_tag r])"
      using that rob_inv_ages [OF assms(1)] by (intro ages_ok_push) (auto simp: rob_room_def)
    moreover have "re_tag e = rob_next_tag r" "re_valid e" by (simp_all add: e_def rob_entry_new_def)
    ultimately show ?thesis
      using assms(1) room wf fresh ring_push_wf [OF wf room, of e] win
      by (simp add: rob_inv_def r' ring_push_slots map_of_zip_snoc del: zip_append)
  qed
qed

text \<open>An update through the index changes exactly the entry with the tag.\<close>

definition tag_preserving :: "(rob_entry \<Rightarrow> rob_entry) \<Rightarrow> bool" where
  "tag_preserving f \<longleftrightarrow> (\<forall>e. re_tag (f e) = re_tag e \<and> re_valid (f e) = re_valid e)"

lemma map_update_unique:
  "distinct (map g xs) \<Longrightarrow> k < length xs \<Longrightarrow>
   xs[k := f (xs ! k)] = map (\<lambda>x. if g x = g (xs ! k) then f x else x) xs"
  by (rule nth_equalityI) (auto simp: nth_list_update distinct_conv_nth)

lemma rob_update_window:
  assumes "rob_inv r"
  shows "ring_window (rob_update t f r) = map (\<lambda>e. if re_tag e = t then f e else e) (ring_window r)"
proof (cases "t \<in> set (rob_tags r)")
  case True
  then obtain k where k: "k < ring_count r" "re_tag (ring_window r ! k) = t"
    by (auto simp: in_set_conv_nth)
  have "re_valid (ring_window r ! k)" using assms k by (auto intro: rob_inv_valid)
  then have "ring_window (rob_update t f r) = (ring_window r)[k := f (ring_window r ! k)]"
    using k ring_update_window [OF rob_inv_wf [OF assms] k(1)]
    by (simp add: rob_update_def rob_index_nth [OF assms k] ring_window_nth [OF rob_inv_wf [OF assms] k(1)])
  also have "\<dots> = map (\<lambda>e. if re_tag e = re_tag (ring_window r ! k) then f e else e) (ring_window r)"
    using k(1) by (intro map_update_unique [OF rob_inv_distinct [OF assms]]) simp
  finally show ?thesis by (simp only: k(2))
next
  case False
  then have "map (\<lambda>e. if re_tag e = t then f e else e) (ring_window r) = ring_window r"
    by (intro map_idI) auto
  with False show ?thesis by (simp add: rob_update_def rob_index_None [OF assms False])
qed

lemma rob_update_fields [simp]:
  "ring_head (rob_update t f r) = ring_head r" "ring_tail (rob_update t f r) = ring_tail r"
  "ring_count (rob_update t f r) = ring_count r" "ring_cap (rob_update t f r) = ring_cap r"
  "rob_next_tag (rob_update t f r) = rob_next_tag r"
  "rob_tag_index (rob_update t f r) = rob_tag_index r"
  by (simp_all add: rob_update_def split: option.splits)

lemma rob_update_inv [inv_intros]:
  assumes "rob_inv r" "tag_preserving f"
  shows "rob_inv (rob_update t f r)"
proof -
  have "rob_tags (rob_update t f r) = rob_tags r"
    using assms by (simp add: rob_update_window tag_preserving_def)
  moreover have "ring_slots (rob_update t f r) = ring_slots r" by (rule ring_slots_cong) simp_all
  moreover have "\<forall>e \<in> set (ring_window (rob_update t f r)). re_valid e \<and> re_tag e \<noteq> 0"
    using assms by (auto simp: rob_update_window tag_preserving_def rob_inv_def)
  ultimately show ?thesis
    using assms(1) by (simp add: rob_inv_def ring_wf_def)
qed

lemma rob_commit_head_spec:
  assumes "rob_inv r"
  shows "rob_commit_head r =
      (case ring_window r of
         [] \<Rightarrow> (r, None)
       | e # _ \<Rightarrow> if re_state e = Issued then (r, None)
                 else (fst (rob_commit_head r), Some e))"
    and "ring_window (fst (rob_commit_head r)) =
      (case ring_window r of
         [] \<Rightarrow> []
       | e # es \<Rightarrow> if re_state e = Issued then e # es else es)"
    and "rob_inv (fst (rob_commit_head r))"
    and "rob_next_tag (fst (rob_commit_head r)) = rob_next_tag r"
proof -
  have wf: "ring_wf r" using assms by auto
  have head: "ring_entries r ! ring_head r = e" if "ring_window r = e # es" for e es
    using that ring_window_nth [OF wf, of 0] wf length_ring_window [of r]
    by (simp add: ring_wf_def del: length_ring_window)
  have cnt: "ring_count r = 0 \<longleftrightarrow> ring_window r = []" by (metis length_0_conv length_ring_window)
  show "rob_commit_head r =
      (case ring_window r of [] \<Rightarrow> (r, None)
       | e # _ \<Rightarrow> if re_state e = Issued then (r, None) else (fst (rob_commit_head r), Some e))"
    using cnt head by (auto simp: rob_commit_head_def Let_def split: list.splits)
  let ?pop = "\<lambda>t. ring_pop rob_inval (r\<lparr>rob_tag_index := (rob_tag_index r)(t := None)\<rparr>)"
  have pop: "?pop t = (ring_pop rob_inval r)\<lparr>rob_tag_index := (rob_tag_index r)(t := None)\<rparr>" for t
    by (simp add: ring_pop_def)
  show "ring_window (fst (rob_commit_head r)) =
      (case ring_window r of [] \<Rightarrow> [] | e # es \<Rightarrow> if re_state e = Issued then e # es else es)"
    using cnt head ring_pop_window [OF wf]
    by (auto simp: rob_commit_head_def Let_def pop split: list.splits)
  show "rob_next_tag (fst (rob_commit_head r)) = rob_next_tag r"
    by (simp add: rob_commit_head_def Let_def ring_pop_def)
  have "rob_inv (?pop (re_tag e))" if win: "ring_window r = e # es" for e es
  proof -
    obtain n where n: "ring_count r = Suc n" using cnt win by (cases "ring_count r") auto
    have slots: "ring_slots r = ring_head r # ring_slots (ring_pop rob_inval r)"
      using wf n by (simp add: ring_slots_def ring_pop_def ring_wf_def upt_rec [of 0] mod_add_left_eq
        map_Suc_upt [symmetric] comp_def del: upt_Suc)
    have fresh: "re_tag e \<notin> re_tag ` set es" using rob_inv_distinct [OF assms] win by simp
    then have "map_of (zip (map re_tag es) sl) (re_tag e) = None" for sl :: "nat list"
      by (intro map_of_zip_fresh) simp
    then have "(rob_tag_index r)(re_tag e := None)
        = map_of (zip (map re_tag es) (ring_slots (ring_pop rob_inval r)))"
      using rob_inv_index [OF assms] win slots by (auto simp: fun_upd_idem)
    moreover have "ages_ok (rob_next_tag r) (map re_tag es)"
      using rob_inv_ages [OF assms] win by (simp add: ages_ok_tl)
    ultimately show ?thesis
      using assms win n ring_pop_wf [OF wf, of rob_inval] ring_pop_window [OF wf, of rob_inval]
      unfolding pop rob_inv_def by simp
  qed
  then show "rob_inv (fst (rob_commit_head r))"
    using assms cnt head by (cases "ring_window r") (auto simp: rob_commit_head_def Let_def)
qed

lemma rob_flush_all_spec:
  "rob_inv r \<Longrightarrow> rob_inv (rob_flush_all r)" "ring_window (rob_flush_all r) = []"
  "rob_next_tag (rob_flush_all r) = rob_next_tag r"
proof -
  have eq: "rob_flush_all r = (ring_clear rob_inval r)\<lparr>rob_tag_index := (\<lambda>_. None)\<rparr>"
    by (simp add: rob_flush_all_def ring_clear_def)
  show "ring_window (rob_flush_all r) = []" by (simp add: eq)
  show "rob_next_tag (rob_flush_all r) = rob_next_tag r" by (simp add: eq ring_clear_def)
  show "rob_inv (rob_flush_all r)" if "rob_inv r"
    using that ring_clear_wf [of r rob_inval] by (simp add: rob_inv_def eq ring_wf_def [of r])
      (simp add: ring_clear_def)
qed

subsection \<open>Flushing the entries after a tag\<close>

lemma mod_offset_neq: "j < n \<Longrightarrow> n - j < c \<Longrightarrow> (h + j) mod c \<noteq> (h + n) mod c" for h j n c :: nat
proof
  assume jn: "j < n" "n - j < c" and eq: "(h + j) mod c = (h + n) mod c"
  then have "(h + j + 0) mod c = (h + j + (n - j)) mod c" by simp
  with jn have "0 = n - j" by (intro mod_add_inj [of 0 c "n - j" "h + j"]) simp_all
  with jn show False by simp
qed

lemma remove_loop_spec:
  assumes "h < length es" "j \<le> n" "n \<le> length es" "n - j < length es"
  shows "case remove_loop ((h + j) mod length es) ((h + n) mod length es) es ix of (es', ix') \<Rightarrow>
    length es' = length es
    \<and> (\<forall>i < length es. slot_at es' h i = (if j \<le> i \<and> i < n then rob_inval (slot_at es h i) else slot_at es h i))
    \<and> ix' = ix |` (- (re_tag ` slot_at es h ` {j..<n}))"
  using assms
proof (induction "n - j" arbitrary: j es ix)
  case 0
  then show ?case by (subst remove_loop.simps) (auto simp: restrict_map_def)
next
  case (Suc d)
  let ?c = "length es" and ?e = "slot_at es h j"
  let ?es1 = "es[(h + j) mod length es := rob_inval ?e]"
  have jn: "j < n" "j < ?c" using Suc.hyps(2) Suc.prems by simp_all
  have "(h + j) mod ?c \<noteq> (h + n) mod ?c" using jn(1) Suc.prems(4) by (rule mod_offset_neq)
  moreover have "\<not> ?c \<le> (h + x) mod ?c" for x
    using Suc.prems(1) mod_less_divisor [of ?c "h + x"] by linarith
  ultimately have step: "remove_loop ((h + j) mod ?c) ((h + n) mod ?c) es ix =
      remove_loop ((h + Suc j) mod ?c) ((h + n) mod ?c) ?es1 (ix(re_tag ?e := None))"
    by (subst remove_loop.simps) (simp add: slot_at_def mod_Suc_eq)
  have at: "slot_at ?es1 h i = (if i = j then rob_inval ?e else slot_at es h i)" if "i < ?c" for i
    using that jn by (simp add: slot_at_update)
  have "slot_at ?es1 h ` {Suc j..<n} = slot_at es h ` {Suc j..<n}"
    using at Suc.prems(3) by (intro image_cong) auto
  moreover have "{j..<n} = insert j {Suc j..<n}" using jn by auto
  moreover have "(ix(re_tag ?e := None)) |` (- A) = ix |` (- insert (re_tag ?e) A)" for A
    by (auto simp: restrict_map_def)
  ultimately show ?case
    using Suc.hyps(1) [of "Suc j" ?es1 "ix(re_tag ?e := None)"] Suc.hyps(2) Suc.prems jn at
    unfolding step by (auto simp: not_less_eq_eq dest: le_antisym split: prod.splits)
qed

lemma recount_loop_spec:
  assumes "h < length es" "i \<le> m" "m < length es" "\<forall>k < m. re_valid (slot_at es h k)"
  shows "recount_loop ((h + i) mod length es) ((h + m) mod length es) es k = k + (m - i)"
  using assms
proof (induction "m - i" arbitrary: i k)
  case 0
  then show ?case by (subst recount_loop.simps) simp
next
  case (Suc d)
  then have im: "i < m" and "re_valid (es ! ((h + i) mod length es))" by (auto simp: slot_at_def)
  moreover have "(h + i) mod length es \<noteq> (h + m) mod length es"
    using im Suc.prems by (intro mod_offset_neq) simp_all
  moreover have "\<not> length es \<le> (h + x) mod length es" for x
    using Suc.prems(1) mod_less_divisor [of "length es" "h + x"] by linarith
  ultimately show ?case
    using Suc.hyps(1) [of "Suc i" "Suc k"] Suc.hyps(2) Suc.prems
    by (subst recount_loop.simps) (simp add: mod_Suc_eq)
qed

lemma map_of_zip_restrict_drop:
  assumes "distinct xs" "length xs = length ys"
  shows "map_of (zip xs ys) |` (- set (drop m xs)) = map_of (zip (take m xs) (take m ys))"
proof -
  let ?a = "map_of (zip (take m xs) (take m ys))" and ?b = "map_of (zip (drop m xs) (drop m ys))"
  have eq: "map_of (zip xs ys) = ?b ++ ?a"
    using assms(2) by (metis append_take_drop_id length_take map_of_append zip_append)
  have "set (take m xs) \<inter> set (drop m xs) = {}"
    using assms(1) by (metis append_take_drop_id distinct_append)
  moreover have "dom ?a = set (take m xs)" "dom ?b = set (drop m xs)"
    using assms(2) by (simp_all add: dom_map_of_zip)
  ultimately show ?thesis
    unfolding eq by (auto simp: restrict_map_def map_add_def fun_eq_iff domIff split: option.splits)
qed

lemma rob_flush_after_absent: "rob_inv r \<Longrightarrow> t \<notin> set (rob_tags r) \<Longrightarrow> rob_flush_after t r = r"
proof -
  assume inv: "rob_inv r" and t: "t \<notin> set (rob_tags r)"
  have wf: "ring_wf r" using inv by auto
  have "find (\<lambda>k. re_tag (slot_at (ring_entries r) (ring_head r) k) = t) [0..<ring_count r] = None"
    using t wf by (auto simp: find_None_iff ring_window_conv)
  then have "ring_find (\<lambda>e. re_tag e = t) (ring_entries r) (ring_head r) (ring_count r) = None"
    using ring_find_conv [of "ring_head r" "ring_entries r" "\<lambda>e. re_tag e = t" 0 "ring_count r"] wf
    by (simp add: ring_wf_def)
  then show ?thesis by (simp add: rob_flush_after_def)
qed

lemma rob_flush_after_present:
  assumes inv: "rob_inv r" and k: "k < ring_count r" "re_tag (ring_window r ! k) = t"
  shows "ring_window (rob_flush_after t r) = take (Suc k) (ring_window r) \<and> rob_inv (rob_flush_after t r)
    \<and> rob_next_tag (rob_flush_after t r) = rob_next_tag r"
proof (cases "Suc k = ring_count r")
  let ?es = "ring_entries r" and ?h = "ring_head r" and ?c = "ring_cap r" and ?n = "ring_count r"
  have wf: "ring_wf r" using inv by auto
  then have hc: "?h < ?c" "?n \<le> ?c" "ring_tail r = (?h + ?n) mod ?c" by (simp_all add: ring_wf_def)
  have "distinct (map (\<lambda>k. re_tag (slot_at ?es ?h k)) [0..<?n])"
    using rob_inv_distinct [OF inv] wf by (simp add: ring_window_conv comp_def)
  moreover have "re_tag (slot_at ?es ?h ([0..<?n] ! k)) = t" using k wf by (simp add: ring_window_conv)
  ultimately have "find (\<lambda>k. re_tag (slot_at ?es ?h k) = t) [0..<?n] = Some ([0..<?n] ! k)"
    using k by (intro find_unique) simp_all
  then have find: "ring_find (\<lambda>e. re_tag e = t) ?es ?h ?n = Some ((?h + k) mod ?c)"
    using ring_find_conv [of ?h ?es "\<lambda>e. re_tag e = t" 0 ?n] k hc by simp
  {
    case True
    with find hc have "rob_flush_after t r = r"
      by (simp add: rob_flush_after_def Let_def mod_Suc_eq) (metis add_Suc_right)
    with True inv show ?thesis by simp
  next
    case False
    with k have m: "Suc k < ?n" by simp
    then have "(?h + Suc k) mod ?c \<noteq> (?h + ?n) mod ?c" using hc by (intro mod_offset_neq) simp_all
    then have keep: "Suc ((?h + k) mod ?c) mod ?c \<noteq> ring_tail r" "Suc ((?h + k) mod ?c) mod ?c = (?h + Suc k) mod ?c"
      using hc by (simp_all add: mod_Suc_eq)
    obtain es' ix' where loop: "remove_loop ((?h + Suc k) mod ?c) (ring_tail r) ?es (rob_tag_index r) = (es', ix')"
      by (metis surj_pair)
    then have es': "length es' = ?c"
        "\<forall>i < ?c. slot_at es' ?h i = (if Suc k \<le> i \<and> i < ?n then rob_inval (slot_at ?es ?h i) else slot_at ?es ?h i)"
      and ix': "ix' = rob_tag_index r |` (- (re_tag ` slot_at ?es ?h ` {Suc k..<?n}))"
      using remove_loop_spec [of ?h ?es "Suc k" ?n "rob_tag_index r"] m hc by simp_all
    have pre: "map (slot_at es' ?h) [0..<Suc k] = take (Suc k) (ring_window r)"
      using es' m hc wf by (simp add: ring_window_conv take_map take_upt del: upt_Suc)
    then have "\<forall>i < Suc k. re_valid (slot_at es' ?h i)"
      using inv wf m es' hc by (auto simp: rob_inv_def ring_window_conv)
    then have cnt: "recount_loop ?h ((?h + Suc k) mod ?c) es' 0 = Suc k"
      using recount_loop_spec [of ?h es' 0 "Suc k" 0] es'(1) hc m by simp
    let ?r = "r\<lparr>ring_entries := es', rob_tag_index := ix', ring_tail := (?h + Suc k) mod ?c, ring_count := Suc k\<rparr>"
    have flush: "rob_flush_after t r = ?r"
      using k find keep loop cnt by (simp add: rob_flush_after_def Let_def)
    have wf': "ring_wf ?r" using wf es'(1) hc m by (simp add: ring_wf_def)
    have win: "ring_window ?r = take (Suc k) (ring_window r)"
      unfolding ring_window_conv [OF wf'] using pre by simp
    have slots: "ring_slots ?r = take (Suc k) (ring_slots r)"
      using es'(1) m by (simp add: ring_slots_def take_map take_upt del: upt_Suc)
    have "set (drop (Suc k) (rob_tags r)) = re_tag ` slot_at ?es ?h ` {Suc k..<?n}"
      using wf by (simp add: ring_window_conv drop_map drop_upt image_image)
    then have "ix' = map_of (zip (map re_tag (ring_window ?r)) (ring_slots ?r))"
      using map_of_zip_restrict_drop [OF rob_inv_distinct [OF inv], of "ring_slots r" "Suc k"]
      unfolding win slots by (simp add: ix' rob_inv_index [OF inv] take_map)
    moreover have "ages_ok (rob_next_tag r) (map re_tag (ring_window ?r))"
      using ages_ok_take [OF rob_inv_ages [OF inv], of "Suc k"] unfolding win by (simp add: take_map)
    ultimately have "rob_inv ?r"
      using inv wf' unfolding rob_inv_def win by (auto dest: in_set_takeD)
    then show ?thesis unfolding flush win by simp
  }
qed

subsection \<open>Draining floating-point flags\<close>

definition drain_entry :: "rob_tag \<Rightarrow> rob_entry \<Rightarrow> rob_entry" where
  "drain_entry b e = (if re_valid e \<and> is_older_than (re_tag e) b then e\<lparr>re_fp_flags := 0\<rparr> else e)"

definition drain_flags :: "rob_tag \<Rightarrow> rob_entry list \<Rightarrow> u8" where
  "drain_flags b es = fold (OR) (map re_fp_flags (filter (\<lambda>e. re_valid e \<and> is_older_than (re_tag e) b) es)) 0"

lemma fold_or_u8: "fold (OR) xs (acc :: u8) = acc OR fold (OR) xs 0"
proof (induction xs arbitrary: acc)
  case (Cons x xs)
  from Cons.IH [of "x OR acc"] Cons.IH [of x] show ?case by (simp add: or.assoc or.left_commute)
qed simp

lemma drain_loop_spec:
  assumes "h < length es" "j + n \<le> length es"
  shows "case drain_loop b ((h + j) mod length es) n acc es of (acc', es') \<Rightarrow>
    length es' = length es
    \<and> (\<forall>i < length es. slot_at es' h i =
          (if j \<le> i \<and> i < j + n then drain_entry b (slot_at es h i) else slot_at es h i))
    \<and> acc' = acc OR drain_flags b (map (slot_at es h) [j..<j + n])"
  using assms
proof (induction n arbitrary: j acc es)
  case 0
  then show ?case by (auto simp: drain_flags_def)
next
  case (Suc n)
  let ?c = "length es" and ?e = "slot_at es h j"
  define es1 where "es1 = es[(h + j) mod ?c := drain_entry b ?e]"
  define acc1 where "acc1 = (if re_valid ?e \<and> is_older_than (re_tag ?e) b then acc OR re_fp_flags ?e else acc)"
  have j: "j < ?c" using Suc.prems by simp
  have "es1 = es" if "\<not> (re_valid ?e \<and> is_older_than (re_tag ?e) b)"
    using that by (auto simp: es1_def drain_entry_def slot_at_def)
  then have step: "drain_loop b ((h + j) mod ?c) (Suc n) acc es = drain_loop b ((h + Suc j) mod ?c) n acc1 es1"
    by (auto simp: Let_def slot_at_def mod_Suc_eq acc1_def es1_def drain_entry_def)
  have at: "slot_at es1 h i = (if i = j then drain_entry b ?e else slot_at es h i)" if "i < ?c" for i
    using that j by (simp add: es1_def slot_at_update)
  have len: "length es1 = ?c" by (simp add: es1_def)
  have "map (slot_at es1 h) [Suc j..<Suc j + n] = map (slot_at es h) [Suc j..<Suc j + n]"
    using at Suc.prems by auto
  moreover have "acc OR drain_flags b (?e # xs) = acc1 OR drain_flags b xs" for xs
    using fold_or_u8 [of _ "re_fp_flags ?e"] by (simp add: drain_flags_def acc1_def or.assoc)
  moreover have "[j..<j + Suc n] = j # [Suc j..<Suc j + n]" by (simp add: upt_rec [of j] del: upt_Suc)
  ultimately show ?case
    using Suc.IH [of es1 "Suc j" acc1] Suc.prems j at
    unfolding step len by (auto simp: not_less_eq_eq dest: le_antisym split: prod.splits simp del: upt_Suc map_eq_conv)
qed

lemma rob_drain_spec:
  assumes "rob_inv r" "rob_drain_fp_flags_before b r = (fl, r')"
  shows "fl = drain_flags b (ring_window r)" "ring_window r' = map (drain_entry b) (ring_window r)"
    and "rob_inv r'" "rob_next_tag r' = rob_next_tag r"
proof -
  have wf: "ring_wf r" using assms(1) by auto
  obtain acc es' where loop: "drain_loop b (ring_head r) (ring_count r) 0 (ring_entries r) = (acc, es')"
    by (metis surj_pair)
  have spec: "length es' = ring_cap r" "acc = drain_flags b (ring_window r)"
      "\<forall>i < ring_cap r. slot_at es' (ring_head r) i = (if i < ring_count r
         then drain_entry b (slot_at (ring_entries r) (ring_head r) i) else slot_at (ring_entries r) (ring_head r) i)"
    using drain_loop_spec [of "ring_head r" "ring_entries r" 0 "ring_count r" b 0] wf loop
    by (simp_all add: ring_wf_def ring_window_conv)
  have r': "r' = r\<lparr>ring_entries := es'\<rparr> \<and> fl = acc \<or> ring_count r = 0 \<and> r' = r \<and> fl = 0"
    using assms(2) loop by (auto simp: rob_drain_fp_flags_before_def split: if_splits)
  have empty: "ring_window r = []" if "ring_count r = 0" using that by (simp add: ring_window_def)
  show "fl = drain_flags b (ring_window r)" using r' spec(2) empty by (auto simp: drain_flags_def)
  have wf': "ring_wf (r\<lparr>ring_entries := es'\<rparr>)" using wf spec(1) by (simp add: ring_wf_entries)
  have "ring_window (r\<lparr>ring_entries := es'\<rparr>) = map (drain_entry b) (ring_window r)"
    using wf spec(3) unfolding ring_window_conv [OF wf'] ring_window_conv [OF wf]
    by (auto simp: ring_wf_def)
  with r' empty show win: "ring_window r' = map (drain_entry b) (ring_window r)" by auto
  have keep: "re_tag (drain_entry b e) = re_tag e" "re_valid (drain_entry b e) = re_valid e" for e
    by (simp_all add: drain_entry_def)
  have "ring_slots r' = ring_slots r"
    using r' spec(1) by (auto intro: ring_slots_cong)
  moreover have "rob_tags r' = rob_tags r" by (simp add: win keep)
  moreover have "ring_wf r'" using r' wf wf' by auto
  moreover have "rob_tag_index r' = rob_tag_index r" using r' by auto
  moreover show "rob_next_tag r' = rob_next_tag r" using r' by auto
  moreover have "\<forall>e \<in> set (ring_window r'). re_valid e \<and> re_tag e \<noteq> 0"
    using assms(1) by (auto simp: win rob_inv_def keep)
  ultimately show "rob_inv r'" using assms(1) by (simp add: rob_inv_def)
qed

subsection \<open>Queries against the window\<close>

text \<open>The entries older than a tag, in program order.\<close>

definition rob_older :: "rob \<Rightarrow> rob_tag \<Rightarrow> rob_entry list" where
  "rob_older r t = takeWhile (\<lambda>e. re_tag e \<noteq> t) (ring_window r)"

lemma window_valid_filter: "rob_inv r \<Longrightarrow> filter re_valid (ring_window r) = ring_window r"
  by (simp add: rob_inv_def)

lemma all_before_loop_conv:
  "\<forall>e \<in> set es. re_valid e \<Longrightarrow>
   all_before_loop t es \<longleftrightarrow> (\<forall>e \<in> set (takeWhile (\<lambda>e. re_tag e \<noteq> t) es). re_state e \<noteq> Issued)"
  by (induction es) auto

lemma fence_pred_loop_conv:
  "\<forall>e \<in> set es. re_valid e \<Longrightarrow>
   fence_pred_loop t pr pw es \<longleftrightarrow> (\<forall>e \<in> set (takeWhile (\<lambda>e. re_tag e \<noteq> t) es).
     pr \<and> cs_mem_read (re_ctrl e) \<or> pw \<and> cs_mem_write (re_ctrl e) \<longrightarrow> re_state e \<noteq> Issued)"
  by (induction es) auto

lemma fence_block_loop_conv:
  "\<forall>e \<in> set es. re_valid e \<Longrightarrow>
   fence_block_loop t il st es \<longleftrightarrow> (\<exists>e \<in> set (takeWhile (\<lambda>e. re_tag e \<noteq> t) es).
     cs_system_op (re_ctrl e) = Sys_Fence \<and> fence_succ_blocks (re_inst e) il st)"
  by (induction es) auto

lemma prev_tag_loop_conv:
  "\<forall>e \<in> set es. re_valid e \<Longrightarrow> t \<in> re_tag ` set es \<Longrightarrow>
   prev_tag_loop t prev es =
     (case rev (takeWhile (\<lambda>e. re_tag e \<noteq> t) es) of [] \<Rightarrow> prev | e # _ \<Rightarrow> Some (re_tag e))"
proof (induction es arbitrary: prev)
  case (Cons e es)
  show ?case
  proof (cases "re_tag e = t")
    case False
    with Cons.prems have "t \<in> re_tag ` set es" by auto
    with Cons False show ?thesis by (auto split: list.splits)
  qed (use Cons.prems in simp)
qed simp

lemma latest_producer_conv:
  "latest_producer reg fp es = map_option (\<lambda>e. (case re_result e of Some v \<Rightarrow> v | None \<Rightarrow> 0, re_state e = Completed))
     (find (\<lambda>e. re_valid e \<and> re_rd e = reg \<and> re_rd_fp e = fp
        \<and> (if fp then cs_fp_reg_write (re_ctrl e) else cs_reg_write (re_ctrl e))) es)"
  by (induction es) auto

lemma rob_window_older:
  assumes "rob_inv r" "i < j" "j < ring_count r"
  shows "is_older_than (re_tag (ring_window r ! i)) (re_tag (ring_window r ! j))"
proof -
  have "i < length (ring_window r)" "j < length (ring_window r)" using assms(2,3) by simp_all
  then have "ring_window r ! i \<in> set (ring_window r)" "ring_window r ! j \<in> set (ring_window r)"
    by (simp_all only: nth_mem)
  moreover have "tag_age (rob_next_tag r) (re_tag (ring_window r ! j)) < tag_age (rob_next_tag r) (re_tag (ring_window r ! i))"
    using rob_inv_ages [OF assms(1)] assms(2,3) by (auto simp: ages_ok_def sorted_wrt_iff_nth_less)
  ultimately show ?thesis
    using rob_inv_ages [OF assms(1)] by (subst is_older_than_age) (auto simp: ages_ok_def)
qed

lemma rob_window_newer:
  assumes "rob_inv r" "i \<le> j" "j < ring_count r"
  shows "\<not> is_newer_than (re_tag (ring_window r ! i)) (re_tag (ring_window r ! j))"
proof -
  have "i < length (ring_window r)" "j < length (ring_window r)" using assms(2,3) by simp_all
  then have "ring_window r ! i \<in> set (ring_window r)" "ring_window r ! j \<in> set (ring_window r)"
    by (simp_all only: nth_mem)
  moreover have "tag_age (rob_next_tag r) (re_tag (ring_window r ! j)) \<le> tag_age (rob_next_tag r) (re_tag (ring_window r ! i))"
    using rob_inv_ages [OF assms(1)] assms(2,3)
    by (cases "i = j") (auto simp: ages_ok_def sorted_wrt_iff_nth_less intro: less_imp_le)
  ultimately show ?thesis
    using rob_inv_ages [OF assms(1)] unfolding is_newer_than_def
    by (subst is_older_than_age) (auto simp: ages_ok_def)
qed

lemma rob_iter_after_conv:
  assumes "rob_inv r" "k < ring_count r" "re_tag (ring_window r ! k) = t"
  shows "rob_iter_after r t = drop (Suc k) (ring_window r)"
proof -
  let ?w = "ring_window r" and ?p = "\<lambda>e. re_valid e \<and> is_newer_than (re_tag e) t"
  have pre: "filter ?p (take (Suc k) ?w) = []"
    using rob_window_newer [OF assms(1) _ assms(2)] assms(2,3)
    by (auto simp: filter_empty_conv in_set_conv_nth)
  have "re_valid (?w ! i)" if "i < ring_count r" for i
    using assms(1) that by (auto intro: rob_inv_valid)
  then have post: "filter ?p (drop (Suc k) ?w) = drop (Suc k) ?w"
    using rob_window_older [OF assms(1)] assms(2,3)
    by (auto simp: filter_id_conv in_set_conv_nth is_newer_than_def)
  have "rob_iter_after r t = filter ?p (take (Suc k) ?w @ drop (Suc k) ?w)"
    by (simp add: rob_iter_after_def)
  then show ?thesis by (simp only: filter_append pre post append_Nil)
qed

subsection \<open>The buffer as a state machine\<close>

text \<open>Every mutating call of the pipeline on the buffer, its execution on the model and its
  effect on the abstract state: the tag counter and the queue of live entries.\<close>

datatype rob_call =
    Call_Allocate u64 u32 inst_size reg_idx bool control_signals phys_reg phys_reg
  | Call_Complete rob_tag u64
  | Call_Fault rob_tag trap exception_stage
  | Call_SetCsrUpdate rob_tag csr_update
  | Call_MarkCsrApplied rob_tag
  | Call_SetBpUpdate rob_tag u64 bp_outcome "u64 option" ghr
  | Call_SetBpTarget rob_tag u64
  | Call_SetFpFlags rob_tag u8
  | Call_SetPteUpdate rob_tag pte_update
  | Call_SetSfenceVma rob_tag sfence_vma_info
  | Call_SetLrSc rob_tag lr_sc_record
  | Call_SetCheckpointId rob_tag checkpoint_id
  | Call_SetStoreInfo rob_tag u64 u64
  | Call_Drain rob_tag
  | Call_CommitHead
  | Call_FlushAll
  | Call_FlushAfter rob_tag

fun rob_exec :: "rob_call \<Rightarrow> rob \<Rightarrow> rob" where
  "rob_exec (Call_Allocate pc i sz rd fp ctrl pd opd) r = fst (rob_allocate r pc i sz rd fp ctrl pd opd)"
| "rob_exec (Call_Complete t v) r = rob_complete t v r"
| "rob_exec (Call_Fault t tr st) r = rob_fault t tr st r"
| "rob_exec (Call_SetCsrUpdate t u) r = rob_set_csr_update t u r"
| "rob_exec (Call_MarkCsrApplied t) r = rob_mark_csr_applied t r"
| "rob_exec (Call_SetBpUpdate t pc oc tg g) r = rob_set_bp_update t pc oc tg g r"
| "rob_exec (Call_SetBpTarget t tg) r = rob_set_bp_target t tg r"
| "rob_exec (Call_SetFpFlags t fl) r = rob_set_fp_flags t fl r"
| "rob_exec (Call_SetPteUpdate t u) r = rob_set_pte_update t u r"
| "rob_exec (Call_SetSfenceVma t i) r = rob_set_sfence_vma t i r"
| "rob_exec (Call_SetLrSc t l) r = rob_set_lr_sc t l r"
| "rob_exec (Call_SetCheckpointId t i) r = rob_set_checkpoint_id t i r"
| "rob_exec (Call_SetStoreInfo t a d) r = rob_set_store_info t a d r"
| "rob_exec (Call_Drain t) r = snd (rob_drain_fp_flags_before t r)"
| "rob_exec Call_CommitHead r = fst (rob_commit_head r)"
| "rob_exec Call_FlushAll r = rob_flush_all r"
| "rob_exec (Call_FlushAfter t) r = rob_flush_after t r"

text \<open>The abstract queue. A call on a tag acts on the entry that carries it.\<close>

fun call_update :: "rob_call \<Rightarrow> (rob_tag \<times> (rob_entry \<Rightarrow> rob_entry)) option" where
  "call_update (Call_Complete t v) = Some (t, entry_complete v)"
| "call_update (Call_Fault t tr st) =
     Some (t, \<lambda>e. e\<lparr>re_state := Faulted, re_trap := Some tr, re_exception_stage := Some st\<rparr>)"
| "call_update (Call_SetCsrUpdate t u) = Some (t, \<lambda>e. e\<lparr>re_csr_update := Some u\<rparr>)"
| "call_update (Call_MarkCsrApplied t) =
     Some (t, entry_mark_applied)"
| "call_update (Call_SetBpUpdate t pc oc tg g) =
     Some (t, \<lambda>e. e\<lparr>re_bp_update := True, re_bp_pc := pc, re_bp_outcome := oc,
       re_bp_target := tg, re_bp_ghr_snapshot := g\<rparr>)"
| "call_update (Call_SetBpTarget t tg) = Some (t, \<lambda>e. e\<lparr>re_bp_target := Some tg\<rparr>)"
| "call_update (Call_SetFpFlags t fl) = Some (t, \<lambda>e. e\<lparr>re_fp_flags := re_fp_flags e OR fl\<rparr>)"
| "call_update (Call_SetPteUpdate t u) = Some (t, \<lambda>e. e\<lparr>re_pte_update := Some u\<rparr>)"
| "call_update (Call_SetSfenceVma t i) = Some (t, \<lambda>e. e\<lparr>re_sfence_vma := Some i\<rparr>)"
| "call_update (Call_SetLrSc t l) = Some (t, \<lambda>e. e\<lparr>re_lr_sc := Some l\<rparr>)"
| "call_update (Call_SetCheckpointId t i) = Some (t, \<lambda>e. e\<lparr>re_checkpoint_id := Some i\<rparr>)"
| "call_update (Call_SetStoreInfo t a d) = Some (t, \<lambda>e. e\<lparr>re_store_addr := a, re_store_data := d\<rparr>)"
| "call_update _ = None"

fun upto_tag :: "rob_tag \<Rightarrow> rob_entry list \<Rightarrow> rob_entry list" where
  "upto_tag t [] = []"
| "upto_tag t (e # es) = (if re_tag e = t then [e] else e # upto_tag t es)"

fun queue_exec :: "nat \<Rightarrow> rob_call \<Rightarrow> u32 \<times> rob_entry list \<Rightarrow> u32 \<times> rob_entry list" where
  "queue_exec cap (Call_Allocate pc i sz rd fp ctrl pd opd) (n, q) =
    (if length q = cap then (n, q) else (bump_tag n, q @ [rob_entry_new n pc i sz rd fp ctrl pd opd]))"
| "queue_exec cap (Call_Drain t) (n, q) = (n, map (drain_entry t) q)"
| "queue_exec cap Call_CommitHead (n, q) =
    (n, case q of [] \<Rightarrow> [] | e # es \<Rightarrow> if re_state e = Issued then q else es)"
| "queue_exec cap Call_FlushAll (n, q) = (n, [])"
| "queue_exec cap (Call_FlushAfter t) (n, q) = (n, upto_tag t q)"
| "queue_exec cap c (n, q) =
    (case call_update c of None \<Rightarrow> (n, q)
     | Some (t, f) \<Rightarrow> (n, map (\<lambda>e. if re_tag e = t then f e else e) q))"

definition rob_abs :: "rob \<Rightarrow> u32 \<times> rob_entry list" where
  "rob_abs r = (rob_next_tag r, ring_window r)"

lemma upto_tag_absent: "t \<notin> re_tag ` set es \<Longrightarrow> upto_tag t es = es"
  by (induction es) auto

lemma upto_tag_take:
  "distinct (map re_tag es) \<Longrightarrow> k < length es \<Longrightarrow> re_tag (es ! k) = t \<Longrightarrow> upto_tag t es = take (Suc k) es"
proof (induction es arbitrary: k)
  case (Cons e es)
  then show ?case by (cases k) (auto simp: image_iff)
qed simp

lemma rob_flush_after_spec:
  assumes "rob_inv r"
  shows "rob_inv (rob_flush_after t r)" "rob_next_tag (rob_flush_after t r) = rob_next_tag r"
    and "ring_window (rob_flush_after t r) = upto_tag t (ring_window r)"
proof -
  have "rob_inv (rob_flush_after t r) \<and> rob_next_tag (rob_flush_after t r) = rob_next_tag r
      \<and> ring_window (rob_flush_after t r) = upto_tag t (ring_window r)"
  proof (cases "t \<in> set (rob_tags r)")
    case True
    then obtain k where k: "k < ring_count r" "re_tag (ring_window r ! k) = t"
      by (auto simp: in_set_conv_nth)
    then have "upto_tag t (ring_window r) = take (Suc k) (ring_window r)"
      using rob_inv_distinct [OF assms] by (intro upto_tag_take) simp_all
    with rob_flush_after_present [OF assms k] show ?thesis by simp
  next
    case False
    with rob_flush_after_absent [OF assms False] assms show ?thesis by (simp add: upto_tag_absent)
  qed
  then show "rob_inv (rob_flush_after t r)" "rob_next_tag (rob_flush_after t r) = rob_next_tag r"
    "ring_window (rob_flush_after t r) = upto_tag t (ring_window r)" by simp_all
qed

lemmas rob_setter_defs = rob_complete_def rob_fault_def rob_set_csr_update_def
  rob_mark_csr_applied_def rob_set_bp_update_def rob_set_bp_target_def rob_set_fp_flags_def
  rob_set_pte_update_def rob_set_sfence_vma_def rob_set_lr_sc_def rob_set_checkpoint_id_def
  rob_set_store_info_def

lemma call_update_exec: "call_update c = Some (t, f) \<Longrightarrow> rob_exec c r = rob_update t f r"
  by (cases c) (auto simp: rob_setter_defs)

lemma call_update_preserving: "call_update c = Some (t, f) \<Longrightarrow> tag_preserving f"
  by (cases c) (auto simp: tag_preserving_def entry_complete_def entry_mark_applied_def
    split: if_splits option.splits)

lemma call_update_queue:
  "call_update c = Some (t, f) \<Longrightarrow> queue_exec cap c (n, q) = (n, map (\<lambda>e. if re_tag e = t then f e else e) q)"
  by (cases c) auto

lemma rob_exec_cap [simp]: "rob_inv r \<Longrightarrow> ring_cap (rob_exec c r) = ring_cap r"
proof (cases c)
  case (Call_Drain t)
  then show "rob_inv r \<Longrightarrow> ?thesis"
    using drain_loop_spec [of "ring_head r" "ring_entries r" 0 "ring_count r" t 0]
    by (auto simp: rob_drain_fp_flags_before_def rob_inv_def ring_wf_def split: prod.splits)
next
  case (Call_FlushAfter t)
  have "length (fst (remove_loop i j es ix)) = length es" for i j es ix
    by (induction i j es ix rule: remove_loop.induct) (subst remove_loop.simps, simp add: fun_upd_def)
  then have "length es' = length es" if "remove_loop i j es ix = (es', ix')" for i j es ix es' ix'
    using that by (metis fst_conv)
  with Call_FlushAfter show ?thesis
    by (auto simp: rob_flush_after_def Let_def split: option.splits prod.splits)
qed (auto simp: rob_allocate_def Let_def rob_commit_head_def rob_flush_all_def ring_clear_def
  rob_setter_defs)

lemma rob_exec_refines:
  assumes "rob_inv r"
  shows "rob_room r \<Longrightarrow> rob_inv (rob_exec c r)"
    and "rob_abs (rob_exec c r) = queue_exec (ring_cap r) c (rob_abs r)"
proof -
  have "(rob_room r \<longrightarrow> rob_inv (rob_exec c r))
      \<and> rob_abs (rob_exec c r) = queue_exec (ring_cap r) c (rob_abs r)"
  proof (cases "call_update c")
    case (Some tf)
    obtain t f where tf: "tf = (t, f)" by force
    with Some assms show ?thesis
      by (simp add: call_update_exec call_update_queue rob_abs_def rob_update_window
        rob_update_inv call_update_preserving)
  next
    case None
    then show ?thesis
    proof (cases c)
      case (Call_Allocate pc i sz rd fp ctrl pd opd)
      obtain r' res where alloc: "rob_allocate r pc i sz rd fp ctrl pd opd = (r', res)" by force
      show ?thesis
      proof (cases "rob_is_full r")
        case True
        with Call_Allocate assms show ?thesis
          by (simp add: rob_allocate_def rob_abs_def rob_is_full_def)
      next
        case False
        with Call_Allocate rob_allocate_spec [OF assms False refl alloc] alloc show ?thesis
          by (simp add: rob_abs_def rob_is_full_def)
      qed
    next
      case (Call_Drain t)
      obtain fl r' where "rob_drain_fp_flags_before t r = (fl, r')" by force
      with Call_Drain rob_drain_spec [OF assms this] show ?thesis by (simp add: rob_abs_def)
    qed (use assms in \<open>simp_all add: rob_abs_def rob_commit_head_spec(2-4) rob_flush_all_spec
      rob_flush_after_spec split: list.splits\<close>)
  qed
  then show "rob_room r \<Longrightarrow> rob_inv (rob_exec c r)"
    "rob_abs (rob_exec c r) = queue_exec (ring_cap r) c (rob_abs r)" by simp_all
qed

text \<open>Reachable buffers. The guard on the step is the assumption documented at
  \<open>RobTag::is_older_than\<close>: the oldest live tag is less than \<open>2 ^ 31\<close> behind the counter.\<close>

inductive rob_reach :: "nat \<Rightarrow> rob \<Rightarrow> bool" for cap :: nat where
  rob_reach_new: "rob_reach cap (rob_new cap)"
| rob_reach_step: "rob_reach cap r \<Longrightarrow> rob_room r \<Longrightarrow> rob_reach cap (rob_exec c r)"

inductive_cases rob_reachE: "rob_reach cap r"

lemma rob_reach_inv: "rob_reach cap r \<Longrightarrow> 0 < cap \<Longrightarrow> rob_inv r \<and> rob_capacity r = cap"
proof (induction rule: rob_reach.induct)
  case rob_reach_new
  then show ?case by (simp add: rob_new_inv) (simp add: rob_new_def rob_capacity_def)
next
  case (rob_reach_step r c)
  then show ?case by (simp add: rob_exec_refines rob_capacity_def)
qed

lemma rob_older_set:
  assumes "rob_inv r" "t \<in> set (rob_tags r)"
  shows "set (takeWhile (\<lambda>e. re_tag e \<noteq> t) (ring_window r)) = {e \<in> set (ring_window r). is_older_than (re_tag e) t}"
proof -
  let ?w = "ring_window r"
  obtain k where k: "k < ring_count r" "re_tag (?w ! k) = t"
    using assms(2) by (auto simp: in_set_conv_nth)
  have "\<forall>i < k. re_tag (?w ! i) \<noteq> t"
    using k rob_inv_distinct [OF assms(1)] by (auto simp: distinct_conv_nth)
  then have "takeWhile (\<lambda>e. re_tag e \<noteq> t) ?w = take k ?w"
    using k by (intro takeWhile_eq_take_P_nth) auto
  moreover have "is_older_than (re_tag (?w ! i)) t \<longleftrightarrow> i < k" if "i < ring_count r" for i
    using rob_window_older [OF assms(1), of i k] rob_window_newer [OF assms(1), of k i] k that
    by (cases "k \<le> i") (auto simp: is_newer_than_def)
  moreover have "set (take k ?w) = (!) ?w ` {0..<k}" "set ?w = (!) ?w ` {0..<ring_count r}"
    using k nth_image [of k ?w] nth_image [of "ring_count r" ?w] by simp_all
  ultimately show ?thesis using k by auto
qed

subsection \<open>Properties\<close>

text \<open>C3. Every reachable reorder buffer behaves as a bounded queue of entries: each of the
  seventeen mutating calls acts on the tag counter and the live entries in program order exactly
  as the abstract queue does. Allocation appends or refuses when the queue is full, commit
  removes the front unless it is still executing, a flush after a tag cuts the queue behind it,
  and a setter changes the entry with its tag and no other.\<close>

theorem rob_refines_queue:
  assumes "rob_reach cap r" "0 < cap"
  shows "rob_abs (rob_exec c r) = queue_exec cap c (rob_abs r)"
  using rob_reach_inv [OF assms] rob_exec_refines(2) [of r c] by (simp add: rob_capacity_def)

theorem rob_refines_queue_witness:
  "rob_abs (rob_exec (Call_Allocate 0x1000 0x13 Standard 5 False default_ctrl 40 5) (rob_new 2))
   = queue_exec 2 (Call_Allocate 0x1000 0x13 Standard 5 False default_ctrl 40 5) (rob_abs (rob_new 2))"
  by (rule rob_refines_queue [OF rob_reach_new]) simp

text \<open>In every reachable reorder buffer program order is the order of the tags, across the
  wrap of the 32-bit counter: an entry in front of another one is older by \<open>is_older_than\<close> and
  not newer, all entries are valid, and no two carry the same tag.\<close>

theorem rob_program_order_is_tag_order:
  assumes "rob_reach cap r" "0 < cap" "i < j" "j < rob_len r"
  shows "is_older_than (re_tag (ring_window r ! i)) (re_tag (ring_window r ! j))
    \<and> \<not> is_older_than (re_tag (ring_window r ! j)) (re_tag (ring_window r ! i))
    \<and> re_valid (ring_window r ! i) \<and> distinct (map re_tag (ring_window r))"
proof -
  have inv: "rob_inv r" using rob_reach_inv assms(1,2) by blast
  have ij: "i < ring_count r" "j < ring_count r" using assms(3,4) by (simp_all add: rob_len_def)
  then have "ring_window r ! i \<in> set (ring_window r)" by simp
  then show ?thesis
    using rob_window_older [OF inv assms(3) ij(2)] rob_window_newer [OF inv less_imp_le [OF assms(3)] ij(2)]
      rob_inv_distinct [OF inv] rob_inv_valid [OF inv]
    by (simp add: is_newer_than_def)
qed

definition rob_ex2 :: rob where
  "rob_ex2 = rob_exec (Call_Allocate 0x1004 0x93 Standard 1 False default_ctrl 41 1)
     (rob_exec (Call_Allocate 0x1000 0x13 Standard 5 False default_ctrl 40 5) (rob_new 2))"

lemma replicate_2: "replicate 2 x = [x, x]"
  by (simp add: numeral_2_eq_2)

lemma rob_ex2_entries:
  "ring_entries rob_ex2 = [rob_entry_new 1 0x1000 0x13 Standard 5 False default_ctrl 40 5,
     rob_entry_new 2 0x1004 0x93 Standard 1 False default_ctrl 41 1]"
  "ring_head rob_ex2 = 0" "ring_count rob_ex2 = 2" "rob_next_tag rob_ex2 = 3"
  by (simp_all add: rob_ex2_def rob_allocate_def rob_new_def rob_is_full_def ring_push_def bump_tag_def
    Let_def replicate_2)

lemma rob_ex2_window: "ring_window rob_ex2 = ring_entries rob_ex2"
  by (simp add: ring_window_def rob_ex2_entries numeral_2_eq_2)

lemma rob_ex2_lookup:
  "find (\<lambda>e. re_tag e = 1) (ring_window rob_ex2) = Some (ring_entries rob_ex2 ! 0)"
  "find (\<lambda>e. re_tag e = 2) (ring_window rob_ex2) = Some (ring_entries rob_ex2 ! 1)"
  "find (\<lambda>e. re_tag e = 3) (ring_window rob_ex2) = None"
  by (simp_all add: rob_ex2_window rob_ex2_entries rob_entry_new_def)

lemma rob_ex2_reach: "rob_reach 2 rob_ex2"
  unfolding rob_ex2_def
  by (intro rob_reach_step rob_reach_new)
    (simp_all add: rob_room_def ring_window_def rob_allocate_def rob_new_def rob_is_full_def
      ring_push_def bump_tag_def Let_def tag_age_def rob_entry_new_def)

theorem rob_program_order_is_tag_order_witness:
  "is_older_than (re_tag (ring_window rob_ex2 ! 0)) (re_tag (ring_window rob_ex2 ! 1))
   \<and> re_tag (ring_window rob_ex2 ! 0) = 1 \<and> re_tag (ring_window rob_ex2 ! 1) = 2"
  using rob_program_order_is_tag_order [OF rob_ex2_reach, of 0 1]
  by (simp add: rob_len_def rob_ex2_entries rob_ex2_window rob_entry_new_def)

text \<open>The hash-map lookup \<open>find_entry\<close> returns what a linear search of the live entries for
  the tag returns, for every tag, live or not.\<close>

theorem rob_find_entry_is_linear_search:
  assumes "rob_reach cap r" "0 < cap"
  shows "rob_find_entry r t = find (\<lambda>e. re_tag e = t) (ring_window r)"
  using rob_reach_inv [OF assms] rob_find_entry_conv by blast

theorem rob_find_entry_is_linear_search_witness:
  "map_option re_pc (rob_find_entry rob_ex2 2) = Some 0x1004 \<and> rob_find_entry rob_ex2 3 = None"
  using rob_find_entry_is_linear_search [OF rob_ex2_reach, of 2] rob_find_entry_is_linear_search [OF rob_ex2_reach, of 3]
  by (simp add: rob_ex2_lookup) (simp add: rob_ex2_entries rob_entry_new_def)

text \<open>Allocation succeeds exactly when a slot is free. The tag it returns is not 0, is not
  live, and is newer than every live tag.\<close>

theorem rob_allocate_newest_tag:
  assumes "rob_reach cap r" "0 < cap"
    and "rob_allocate r pc inst sz rd fp ctrl pd opd = (r', res)"
  shows "(res = None \<longleftrightarrow> rob_is_full r) \<and> (res = None \<longrightarrow> r' = r)
    \<and> (\<forall>t. res = Some t \<longrightarrow> t \<noteq> 0
        \<and> (\<forall>e \<in> set (ring_window r). re_tag e \<noteq> t \<and> is_newer_than t (re_tag e)))"
proof -
  have inv: "rob_inv r" using rob_reach_inv assms(1,2) by blast
  have "is_newer_than (rob_next_tag r) (re_tag e) \<and> re_tag e \<noteq> rob_next_tag r"
    if "e \<in> set (ring_window r)" for e
    using rob_inv_ages [OF inv] that is_older_than_age [of "rob_next_tag r" "re_tag e" "rob_next_tag r"]
    by (auto simp: ages_ok_def is_newer_than_def)
  moreover have "rob_next_tag r \<noteq> 0" using inv by (simp add: rob_inv_def)
  ultimately show ?thesis
    using assms(3) by (auto simp: rob_allocate_def Let_def split: if_splits)
qed

theorem rob_allocate_newest_tag_witness:
  "snd (rob_allocate rob_ex2 0 0 Standard 0 False default_ctrl 0 0) = None \<and> rob_is_full rob_ex2"
  using rob_allocate_newest_tag [OF rob_ex2_reach _ surjective_pairing, of 0 0 Standard 0 False default_ctrl 0 0]
  by (simp add: rob_is_full_def rob_ex2_entries)

text \<open>Commit is in order: it returns an entry exactly when the oldest live entry has finished,
  the returned entry is that oldest one, and what stays is the rest of the queue.\<close>

theorem rob_commit_in_order:
  assumes "rob_reach cap r" "0 < cap" "rob_commit_head r = (r', res)"
  shows "case res of
      None \<Rightarrow> r' = r \<and> (\<forall>e es. ring_window r = e # es \<longrightarrow> re_state e = Issued)
    | Some e \<Rightarrow> ring_window r = e # ring_window r' \<and> re_state e \<noteq> Issued \<and> rob_peek_head r = Some e
        \<and> rob_find_entry r' (re_tag e) = None"
proof -
  have inv: "rob_inv r" using rob_reach_inv assms(1,2) by blast
  show ?thesis
  proof (cases "ring_window r")
    case Nil
    with assms(3) rob_commit_head_spec(1) [OF inv] show ?thesis by simp
  next
    case (Cons e es)
    then have n: "0 < ring_count r" by (metis length_greater_0_conv length_ring_window list.discI)
    then have "ring_entries r ! ring_head r = e"
      using ring_window_nth [OF rob_inv_wf [OF inv], of 0] Cons rob_inv_wf [OF inv] by (simp add: ring_wf_def)
    moreover have "find (\<lambda>x. re_tag x = re_tag e) es = None"
      using rob_inv_distinct [OF inv] Cons by (auto simp: find_None_iff image_iff)
    moreover have "rob_inv r'" "ring_window r' = (if re_state e = Issued then e # es else es)"
      using rob_commit_head_spec(2,3) [OF inv] assms(3) Cons by simp_all
    moreover have "res = (if re_state e = Issued then None else Some e)" "re_state e = Issued \<longrightarrow> r' = r"
      using assms(3) n \<open>ring_entries r ! ring_head r = e\<close>
      by (auto simp: rob_commit_head_def Let_def)
    ultimately show ?thesis
      using Cons n by (simp add: rob_peek_head_def rob_find_entry_conv)
  qed
qed

theorem rob_commit_in_order_witness:
  "map_option re_pc (snd (rob_commit_head (rob_exec (Call_Complete 1 7) rob_ex2))) = Some 0x1000"
proof -
  let ?r = "rob_exec (Call_Complete 1 7) rob_ex2"
  have "rob_reach 2 ?r"
    using rob_ex2_reach by (rule rob_reach_step)
      (simp add: rob_room_def rob_ex2_window rob_ex2_entries rob_entry_new_def tag_age_def)
  from rob_commit_in_order [OF this _ surjective_pairing]
    rob_update_window [OF conjunct1 [OF rob_reach_inv [OF rob_ex2_reach]], of 1 "entry_complete 7"]
  show ?thesis
    by (auto simp: rob_complete_def rob_ex2_window rob_ex2_entries rob_entry_new_def entry_complete_def
      split: option.splits)
qed

text \<open>\<open>flush_after\<close> squashes exactly the entries that \<open>iter_after\<close> lists beforehand, which is
  what the rename-map recovery and the free-list reclaim rely on: the buffer before is the buffer
  after, ending in the kept tag, followed by the listed entries, and no squashed tag can be found
  any more. A tag that is not live leaves the buffer alone.\<close>

theorem rob_flush_after_squashes_iter_after:
  assumes "rob_reach cap r" "0 < cap"
  shows "if rob_find_entry r t = None then rob_flush_after t r = r
    else ring_window r = ring_window (rob_flush_after t r) @ rob_iter_after r t
      \<and> re_tag (last (ring_window (rob_flush_after t r))) = t
      \<and> (\<forall>e \<in> set (rob_iter_after r t). rob_find_entry (rob_flush_after t r) (re_tag e) = None)"
proof -
  have inv: "rob_inv r" using rob_reach_inv assms by blast
  show ?thesis
  proof (cases "t \<in> set (rob_tags r)")
    case True
    then obtain k where k: "k < ring_count r" "re_tag (ring_window r ! k) = t"
      by (auto simp: in_set_conv_nth)
    let ?w = "ring_window r"
    have "find (\<lambda>e. re_tag e = t) ?w \<noteq> None" using True by (auto simp: find_None_iff)
    then have found: "(rob_find_entry r t = None) = False" by (simp add: rob_find_entry_conv [OF inv])
    note flush = rob_flush_after_present [OF inv k] and after = rob_iter_after_conv [OF inv k]
    have "set (take (Suc k) (rob_tags r)) \<inter> set (drop (Suc k) (rob_tags r)) = {}"
      using rob_inv_distinct [OF inv] by (metis append_take_drop_id distinct_append)
    then have "\<forall>e \<in> set (drop (Suc k) ?w). find (\<lambda>x. re_tag x = re_tag e) (take (Suc k) ?w) = None"
      by (fastforce simp: find_None_iff take_map drop_map)
    moreover have "last (take (Suc k) ?w) = ?w ! k" using k by (simp add: take_Suc_conv_app_nth)
    ultimately show ?thesis
      using flush k by (simp add: after rob_find_entry_conv [of "rob_flush_after t r"] found)
  next
    case False
    then have "rob_find_entry r t = None"
      by (auto simp: rob_find_entry_conv [OF inv] find_None_iff)
    with rob_flush_after_absent [OF inv False] show ?thesis by simp
  qed
qed

theorem rob_flush_after_squashes_iter_after_witness:
  "rob_find_entry rob_ex2 1 \<noteq> None
   \<and> ring_window rob_ex2 = ring_window (rob_flush_after 1 rob_ex2) @ rob_iter_after rob_ex2 1"
  using rob_flush_after_squashes_iter_after [OF rob_ex2_reach, of 1]
    rob_find_entry_conv [OF conjunct1 [OF rob_reach_inv [OF rob_ex2_reach]], of 1] rob_ex2_lookup(1)
  by auto

text \<open>A fault is sticky: a completion that arrives after a fault changes nothing, so the trap
  is still there when the instruction reaches the head, and a completion of an unfaulted
  instruction records its result.\<close>

theorem rob_fault_survives_completion:
  assumes "rob_reach cap r" "0 < cap" "rob_find_entry r t = Some e"
  shows "rob_find_entry (rob_complete t v (rob_fault t tr st r)) t
      = Some (e\<lparr>re_state := Faulted, re_trap := Some tr, re_exception_stage := Some st\<rparr>)
    \<and> (re_state e \<noteq> Faulted \<longrightarrow>
        rob_find_entry (rob_complete t v r) t = Some (e\<lparr>re_state := Completed, re_result := Some v\<rparr>))"
proof -
  have inv: "rob_inv r" using rob_reach_inv assms(1,2) by blast
  have find_map: "find (\<lambda>e. re_tag e = t) (map (\<lambda>e. if re_tag e = t then f e else e) es)
      = map_option f (find (\<lambda>e. re_tag e = t) es)" if "tag_preserving f" for f es
    using that by (induction es) (auto simp: tag_preserving_def)
  have upd: "rob_find_entry (rob_update t f q) t = map_option f (rob_find_entry q t)"
    if "rob_inv q" "tag_preserving f" for f q
    using that by (simp add: rob_find_entry_conv rob_update_inv rob_update_window find_map)
  have pres: "tag_preserving (entry_complete v)"
    "tag_preserving (\<lambda>e. e\<lparr>re_state := Faulted, re_trap := Some tr, re_exception_stage := Some st\<rparr>)"
    by (simp_all add: tag_preserving_def entry_complete_def)
  show ?thesis
    using assms(3) inv pres
    by (simp add: rob_complete_def rob_fault_def upd rob_update_inv entry_complete_def)
qed

theorem rob_fault_survives_completion_witness:
  "map_option re_state (rob_find_entry (rob_complete 1 7 (rob_fault 1 (LoadAccessFault 0) Stage_Memory rob_ex2)) 1)
   = Some Faulted"
  using rob_fault_survives_completion [OF rob_ex2_reach, of 1]
    rob_find_entry_conv [OF conjunct1 [OF rob_reach_inv [OF rob_ex2_reach]], of 1]
  by (simp add: rob_ex2_window rob_ex2_entries rob_entry_new_def)

text \<open>The three ordering queries of the issue stage mean what their names say, for a live tag:
  \<open>all_before_completed\<close> that no older entry is still executing, \<open>fence_pred_satisfied\<close> that no
  older load or store of the fence's predecessor set is, and \<open>has_fence_blocking\<close> that some
  older fence in flight has the access in its successor set.\<close>

theorem rob_ordering_queries:
  assumes "rob_reach cap r" "0 < cap" "rob_find_entry r t \<noteq> None"
  defines "older \<equiv> {e \<in> set (ring_window r). is_older_than (re_tag e) t}"
  shows "(rob_all_before_completed r t \<longleftrightarrow> (\<forall>e \<in> older. re_state e \<noteq> Issued))
    \<and> (rob_fence_pred_satisfied r t pr pw \<longleftrightarrow>
        (\<forall>e \<in> older. pr \<and> cs_mem_read (re_ctrl e) \<or> pw \<and> cs_mem_write (re_ctrl e) \<longrightarrow> re_state e \<noteq> Issued))
    \<and> (rob_has_fence_blocking r t il st \<longleftrightarrow>
        (\<exists>e \<in> older. cs_system_op (re_ctrl e) = Sys_Fence \<and> fence_succ_blocks (re_inst e) il st))"
proof -
  have inv: "rob_inv r" using rob_reach_inv assms(1,2) by blast
  have t: "t \<in> set (rob_tags r)"
    using assms(3) by (auto simp: rob_find_entry_conv [OF inv] find_None_iff)
  then have n: "ring_count r \<noteq> 0" by (cases "ring_count r") (auto simp: ring_window_def)
  have valid: "\<forall>e \<in> set (ring_window r). re_valid e" using inv by (simp add: rob_inv_def)
  note older = older_def rob_older_set [OF inv t, symmetric]
  have "il \<or> st" if "fence_succ_blocks i il st" for i
    using that by (auto simp: fence_succ_blocks_def Let_def)
  then show ?thesis
    unfolding older
    by (auto simp: rob_all_before_completed_def rob_fence_pred_satisfied_def rob_has_fence_blocking_def n
      all_before_loop_conv [OF valid] fence_pred_loop_conv [OF valid] fence_block_loop_conv [OF valid])
qed

theorem rob_ordering_queries_witness:
  "\<not> rob_all_before_completed rob_ex2 2"
proof -
  have "rob_find_entry rob_ex2 2 \<noteq> None"
    using rob_find_entry_conv [OF conjunct1 [OF rob_reach_inv [OF rob_ex2_reach]], of 2]
    by (simp add: rob_ex2_lookup)
  moreover have "ring_entries rob_ex2 ! 0 \<in> {e \<in> set (ring_window rob_ex2). is_older_than (re_tag e) 2}"
      "re_state (ring_entries rob_ex2 ! 0) = Issued"
    by (simp_all add: rob_ex2_window rob_ex2_entries) (simp_all add: rob_entry_new_def is_older_than_def)
  ultimately show ?thesis
    using rob_ordering_queries [OF rob_ex2_reach, of 2 False False False False] by auto
qed

end
