(* ===== verification/RegFiles.thy ===== *)
theory RegFiles
  imports Rob "HOL-Library.Multiset"
begin

text \<open>
  The register structures of the out-of-order backend: the physical register file
  (\<open>core/pipeline/prf.rs\<close>), the free list (\<open>free_list.rs\<close>), the rename map
  (\<open>rename_map.rs\<close>), the checkpoint table (\<open>checkpoint.rs\<close>) and the scoreboard
  (\<open>scoreboard.rs\<close>).

  The rename map and the scoreboard are both tables over the 32 integer and 32 floating-point
  registers with a hardwired \<open>x0\<close>; the locale \<open>reg_table\<close> is that interface, and the lemma
  proved in it (a table rebuilt by replaying writers holds the last writer of each register) is
  what both recovery walks rest on.
\<close>

subsection \<open>Physical register file\<close>

record phys_reg_file =
  prf_values :: "u64 list"
  prf_ready :: "bool list"

definition prf_new :: "nat \<Rightarrow> phys_reg_file" where
  "prf_new total_regs = \<lparr> prf_values = replicate total_regs 0,
     prf_ready = (if 0 < total_regs then (replicate total_regs False)[0 := True] else replicate total_regs False) \<rparr>"

definition prf_write :: "phys_reg \<Rightarrow> u64 \<Rightarrow> phys_reg_file \<Rightarrow> phys_reg_file" where
  "prf_write p val f =
    (let idx = unat p in
     if idx = 0 then f
     else if idx < length (prf_values f)
     then f\<lparr> prf_values := (prf_values f)[idx := val], prf_ready := (prf_ready f)[idx := True] \<rparr>
     else f)"

definition prf_read :: "phys_reg_file \<Rightarrow> phys_reg \<Rightarrow> u64" where
  "prf_read f p = (let idx = unat p in if idx < length (prf_values f) then prf_values f ! idx else 0)"

definition prf_is_ready :: "phys_reg_file \<Rightarrow> phys_reg \<Rightarrow> bool" where
  "prf_is_ready f p = (let idx = unat p in if idx < length (prf_ready f) then prf_ready f ! idx else False)"

definition prf_mark_arch_ready :: "nat \<Rightarrow> phys_reg_file \<Rightarrow> phys_reg_file" where
  "prf_mark_arch_ready num_arch f =
    (let limit = min num_arch (length (prf_ready f))
     in f\<lparr> prf_ready := replicate limit True @ drop limit (prf_ready f) \<rparr>)"

definition prf_allocate :: "phys_reg \<Rightarrow> phys_reg_file \<Rightarrow> phys_reg_file" where
  "prf_allocate p f =
    (let idx = unat p in
     if idx = 0 then f
     else if idx < length (prf_ready f) then f\<lparr> prf_ready := (prf_ready f)[idx := False] \<rparr> else f)"

definition prf_capacity :: "phys_reg_file \<Rightarrow> nat" where
  "prf_capacity f = length (prf_values f)"

definition prf_wf :: "phys_reg_file \<Rightarrow> bool" where
  "prf_wf f \<longleftrightarrow> length (prf_ready f) = length (prf_values f) \<and> 0 < length (prf_values f)
     \<and> prf_values f ! 0 = 0 \<and> prf_ready f ! 0"

subsection \<open>Free list\<close>

record free_list =
  fl_queue :: "phys_reg list"
  fl_capacity :: nat

definition fl_new :: "nat \<Rightarrow> nat \<Rightarrow> free_list" where
  "fl_new prf_size num_arch = \<lparr> fl_queue = map of_nat [num_arch..<prf_size], fl_capacity = prf_size \<rparr>"

definition fl_allocate :: "free_list \<Rightarrow> free_list \<times> phys_reg option" where
  "fl_allocate l = (case fl_queue l of [] \<Rightarrow> (l, None) | p # ps \<Rightarrow> (l\<lparr> fl_queue := ps \<rparr>, Some p))"

definition fl_reclaim :: "phys_reg \<Rightarrow> free_list \<Rightarrow> free_list" where
  "fl_reclaim p l = (if p \<noteq> 0 then l\<lparr> fl_queue := fl_queue l @ [p] \<rparr> else l)"

definition fl_available :: "free_list \<Rightarrow> nat" where
  "fl_available l = length (fl_queue l)"

subsection \<open>Rename map\<close>

record rename_map =
  rm_gpr :: "phys_reg list"
  rm_fpr :: "phys_reg list"

definition rm_new :: rename_map where
  "rm_new = \<lparr> rm_gpr = map of_nat [0..<32], rm_fpr = map (\<lambda>i. of_nat (32 + i)) [0..<32] \<rparr>"

definition rm_get :: "rename_map \<Rightarrow> reg_idx \<Rightarrow> bool \<Rightarrow> phys_reg" where
  "rm_get m reg is_fp =
    (if \<not> is_fp \<and> reg_is_zero reg then 0
     else if is_fp then rm_fpr m ! reg_as_usize reg else rm_gpr m ! reg_as_usize reg)"

definition rm_set :: "reg_idx \<Rightarrow> bool \<Rightarrow> phys_reg \<Rightarrow> rename_map \<Rightarrow> rename_map" where
  "rm_set reg is_fp p m =
    (if \<not> is_fp \<and> reg_is_zero reg then m
     else if is_fp then m\<lparr> rm_fpr := (rm_fpr m)[reg_as_usize reg := p] \<rparr>
     else m\<lparr> rm_gpr := (rm_gpr m)[reg_as_usize reg := p] \<rparr>)"

definition rm_wf :: "rename_map \<Rightarrow> bool" where
  "rm_wf m \<longleftrightarrow> length (rm_gpr m) = 32 \<and> length (rm_fpr m) = 32"

subsection \<open>Checkpoint table\<close>

record checkpoint =
  ck_branch_tag :: rob_tag
  ck_rename_map :: rename_map

record checkpoint_table =
  ct_slots :: "checkpoint option list"
  ct_count :: nat

definition ct_new :: "nat \<Rightarrow> checkpoint_table" where
  "ct_new capacity = \<lparr> ct_slots = replicate capacity None, ct_count = 0 \<rparr>"

definition ct_capacity :: "checkpoint_table \<Rightarrow> nat" where
  "ct_capacity t = length (ct_slots t)"

definition ct_is_full :: "checkpoint_table \<Rightarrow> bool" where
  "ct_is_full t \<longleftrightarrow> ct_count t = length (ct_slots t)"

definition ct_available :: "checkpoint_table \<Rightarrow> nat" where
  "ct_available t = length (ct_slots t) - ct_count t"

text \<open>\<open>allocate\<close> takes the first empty slot of the scan; the identifier is the slot number cast
  to a byte.\<close>

fun first_none :: "nat \<Rightarrow> 'a option list \<Rightarrow> nat option" where
  "first_none i [] = None"
| "first_none i (s # ss) = (if s = None then Some i else first_none (Suc i) ss)"

definition ct_allocate :: "rob_tag \<Rightarrow> rename_map \<Rightarrow> checkpoint_table \<Rightarrow> checkpoint_table \<times> checkpoint_id option" where
  "ct_allocate tag m t =
    (case first_none 0 (ct_slots t) of
       None \<Rightarrow> (t, None)
     | Some i \<Rightarrow> (t\<lparr> ct_slots := (ct_slots t)[i := Some \<lparr> ck_branch_tag = tag, ck_rename_map = m \<rparr>],
                     ct_count := ct_count t + 1 \<rparr>, Some (of_nat i)))"

definition ct_find_by_tag :: "checkpoint_table \<Rightarrow> rob_tag \<Rightarrow> checkpoint option" where
  "ct_find_by_tag t tag = find (\<lambda>c. ck_branch_tag c = tag) (List.map_filter id (ct_slots t))"

definition ct_free :: "checkpoint_id \<Rightarrow> checkpoint_table \<Rightarrow> checkpoint_table" where
  "ct_free ck t =
    (let idx = unat ck in
     if idx < length (ct_slots t) \<and> ct_slots t ! idx \<noteq> None
     then t\<lparr> ct_slots := (ct_slots t)[idx := None], ct_count := ct_count t - 1 \<rparr> else t)"

fun ct_flush_loop :: "rob_tag \<Rightarrow> checkpoint option list \<Rightarrow> nat \<Rightarrow> checkpoint option list \<times> nat" where
  "ct_flush_loop keep_tag [] cnt = ([], cnt)"
| "ct_flush_loop keep_tag (s # ss) cnt =
    (case s of
       Some c \<Rightarrow>
         if is_newer_than (ck_branch_tag c) keep_tag
         then (let (ss', n) = ct_flush_loop keep_tag ss (cnt - 1) in (None # ss', n))
         else (let (ss', n) = ct_flush_loop keep_tag ss cnt in (s # ss', n))
     | None \<Rightarrow> (let (ss', n) = ct_flush_loop keep_tag ss cnt in (s # ss', n)))"

definition ct_flush_after :: "rob_tag \<Rightarrow> checkpoint_table \<Rightarrow> checkpoint_table" where
  "ct_flush_after keep_tag t =
    (let (ss, n) = ct_flush_loop keep_tag (ct_slots t) (ct_count t) in t\<lparr> ct_slots := ss, ct_count := n \<rparr>)"

definition ct_flush_all :: "checkpoint_table \<Rightarrow> checkpoint_table" where
  "ct_flush_all t = t\<lparr> ct_slots := map (\<lambda>_. None) (ct_slots t), ct_count := 0 \<rparr>"

definition ct_wf :: "checkpoint_table \<Rightarrow> bool" where
  "ct_wf t \<longleftrightarrow> ct_count t = length (filter (\<lambda>s. s \<noteq> None) (ct_slots t))"

subsection \<open>Scoreboard\<close>

record scoreboard =
  sc_gpr :: "rob_tag option list"
  sc_fpr :: "rob_tag option list"

definition sc_new :: scoreboard where
  "sc_new = \<lparr> sc_gpr = replicate 32 None, sc_fpr = replicate 32 None \<rparr>"

definition sc_set_producer :: "reg_idx \<Rightarrow> bool \<Rightarrow> rob_tag \<Rightarrow> scoreboard \<Rightarrow> scoreboard" where
  "sc_set_producer reg is_fp tag s =
    (if is_fp then s\<lparr> sc_fpr := (sc_fpr s)[reg_as_usize reg := Some tag] \<rparr>
     else if \<not> reg_is_zero reg then s\<lparr> sc_gpr := (sc_gpr s)[reg_as_usize reg := Some tag] \<rparr>
     else s)"

definition sc_get_producer :: "scoreboard \<Rightarrow> reg_idx \<Rightarrow> bool \<Rightarrow> rob_tag option" where
  "sc_get_producer s reg is_fp = (if is_fp then sc_fpr s ! reg_as_usize reg else sc_gpr s ! reg_as_usize reg)"

definition sc_clear_if_match :: "reg_idx \<Rightarrow> bool \<Rightarrow> rob_tag \<Rightarrow> scoreboard \<Rightarrow> scoreboard" where
  "sc_clear_if_match reg is_fp tag s =
    (if is_fp
     then (if sc_fpr s ! reg_as_usize reg = Some tag then s\<lparr> sc_fpr := (sc_fpr s)[reg_as_usize reg := None] \<rparr> else s)
     else (if sc_gpr s ! reg_as_usize reg = Some tag then s\<lparr> sc_gpr := (sc_gpr s)[reg_as_usize reg := None] \<rparr> else s))"

definition sc_flush :: "scoreboard \<Rightarrow> scoreboard" where
  "sc_flush s = s\<lparr> sc_gpr := replicate 32 None, sc_fpr := replicate 32 None \<rparr>"

definition sc_mark_entry :: "rob_entry \<Rightarrow> scoreboard \<Rightarrow> scoreboard" where
  "sc_mark_entry e s =
    (let idx = reg_as_usize (re_rd e) in
     if cs_fp_reg_write (re_ctrl e) then s\<lparr> sc_fpr := (sc_fpr s)[idx := Some (re_tag e)] \<rparr>
     else if cs_reg_write (re_ctrl e) \<and> \<not> reg_is_zero (re_rd e)
     then s\<lparr> sc_gpr := (sc_gpr s)[idx := Some (re_tag e)] \<rparr>
     else s)"

definition sc_rebuild_from_rob :: "rob \<Rightarrow> scoreboard \<Rightarrow> scoreboard" where
  "sc_rebuild_from_rob r s = rob_for_each_valid sc_mark_entry r (sc_flush s)"

definition sc_wf :: "scoreboard \<Rightarrow> bool" where
  "sc_wf s \<longleftrightarrow> length (sc_gpr s) = 32 \<and> length (sc_fpr s) = 32 \<and> sc_gpr s ! 0 = None"

subsection \<open>The interface of a register table\<close>

text \<open>A register name is an index with the floating-point flag; \<open>x0\<close> is hardwired.\<close>

definition hardwired :: "reg_idx \<Rightarrow> bool \<Rightarrow> bool" where
  "hardwired reg is_fp \<longleftrightarrow> \<not> is_fp \<and> reg_is_zero reg"

locale reg_table =
  fixes wf :: "'t \<Rightarrow> bool"
    and get :: "'t \<Rightarrow> reg_idx \<Rightarrow> bool \<Rightarrow> 'v"
    and put :: "reg_idx \<Rightarrow> bool \<Rightarrow> 'w \<Rightarrow> 't \<Rightarrow> 't"
    and inj :: "'w \<Rightarrow> 'v"
  assumes wf_put: "wf t \<Longrightarrow> wf (put reg fp v t)"
    and get_put_same: "wf t \<Longrightarrow> \<not> hardwired reg fp \<Longrightarrow> get (put reg fp v t) reg fp = inj v"
    and get_put_other: "wf t \<Longrightarrow> (reg', fp') \<noteq> (reg, fp) \<Longrightarrow> get (put reg fp v t) reg' fp' = get t reg' fp'"
    and put_hardwired: "hardwired reg fp \<Longrightarrow> put reg fp v t = t"
begin

definition replay :: "(reg_idx \<times> bool \<times> 'w) list \<Rightarrow> 't \<Rightarrow> 't" where
  "replay ws t = fold (\<lambda>(reg, fp, v). put reg fp v) ws t"

lemma replay_simps [simp]:
  "replay [] t = t" "replay ((reg, fp, v) # ws) t = replay ws (put reg fp v t)"
  "replay (ws @ ws') t = replay ws' (replay ws t)"
  by (simp_all add: replay_def)

lemma wf_replay: "wf t \<Longrightarrow> wf (replay ws t)"
  by (induction ws arbitrary: t) (auto simp: wf_put)

lemma get_replay:
  "wf t \<Longrightarrow> \<not> hardwired reg fp \<Longrightarrow>
   get (replay ws t) reg fp =
     (case find (\<lambda>(r, f, v). r = reg \<and> f = fp) (rev ws) of
        None \<Rightarrow> get t reg fp | Some (r, f, v) \<Rightarrow> inj v)"
proof (induction ws rule: rev_induct)
  case (snoc w ws)
  obtain r f v where w: "w = (r, f, v)" by (cases w)
  show ?case
  proof (cases "r = reg \<and> f = fp")
    case True
    with snoc show ?thesis by (simp add: w get_put_same wf_replay)
  next
    case False
    with snoc show ?thesis by (auto simp: w get_put_other wf_replay)
  qed
qed simp

end

subsection \<open>The two tables implement the interface\<close>

interpretation rm: reg_table rm_wf rm_get rm_set id
  by unfold_locales (auto simp: rm_wf_def rm_get_def rm_set_def hardwired_def nth_list_update)

interpretation sc: reg_table sc_wf sc_get_producer sc_set_producer Some
  by unfold_locales
    (auto simp: sc_wf_def sc_get_producer_def sc_set_producer_def hardwired_def nth_list_update)

lemma rm_get_x0 [simp]: "rm_get m 0 False = 0"
  by (simp add: rm_get_def reg_is_zero_def)

lemma rm_new_wf [inv_intros]: "rm_wf rm_new"
  by (simp add: rm_wf_def rm_new_def)

lemma rm_set_wf [inv_intros]: "rm_wf m \<Longrightarrow> rm_wf (rm_set reg fp p m)"
  by (rule rm.wf_put)

lemma sc_new_wf [inv_intros]: "sc_wf sc_new"
  by (simp add: sc_wf_def sc_new_def)

lemma sc_flush_wf [inv_intros]: "sc_wf (sc_flush s)"
  by (simp add: sc_wf_def sc_flush_def)

text \<open>All physical registers a map refers to, as a bag: the hardwired \<open>x0\<close> included.\<close>

definition rm_regs :: "rename_map \<Rightarrow> phys_reg multiset" where
  "rm_regs m = mset (rm_gpr m) + mset (rm_fpr m)"

lemma mset_list_update: "i < length xs \<Longrightarrow> add_mset (xs ! i) (mset (xs[i := y])) = add_mset y (mset xs)"
  by (simp add: mset_update)

lemma rm_regs_set:
  "rm_wf m \<Longrightarrow> \<not> hardwired reg fp \<Longrightarrow>
   add_mset (rm_get m reg fp) (rm_regs (rm_set reg fp p m)) = add_mset p (rm_regs m)"
  using mset_list_update [of "reg_as_usize reg" "rm_fpr m" p] mset_list_update [of "reg_as_usize reg" "rm_gpr m" p]
  by (auto simp: rm_regs_def rm_set_def rm_get_def hardwired_def rm_wf_def)

lemma rm_set_gpr0: "rm_wf m \<Longrightarrow> rm_gpr (rm_set reg fp p m) ! 0 = rm_gpr m ! 0"
  using reg_as_usize_eq_0 [of reg] by (auto simp: rm_set_def rm_wf_def nth_list_update)

lemma rm_get_mem:
  "rm_wf m \<Longrightarrow> \<not> hardwired reg fp \<Longrightarrow>
   rm_get m reg fp \<in># rm_regs m - {# rm_gpr m ! 0 #}"
proof -
  assume m: "rm_wf m" and nh: "\<not> hardwired reg fp"
  obtain z zs where g: "rm_gpr m = z # zs" using m by (cases "rm_gpr m") (auto simp: rm_wf_def)
  show ?thesis
  proof (cases fp)
    case True
    then show ?thesis using m g by (auto simp: rm_regs_def rm_get_def rm_wf_def)
  next
    case False
    with nh have nz: "reg_as_usize reg \<noteq> 0" by (simp add: hardwired_def)
    then obtain k where k: "reg_as_usize reg = Suc k" using not0_implies_Suc by blast
    then have "k < length zs" using m g reg_as_usize_less [of reg] by (simp add: rm_wf_def)
    then have "rm_gpr m ! reg_as_usize reg \<in> set zs" using g k by simp
    with False nh g show ?thesis by (auto simp: rm_regs_def rm_get_def hardwired_def)
  qed
qed

subsection \<open>Checkpoint slots\<close>

lemma first_none_spec:
  "first_none i ss = None \<longleftrightarrow> None \<notin> set ss"
  "first_none i ss = Some j \<Longrightarrow> i \<le> j \<and> j - i < length ss \<and> ss ! (j - i) = None"
proof (induction ss arbitrary: i)
  case (Cons s ss)
  {
    case 1
    from Cons.IH(1) [of "Suc i"] show ?case by auto
  next
    case 2
    with Cons.IH(2) [of "Suc i"] show ?case by (auto simp: nth_Cons' Suc_le_eq split: if_splits)
  }
qed simp_all

lemma length_filter_eq: "length (filter P xs) = length xs \<longleftrightarrow> (\<forall>x \<in> set xs. P x)"
  using length_filter_less [of _ xs P] by (metis filter_True less_irrefl)

lemma ct_is_full_iff: "ct_wf t \<Longrightarrow> ct_is_full t \<longleftrightarrow> None \<notin> set (ct_slots t)"
  by (auto simp: ct_wf_def ct_is_full_def length_filter_eq simp del: not_None_eq)
    (metis not_None_eq)

definition ct_keep :: "rob_tag \<Rightarrow> checkpoint option \<Rightarrow> checkpoint option" where
  "ct_keep keep_tag s = (case s of
     Some c \<Rightarrow> if is_newer_than (ck_branch_tag c) keep_tag then None else s | None \<Rightarrow> None)"

lemma ct_flush_loop_spec:
  assumes "length (filter (\<lambda>s. s \<noteq> None) ss) \<le> n"
  shows "ct_flush_loop keep_tag ss n = (map (ct_keep keep_tag) ss,
    n - length (filter (\<lambda>s. s \<noteq> None) ss) + length (filter (\<lambda>s. s \<noteq> None) (map (ct_keep keep_tag) ss)))"
  using assms
proof (induction ss arbitrary: n)
  case (Cons s ss)
  then show ?case by (cases s) (auto simp: ct_keep_def)
qed simp

lemma ct_flush_after_spec:
  "ct_wf t \<Longrightarrow> ct_wf (ct_flush_after k t) \<and> ct_slots (ct_flush_after k t) = map (ct_keep k) (ct_slots t)"
  by (simp add: ct_wf_def ct_flush_after_def ct_flush_loop_spec)

lemma ct_flush_all_spec: "ct_wf (ct_flush_all t) \<and> ct_slots (ct_flush_all t) = map (\<lambda>_. None) (ct_slots t)"
  by (simp add: ct_wf_def ct_flush_all_def)

lemma length_filter_update:
  "i < length xs \<Longrightarrow> length (filter P (xs[i := x])) + (if P (xs ! i) then 1 else 0)
     = length (filter P xs) + (if P x then 1 else 0)"
proof (induction xs arbitrary: i)
  case (Cons y ys)
  then show ?case by (cases i) auto
qed simp

lemma ct_free_spec:
  "ct_wf t \<Longrightarrow> ct_wf (ct_free ck t)
     \<and> ct_slots (ct_free ck t) = (if unat ck < length (ct_slots t) then (ct_slots t)[unat ck := None] else ct_slots t)"
  using length_filter_update [of "unat ck" "ct_slots t" "\<lambda>s. s \<noteq> None" None]
    list_update_id [of "ct_slots t" "unat ck"]
  by (auto simp: ct_wf_def ct_free_def Let_def simp del: not_None_eq list_update_id split: if_splits)

lemma ct_allocate_spec:
  assumes "ct_wf t"
  shows "if ct_is_full t then ct_allocate tag m t = (t, None)
    else \<exists>i < length (ct_slots t). \<exists>t'. ct_slots t ! i = None \<and> ct_allocate tag m t = (t', Some (of_nat i))
      \<and> ct_slots t' = (ct_slots t)[i := Some \<lparr>ck_branch_tag = tag, ck_rename_map = m\<rparr>] \<and> ct_wf t'"
proof (cases "first_none 0 (ct_slots t)")
  case None
  then have "ct_is_full t" using assms by (simp add: ct_is_full_iff first_none_spec(1))
  with None show ?thesis by (simp add: ct_allocate_def)
next
  case (Some i)
  have i: "i < length (ct_slots t)" "ct_slots t ! i = None" using first_none_spec(2) [OF Some] by simp_all
  then have "\<not> ct_is_full t" using assms nth_mem [OF i(1)] by (simp add: ct_is_full_iff)
  moreover have "ct_wf (fst (ct_allocate tag m t))"
    using assms Some length_filter_update [OF i(1), of "\<lambda>s. s \<noteq> None" "Some \<lparr>ck_branch_tag = tag, ck_rename_map = m\<rparr>"] i(2)
    by (simp add: ct_wf_def ct_allocate_def)
  ultimately show ?thesis using i Some by (auto simp: ct_allocate_def)
qed

subsection \<open>Free list\<close>

lemma fl_reclaim_queue: "fl_queue (fl_reclaim p l) = fl_queue l @ (if p = 0 then [] else [p])"
  by (simp add: fl_reclaim_def)

lemma fl_reclaim_fold:
  "fl_queue (fold (\<lambda>e. fl_reclaim (f e)) es l) = fl_queue l @ filter (\<lambda>p. p \<noteq> 0) (map f es)"
  by (induction es arbitrary: l) (simp_all add: fl_reclaim_queue)

subsection \<open>Properties\<close>

text \<open>The physical register file: register 0 always reads as zero and is always ready, a write
  makes exactly its register ready and readable with the written value, and allocating a register
  at rename makes it not ready without touching any other register.\<close>

theorem prf_write_read:
  assumes "prf_wf f"
  shows "prf_read f 0 = 0 \<and> prf_is_ready f 0
    \<and> prf_wf (prf_write p v f) \<and> prf_wf (prf_allocate p f)
    \<and> prf_read (prf_write p v f) q = (if q = p \<and> p \<noteq> 0 \<and> unat p < prf_capacity f then v else prf_read f q)
    \<and> prf_is_ready (prf_write p v f) q = (prf_is_ready f q \<or> q = p \<and> unat p < prf_capacity f)
    \<and> prf_is_ready (prf_allocate p f) q = (prf_is_ready f q \<and> (q \<noteq> p \<or> p = 0))
    \<and> prf_read (prf_allocate p f) q = prf_read f q"
  using assms word_unat_eq_iff [of q p] unat_eq_0 [of p]
  by (auto simp: prf_wf_def prf_read_def prf_is_ready_def prf_write_def prf_allocate_def prf_capacity_def
    Let_def nth_list_update)

theorem prf_write_read_witness:
  "prf_read (prf_write 5 7 (prf_mark_arch_ready 4 (prf_new 8))) 5 = 7"
proof -
  have "prf_wf (prf_mark_arch_ready 4 (prf_new 8))"
    by (simp add: prf_wf_def prf_mark_arch_ready_def prf_new_def eval_nat_numeral)
  from prf_write_read [OF this, of 5 7 5] show ?thesis
    by (simp add: prf_capacity_def prf_mark_arch_ready_def prf_new_def)
qed

end
