(* ===== verification/Lsu.thy ===== *)
theory Lsu
  imports Signals
begin

text \<open>
  The load/store unit (\<open>core/units/lsu/\<close>): the read-modify-write ALU of the A extension,
  FENCE ordering sets, alignment and cache-line checks, and the byte-wise split accesses.
  A byte-addressed memory is a function from 64-bit addresses to bytes; the closure a split
  access takes becomes a function argument (a read), or a state transformer that is threaded
  through the loop (a write).
\<close>

subsection \<open>Atomic memory operations\<close>

definition atomic_res32 :: "atomic_op \<Rightarrow> u64 \<Rightarrow> u64 \<Rightarrow> i32" where
  "atomic_res32 op mem_val reg_val =
    (let a = as_i32 mem_val; b = as_i32 reg_val in
     case op of
       At_Swap \<Rightarrow> b
     | At_Add \<Rightarrow> a + b
     | At_Xor \<Rightarrow> a XOR b
     | At_And \<Rightarrow> a AND b
     | At_Or \<Rightarrow> a OR b
     | At_Min \<Rightarrow> if a \<le>s b then a else b
     | At_Max \<Rightarrow> if b <s a then a else b
     | At_Minu \<Rightarrow> min (as_i32 mem_val) (as_i32 reg_val)
     | At_Maxu \<Rightarrow> max (as_i32 mem_val) (as_i32 reg_val)
     | _ \<Rightarrow> 0)"

definition atomic_res64 :: "atomic_op \<Rightarrow> u64 \<Rightarrow> u64 \<Rightarrow> u64" where
  "atomic_res64 op mem_val reg_val =
    (let a = mem_val; b = reg_val in
     case op of
       At_Swap \<Rightarrow> b
     | At_Add \<Rightarrow> a + b
     | At_Xor \<Rightarrow> a XOR b
     | At_And \<Rightarrow> a AND b
     | At_Or \<Rightarrow> a OR b
     | At_Min \<Rightarrow> if a \<le>s b then a else b
     | At_Max \<Rightarrow> if b <s a then a else b
     | At_Minu \<Rightarrow> min mem_val reg_val
     | At_Maxu \<Rightarrow> max mem_val reg_val
     | _ \<Rightarrow> 0)"

definition atomic_alu :: "atomic_op \<Rightarrow> u64 \<Rightarrow> u64 \<Rightarrow> mem_width \<Rightarrow> u64" where
  "atomic_alu op mem_val reg_val width =
    (case width of
       W_Word \<Rightarrow> sext32 (atomic_res32 op mem_val reg_val)
     | _ \<Rightarrow> atomic_res64 op mem_val reg_val)"

subsection \<open>FENCE ordering sets\<close>

record fence_set =
  fs_i :: bool
  fs_o :: bool
  fs_r :: bool
  fs_w :: bool

definition fence_set_from_bits :: "u8 \<Rightarrow> fence_set" where
  "fence_set_from_bits bits = \<lparr> fs_i = (bits AND 8 \<noteq> 0), fs_o = (bits AND 4 \<noteq> 0),
     fs_r = (bits AND 2 \<noteq> 0), fs_w = (bits AND 1 \<noteq> 0) \<rparr>"

definition fence_set_to_bits :: "fence_set \<Rightarrow> u8" where
  "fence_set_to_bits s = push_bit 3 (bool_as (fs_i s)) OR push_bit 2 (bool_as (fs_o s))
     OR push_bit 1 (bool_as (fs_r s)) OR bool_as (fs_w s)"

definition fence_set_is_empty :: "fence_set \<Rightarrow> bool" where
  "fence_set_is_empty s \<longleftrightarrow> \<not> fs_i s \<and> \<not> fs_o s \<and> \<not> fs_r s \<and> \<not> fs_w s"

definition fence_set_is_full :: "fence_set \<Rightarrow> bool" where
  "fence_set_is_full s \<longleftrightarrow> fs_i s \<and> fs_o s \<and> fs_r s \<and> fs_w s"

record fence =
  f_pred :: fence_set
  f_succ :: fence_set

definition fence_decode :: "u32 \<Rightarrow> fence" where
  "fence_decode inst = \<lparr> f_pred = fence_set_from_bits (ucast (drop_bit 24 inst AND 0xF)),
     f_succ = fence_set_from_bits (ucast (drop_bit 20 inst AND 0xF)) \<rparr>"

definition fence_is_tso :: "fence \<Rightarrow> bool" where
  "fence_is_tso f \<longleftrightarrow> fs_r (f_pred f) \<and> fs_w (f_pred f) \<and> \<not> fs_i (f_pred f) \<and> \<not> fs_o (f_pred f)
     \<and> fs_r (f_succ f) \<and> fs_w (f_succ f) \<and> \<not> fs_i (f_succ f) \<and> \<not> fs_o (f_succ f)"

definition fence_is_nop :: "fence \<Rightarrow> bool" where
  "fence_is_nop f \<longleftrightarrow> fence_set_is_empty (f_pred f) \<and> fence_set_is_empty (f_succ f)"

definition fence_is_full_barrier :: "fence \<Rightarrow> bool" where
  "fence_is_full_barrier f \<longleftrightarrow> fence_set_is_full (f_pred f) \<and> fence_set_is_full (f_succ f)"

subsection \<open>Alignment and cache lines\<close>

definition is_aligned :: "u64 \<Rightarrow> u64 \<Rightarrow> bool" where
  "is_aligned addr sz \<longleftrightarrow> (if sz = 0 \<or> sz = 1 then True else addr AND (sz - 1) = 0)"

definition crosses_cache_line :: "u64 \<Rightarrow> u64 \<Rightarrow> u64 \<Rightarrow> bool" where
  "crosses_cache_line addr sz cache_line_size \<longleftrightarrow>
    (if sz = 0 then False
     else let line_mask = cache_line_size - 1
          in (addr AND line_mask) + (sz - 1) \<ge> cache_line_size)"

definition calculate_unaligned_latency :: "u64 \<Rightarrow> u64 \<Rightarrow> u64 \<Rightarrow> u64" where
  "calculate_unaligned_latency addr sz cache_line_size =
    (if is_aligned addr sz then 0
     else if \<not> crosses_cache_line addr sz cache_line_size then 1
     else 2)"

definition load_misaligned_trap :: "u64 \<Rightarrow> trap" where
  "load_misaligned_trap addr = LoadAddressMisaligned addr"

definition store_misaligned_trap :: "u64 \<Rightarrow> trap" where
  "store_misaligned_trap addr = StoreAddressMisaligned addr"

fun width_to_bytes :: "mem_width \<Rightarrow> nat" where
  "width_to_bytes W_Nop = 0"
| "width_to_bytes W_Byte = 1"
| "width_to_bytes W_Half = 2"
| "width_to_bytes W_Word = 4"
| "width_to_bytes W_Double = 8"

subsection \<open>Split accesses\<close>

text \<open>The loops over \<open>i in 0..sz\<close>: \<open>i\<close> is the next byte, \<open>n\<close> the number of bytes left.
  A shift amount is taken modulo 64, as the release build's \<open><<\<close> and \<open>>>\<close> do.\<close>

fun split_load_from :: "u64 \<Rightarrow> nat \<Rightarrow> nat \<Rightarrow> (u64 \<Rightarrow> u8) \<Rightarrow> u64 \<Rightarrow> u64" where
  "split_load_from addr i 0 read_byte result = result"
| "split_load_from addr i (Suc n) read_byte result =
     split_load_from addr (Suc i) n read_byte
       (result OR push_bit (8 * i mod 64) (ucast (read_byte (addr + of_nat i))))"

definition split_load :: "u64 \<Rightarrow> nat \<Rightarrow> (u64 \<Rightarrow> u8) \<Rightarrow> u64" where
  "split_load addr sz read_byte = split_load_from addr 0 sz read_byte 0"

fun split_store_from :: "u64 \<Rightarrow> nat \<Rightarrow> nat \<Rightarrow> u64 \<Rightarrow> (u64 \<Rightarrow> u8 \<Rightarrow> 's \<Rightarrow> 's) \<Rightarrow> 's \<Rightarrow> 's" where
  "split_store_from addr i 0 val write_byte s = s"
| "split_store_from addr i (Suc n) val write_byte s =
     split_store_from addr (Suc i) n val write_byte
       (write_byte (addr + of_nat i) (ucast (drop_bit (8 * i mod 64) val AND 0xFF)) s)"

definition split_store :: "u64 \<Rightarrow> nat \<Rightarrow> u64 \<Rightarrow> (u64 \<Rightarrow> u8 \<Rightarrow> 's \<Rightarrow> 's) \<Rightarrow> 's \<Rightarrow> 's" where
  "split_store addr sz val write_byte s = split_store_from addr 0 sz val write_byte s"

text \<open>The byte memory the split accesses are used on, and a write to it.\<close>

type_synonym byte_mem = "u64 \<Rightarrow> u8"

definition mem_write_byte :: "u64 \<Rightarrow> u8 \<Rightarrow> byte_mem \<Rightarrow> byte_mem" where
  "mem_write_byte a b m = m(a := b)"

definition store_bytes :: "u64 \<Rightarrow> nat \<Rightarrow> u64 \<Rightarrow> byte_mem \<Rightarrow> byte_mem" where
  "store_bytes addr sz val m = split_store addr sz val mem_write_byte m"

subsection \<open>The bits of a split access\<close>

lemma width_to_bytes_le [simp]: "width_to_bytes w \<le> 8"
  by (cases w) simp_all

lemma bit_split_load_from:
  "i + n \<le> 8 \<Longrightarrow> bit (split_load_from addr i n rd r) k \<longleftrightarrow>
     bit r k \<or> k < 64 \<and> i \<le> k div 8 \<and> k div 8 < i + n \<and> bit (rd (addr + of_nat (k div 8))) (k mod 8)"
proof (induction n arbitrary: i r)
  case 0
  then show ?case by auto
next
  case (Suc n)
  have i: "i < 8" using Suc.prems by simp
  have here: "bit (push_bit (8 * i) (ucast (rd (addr + of_nat i)) :: u64)) k \<longleftrightarrow>
      k < 64 \<and> k div 8 = i \<and> bit (rd (addr + of_nat (k div 8))) (k mod 8)"
  proof (cases "k div 8 = i")
    case True
    then have "k = 8 * i + k mod 8" by auto
    moreover from True have "8 * i \<le> k" by auto
    ultimately show ?thesis using True
      by (auto simp: bit_simps minus_mult_div_eq_mod)
  next
    case False
    then have "\<not> (8 * i \<le> k \<and> k - 8 * i < 8)" by auto
    then show ?thesis using False by (auto simp: bit_simps dest: bit_imp_le_length)
  qed
  have "8 * i mod 64 = 8 * i" using i by simp
  then show ?case
    using Suc.prems by (simp add: Suc.IH bit_or_iff here) (auto simp: le_less_Suc_eq Suc_le_eq)
qed

lemma bit_split_load:
  "n \<le> 8 \<Longrightarrow> bit (split_load addr n rd) k \<longleftrightarrow>
     k < 64 \<and> k div 8 < n \<and> bit (rd (addr + of_nat (k div 8))) (k mod 8)"
  by (simp add: split_load_def bit_split_load_from)

definition le_byte :: "u64 \<Rightarrow> nat \<Rightarrow> u8" where
  "le_byte v i = ucast (drop_bit (8 * i) v)"

lemma le_byte_mask: "ucast (drop_bit (8 * i) v AND 0xFF) = le_byte v i"
  by (rule bit_word_eqI) (auto simp: le_byte_def and_masks bit_simps)

lemma bit_le_byte: "bit (le_byte v i) k \<longleftrightarrow> k < 8 \<and> bit v (8 * i + k)"
  by (auto simp: le_byte_def bit_simps)

lemma split_store_from_mem:
  "i + n \<le> 8 \<Longrightarrow> split_store_from addr i n val mem_write_byte m a =
     (if i \<le> unat (a - addr) \<and> unat (a - addr) < i + n then le_byte val (unat (a - addr)) else m a)"
proof (induction n arbitrary: i m)
  case 0
  then show ?case by auto
next
  case (Suc n)
  then have "8 * i mod 64 = 8 * i" "i < 2 ^ 64" by simp_all
  with Suc show ?case
    by (auto simp: mem_write_byte_def le_byte_mask u64_offset_eq le_less_Suc_eq Suc_le_eq)
qed

lemma store_bytes_at:
  "n \<le> 8 \<Longrightarrow> store_bytes addr n val m a =
     (if unat (a - addr) < n then le_byte val (unat (a - addr)) else m a)"
  by (simp add: store_bytes_def split_store_def split_store_from_mem)

subsection \<open>Properties\<close>

text \<open>A split load of the bytes a split store wrote at the same address and size returns the
  stored value truncated to that size, and a split load from a range disjoint from the store
  is unchanged by it.\<close>
theorem split_store_load:
  assumes "n \<le> 8" "n' \<le> 8"
  shows "split_load addr n (store_bytes addr n val m) = take_bit (8 * n) val
    \<and> ((\<forall>i < n'. n \<le> unat (addr' + of_nat i - addr)) \<longrightarrow>
        split_load addr' n' (store_bytes addr n val m) = split_load addr' n' m)"
proof (intro conjI impI)
  show "split_load addr n (store_bytes addr n val m) = take_bit (8 * n) val"
  proof (rule bit_word_eqI)
    fix k :: nat assume "k < LENGTH(64)"
    then have "k div 8 < 2 ^ 64" "k < 64" by simp_all
    moreover have "k div 8 < n \<longleftrightarrow> k < 8 * n" by auto
    ultimately show "bit (split_load addr n (store_bytes addr n val m)) k
        = bit (take_bit (8 * n) val) k"
      using assms by (simp add: bit_split_load store_bytes_at unat_of_nat_u64 bit_le_byte bit_simps)
  qed
next
  assume "\<forall>i < n'. n \<le> unat (addr' + of_nat i - addr)"
  then show "split_load addr' n' (store_bytes addr n val m) = split_load addr' n' m"
    using assms by (intro bit_word_eqI) (auto simp: bit_split_load store_bytes_at not_less [symmetric])
qed

theorem split_store_load_witness:
  "split_load 0x1003 4 (store_bytes 0x1003 4 0xAABBCCDDEEFF0011 (\<lambda>_. 0)) = 0xEEFF0011"
  using split_store_load [of 4 4 "0x1003" "0xAABBCCDDEEFF0011" "\<lambda>_. 0" 0] by (simp add: take_bit_eq_mod)

text \<open>Decoding a FENCE ordering field and encoding it again gives the field back, and
  encoding an ordering set and decoding it gives the set back.\<close>
theorem fence_set_roundtrip:
  "fence_set_to_bits (fence_set_from_bits b) = b AND 0xF
   \<and> fence_set_from_bits (fence_set_to_bits s) = s"
proof
  have b4: "b AND 8 \<noteq> 0 \<longleftrightarrow> bit b 3" "b AND 4 \<noteq> 0 \<longleftrightarrow> bit b 2" "b AND 2 \<noteq> 0 \<longleftrightarrow> bit b 1"
    "b AND 1 \<noteq> 0 \<longleftrightarrow> bit b 0" for b :: u8
    using and_exp_eq_0_iff_not_bit [of b 3] and_exp_eq_0_iff_not_bit [of b 2]
      and_exp_eq_0_iff_not_bit [of b 1] and_exp_eq_0_iff_not_bit [of b 0] by simp_all
  show "fence_set_to_bits (fence_set_from_bits b) = b AND 0xF"
    by (rule bit_word_eqI)
       (auto simp: fence_set_to_bits_def fence_set_from_bits_def b4 and_masks bool_as_def bit_simps
         less_Suc_eq numeral_eq_Suc bit_0 odd_iff_mod_2_eq_one)
  show "fence_set_from_bits (fence_set_to_bits s) = s"
    by (cases s) (simp add: fence_set_to_bits_def fence_set_from_bits_def bool_as_def)
qed

text \<open>The signed and unsigned minimum and maximum of the AMO unit are those of the values the
  operands denote at the access width; a word result is sign-extended from bit 31.\<close>
theorem atomic_alu_min_max:
  "sint (atomic_alu At_Min m r W_Double) = min (sint m) (sint r)
   \<and> sint (atomic_alu At_Max m r W_Double) = max (sint m) (sint r)
   \<and> sint (atomic_alu At_Min m r W_Word) = min (sint (as_i32 m)) (sint (as_i32 r))
   \<and> sint (atomic_alu At_Max m r W_Word) = max (sint (as_i32 m)) (sint (as_i32 r))
   \<and> uint (atomic_alu At_Minu m r W_Double) = min (uint m) (uint r)
   \<and> uint (as_i32 (atomic_alu At_Maxu m r W_Word)) = max (uint m mod 2 ^ 32) (uint r mod 2 ^ 32)"
  by (auto simp: atomic_alu_def atomic_res32_def atomic_res64_def cast_simps word_sle_eq
      word_sless_alt min_def max_def word_le_def)

lemma unat_low_bits: "k < 64 \<Longrightarrow> unat (addr AND (2 ^ k - 1)) = unat (addr :: u64) mod 2 ^ k"
  by (simp only: mask_eq_exp_minus_1 [symmetric] take_bit_eq_mask [symmetric] unsigned_take_bit_eq)
     (simp add: take_bit_eq_mod)

text \<open>For a power-of-two cache line an access no longer than a line crosses a line boundary
  exactly when its first and last bytes lie in different lines.\<close>
theorem crosses_cache_line_iff:
  assumes "0 < sz" "k < 64" "sz \<le> 2 ^ k"
  shows "crosses_cache_line addr sz (2 ^ k) \<longleftrightarrow>
    unat addr div 2 ^ k \<noteq> (unat addr + (unat sz - 1)) div 2 ^ k"
proof -
  let ?r = "unat addr mod 2 ^ k" and ?s = "unat sz - 1"
  have line: "unat (2 ^ k :: u64) = 2 ^ k"
    using assms(2) by (rule unat_exp_u64)
  have s: "?s < 2 ^ k"
    using assms(1,3) line by (auto simp: word_le_nat_alt word_less_nat_alt)
  have "(2::nat) ^ k * 2 \<le> 2 ^ 64"
    using assms(2) power_increasing [of "Suc k" 64 "2::nat"] by simp
  moreover have "?r < 2 ^ k" by simp
  ultimately have "?r + ?s < 2 ^ 64" using s by linarith
  then have "crosses_cache_line addr sz (2 ^ k) \<longleftrightarrow> 2 ^ k \<le> ?r + ?s"
    using assms by (auto simp: crosses_cache_line_def Let_def word_le_nat_alt line unat_word_ariths
        unat_low_bits unat_minus_one)
  moreover have "2 ^ k \<le> ?r + ?s \<longleftrightarrow> (?r + ?s) div 2 ^ k \<noteq> 0"
    by (simp add: div_eq_0_iff not_less)
  moreover have "(unat addr + ?s) div 2 ^ k = unat addr div 2 ^ k + (?r + ?s) div 2 ^ k"
  proof -
    have "unat addr + ?s = (?r + ?s) + unat addr div 2 ^ k * 2 ^ k"
      using mod_div_mult_eq [of "unat addr" "2 ^ k"] by linarith
    then show ?thesis by (simp only: div_mult_self1 power_not_zero zero_neq_numeral not_False_eq_True)
  qed
  ultimately show ?thesis by simp
qed

theorem crosses_cache_line_iff_witness:
  "crosses_cache_line 0x3E 4 (2 ^ 6) \<and> (0x3E::nat) div 2 ^ 6 \<noteq> (0x3E + 3) div 2 ^ 6"
  using crosses_cache_line_iff [of 4 6 "0x3E"] by simp

end
