(* ===== verification/StoreBuffer.thy ===== *)
theory StoreBuffer
  imports Rob Lsu
begin

text \<open>
  The store buffer (\<open>core/pipeline/store_buffer.rs\<close>): stores wait here between rename and the
  write to memory after commit, and forward their data to younger loads. The abstraction is the
  list of buffered stores in program order; its meaning is the memory a load must see, which is
  the byte memory with the older resolved stores applied in order (\<open>mem_with\<close>). The
  interpretation of the locale \<open>slot\<close> supplies the queue laws.

  Address sums wrap at 64 bits as in the release build. The forwarding theorem asks that the
  ranges of the load and of the stores do not cross the top of the address space
  (\<open>no_wrap\<close>); physical addresses of the machine are far below it.
\<close>

subsection \<open>Entries and the buffer\<close>

datatype forward_result = Hit u64 | Miss | Stall

datatype store_resolution =
    Sr_Pending
  | Sr_Ready phys_addr u64
  | Sr_Committed phys_addr u64
  | Sr_Cancelled

fun sr_is_committed :: "store_resolution \<Rightarrow> bool" where
  "sr_is_committed (Sr_Committed _ _) = True"
| "sr_is_committed Sr_Cancelled = True"
| "sr_is_committed _ = False"

fun sr_is_pending :: "store_resolution \<Rightarrow> bool" where
  "sr_is_pending Sr_Pending = True"
| "sr_is_pending _ = False"

fun sr_paddr :: "store_resolution \<Rightarrow> phys_addr option" where
  "sr_paddr (Sr_Ready p _) = Some p"
| "sr_paddr (Sr_Committed p _) = Some p"
| "sr_paddr _ = None"

record sb_entry =
  sb_rob_tag :: rob_tag
  sb_vaddr :: virt_addr
  sb_width :: mem_width
  sb_resolution :: store_resolution
  sb_valid :: bool

type_synonym store_buffer = "sb_entry ring"

definition sb_entry_new :: "rob_tag \<Rightarrow> mem_width \<Rightarrow> sb_entry" where
  "sb_entry_new tag w = \<lparr> sb_rob_tag = tag, sb_vaddr = 0, sb_width = w,
     sb_resolution = Sr_Pending, sb_valid = True \<rparr>"

definition sb_entry_default :: sb_entry where
  "sb_entry_default = (sb_entry_new 0 W_Nop)\<lparr> sb_valid := False \<rparr>"

definition sb_inval :: "sb_entry \<Rightarrow> sb_entry" where
  "sb_inval e = e\<lparr> sb_valid := False \<rparr>"

definition sb_new :: "nat \<Rightarrow> store_buffer" where
  "sb_new capacity = \<lparr> ring_entries = replicate capacity sb_entry_default,
     ring_head = 0, ring_tail = 0, ring_count = 0 \<rparr>"

definition sb_is_full :: "store_buffer \<Rightarrow> bool" where
  "sb_is_full b \<longleftrightarrow> ring_count b = length (ring_entries b)"

definition sb_is_empty :: "store_buffer \<Rightarrow> bool" where
  "sb_is_empty b \<longleftrightarrow> ring_count b = 0"

definition sb_free_slots :: "store_buffer \<Rightarrow> nat" where
  "sb_free_slots b = length (ring_entries b) - ring_count b"

definition sb_has_committed_stores :: "store_buffer \<Rightarrow> bool" where
  "sb_has_committed_stores b \<longleftrightarrow> ring_count b \<noteq> 0
     \<and> list_ex (\<lambda>e. sb_valid e \<and> sr_is_committed (sb_resolution e)) (ring_window b)"

definition sb_allocate :: "store_buffer \<Rightarrow> rob_tag \<Rightarrow> mem_width \<Rightarrow> store_buffer \<times> bool" where
  "sb_allocate b tag w =
    (if sb_is_full b then (b, False) else (ring_push (sb_entry_new tag w) b, True))"

text \<open>\<open>find_by_tag_mut\<close> followed by an assignment to the entry.\<close>

definition sb_update :: "rob_tag \<Rightarrow> (sb_entry \<Rightarrow> sb_entry) \<Rightarrow> store_buffer \<Rightarrow> store_buffer" where
  "sb_update tag = ring_update_first (\<lambda>e. sb_valid e \<and> sb_rob_tag e = tag)"

definition sb_resolve :: "rob_tag \<Rightarrow> virt_addr \<Rightarrow> phys_addr \<Rightarrow> u64 \<Rightarrow> store_buffer \<Rightarrow> store_buffer" where
  "sb_resolve tag vaddr paddr data =
     sb_update tag (\<lambda>e. e\<lparr> sb_vaddr := vaddr, sb_resolution := Sr_Ready paddr data \<rparr>)"

definition sb_commit_entry :: "sb_entry \<Rightarrow> sb_entry" where
  "sb_commit_entry e = (case sb_resolution e of
     Sr_Ready paddr data \<Rightarrow> e\<lparr> sb_resolution := Sr_Committed paddr data \<rparr> | _ \<Rightarrow> e)"

definition sb_mark_committed :: "rob_tag \<Rightarrow> store_buffer \<Rightarrow> store_buffer" where
  "sb_mark_committed tag = sb_update tag sb_commit_entry"

subsection \<open>Forwarding and the overlap queries\<close>

definition ranges_overlap :: "u64 \<Rightarrow> nat \<Rightarrow> u64 \<Rightarrow> nat \<Rightarrow> bool" where
  "ranges_overlap load_start load_size store_start store_size \<longleftrightarrow>
     load_start < store_start + of_nat store_size \<and> load_start + of_nat load_size > store_start"

definition forward_from :: "u64 \<Rightarrow> nat \<Rightarrow> u64 \<Rightarrow> nat \<Rightarrow> u64 \<Rightarrow> forward_result" where
  "forward_from load_start load_size store_start store_size store_data =
    (if store_start \<le> load_start
        \<and> store_start + of_nat store_size \<ge> load_start + of_nat load_size then
       let offset = (ucast (load_start - store_start) :: u32);
           shifted = drop_bit (unat (offset * 8) mod 64) store_data;
           mask = (if load_size \<ge> 8 then - 1 else push_bit (load_size * 8) 1 - 1)
       in Hit (shifted AND mask)
     else Stall)"

fun forward_loop :: "u64 \<Rightarrow> nat \<Rightarrow> rob_tag \<Rightarrow> sb_entry list \<Rightarrow> forward_result" where
  "forward_loop load_start load_size load_tag [] = Miss"
| "forward_loop load_start load_size load_tag (e # es) =
    (if sb_valid e \<and> is_older_than (sb_rob_tag e) load_tag then
       case sb_resolution e of
         Sr_Ready p d \<Rightarrow>
           if ranges_overlap load_start load_size p (width_to_bytes (sb_width e))
           then forward_from load_start load_size p (width_to_bytes (sb_width e)) d
           else forward_loop load_start load_size load_tag es
       | Sr_Committed p d \<Rightarrow>
           if ranges_overlap load_start load_size p (width_to_bytes (sb_width e))
           then forward_from load_start load_size p (width_to_bytes (sb_width e)) d
           else forward_loop load_start load_size load_tag es
       | _ \<Rightarrow> forward_loop load_start load_size load_tag es
     else forward_loop load_start load_size load_tag es)"

definition sb_forward_load :: "store_buffer \<Rightarrow> phys_addr \<Rightarrow> mem_width \<Rightarrow> rob_tag \<Rightarrow> forward_result" where
  "sb_forward_load b paddr w load_tag =
     forward_loop paddr (width_to_bytes w) load_tag (ring_window_back b)"

definition sb_has_unresolved_store_before :: "store_buffer \<Rightarrow> rob_tag \<Rightarrow> bool" where
  "sb_has_unresolved_store_before b tag \<longleftrightarrow> ring_count b \<noteq> 0
     \<and> list_ex (\<lambda>e. sb_valid e \<and> is_older_than (sb_rob_tag e) tag \<and> sr_is_pending (sb_resolution e))
         (ring_window b)"

fun unresolved_loop :: "rob_tag \<Rightarrow> sb_entry list \<Rightarrow> bool" where
  "unresolved_loop tag [] = False"
| "unresolved_loop tag (e # es) =
    (if sb_valid e \<and> sb_rob_tag e = tag then sr_is_pending (sb_resolution e) else unresolved_loop tag es)"

definition sb_is_unresolved :: "store_buffer \<Rightarrow> rob_tag \<Rightarrow> bool" where
  "sb_is_unresolved b tag \<longleftrightarrow> ring_count b \<noteq> 0 \<and> unresolved_loop tag (ring_window b)"

definition older_overlap :: "u64 \<Rightarrow> nat \<Rightarrow> rob_tag \<Rightarrow> sb_entry \<Rightarrow> bool" where
  "older_overlap start sz tag e \<longleftrightarrow> sb_valid e \<and> is_older_than (sb_rob_tag e) tag \<and>
    (case sb_resolution e of
       Sr_Pending \<Rightarrow> True
     | Sr_Ready p _ \<Rightarrow> ranges_overlap start sz p (width_to_bytes (sb_width e))
     | Sr_Committed p _ \<Rightarrow> ranges_overlap start sz p (width_to_bytes (sb_width e))
     | Sr_Cancelled \<Rightarrow> False)"

definition sb_has_older_store_to :: "store_buffer \<Rightarrow> phys_addr \<Rightarrow> mem_width \<Rightarrow> rob_tag \<Rightarrow> bool" where
  "sb_has_older_store_to b paddr w tag \<longleftrightarrow> ring_count b \<noteq> 0
     \<and> list_ex (older_overlap paddr (width_to_bytes w) tag) (ring_window b)"

subsection \<open>Drain, flush and cancel\<close>

definition sb_drain_one :: "store_buffer \<Rightarrow> store_buffer \<times> sb_entry option" where
  "sb_drain_one b =
    (if ring_count b = 0 then (b, None)
     else let e = ring_entries b ! ring_head b in
       if \<not> sb_valid e \<or> \<not> sr_is_committed (sb_resolution e) then (b, None)
       else (ring_pop sb_inval b, Some e))"

definition sb_flush_speculative :: "store_buffer \<Rightarrow> store_buffer" where
  "sb_flush_speculative = ring_compact (\<lambda>e. sb_valid e \<and> sr_is_committed (sb_resolution e)) sb_inval"

definition sb_flush_after :: "rob_tag \<Rightarrow> store_buffer \<Rightarrow> store_buffer" where
  "sb_flush_after keep_tag = ring_compact (\<lambda>e. sb_valid e \<and> is_older_or_eq (sb_rob_tag e) keep_tag) sb_inval"

definition sb_flush_all :: "store_buffer \<Rightarrow> store_buffer" where
  "sb_flush_all b = ring_clear sb_inval b"

definition sb_cancel :: "rob_tag \<Rightarrow> store_buffer \<Rightarrow> store_buffer" where
  "sb_cancel tag b =
    (case ring_find (\<lambda>e. sb_valid e \<and> sb_rob_tag e = tag) (ring_entries b) (ring_head b) (ring_count b) of
       None \<Rightarrow> b
     | Some idx \<Rightarrow>
         let prev_tail = prev_idx (length (ring_entries b)) (ring_tail b); e = ring_entries b ! idx in
         if idx = prev_tail
         then b\<lparr> ring_entries := (ring_entries b)[idx := sb_inval e], ring_tail := prev_tail,
                 ring_count := ring_count b - 1 \<rparr>
         else b\<lparr> ring_entries := (ring_entries b)[idx := e\<lparr> sb_resolution := Sr_Cancelled \<rparr>] \<rparr>)"

fun find_paddr_loop :: "rob_tag \<Rightarrow> sb_entry list \<Rightarrow> phys_addr option" where
  "find_paddr_loop tag [] = None"
| "find_paddr_loop tag (e # es) =
    (if sb_valid e \<and> sb_rob_tag e = tag then sr_paddr (sb_resolution e) else find_paddr_loop tag es)"

definition sb_find_paddr :: "store_buffer \<Rightarrow> rob_tag \<Rightarrow> phys_addr option" where
  "sb_find_paddr b tag = find_paddr_loop tag (ring_window b)"

text \<open>The write of a drained store (\<open>write_store_to_memory\<close>, an unaligned little-endian write of
  the store's width at its address), and \<open>drain_one_store\<close> without its timing: the write
  combining buffer and the cache simulation change no data. A cancelled entry writes nothing.\<close>

definition write_store_to_memory :: "phys_addr \<Rightarrow> u64 \<Rightarrow> mem_width \<Rightarrow> byte_mem \<Rightarrow> byte_mem" where
  "write_store_to_memory paddr data w m = store_bytes paddr (width_to_bytes w) data m"

definition drain_one_store :: "store_buffer \<times> byte_mem \<Rightarrow> store_buffer \<times> byte_mem" where
  "drain_one_store = (\<lambda>(b, m).
    case sb_drain_one b of
      (b', None) \<Rightarrow> (b', m)
    | (b', Some e) \<Rightarrow>
        (case sb_resolution e of
           Sr_Committed paddr data \<Rightarrow> (b', write_store_to_memory paddr data (sb_width e) m)
         | _ \<Rightarrow> (b', m)))"

text \<open>\<open>drain_all_committed\<close> repeats \<open>drain_one\<close> until it returns \<open>None\<close>; each round frees a slot.\<close>

lemma sb_drain_one_count: "sb_drain_one b = (b', Some e) \<Longrightarrow> ring_count b' < ring_count b"
  by (auto simp: sb_drain_one_def Let_def ring_pop_def split: if_splits)

function drain_all_committed :: "store_buffer \<Rightarrow> byte_mem \<Rightarrow> store_buffer \<times> byte_mem" where
  "drain_all_committed b m =
    (case sb_drain_one b of
       (b', None) \<Rightarrow> (b', m)
     | (b', Some e) \<Rightarrow>
         drain_all_committed b'
           (case sb_resolution e of
              Sr_Committed paddr data \<Rightarrow> write_store_to_memory paddr data (sb_width e) m
            | _ \<Rightarrow> m))"
  by pat_completeness auto
termination
  by (relation "measure (\<lambda>(b, m). ring_count b)") (auto dest!: sb_drain_one_count [OF sym])

declare drain_all_committed.simps [simp del]

subsection \<open>The memory a load must see\<close>

definition sb_effect :: "sb_entry \<Rightarrow> byte_mem \<Rightarrow> byte_mem" where
  "sb_effect e m = (case sb_resolution e of
     Sr_Ready p d \<Rightarrow> store_bytes p (width_to_bytes (sb_width e)) d m
   | Sr_Committed p d \<Rightarrow> store_bytes p (width_to_bytes (sb_width e)) d m
   | _ \<Rightarrow> m)"

definition mem_with :: "sb_entry list \<Rightarrow> byte_mem \<Rightarrow> byte_mem" where
  "mem_with es m = fold sb_effect es m"

definition older_stores :: "rob_tag \<Rightarrow> sb_entry list \<Rightarrow> sb_entry list" where
  "older_stores t es = filter (\<lambda>e. sb_valid e \<and> is_older_than (sb_rob_tag e) t) es"

definition no_wrap :: "u64 \<Rightarrow> nat \<Rightarrow> bool" where
  "no_wrap p n \<longleftrightarrow> unat p + n < 2 ^ 64"

definition sb_no_wrap :: "sb_entry \<Rightarrow> bool" where
  "sb_no_wrap e = (case sr_paddr (sb_resolution e) of
     None \<Rightarrow> True | Some p \<Rightarrow> no_wrap p (width_to_bytes (sb_width e)))"

lemma no_wrap_end: "no_wrap p n \<Longrightarrow> unat (p + of_nat n) = unat p + n"
proof -
  assume nw: "no_wrap p n"
  then have n: "unat (of_nat n :: u64) = n" by (intro unat_of_nat_u64) (simp add: no_wrap_def)
  with nw have "unat p + unat (of_nat n :: u64) < 2 ^ LENGTH(64)" by (simp add: no_wrap_def)
  from unat_add_lem [THEN iffD1, OF this] n show ?thesis by simp
qed

lemma in_range_iff:
  "no_wrap q k \<Longrightarrow> unat (a - q) < k \<longleftrightarrow> unat q \<le> unat a \<and> unat a < unat q + k"
  by (auto simp: unat_sub_if' no_wrap_def)

lemma ranges_overlap_iff:
  "no_wrap p n \<Longrightarrow> no_wrap q k \<Longrightarrow>
   ranges_overlap p n q k \<longleftrightarrow> unat p < unat q + k \<and> unat q < unat p + n"
  by (simp add: ranges_overlap_def word_less_nat_alt no_wrap_end)

lemma no_wrap_le: "no_wrap p n \<Longrightarrow> i \<le> n \<Longrightarrow> no_wrap p i"
  by (simp add: no_wrap_def)

lemma load_disjoint_store:
  assumes "n \<le> 8" "k \<le> 8" "no_wrap p n" "no_wrap q k" "\<not> ranges_overlap p n q k"
  shows "split_load p n (store_bytes q k d m) = split_load p n m"
proof (rule bit_word_eqI)
  fix j :: nat
  have "store_bytes q k d m (p + of_nat i) = m (p + of_nat i)" if "i < n" for i
  proof -
    have "unat (p + of_nat i) = unat p + i" 
      using that by (intro no_wrap_end no_wrap_le [OF assms(3)]) simp
    moreover have "\<not> (unat p < unat q + k \<and> unat q < unat p + n)"
      using assms(5) by (simp add: ranges_overlap_iff assms(3,4))
    ultimately have "\<not> unat (p + of_nat i - q) < k"
      using that unfolding in_range_iff [OF assms(4)] by linarith
    then show ?thesis by (simp add: store_bytes_at [OF assms(2)])
  qed
  then show "bit (split_load p n (store_bytes q k d m)) j = bit (split_load p n m) j"
    using assms(1) by (auto simp: bit_split_load)
qed

lemma load_covered_by_store:
  assumes "n \<le> 8" "k \<le> 8" "no_wrap p n" "no_wrap q k"
    and "q \<le> p" "unat p + n \<le> unat q + k"
  shows "split_load p n (store_bytes q k d m) = take_bit (8 * n) (drop_bit (8 * (unat p - unat q)) d)"
proof (rule bit_word_eqI)
  fix j :: nat assume j: "j < LENGTH(64)"
  let ?o = "unat p - unat q"
  show "bit (split_load p n (store_bytes q k d m)) j = bit (take_bit (8 * n) (drop_bit (8 * ?o) d)) j"
  proof (cases "j div 8 < n")
    case True
    have "unat (p + of_nat (j div 8)) = unat p + j div 8"
      using assms(3) True by (intro no_wrap_end no_wrap_le [OF assms(3)]) simp
    moreover have qp: "unat q \<le> unat p" using assms(5) by (simp add: word_le_nat_alt)
    ultimately have "unat (p + of_nat (j div 8) - q) = ?o + j div 8" by (simp add: unat_sub_if')
    moreover have "?o + j div 8 < k" using True assms(6) qp by simp
    ultimately have "bit (split_load p n (store_bytes q k d m)) j \<longleftrightarrow> bit d (8 * (?o + j div 8) + j mod 8)"
      using assms(1,2) True j by (simp add: bit_split_load store_bytes_at bit_le_byte)
    moreover have "8 * (?o + j div 8) + j mod 8 = 8 * ?o + j" by (simp add: distrib_left)
    moreover have "j < 8 * n" using True by auto
    ultimately show ?thesis by (simp add: bit_take_bit_iff bit_drop_bit_eq add.commute)
  next
    case False
    then have "\<not> j < 8 * n" by auto
    with False assms(1) show ?thesis by (simp add: bit_split_load bit_take_bit_iff)
  qed
qed

lemma forward_from_hit:
  assumes "n \<le> 8" "k \<le> 8" "no_wrap p n" "no_wrap q k" "ranges_overlap p n q k"
    and "forward_from p n q k d = Hit v"
  shows "v = split_load p n (store_bytes q k d m)"
proof -
  have cov: "q \<le> p" "unat p + n \<le> unat q + k"
    and v: "v = drop_bit (unat ((ucast (p - q) :: u32) * 8) mod 64) d AND (if 8 \<le> n then - 1 else push_bit (n * 8) 1 - 1)"
    using assms(6) no_wrap_end [OF assms(3)] no_wrap_end [OF assms(4)]
    by (auto simp: forward_from_def Let_def word_le_nat_alt split: if_splits)
  have qp: "unat q \<le> unat p" using cov(1) by (simp add: word_le_nat_alt)
  have "unat p < unat q + k" using assms(3-5) by (simp add: ranges_overlap_iff)
  then have o: "unat p - unat q < 8" using assms(2) by simp
  have "unat (ucast (p - q) :: u32) = unat p - unat q"
    using o qp by (simp add: unat_sub_if' unsigned_ucast_eq take_bit_nat_eq_self_iff)
  then have "unat ((ucast (p - q) :: u32) * 8) = 8 * (unat p - unat q)"
    using o by (simp add: unat_word_ariths)
  then have shift: "unat ((ucast (p - q) :: u32) * 8) mod 64 = 8 * (unat p - unat q)"
    using o by simp
  have mask: "x AND (if 8 \<le> n then - 1 else push_bit (n * 8) 1 - 1) = take_bit (8 * n) x" for x :: u64
  proof (cases "n = 8")
    case False
    with assms(1) show ?thesis
      by (simp add: take_bit_eq_mask mask_eq_exp_minus_1 mult.commute push_bit_eq_mult)
  qed (simp add: take_bit_word_eq_self)
  show ?thesis
    unfolding load_covered_by_store [OF assms(1-4) cov] v shift mask ..
qed

lemma forward_loop_spec:
  assumes "\<forall>e \<in> set es. sb_no_wrap e" "n \<le> 8" "no_wrap p n"
  shows "case forward_loop p n t es of
      Hit v \<Rightarrow> v = split_load p n (foldr sb_effect (older_stores t es) m)
    | Miss \<Rightarrow> split_load p n (foldr sb_effect (older_stores t es) m) = split_load p n m
    | Stall \<Rightarrow> True"
  using assms(1)
proof (induction es)
  case Nil
  then show ?case by (simp add: older_stores_def)
next
  case (Cons e es)
  show ?case
  proof (cases "sb_valid e \<and> is_older_than (sb_rob_tag e) t \<and> sr_paddr (sb_resolution e) \<noteq> None")
    case False
    then have loop: "forward_loop p n t (e # es) = forward_loop p n t es"
      and eff: "foldr sb_effect (older_stores t (e # es)) m = foldr sb_effect (older_stores t es) m"
      by (auto simp: older_stores_def sb_effect_def split: store_resolution.splits)
    from Cons show ?thesis unfolding loop eff by simp
  next
    case True
    then obtain q d where res: "sb_resolution e = Sr_Ready q d \<or> sb_resolution e = Sr_Committed q d"
      by (cases "sb_resolution e") auto
    let ?k = "width_to_bytes (sb_width e)"
    have nw: "no_wrap q ?k" using Cons.prems res by (auto simp: sb_no_wrap_def)
    have loop: "forward_loop p n t (e # es) =
        (if ranges_overlap p n q ?k then forward_from p n q ?k d else forward_loop p n t es)"
      and eff: "foldr sb_effect (older_stores t (e # es)) m = store_bytes q ?k d (foldr sb_effect (older_stores t es) m)"
      using True res by (auto simp: older_stores_def sb_effect_def)
    show ?thesis
    proof (cases "ranges_overlap p n q ?k")
      case True
      have "v = split_load p n (store_bytes q ?k d m')" if "forward_from p n q ?k d = Hit v" for v m'
        using forward_from_hit [OF assms(2) _ assms(3) nw True that] by simp
      moreover have "forward_from p n q ?k d \<noteq> Miss" by (simp add: forward_from_def Let_def)
      ultimately show ?thesis using True unfolding loop eff by (auto split: forward_result.splits)
    next
      case False
      have "split_load p n (store_bytes q ?k d m') = split_load p n m'" for m'
        using load_disjoint_store [OF assms(2) _ assms(3) nw False] by simp
      with False Cons show ?thesis unfolding loop eff by (simp split: forward_result.splits)
    qed
  qed
qed

subsection \<open>The buffer as a queue\<close>

interpretation sb: slot sb_valid sb_inval sb_rob_tag
  by unfold_locales (simp_all add: sb_inval_def)

abbreviation sb_stores :: "store_buffer \<Rightarrow> sb_entry list" where
  "sb_stores b \<equiv> ring_live sb_valid b"

definition sb_inv :: "store_buffer \<Rightarrow> bool" where
  "sb_inv b \<longleftrightarrow> ring_wf b \<and> (\<forall>e \<in> set (ring_window b). sb_valid e) \<and> distinct (map sb_rob_tag (ring_window b))"

lemma sb_inv_wf: "sb_inv b \<Longrightarrow> ring_wf b"
  and sb_inv_distinct: "sb_inv b \<Longrightarrow> distinct (map sb_rob_tag (ring_window b))"
  and sb_inv_stores: "sb_inv b \<Longrightarrow> ring_live sb_valid b = ring_window b"
  by (auto simp: sb_inv_def ring_live_def)

lemma sb_new_inv [inv_intros]: "0 < n \<Longrightarrow> sb_inv (sb_new n)"
  by (simp add: sb_inv_def sb_new_def ring_wf_def ring_window_def)

lemma sb_allocate_inv [inv_intros]:
  assumes "sb_inv b" "t \<notin> sb_rob_tag ` set (ring_window b)" "sb_allocate b t w = (b', ok)"
  shows "sb_inv b' \<and> ok = (\<not> sb_is_full b)
    \<and> ring_window b' = ring_window b @ (if ok then [sb_entry_new t w] else [])"
proof (cases "sb_is_full b")
  case True
  with assms show ?thesis by (auto simp: sb_allocate_def)
next
  case False
  then have "ring_count b < ring_cap b" using assms(1) by (auto simp: sb_is_full_def sb_inv_def ring_wf_def)
  with False assms show ?thesis
    by (auto simp: sb_allocate_def sb_inv_def ring_push_wf ring_push_window) (auto simp: sb_entry_new_def)
qed

lemma sb_update_inv [inv_intros]:
  assumes "sb_inv b" "\<And>e. sb_valid (f e) = sb_valid e" "\<And>e. sb_rob_tag (f e) = sb_rob_tag e"
  shows "sb_inv (sb_update t f b)"
    and "ring_window (sb_update t f b) = map (\<lambda>e. if sb_rob_tag e = t then f e else e) (ring_window b)"
proof -
  have live: "ring_live sb_valid (sb_update t f b) = map (\<lambda>e. if sb_rob_tag e = t then f e else e) (ring_window b)"
    using sb.live_update [of b f t] assms by (simp add: sb_update_def sb_inv_stores sb_inv_wf sb_inv_distinct)
  have win: "ring_window (sb_update t f b) = upd_first (\<lambda>e. sb_valid e \<and> sb_rob_tag e = t) f (ring_window b)"
    by (simp add: sb_update_def ring_update_first_window sb_inv_wf assms(1))
  have tags: "map sb_rob_tag (upd_first P f es) = map sb_rob_tag es" for P es
    by (rule map_upd_first) (simp add: assms(3))
  have val: "map sb_valid (upd_first P f es) = map sb_valid es" for P es
    by (rule map_upd_first) (simp add: assms(2))
  have "set (map sb_valid (ring_window (sb_update t f b))) \<subseteq> {True}"
    using assms(1) by (auto simp: win val sb_inv_def simp del: set_map) (auto simp: sb_inv_def)
  then have valid: "\<forall>e \<in> set (ring_window (sb_update t f b)). sb_valid e" by auto
  with live show "ring_window (sb_update t f b) = map (\<lambda>e. if sb_rob_tag e = t then f e else e) (ring_window b)"
    by (simp add: ring_live_def)
  have "ring_wf (sb_update t f b)" by (simp add: sb_update_def ring_update_first_wf sb_inv_wf assms(1))
  then show "sb_inv (sb_update t f b)"
    using valid assms(1) by (simp add: sb_inv_def) (simp add: win tags sb_inv_def)
qed

lemma sb_head: "sb_inv b \<Longrightarrow> ring_window b = e # es \<Longrightarrow> ring_count b \<noteq> 0 \<and> ring_entries b ! ring_head b = e \<and> sb_valid e"
proof -
  assume inv: "sb_inv b" and win: "ring_window b = e # es"
  then have "ring_count b \<noteq> 0" by (metis length_ring_window length_0_conv list.discI)
  then show ?thesis
    using ring_window_nth [of b 0] inv win by (auto simp: sb_inv_def ring_wf_def)
qed

lemma sb_drain_one_spec:
  assumes "sb_inv b"
  shows "sb_drain_one b = (b', r) \<Longrightarrow> sb_inv b' \<and>
    (case r of
       None \<Rightarrow> b' = b \<and> (\<forall>e es. ring_window b = e # es \<longrightarrow> \<not> sr_is_committed (sb_resolution e))
     | Some e \<Rightarrow> ring_window b = e # ring_window b' \<and> sr_is_committed (sb_resolution e))"
proof -
  assume drain: "sb_drain_one b = (b', r)"
  show ?thesis
  proof (cases "ring_window b")
    case Nil
    then have "ring_count b = 0" by (metis length_ring_window list.size(3))
    with drain assms Nil show ?thesis by (auto simp: sb_drain_one_def)
  next
    case (Cons e es)
    note head = sb_head [OF assms Cons]
    have pop: "ring_window (ring_pop sb_inval b) = es" "ring_wf (ring_pop sb_inval b)"
      using ring_pop_window [OF sb_inv_wf [OF assms]] ring_pop_wf [OF sb_inv_wf [OF assms]] head Cons by simp_all
    then have "sb_inv (ring_pop sb_inval b)" using assms Cons by (simp add: sb_inv_def)
    with drain head assms Cons pop show ?thesis
      by (auto simp: sb_drain_one_def Let_def split: if_splits)
  qed
qed

lemma sb_compact_inv:
  assumes "sb_inv b"
  shows "sb_inv (ring_compact (\<lambda>e. sb_valid e \<and> P e) sb_inval b)"
    and "ring_window (ring_compact (\<lambda>e. sb_valid e \<and> P e) sb_inval b) = filter P (ring_window b)"
proof -
  show win: "ring_window (ring_compact (\<lambda>e. sb_valid e \<and> P e) sb_inval b) = filter P (ring_window b)"
    using assms by (auto simp: ring_compact_window sb_inv_def intro: filter_cong)
  show "sb_inv (ring_compact (\<lambda>e. sb_valid e \<and> P e) sb_inval b)"
    using assms by (simp add: sb_inv_def [of "ring_compact _ _ _"] win ring_compact_wf sb_inv_wf)
      (auto simp: sb_inv_def distinct_map_filter)
qed

lemmas sb_flush_speculative_spec = sb_compact_inv [where P = "\<lambda>e. sr_is_committed (sb_resolution e)", folded sb_flush_speculative_def]
lemmas sb_flush_after_spec = sb_compact_inv [where P = "\<lambda>e. is_older_or_eq (sb_rob_tag e) keep_tag" for keep_tag, folded sb_flush_after_def]

subsection \<open>Cancelling a failed store-conditional\<close>

lemma ring_retract:
  assumes "ring_wf b" "ring_count b = Suc n"
  shows "prev_idx (ring_cap b) (ring_tail b) = (ring_head b + n) mod ring_cap b"
    and "ring_window (b\<lparr>ring_entries := (ring_entries b)[(ring_head b + n) mod ring_cap b := e],
      ring_tail := (ring_head b + n) mod ring_cap b, ring_count := n\<rparr>) = butlast (ring_window b)"
    and "ring_wf (b\<lparr>ring_entries := (ring_entries b)[(ring_head b + n) mod ring_cap b := e],
      ring_tail := (ring_head b + n) mod ring_cap b, ring_count := n\<rparr>)"
proof -
  let ?b = "b\<lparr>ring_entries := (ring_entries b)[(ring_head b + n) mod ring_cap b := e],
      ring_tail := (ring_head b + n) mod ring_cap b, ring_count := n\<rparr>"
  show "prev_idx (ring_cap b) (ring_tail b) = (ring_head b + n) mod ring_cap b"
    using assms prev_idx_step [of "ring_cap b" "ring_head b" n] by (simp add: ring_wf_def)
  show wf: "ring_wf ?b" using assms by (simp add: ring_wf_def)
  have "slot_at (ring_entries ?b) (ring_head b) i = slot_at (ring_entries b) (ring_head b) i" if "i < n" for i
    using that assms by (simp add: slot_at_update ring_wf_def)
  then show "ring_window ?b = butlast (ring_window b)"
    unfolding ring_window_conv [OF wf] ring_window_conv [OF assms(1)] using assms(2) by simp
qed

definition sb_cancelled :: "sb_entry \<Rightarrow> sb_entry" where
  "sb_cancelled e = e\<lparr> sb_resolution := Sr_Cancelled \<rparr>"

lemma sb_cancel_spec:
  assumes "sb_inv b"
  shows "sb_inv (sb_cancel t b)"
    and "ring_window (sb_cancel t b) =
      (if ring_window b \<noteq> [] \<and> sb_rob_tag (last (ring_window b)) = t then butlast (ring_window b)
       else map (\<lambda>e. if sb_rob_tag e = t then sb_cancelled e else e) (ring_window b))"
proof -
  let ?at = "slot_at (ring_entries b) (ring_head b)" and ?w = "ring_window b"
  have wf: "ring_wf b" using assms by (rule sb_inv_wf)
  have dist: "distinct (map sb_rob_tag ?w)" using assms by (rule sb_inv_distinct)
  have valid: "sb_valid (?w ! k)" if "k < ring_count b" for k using assms that by (simp add: sb_inv_def)
  have find: "ring_find (\<lambda>e. sb_valid e \<and> sb_rob_tag e = t) (ring_entries b) (ring_head b) (ring_count b) =
      map_option (\<lambda>k. (ring_head b + k) mod ring_cap b) (find (\<lambda>k. sb_valid (?at k) \<and> sb_rob_tag (?at k) = t) [0..<ring_count b])"
    using ring_find_conv [of "ring_head b" "ring_entries b" "\<lambda>e. sb_valid e \<and> sb_rob_tag e = t" 0 "ring_count b"] wf
    by (simp add: ring_wf_def)
  have "sb_inv (sb_cancel t b) \<and> ring_window (sb_cancel t b) =
      (if ?w \<noteq> [] \<and> sb_rob_tag (last ?w) = t then butlast ?w
       else map (\<lambda>e. if sb_rob_tag e = t then sb_cancelled e else e) ?w)"
  proof (cases "find (\<lambda>k. sb_valid (?at k) \<and> sb_rob_tag (?at k) = t) [0..<ring_count b]")
    case None
    with find have same: "sb_cancel t b = b" by (simp add: sb_cancel_def)
    have absent: "\<forall>e \<in> set ?w. sb_rob_tag e \<noteq> t"
      using None assms wf by (auto simp: find_None_iff ring_window_conv sb_inv_def)
    then have "map (\<lambda>e. if sb_rob_tag e = t then sb_cancelled e else e) ?w = ?w"
      by (intro map_idI) simp
    moreover have "?w \<noteq> [] \<Longrightarrow> sb_rob_tag (last ?w) \<noteq> t" using absent last_in_set by blast
    ultimately show ?thesis using same assms by auto
  next
    case (Some k)
    then have k: "k < ring_count b" "sb_rob_tag (?w ! k) = t"
      using wf by (auto simp: find_Some_iff ring_window_conv)
    obtain n where n: "ring_count b = Suc n" using k by (cases "ring_count b") auto
    then have ne: "?w \<noteq> []" by (metis length_ring_window list.size(3) nat.distinct(1))
    then have last: "last ?w = ?w ! n" using n by (simp add: last_conv_nth)
    note retract = ring_retract [OF wf n]
    have kn: "(ring_head b + k) mod ring_cap b = (ring_head b + n) mod ring_cap b \<longleftrightarrow> k = n"
      using k n wf mod_add_inj [of k "ring_cap b" n "ring_head b"] by (auto simp: ring_wf_def)
    have tk: "sb_rob_tag (?w ! n) = t \<longleftrightarrow> k = n"
      using dist k n nth_eq_iff_index_eq [OF dist, of n k] by auto
    show ?thesis
    proof (cases "k = n")
      case True
      have "distinct (map sb_rob_tag (butlast ?w))" using dist by (simp add: map_butlast distinct_butlast)
      moreover have "\<forall>e \<in> set (butlast ?w). sb_valid e" using assms by (auto simp: sb_inv_def dest: in_set_butlastD)
      ultimately show ?thesis
        using True find Some n retract ne last tk
        by (simp add: sb_cancel_def Let_def sb_inv_def)
    next
      case False
      have "sb_cancel t b = sb_update t sb_cancelled b"
        using False find Some retract kn
        by (simp add: sb_cancel_def Let_def sb_update_def ring_update_first_def sb_cancelled_def)
      with sb_update_inv [OF assms, of sb_cancelled t] False ne last tk show ?thesis
        by (simp add: sb_cancelled_def)
    qed
  qed
  then show "sb_inv (sb_cancel t b)" "ring_window (sb_cancel t b) =
      (if ?w \<noteq> [] \<and> sb_rob_tag (last ?w) = t then butlast ?w
       else map (\<lambda>e. if sb_rob_tag e = t then sb_cancelled e else e) ?w)" by simp_all
qed

lemma mem_with_append [simp]: "mem_with (xs @ ys) m = mem_with ys (mem_with xs m)"
  by (simp add: mem_with_def)

lemma mem_with_Cons [simp]: "mem_with (e # es) m = mem_with es (sb_effect e m)"
  by (simp add: mem_with_def)

lemma mem_with_Nil [simp]: "mem_with [] m = m"
  by (simp add: mem_with_def)

lemma mem_with_cancelled:
  "mem_with (map (\<lambda>e. if sb_rob_tag e = t then sb_cancelled e else e) es) m
   = mem_with (filter (\<lambda>e. sb_rob_tag e \<noteq> t) es) m"
  by (induction es arbitrary: m) (simp_all add: sb_effect_def sb_cancelled_def)

lemma sb_drain_effect:
  "sr_is_committed (sb_resolution e) \<Longrightarrow>
   (case sb_resolution e of Sr_Committed p d \<Rightarrow> write_store_to_memory p d (sb_width e) m | _ \<Rightarrow> m) = sb_effect e m"
  by (cases "sb_resolution e") (simp_all add: sb_effect_def write_store_to_memory_def)

subsection \<open>Properties\<close>

lemma forward_load_view:
  assumes "sb_inv b" "no_wrap paddr (width_to_bytes w)" "\<forall>e \<in> set (ring_window b). sb_no_wrap e"
  shows "case sb_forward_load b paddr w t of
      Hit v \<Rightarrow> v = split_load paddr (width_to_bytes w) (mem_with (older_stores t (ring_window b)) m)
    | Miss \<Rightarrow> split_load paddr (width_to_bytes w) (mem_with (older_stores t (ring_window b)) m)
               = split_load paddr (width_to_bytes w) m
    | Stall \<Rightarrow> True"
proof -
  have "older_stores t (rev es) = rev (older_stores t es)" for es
    by (simp add: older_stores_def rev_filter)
  then show ?thesis
    using forward_loop_spec [of "rev (ring_window b)" "width_to_bytes w" paddr t m] assms
    by (simp add: sb_forward_load_def ring_window_back_conv sb_inv_wf mem_with_def foldr_conv_fold
      split: forward_result.splits)
qed

text \<open>C4. Store-to-load forwarding is correct. For a load whose range and the ranges of the
  buffered stores do not wrap, let the right memory be the byte memory with every older resolved
  store of the buffer applied in program order. A hit returns exactly the bytes of the right
  memory, and a miss means that no older buffered store changes the bytes the load reads.\<close>

theorem sb_forward_load_correct:
  assumes "sb_inv b" "no_wrap paddr (width_to_bytes w)" "\<forall>e \<in> set (ring_window b). sb_no_wrap e"
  shows "case sb_forward_load b paddr w t of
      Hit v \<Rightarrow> v = split_load paddr (width_to_bytes w) (mem_with (older_stores t (ring_window b)) m)
    | Miss \<Rightarrow> split_load paddr (width_to_bytes w) (mem_with (older_stores t (ring_window b)) m)
               = split_load paddr (width_to_bytes w) m
    | Stall \<Rightarrow> True"
  using assms by (rule forward_load_view)

definition sb_ex :: store_buffer where
  "sb_ex = sb_resolve 3 0x1004 0x1004 0xBBBB (sb_resolve 1 0x1000 0x1000 0x1122334455667788
     (fst (sb_allocate (fst (sb_allocate (sb_new 2) 1 W_Double)) 3 W_Half)))"

lemma sb_ex_window:
  "ring_window sb_ex = [(sb_entry_new 1 W_Double)\<lparr>sb_vaddr := 0x1000, sb_resolution := Sr_Ready 0x1000 0x1122334455667788\<rparr>,
     (sb_entry_new 3 W_Half)\<lparr>sb_vaddr := 0x1004, sb_resolution := Sr_Ready 0x1004 0xBBBB\<rparr>]"
  "sb_inv sb_ex"
proof -
  let ?b = "fst (sb_allocate (fst (sb_allocate (sb_new 2) 1 W_Double)) 3 W_Half)"
  have win: "ring_window ?b = [sb_entry_new 1 W_Double, sb_entry_new 3 W_Half]"
    by (simp add: sb_allocate_def sb_new_def sb_is_full_def ring_push_def ring_window_def replicate_2 numeral_2_eq_2)
  have "ring_wf ?b"
    by (simp add: sb_allocate_def sb_new_def sb_is_full_def ring_push_def ring_wf_def replicate_2)
  with win have inv: "sb_inv ?b" by (simp add: sb_inv_def sb_entry_new_def)
  show "sb_inv sb_ex" unfolding sb_ex_def sb_resolve_def by (intro sb_update_inv(1) inv) simp_all
  show "ring_window sb_ex = [(sb_entry_new 1 W_Double)\<lparr>sb_vaddr := 0x1000, sb_resolution := Sr_Ready 0x1000 0x1122334455667788\<rparr>,
     (sb_entry_new 3 W_Half)\<lparr>sb_vaddr := 0x1004, sb_resolution := Sr_Ready 0x1004 0xBBBB\<rparr>]"
    unfolding sb_ex_def sb_resolve_def
    by (subst sb_update_inv(2), intro sb_update_inv(1) inv, simp_all)
      (subst sb_update_inv(2), intro inv, simp_all add: win, simp_all add: sb_entry_new_def)
qed

theorem sb_forward_load_correct_witness:
  "sb_forward_load sb_ex 0x1002 W_Half 2 = Hit 0x5566
   \<and> split_load 0x1002 2 (mem_with (older_stores 2 (ring_window sb_ex)) (\<lambda>_. 0)) = 0x5566"
proof -
  have "sb_forward_load sb_ex 0x1002 W_Half 2 = Hit 0x5566"
    by (simp add: sb_forward_load_def ring_window_back_conv sb_inv_wf sb_ex_window sb_entry_new_def
      is_older_than_def ranges_overlap_def forward_from_def)
  moreover have "\<forall>e \<in> set (ring_window sb_ex). sb_no_wrap e"
    by (simp add: sb_ex_window sb_entry_new_def sb_no_wrap_def no_wrap_def)
  ultimately show ?thesis
    using sb_forward_load_correct [OF sb_ex_window(2), of "0x1002" W_Half 2 "\<lambda>_. 0"]
    by (simp add: no_wrap_def)
qed

text \<open>C22. Draining is invisible to loads: writing out the oldest committed store, or all committed
  stores at the front, leaves the memory a load sees through the buffer unchanged, byte for byte.
  Stores leave in program order, a cancelled store writes nothing, and after
  \<open>drain_all_committed\<close> the front of the buffer is not a committed store.\<close>

theorem sb_drain_preserves_view:
  assumes "sb_inv b"
  shows "(case drain_one_store (b, m) of (b1, m1) \<Rightarrow>
      sb_inv b1 \<and> mem_with (ring_window b1) m1 = mem_with (ring_window b) m)
    \<and> (case drain_all_committed b m of (b2, m2) \<Rightarrow>
      sb_inv b2 \<and> mem_with (ring_window b2) m2 = mem_with (ring_window b) m
      \<and> (\<exists>es. ring_window b = es @ ring_window b2 \<and> m2 = mem_with es m)
      \<and> (\<forall>e es. ring_window b2 = e # es \<longrightarrow> \<not> sr_is_committed (sb_resolution e)))"
proof
  obtain b' r where drain: "sb_drain_one b = (b', r)" by force
  show "case drain_one_store (b, m) of (b1, m1) \<Rightarrow>
      sb_inv b1 \<and> mem_with (ring_window b1) m1 = mem_with (ring_window b) m"
    using drain sb_drain_one_spec [OF assms drain]
    by (cases r) (auto simp: drain_one_store_def sb_effect_def write_store_to_memory_def
      split: store_resolution.splits)
  show "case drain_all_committed b m of (b2, m2) \<Rightarrow>
      sb_inv b2 \<and> mem_with (ring_window b2) m2 = mem_with (ring_window b) m
      \<and> (\<exists>es. ring_window b = es @ ring_window b2 \<and> m2 = mem_with es m)
      \<and> (\<forall>e es. ring_window b2 = e # es \<longrightarrow> \<not> sr_is_committed (sb_resolution e))"
    using assms
  proof (induction b m rule: drain_all_committed.induct)
    case (1 b m)
    obtain b' r where drain: "sb_drain_one b = (b', r)" by force
    note spec = sb_drain_one_spec [OF "1.prems" drain]
    show ?case
    proof (cases r)
      case None
      with drain spec show ?thesis by (auto simp: drain_all_committed.simps [of b m])
    next
      case (Some e)
      then have win: "ring_window b = e # ring_window b'" and com: "sr_is_committed (sb_resolution e)"
        and inv: "sb_inv b'" using spec by simp_all
      note eff = sb_drain_effect [OF com, of m]
      have "drain_all_committed b m = drain_all_committed b' (sb_effect e m)"
        using drain Some eff by (simp add: drain_all_committed.simps [of b m])
      moreover obtain b2 m2 where res: "drain_all_committed b' (sb_effect e m) = (b2, m2)" by force
      moreover from "1.IH" [OF drain [symmetric] Some inv] eff res obtain es where
          "ring_window b' = es @ ring_window b2" "m2 = mem_with es (sb_effect e m)" "sb_inv b2"
          "\<forall>e es. ring_window b2 = e # es \<longrightarrow> \<not> sr_is_committed (sb_resolution e)"
        by auto
      ultimately show ?thesis
        unfolding win by (auto simp del: append_Cons simp: append_Cons [symmetric] intro!: exI [of _ "e # es"])
    qed
  qed
qed

theorem sb_drain_preserves_view_witness:
  "case drain_all_committed (sb_mark_committed 1 sb_ex) (\<lambda>_. 0) of (b2, m2) \<Rightarrow>
     mem_with (ring_window b2) m2 = mem_with (ring_window (sb_mark_committed 1 sb_ex)) (\<lambda>_. 0)"
proof -
  have "sb_inv (sb_mark_committed 1 sb_ex)"
    unfolding sb_mark_committed_def
    by (intro sb_update_inv(1) sb_ex_window(2))
      (simp_all add: sb_commit_entry_def split: store_resolution.splits)
  from sb_drain_preserves_view [OF this, of "\<lambda>_. 0"] show ?thesis by (auto split: prod.splits)
qed

text \<open>A misprediction flush keeps exactly the buffered stores up to the kept tag, in order and
  unchanged, a trap flush keeps exactly the committed and cancelled ones, and a cancelled
  store-conditional disappears from the memory a load sees while every other store stays.\<close>

theorem sb_flush_and_cancel:
  assumes "sb_inv b"
  shows "ring_window (sb_flush_after t b) = filter (\<lambda>e. is_older_or_eq (sb_rob_tag e) t) (ring_window b)
    \<and> ring_window (sb_flush_speculative b) = filter (\<lambda>e. sr_is_committed (sb_resolution e)) (ring_window b)
    \<and> mem_with (ring_window (sb_cancel t b)) m = mem_with (filter (\<lambda>e. sb_rob_tag e \<noteq> t) (ring_window b)) m
    \<and> sb_inv (sb_flush_after t b) \<and> sb_inv (sb_flush_speculative b) \<and> sb_inv (sb_cancel t b)"
proof -
  have "mem_with (ring_window (sb_cancel t b)) m = mem_with (filter (\<lambda>e. sb_rob_tag e \<noteq> t) (ring_window b)) m"
  proof (cases "ring_window b \<noteq> [] \<and> sb_rob_tag (last (ring_window b)) = t")
    case True
    then obtain es e where w: "ring_window b = es @ [e]" "sb_rob_tag e = t"
      by (metis append_butlast_last_id)
    then have "\<forall>x \<in> set es. sb_rob_tag x \<noteq> t" using sb_inv_distinct [OF assms] by (auto simp: image_iff)
    with w show ?thesis by (simp add: sb_cancel_spec(2) [OF assms])
  next
    case False
    then show ?thesis by (simp only: sb_cancel_spec(2) [OF assms] if_False mem_with_cancelled)
  qed
  then show ?thesis
    using assms by (simp add: sb_flush_after_spec sb_flush_speculative_spec sb_cancel_spec(1))
qed

theorem sb_flush_and_cancel_witness:
  "map sb_rob_tag (ring_window (sb_flush_after 2 sb_ex)) = [1] \<and> sb_inv sb_ex"
  using sb_flush_and_cancel [OF sb_ex_window(2), of 2] sb_ex_window(2)
  by (simp add: sb_ex_window(1) sb_entry_new_def is_older_or_eq_def is_older_than_def)

end
