(* ===== verification/LoadQueue.thy ===== *)
theory LoadQueue
  imports StoreBuffer
begin

text \<open>
  The load queue (\<open>core/pipeline/load_queue.rs\<close>): in-flight loads in program order, searched
  when a store resolves its address for younger loads that already read stale data. Unlike the
  store buffer, an out-of-order deallocation leaves an unoccupied slot in the middle, so the
  abstraction is the list of occupied slots (\<open>ring_live\<close>), and the invariant is only that the
  ring is well formed and the live tags are distinct.
\<close>

subsection \<open>Entries and operations\<close>

datatype load_state = Ld_Pending | Ld_Translated | Ld_Executed

record lq_entry =
  lq_rob_tag :: rob_tag
  lq_vaddr :: virt_addr
  lq_paddr :: "phys_addr option"
  lq_data :: u64
  lq_width :: mem_width
  lq_state :: load_state
  lq_valid :: bool

type_synonym load_queue = "lq_entry ring"

definition lq_entry_new :: "rob_tag \<Rightarrow> mem_width \<Rightarrow> lq_entry" where
  "lq_entry_new tag w = \<lparr> lq_rob_tag = tag, lq_vaddr = 0, lq_paddr = None, lq_data = 0,
     lq_width = w, lq_state = Ld_Pending, lq_valid = True \<rparr>"

definition lq_inval :: "lq_entry \<Rightarrow> lq_entry" where
  "lq_inval e = e\<lparr> lq_valid := False \<rparr>"

definition lq_new :: "nat \<Rightarrow> load_queue" where
  "lq_new capacity = \<lparr> ring_entries = replicate capacity (lq_inval (lq_entry_new 0 W_Nop)),
     ring_head = 0, ring_tail = 0, ring_count = 0 \<rparr>"

definition lq_is_full :: "load_queue \<Rightarrow> bool" where
  "lq_is_full q \<longleftrightarrow> ring_count q = length (ring_entries q)"

definition lq_free_slots :: "load_queue \<Rightarrow> nat" where
  "lq_free_slots q = length (ring_entries q) - ring_count q"

definition lq_allocate :: "load_queue \<Rightarrow> rob_tag \<Rightarrow> mem_width \<Rightarrow> load_queue \<times> bool" where
  "lq_allocate q tag w = (if lq_is_full q then (q, False) else (ring_push (lq_entry_new tag w) q, True))"

definition lq_update :: "rob_tag \<Rightarrow> (lq_entry \<Rightarrow> lq_entry) \<Rightarrow> load_queue \<Rightarrow> load_queue" where
  "lq_update tag = ring_update_first (\<lambda>e. lq_valid e \<and> lq_rob_tag e = tag)"

definition lq_fill_address :: "rob_tag \<Rightarrow> virt_addr \<Rightarrow> phys_addr \<Rightarrow> load_queue \<Rightarrow> load_queue" where
  "lq_fill_address tag vaddr paddr =
     lq_update tag (\<lambda>e. e\<lparr> lq_vaddr := vaddr, lq_paddr := Some paddr, lq_state := Ld_Translated \<rparr>)"

definition lq_fill_data :: "rob_tag \<Rightarrow> u64 \<Rightarrow> load_queue \<Rightarrow> load_queue" where
  "lq_fill_data tag data = lq_update tag (\<lambda>e. e\<lparr> lq_data := data, lq_state := Ld_Executed \<rparr>)"

definition lq_violates :: "u64 \<Rightarrow> nat \<Rightarrow> rob_tag \<Rightarrow> lq_entry \<Rightarrow> bool" where
  "lq_violates store_start store_size store_tag e \<longleftrightarrow>
     lq_valid e \<and> is_newer_than (lq_rob_tag e) store_tag \<and> lq_state e = Ld_Executed \<and>
     (case lq_paddr e of
        None \<Rightarrow> False
      | Some load_start \<Rightarrow> ranges_overlap load_start (width_to_bytes (lq_width e)) store_start store_size)"

fun violation_loop :: "u64 \<Rightarrow> nat \<Rightarrow> rob_tag \<Rightarrow> rob_tag option \<Rightarrow> lq_entry list \<Rightarrow> rob_tag option" where
  "violation_loop start sz tag oldest [] = oldest"
| "violation_loop start sz tag oldest (e # es) =
    violation_loop start sz tag
      (if lq_violates start sz tag e then
         (case oldest of
            None \<Rightarrow> Some (lq_rob_tag e)
          | Some prev \<Rightarrow> if is_older_than (lq_rob_tag e) prev then Some (lq_rob_tag e) else oldest)
       else oldest) es"

definition lq_check_ordering_violation :: "load_queue \<Rightarrow> phys_addr \<Rightarrow> mem_width \<Rightarrow> rob_tag \<Rightarrow> rob_tag option" where
  "lq_check_ordering_violation q store_paddr store_width store_tag =
    (if ring_count q = 0 then None
     else violation_loop store_paddr (width_to_bytes store_width) store_tag None (ring_window q))"

text \<open>The loop of \<open>deallocate\<close> that advances the head past unoccupied slots.\<close>

fun advance_head :: "lq_entry list \<Rightarrow> nat \<Rightarrow> nat \<Rightarrow> nat \<times> nat" where
  "advance_head es head 0 = (head, 0)"
| "advance_head es head (Suc n) =
    (if \<not> lq_valid (es ! head) then advance_head es ((head + 1) mod length es) n else (head, Suc n))"

definition lq_deallocate :: "rob_tag \<Rightarrow> load_queue \<Rightarrow> load_queue" where
  "lq_deallocate tag q =
    (if ring_count q = 0 then q
     else let e = ring_entries q ! ring_head q in
       if lq_valid e \<and> lq_rob_tag e = tag then ring_pop lq_inval q
       else case ring_find (\<lambda>e. lq_valid e \<and> lq_rob_tag e = tag) (ring_entries q) (ring_head q) (ring_count q) of
         None \<Rightarrow> q
       | Some idx \<Rightarrow>
           let es = (ring_entries q)[idx := lq_inval (ring_entries q ! idx)];
               (head, count) = advance_head es (ring_head q) (ring_count q)
           in q\<lparr> ring_entries := es, ring_head := head, ring_count := count \<rparr>)"

definition lq_flush :: "load_queue \<Rightarrow> load_queue" where
  "lq_flush q = ring_clear lq_inval q"

definition lq_flush_after :: "rob_tag \<Rightarrow> load_queue \<Rightarrow> load_queue" where
  "lq_flush_after keep_tag = ring_compact (\<lambda>e. lq_valid e \<and> is_older_or_eq (lq_rob_tag e) keep_tag) lq_inval"

subsection \<open>The queue of live loads\<close>

interpretation lq: slot lq_valid lq_inval lq_rob_tag
  by unfold_locales (simp_all add: lq_inval_def)

definition lq_inv :: "load_queue \<Rightarrow> bool" where
  "lq_inv q \<longleftrightarrow> ring_wf q \<and> distinct (map lq_rob_tag (ring_live lq_valid q))"

lemma lq_new_inv [inv_intros]: "0 < n \<Longrightarrow> lq_inv (lq_new n)"
  by (simp add: lq_inv_def lq_new_def ring_wf_def ring_live_def ring_window_def)

lemma lq_allocate_spec:
  assumes "lq_inv q" "t \<notin> lq_rob_tag ` set (ring_live lq_valid q)"
  shows "lq_inv (fst (lq_allocate q t w))" "snd (lq_allocate q t w) \<longleftrightarrow> \<not> lq_is_full q"
    and "ring_live lq_valid (fst (lq_allocate q t w)) =
      ring_live lq_valid q @ (if lq_is_full q then [] else [lq_entry_new t w])"
proof -
  have room: "ring_count q < ring_cap q" if "\<not> lq_is_full q"
    using that assms(1) by (auto simp: lq_is_full_def lq_inv_def ring_wf_def)
  have new: "lq_valid (lq_entry_new t w)" "lq_rob_tag (lq_entry_new t w) = t"
    by (simp_all add: lq_entry_new_def)
  show live: "ring_live lq_valid (fst (lq_allocate q t w)) =
      ring_live lq_valid q @ (if lq_is_full q then [] else [lq_entry_new t w])"
    using assms(1) room new by (simp add: lq_allocate_def lq.live_push lq_inv_def)
  show "snd (lq_allocate q t w) \<longleftrightarrow> \<not> lq_is_full q" by (simp add: lq_allocate_def)
  have "ring_wf (fst (lq_allocate q t w))"
    using assms(1) room by (simp add: lq_allocate_def ring_push_wf lq_inv_def)
  with assms new live show "lq_inv (fst (lq_allocate q t w))" by (auto simp: lq_inv_def)
qed

lemma lq_update_spec:
  assumes "lq_inv q" "\<And>e. lq_valid (f e) = lq_valid e" "\<And>e. lq_rob_tag (f e) = lq_rob_tag e"
  shows "ring_live lq_valid (lq_update t f q) = map (\<lambda>e. if lq_rob_tag e = t then f e else e) (ring_live lq_valid q)"
    and "lq_inv (lq_update t f q)"
proof -
  show live: "ring_live lq_valid (lq_update t f q) = map (\<lambda>e. if lq_rob_tag e = t then f e else e) (ring_live lq_valid q)"
    using assms by (simp add: lq_update_def lq.live_update lq_inv_def)
  have "map lq_rob_tag (ring_live lq_valid (lq_update t f q)) = map lq_rob_tag (ring_live lq_valid q)"
    unfolding live using assms(3) by simp
  then show "lq_inv (lq_update t f q)"
    using assms(1) by (simp add: lq_inv_def) (simp add: lq_update_def ring_update_first_wf)
qed

lemma lq_flush_after_spec:
  assumes "lq_inv q"
  shows "ring_live lq_valid (lq_flush_after t q) = filter (\<lambda>e. is_older_or_eq (lq_rob_tag e) t) (ring_live lq_valid q)"
    and "lq_inv (lq_flush_after t q)"
proof -
  have "ring_live lq_valid (lq_flush_after t q) = filter (\<lambda>e. lq_valid e \<and> is_older_or_eq (lq_rob_tag e) t) (ring_live lq_valid q)"
    using assms unfolding lq_flush_after_def by (intro lq.live_compact) (simp_all add: lq_inv_def)
  also have "\<dots> = filter (\<lambda>e. is_older_or_eq (lq_rob_tag e) t) (ring_live lq_valid q)"
    by (auto simp: ring_live_def intro: filter_cong)
  finally show live: "ring_live lq_valid (lq_flush_after t q) = filter (\<lambda>e. is_older_or_eq (lq_rob_tag e) t) (ring_live lq_valid q)" .
  have "ring_wf (lq_flush_after t q)" using assms by (simp add: lq_flush_after_def ring_compact_wf lq_inv_def)
  with assms live show "lq_inv (lq_flush_after t q)" by (simp add: lq_inv_def distinct_map_filter)
qed

lemma advance_head_spec:
  assumes "h < length es" "n \<le> length es" "advance_head es h n = (h', n')"
  shows "h' < length es \<and> n' \<le> n \<and> (h' + n') mod length es = (h + n) mod length es
    \<and> filter lq_valid (ring_walk es h' n') = filter lq_valid (ring_walk es h n)"
  using assms
proof (induction n arbitrary: h)
  case (Suc n)
  show ?case
  proof (cases "lq_valid (es ! h)")
    case True
    with Suc.prems show ?thesis by auto
  next
    case False
    have "Suc h mod length es < length es" using Suc.prems(1) by (intro mod_less_divisor) linarith
    moreover have "(Suc h mod length es + n) mod length es = Suc (h + n) mod length es"
      by (simp add: mod_add_left_eq)
    ultimately show ?thesis
      using Suc.IH [of "Suc h mod length es"] Suc.prems False by auto
  qed
qed simp

lemma lq_deallocate_spec:
  assumes "lq_inv q"
  shows "lq_inv (lq_deallocate t q)"
    and "ring_live lq_valid (lq_deallocate t q) = filter (\<lambda>e. lq_rob_tag e \<noteq> t) (ring_live lq_valid q)"
proof -
  have wf: "ring_wf q" and dist: "distinct (map lq_rob_tag (ring_live lq_valid q))"
    using assms by (simp_all add: lq_inv_def)
  let ?upd = "ring_update_first (\<lambda>e. lq_valid e \<and> lq_rob_tag e = t) lq_inval q"
  have removed: "ring_live lq_valid ?upd = filter (\<lambda>e. lq_rob_tag e \<noteq> t) (ring_live lq_valid q)"
    by (rule lq.live_remove [OF wf dist])
  have "ring_wf (lq_deallocate t q) \<and> ring_live lq_valid (lq_deallocate t q) = ring_live lq_valid ?upd"
  proof (cases "ring_count q")
    case 0
    then have "?upd = q" by (simp add: ring_update_first_def)
    with 0 wf show ?thesis by (simp add: lq_deallocate_def)
  next
    case (Suc n)
    let ?e = "ring_entries q ! ring_head q"
    have find: "ring_find P (ring_entries q) (ring_head q) (ring_count q) =
        (if P ?e then Some (ring_head q) else ring_find P (ring_entries q) (Suc (ring_head q) mod ring_cap q) n)" for P
      using Suc by simp
    show ?thesis
    proof (cases "lq_valid ?e \<and> lq_rob_tag ?e = t")
      case True
      then have "?upd = q\<lparr>ring_entries := (ring_entries q)[ring_head q := lq_inval ?e]\<rparr>"
        unfolding ring_update_first_def find by simp
      moreover have "ring_head q < ring_cap q" using wf by (simp add: ring_wf_def)
      ultimately have "ring_live lq_valid ?upd = ring_live lq_valid (ring_pop lq_inval q)"
        using Suc by (simp add: ring_live_def ring_window_def ring_pop_def lq_inval_def)
      with True Suc ring_pop_wf [OF wf] show ?thesis by (simp add: lq_deallocate_def)
    next
      case False
      show ?thesis
      proof (cases "ring_find (\<lambda>e. lq_valid e \<and> lq_rob_tag e = t) (ring_entries q) (ring_head q) (ring_count q)")
        case None
        with False wf show ?thesis by (auto simp: lq_deallocate_def ring_update_first_def Let_def)
      next
        case (Some idx)
        let ?es = "(ring_entries q)[idx := lq_inval (ring_entries q ! idx)]"
        obtain h' n' where adv: "advance_head ?es (ring_head q) (ring_count q) = (h', n')" by force
        have "h' < ring_cap q \<and> n' \<le> ring_count q
            \<and> (h' + n') mod ring_cap q = (ring_head q + ring_count q) mod ring_cap q
            \<and> filter lq_valid (ring_walk ?es h' n') = filter lq_valid (ring_walk ?es (ring_head q) (ring_count q))"
          using advance_head_spec [OF _ _ adv] wf by (simp add: ring_wf_def)
        moreover have "lq_deallocate t q = q\<lparr>ring_entries := ?es, ring_head := h', ring_count := n'\<rparr>"
          using False Suc Some adv by (auto simp: lq_deallocate_def Let_def)
        moreover have "?upd = q\<lparr>ring_entries := ?es\<rparr>" using Some by (simp add: ring_update_first_def)
        ultimately show ?thesis
          using wf by (auto simp: ring_live_def ring_window_def ring_wf_def)
      qed
    qed
  qed
  then show "lq_inv (lq_deallocate t q)"
    "ring_live lq_valid (lq_deallocate t q) = filter (\<lambda>e. lq_rob_tag e \<noteq> t) (ring_live lq_valid q)"
    using dist by (simp_all add: lq_inv_def removed distinct_map_filter)
qed

subsection \<open>Properties\<close>

lemma violation_loop_spec:
  fixes start :: u64 and sz :: nat and tag :: rob_tag
  assumes "\<forall>e \<in> set es. tag_age now (lq_rob_tag e) < 2 ^ 31" "\<forall>t. acc = Some t \<longrightarrow> tag_age now t < 2 ^ 31"
  defines "cands \<equiv> set_option acc \<union> lq_rob_tag ` {e \<in> set es. lq_violates start sz tag e}"
  shows "case violation_loop start sz tag acc es of
      None \<Rightarrow> cands = {}
    | Some t \<Rightarrow> t \<in> cands \<and> (\<forall>t' \<in> cands. \<not> is_older_than t' t)"
  using assms(1,2) unfolding cands_def
proof (induction es arbitrary: acc)
  case Nil
  then show ?case by (auto simp: is_older_than_def split: option.splits)
next
  case (Cons e es)
  let ?acc = "if lq_violates start sz tag e then
      (case acc of None \<Rightarrow> Some (lq_rob_tag e)
       | Some prev \<Rightarrow> if is_older_than (lq_rob_tag e) prev then Some (lq_rob_tag e) else acc) else acc"
  let ?C = "\<lambda>a es. set_option a \<union> lq_rob_tag ` {e \<in> set es. lq_violates start sz tag e}"
  have age: "tag_age now (lq_rob_tag e) < 2 ^ 31" using Cons.prems(1) by simp
  have acc': "\<forall>t. ?acc = Some t \<longrightarrow> tag_age now t < 2 ^ 31"
    using Cons.prems by (auto split: option.splits if_splits)
  have IH: "case violation_loop start sz tag ?acc es of None \<Rightarrow> ?C ?acc es = {}
      | Some t \<Rightarrow> t \<in> ?C ?acc es \<and> (\<forall>t' \<in> ?C ?acc es. \<not> is_older_than t' t)"
    using Cons.IH [OF _ acc'] Cons.prems(1) by simp
  have ages: "tag_age now t < 2 ^ 31" if "t \<in> ?C ?acc es \<union> ?C acc (e # es)" for t
    using that acc' Cons.prems by (auto split: option.splits if_splits)
  have sub: "?C ?acc es \<subseteq> ?C acc (e # es)" by (auto split: option.splits if_splits)
  have low: "\<exists>u \<in> ?C ?acc es. \<not> is_older_than t u" if "t \<in> ?C acc (e # es)" for t
    using that age Cons.prems by (cases acc) (auto simp: is_older_than_age [of now] split: if_splits)
  show ?case
  proof (cases "violation_loop start sz tag ?acc es")
    case None
    with IH have "?C ?acc es = {}" by simp
    with low have "?C acc (e # es) = {}" by blast
    with None show ?thesis by (simp only: violation_loop.simps option.case)
  next
    case (Some t)
    with IH have t: "t \<in> ?C ?acc es" "\<forall>t' \<in> ?C ?acc es. \<not> is_older_than t' t" by simp_all
    have "\<not> is_older_than t' t" if t': "t' \<in> ?C acc (e # es)" for t'
    proof -
      obtain u where u: "u \<in> ?C ?acc es" "\<not> is_older_than t' u" using low [OF t'] by blast
      have "\<not> is_older_than u t" using t u by blast
      moreover have "tag_age now t' < 2 ^ 31" "tag_age now u < 2 ^ 31" "tag_age now t < 2 ^ 31"
        using ages t' u t by blast+
      ultimately show ?thesis using u(2) by (simp add: is_older_than_age [of now])
    qed
    with Some t(1) sub show ?thesis by (simp only: violation_loop.simps option.case) blast
  qed
qed

text \<open>When a store resolves its address, \<open>check_ordering_violation\<close> reports nothing exactly if no
  younger load that has already read its data overlaps the store; otherwise it reports such a load,
  and none of the overlapping younger loads is older than the reported one, so replaying from it
  replays them all.\<close>

theorem lq_violation_oldest:
  fixes paddr :: phys_addr and w :: mem_width and t :: rob_tag
  assumes "lq_inv q" "\<forall>e \<in> set (ring_window q). tag_age now (lq_rob_tag e) < 2 ^ 31"
  defines "bad \<equiv> filter (lq_violates paddr (width_to_bytes w) t) (ring_live lq_valid q)"
  shows "case lq_check_ordering_violation q paddr w t of
      None \<Rightarrow> bad = []
    | Some v \<Rightarrow> (\<exists>e \<in> set bad. lq_rob_tag e = v) \<and> (\<forall>e \<in> set bad. \<not> is_older_than (lq_rob_tag e) v)"
proof -
  have bad: "set bad = {e \<in> set (ring_window q). lq_violates paddr (width_to_bytes w) t e}"
    by (auto simp: bad_def ring_live_def lq_violates_def)
  show ?thesis
  proof (cases "ring_count q = 0")
    case True
    then have "ring_window q = []" by (simp add: ring_window_def)
    with True bad show ?thesis by (simp add: lq_check_ordering_violation_def)
  next
    case False
    have "case violation_loop paddr (width_to_bytes w) t None (ring_window q) of
        None \<Rightarrow> lq_rob_tag ` set bad = {}
      | Some v \<Rightarrow> v \<in> lq_rob_tag ` set bad \<and> (\<forall>t' \<in> lq_rob_tag ` set bad. \<not> is_older_than t' v)"
      using violation_loop_spec [OF assms(2), of None paddr "width_to_bytes w" t]
      by (simp add: bad split: option.splits)
    with False show ?thesis
      by (auto simp: lq_check_ordering_violation_def split: option.splits)
  qed
qed

definition lq_ex :: load_queue where
  "lq_ex = lq_fill_data 5 7 (lq_fill_address 5 0x2000 0x2000 (fst (lq_allocate (lq_new 2) 5 W_Word)))"

lemma lq_ex_live: "lq_inv lq_ex"
  "ring_window lq_ex = [(lq_entry_new 5 W_Word)\<lparr>lq_vaddr := 0x2000, lq_paddr := Some 0x2000, lq_data := 7, lq_state := Ld_Executed\<rparr>]"
proof -
  have "lq_inv (fst (lq_allocate (lq_new 2) 5 W_Word))"
    by (rule lq_allocate_spec(1) [OF lq_new_inv]) (simp_all add: lq_new_def ring_live_def ring_window_def)
  then show "lq_inv lq_ex"
    unfolding lq_ex_def lq_fill_data_def lq_fill_address_def by (intro lq_update_spec(2)) simp_all
  show "ring_window lq_ex = [(lq_entry_new 5 W_Word)\<lparr>lq_vaddr := 0x2000, lq_paddr := Some 0x2000, lq_data := 7, lq_state := Ld_Executed\<rparr>]"
    by (simp add: lq_ex_def lq_fill_data_def lq_fill_address_def lq_update_def ring_update_first_def
      lq_allocate_def lq_is_full_def lq_new_def ring_push_def ring_window_def replicate_2 lq_entry_new_def)
qed

theorem lq_violation_oldest_witness:
  "lq_check_ordering_violation lq_ex 0x2002 W_Byte 3 = Some 5"
proof -
  have "\<forall>e \<in> set (ring_window lq_ex). tag_age 6 (lq_rob_tag e) < 2 ^ 31"
    by (simp add: lq_ex_live lq_entry_new_def tag_age_def)
  from lq_violation_oldest [OF lq_ex_live(1) this, of "0x2002" W_Byte 3] show ?thesis
    by (auto simp: ring_live_def lq_ex_live(2) lq_entry_new_def lq_violates_def is_newer_than_def
      is_older_than_def ranges_overlap_def split: option.splits)
qed

text \<open>Committing a load removes exactly that load from the queue, also on the fallback path that
  finds it behind the head; a misprediction flush removes exactly the loads younger than the kept
  tag, and the remaining loads keep their order.\<close>

theorem lq_deallocate_and_flush:
  assumes "lq_inv q"
  shows "ring_live lq_valid (lq_deallocate t q) = filter (\<lambda>e. lq_rob_tag e \<noteq> t) (ring_live lq_valid q)
    \<and> ring_live lq_valid (lq_flush_after t q) = filter (\<lambda>e. is_older_or_eq (lq_rob_tag e) t) (ring_live lq_valid q)
    \<and> lq_inv (lq_deallocate t q) \<and> lq_inv (lq_flush_after t q)"
  using assms by (simp add: lq_deallocate_spec lq_flush_after_spec)

theorem lq_deallocate_and_flush_witness:
  "ring_live lq_valid (lq_deallocate 5 lq_ex) = []"
  using lq_deallocate_and_flush [OF lq_ex_live(1), of 5]
  by (simp add: ring_live_def lq_ex_live(2) lq_entry_new_def)

end
