(* ===== verification/Rename.thy ===== *)
theory Rename
  imports RegFiles LoadQueue
begin

text \<open>
  Register renaming in the out-of-order engine: the rename stage
  (\<open>core/pipeline/frontend/rename.rs\<close>) and the three recovery paths of \<open>backend/o3/mod.rs\<close>: the
  full flush of a trap, the flush after a mispredicted or serializing instruction and the flush of
  a memory ordering violation.

  The engine state is the part of \<open>O3Engine\<close> that these operations read and write. The issue
  queue enters through its number of free slots only, as an argument of \<open>can_accept\<close>. Commit and
  the steps of the engine as a whole are in the theories \<open>Commit\<close> and \<open>Engine\<close>.

  The invariant \<open>ren_inv\<close> says that the speculative map is the committed map with the writers in
  flight replayed, that every physical register is in exactly one of the free list, the
  destinations in flight and the committed map, and that every checkpoint holds the map as it was
  after its branch.
\<close>

subsection \<open>Latches and the engine\<close>

record id_ex_entry =
  id_pc :: u64
  id_inst :: u32
  id_inst_size :: inst_size
  id_rs1 :: reg_idx
  id_rs2 :: reg_idx
  id_rs3 :: reg_idx
  id_rd :: reg_idx
  id_imm :: i64
  id_rv1 :: u64
  id_rv2 :: u64
  id_rv3 :: u64
  id_ctrl :: control_signals
  id_trap :: "trap option"
  id_exception_stage :: "exception_stage option"
  id_pred_taken :: bool
  id_pred_target :: u64
  id_ghr_snapshot :: ghr
  id_ras_snapshot :: nat

record rename_issue_entry =
  ri_rob_tag :: rob_tag
  ri_pc :: u64
  ri_inst :: u32
  ri_inst_size :: inst_size
  ri_rs1 :: reg_idx
  ri_rs2 :: reg_idx
  ri_rs3 :: reg_idx
  ri_rd :: reg_idx
  ri_imm :: i64
  ri_rv1 :: u64
  ri_rv2 :: u64
  ri_rv3 :: u64
  ri_rs1_tag :: "rob_tag option"
  ri_rs2_tag :: "rob_tag option"
  ri_rs3_tag :: "rob_tag option"
  ri_rs1_phys :: phys_reg
  ri_rs2_phys :: phys_reg
  ri_rs3_phys :: phys_reg
  ri_rd_phys :: phys_reg
  ri_ctrl :: control_signals
  ri_trap :: "trap option"
  ri_exception_stage :: "exception_stage option"
  ri_pred_taken :: bool
  ri_pred_target :: u64
  ri_ghr_snapshot :: ghr
  ri_ras_snapshot :: nat

record engine =
  en_has_prf :: bool
  en_rob :: rob
  en_store_buffer :: store_buffer
  en_load_queue :: load_queue
  en_prf :: phys_reg_file
  en_free_list :: free_list
  en_rename_map :: rename_map
  en_committed_map :: rename_map
  en_scoreboard :: scoreboard
  en_checkpoints :: checkpoint_table
  en_width :: nat
  en_squash_stall :: nat

text \<open>\<open>O3Engine::new\<close> with the sizes it takes from the configuration.\<close>

definition o3_new :: "nat \<Rightarrow> nat \<Rightarrow> nat \<Rightarrow> nat \<Rightarrow> nat \<Rightarrow> nat \<Rightarrow> engine" where
  "o3_new rob_size sb_size lq_size prf_total width checkpoint_count =
    (let num_arch = 64 in
     \<lparr> en_has_prf = True, en_rob = rob_new rob_size, en_store_buffer = sb_new sb_size,
       en_load_queue = lq_new lq_size, en_prf = prf_mark_arch_ready num_arch (prf_new prf_total),
       en_free_list = fl_new prf_total num_arch, en_rename_map = rm_new,
       en_committed_map = rm_new, en_scoreboard = sc_new, en_checkpoints = ct_new checkpoint_count,
       en_width = width, en_squash_stall = 0 \<rparr>)"

definition can_accept :: "nat \<Rightarrow> engine \<Rightarrow> nat" where
  "can_accept iq_free g =
    (if en_has_prf g then
       if 0 < en_squash_stall g then 0
       else min (min (min (min (min (rob_free_slots (en_rob g)) (sb_free_slots (en_store_buffer g)))
              (lq_free_slots (en_load_queue g))) iq_free) (fl_available (en_free_list g))) (en_width g)
     else min (min (min (rob_free_slots (en_rob g)) (sb_free_slots (en_store_buffer g))) iq_free)
            (en_width g))"

subsection \<open>The rename stage\<close>

definition issue_entry :: "id_ex_entry \<Rightarrow> rob_tag \<Rightarrow> rob_tag option \<Rightarrow> rob_tag option \<Rightarrow> rob_tag option
    \<Rightarrow> phys_reg \<Rightarrow> phys_reg \<Rightarrow> phys_reg \<Rightarrow> phys_reg \<Rightarrow> rename_issue_entry" where
  "issue_entry d tag t1 t2 t3 p1 p2 p3 pd =
    \<lparr> ri_rob_tag = tag, ri_pc = id_pc d, ri_inst = id_inst d, ri_inst_size = id_inst_size d,
      ri_rs1 = id_rs1 d, ri_rs2 = id_rs2 d, ri_rs3 = id_rs3 d, ri_rd = id_rd d, ri_imm = id_imm d,
      ri_rv1 = 0, ri_rv2 = 0, ri_rv3 = 0, ri_rs1_tag = t1, ri_rs2_tag = t2, ri_rs3_tag = t3,
      ri_rs1_phys = p1, ri_rs2_phys = p2, ri_rs3_phys = p3, ri_rd_phys = pd, ri_ctrl = id_ctrl d,
      ri_trap = id_trap d, ri_exception_stage = id_exception_stage d,
      ri_pred_taken = id_pred_taken d, ri_pred_target = id_pred_target d,
      ri_ghr_snapshot = id_ghr_snapshot d, ri_ras_snapshot = id_ras_snapshot d \<rparr>"

definition is_branch_or_jump :: "control_signals \<Rightarrow> bool" where
  "is_branch_or_jump c \<longleftrightarrow> cs_control_flow c = CF_Branch \<or> cs_control_flow c = CF_Jump"

definition needs_dst :: "id_ex_entry \<Rightarrow> bool" where
  "needs_dst d \<longleftrightarrow> cs_reg_write (id_ctrl d) \<and> \<not> reg_is_zero (id_rd d) \<or> cs_fp_reg_write (id_ctrl d)"

text \<open>One iteration of the loop: the instruction goes on to issue, it is put back and the budget
  is cleared, the loop breaks after putting it back, or the code panics.\<close>

datatype rename_outcome =
    Rn_Done engine rename_issue_entry
  | Rn_Stall
  | Rn_Break engine
  | Rn_Panic

text \<open>The destination register: a fresh one from the free list and the mapping it replaces.\<close>

definition rename_dst :: "id_ex_entry \<Rightarrow> engine \<Rightarrow> (free_list \<times> phys_reg \<times> phys_reg) option" where
  "rename_dst d g =
    (if needs_dst d
     then (case fl_allocate (en_free_list g) of
             (l, None) \<Rightarrow> None
           | (l, Some new_p) \<Rightarrow>
               Some (l, new_p, rm_get (en_rename_map g) (id_rd d) (cs_fp_reg_write (id_ctrl d))))
     else Some (en_free_list g, 0, 0))"

text \<open>The store buffer and load queue slots of a memory access.\<close>

definition rename_mem :: "id_ex_entry \<Rightarrow> rob_tag \<Rightarrow> engine \<Rightarrow> engine \<times> bool" where
  "rename_mem d tag g =
    (let c = id_ctrl d;
         (b, sb_ok) = (if cs_mem_write c then sb_allocate (en_store_buffer g) tag (cs_width c)
                       else (en_store_buffer g, True))
     in if \<not> sb_ok then (g\<lparr> en_store_buffer := b \<rparr>, False)
        else let (q, lq_ok) = (if cs_mem_read c then lq_allocate (en_load_queue g) tag (cs_width c)
                               else (en_load_queue g, True))
             in (g\<lparr> en_store_buffer := b, en_load_queue := q \<rparr>, lq_ok))"

text \<open>The checkpoint of a branch or jump; \<open>None\<close> is the \<open>unreachable!\<close>.\<close>

definition rename_checkpoint :: "id_ex_entry \<Rightarrow> rob_tag \<Rightarrow> engine \<Rightarrow> engine option" where
  "rename_checkpoint d tag g =
    (if is_branch_or_jump (id_ctrl d) \<and> 0 < ct_capacity (en_checkpoints g)
     then (case ct_allocate tag (en_rename_map g) (en_checkpoints g) of
             (_, None) \<Rightarrow> None
           | (t, Some ck) \<Rightarrow>
               Some (g\<lparr> en_checkpoints := t, en_rob := rob_set_checkpoint_id tag ck (en_rob g) \<rparr>))
     else Some g)"

definition rename_o3 :: "id_ex_entry \<Rightarrow> engine \<Rightarrow> rename_outcome" where
  "rename_o3 d g =
    (let c = id_ctrl d in
     if is_branch_or_jump c \<and> 0 < ct_capacity (en_checkpoints g) \<and> ct_is_full (en_checkpoints g)
     then Rn_Stall
     else
       let p1 = rm_get (en_rename_map g) (id_rs1 d) (cs_rs1_fp c);
           p2 = rm_get (en_rename_map g) (id_rs2 d) (cs_rs2_fp c);
           p3 = (if cs_rs3_fp c then rm_get (en_rename_map g) (id_rs3 d) True else 0)
       in case rename_dst d g of
            None \<Rightarrow> Rn_Break g
          | Some (l, rd_phys, old_phys_dst) \<Rightarrow>
              (case rob_allocate (en_rob g) (id_pc d) (id_inst d) (id_inst_size d) (id_rd d)
                      (cs_fp_reg_write c) c rd_phys old_phys_dst of
                 (r, None) \<Rightarrow>
                   Rn_Break (g\<lparr> en_rob := r, en_free_list := (if needs_dst d then fl_reclaim rd_phys l else l) \<rparr>)
               | (r, Some tag) \<Rightarrow>
                   let g1 = g\<lparr> en_rob := r, en_free_list := l,
                          en_rename_map := (if needs_dst d then rm_set (id_rd d) (cs_fp_reg_write c) rd_phys (en_rename_map g)
                                            else en_rename_map g),
                          en_prf := (if needs_dst d then prf_allocate rd_phys (en_prf g) else en_prf g) \<rparr>
                   in case rename_mem d tag g1 of
                        (g2, False) \<Rightarrow> Rn_Break g2
                      | (g2, True) \<Rightarrow>
                          (case rename_checkpoint d tag g2 of
                             None \<Rightarrow> Rn_Panic
                           | Some g3 \<Rightarrow> Rn_Done g3 (issue_entry d tag None None None p1 p2 p3 rd_phys))))"

definition rename_inorder :: "id_ex_entry \<Rightarrow> engine \<Rightarrow> rename_outcome" where
  "rename_inorder d g =
    (let c = id_ctrl d in
     case rob_allocate (en_rob g) (id_pc d) (id_inst d) (id_inst_size d) (id_rd d)
            (cs_fp_reg_write c) c 0 0 of
       (r, None) \<Rightarrow> Rn_Break (g\<lparr> en_rob := r \<rparr>)
     | (r, Some tag) \<Rightarrow>
         let t1 = sc_get_producer (en_scoreboard g) (id_rs1 d) (cs_rs1_fp c);
             t2 = sc_get_producer (en_scoreboard g) (id_rs2 d) (cs_rs2_fp c);
             t3 = (if cs_rs3_fp c then sc_get_producer (en_scoreboard g) (id_rs3 d) True else None);
             g1 = g\<lparr> en_rob := r,
                  en_scoreboard := (if cs_reg_write c \<or> cs_fp_reg_write c
                    then sc_set_producer (id_rd d) (cs_fp_reg_write c) tag (en_scoreboard g)
                    else en_scoreboard g) \<rparr>;
             (b, sb_ok) = (if cs_mem_write c then sb_allocate (en_store_buffer g1) tag (cs_width c)
                           else (en_store_buffer g1, True));
             g2 = g1\<lparr> en_store_buffer := b \<rparr>
         in if \<not> sb_ok then Rn_Break g2
            else Rn_Done g2 (issue_entry d tag t1 t2 t3 0 0 0 0))"

text \<open>The loop over the taken entries. \<open>input\<close> collects what is put back and \<open>out\<close> what goes to
  issue; a break abandons the entries behind it, and a panic is \<open>None\<close>.\<close>

fun rename_loop :: "nat \<Rightarrow> id_ex_entry list \<Rightarrow> rename_issue_entry list \<Rightarrow> engine \<Rightarrow> id_ex_entry list
    \<Rightarrow> (id_ex_entry list \<times> engine \<times> rename_issue_entry list) option" where
  "rename_loop budget input out g [] = Some (input, g, out)"
| "rename_loop budget input out g (d # ds) =
    (if budget = 0 then rename_loop 0 (input @ [d]) out g ds
     else case (if en_has_prf g then rename_o3 d g else rename_inorder d g) of
       Rn_Done g' e \<Rightarrow> rename_loop (budget - 1) input (out @ [e]) g' ds
     | Rn_Stall \<Rightarrow> rename_loop 0 (input @ [d]) out g ds
     | Rn_Break g' \<Rightarrow> Some (input @ [d], g', out)
     | Rn_Panic \<Rightarrow> None)"

definition rename_stage :: "nat \<Rightarrow> id_ex_entry list \<Rightarrow> engine \<Rightarrow> rename_issue_entry list
    \<Rightarrow> (id_ex_entry list \<times> engine \<times> rename_issue_entry list) option" where
  "rename_stage iq_free input g rename_output =
     rename_loop (can_accept iq_free g) [] rename_output g input"

subsection \<open>Recovery\<close>

definition reclaim_entries :: "rob_entry list \<Rightarrow> free_list \<Rightarrow> free_list" where
  "reclaim_entries es l = fold (\<lambda>e. fl_reclaim (re_phys_dst e)) es l"

definition o3_flush :: "engine \<Rightarrow> engine" where
  "o3_flush g = g\<lparr>
     en_free_list := reclaim_entries (rob_iter_all (en_rob g)) (en_free_list g),
     en_rename_map := en_committed_map g,
     en_rob := rob_flush_all (en_rob g),
     en_store_buffer := sb_flush_speculative (en_store_buffer g),
     en_load_queue := lq_flush (en_load_queue g),
     en_scoreboard := sc_flush (en_scoreboard g),
     en_checkpoints := ct_flush_all (en_checkpoints g) \<rparr>"

definition compute_squash_stall :: "engine \<Rightarrow> nat \<Rightarrow> nat \<Rightarrow> nat" where
  "compute_squash_stall g squashed surviving =
    (let w = max (en_width g) 1 in (div_ceil squashed w - 1) + div_ceil surviving w)"

definition rebuild_apply :: "rob_entry \<Rightarrow> rename_map \<Rightarrow> rename_map" where
  "rebuild_apply e m =
    (if cs_reg_write (re_ctrl e) \<and> \<not> reg_is_zero (re_rd e) then rm_set (re_rd e) False (re_phys_dst e) m
     else if cs_fp_reg_write (re_ctrl e) then rm_set (re_rd e) True (re_phys_dst e) m
     else m)"

definition rebuild_rename_map :: "engine \<Rightarrow> rename_map" where
  "rebuild_rename_map g = fold rebuild_apply (rob_iter_in_order (en_rob g)) (en_committed_map g)"

text \<open>Step 7 of \<open>tick\<close>: flush behind an instruction that redirected fetch.\<close>

definition o3_flush_after :: "rob_tag \<Rightarrow> engine \<Rightarrow> engine" where
  "o3_flush_after keep_tag g =
    (let squashed = (if rob_find_entry (en_rob g) keep_tag \<noteq> None
                     then length (rob_iter_after (en_rob g) keep_tag) else rob_len (en_rob g));
         g1 = (if rob_find_entry (en_rob g) keep_tag \<noteq> None then
                 g\<lparr> en_free_list := reclaim_entries (rob_iter_after (en_rob g) keep_tag) (en_free_list g),
                    en_rob := rob_flush_after keep_tag (en_rob g),
                    en_store_buffer := sb_flush_after keep_tag (en_store_buffer g),
                    en_load_queue := lq_flush_after keep_tag (en_load_queue g) \<rparr>
               else
                 g\<lparr> en_free_list := reclaim_entries (rob_iter_all (en_rob g)) (en_free_list g),
                    en_rob := rob_flush_all (en_rob g),
                    en_store_buffer := sb_flush_speculative (en_store_buffer g),
                    en_load_queue := lq_flush (en_load_queue g) \<rparr>);
         surviving = rob_len (en_rob g1);
         g2 = (if 0 < ct_capacity (en_checkpoints g1) then
                 (case ct_find_by_tag (en_checkpoints g1) keep_tag of
                    Some ckpt \<Rightarrow>
                      g1\<lparr> en_rename_map := ck_rename_map ckpt,
                          en_squash_stall := compute_squash_stall g1 squashed 0,
                          en_checkpoints := ct_flush_after keep_tag (en_checkpoints g1) \<rparr>
                  | None \<Rightarrow>
                      g1\<lparr> en_rename_map := rebuild_rename_map g1,
                          en_squash_stall := compute_squash_stall g1 squashed surviving,
                          en_checkpoints := ct_flush_after keep_tag (en_checkpoints g1) \<rparr>)
               else g1\<lparr> en_rename_map := rebuild_rename_map g1,
                        en_squash_stall := compute_squash_stall g1 squashed surviving \<rparr>)
     in g2\<lparr> en_scoreboard := sc_rebuild_from_rob (en_rob g2) (en_scoreboard g2) \<rparr>)"

text \<open>The recovery of a memory ordering violation in step 3.\<close>

definition o3_mem_violation :: "rob_tag \<Rightarrow> engine \<Rightarrow> engine" where
  "o3_mem_violation violating_tag g =
    (let keep = rob_prev_tag_of (en_rob g) violating_tag;
         g1 = (case keep of
                 Some keep_tag \<Rightarrow>
                   let g' = g\<lparr> en_free_list := reclaim_entries (rob_iter_after (en_rob g) keep_tag) (en_free_list g),
                        en_rob := rob_flush_after keep_tag (en_rob g),
                        en_store_buffer := sb_flush_after keep_tag (en_store_buffer g),
                        en_load_queue := lq_flush_after keep_tag (en_load_queue g) \<rparr>
                   in g'\<lparr> en_squash_stall := compute_squash_stall g'
                            (length (rob_iter_after (en_rob g) keep_tag)) (rob_len (en_rob g')) \<rparr>
               | None \<Rightarrow>
                   g\<lparr> en_free_list := reclaim_entries (rob_iter_all (en_rob g)) (en_free_list g),
                      en_rob := rob_flush_all (en_rob g),
                      en_store_buffer := sb_flush_speculative (en_store_buffer g),
                      en_load_queue := lq_flush (en_load_queue g),
                      en_squash_stall := compute_squash_stall g (rob_len (en_rob g)) 0 \<rparr>);
         g2 = g1\<lparr> en_rename_map := rebuild_rename_map g1,
                  en_scoreboard := sc_rebuild_from_rob (en_rob g1) (en_scoreboard g1) \<rparr>
     in case keep of
          Some keep_tag \<Rightarrow> g2\<lparr> en_checkpoints := ct_flush_after keep_tag (en_checkpoints g2) \<rparr>
        | None \<Rightarrow> g2\<lparr> en_checkpoints := ct_flush_all (en_checkpoints g2) \<rparr>)"

subsection \<open>The invariant on the lists\<close>

definition entry_writes :: "rob_entry \<Rightarrow> bool" where
  "entry_writes e \<longleftrightarrow> cs_reg_write (re_ctrl e) \<and> \<not> reg_is_zero (re_rd e) \<or> cs_fp_reg_write (re_ctrl e)"

text \<open>What the decoder gives every instruction: at most one register file is written, and a branch
  or jump is no system operation.\<close>

definition ctrl_ok :: "control_signals \<Rightarrow> bool" where
  "ctrl_ok c \<longleftrightarrow> \<not> (cs_reg_write c \<and> cs_fp_reg_write c)
     \<and> (is_branch_or_jump c \<longrightarrow> cs_system_op c = Sys_None)"

text \<open>A branch or jump carries no deferred CSR, LR/SC or SFENCE action, and only it owns a
  checkpoint.\<close>

definition entry_ok :: "rob_entry \<Rightarrow> bool" where
  "entry_ok e \<longleftrightarrow> ctrl_ok (re_ctrl e) \<and> (\<not> entry_writes e \<longrightarrow> re_phys_dst e = 0)
     \<and> (is_branch_or_jump (re_ctrl e) \<longrightarrow> re_csr_update e = None \<and> re_lr_sc e = None \<and> re_sfence_vma e = None)
     \<and> (re_checkpoint_id e \<noteq> None \<longrightarrow> is_branch_or_jump (re_ctrl e))"

definition replay_map :: "rob_entry list \<Rightarrow> rename_map \<Rightarrow> rename_map" where
  "replay_map es m = fold rebuild_apply es m"

definition in_flight :: "rob_entry list \<Rightarrow> phys_reg multiset" where
  "in_flight es = mset (map re_phys_dst (filter entry_writes es))"

fun olds_ok :: "rename_map \<Rightarrow> rob_entry list \<Rightarrow> bool" where
  "olds_ok m [] = True"
| "olds_ok m (e # es) =
    ((entry_writes e \<longrightarrow> re_old_phys_dst e = rm_get m (re_rd e) (cs_fp_reg_write (re_ctrl e)))
     \<and> olds_ok (rebuild_apply e m) es)"

definition all_phys :: "nat \<Rightarrow> phys_reg multiset" where
  "all_phys total_regs = mset (map of_nat [0..<total_regs])"

definition conserved :: "nat \<Rightarrow> free_list \<Rightarrow> rob_entry list \<Rightarrow> rename_map \<Rightarrow> bool" where
  "conserved total_regs l es m \<longleftrightarrow> mset (fl_queue l) + in_flight es + rm_regs m = all_phys total_regs \<and> rm_gpr m ! 0 = 0"

definition checkpoints_ok :: "rename_map \<Rightarrow> rob_entry list \<Rightarrow> checkpoint_table \<Rightarrow> bool" where
  "checkpoints_ok m es t \<longleftrightarrow> ct_wf t \<and> length (ct_slots t) \<le> 256 \<and>
    (\<forall>i c. i < length (ct_slots t) \<longrightarrow> ct_slots t ! i = Some c \<longrightarrow>
      (\<exists>k < length es. re_tag (es ! k) = ck_branch_tag c \<and> re_checkpoint_id (es ! k) = Some (of_nat i)
        \<and> ck_rename_map c = replay_map (take (Suc k) es) m))"

lemma replay_map_simps [simp]:
  "replay_map [] m = m" "replay_map (e # es) m = replay_map es (rebuild_apply e m)"
  "replay_map (es @ es') m = replay_map es' (replay_map es m)"
  by (simp_all add: replay_map_def)

lemma rebuild_apply_wf [inv_intros]: "rm_wf m \<Longrightarrow> rm_wf (rebuild_apply e m)"
  by (simp add: rebuild_apply_def rm_set_wf)

lemma replay_map_wf [inv_intros]: "rm_wf m \<Longrightarrow> rm_wf (replay_map es m)"
  by (induction es arbitrary: m) (simp_all add: rebuild_apply_wf)

lemma in_flight_simps [simp]:
  "in_flight [] = {#}"
  "in_flight (e # es) = (if entry_writes e then add_mset (re_phys_dst e) (in_flight es) else in_flight es)"
  "in_flight (es @ es') = in_flight es + in_flight es'"
  by (simp_all add: in_flight_def)

lemma olds_ok_append: "olds_ok m (es @ es') \<longleftrightarrow> olds_ok m es \<and> olds_ok (replay_map es m) es'"
  by (induction es arbitrary: m) auto

lemma olds_ok_take: "olds_ok m es \<Longrightarrow> olds_ok m (take n es)"
  using olds_ok_append [of m "take n es" "drop n es"] by simp

text \<open>A writing entry updates the map at one register that is not \<open>x0\<close>.\<close>

lemma rebuild_apply_writes:
  "entry_ok e \<Longrightarrow> entry_writes e \<Longrightarrow>
   rebuild_apply e m = rm_set (re_rd e) (cs_fp_reg_write (re_ctrl e)) (re_phys_dst e) m
   \<and> \<not> hardwired (re_rd e) (cs_fp_reg_write (re_ctrl e))"
  by (auto simp: entry_ok_def ctrl_ok_def entry_writes_def rebuild_apply_def hardwired_def)

lemma rebuild_apply_silent: "\<not> entry_writes e \<Longrightarrow> rebuild_apply e m = m"
  by (auto simp: entry_writes_def rebuild_apply_def)

subsection \<open>No physical register is held twice\<close>

lemma all_phys_distinct: "n \<le> 2 ^ 16 \<Longrightarrow> count (all_phys n) p \<le> 1"
proof -
  assume n: "n \<le> 2 ^ 16"
  have "inj_on (of_nat :: nat \<Rightarrow> phys_reg) (set [0..<n])"
    using n by (auto intro!: inj_onI dest!: arg_cong [where f = unat] simp: unsigned_of_nat take_bit_nat_eq_self)
  then have "distinct (map (of_nat :: nat \<Rightarrow> phys_reg) [0..<n])" by (simp add: distinct_map)
  then show ?thesis by (simp add: all_phys_def distinct_count_atmost_1)
qed

lemma conserved_unique:
  assumes "conserved n l es m" "n \<le> 2 ^ 16"
  shows "count (mset (fl_queue l)) p + count (in_flight es) p + count (rm_regs m) p \<le> 1"
  using all_phys_distinct [OF assms(2), of p] assms(1) [unfolded conserved_def]
  by (metis count_union)

lemma gpr0_mem: "rm_wf m \<Longrightarrow> rm_gpr m ! 0 \<in># rm_regs m"
  by (auto simp: rm_regs_def rm_wf_def)

lemma conserved_nonzero:
  assumes "conserved n l es m" "n \<le> 2 ^ 16" "rm_wf m"
  shows "0 \<notin> set (fl_queue l)" "0 \<notin># in_flight es"
proof -
  have "0 \<in># rm_regs m" using gpr0_mem [OF assms(3)] assms(1) by (simp add: conserved_def)
  then have "1 \<le> count (rm_regs m) 0" by (simp add: Suc_leI)
  with conserved_unique [OF assms(1,2), of 0] have "count (mset (fl_queue l)) 0 = 0" "count (in_flight es) 0 = 0"
    by linarith+
  then show "0 \<notin> set (fl_queue l)" "0 \<notin># in_flight es"
    by (simp_all add: not_in_iff count_mset_0_iff)
qed

lemma reclaim_mset:
  assumes "0 \<notin># in_flight es" "\<forall>e \<in> set es. entry_ok e"
  shows "mset (fl_queue (reclaim_entries es l)) = mset (fl_queue l) + in_flight es"
proof -
  have "mset (filter (\<lambda>p. p \<noteq> 0) (map re_phys_dst es)) = in_flight es"
    using assms by (induction es) (auto simp: entry_ok_def)
  then show ?thesis by (simp add: reclaim_entries_def fl_reclaim_fold)
qed

lemma conserved_reclaim:
  assumes "conserved n l (es @ es') m" "n \<le> 2 ^ 16" "rm_wf m" "\<forall>e \<in> set es'. entry_ok e"
  shows "conserved n (reclaim_entries es' l) es m"
proof -
  have "0 \<notin># in_flight es'" using conserved_nonzero(2) [OF assms(1-3)] by simp
  with assms(1,4) show ?thesis by (simp add: conserved_def reclaim_mset ac_simps)
qed

lemma conserved_retire:
  assumes "conserved n l (e # es) m" "n \<le> 2 ^ 16" "rm_wf m" "entry_ok e" "entry_writes e"
    and old: "re_old_phys_dst e = rm_get m (re_rd e) (cs_fp_reg_write (re_ctrl e))"
  shows "re_old_phys_dst e \<noteq> re_phys_dst e" "re_old_phys_dst e \<noteq> 0"
    and "conserved n (fl_reclaim (re_old_phys_dst e) l) es (rebuild_apply e m)"
proof -
  let ?r = "re_rd e" and ?f = "cs_fp_reg_write (re_ctrl e)"
  note set = rebuild_apply_writes [OF assms(4,5), of m]
  have mem: "re_old_phys_dst e \<in># rm_regs m - {# 0 #}"
    using rm_get_mem [OF assms(3), of ?r ?f] set old assms(1) by (simp add: conserved_def)
  then have o: "1 \<le> count (rm_regs m) (re_old_phys_dst e)" by (auto dest: in_diffD simp: Suc_le_eq)
  show "re_old_phys_dst e \<noteq> re_phys_dst e"
  proof
    assume "re_old_phys_dst e = re_phys_dst e"
    then have "1 \<le> count (in_flight (e # es)) (re_old_phys_dst e)" using assms(5) by simp
    with conserved_unique [OF assms(1,2), of "re_old_phys_dst e"] o show False by linarith
  qed
  show nz: "re_old_phys_dst e \<noteq> 0"
  proof
    assume "re_old_phys_dst e = 0"
    with mem have "0 \<in># rm_regs m - {# 0 #}" by simp
    then have "count (rm_regs m - {# 0 #}) 0 \<noteq> 0" by (metis count_eq_zero_iff)
    then have "1 < count (rm_regs m) 0" by simp
    with conserved_unique [OF assms(1,2), of 0] show False by linarith
  qed
  have "add_mset (re_old_phys_dst e) (rm_regs (rebuild_apply e m)) = add_mset (re_phys_dst e) (rm_regs m)"
    using rm_regs_set [OF assms(3), of ?r ?f "re_phys_dst e"] set old by simp
  moreover have "rm_gpr (rebuild_apply e m) ! 0 = 0"
    using set rm_set_gpr0 [OF assms(3)] assms(1) by (simp add: conserved_def)
  ultimately show "conserved n (fl_reclaim (re_old_phys_dst e) l) es (rebuild_apply e m)"
    using assms(1,5) nz by (simp add: conserved_def fl_reclaim_queue)
      (metis union_mset_add_mset_left union_mset_add_mset_right)
qed

subsection \<open>The invariant of the engine\<close>

abbreviation en_window :: "engine \<Rightarrow> rob_entry list" where
  "en_window g \<equiv> ring_window (en_rob g)"

definition ren_inv :: "nat \<Rightarrow> engine \<Rightarrow> bool" where
  "ren_inv n g \<longleftrightarrow> n \<le> 2 ^ 16 \<and> rob_inv (en_rob g) \<and> rm_wf (en_committed_map g)
     \<and> en_rename_map g = replay_map (en_window g) (en_committed_map g)
     \<and> (\<forall>e \<in> set (en_window g). entry_ok e)
     \<and> olds_ok (en_committed_map g) (en_window g)
     \<and> conserved n (en_free_list g) (en_window g) (en_committed_map g)
     \<and> checkpoints_ok (en_committed_map g) (en_window g) (en_checkpoints g)"

lemma ren_invD:
  assumes "ren_inv n g"
  shows "n \<le> 2 ^ 16" "rob_inv (en_rob g)" "rm_wf (en_committed_map g)"
    "en_rename_map g = replay_map (en_window g) (en_committed_map g)"
    "\<forall>e \<in> set (en_window g). entry_ok e" "olds_ok (en_committed_map g) (en_window g)"
    "conserved n (en_free_list g) (en_window g) (en_committed_map g)"
    "checkpoints_ok (en_committed_map g) (en_window g) (en_checkpoints g)"
  using assms by (simp_all add: ren_inv_def)

lemma rm_regs_new: "rm_regs rm_new = all_phys 64"
proof -
  have "map (\<lambda>i. of_nat (32 + i) :: phys_reg) [0..<32] = map of_nat (map (\<lambda>i. i + 32) [0..<32])"
    by (simp only: map_map comp_def add.commute)
  then have "map (\<lambda>i. of_nat (32 + i) :: phys_reg) [0..<32] = map of_nat [32..<64]"
    by (simp only: map_add_upt) simp
  moreover have "[0..<64] = [0..<32] @ [32..<64]" using upt_add_eq_append [of 0 32 32] by simp
  ultimately show ?thesis by (simp add: rm_regs_def rm_new_def all_phys_def)
qed

lemma o3_new_inv [inv_intros]:
  assumes "0 < rob_size" "64 \<le> n" "n \<le> 2 ^ 16" "checkpoint_count \<le> 256"
  shows "ren_inv n (o3_new rob_size sb lq n w checkpoint_count)"
proof -
  have "[0..<n] = [0..<64] @ [64..<n]" using upt_add_eq_append [of 0 64 "n - 64"] assms(2) by simp
  then have "mset (map of_nat [64..<n]) + all_phys 64 = all_phys n" by (simp add: all_phys_def)
  moreover have "ring_window (rob_new rob_size) = []" by (simp add: rob_new_def ring_window_def)
  moreover have "rm_gpr rm_new ! 0 = 0" by (simp add: rm_new_def)
  ultimately show ?thesis
    using assms by (simp add: ren_inv_def o3_new_def rob_new_inv rm_new_wf conserved_def fl_new_def
      rm_regs_new checkpoints_ok_def ct_new_def ct_wf_def)
qed

subsection \<open>Recovery keeps the invariant\<close>

lemma checkpoints_okD:
  "checkpoints_ok m es t \<Longrightarrow> i < length (ct_slots t) \<Longrightarrow> ct_slots t ! i = Some c \<Longrightarrow>
   \<exists>k < length es. re_tag (es ! k) = ck_branch_tag c \<and> re_checkpoint_id (es ! k) = Some (of_nat i)
     \<and> ck_rename_map c = replay_map (take (Suc k) es) m"
  unfolding checkpoints_ok_def by blast

lemma checkpoints_ok_empty: "length (ct_slots t) \<le> 256 \<Longrightarrow> checkpoints_ok m es (ct_flush_all t)"
  using ct_flush_all_spec [of t] by (simp add: checkpoints_ok_def)

lemma checkpoints_ok_cut:
  assumes "checkpoints_ok m (ring_window r) t" "rob_inv r" "k < ring_count r" "re_tag (ring_window r ! k) = tag"
  shows "checkpoints_ok m (take (Suc k) (ring_window r)) (ct_flush_after tag t)"
proof -
  let ?w = "ring_window r"
  have wf: "ct_wf t" using assms(1) by (simp add: checkpoints_ok_def)
  note flush = ct_flush_after_spec [OF wf, of tag]
  let ?w' = "take (Suc k) ?w"
  have "\<exists>j < length ?w'. re_tag (?w' ! j) = ck_branch_tag c \<and> re_checkpoint_id (?w' ! j) = Some (of_nat i)
      \<and> ck_rename_map c = replay_map (take (Suc j) ?w') m"
    if i: "i < length (ct_slots t)" "ct_keep tag (ct_slots t ! i) = Some c" for i c
  proof -
    have slot: "ct_slots t ! i = Some c" and old: "\<not> is_newer_than (ck_branch_tag c) tag"
      using i(2) by (auto simp: ct_keep_def split: option.splits if_splits)
    obtain j where j: "j < ring_count r" "re_tag (?w ! j) = ck_branch_tag c"
        "re_checkpoint_id (?w ! j) = Some (of_nat i)" "ck_rename_map c = replay_map (take (Suc j) ?w) m"
      using checkpoints_okD [OF assms(1) i(1) slot] by auto
    have "j \<le> k"
      using rob_window_older [OF assms(2), of k j] j(1,2) assms(4) old
      by (auto simp: is_newer_than_def intro: leI)
    with j assms(3) show ?thesis by (intro exI [of _ j]) (simp add: min_absorb1)
  qed
  moreover have "ct_slots (ct_flush_after tag t) ! i = ct_keep tag (ct_slots t ! i)"
    if "i < length (ct_slots t)" for i
    using flush that by simp
  ultimately show ?thesis
    using flush assms(1) unfolding checkpoints_ok_def by auto
qed

lemma checkpoint_is_rebuild:
  assumes "checkpoints_ok m (ring_window r) t" "rob_inv r" "k < ring_count r" "re_tag (ring_window r ! k) = tag"
    and "ct_find_by_tag t tag = Some c"
  shows "ck_rename_map c = replay_map (take (Suc k) (ring_window r)) m"
proof -
  have "c \<in> set (List.map_filter id (ct_slots t))" and tag: "ck_branch_tag c = tag"
    using assms(5) by (auto simp: ct_find_by_tag_def find_Some_iff)
  then have "Some c \<in> set (ct_slots t)" by (auto simp: List.map_filter_def)
  then obtain i where "i < length (ct_slots t)" "ct_slots t ! i = Some c" by (auto simp: in_set_conv_nth)
  then obtain j where j: "j < ring_count r" "re_tag (ring_window r ! j) = tag"
      "ck_rename_map c = replay_map (take (Suc j) (ring_window r)) m"
    using assms(1) tag by (auto simp: checkpoints_ok_def)
  then have "j = k"
    using assms(3,4) rob_inv_distinct [OF assms(2)] by (auto simp: distinct_conv_nth)
  with j show ?thesis by simp
qed

lemma checkpoint_absent:
  assumes "checkpoints_ok m es t" "tag \<notin> re_tag ` set es"
  shows "ct_find_by_tag t tag = None"
proof -
  have "ck_branch_tag c \<noteq> tag" if "c \<in> set (List.map_filter id (ct_slots t))" for c
  proof -
    have "Some c \<in> set (ct_slots t)" using that by (auto simp: List.map_filter_def)
    then obtain i where "i < length (ct_slots t)" "ct_slots t ! i = Some c" by (auto simp: in_set_conv_nth)
    then obtain j where "j < length es" "re_tag (es ! j) = ck_branch_tag c"
      using assms(1) by (auto simp: checkpoints_ok_def)
    with assms(2) show ?thesis by (metis image_eqI nth_mem)
  qed
  then show ?thesis by (auto simp: ct_find_by_tag_def find_None_iff)
qed

lemma checkpoints_all_newer:
  assumes "checkpoints_ok m es t" "\<forall>e \<in> set es. is_newer_than (re_tag e) tag"
  shows "checkpoints_ok m' [] (ct_flush_after tag t)"
proof -
  have "ct_keep tag (ct_slots t ! i) = None" if i: "i < length (ct_slots t)" for i
  proof (cases "ct_slots t ! i")
    case (Some c)
    then obtain j where "j < length es" "re_tag (es ! j) = ck_branch_tag c"
      using checkpoints_okD [OF assms(1) i] by blast
    then have "is_newer_than (ck_branch_tag c) tag" using assms(2) by (metis nth_mem)
    with Some show ?thesis by (simp add: ct_keep_def)
  qed (simp add: ct_keep_def)
  then show ?thesis
    using assms(1) ct_flush_after_spec [of t tag] by (auto simp: checkpoints_ok_def)
qed

lemma rob_iter_all_window: "rob_inv r \<Longrightarrow> rob_iter_all r = ring_window r \<and> rob_iter_in_order r = ring_window r"
  by (simp add: rob_iter_all_def rob_iter_in_order_def window_valid_filter)

text \<open>The common part of the recovery paths: everything in flight is squashed, or everything behind
  a kept entry.\<close>

lemma ren_inv_squash_all:
  assumes "ren_inv n g" "en_rob g' = rob_flush_all (en_rob g)" "en_committed_map g' = en_committed_map g"
    and "en_free_list g' = reclaim_entries (rob_iter_all (en_rob g)) (en_free_list g)"
    and "en_rename_map g' = en_committed_map g" "checkpoints_ok (en_committed_map g) [] (en_checkpoints g')"
  shows "ren_inv n g'"
  using ren_invD [OF assms(1)] assms(2-6) rob_flush_all_spec [of "en_rob g"]
    conserved_reclaim [of n "en_free_list g" "[]" "en_window g" "en_committed_map g"]
  by (simp add: ren_inv_def rob_iter_all_window)

lemma ren_inv_squash_after:
  assumes "ren_inv n g" "k < ring_count (en_rob g)" "re_tag (en_window g ! k) = tag"
    and "en_rob g' = rob_flush_after tag (en_rob g)" "en_committed_map g' = en_committed_map g"
    and "en_free_list g' = reclaim_entries (rob_iter_after (en_rob g) tag) (en_free_list g)"
    and "en_rename_map g' = replay_map (take (Suc k) (en_window g)) (en_committed_map g)"
    and "en_checkpoints g' = ct_flush_after tag (en_checkpoints g)"
  shows "ren_inv n g'"
proof -
  note inv = ren_invD [OF assms(1)]
  note flush = rob_flush_after_present [OF inv(2) assms(2,3)]
  have "conserved n (en_free_list g') (take (Suc k) (en_window g)) (en_committed_map g)"
    unfolding assms(6) rob_iter_after_conv [OF inv(2) assms(2,3)]
    using inv(5,7) by (intro conserved_reclaim inv) (auto dest: in_set_dropD)
  then show ?thesis
    using inv flush assms(4,5,7,8) checkpoints_ok_cut [OF inv(8,2) assms(2,3)] olds_ok_take [OF inv(6)]
    by (auto simp: ren_inv_def dest: in_set_takeD)
qed

lemma o3_flush_inv [inv_intros]: "ren_inv n g \<Longrightarrow> ren_inv n (o3_flush g)"
  by (rule ren_inv_squash_all)
    (auto simp: o3_flush_def checkpoints_ok_def ct_flush_all_spec dest: ren_invD(8))

lemma rebuild_is_replay:
  "rob_inv (en_rob g) \<Longrightarrow> rebuild_rename_map g = replay_map (en_window g) (en_committed_map g)"
  by (simp add: rebuild_rename_map_def rob_iter_all_window replay_map_def)

lemma live_position:
  assumes "rob_inv r" "rob_find_entry r t \<noteq> None"
  obtains k where "k < ring_count r" "re_tag (ring_window r ! k) = t"
proof -
  have "\<exists>e \<in> set (ring_window r). re_tag e = t"
    using assms by (auto simp: rob_find_entry_conv find_None_iff)
  with that show ?thesis by (auto simp: in_set_conv_nth)
qed

text \<open>The instruction a flush keeps is still in flight, or it retired and is older than everything
  in flight.\<close>

definition keep_ok :: "rob_tag \<Rightarrow> engine \<Rightarrow> bool" where
  "keep_ok t g \<longleftrightarrow> rob_find_entry (en_rob g) t \<noteq> None \<or> (\<forall>e \<in> set (en_window g). is_newer_than (re_tag e) t)"

lemma o3_flush_after_live:
  assumes "ren_inv n g" "k < ring_count (en_rob g)" "re_tag (en_window g ! k) = t"
  shows "ren_inv n (o3_flush_after t g)"
    and "en_window (o3_flush_after t g) = take (Suc k) (en_window g)"
    and "en_rename_map (o3_flush_after t g) = rebuild_rename_map (o3_flush_after t g)"
proof -
  note inv = ren_invD [OF assms(1)]
  note flush = rob_flush_after_present [OF inv(2) assms(2,3)]
  have "find (\<lambda>e. re_tag e = t) (en_window g) \<noteq> None"
    using assms(2,3) by (auto simp: find_None_iff in_set_conv_nth)
  then have live: "(rob_find_entry (en_rob g) t \<noteq> None) = True"
    using rob_find_entry_conv [OF inv(2)] by simp
  let ?g = "o3_flush_after t g"
  have parts: "en_rob ?g = rob_flush_after t (en_rob g)" "en_committed_map ?g = en_committed_map g"
      "en_free_list ?g = reclaim_entries (rob_iter_after (en_rob g) t) (en_free_list g)"
    unfolding o3_flush_after_def live by (simp_all add: Let_def split: option.splits)
  have ck: "en_checkpoints ?g = ct_flush_after t (en_checkpoints g)"
  proof (cases "ct_capacity (en_checkpoints g) = 0")
    case True
    then have "ct_slots (en_checkpoints g) = []" by (simp add: ct_capacity_def)
    then have "ct_flush_after t (en_checkpoints g) = en_checkpoints g" by (simp add: ct_flush_after_def)
    with True show ?thesis unfolding o3_flush_after_def live by (simp add: Let_def)
  next
    case False
    then show ?thesis unfolding o3_flush_after_def live by (simp add: Let_def split: option.splits)
  qed
  have map: "en_rename_map ?g = replay_map (take (Suc k) (en_window g)) (en_committed_map g)"
    using checkpoint_is_rebuild [OF inv(8,2) assms(2,3)] flush
    unfolding o3_flush_after_def live
    by (simp add: Let_def rebuild_rename_map_def rob_iter_all_window replay_map_def split: option.splits)
  show "ren_inv n ?g"
    by (rule ren_inv_squash_after [OF assms parts(1,2,3) map ck])
  show win: "en_window ?g = take (Suc k) (en_window g)" by (simp add: parts(1) flush)
  show "en_rename_map ?g = rebuild_rename_map ?g"
    using flush by (simp add: rebuild_is_replay parts map win)
qed

lemma o3_flush_after_retired:
  assumes "ren_inv n g" "rob_find_entry (en_rob g) t = None" "\<forall>e \<in> set (en_window g). is_newer_than (re_tag e) t"
  shows "ren_inv n (o3_flush_after t g)" "en_window (o3_flush_after t g) = []"
    and "en_rename_map (o3_flush_after t g) = rebuild_rename_map (o3_flush_after t g)"
proof -
  note inv = ren_invD [OF assms(1)]
  let ?g = "o3_flush_after t g"
  note flush = rob_flush_all_spec [of "en_rob g"]
  have "t \<notin> re_tag ` set (en_window g)"
    using assms(2) by (auto simp: rob_find_entry_conv [OF inv(2)] find_None_iff)
  then have none: "ct_find_by_tag (en_checkpoints g) t = None"
    using checkpoint_absent [OF inv(8)] by simp
  have parts: "en_rob ?g = rob_flush_all (en_rob g)" "en_committed_map ?g = en_committed_map g"
      "en_free_list ?g = reclaim_entries (rob_iter_all (en_rob g)) (en_free_list g)"
      "en_rename_map ?g = en_committed_map g"
    using assms(2) none flush
    by (simp_all add: o3_flush_after_def Let_def rebuild_rename_map_def rob_iter_in_order_def)
  have "checkpoints_ok (en_committed_map g) [] (en_checkpoints ?g)"
  proof (cases "ct_capacity (en_checkpoints g) = 0")
    case True
    with assms(2) inv(8) show ?thesis
      by (simp add: o3_flush_after_def Let_def checkpoints_ok_def ct_capacity_def)
  next
    case False
    with assms(2) none checkpoints_all_newer [OF inv(8) assms(3)] show ?thesis
      by (simp add: o3_flush_after_def Let_def)
  qed
  from ren_inv_squash_all [OF assms(1) parts this] show "ren_inv n ?g" .
  show win: "en_window ?g = []" by (simp add: parts(1) flush)
  show "en_rename_map ?g = rebuild_rename_map ?g"
    using flush inv(2) by (simp add: rebuild_is_replay parts win)
qed

lemma o3_flush_after_inv [inv_intros]:
  assumes "ren_inv n g" "keep_ok t g"
  shows "ren_inv n (o3_flush_after t g)"
    and "en_rename_map (o3_flush_after t g) = rebuild_rename_map (o3_flush_after t g)"
proof -
  have "ren_inv n (o3_flush_after t g) \<and> en_rename_map (o3_flush_after t g) = rebuild_rename_map (o3_flush_after t g)"
  proof (cases "rob_find_entry (en_rob g) t = None")
    case True
    with assms o3_flush_after_retired [OF assms(1) True] show ?thesis by (simp add: keep_ok_def)
  next
    case False
    then obtain k where "k < ring_count (en_rob g)" "re_tag (en_window g ! k) = t"
      using live_position [OF ren_invD(2) [OF assms(1)]] by blast
    with o3_flush_after_live [OF assms(1)] show ?thesis by blast
  qed
  then show "ren_inv n (o3_flush_after t g)"
    "en_rename_map (o3_flush_after t g) = rebuild_rename_map (o3_flush_after t g)" by simp_all
qed

lemma prev_tag_position:
  assumes "rob_inv r" "k < ring_count r" "re_tag (ring_window r ! k) = t"
  shows "rob_prev_tag_of r t = (if k = 0 then None else Some (re_tag (ring_window r ! (k - 1))))"
proof -
  let ?w = "ring_window r"
  have mem: "t \<in> re_tag ` set ?w" using assms(2,3) by (metis image_eqI length_ring_window nth_mem)
  have "\<forall>i < k. re_tag (?w ! i) \<noteq> t"
    using assms(2,3) rob_inv_distinct [OF assms(1)] by (auto simp: distinct_conv_nth)
  then have tw: "takeWhile (\<lambda>e. re_tag e \<noteq> t) ?w = take k ?w"
    using assms(2,3) by (intro takeWhile_eq_take_P_nth) auto
  have "rob_prev_tag_of r t = (case rev (take k ?w) of [] \<Rightarrow> None | e # _ \<Rightarrow> Some (re_tag e))"
    using assms(1,2) prev_tag_loop_conv [OF _ mem, of None] by (auto simp: rob_prev_tag_of_def rob_inv_def tw)
  also have "\<dots> = (if k = 0 then None else Some (re_tag (?w ! (k - 1))))"
    using assms(2) by (cases k) (simp_all add: take_Suc_conv_app_nth)
  finally show ?thesis .
qed

lemma o3_mem_violation_inv [inv_intros]:
  assumes "ren_inv n g" "k < ring_count (en_rob g)" "re_tag (en_window g ! k) = t"
  shows "ren_inv n (o3_mem_violation t g) \<and> en_window (o3_mem_violation t g) = take k (en_window g)"
proof (cases k)
  case 0
  note inv = ren_invD [OF assms(1)]
  have "rob_prev_tag_of (en_rob g) t = None" using prev_tag_position [OF inv(2) assms(2,3)] 0 by simp
  then have "ren_inv n (o3_mem_violation t g)"
    using rob_flush_all_spec [of "en_rob g"] inv(8) ct_flush_all_spec [of "en_checkpoints g"]
    by (intro ren_inv_squash_all [OF assms(1)])
      (simp_all add: o3_mem_violation_def Let_def rebuild_rename_map_def rob_iter_in_order_def checkpoints_ok_def)
  moreover have "en_window (o3_mem_violation t g) = []"
    using \<open>rob_prev_tag_of (en_rob g) t = None\<close> by (simp add: o3_mem_violation_def Let_def rob_flush_all_spec)
  ultimately show ?thesis using 0 by simp
next
  case (Suc j)
  note inv = ren_invD [OF assms(1)]
  let ?keep = "re_tag (en_window g ! j)"
  have j: "j < ring_count (en_rob g)" using assms(2) Suc by simp
  note flush = rob_flush_after_present [OF inv(2) j refl]
  have "rob_prev_tag_of (en_rob g) t = Some ?keep" using prev_tag_position [OF inv(2) assms(2,3)] Suc by simp
  then have parts: "en_rob (o3_mem_violation t g) = rob_flush_after ?keep (en_rob g)"
      "en_committed_map (o3_mem_violation t g) = en_committed_map g"
      "en_free_list (o3_mem_violation t g) = reclaim_entries (rob_iter_after (en_rob g) ?keep) (en_free_list g)"
      "en_rename_map (o3_mem_violation t g) = replay_map (take (Suc j) (en_window g)) (en_committed_map g)"
      "en_checkpoints (o3_mem_violation t g) = ct_flush_after ?keep (en_checkpoints g)"
    using flush by (simp_all add: o3_mem_violation_def Let_def rebuild_rename_map_def rob_iter_all_window replay_map_def)
  from ren_inv_squash_after [OF assms(1) j refl parts] flush Suc show ?thesis by (simp add: parts(1))
qed

subsection \<open>Renaming keeps the invariant\<close>

lemma checkpoints_ok_snoc:
  assumes "checkpoints_ok m es t"
  shows "checkpoints_ok m (es @ [e]) t"
proof -
  have "\<exists>k < length (es @ [e]). re_tag ((es @ [e]) ! k) = ck_branch_tag c
      \<and> re_checkpoint_id ((es @ [e]) ! k) = Some (of_nat i) \<and> ck_rename_map c = replay_map (take (Suc k) (es @ [e])) m"
    if ic: "i < length (ct_slots t)" "ct_slots t ! i = Some c" for i c
  proof -
    obtain k where "k < length es" "re_tag (es ! k) = ck_branch_tag c" "re_checkpoint_id (es ! k) = Some (of_nat i)"
        "ck_rename_map c = replay_map (take (Suc k) es) m"
      using checkpoints_okD [OF assms ic] by blast
    then show ?thesis by (intro exI [of _ k]) (simp add: nth_append)
  qed
  with assms show ?thesis unfolding checkpoints_ok_def by blast
qed

lemma checkpoints_ok_alloc:
  assumes "checkpoints_ok m es t" "i < length (ct_slots t)"
    and "ct_slots t' = (ct_slots t)[i := Some \<lparr>ck_branch_tag = re_tag e, ck_rename_map = replay_map (es @ [e]) m\<rparr>]"
    and "ct_wf t'" "re_checkpoint_id e = Some (of_nat i)"
  shows "checkpoints_ok m (es @ [e]) t'"
proof -
  have "\<exists>k < length (es @ [e]). re_tag ((es @ [e]) ! k) = ck_branch_tag c
      \<and> re_checkpoint_id ((es @ [e]) ! k) = Some (of_nat j) \<and> ck_rename_map c = replay_map (take (Suc k) (es @ [e])) m"
    if "j < length (ct_slots t')" "ct_slots t' ! j = Some c" for j c
  proof (cases "j = i")
    case True
    with that assms(2,3,5) show ?thesis by (intro exI [of _ "length es"]) auto
  next
    case False
    with that assms(3) have "ct_slots t ! j = Some c" "j < length (ct_slots t)" by simp_all
    then show ?thesis
      using checkpoints_okD [OF checkpoints_ok_snoc [OF assms(1), of e]] by blast
  qed
  with assms(1,3,4) show ?thesis unfolding checkpoints_ok_def by simp
qed

lemma ren_inv_push:
  assumes "ren_inv n g" "rob_inv (en_rob g')" "en_window g' = en_window g @ [e]"
    and "en_committed_map g' = en_committed_map g" "en_rename_map g' = rebuild_apply e (en_rename_map g)"
    and "entry_ok e"
    and "entry_writes e \<Longrightarrow> re_old_phys_dst e = rm_get (en_rename_map g) (re_rd e) (cs_fp_reg_write (re_ctrl e))"
    and "fl_queue (en_free_list g) = (if entry_writes e then [re_phys_dst e] else []) @ fl_queue (en_free_list g')"
    and "checkpoints_ok (en_committed_map g) (en_window g @ [e]) (en_checkpoints g')"
  shows "ren_inv n g'"
proof -
  note inv = ren_invD [OF assms(1)]
  have "conserved n (en_free_list g') (en_window g @ [e]) (en_committed_map g)"
    using inv(7) assms(8) by (auto simp: conserved_def)
  then show ?thesis
    using inv assms(2-7,9) by (auto simp: ren_inv_def olds_ok_append)
qed

definition rob_of :: "id_ex_entry \<Rightarrow> rob_tag \<Rightarrow> phys_reg \<Rightarrow> phys_reg \<Rightarrow> rob_entry" where
  "rob_of d tag p old = rob_entry_new tag (id_pc d) (id_inst d) (id_inst_size d) (id_rd d)
     (cs_fp_reg_write (id_ctrl d)) (id_ctrl d) p old"

lemma rob_of_simps [simp]:
  "re_tag (rob_of d t p old) = t" "re_rd (rob_of d t p old) = id_rd d" "re_ctrl (rob_of d t p old) = id_ctrl d"
  "re_phys_dst (rob_of d t p old) = p" "re_old_phys_dst (rob_of d t p old) = old"
  "re_checkpoint_id (rob_of d t p old) = None" "re_csr_update (rob_of d t p old) = None"
  "re_lr_sc (rob_of d t p old) = None" "re_sfence_vma (rob_of d t p old) = None"
  by (simp_all add: rob_of_def rob_entry_new_def)

lemma entry_writes_rob_of [simp]:
  "entry_writes (rob_of d t p old) \<longleftrightarrow> needs_dst d"
  "entry_writes (e\<lparr>re_checkpoint_id := c\<rparr>) \<longleftrightarrow> entry_writes e"
  by (simp_all add: entry_writes_def needs_dst_def)

text \<open>The parts of a successful rename.\<close>

lemma rename_dst_some:
  "rename_dst d g = Some (l, p, old) \<Longrightarrow>
   fl_queue (en_free_list g) = (if needs_dst d then [p] else []) @ fl_queue l
   \<and> (if needs_dst d then old = rm_get (en_rename_map g) (id_rd d) (cs_fp_reg_write (id_ctrl d)) else p = 0 \<and> old = 0)"
  by (auto simp: rename_dst_def fl_allocate_def split: if_splits list.splits)

lemma rename_mem_fields:
  "rename_mem d tag g = (g', ok) \<Longrightarrow>
   en_rob g' = en_rob g \<and> en_free_list g' = en_free_list g \<and> en_rename_map g' = en_rename_map g
   \<and> en_committed_map g' = en_committed_map g \<and> en_checkpoints g' = en_checkpoints g \<and> en_has_prf g' = en_has_prf g"
  by (auto simp: rename_mem_def Let_def split: if_splits prod.splits)

lemma rename_o3_cases:
  assumes "rename_o3 d g = Rn_Done g' e"
  obtains l p old r tag g1 g2 where
    "rename_dst d g = Some (l, p, old)"
    "rob_allocate (en_rob g) (id_pc d) (id_inst d) (id_inst_size d) (id_rd d) (cs_fp_reg_write (id_ctrl d))
       (id_ctrl d) p old = (r, Some tag)"
    "g1 = g\<lparr>en_rob := r, en_free_list := l,
       en_rename_map := (if needs_dst d then rm_set (id_rd d) (cs_fp_reg_write (id_ctrl d)) p (en_rename_map g) else en_rename_map g),
       en_prf := (if needs_dst d then prf_allocate p (en_prf g) else en_prf g)\<rparr>"
    "rename_mem d tag g1 = (g2, True)" "rename_checkpoint d tag g2 = Some g'"
    "e = issue_entry d tag None None None (rm_get (en_rename_map g) (id_rs1 d) (cs_rs1_fp (id_ctrl d)))
       (rm_get (en_rename_map g) (id_rs2 d) (cs_rs2_fp (id_ctrl d)))
       (if cs_rs3_fp (id_ctrl d) then rm_get (en_rename_map g) (id_rs3 d) True else 0) p"
  using assms unfolding rename_o3_def Let_def
  by (force split: if_splits option.splits prod.splits bool.splits)

lemma rename_o3_inv:
  assumes "ren_inv n g" "ctrl_ok (id_ctrl d)" "rob_room (en_rob g)" "rename_o3 d g = Rn_Done g' e"
  shows "ren_inv n g'" "map re_tag (en_window g') = map re_tag (en_window g) @ [ri_rob_tag e]"
    "length (en_window g') = Suc (length (en_window g))"
    "\<exists>x. en_window g' = en_window g @ [x] \<and> re_state x = Issued" "en_has_prf g' = en_has_prf g"
proof -
  note inv = ren_invD [OF assms(1)]
  obtain l p old r tag g1 g2 where
      dst: "rename_dst d g = Some (l, p, old)"
    and alloc: "rob_allocate (en_rob g) (id_pc d) (id_inst d) (id_inst_size d) (id_rd d) (cs_fp_reg_write (id_ctrl d))
       (id_ctrl d) p old = (r, Some tag)"
    and g1: "g1 = g\<lparr>en_rob := r, en_free_list := l,
       en_rename_map := (if needs_dst d then rm_set (id_rd d) (cs_fp_reg_write (id_ctrl d)) p (en_rename_map g) else en_rename_map g),
       en_prf := (if needs_dst d then prf_allocate p (en_prf g) else en_prf g)\<rparr>"
    and mem: "rename_mem d tag g1 = (g2, True)" and ck: "rename_checkpoint d tag g2 = Some g'"
    and e: "ri_rob_tag e = tag"
    using rename_o3_cases [OF assms(4)] by (metis issue_entry_def rename_issue_entry.select_convs(1))
  let ?e = "rob_of d tag p old"
  have "\<not> rob_is_full (en_rob g)" using alloc by (auto simp: rob_allocate_def)
  from rob_allocate_spec [OF inv(2) this refl alloc] assms(3)
  have tag: "tag = rob_next_tag (en_rob g)" and win: "ring_window r = en_window g @ [?e]" and rinv: "rob_inv r"
    by (simp_all add: rob_of_def)
  note mf = rename_mem_fields [OF mem]
  have issued: "re_state ?e = Issued" by (simp add: rob_of_def rob_entry_new_def)
  have ok: "entry_ok (?e\<lparr>re_checkpoint_id := c\<rparr>)" if "c \<noteq> None \<longrightarrow> is_branch_or_jump (id_ctrl d)" for c
    using assms(2) rename_dst_some [OF dst] that by (auto simp: entry_ok_def needs_dst_def)
  have "?e\<lparr>re_checkpoint_id := None\<rparr> = ?e" by (simp add: rob_of_def rob_entry_new_def)
  with ok [of None] have ok0: "entry_ok ?e" by simp
  have replayed: "rebuild_apply (?e\<lparr>re_checkpoint_id := c\<rparr>) (en_rename_map g) = en_rename_map g2" for c
  proof -
    have "rebuild_apply (?e\<lparr>re_checkpoint_id := c\<rparr>) (en_rename_map g) = rebuild_apply ?e (en_rename_map g)"
      by (simp add: rebuild_apply_def)
    also have "\<dots> = en_rename_map g1"
      using rebuild_apply_writes [OF ok0, of "en_rename_map g"] rebuild_apply_silent [of ?e "en_rename_map g"]
      by (simp add: g1)
    finally show ?thesis using mf by simp
  qed
  note queue = rename_dst_some [OF dst]
  have "ren_inv n g' \<and> map re_tag (en_window g') = map re_tag (en_window g) @ [tag]
      \<and> length (en_window g') = Suc (length (en_window g))
      \<and> (\<exists>x. en_window g' = en_window g @ [x] \<and> re_state x = Issued) \<and> en_has_prf g' = en_has_prf g"
  proof (cases "is_branch_or_jump (id_ctrl d) \<and> 0 < ct_capacity (en_checkpoints g2)")
    case False
    then have g': "g' = g2" using ck by (auto simp: rename_checkpoint_def)
    have "ren_inv n g'"
      using inv(8) ok0 replayed [of None] \<open>?e\<lparr>re_checkpoint_id := None\<rparr> = ?e\<close> mf g1 queue win rinv
      by (intro ren_inv_push [OF assms(1), of g' ?e]) (simp_all add: g' checkpoints_ok_snoc)
    with win mf g1 issued show ?thesis by (simp add: g')
  next
    case True
    then obtain t c where ct: "ct_allocate tag (en_rename_map g2) (en_checkpoints g) = (t, Some c)"
      and g': "g' = g2\<lparr>en_checkpoints := t, en_rob := rob_set_checkpoint_id tag c r\<rparr>"
      using ck mf g1 by (auto simp: rename_checkpoint_def split: option.splits prod.splits)
    let ?c = "?e\<lparr>re_checkpoint_id := Some c\<rparr>"
    have wf: "ct_wf (en_checkpoints g)" using inv(8) by (simp add: checkpoints_ok_def)
    from ct_allocate_spec [OF wf, of tag "en_rename_map g2"] ct obtain i where
        i: "i < length (ct_slots (en_checkpoints g))" "c = of_nat i" "ct_wf t"
          "ct_slots t = (ct_slots (en_checkpoints g))[i := Some \<lparr>ck_branch_tag = tag, ck_rename_map = en_rename_map g2\<rparr>]"
      by (auto split: if_splits)
    have "map (\<lambda>e. if re_tag e = tag then e\<lparr>re_checkpoint_id := Some c\<rparr> else e) (en_window g) = en_window g"
      using rob_inv_distinct [OF rinv] win by (intro map_idI) auto
    then have win': "ring_window (rob_set_checkpoint_id tag c r) = en_window g @ [?c]"
      by (simp add: rob_set_checkpoint_id_def rob_update_window [OF rinv] win)
    have rinv': "rob_inv (rob_set_checkpoint_id tag c r)"
      unfolding rob_set_checkpoint_id_def by (rule rob_update_inv [OF rinv]) (simp add: tag_preserving_def)
    have "replay_map (en_window g @ [?c]) (en_committed_map g) = en_rename_map g2"
      using replayed [of "Some c"] inv(4) by simp
    then have "checkpoints_ok (en_committed_map g) (en_window g @ [?c]) t"
      using i by (intro checkpoints_ok_alloc [OF inv(8) i(1)]) simp_all
    then have "ren_inv n g'"
      using True ok [of "Some c"] replayed [of "Some c"] mf g1 queue win' rinv'
      by (intro ren_inv_push [OF assms(1), of g' ?c]) (simp_all add: g')
    with win' mf g1 issued show ?thesis by (simp add: g')
  qed
  then show "ren_inv n g'" "map re_tag (en_window g') = map re_tag (en_window g) @ [ri_rob_tag e]"
    "length (en_window g') = Suc (length (en_window g))"
    "\<exists>x. en_window g' = en_window g @ [x] \<and> re_state x = Issued" "en_has_prf g' = en_has_prf g" by (simp_all add: e)
qed

subsection \<open>No instruction is lost\<close>

text \<open>The resources that a budget of \<open>k\<close> instructions needs.\<close>

definition has_room :: "nat \<Rightarrow> engine \<Rightarrow> bool" where
  "has_room k g \<longleftrightarrow> k \<le> rob_free_slots (en_rob g) \<and> k \<le> sb_free_slots (en_store_buffer g)
     \<and> (en_has_prf g \<longrightarrow> k \<le> lq_free_slots (en_load_queue g) \<and> k \<le> fl_available (en_free_list g)
          \<and> ct_wf (en_checkpoints g))"

definition same_inst :: "id_ex_entry \<Rightarrow> rename_issue_entry \<Rightarrow> bool" where
  "same_inst d e \<longleftrightarrow> ri_pc e = id_pc d \<and> ri_inst e = id_inst d \<and> ri_inst_size e = id_inst_size d
     \<and> ri_rs1 e = id_rs1 d \<and> ri_rs2 e = id_rs2 d \<and> ri_rs3 e = id_rs3 d \<and> ri_rd e = id_rd d
     \<and> ri_imm e = id_imm d \<and> ri_ctrl e = id_ctrl d \<and> ri_trap e = id_trap d
     \<and> ri_pred_taken e = id_pred_taken d \<and> ri_pred_target e = id_pred_target d"

lemma same_inst_issue [simp]: "same_inst d (issue_entry d tag t1 t2 t3 p1 p2 p3 pd)"
  by (simp add: same_inst_def issue_entry_def)

lemma rob_allocate_free:
  "0 < rob_free_slots r \<Longrightarrow>
   \<exists>r'. rob_allocate r pc i sz rd fp c p old = (r', Some (rob_next_tag r)) \<and> rob_free_slots r = Suc (rob_free_slots r')"
  by (simp add: rob_allocate_def rob_is_full_def rob_free_slots_def Let_def ring_push_def Suc_diff_Suc)

lemma sb_allocate_free:
  "0 < sb_free_slots b \<Longrightarrow> \<exists>b'. sb_allocate b t w = (b', True) \<and> sb_free_slots b = Suc (sb_free_slots b')"
  by (simp add: sb_allocate_def sb_is_full_def sb_free_slots_def ring_push_def Suc_diff_Suc)

lemma lq_allocate_free:
  "0 < lq_free_slots q \<Longrightarrow> \<exists>q'. lq_allocate q t w = (q', True) \<and> lq_free_slots q = Suc (lq_free_slots q')"
  by (simp add: lq_allocate_def lq_is_full_def lq_free_slots_def ring_push_def Suc_diff_Suc)

lemma rob_free_slots_set_checkpoint [simp]:
  "rob_free_slots (rob_set_checkpoint_id tag c r) = rob_free_slots r"
  by (simp add: rob_free_slots_def rob_set_checkpoint_id_def)

lemma rename_mem_room:
  assumes "has_room (Suc k) g" "en_has_prf g"
  shows "\<exists>g'. rename_mem d tag g = (g', True)
    \<and> k \<le> sb_free_slots (en_store_buffer g') \<and> k \<le> lq_free_slots (en_load_queue g')"
proof -
  have room: "Suc k \<le> sb_free_slots (en_store_buffer g)" "Suc k \<le> lq_free_slots (en_load_queue g)"
    using assms by (simp_all add: has_room_def)
  obtain b' where "sb_allocate (en_store_buffer g) tag (cs_width (id_ctrl d)) = (b', True)"
      "sb_free_slots (en_store_buffer g) = Suc (sb_free_slots b')"
    using sb_allocate_free room(1) by (metis Suc_le_D zero_less_Suc)
  moreover obtain q' where "lq_allocate (en_load_queue g) tag (cs_width (id_ctrl d)) = (q', True)"
      "lq_free_slots (en_load_queue g) = Suc (lq_free_slots q')"
    using lq_allocate_free room(2) by (metis Suc_le_D zero_less_Suc)
  ultimately show ?thesis using room by (auto simp: rename_mem_def Let_def)
qed

lemma rename_checkpoint_room:
  assumes "ct_wf (en_checkpoints g)" "\<not> (is_branch_or_jump (id_ctrl d) \<and> 0 < ct_capacity (en_checkpoints g) \<and> ct_is_full (en_checkpoints g))"
  shows "\<exists>g'. rename_checkpoint d tag g = Some g' \<and> ct_wf (en_checkpoints g')
    \<and> rob_free_slots (en_rob g') = rob_free_slots (en_rob g) \<and> en_store_buffer g' = en_store_buffer g
    \<and> en_load_queue g' = en_load_queue g \<and> en_free_list g' = en_free_list g \<and> en_has_prf g' = en_has_prf g"
  using ct_allocate_spec [OF assms(1), of tag "en_rename_map g"] assms
  by (auto simp: rename_checkpoint_def split: if_splits)

lemma rename_o3_progress:
  assumes "has_room (Suc k) g" "en_has_prf g"
  shows "rename_o3 d g = Rn_Stall \<or> (\<exists>g' e. rename_o3 d g = Rn_Done g' e \<and> has_room k g' \<and> en_has_prf g' \<and> same_inst d e)"
proof (cases "is_branch_or_jump (id_ctrl d) \<and> 0 < ct_capacity (en_checkpoints g) \<and> ct_is_full (en_checkpoints g)")
  case True
  then show ?thesis by (simp add: rename_o3_def Let_def)
next
  case False
  have room: "Suc k \<le> rob_free_slots (en_rob g)" "Suc k \<le> fl_available (en_free_list g)" "ct_wf (en_checkpoints g)"
    using assms by (simp_all add: has_room_def)
  obtain q qs where "fl_queue (en_free_list g) = q # qs"
    using room(2) by (cases "fl_queue (en_free_list g)") (auto simp: fl_available_def)
  then have "\<exists>l p old. rename_dst d g = Some (l, p, old) \<and> k \<le> fl_available l"
    using room(2) by (simp add: rename_dst_def fl_allocate_def fl_available_def)
  then obtain l p old where dst: "rename_dst d g = Some (l, p, old)" "k \<le> fl_available l" by blast
  obtain r where alloc: "rob_allocate (en_rob g) (id_pc d) (id_inst d) (id_inst_size d) (id_rd d)
      (cs_fp_reg_write (id_ctrl d)) (id_ctrl d) p old = (r, Some (rob_next_tag (en_rob g)))" "k \<le> rob_free_slots r"
    using rob_allocate_free [of "en_rob g"] room(1) by fastforce
  let ?tag = "rob_next_tag (en_rob g)"
  let ?g1 = "g\<lparr>en_rob := r, en_free_list := l,
       en_rename_map := (if needs_dst d then rm_set (id_rd d) (cs_fp_reg_write (id_ctrl d)) p (en_rename_map g) else en_rename_map g),
       en_prf := (if needs_dst d then prf_allocate p (en_prf g) else en_prf g)\<rparr>"
  obtain g2 where mem: "rename_mem d ?tag (?g1\<lparr>en_rob := en_rob g, en_free_list := en_free_list g\<rparr>) = (g2, True)"
      "k \<le> sb_free_slots (en_store_buffer g2)" "k \<le> lq_free_slots (en_load_queue g2)"
    using rename_mem_room [of k "?g1\<lparr>en_rob := en_rob g, en_free_list := en_free_list g\<rparr>" d ?tag] assms
    by (auto simp: has_room_def)
  then obtain g2' where mem': "rename_mem d ?tag ?g1 = (g2', True)" "en_store_buffer g2' = en_store_buffer g2"
      "en_load_queue g2' = en_load_queue g2"
    by (auto simp: rename_mem_def Let_def split: if_splits prod.splits)
  note mf = rename_mem_fields [OF mem'(1)]
  have "en_checkpoints g2' = en_checkpoints g" using mf by simp
  then obtain g3 where "rename_checkpoint d ?tag g2' = Some g3" "ct_wf (en_checkpoints g3)"
      "rob_free_slots (en_rob g3) = rob_free_slots (en_rob g2')" "en_store_buffer g3 = en_store_buffer g2'"
      "en_load_queue g3 = en_load_queue g2'" "en_free_list g3 = en_free_list g2'" "en_has_prf g3 = en_has_prf g2'"
    using rename_checkpoint_room [of g2' d ?tag] room(3) False by auto
  moreover from this have "has_room k g3"
    using mem(2,3) mem'(2,3) mf alloc(2) dst(2) by (simp add: has_room_def)
  ultimately show ?thesis
    using False dst(1) alloc(1) mem'(1) mf assms(2) by (simp add: rename_o3_def Let_def)
qed

lemma rename_inorder_progress:
  assumes "has_room (Suc k) g" "\<not> en_has_prf g"
  shows "\<exists>g' e. rename_inorder d g = Rn_Done g' e \<and> has_room k g' \<and> \<not> en_has_prf g' \<and> same_inst d e"
proof -
  have room: "Suc k \<le> rob_free_slots (en_rob g)" "Suc k \<le> sb_free_slots (en_store_buffer g)"
    using assms by (simp_all add: has_room_def)
  let ?tag = "rob_next_tag (en_rob g)"
  obtain r where "rob_allocate (en_rob g) (id_pc d) (id_inst d) (id_inst_size d) (id_rd d)
      (cs_fp_reg_write (id_ctrl d)) (id_ctrl d) 0 0 = (r, Some ?tag)" "k \<le> rob_free_slots r"
    using rob_allocate_free [of "en_rob g"] room(1) by fastforce
  moreover obtain b where "sb_allocate (en_store_buffer g) ?tag (cs_width (id_ctrl d)) = (b, True)" "k \<le> sb_free_slots b"
    using sb_allocate_free [of "en_store_buffer g"] room(2) by fastforce
  ultimately show ?thesis
    using room assms(2) by (auto simp: rename_inorder_def Let_def has_room_def)
qed

lemma rename_loop_0: "rename_loop 0 input out g ds = Some (input @ ds, g, out)"
  by (induction ds arbitrary: input) simp_all

lemma rename_loop_keeps:
  assumes "has_room budget g"
  shows "\<exists>k g' es. k \<le> budget \<and> k \<le> length ds \<and> list_all2 same_inst (take k ds) es
    \<and> rename_loop budget input out g ds = Some (input @ drop k ds, g', out @ es)"
  using assms
proof (induction ds arbitrary: budget g input out)
  case (Cons d ds)
  show ?case
  proof (cases budget)
    case 0
    then show ?thesis by (intro exI [of _ 0]) (auto simp: rename_loop_0)
  next
    case (Suc b)
    let ?one = "if en_has_prf g then rename_o3 d g else rename_inorder d g"
    have "?one = Rn_Stall \<or> (\<exists>g' e. ?one = Rn_Done g' e \<and> has_room b g' \<and> same_inst d e)"
      using rename_o3_progress [of b g d] rename_inorder_progress [of b g d] Cons.prems Suc by auto
    then consider (stall) "?one = Rn_Stall" | (ok) g1 e where "?one = Rn_Done g1 e" "has_room b g1" "same_inst d e"
      by blast
    then show ?thesis
    proof cases
      case stall
      then show ?thesis using Suc by (intro exI [of _ 0]) (auto simp: rename_loop_0)
    next
      case ok
      from Cons.IH [OF ok(2), of input "out @ [e]"] obtain k g' es where
          "k \<le> b" "k \<le> length ds" "list_all2 same_inst (take k ds) es"
          "rename_loop b input (out @ [e]) g1 ds = Some (input @ drop k ds, g', (out @ [e]) @ es)"
        by blast
      with ok Suc show ?thesis
        by (intro exI [of _ "Suc k"] exI [of _ g'] exI [of _ "e # es"]) simp
    qed
  qed
qed simp

lemma can_accept_room:
  "en_has_prf g \<longrightarrow> ct_wf (en_checkpoints g) \<Longrightarrow> has_room (can_accept iq g) g \<and> can_accept iq g \<le> iq \<and> can_accept iq g \<le> en_width g"
  by (auto simp: can_accept_def has_room_def)

subsection \<open>Properties\<close>

text \<open>C17. The rename stage loses and duplicates no instruction. With the budget from \<open>can_accept\<close> the
  first instructions of the input, at most as many as the issue queue has slots and as the width
  allows, come out renamed in order, and all the others stay in the input in order: none of the
  \<open>break\<close> exits of the loop, which would drop the rest of the group, and no panic is reachable, for
  the out-of-order and for the in-order engine.\<close>

theorem rename_stage_loses_nothing:
  assumes "en_has_prf g \<longrightarrow> ct_wf (en_checkpoints g)"
  shows "\<exists>k g' es. k \<le> iq_free \<and> k \<le> en_width g \<and> k \<le> length ds \<and> list_all2 same_inst (take k ds) es
    \<and> rename_stage iq_free ds g out = Some (drop k ds, g', out @ es)"
  using rename_loop_keeps [of "can_accept iq_free g" g ds "[]" out] can_accept_room [OF assms, of iq_free]
  unfolding rename_stage_def by (metis append_Nil le_trans)

definition id_ex_nop :: id_ex_entry where
  "id_ex_nop = \<lparr> id_pc = 0, id_inst = 0x13, id_inst_size = Standard, id_rs1 = 0, id_rs2 = 0, id_rs3 = 0,
     id_rd = 0, id_imm = 0, id_rv1 = 0, id_rv2 = 0, id_rv3 = 0, id_ctrl = default_ctrl, id_trap = None,
     id_exception_stage = None, id_pred_taken = False, id_pred_target = 0, id_ghr_snapshot = ghr_default,
     id_ras_snapshot = 0 \<rparr>"

theorem rename_stage_loses_nothing_witness:
  "ct_wf (en_checkpoints (o3_new 4 4 4 70 2 1)) \<and>
   (\<exists>k g' es. k \<le> 1 \<and> k \<le> 2 \<and> list_all2 same_inst (take k [id_ex_nop, id_ex_nop]) es
    \<and> rename_stage 1 [id_ex_nop, id_ex_nop] (o3_new 4 4 4 70 2 1) [] = Some (drop k [id_ex_nop, id_ex_nop], g', es))"
proof -
  have "ct_wf (en_checkpoints (o3_new 4 4 4 70 2 1))" by (simp add: o3_new_def ct_new_def ct_wf_def)
  moreover have "en_width (o3_new 4 4 4 70 2 1) = 2" by (simp add: o3_new_def)
  ultimately show ?thesis
    using rename_stage_loses_nothing [of "o3_new 4 4 4 70 2 1" 1 "[id_ex_nop, id_ex_nop]" "[]"] by auto
qed

end
