(* ===== verification/Csr.thy ===== *)
theory Csr
  imports Signals
begin

text \<open>
  Control and status registers as the architecture module defines them (\<open>core/arch/csr.rs\<close>):
  the addresses, the fields of the status, interrupt and translation registers, the register file
  \<open>Csrs\<close> with its plain read and write, the serialization classes, the privilege modes
  (\<open>core/arch/mode.rs\<close>) and the mapping of interrupt bits to traps (\<open>core/arch/trap.rs\<close>).

  A field is kept in the form the source gives it, a shifted constant, and the collection
  \<open>csr_bits\<close> says which bits it has; the proofs about status registers work bit by bit.
\<close>

named_theorems csr_addrs \<open>addresses of the control and status registers\<close>
named_theorems csr_fields \<open>fields and masks of the control and status registers\<close>

subsection \<open>Addresses\<close>

definition FFLAGS :: csr_addr where
  [csr_addrs]: "FFLAGS = 0x001"

definition FRM :: csr_addr where
  [csr_addrs]: "FRM = 0x002"

definition FCSR :: csr_addr where
  [csr_addrs]: "FCSR = 0x003"

definition MVENDORID :: csr_addr where
  [csr_addrs]: "MVENDORID = 0xF11"

definition MARCHID :: csr_addr where
  [csr_addrs]: "MARCHID = 0xF12"

definition MIMPID :: csr_addr where
  [csr_addrs]: "MIMPID = 0xF13"

definition MHARTID :: csr_addr where
  [csr_addrs]: "MHARTID = 0xF14"

definition MSTATUS :: csr_addr where
  [csr_addrs]: "MSTATUS = 0x300"

definition MISA :: csr_addr where
  [csr_addrs]: "MISA = 0x301"

definition MEDELEG :: csr_addr where
  [csr_addrs]: "MEDELEG = 0x302"

definition MIDELEG :: csr_addr where
  [csr_addrs]: "MIDELEG = 0x303"

definition MIE :: csr_addr where
  [csr_addrs]: "MIE = 0x304"

definition MTVEC :: csr_addr where
  [csr_addrs]: "MTVEC = 0x305"

definition MCOUNTEREN :: csr_addr where
  [csr_addrs]: "MCOUNTEREN = 0x306"

definition MENVCFG :: csr_addr where
  [csr_addrs]: "MENVCFG = 0x30A"

definition MSCRATCH :: csr_addr where
  [csr_addrs]: "MSCRATCH = 0x340"

definition MEPC :: csr_addr where
  [csr_addrs]: "MEPC = 0x341"

definition MCAUSE :: csr_addr where
  [csr_addrs]: "MCAUSE = 0x342"

definition MTVAL :: csr_addr where
  [csr_addrs]: "MTVAL = 0x343"

definition MIP :: csr_addr where
  [csr_addrs]: "MIP = 0x344"

definition SSTATUS :: csr_addr where
  [csr_addrs]: "SSTATUS = 0x100"

definition SIE :: csr_addr where
  [csr_addrs]: "SIE = 0x104"

definition STVEC :: csr_addr where
  [csr_addrs]: "STVEC = 0x105"

definition SCOUNTEREN :: csr_addr where
  [csr_addrs]: "SCOUNTEREN = 0x106"

definition SSCRATCH :: csr_addr where
  [csr_addrs]: "SSCRATCH = 0x140"

definition SEPC :: csr_addr where
  [csr_addrs]: "SEPC = 0x141"

definition SCAUSE :: csr_addr where
  [csr_addrs]: "SCAUSE = 0x142"

definition STVAL :: csr_addr where
  [csr_addrs]: "STVAL = 0x143"

definition SIP :: csr_addr where
  [csr_addrs]: "SIP = 0x144"

definition SATP :: csr_addr where
  [csr_addrs]: "SATP = 0x180"

definition STIMECMP :: csr_addr where
  [csr_addrs]: "STIMECMP = 0x14D"

definition CYCLE :: csr_addr where
  [csr_addrs]: "CYCLE = 0xC00"

definition TIME :: csr_addr where
  [csr_addrs]: "TIME = 0xC01"

definition INSTRET :: csr_addr where
  [csr_addrs]: "INSTRET = 0xC02"

definition MCYCLE :: csr_addr where
  [csr_addrs]: "MCYCLE = 0xB00"

definition MINSTRET :: csr_addr where
  [csr_addrs]: "MINSTRET = 0xB02"

definition CSR_SIM_PANIC :: csr_addr where
  [csr_addrs]: "CSR_SIM_PANIC = 0x8FF"

subsection \<open>Fields\<close>

definition MENVCFG_STCE :: u64 where
  [csr_fields]: "MENVCFG_STCE = push_bit 63 1"

definition MSTATUS_SIE :: u64 where
  [csr_fields]: "MSTATUS_SIE = push_bit 1 1"

definition MSTATUS_MIE :: u64 where
  [csr_fields]: "MSTATUS_MIE = push_bit 3 1"

definition MIE_SSIP :: u64 where
  [csr_fields]: "MIE_SSIP = push_bit 1 1"

definition MIE_MSIP :: u64 where
  [csr_fields]: "MIE_MSIP = push_bit 3 1"

definition MIE_STIE :: u64 where
  [csr_fields]: "MIE_STIE = push_bit 5 1"

definition MIE_MTIE :: u64 where
  [csr_fields]: "MIE_MTIE = push_bit 7 1"

definition MIE_SEIP :: u64 where
  [csr_fields]: "MIE_SEIP = push_bit 9 1"

definition MIE_MEIP :: u64 where
  [csr_fields]: "MIE_MEIP = push_bit 11 1"

definition MIP_USIP :: u64 where
  [csr_fields]: "MIP_USIP = push_bit 0 1"

definition MIP_SSIP :: u64 where
  [csr_fields]: "MIP_SSIP = push_bit 1 1"

definition MIP_MSIP :: u64 where
  [csr_fields]: "MIP_MSIP = push_bit 3 1"

definition MIP_STIP :: u64 where
  [csr_fields]: "MIP_STIP = push_bit 5 1"

definition MIP_MTIP :: u64 where
  [csr_fields]: "MIP_MTIP = push_bit 7 1"

definition MIP_UEIP :: u64 where
  [csr_fields]: "MIP_UEIP = push_bit 8 1"

definition MIP_SEIP :: u64 where
  [csr_fields]: "MIP_SEIP = push_bit 9 1"

definition MIP_MEIP :: u64 where
  [csr_fields]: "MIP_MEIP = push_bit 11 1"

definition MSTATUS_SPIE :: u64 where
  [csr_fields]: "MSTATUS_SPIE = push_bit 5 1"

definition MSTATUS_MPIE :: u64 where
  [csr_fields]: "MSTATUS_MPIE = push_bit 7 1"

definition MSTATUS_SPP :: u64 where
  [csr_fields]: "MSTATUS_SPP = push_bit 8 1"

definition MSTATUS_MPP :: u64 where
  [csr_fields]: "MSTATUS_MPP = push_bit 11 3"

definition MSTATUS_MPP_SHIFT :: nat where
  [csr_fields]: "MSTATUS_MPP_SHIFT = 11"

definition MSTATUS_MPP_MASK :: u64 where
  [csr_fields]: "MSTATUS_MPP_MASK = 3"

definition MSTATUS_FS :: u64 where
  [csr_fields]: "MSTATUS_FS = push_bit 13 3"

definition MSTATUS_FS_INIT :: u64 where
  [csr_fields]: "MSTATUS_FS_INIT = push_bit 13 1"

definition MSTATUS_FS_DIRTY :: u64 where
  [csr_fields]: "MSTATUS_FS_DIRTY = push_bit 13 3"

definition MSTATUS_SD :: u64 where
  [csr_fields]: "MSTATUS_SD = push_bit 63 1"

definition MSTATUS_MPRV :: u64 where
  [csr_fields]: "MSTATUS_MPRV = push_bit 17 1"

definition MSTATUS_SUM :: u64 where
  [csr_fields]: "MSTATUS_SUM = push_bit 18 1"

definition MSTATUS_MXR :: u64 where
  [csr_fields]: "MSTATUS_MXR = push_bit 19 1"

definition MSTATUS_TVM :: u64 where
  [csr_fields]: "MSTATUS_TVM = push_bit 20 1"

definition MSTATUS_TW :: u64 where
  [csr_fields]: "MSTATUS_TW = push_bit 21 1"

definition MSTATUS_TSR :: u64 where
  [csr_fields]: "MSTATUS_TSR = push_bit 22 1"

definition MSTATUS_UXL :: u64 where
  [csr_fields]: "MSTATUS_UXL = push_bit 32 3"

definition MSTATUS_SXL :: u64 where
  [csr_fields]: "MSTATUS_SXL = push_bit 34 3"

definition SATP_MODE_SHIFT :: nat where
  [csr_fields]: "SATP_MODE_SHIFT = 60"

definition SATP_MODE_BARE :: u64 where
  [csr_fields]: "SATP_MODE_BARE = 0"

definition SATP_MODE_SV39 :: u64 where
  [csr_fields]: "SATP_MODE_SV39 = 8"

definition SATP_MODE_MASK :: u64 where
  [csr_fields]: "SATP_MODE_MASK = 0xF"

definition SATP_PPN_MASK :: u64 where
  [csr_fields]: "SATP_PPN_MASK = 0xFFFFFFFFFFF"

definition SATP_ASID_SHIFT :: nat where
  [csr_fields]: "SATP_ASID_SHIFT = 44"

definition SATP_ASID_MASK :: u64 where
  [csr_fields]: "SATP_ASID_MASK = 0xFFFF"

definition MISA_EXT_A :: u64 where
  [csr_fields]: "MISA_EXT_A = push_bit 0 1"

definition MISA_EXT_C :: u64 where
  [csr_fields]: "MISA_EXT_C = push_bit 2 1"

definition MISA_EXT_D :: u64 where
  [csr_fields]: "MISA_EXT_D = push_bit 3 1"

definition MISA_EXT_F :: u64 where
  [csr_fields]: "MISA_EXT_F = push_bit 5 1"

definition MISA_EXT_I :: u64 where
  [csr_fields]: "MISA_EXT_I = push_bit 8 1"

definition MISA_EXT_M :: u64 where
  [csr_fields]: "MISA_EXT_M = push_bit 12 1"

definition MISA_EXT_S :: u64 where
  [csr_fields]: "MISA_EXT_S = push_bit 18 1"

definition MISA_EXT_U :: u64 where
  [csr_fields]: "MISA_EXT_U = push_bit 20 1"

definition MISA_XLEN_64 :: u64 where
  [csr_fields]: "MISA_XLEN_64 = push_bit 62 2"

definition MSTATUS_DEFAULT_RV64 :: u64 where
  [csr_fields]: "MSTATUS_DEFAULT_RV64 = 0xa00000000"

definition MISA_DEFAULT_RV64IMAFDC :: u64 where
  [csr_fields]: "MISA_DEFAULT_RV64IMAFDC = 0x800000000014112D"

subsection \<open>Privilege modes and interrupts\<close>

datatype privilege_mode = User | Supervisor | Machine

fun privilege_to_u8 :: "privilege_mode \<Rightarrow> u8" where
  "privilege_to_u8 User = 0"
| "privilege_to_u8 Supervisor = 1"
| "privilege_to_u8 Machine = 3"

definition privilege_from_u8 :: "u8 \<Rightarrow> privilege_mode" where
  "privilege_from_u8 v = (if v = 0 then User else if v = 1 then Supervisor else Machine)"

text \<open>The derived ordering of the enum is the order of its variants.\<close>

instantiation privilege_mode :: linorder
begin

definition less_eq_privilege_mode :: "privilege_mode \<Rightarrow> privilege_mode \<Rightarrow> bool" where
  "less_eq_privilege_mode p q \<longleftrightarrow> privilege_to_u8 p \<le> privilege_to_u8 q"

definition less_privilege_mode :: "privilege_mode \<Rightarrow> privilege_mode \<Rightarrow> bool" where
  "less_privilege_mode p q \<longleftrightarrow> privilege_to_u8 p < privilege_to_u8 q"

instance
proof
  fix x y z :: privilege_mode
  show "x < y \<longleftrightarrow> x \<le> y \<and> \<not> y \<le> x"
    by (auto simp: less_eq_privilege_mode_def less_privilege_mode_def)
  show "x \<le> x" by (simp add: less_eq_privilege_mode_def)
  show "x \<le> z" if "x \<le> y" "y \<le> z" using that by (simp add: less_eq_privilege_mode_def)
  show "x = y" if "x \<le> y" "y \<le> x"
    using that by (cases x; cases y) (simp_all add: less_eq_privilege_mode_def word_le_nat_alt)
  show "x \<le> y \<or> y \<le> x" by (auto simp: less_eq_privilege_mode_def)
qed

end

definition irq_to_trap :: "u64 \<Rightarrow> trap" where
  "irq_to_trap b =
    (if b = MIP_USIP then UserSoftwareInterrupt
     else if b = MIP_SSIP then SupervisorSoftwareInterrupt
     else if b = MIP_MSIP then MachineSoftwareInterrupt
     else if b = MIP_STIP then SupervisorTimerInterrupt
     else if b = MIP_UEIP then UserExternalInterrupt
     else if b = MIP_SEIP then SupervisorExternalInterrupt
     else if b = MIP_MEIP then MachineExternalInterrupt
     else MachineTimerInterrupt)"

subsection \<open>The register file\<close>

record csrs =
  csr_mstatus :: u64
  csr_misa :: u64
  csr_medeleg :: u64
  csr_mideleg :: u64
  csr_mie :: u64
  csr_mtvec :: u64
  csr_mscratch :: u64
  csr_mepc :: u64
  csr_mcause :: u64
  csr_mtval :: u64
  csr_mip :: u64
  csr_sstatus :: u64
  csr_sie :: u64
  csr_stvec :: u64
  csr_sscratch :: u64
  csr_sepc :: u64
  csr_scause :: u64
  csr_stval :: u64
  csr_sip :: u64
  csr_satp :: u64
  csr_cycle :: u64
  csr_time :: u64
  csr_instret :: u64
  csr_mcycle :: u64
  csr_minstret :: u64
  csr_stimecmp :: u64
  csr_fflags :: u64
  csr_frm :: u64
  csr_mcounteren :: u64
  csr_scounteren :: u64
  csr_menvcfg :: u64

definition csrs_default :: csrs where
  "csrs_default = \<lparr> csr_mstatus = 0, csr_misa = 0, csr_medeleg = 0, csr_mideleg = 0, csr_mie = 0, csr_mtvec = 0, csr_mscratch = 0, csr_mepc = 0, csr_mcause = 0, csr_mtval = 0, csr_mip = 0, csr_sstatus = 0, csr_sie = 0, csr_stvec = 0, csr_sscratch = 0, csr_sepc = 0, csr_scause = 0, csr_stval = 0, csr_sip = 0, csr_satp = 0, csr_cycle = 0, csr_time = 0, csr_instret = 0, csr_mcycle = 0, csr_minstret = 0, csr_stimecmp = 0, csr_fflags = 0, csr_frm = 0, csr_mcounteren = 0, csr_scounteren = 0, csr_menvcfg = 0 \<rparr>"

definition with_sd :: "u64 \<Rightarrow> u64" where
  "with_sd status =
    (let val = status AND NOT MSTATUS_SD
     in if val AND MSTATUS_FS = MSTATUS_FS_DIRTY then val OR MSTATUS_SD else val)"

definition csrs_read :: "csrs \<Rightarrow> csr_addr \<Rightarrow> u64" where
  "csrs_read c a =
    (if a = FFLAGS then csr_fflags c AND 0x1F
     else if a = FRM then csr_frm c AND 0x7
     else if a = FCSR then push_bit 5 (csr_frm c AND 0x7) OR (csr_fflags c AND 0x1F)
     else if a = MSTATUS then with_sd (csr_mstatus c)
     else if a = MISA then csr_misa c
     else if a = MEDELEG then csr_medeleg c
     else if a = MIDELEG then csr_mideleg c
     else if a = MIE then csr_mie c
     else if a = MTVEC then csr_mtvec c
     else if a = MSCRATCH then csr_mscratch c
     else if a = MEPC then csr_mepc c
     else if a = MCAUSE then csr_mcause c
     else if a = MTVAL then csr_mtval c
     else if a = MIP then csr_mip c
     else if a = SSTATUS then with_sd (csr_sstatus c)
     else if a = SIE then csr_sie c
     else if a = STVEC then csr_stvec c
     else if a = SSCRATCH then csr_sscratch c
     else if a = SEPC then csr_sepc c
     else if a = SCAUSE then csr_scause c
     else if a = STVAL then csr_stval c
     else if a = SIP then csr_sip c
     else if a = SATP then csr_satp c
     else if a = CYCLE then csr_cycle c
     else if a = TIME then csr_time c
     else if a = INSTRET then csr_instret c
     else if a = MCYCLE then csr_mcycle c
     else if a = MINSTRET then csr_minstret c
     else if a = MCOUNTEREN then csr_mcounteren c
     else if a = SCOUNTEREN then csr_scounteren c
     else if a = MENVCFG then csr_menvcfg c
     else 0)"

definition csrs_write :: "csr_addr \<Rightarrow> u64 \<Rightarrow> csrs \<Rightarrow> csrs" where
  "csrs_write a val c =
    (if a = FFLAGS then c\<lparr> csr_fflags := val AND 0x1F \<rparr>
     else if a = FRM then c\<lparr> csr_frm := val AND 0x7 \<rparr>
     else if a = FCSR then c\<lparr> csr_fflags := val AND 0x1F, csr_frm := drop_bit 5 val AND 0x7 \<rparr>
     else if a = MSTATUS then c\<lparr> csr_mstatus := val \<rparr>
     else if a = MISA then c\<lparr> csr_misa := val \<rparr>
     else if a = MEDELEG then c\<lparr> csr_medeleg := val \<rparr>
     else if a = MIDELEG then c\<lparr> csr_mideleg := val \<rparr>
     else if a = MIE then c\<lparr> csr_mie := val \<rparr>
     else if a = MTVEC then c\<lparr> csr_mtvec := val \<rparr>
     else if a = MSCRATCH then c\<lparr> csr_mscratch := val \<rparr>
     else if a = MEPC then c\<lparr> csr_mepc := val \<rparr>
     else if a = MCAUSE then c\<lparr> csr_mcause := val \<rparr>
     else if a = MTVAL then c\<lparr> csr_mtval := val \<rparr>
     else if a = MIP then c\<lparr> csr_mip := val \<rparr>
     else if a = SSTATUS then c\<lparr> csr_sstatus := val \<rparr>
     else if a = SIE then c\<lparr> csr_sie := val \<rparr>
     else if a = STVEC then c\<lparr> csr_stvec := val \<rparr>
     else if a = SSCRATCH then c\<lparr> csr_sscratch := val \<rparr>
     else if a = SEPC then c\<lparr> csr_sepc := val \<rparr>
     else if a = SCAUSE then c\<lparr> csr_scause := val \<rparr>
     else if a = STVAL then c\<lparr> csr_stval := val \<rparr>
     else if a = SIP then c\<lparr> csr_sip := val \<rparr>
     else if a = SATP then
       (let mode = drop_bit SATP_MODE_SHIFT val AND SATP_MODE_MASK;
            new_mode = (if mode = SATP_MODE_SV39 then SATP_MODE_SV39 else SATP_MODE_BARE);
            msk = NOT (push_bit SATP_MODE_SHIFT SATP_MODE_MASK)
        in c\<lparr> csr_satp := (val AND msk) OR push_bit SATP_MODE_SHIFT new_mode \<rparr>)
     else if a = CYCLE then c\<lparr> csr_cycle := val \<rparr>
     else if a = TIME then c\<lparr> csr_time := val \<rparr>
     else if a = INSTRET then c\<lparr> csr_instret := val \<rparr>
     else if a = MCYCLE then c\<lparr> csr_mcycle := val \<rparr>
     else if a = MINSTRET then c\<lparr> csr_minstret := val \<rparr>
     else if a = MCOUNTEREN then c\<lparr> csr_mcounteren := val \<rparr>
     else if a = SCOUNTEREN then c\<lparr> csr_scounteren := val \<rparr>
     else c)"

datatype csr_serialization = FenceRequired | Serializing | Relaxed

definition csr_serialization_type :: "csr_addr \<Rightarrow> csr_serialization" where
  "csr_serialization_type a =
    (if a = SATP then FenceRequired
     else if a = MSTATUS \<or> a = SSTATUS \<or> a = MTVEC \<or> a = STVEC \<or> a = MEDELEG \<or> a = MIDELEG then Serializing
     else Relaxed)"

text \<open>Address decoding of \<open>common/csr_addr.rs\<close>.\<close>

definition csr_privilege_level :: "csr_addr \<Rightarrow> u8" where
  "csr_privilege_level a = ucast (drop_bit 8 a AND 3)"

definition csr_is_read_only :: "csr_addr \<Rightarrow> bool" where
  "csr_is_read_only a \<longleftrightarrow> drop_bit 10 a AND 3 = 3"

end
