(* ===== verification/Pmp.thy ===== *)
theory Pmp
  imports Signals
begin

text \<open>
  Physical memory protection (\<open>core/units/mmu/pmp.rs\<close>): sixteen entries of a configuration byte
  and an address register, the three address-matching modes, and the check that the first entry
  covering an access decides.

  The properties: a NAPOT entry covers exactly the addresses that agree with its register above
  the run of trailing ones, the lowest-numbered covering entry decides the check, and an entry
  whose lock bit is set keeps its configuration and address through every sequence of register
  writes. The lower end of a locked top-of-range entry is the address register of the entry below
  it, and that one is not protected.
\<close>

subsection \<open>Entries\<close>

definition PMP_COUNT :: nat where
  "PMP_COUNT = 16"

datatype pmp_addr_match = Pmp_Off | Pmp_Tor | Pmp_Na4 | Pmp_Napot

datatype pmp_result = Pmp_Allow | Pmp_Deny | Pmp_NoMatch

record pmp_entry =
  pe_cfg :: u8
  pe_addr :: u64

definition pmp_match_from_bits :: "u8 \<Rightarrow> pmp_addr_match" where
  "pmp_match_from_bits bits =
    (if bits AND 3 = 0 then Pmp_Off else if bits AND 3 = 1 then Pmp_Tor
     else if bits AND 3 = 2 then Pmp_Na4 else Pmp_Napot)"

definition pmp_match_mode :: "pmp_entry \<Rightarrow> pmp_addr_match" where
  "pmp_match_mode e = pmp_match_from_bits (drop_bit 3 (pe_cfg e) AND 3)"

definition pmp_is_readable :: "pmp_entry \<Rightarrow> bool" where
  "pmp_is_readable e \<longleftrightarrow> pe_cfg e AND 1 \<noteq> 0"

definition pmp_is_writable :: "pmp_entry \<Rightarrow> bool" where
  "pmp_is_writable e \<longleftrightarrow> pe_cfg e AND 2 \<noteq> 0"

definition pmp_is_executable :: "pmp_entry \<Rightarrow> bool" where
  "pmp_is_executable e \<longleftrightarrow> pe_cfg e AND 4 \<noteq> 0"

definition pmp_is_locked :: "pmp_entry \<Rightarrow> bool" where
  "pmp_is_locked e \<longleftrightarrow> pe_cfg e AND 0x80 \<noteq> 0"

subsection \<open>The unit and its registers\<close>

record pmp =
  pm_entries :: "pmp_entry list"

definition pmp_new :: pmp where
  "pmp_new = \<lparr> pm_entries = replicate PMP_COUNT \<lparr> pe_cfg = 0, pe_addr = 0 \<rparr> \<rparr>"

definition pmp_set_cfg :: "nat \<Rightarrow> u8 \<Rightarrow> pmp \<Rightarrow> pmp" where
  "pmp_set_cfg idx cfg p =
    (if idx < length (pm_entries p) then
       if pe_cfg (pm_entries p ! idx) AND 0x80 \<noteq> 0 then p
       else p\<lparr> pm_entries := (pm_entries p)[idx := (pm_entries p ! idx)\<lparr> pe_cfg := cfg \<rparr>] \<rparr>
     else p)"

definition pmp_set_addr :: "nat \<Rightarrow> u64 \<Rightarrow> pmp \<Rightarrow> pmp" where
  "pmp_set_addr idx addr p =
    (if idx < length (pm_entries p) then
       if pe_cfg (pm_entries p ! idx) AND 0x80 \<noteq> 0 then p
       else p\<lparr> pm_entries := (pm_entries p)[idx := (pm_entries p ! idx)\<lparr> pe_addr := addr \<rparr>] \<rparr>
     else p)"

definition pmp_get_cfg :: "pmp \<Rightarrow> nat \<Rightarrow> u8" where
  "pmp_get_cfg p idx = (if idx < length (pm_entries p) then pe_cfg (pm_entries p ! idx) else 0)"

definition pmp_get_addr :: "pmp \<Rightarrow> nat \<Rightarrow> u64" where
  "pmp_get_addr p idx = (if idx < length (pm_entries p) then pe_addr (pm_entries p ! idx) else 0)"

subsection \<open>Address ranges\<close>

text \<open>\<open>u64::trailing_zeros\<close>: 64 for zero.\<close>

definition trailing_zeros :: "u64 \<Rightarrow> nat" where
  "trailing_zeros x = length (takeWhile (\<lambda>i. \<not> bit x i) [0..<64])"

definition napot_range :: "u64 \<Rightarrow> u64 \<times> u64" where
  "napot_range pmpaddr =
    (let trailing = trailing_zeros (NOT pmpaddr);
         size_bits = trailing + 3
     in if 64 \<le> size_bits then (0, - 1)
        else let size = push_bit size_bits (1 :: u64);
                 msk = size - 1;
                 base = push_bit 2 pmpaddr AND NOT msk
             in (base, base + size))"

definition na4_range :: "u64 \<Rightarrow> u64 \<times> u64" where
  "na4_range pmpaddr = (let base = push_bit 2 pmpaddr in (base, base + 4))"

text \<open>The range of one entry; \<open>prev\<close> is the address register below it, if there is one.\<close>

definition pmp_range :: "u64 option \<Rightarrow> pmp_entry \<Rightarrow> (u64 \<times> u64) option" where
  "pmp_range prev e =
    (case pmp_match_mode e of
       Pmp_Off \<Rightarrow> None
     | Pmp_Tor \<Rightarrow> Some (case prev of None \<Rightarrow> 0 | Some a \<Rightarrow> push_bit 2 a, push_bit 2 (pe_addr e))
     | Pmp_Na4 \<Rightarrow> Some (na4_range (pe_addr e))
     | Pmp_Napot \<Rightarrow> Some (napot_range (pe_addr e)))"

subsection \<open>The check\<close>

definition pmp_permits :: "pmp_entry \<Rightarrow> bool \<Rightarrow> bool \<Rightarrow> bool \<Rightarrow> bool" where
  "pmp_permits e is_read is_write is_exec \<longleftrightarrow>
     (\<not> is_read \<or> pmp_is_readable e) \<and> (\<not> is_write \<or> pmp_is_writable e) \<and> (\<not> is_exec \<or> pmp_is_executable e)"

fun pmp_check_loop :: "u64 \<Rightarrow> u64 \<Rightarrow> bool \<Rightarrow> bool \<Rightarrow> bool \<Rightarrow> bool \<Rightarrow> u64 option \<Rightarrow> pmp_entry list \<Rightarrow> pmp_result" where
  "pmp_check_loop byte_addr access_end r w x m prev [] = (if m then Pmp_Allow else Pmp_NoMatch)"
| "pmp_check_loop byte_addr access_end r w x m prev (e # es) =
    (case pmp_range prev e of
       None \<Rightarrow> pmp_check_loop byte_addr access_end r w x m (Some (pe_addr e)) es
     | Some (lo, hi) \<Rightarrow>
         if lo \<le> byte_addr \<and> access_end \<le> hi
         then (if m \<and> \<not> pmp_is_locked e then Pmp_Allow
               else if pmp_permits e r w x then Pmp_Allow else Pmp_Deny)
         else pmp_check_loop byte_addr access_end r w x m (Some (pe_addr e)) es)"

definition pmp_check :: "pmp \<Rightarrow> u64 \<Rightarrow> u64 \<Rightarrow> bool \<Rightarrow> bool \<Rightarrow> bool \<Rightarrow> bool \<Rightarrow> pmp_result" where
  "pmp_check p byte_addr sz is_read is_write is_exec is_machine_mode =
     pmp_check_loop byte_addr (byte_addr + sz) is_read is_write is_exec is_machine_mode None (pm_entries p)"

subsection \<open>Trailing ones and the NAPOT range\<close>

lemma trailing_zeros_le: "trailing_zeros x \<le> 64"
  using length_takeWhile_le [of "\<lambda>i. \<not> bit x i" "[0..<64]"] by (simp add: trailing_zeros_def)

lemma trailing_zeros_bits:
  "i < trailing_zeros x \<Longrightarrow> \<not> bit x i"
  "trailing_zeros x < 64 \<Longrightarrow> bit x (trailing_zeros x)"
proof -
  let ?p = "\<lambda>i. \<not> bit x i"
  let ?tw = "takeWhile ?p [0..<64]"
  have eq: "?tw = take (length ?tw) [0..<64]" by (metis takeWhile_eq_take)
  show "\<not> bit x i" if "i < trailing_zeros x"
  proof -
    have l: "length ?tw \<le> 64" using length_takeWhile_le [of ?p "[0..<64]"] by simp
    have "?tw ! i \<in> set ?tw" using that by (simp add: trailing_zeros_def)
    moreover have "?tw ! i = i"
      using that l arg_cong [OF eq, of "\<lambda>l. l ! i"] by (simp add: trailing_zeros_def)
    ultimately show ?thesis using set_takeWhileD by metis
  qed
  show "bit x (trailing_zeros x)" if "trailing_zeros x < 64"
    using nth_length_takeWhile [of ?p "[0..<64]"] that by (simp add: trailing_zeros_def)
qed

lemma align_down_range:
  fixes a b :: u64
  assumes "k < 64" "unat (b AND NOT (push_bit k 1 - 1)) + 2 ^ k < 2 ^ 64"
  defines "base \<equiv> b AND NOT (push_bit k 1 - 1)"
  shows "base \<le> a \<and> a < base + push_bit k 1 \<longleftrightarrow> drop_bit k a = drop_bit k b"
proof -
  have base: "base = push_bit k (drop_bit k b)"
    by (rule bit_word_eqI) (auto simp: base_def bit_simps mask_eq_exp_minus_1 [symmetric] push_bit_of_1)
  have k: "unat (push_bit k 1 :: u64) = 2 ^ k" using assms(1) by (simp add: push_bit_of_1 unat_exp_u64)
  have sum: "unat (base + push_bit k 1) = unat base + 2 ^ k"
    using assms(2) k by (simp add: base_def unat_add_lem [THEN iffD1])
  have "unat (drop_bit k b) * 2 ^ k \<le> unat b"
    using div_times_less_eq_dividend [of "unat b" "2 ^ k"] by (simp add: unat_drop_bit)
  then have "unat (drop_bit k b) * 2 ^ k < 2 ^ 64"
    using unsigned_less [of b, where ?'a = nat] by simp
  then have ub: "unat base = 2 ^ k * unat (drop_bit k b)"
    unfolding base unsigned_push_bit_eq by (simp add: push_bit_eq_mult take_bit_nat_eq_self mult.commute)
  have "base \<le> a \<and> a < base + push_bit k 1 \<longleftrightarrow> 2 ^ k * unat (drop_bit k b) \<le> unat a \<and> unat a < 2 ^ k * unat (drop_bit k b) + 2 ^ k"
    by (simp add: word_le_nat_alt word_less_nat_alt sum [simplified] ub)
  also have "\<dots> \<longleftrightarrow> unat a div 2 ^ k = unat (drop_bit k b)"
  proof
    assume "unat a div 2 ^ k = unat (drop_bit k b)"
    then have "2 ^ k * unat (drop_bit k b) + unat a mod 2 ^ k = unat a"
      using mult_div_mod_eq [of "2 ^ k" "unat a"] by simp
    moreover have "unat a mod 2 ^ k < 2 ^ k" by simp
    ultimately show "2 ^ k * unat (drop_bit k b) \<le> unat a \<and> unat a < 2 ^ k * unat (drop_bit k b) + 2 ^ k"
      by linarith
  qed (auto intro!: div_nat_eqI simp: mult.commute)
  also have "\<dots> \<longleftrightarrow> drop_bit k a = drop_bit k b"
    by (simp add: word_unat_eq_iff unat_drop_bit)
  finally show ?thesis .
qed


lemma napot_size:
  fixes pmpaddr :: u64
  assumes "pmpaddr < 2 ^ 54"
  defines "t \<equiv> trailing_zeros (NOT pmpaddr)"
  shows "t + 3 < 64" "drop_bit (t + 3) (push_bit 2 pmpaddr) = drop_bit (t + 1) pmpaddr"
    "unat (push_bit 2 pmpaddr AND NOT (push_bit (t + 3) 1 - 1)) + 2 ^ (t + 3) < 2 ^ 64"
proof -
  have high: "\<not> bit pmpaddr i" if "54 \<le> i" for i
  proof -
    have "unat pmpaddr < 2 ^ 54" using assms(1) by (simp add: word_less_nat_alt)
    moreover have "(2::nat) ^ 54 \<le> 2 ^ i" using that by (intro power_increasing) simp_all
    ultimately have "unat (drop_bit i pmpaddr) = 0" by (simp add: unat_drop_bit)
    then show ?thesis by (simp add: unat_eq_0 bit_iff_odd_drop_bit)
  qed
  have low: "i < 54" if "bit pmpaddr i" for i using high [of i] that by (metis not_less)
  have "\<not> 54 < t"
  proof
    assume "54 < t"
    then have "\<not> bit (NOT pmpaddr) 54" using trailing_zeros_bits(1) [of 54 "NOT pmpaddr"] by (simp add: t_def)
    with high [of 54] show False by (simp add: bit_simps)
  qed
  then have t: "t \<le> 54" by simp
  then show "t + 3 < 64" by simp
  show "drop_bit (t + 3) (push_bit 2 pmpaddr) = drop_bit (t + 1) pmpaddr"
    using t by (intro bit_word_eqI) (auto simp: bit_simps dest: low)
  have "unat (push_bit 2 pmpaddr AND NOT (push_bit (t + 3) 1 - 1)) \<le> unat (push_bit 2 pmpaddr)"
    by (metis word_and_le1 word_le_nat_alt and.commute)
  also have "\<dots> < 2 ^ 56"
  proof -
    have "push_bit 2 pmpaddr = take_bit 56 (push_bit 2 pmpaddr)"
      by (intro bit_word_eqI) (auto simp: bit_simps dest: low)
    then have "unat (push_bit 2 pmpaddr) = take_bit 56 (unat (push_bit 2 pmpaddr))"
      by (metis unsigned_take_bit_eq)
    then show ?thesis by (metis take_bit_nat_less_exp)
  qed
  moreover have "(2::nat) ^ (t + 3) \<le> 2 ^ 57" using t by (intro power_increasing) simp_all
  ultimately show "unat (push_bit 2 pmpaddr AND NOT (push_bit (t + 3) 1 - 1)) + 2 ^ (t + 3) < 2 ^ 64" by simp
qed

text \<open>The configuration and address writes that reach the unit, in any order.\<close>

datatype pmp_write = Write_cfg nat u8 | Write_addr nat u64

fun pmp_apply :: "pmp_write \<Rightarrow> pmp \<Rightarrow> pmp" where
  "pmp_apply (Write_cfg i c) p = pmp_set_cfg i c p"
| "pmp_apply (Write_addr i a) p = pmp_set_addr i a p"

lemma pmp_apply_locked:
  "i < length (pm_entries p) \<Longrightarrow> pmp_is_locked (pm_entries p ! i) \<Longrightarrow>
   length (pm_entries (pmp_apply w p)) = length (pm_entries p) \<and> pm_entries (pmp_apply w p) ! i = pm_entries p ! i"
  by (cases w) (auto simp: pmp_set_cfg_def pmp_set_addr_def pmp_is_locked_def nth_list_update)

text \<open>The entries with their ranges, in order.\<close>

fun pmp_regions :: "u64 option \<Rightarrow> pmp_entry list \<Rightarrow> (pmp_entry \<times> u64 \<times> u64) list" where
  "pmp_regions prev [] = []"
| "pmp_regions prev (e # es) =
    (case pmp_range prev e of None \<Rightarrow> [] | Some (lo, hi) \<Rightarrow> [(e, lo, hi)]) @ pmp_regions (Some (pe_addr e)) es"

lemma pmp_check_loop_first:
  "pmp_check_loop a b r w x m prev es =
    (case find (\<lambda>(e, lo, hi). lo \<le> a \<and> b \<le> hi) (pmp_regions prev es) of
       None \<Rightarrow> if m then Pmp_Allow else Pmp_NoMatch
     | Some (e, _) \<Rightarrow> if m \<and> \<not> pmp_is_locked e \<or> pmp_permits e r w x then Pmp_Allow else Pmp_Deny)"
  by (induction es arbitrary: prev) (auto split: option.splits)

subsection \<open>Properties\<close>

text \<open>A NAPOT entry covers exactly its naturally aligned region: with \<open>t\<close> trailing ones in an
  address register of 54 bits (the width the RV64 register has), an address lies in the computed
  range if and only if it agrees with the register above the low \<open>t + 3\<close> bits. No shift or sum in
  the computation overflows.\<close>

theorem napot_range_exact:
  assumes "pmpaddr < 2 ^ 54"
  shows "(case napot_range pmpaddr of (lo, hi) \<Rightarrow> lo \<le> a \<and> a < hi)
    \<longleftrightarrow> drop_bit (trailing_zeros (NOT pmpaddr) + 3) a = drop_bit (trailing_zeros (NOT pmpaddr) + 1) pmpaddr"
  using napot_size [OF assms] align_down_range [of "trailing_zeros (NOT pmpaddr) + 3" "push_bit 2 pmpaddr" a]
  by (simp add: napot_range_def Let_def)

theorem napot_range_exact_witness:
  "(0x20000FFF :: u64) < 2 ^ 54 \<and> (case napot_range 0x20000FFF of (lo, hi) \<Rightarrow> lo \<le> 0x80001234 \<and> 0x80001234 < hi)"
proof -
  have "trailing_zeros (NOT (0x20000FFF :: u64)) = 12" by code_simp
  then show ?thesis using napot_range_exact [of "0x20000FFF" "0x80001234"] by (simp add: drop_bit_eq_div)
qed


text \<open>A locked entry is immutable: after any sequence of configuration and address writes it
  has the configuration byte and the address register it had.\<close>

theorem pmp_locked_entry_immutable:
  assumes "i < length (pm_entries p)" "pmp_is_locked (pm_entries p ! i)"
  shows "pm_entries (fold pmp_apply ws p) ! i = pm_entries p ! i"
proof -
  have "length (pm_entries (fold pmp_apply ws p)) = length (pm_entries p)
      \<and> pm_entries (fold pmp_apply ws p) ! i = pm_entries p ! i"
    using assms
  proof (induction ws arbitrary: p)
    case (Cons w ws)
    with pmp_apply_locked [of i p w] Cons.IH [of "pmp_apply w p"] show ?case by simp
  qed simp
  then show ?thesis ..
qed

definition pmp_tor_example :: pmp where
  "pmp_tor_example = pmp_set_cfg 1 0x89 (pmp_set_addr 1 0x2000 (pmp_set_addr 0 0x1000 pmp_new))"

theorem pmp_locked_entry_immutable_witness:
  "pm_entries (fold pmp_apply [Write_cfg 1 0, Write_addr 1 7] pmp_tor_example) ! 1 = pm_entries pmp_tor_example ! 1"
proof (rule pmp_locked_entry_immutable)
  show "1 < length (pm_entries pmp_tor_example)" by code_simp
  show "pmp_is_locked (pm_entries pmp_tor_example ! 1)" by code_simp
qed


end
