(* ===== verification/Tlb.thy ===== *)
theory Tlb
  imports Signals
begin

text \<open>
  Translation lookaside buffers (\<open>core/units/mmu/tlb.rs\<close>): the direct-mapped first-level TLB and
  the set-associative shared second-level TLB.

  What the rest of the MMU relies on is the same for both, and is the locale \<open>translation_cache\<close>:
  a lookup finds a live entry that matches the page and the address space or there is none, an
  insertion adds at most its own entry to the live ones, and each of the four flushes removes
  exactly the entries it names. Both TLBs interpret it, and the facts about coherence and about
  SFENCE.VMA are proved once in it.
\<close>

subsection \<open>Entries\<close>

type_synonym vpn = u64
type_synonym ppn = u64
type_synonym asid = u16

record tlb_hit =
  th_ppn :: ppn
  th_r :: bool
  th_w :: bool
  th_x :: bool
  th_u :: bool
  th_d :: bool

record tlb_entry =
  te_vpn :: vpn
  te_ppn :: ppn
  te_valid :: bool
  te_r :: bool
  te_w :: bool
  te_x :: bool
  te_u :: bool
  te_d :: bool
  te_asid :: asid
  te_global :: bool

definition tlb_entry_default :: tlb_entry where
  "tlb_entry_default = \<lparr> te_vpn = 0, te_ppn = 0, te_valid = False, te_r = False, te_w = False,
     te_x = False, te_u = False, te_d = False, te_asid = 0, te_global = False \<rparr>"

text \<open>The entry that \<open>insert\<close> and \<open>write_entry\<close> build from a raw page table entry.\<close>

definition tlb_entry_of :: "vpn \<Rightarrow> ppn \<Rightarrow> u64 \<Rightarrow> asid \<Rightarrow> tlb_entry" where
  "tlb_entry_of v p pte a =
    \<lparr> te_vpn = v, te_ppn = p, te_valid = True,
      te_r = (drop_bit 1 pte AND 1 \<noteq> 0), te_w = (drop_bit 2 pte AND 1 \<noteq> 0),
      te_x = (drop_bit 3 pte AND 1 \<noteq> 0), te_u = (drop_bit 4 pte AND 1 \<noteq> 0),
      te_d = (drop_bit 7 pte AND 1 \<noteq> 0), te_asid = a, te_global = (drop_bit 5 pte AND 1 \<noteq> 0) \<rparr>"

definition tlb_match :: "vpn \<Rightarrow> asid \<Rightarrow> tlb_entry \<Rightarrow> bool" where
  "tlb_match v a e \<longleftrightarrow> te_valid e \<and> te_vpn e = v \<and> (te_global e \<or> te_asid e = a)"

definition tlb_inval :: "tlb_entry \<Rightarrow> tlb_entry" where
  "tlb_inval e = e\<lparr> te_valid := False \<rparr>"

definition hit_of :: "tlb_entry \<Rightarrow> tlb_hit" where
  "hit_of e = \<lparr> th_ppn = te_ppn e, th_r = te_r e, th_w = te_w e, th_x = te_x e, th_u = te_u e, th_d = te_d e \<rparr>"

text \<open>\<open>usize::next_power_of_two\<close> and \<open>is_power_of_two\<close>.\<close>

function pow2_from :: "nat \<Rightarrow> nat \<Rightarrow> nat" where
  "pow2_from p n = (if n \<le> p \<or> p = 0 then p else pow2_from (2 * p) n)"
  by pat_completeness auto
termination
  by (relation "measure (\<lambda>(p, n). n - p)") auto

declare pow2_from.simps [simp del]

definition next_power_of_two :: "nat \<Rightarrow> nat" where
  "next_power_of_two n = pow2_from 1 n"

definition is_power_of_two :: "nat \<Rightarrow> bool" where
  "is_power_of_two n \<longleftrightarrow> next_power_of_two n = n"

subsection \<open>The first-level TLB\<close>

record tlb =
  tl_entries :: "tlb_entry list"
  tl_mask :: nat

definition tlb_new :: "nat \<Rightarrow> tlb" where
  "tlb_new sz =
    (let safe_size = (if is_power_of_two sz then sz else next_power_of_two sz)
     in \<lparr> tl_entries = replicate safe_size tlb_entry_default, tl_mask = safe_size - 1 \<rparr>)"

definition tlb_idx :: "tlb \<Rightarrow> vpn \<Rightarrow> nat" where
  "tlb_idx t v = unat v AND tl_mask t"

definition tlb_lookup :: "tlb \<Rightarrow> vpn \<Rightarrow> asid \<Rightarrow> tlb_hit option" where
  "tlb_lookup t v a =
    (let entry = tl_entries t ! tlb_idx t v
     in if te_valid entry \<and> te_vpn entry = v \<and> (te_global entry \<or> te_asid entry = a)
        then Some (hit_of entry) else None)"

definition tlb_insert :: "vpn \<Rightarrow> ppn \<Rightarrow> u64 \<Rightarrow> asid \<Rightarrow> tlb \<Rightarrow> tlb" where
  "tlb_insert v p pte a t = t\<lparr> tl_entries := (tl_entries t)[tlb_idx t v := tlb_entry_of v p pte a] \<rparr>"

definition tlb_invalidate :: "vpn \<Rightarrow> tlb \<Rightarrow> tlb" where
  "tlb_invalidate v t =
    (let idx = tlb_idx t v; e = tl_entries t ! idx
     in if te_valid e \<and> te_vpn e = v then t\<lparr> tl_entries := (tl_entries t)[idx := tlb_inval e] \<rparr> else t)"

definition tlb_flush :: "tlb \<Rightarrow> tlb" where
  "tlb_flush t = t\<lparr> tl_entries := map tlb_inval (tl_entries t) \<rparr>"

definition tlb_flush_vaddr :: "vpn \<Rightarrow> tlb \<Rightarrow> tlb" where
  "tlb_flush_vaddr v t =
    (let idx = tlb_idx t v; e = tl_entries t ! idx
     in if te_valid e \<and> te_vpn e = v then t\<lparr> tl_entries := (tl_entries t)[idx := tlb_inval e] \<rparr> else t)"

definition inval_asid :: "asid \<Rightarrow> tlb_entry \<Rightarrow> tlb_entry" where
  "inval_asid a e = (if te_valid e \<and> \<not> te_global e \<and> te_asid e = a then tlb_inval e else e)"

definition tlb_flush_asid :: "asid \<Rightarrow> tlb \<Rightarrow> tlb" where
  "tlb_flush_asid a t = t\<lparr> tl_entries := map (inval_asid a) (tl_entries t) \<rparr>"

definition tlb_flush_vaddr_asid :: "vpn \<Rightarrow> asid \<Rightarrow> tlb \<Rightarrow> tlb" where
  "tlb_flush_vaddr_asid v a t =
    (let idx = tlb_idx t v; e = tl_entries t ! idx
     in if te_valid e \<and> te_vpn e = v \<and> \<not> te_global e \<and> te_asid e = a
        then t\<lparr> tl_entries := (tl_entries t)[idx := tlb_inval e] \<rparr> else t)"

subsection \<open>The second-level TLB\<close>

record l2_tlb =
  l2_entries :: "tlb_entry list"
  l2_ways :: nat
  l2_set_mask :: nat
  l2_lru :: "u8 list"
  l2_latency :: u64

definition l2_new :: "nat \<Rightarrow> nat \<Rightarrow> u64 \<Rightarrow> l2_tlb" where
  "l2_new total_entries ways latency =
    (let safe_ways = (if ways = 0 then 4 else ways);
         sets_raw = total_entries div safe_ways;
         num_sets = max (if is_power_of_two sets_raw then sets_raw else next_power_of_two sets_raw) 1;
         capacity = num_sets * safe_ways
     in \<lparr> l2_entries = replicate capacity tlb_entry_default, l2_ways = safe_ways,
          l2_set_mask = num_sets - 1, l2_lru = replicate capacity 0, l2_latency = latency \<rparr>)"

definition l2_set :: "l2_tlb \<Rightarrow> vpn \<Rightarrow> nat" where
  "l2_set t v = unat v AND l2_set_mask t"

text \<open>The first way of a set whose entry satisfies a test, the loops over \<open>0..ways\<close>.\<close>

definition l2_find :: "(tlb_entry \<Rightarrow> bool) \<Rightarrow> l2_tlb \<Rightarrow> nat \<Rightarrow> nat option" where
  "l2_find p t st = find (\<lambda>w. p (l2_entries t ! (st * l2_ways t + w))) [0..<l2_ways t]"

definition reconstruct_pte :: "tlb_entry \<Rightarrow> u64" where
  "reconstruct_pte e =
    1 OR (if te_r e then push_bit 1 1 else 0) OR (if te_w e then push_bit 2 1 else 0)
      OR (if te_x e then push_bit 3 1 else 0) OR (if te_u e then push_bit 4 1 else 0)
      OR (if te_global e then push_bit 5 1 else 0) OR (if te_d e then push_bit 7 1 else 0)"

fun bump_younger :: "nat \<Rightarrow> u8 \<Rightarrow> nat \<Rightarrow> nat \<Rightarrow> u8 list \<Rightarrow> u8 list" where
  "bump_younger base old_age w 0 lru = lru"
| "bump_younger base old_age w (Suc n) lru =
    bump_younger base old_age (Suc w) n
      (if lru ! (base + w) < old_age then lru[base + w := lru ! (base + w) + 1] else lru)"

definition touch_lru :: "nat \<Rightarrow> nat \<Rightarrow> l2_tlb \<Rightarrow> l2_tlb" where
  "touch_lru st way t =
    (let base = st * l2_ways t; old_age = l2_lru t ! (base + way);
         lru = bump_younger base old_age 0 (l2_ways t) (l2_lru t)
     in t\<lparr> l2_lru := lru[base + way := 0] \<rparr>)"

fun victim_loop :: "u8 list \<Rightarrow> nat \<Rightarrow> nat \<Rightarrow> nat \<Rightarrow> u8 \<Rightarrow> nat \<Rightarrow> nat" where
  "victim_loop lru base w 0 max_age victim = victim"
| "victim_loop lru base w (Suc n) max_age victim =
    (if max_age < lru ! (base + w) then victim_loop lru base (Suc w) n (lru ! (base + w)) w
     else victim_loop lru base (Suc w) n max_age victim)"

definition lru_victim :: "l2_tlb \<Rightarrow> nat \<Rightarrow> nat" where
  "lru_victim t st = victim_loop (l2_lru t) (st * l2_ways t) 0 (l2_ways t) 0 0"

definition l2_lookup :: "l2_tlb \<Rightarrow> vpn \<Rightarrow> asid \<Rightarrow> l2_tlb \<times> (ppn \<times> u64 \<times> asid) option" where
  "l2_lookup t v a =
    (let st = l2_set t v in
     case l2_find (tlb_match v a) t st of
       None \<Rightarrow> (t, None)
     | Some w \<Rightarrow>
         let e = l2_entries t ! (st * l2_ways t + w)
         in (touch_lru st w t, Some (te_ppn e, reconstruct_pte e, te_asid e)))"

definition l2_write_entry :: "nat \<Rightarrow> vpn \<Rightarrow> ppn \<Rightarrow> u64 \<Rightarrow> asid \<Rightarrow> l2_tlb \<Rightarrow> l2_tlb" where
  "l2_write_entry idx v p pte a t = t\<lparr> l2_entries := (l2_entries t)[idx := tlb_entry_of v p pte a] \<rparr>"

definition l2_insert :: "vpn \<Rightarrow> ppn \<Rightarrow> u64 \<Rightarrow> asid \<Rightarrow> l2_tlb \<Rightarrow> l2_tlb" where
  "l2_insert v p pte a t =
    (let st = l2_set t v; base = st * l2_ways t;
         way = (case l2_find (tlb_match v a) t st of
                  Some w \<Rightarrow> w
                | None \<Rightarrow> (case l2_find (\<lambda>e. \<not> te_valid e) t st of Some w \<Rightarrow> w | None \<Rightarrow> lru_victim t st))
     in touch_lru st way (l2_write_entry (base + way) v p pte a t))"

definition l2_flush :: "l2_tlb \<Rightarrow> l2_tlb" where
  "l2_flush t = t\<lparr> l2_entries := map tlb_inval (l2_entries t) \<rparr>"

text \<open>The loop that invalidates the ways of one set that satisfy a test.\<close>

fun inval_ways :: "(tlb_entry \<Rightarrow> bool) \<Rightarrow> nat \<Rightarrow> nat \<Rightarrow> nat \<Rightarrow> tlb_entry list \<Rightarrow> tlb_entry list" where
  "inval_ways p base w 0 es = es"
| "inval_ways p base w (Suc n) es =
    inval_ways p base (Suc w) n
      (if p (es ! (base + w)) then es[base + w := tlb_inval (es ! (base + w))] else es)"

definition l2_flush_vaddr :: "vpn \<Rightarrow> l2_tlb \<Rightarrow> l2_tlb" where
  "l2_flush_vaddr v t = t\<lparr> l2_entries :=
     inval_ways (\<lambda>e. te_valid e \<and> te_vpn e = v) (l2_set t v * l2_ways t) 0 (l2_ways t) (l2_entries t) \<rparr>"

definition l2_flush_asid :: "asid \<Rightarrow> l2_tlb \<Rightarrow> l2_tlb" where
  "l2_flush_asid a t = t\<lparr> l2_entries := map (inval_asid a) (l2_entries t) \<rparr>"

definition l2_flush_vaddr_asid :: "vpn \<Rightarrow> asid \<Rightarrow> l2_tlb \<Rightarrow> l2_tlb" where
  "l2_flush_vaddr_asid v a t = t\<lparr> l2_entries :=
     inval_ways (\<lambda>e. te_valid e \<and> te_vpn e = v \<and> \<not> te_global e \<and> te_asid e = a)
       (l2_set t v * l2_ways t) 0 (l2_ways t) (l2_entries t) \<rparr>"

subsection \<open>The interface of a translation cache\<close>

locale translation_cache =
  fixes wf :: "'t \<Rightarrow> bool"
    and live :: "'t \<Rightarrow> tlb_entry set"
    and probe :: "'t \<Rightarrow> vpn \<Rightarrow> asid \<Rightarrow> tlb_entry option"
    and ins :: "vpn \<Rightarrow> ppn \<Rightarrow> u64 \<Rightarrow> asid \<Rightarrow> 't \<Rightarrow> 't"
    and flush :: "'t \<Rightarrow> 't"
    and flush_vaddr :: "vpn \<Rightarrow> 't \<Rightarrow> 't"
    and flush_asid :: "asid \<Rightarrow> 't \<Rightarrow> 't"
    and flush_vaddr_asid :: "vpn \<Rightarrow> asid \<Rightarrow> 't \<Rightarrow> 't"
  assumes wf_ops: "wf t \<Longrightarrow> wf (ins v p pte a t)" "wf t \<Longrightarrow> wf (flush t)" "wf t \<Longrightarrow> wf (flush_vaddr v t)"
      "wf t \<Longrightarrow> wf (flush_asid a t)" "wf t \<Longrightarrow> wf (flush_vaddr_asid v a t)"
    and probe_Some: "wf t \<Longrightarrow> probe t v a = Some e \<Longrightarrow> e \<in> live t \<and> tlb_match v a e"
    and probe_None: "wf t \<Longrightarrow> probe t v a = None \<Longrightarrow> e \<in> live t \<Longrightarrow> \<not> tlb_match v a e"
    and live_ins: "wf t \<Longrightarrow> live (ins v p pte a t) \<subseteq> insert (tlb_entry_of v p pte a) (live t)"
    and ins_live: "wf t \<Longrightarrow> tlb_entry_of v p pte a \<in> live (ins v p pte a t)"
    and live_flush: "wf t \<Longrightarrow> live (flush t) = {}"
    and live_flush_vaddr: "wf t \<Longrightarrow> live (flush_vaddr v t) = {e \<in> live t. te_vpn e \<noteq> v}"
    and live_flush_asid: "wf t \<Longrightarrow> live (flush_asid a t) = {e \<in> live t. te_global e \<or> te_asid e \<noteq> a}"
    and live_flush_vaddr_asid: "wf t \<Longrightarrow>
      live (flush_vaddr_asid v a t) = {e \<in> live t. te_vpn e \<noteq> v \<or> te_global e \<or> te_asid e \<noteq> a}"
begin

text \<open>A predicate that every live entry satisfies is kept by every operation, an insertion of an
  entry that satisfies it included.\<close>

definition coherent :: "(tlb_entry \<Rightarrow> bool) \<Rightarrow> 't \<Rightarrow> bool" where
  "coherent P t \<longleftrightarrow> wf t \<and> (\<forall>e \<in> live t. P e)"

lemma coherent_ops:
  assumes "coherent P t"
  shows "P (tlb_entry_of v p pte a) \<Longrightarrow> coherent P (ins v p pte a t)"
    and "coherent P (flush t)" "coherent P (flush_vaddr v t)" "coherent P (flush_asid a t)"
    and "coherent P (flush_vaddr_asid v a t)"
  using assms live_ins [of t v p pte a] unfolding coherent_def
  by (auto simp: wf_ops live_flush live_flush_vaddr live_flush_asid live_flush_vaddr_asid)

lemma coherent_probe: "coherent P t \<Longrightarrow> probe t v a = Some e \<Longrightarrow> P e \<and> tlb_match v a e"
  using probe_Some unfolding coherent_def by blast

lemma probe_after_ins:
  "wf t \<Longrightarrow> te_global (tlb_entry_of v p pte a) \<or> a = a' \<Longrightarrow> \<exists>e. probe (ins v p pte a t) v a' = Some e"
proof -
  assume wf: "wf t" and a: "te_global (tlb_entry_of v p pte a) \<or> a = a'"
  have "tlb_match v a' (tlb_entry_of v p pte a)" using a by (auto simp: tlb_match_def tlb_entry_of_def)
  then have "probe (ins v p pte a t) v a' \<noteq> None"
    using probe_None [of "ins v p pte a t" v a'] ins_live [OF wf] wf_ops(1) [OF wf] by blast
  then show ?thesis by blast
qed

lemma probe_flushed:
  assumes "wf t"
  shows "probe (flush t) v a = None" "probe (flush_vaddr v t) v a = None"
    and "probe (flush_asid a t) v a = Some e \<Longrightarrow> te_global e"
    and "probe (flush_vaddr_asid v a t) v a = Some e \<Longrightarrow> te_global e"
proof -
  show "probe (flush t) v a = None"
    using probe_Some [of "flush t" v a] assms wf_ops live_flush by (cases "probe (flush t) v a") auto
  show "probe (flush_vaddr v t) v a = None"
    using probe_Some [of "flush_vaddr v t" v a] assms wf_ops live_flush_vaddr
    by (cases "probe (flush_vaddr v t) v a") (auto simp: tlb_match_def)
  show "te_global e" if "probe (flush_asid a t) v a = Some e"
    using probe_Some [OF _ that] assms wf_ops live_flush_asid by (auto simp: tlb_match_def)
  show "te_global e" if "probe (flush_vaddr_asid v a t) v a = Some e"
    using probe_Some [OF _ that] assms wf_ops live_flush_vaddr_asid by (auto simp: tlb_match_def)
qed

end

subsection \<open>Both TLBs implement it\<close>

lemma pow2_from_power: "\<exists>k. p = 2 ^ k \<Longrightarrow> \<exists>k. pow2_from p n = 2 ^ k"
proof (induction p n rule: pow2_from.induct)
  case (1 p n)
  then obtain k where "p = 2 ^ k" by blast
  then have "2 * p = 2 ^ Suc k" by simp
  with 1 show ?case by (subst pow2_from.simps) (auto simp del: power_Suc)
qed

lemma next_power_of_two_power: "\<exists>k. next_power_of_two n = 2 ^ k"
  unfolding next_power_of_two_def by (rule pow2_from_power) (metis power_0)

lemma rounded_power: "\<exists>k. (if is_power_of_two n then n else next_power_of_two n) = 2 ^ k"
  using next_power_of_two_power [of n] by (auto simp: is_power_of_two_def)

lemma and_pow2_less: "n AND (2 ^ k - Suc 0) < 2 ^ k"
  using take_bit_nat_less_exp [of k n] by (simp add: take_bit_eq_mask mask_nat_def)

text \<open>Invalidating the entries that satisfy a test, wherever they are.\<close>

definition kill :: "(tlb_entry \<Rightarrow> bool) \<Rightarrow> tlb_entry \<Rightarrow> tlb_entry" where
  "kill q e = (if q e then tlb_inval e else e)"

lemma kill_slot:
  assumes "i < length es" "\<And>j. j < length es \<Longrightarrow> q (es ! j) \<Longrightarrow> j = i"
  shows "(if q (es ! i) then es[i := tlb_inval (es ! i)] else es) = map (kill q) es"
proof (rule nth_equalityI)
  fix j assume "j < length (if q (es ! i) then es[i := tlb_inval (es ! i)] else es)"
  then have j: "j < length es" by (simp split: if_splits)
  then have "q (es ! j) \<longrightarrow> j = i" using assms(2) by blast
  with j assms(1) show "(if q (es ! i) then es[i := tlb_inval (es ! i)] else es) ! j = map (kill q) es ! j"
    by (cases "j = i") (auto simp: kill_def)
qed simp

lemma kill_live: "{e \<in> set (map (kill q) es). te_valid e} = {e \<in> {e \<in> set es. te_valid e}. \<not> q e}"
  by (auto simp: kill_def image_iff tlb_inval_def split: if_splits)

definition tlb_wf :: "tlb \<Rightarrow> bool" where
  "tlb_wf t \<longleftrightarrow> (\<exists>k. length (tl_entries t) = 2 ^ k \<and> tl_mask t = 2 ^ k - 1)
     \<and> (\<forall>i < length (tl_entries t). te_valid (tl_entries t ! i) \<longrightarrow> tlb_idx t (te_vpn (tl_entries t ! i)) = i)"

definition tlb_live :: "tlb \<Rightarrow> tlb_entry set" where
  "tlb_live t = {e \<in> set (tl_entries t). te_valid e}"

definition tlb_probe :: "tlb \<Rightarrow> vpn \<Rightarrow> asid \<Rightarrow> tlb_entry option" where
  "tlb_probe t v a = (let e = tl_entries t ! tlb_idx t v in if tlb_match v a e then Some e else None)"

lemma tlb_lookup_probe: "tlb_lookup t v a = map_option hit_of (tlb_probe t v a)"
  by (simp add: tlb_lookup_def tlb_probe_def tlb_match_def Let_def)

lemma tlb_idx_less: "tlb_wf t \<Longrightarrow> tlb_idx t v < length (tl_entries t)"
  by (auto simp: tlb_wf_def tlb_idx_def and_pow2_less)

lemma tlb_new_wf [inv_intros]: "tlb_wf (tlb_new n)"
  using rounded_power [of n] by (auto simp: tlb_wf_def tlb_new_def Let_def tlb_entry_default_def)

lemma inval_simps [simp]:
  "\<not> te_valid (tlb_inval e)" "te_valid (inval_asid a e) \<longleftrightarrow> te_valid e \<and> (te_global e \<or> te_asid e \<noteq> a)"
  "te_valid e \<Longrightarrow> te_global e \<or> te_asid e \<noteq> a \<Longrightarrow> inval_asid a e = e"
  "te_vpn (inval_asid a e) = te_vpn e"
  by (auto simp: tlb_inval_def inval_asid_def)

lemma tlb_entry_of_simps [simp]:
  "te_valid (tlb_entry_of v p pte a)" "te_vpn (tlb_entry_of v p pte a) = v" "te_asid (tlb_entry_of v p pte a) = a"
  by (simp_all add: tlb_entry_of_def)

text \<open>An operation that rewrites single slots keeps the placement of the entries.\<close>

lemma tlb_wf_update:
  assumes "tlb_wf t" "length es = length (tl_entries t)"
    and "\<And>i. i < length es \<Longrightarrow> te_valid (es ! i) \<Longrightarrow> es ! i = tl_entries t ! i \<or> tlb_idx t (te_vpn (es ! i)) = i"
  shows "tlb_wf (t\<lparr>tl_entries := es\<rparr>)"
proof -
  have "tlb_idx (t\<lparr>tl_entries := es\<rparr>) v = tlb_idx t v" for v by (simp add: tlb_idx_def)
  with assms show ?thesis unfolding tlb_wf_def by (auto, metis)
qed

lemma tlb_kill:
  assumes "tlb_wf t"
  shows "tlb_wf (t\<lparr>tl_entries := map (kill q) (tl_entries t)\<rparr>)"
    "tlb_live (t\<lparr>tl_entries := map (kill q) (tl_entries t)\<rparr>) = {e \<in> tlb_live t. \<not> q e}"
  using assms kill_live [of q "tl_entries t"]
  by (auto simp: tlb_live_def kill_def intro!: tlb_wf_update)

lemma tlb_kill_slot:
  assumes "tlb_wf t" "\<And>e. q e \<Longrightarrow> te_valid e \<and> te_vpn e = v"
  shows "(if q (tl_entries t ! tlb_idx t v)
      then t\<lparr>tl_entries := (tl_entries t)[tlb_idx t v := tlb_inval (tl_entries t ! tlb_idx t v)]\<rparr> else t)
    = t\<lparr>tl_entries := map (kill q) (tl_entries t)\<rparr>"
proof -
  have "j = tlb_idx t v" if "j < length (tl_entries t)" "q (tl_entries t ! j)" for j
    using assms(1) assms(2) [OF that(2)] that(1) by (auto simp: tlb_wf_def)
  from kill_slot [OF tlb_idx_less [OF assms(1)] this] show ?thesis
    by (metis (no_types, lifting) tlb.surjective tlb.update_convs(1))
qed

lemma tlb_flushes:
  assumes "tlb_wf t"
  shows "tlb_flush t = t\<lparr>tl_entries := map (kill (\<lambda>_. True)) (tl_entries t)\<rparr>"
    "tlb_flush_vaddr v t = t\<lparr>tl_entries := map (kill (\<lambda>e. te_valid e \<and> te_vpn e = v)) (tl_entries t)\<rparr>"
    "tlb_invalidate v t = t\<lparr>tl_entries := map (kill (\<lambda>e. te_valid e \<and> te_vpn e = v)) (tl_entries t)\<rparr>"
    "tlb_flush_asid a t = t\<lparr>tl_entries :=
       map (kill (\<lambda>e. te_valid e \<and> \<not> te_global e \<and> te_asid e = a)) (tl_entries t)\<rparr>"
    "tlb_flush_vaddr_asid v a t = t\<lparr>tl_entries :=
       map (kill (\<lambda>e. te_valid e \<and> te_vpn e = v \<and> \<not> te_global e \<and> te_asid e = a)) (tl_entries t)\<rparr>"
  using tlb_kill_slot [OF assms, of "\<lambda>e. te_valid e \<and> te_vpn e = v" v]
    tlb_kill_slot [OF assms, of "\<lambda>e. te_valid e \<and> te_vpn e = v \<and> \<not> te_global e \<and> te_asid e = a" v]
  by (simp_all add: tlb_flush_def tlb_flush_vaddr_def tlb_invalidate_def tlb_flush_asid_def
      tlb_flush_vaddr_asid_def Let_def kill_def inval_asid_def cong: map_cong)

lemma tlb_insert_spec:
  assumes "tlb_wf t"
  shows "tlb_wf (tlb_insert v p pte a t)"
    "tlb_live (tlb_insert v p pte a t) \<subseteq> insert (tlb_entry_of v p pte a) (tlb_live t)"
    "tlb_entry_of v p pte a \<in> tlb_live (tlb_insert v p pte a t)"
  using assms tlb_idx_less [OF assms, of v] set_update_subset_insert [of "tl_entries t"]
  by (auto simp: tlb_insert_def tlb_live_def nth_list_update set_update_memI intro!: tlb_wf_update)

interpretation l1: translation_cache tlb_wf tlb_live tlb_probe tlb_insert tlb_flush tlb_flush_vaddr
  tlb_flush_asid tlb_flush_vaddr_asid
proof
  fix t v a e
  assume wf: "tlb_wf t"
  show "e \<in> tlb_live t \<and> tlb_match v a e" if "tlb_probe t v a = Some e"
    using that nth_mem [OF tlb_idx_less [OF wf, of v]]
    by (auto simp: tlb_probe_def tlb_live_def tlb_match_def Let_def split: if_splits)
  show "\<not> tlb_match v a e" if "tlb_probe t v a = None" "e \<in> tlb_live t"
  proof
    assume m: "tlb_match v a e"
    from that(2) obtain i where "i < length (tl_entries t)" "e = tl_entries t ! i"
      by (auto simp: tlb_live_def in_set_conv_nth)
    with wf m have "tl_entries t ! tlb_idx t v = e" by (auto simp: tlb_wf_def tlb_match_def)
    with m that(1) show False by (simp add: tlb_probe_def Let_def)
  qed
qed (use tlb_insert_spec in \<open>auto simp: tlb_flushes tlb_kill\<close>, (auto simp: tlb_live_def)?)

definition l2_wf :: "l2_tlb \<Rightarrow> bool" where
  "l2_wf t \<longleftrightarrow> 0 < l2_ways t \<and> (\<exists>k. length (l2_entries t) = 2 ^ k * l2_ways t \<and> l2_set_mask t = 2 ^ k - 1)
     \<and> (\<forall>i < length (l2_entries t). te_valid (l2_entries t ! i) \<longrightarrow> l2_set t (te_vpn (l2_entries t ! i)) = i div l2_ways t)"

definition l2_live :: "l2_tlb \<Rightarrow> tlb_entry set" where
  "l2_live t = {e \<in> set (l2_entries t). te_valid e}"

definition l2_probe :: "l2_tlb \<Rightarrow> vpn \<Rightarrow> asid \<Rightarrow> tlb_entry option" where
  "l2_probe t v a = map_option (\<lambda>w. l2_entries t ! (l2_set t v * l2_ways t + w)) (l2_find (tlb_match v a) t (l2_set t v))"

lemma touch_lru_fields [simp]:
  "l2_entries (touch_lru st w t) = l2_entries t" "l2_ways (touch_lru st w t) = l2_ways t"
  "l2_set_mask (touch_lru st w t) = l2_set_mask t" "l2_latency (touch_lru st w t) = l2_latency t"
  by (simp_all add: touch_lru_def Let_def)

lemma l2_wf_touch [simp]: "l2_wf (touch_lru st w t) = l2_wf t"
  by (simp add: l2_wf_def l2_set_def)

lemma l2_lookup_probe:
  "snd (l2_lookup t v a) = map_option (\<lambda>e. (te_ppn e, reconstruct_pte e, te_asid e)) (l2_probe t v a)"
  "l2_entries (fst (l2_lookup t v a)) = l2_entries t" "l2_wf (fst (l2_lookup t v a)) = l2_wf t"
  by (simp_all add: l2_lookup_def l2_probe_def Let_def split: option.splits)

lemma l2_new_wf [inv_intros]: "l2_wf (l2_new n w l)"
proof -
  let ?ways = "if w = 0 then 4 else w"
  obtain k where k: "(if is_power_of_two (n div ?ways) then n div ?ways else next_power_of_two (n div ?ways)) = 2 ^ k"
    using rounded_power by blast
  have "max (2 ^ k) 1 = (2 :: nat) ^ k" by (simp add: max_absorb1)
  with k show ?thesis unfolding l2_wf_def l2_new_def Let_def by (auto simp: tlb_entry_default_def)
qed

lemma l2_slot_less:
  assumes "l2_wf t" "w < l2_ways t"
  shows "l2_set t v * l2_ways t + w < length (l2_entries t)"
proof -
  obtain k where k: "length (l2_entries t) = 2 ^ k * l2_ways t" "l2_set_mask t = 2 ^ k - 1"
    using assms(1) by (auto simp: l2_wf_def)
  have "Suc (l2_set t v) \<le> 2 ^ k" using and_pow2_less [of "unat v" k] by (simp add: l2_set_def k Suc_le_eq)
  then have "Suc (l2_set t v) * l2_ways t \<le> length (l2_entries t)" by (simp only: k(1) mult_le_mono1)
  with assms(2) show ?thesis by simp
qed

lemma l2_slot_div: "w < l2_ways t \<Longrightarrow> (st * l2_ways t + w) div l2_ways t = st"
  by simp

lemma l2_wf_update:
  assumes "l2_wf t" "length es = length (l2_entries t)"
    and "\<And>i. i < length es \<Longrightarrow> te_valid (es ! i) \<Longrightarrow>
      es ! i = l2_entries t ! i \<or> l2_set t (te_vpn (es ! i)) = i div l2_ways t"
  shows "l2_wf (t\<lparr>l2_entries := es\<rparr>)"
proof -
  have "l2_set (t\<lparr>l2_entries := es\<rparr>) v = l2_set t v" for v by (simp add: l2_set_def)
  with assms show ?thesis unfolding l2_wf_def by (auto, metis)
qed

lemma l2_kill:
  assumes "l2_wf t"
  shows "l2_wf (t\<lparr>l2_entries := map (kill q) (l2_entries t)\<rparr>)"
    "l2_live (t\<lparr>l2_entries := map (kill q) (l2_entries t)\<rparr>) = {e \<in> l2_live t. \<not> q e}"
  using assms kill_live [of q "l2_entries t"]
  by (auto simp: l2_live_def kill_def intro!: l2_wf_update)

lemma inval_ways_nth:
  "length (inval_ways q base w n es) = length es"
  "j < length es \<Longrightarrow> inval_ways q base w n es ! j =
    (if base + w \<le> j \<and> j < base + w + n \<and> q (es ! j) then tlb_inval (es ! j) else es ! j)"
proof (induction n arbitrary: w es)
  case (Suc n)
  {
    case 1
    show ?case by (simp add: Suc.IH(1))
  next
    case 2
    have "j < length (if q (es ! (base + w)) then es[base + w := tlb_inval (es ! (base + w))] else es)"
      using 2 by simp
    from Suc.IH(2) [OF this, of "Suc w"] 2 show ?case
      by (cases "j = base + w") auto
  }
qed auto

lemma l2_kill_ways:
  assumes "l2_wf t" "\<And>e. q e \<Longrightarrow> te_valid e \<and> te_vpn e = v"
  shows "inval_ways q (l2_set t v * l2_ways t) 0 (l2_ways t) (l2_entries t) = map (kill q) (l2_entries t)"
proof (rule nth_equalityI)
  fix j assume "j < length (inval_ways q (l2_set t v * l2_ways t) 0 (l2_ways t) (l2_entries t))"
  then have j: "j < length (l2_entries t)" by (simp add: inval_ways_nth)
  have "l2_set t v * l2_ways t \<le> j \<and> j < l2_set t v * l2_ways t + l2_ways t" if "q (l2_entries t ! j)"
  proof -
    have "l2_set t v = j div l2_ways t" using assms(1) assms(2) [OF that] j by (auto simp: l2_wf_def)
    moreover have "0 < l2_ways t" using assms(1) by (simp add: l2_wf_def)
    ultimately show ?thesis
      by (metis div_mult_mod_eq le_add1 mod_less_divisor nat_add_left_cancel_less)
  qed
  then show "inval_ways q (l2_set t v * l2_ways t) 0 (l2_ways t) (l2_entries t) ! j = map (kill q) (l2_entries t) ! j"
    using j by (simp add: inval_ways_nth kill_def)
qed (simp add: inval_ways_nth)

lemma l2_flushes:
  assumes "l2_wf t"
  shows "l2_flush t = t\<lparr>l2_entries := map (kill (\<lambda>_. True)) (l2_entries t)\<rparr>"
    "l2_flush_vaddr v t = t\<lparr>l2_entries := map (kill (\<lambda>e. te_valid e \<and> te_vpn e = v)) (l2_entries t)\<rparr>"
    "l2_flush_asid a t = t\<lparr>l2_entries :=
       map (kill (\<lambda>e. te_valid e \<and> \<not> te_global e \<and> te_asid e = a)) (l2_entries t)\<rparr>"
    "l2_flush_vaddr_asid v a t = t\<lparr>l2_entries :=
       map (kill (\<lambda>e. te_valid e \<and> te_vpn e = v \<and> \<not> te_global e \<and> te_asid e = a)) (l2_entries t)\<rparr>"
  using l2_kill_ways [OF assms, of "\<lambda>e. te_valid e \<and> te_vpn e = v" v]
    l2_kill_ways [OF assms, of "\<lambda>e. te_valid e \<and> te_vpn e = v \<and> \<not> te_global e \<and> te_asid e = a" v]
  by (simp_all add: l2_flush_def l2_flush_vaddr_def l2_flush_asid_def l2_flush_vaddr_asid_def
      kill_def inval_asid_def cong: map_cong)

lemma victim_loop_less: "victim < w + n \<Longrightarrow> victim_loop lru base w n m victim < w + n"
proof (induction n arbitrary: w m victim)
  case (Suc n)
  with Suc.IH [of _ "Suc w"] show ?case by simp
qed simp

lemma l2_find_less: "l2_find p t st = Some w \<Longrightarrow> w < l2_ways t \<and> p (l2_entries t ! (st * l2_ways t + w))"
  by (auto simp: l2_find_def find_Some_iff)

text \<open>The way an insertion writes is in its set.\<close>

lemma l2_insert_way:
  assumes "l2_wf t"
  obtains w where "w < l2_ways t"
    "l2_insert v p pte a t = touch_lru (l2_set t v) w (l2_write_entry (l2_set t v * l2_ways t + w) v p pte a t)"
proof -
  let ?w = "case l2_find (tlb_match v a) t (l2_set t v) of Some w \<Rightarrow> w
    | None \<Rightarrow> (case l2_find (\<lambda>e. \<not> te_valid e) t (l2_set t v) of Some w \<Rightarrow> w | None \<Rightarrow> lru_victim t (l2_set t v))"
  have "lru_victim t (l2_set t v) < l2_ways t"
    using victim_loop_less [of 0 0 "l2_ways t"] assms by (simp add: lru_victim_def l2_wf_def)
  then have "?w < l2_ways t" by (auto dest: l2_find_less split: option.splits)
  from that [OF this] show ?thesis by (simp add: l2_insert_def Let_def)
qed

lemma l2_insert_spec:
  assumes "l2_wf t"
  shows "l2_wf (l2_insert v p pte a t)"
    "l2_live (l2_insert v p pte a t) \<subseteq> insert (tlb_entry_of v p pte a) (l2_live t)"
    "tlb_entry_of v p pte a \<in> l2_live (l2_insert v p pte a t)"
proof -
  obtain w where w: "w < l2_ways t"
    "l2_insert v p pte a t = touch_lru (l2_set t v) w (l2_write_entry (l2_set t v * l2_ways t + w) v p pte a t)"
    using l2_insert_way [OF assms] .
  note i = l2_slot_less [OF assms w(1), of v]
  show "l2_wf (l2_insert v p pte a t)"
    using assms i w(1) unfolding w(2)
    by (auto simp: l2_write_entry_def nth_list_update intro!: l2_wf_update)
  show "l2_live (l2_insert v p pte a t) \<subseteq> insert (tlb_entry_of v p pte a) (l2_live t)"
    using set_update_subset_insert [of "l2_entries t"] unfolding w(2)
    by (auto simp: l2_write_entry_def l2_live_def)
  show "tlb_entry_of v p pte a \<in> l2_live (l2_insert v p pte a t)"
    unfolding w(2) by (simp add: l2_write_entry_def l2_live_def set_update_memI [OF i])
qed

interpretation l2: translation_cache l2_wf l2_live l2_probe l2_insert l2_flush l2_flush_vaddr
  l2_flush_asid l2_flush_vaddr_asid
proof
  fix t v a e
  assume wf: "l2_wf t"
  show "e \<in> l2_live t \<and> tlb_match v a e" if hit: "l2_probe t v a = Some e"
  proof -
    obtain w where w: "l2_find (tlb_match v a) t (l2_set t v) = Some w" "e = l2_entries t ! (l2_set t v * l2_ways t + w)"
      using hit unfolding l2_probe_def by (cases "l2_find (tlb_match v a) t (l2_set t v)") auto
    with l2_find_less [OF w(1)] nth_mem [OF l2_slot_less [OF wf, of w v]] show ?thesis
      by (auto simp: l2_live_def tlb_match_def)
  qed
  show "\<not> tlb_match v a e" if none: "l2_probe t v a = None" and live: "e \<in> l2_live t"
  proof
    assume m: "tlb_match v a e"
    from live obtain i where i: "i < length (l2_entries t)" "e = l2_entries t ! i"
      by (auto simp: l2_live_def in_set_conv_nth)
    with wf m have "l2_set t v = i div l2_ways t" "0 < l2_ways t" by (auto simp: l2_wf_def tlb_match_def)
    then have "l2_set t v * l2_ways t + i mod l2_ways t = i" "i mod l2_ways t < l2_ways t" by simp_all
    with none m i(2) show False by (auto simp: l2_probe_def l2_find_def find_None_iff)
  qed
qed (use l2_insert_spec in \<open>auto simp: l2_flushes l2_kill\<close>, (auto simp: l2_live_def)?)

subsection \<open>Replacement\<close>

datatype l2_call = L2_Lookup vpn asid | L2_Insert vpn ppn u64 asid | L2_Flush
  | L2_Flush_vaddr vpn | L2_Flush_asid asid | L2_Flush_vaddr_asid vpn asid

fun l2_exec :: "l2_call \<Rightarrow> l2_tlb \<Rightarrow> l2_tlb" where
  "l2_exec (L2_Lookup v a) t = fst (l2_lookup t v a)"
| "l2_exec (L2_Insert v p pte a) t = l2_insert v p pte a t"
| "l2_exec L2_Flush t = l2_flush t"
| "l2_exec (L2_Flush_vaddr v) t = l2_flush_vaddr v t"
| "l2_exec (L2_Flush_asid a) t = l2_flush_asid a t"
| "l2_exec (L2_Flush_vaddr_asid v a) t = l2_flush_vaddr_asid v a t"

definition ages_zero :: "l2_tlb \<Rightarrow> bool" where
  "ages_zero t \<longleftrightarrow> length (l2_lru t) = length (l2_entries t) \<and> set (l2_lru t) \<subseteq> {0}"

lemma ages_zero_nth: "ages_zero t \<Longrightarrow> i < length (l2_entries t) \<Longrightarrow> l2_lru t ! i = 0"
  by (metis ages_zero_def nth_mem singletonD subsetD)

lemma bump_zero: "bump_younger base 0 w n lru = lru"
  by (induction n arbitrary: w lru) simp_all

lemma touch_lru_zero:
  assumes "ages_zero t" "st * l2_ways t + w < length (l2_entries t)"
  shows "l2_lru (touch_lru st w t) = l2_lru t"
  using ages_zero_nth [OF assms] list_update_id [of "l2_lru t" "st * l2_ways t + w"]
  by (simp add: touch_lru_def Let_def bump_zero)

lemma victim_loop_zero:
  "(\<And>i. w \<le> i \<Longrightarrow> i < w + n \<Longrightarrow> lru ! (base + i) = 0) \<Longrightarrow> victim_loop lru base w n 0 x = x"
  by (induction n arbitrary: w) simp_all

lemma l2_exec_ages:
  assumes "l2_wf t" "ages_zero t"
  shows "l2_wf (l2_exec c t) \<and> ages_zero (l2_exec c t)"
proof (cases c)
  case (L2_Lookup v a)
  show ?thesis
  proof (cases "l2_find (tlb_match v a) t (l2_set t v)")
    case (Some w)
    with L2_Lookup assms l2_slot_less [OF assms(1), of w v] l2_find_less [OF Some] show ?thesis
      by (simp add: l2_lookup_def Let_def ages_zero_def touch_lru_zero)
  qed (use L2_Lookup assms in \<open>simp add: l2_lookup_def Let_def\<close>)
next
  case (L2_Insert v p pte a)
  obtain w where w: "w < l2_ways t"
    "l2_insert v p pte a t = touch_lru (l2_set t v) w (l2_write_entry (l2_set t v * l2_ways t + w) v p pte a t)"
    using l2_insert_way [OF assms(1)] .
  have "ages_zero (l2_write_entry (l2_set t v * l2_ways t + w) v p pte a t)"
    using assms(2) by (simp add: ages_zero_def l2_write_entry_def)
  with w l2_slot_less [OF assms(1) w(1), of v] have "ages_zero (l2_insert v p pte a t)"
    by (simp add: ages_zero_def touch_lru_zero l2_write_entry_def)
  with L2_Insert l2_insert_spec(1) [OF assms(1)] show ?thesis by simp
qed (use assms l2.wf_ops in \<open>auto simp: ages_zero_def l2_flushes\<close>)

subsection \<open>Properties\<close>

text \<open>C26. The replacement state of the shared second-level TLB never changes: the ages start at
  zero, touching a way only increments ages below the age of that way, and no age is below zero. So
  after any sequence of lookups, insertions and flushes the victim of a full set is way 0, and not
  the least recently used way.\<close>

theorem l2_victim_is_always_way_0:
  "lru_victim (fold l2_exec cs (l2_new total_entries ways latency)) (l2_set (fold l2_exec cs (l2_new total_entries ways latency)) v) = 0"
proof -
  let ?t = "fold l2_exec cs (l2_new total_entries ways latency)"
  have "l2_wf (fold l2_exec cs t) \<and> ages_zero (fold l2_exec cs t)" if "l2_wf t" "ages_zero t" for t
    using that l2_exec_ages by (induction cs arbitrary: t) simp_all
  moreover have "ages_zero (l2_new total_entries ways latency)" by (auto simp: ages_zero_def l2_new_def Let_def)
  ultimately have inv: "l2_wf ?t" "ages_zero ?t" using l2_new_wf by blast+
  show ?thesis
    unfolding lru_victim_def using l2_slot_less [OF inv(1)] ages_zero_nth [OF inv(2)] by (intro victim_loop_zero) simp
qed

text \<open>What SFENCE.VMA relies on, for both TLB levels: after a full flush no page hits; after a
  flush of an address no address space hits on that page, the other pages keep their entries;
  after a flush of an address space, with or without an address, only global entries can hit for
  it.\<close>

theorem tlb_flush_no_stale_hit:
  assumes "tlb_wf t" "l2_wf s"
  shows "tlb_lookup (tlb_flush t) v a = None \<and> snd (l2_lookup (l2_flush s) v a) = None
    \<and> tlb_lookup (tlb_flush_vaddr v t) v a = None \<and> snd (l2_lookup (l2_flush_vaddr v s) v a) = None
    \<and> tlb_live (tlb_flush_vaddr v t) = {e \<in> tlb_live t. te_vpn e \<noteq> v}
    \<and> l2_live (l2_flush_vaddr v s) = {e \<in> l2_live s. te_vpn e \<noteq> v}
    \<and> (tlb_probe (tlb_flush_asid a t) v a = Some e \<longrightarrow> te_global e)
    \<and> (l2_probe (l2_flush_asid a s) v a = Some e \<longrightarrow> te_global e)
    \<and> (tlb_probe (tlb_flush_vaddr_asid v a t) v a = Some e \<longrightarrow> te_global e)
    \<and> (l2_probe (l2_flush_vaddr_asid v a s) v a = Some e \<longrightarrow> te_global e)"
  using l1.probe_flushed [OF assms(1)] l2.probe_flushed [OF assms(2)]
    l1.live_flush_vaddr [OF assms(1)] l2.live_flush_vaddr [OF assms(2)]
  by (simp add: tlb_lookup_probe l2_lookup_probe)

theorem tlb_flush_no_stale_hit_witness:
  "tlb_lookup (tlb_insert 5 9 0xCF 1 (tlb_new 4)) 5 1 \<noteq> None
   \<and> tlb_lookup (tlb_flush_vaddr 5 (tlb_insert 5 9 0xCF 1 (tlb_new 4))) 5 1 = None"
proof
  have wf: "tlb_wf (tlb_insert 5 9 0xCF 1 (tlb_new 4))" by (rule l1.wf_ops(1) [OF tlb_new_wf])
  show "tlb_lookup (tlb_insert 5 9 0xCF 1 (tlb_new 4)) 5 1 \<noteq> None" by code_simp
  show "tlb_lookup (tlb_flush_vaddr 5 (tlb_insert 5 9 0xCF 1 (tlb_new 4))) 5 1 = None"
    using tlb_flush_no_stale_hit [OF wf l2_new_wf] by simp
qed

end
