(* ===== verification/Mmu.thy ===== *)
theory Mmu
  imports Csr Pmp Tlb Lsu
begin

text \<open>
  Address translation: the Sv39 page table walker (\<open>core/units/mmu/ptw.rs\<close>) and the lookup order
  of the MMU (\<open>core/units/mmu/mod.rs\<close>), first-level TLB, shared second-level TLB, walk.

  The bus is its memory contents and its transfer timing (\<open>soc/interconnect.rs\<close>): page tables lie
  in RAM, whose eight-byte reads are little-endian. The loop of the walker is split where it leaves
  the table: \<open>ptw_search\<close> descends to a leaf or a fault, \<open>ptw_leaf\<close> is the rest of the body.

  The property that matters is that the TLBs are invisible: if every TLB entry of the current
  address space agrees with the page tables, a translation has the same outcome as one with both
  levels flushed, and leaves the TLBs in agreement.
\<close>

subsection \<open>Accesses and results\<close>

datatype access_type = Acc_Fetch | Acc_Read | Acc_Write

record translation_result =
  tr_paddr :: phys_addr
  tr_cycles :: u64
  tr_trap :: "trap option"
  tr_pte_update :: "pte_update option"

definition tr_success :: "phys_addr \<Rightarrow> u64 \<Rightarrow> translation_result" where
  "tr_success p c = \<lparr> tr_paddr = p, tr_cycles = c, tr_trap = None, tr_pte_update = None \<rparr>"

definition tr_success_with_pte_update :: "phys_addr \<Rightarrow> u64 \<Rightarrow> pte_update \<Rightarrow> translation_result" where
  "tr_success_with_pte_update p c u = \<lparr> tr_paddr = p, tr_cycles = c, tr_trap = None, tr_pte_update = Some u \<rparr>"

definition tr_fault :: "trap \<Rightarrow> u64 \<Rightarrow> translation_result" where
  "tr_fault t c = \<lparr> tr_paddr = 0, tr_cycles = c, tr_trap = Some t, tr_pte_update = None \<rparr>"

fun page_fault :: "u64 \<Rightarrow> access_type \<Rightarrow> trap" where
  "page_fault a Acc_Fetch = InstructionPageFault a"
| "page_fault a Acc_Read = LoadPageFault a"
| "page_fault a Acc_Write = StorePageFault a"

fun access_fault :: "u64 \<Rightarrow> access_type \<Rightarrow> trap" where
  "access_fault a Acc_Fetch = InstructionAccessFault a"
| "access_fault a Acc_Read = LoadAccessFault a"
| "access_fault a Acc_Write = StoreAccessFault a"

record bus =
  bus_mem :: byte_mem
  bus_width_bytes :: nat
  bus_latency_cycles :: u64

definition bus_read_u64 :: "bus \<Rightarrow> phys_addr \<Rightarrow> u64" where
  "bus_read_u64 b a = split_load a 8 (bus_mem b)"

definition calculate_transit_time :: "bus \<Rightarrow> nat \<Rightarrow> u64" where
  "calculate_transit_time b bytes = bus_latency_cycles b + of_nat (div_ceil bytes (bus_width_bytes b))"

subsection \<open>Page table entries\<close>

definition pte_is_valid :: "u64 \<Rightarrow> bool" where
  "pte_is_valid p \<longleftrightarrow> p AND 1 \<noteq> 0"

definition pte_can_read :: "u64 \<Rightarrow> bool" where
  "pte_can_read p \<longleftrightarrow> p AND push_bit 1 1 \<noteq> 0"

definition pte_can_write :: "u64 \<Rightarrow> bool" where
  "pte_can_write p \<longleftrightarrow> p AND push_bit 2 1 \<noteq> 0"

definition pte_can_exec :: "u64 \<Rightarrow> bool" where
  "pte_can_exec p \<longleftrightarrow> p AND push_bit 3 1 \<noteq> 0"

definition pte_is_user :: "u64 \<Rightarrow> bool" where
  "pte_is_user p \<longleftrightarrow> p AND push_bit 4 1 \<noteq> 0"

definition pte_is_accessed :: "u64 \<Rightarrow> bool" where
  "pte_is_accessed p \<longleftrightarrow> p AND push_bit 6 1 \<noteq> 0"

definition pte_is_dirty :: "u64 \<Rightarrow> bool" where
  "pte_is_dirty p \<longleftrightarrow> p AND push_bit 7 1 \<noteq> 0"

definition pte_ppn_raw :: "u64 \<Rightarrow> u64" where
  "pte_ppn_raw p = drop_bit 10 p AND SATP_PPN_MASK"

definition pte_is_pointer :: "u64 \<Rightarrow> bool" where
  "pte_is_pointer p \<longleftrightarrow> \<not> pte_can_read p \<and> \<not> pte_can_write p \<and> \<not> pte_can_exec p"

definition pte_with_accessed :: "u64 \<Rightarrow> u64" where
  "pte_with_accessed p = p OR push_bit 6 1"

definition pte_with_dirty :: "u64 \<Rightarrow> u64" where
  "pte_with_dirty p = p OR push_bit 7 1"

definition update_access_bits :: "u64 \<Rightarrow> access_type \<Rightarrow> u64 \<times> bool" where
  "update_access_bits p access =
    (let need_accessed = \<not> pte_is_accessed p;
         need_dirty = (access = Acc_Write \<and> \<not> pte_is_dirty p);
         p1 = (if need_accessed then pte_with_accessed p else p);
         p2 = (if need_dirty then pte_with_dirty p1 else p1)
     in (p2, need_accessed \<or> need_dirty))"

definition sstatus_mxr :: "csrs \<Rightarrow> bool" where
  "sstatus_mxr c \<longleftrightarrow> drop_bit 19 (csr_sstatus c) AND 1 \<noteq> 0"

definition sstatus_sum :: "csrs \<Rightarrow> bool" where
  "sstatus_sum c \<longleftrightarrow> drop_bit 18 (csr_sstatus c) AND 1 \<noteq> 0"

definition check_permissions :: "u64 \<Rightarrow> access_type \<Rightarrow> privilege_mode \<Rightarrow> csrs \<Rightarrow> bool" where
  "check_permissions p access priv c =
    (if access = Acc_Write \<and> \<not> pte_can_write p then False
     else if access = Acc_Fetch \<and> \<not> pte_can_exec p then False
     else if access = Acc_Read \<and> \<not> (pte_can_read p \<or> pte_can_exec p \<and> sstatus_mxr c) then False
     else if priv = User \<and> \<not> pte_is_user p then False
     else if priv = Supervisor \<and> pte_is_user p \<and> \<not> sstatus_sum c then False
     else if priv = Supervisor \<and> pte_is_user p \<and> access = Acc_Fetch then False
     else True)"

subsection \<open>The page table walk\<close>

record mmu =
  mm_dtlb :: tlb
  mm_itlb :: tlb
  mm_l2_tlb :: l2_tlb
  mm_software_ad_bits :: bool

definition mmu_new :: "nat \<Rightarrow> nat \<Rightarrow> nat \<Rightarrow> u64 \<Rightarrow> bool \<Rightarrow> mmu" where
  "mmu_new tlb_size l2_size ways latency software_ad =
    \<lparr> mm_dtlb = tlb_new tlb_size, mm_itlb = tlb_new tlb_size,
      mm_l2_tlb = l2_new l2_size ways latency, mm_software_ad_bits = software_ad \<rparr>"

definition satp_asid :: "csrs \<Rightarrow> asid" where
  "satp_asid c = ucast (drop_bit SATP_ASID_SHIFT (csr_satp c) AND SATP_ASID_MASK)"

definition vpn_of :: "virt_addr \<Rightarrow> vpn" where
  "vpn_of va = drop_bit 12 va AND 0x7FFFFFF"

definition vpn_shift :: "nat \<Rightarrow> nat" where
  "vpn_shift level = 12 + level * 9"

definition pte_addr_at :: "virt_addr \<Rightarrow> nat \<Rightarrow> u64 \<Rightarrow> phys_addr" where
  "pte_addr_at va level ppn_raw = push_bit 12 ppn_raw + (drop_bit (vpn_shift level) va AND 0x1FF) * 8"

definition pmp_blocks :: "pmp option \<Rightarrow> phys_addr \<Rightarrow> bool" where
  "pmp_blocks pm a = (case pm of None \<Rightarrow> False | Some u \<Rightarrow> pmp_check u a 8 True False False False \<noteq> Pmp_Allow)"

fun ptw_search :: "virt_addr \<Rightarrow> access_type \<Rightarrow> bus \<Rightarrow> pmp option \<Rightarrow> nat list \<Rightarrow> u64 \<Rightarrow> u64
    \<Rightarrow> translation_result + (nat \<times> u64 \<times> phys_addr \<times> u64)" where
  "ptw_search va access b pm [] ppn_raw cycles = Inl (tr_fault (page_fault va access) cycles)"
| "ptw_search va access b pm (level # ls) ppn_raw cycles =
    (let pte_addr = pte_addr_at va level ppn_raw in
     if pmp_blocks pm pte_addr then Inl (tr_fault (access_fault va access) cycles)
     else
       let cycles' = cycles + calculate_transit_time b 8;
           pte = bus_read_u64 b pte_addr
       in if \<not> pte_is_valid pte then Inl (tr_fault (page_fault va access) cycles')
          else if pte_is_pointer pte then
            if level = 0 then Inl (tr_fault (page_fault va access) cycles')
            else ptw_search va access b pm ls (pte_ppn_raw pte) cycles'
          else Inr (level, pte, pte_addr, cycles'))"

definition ptw_start :: "virt_addr \<Rightarrow> access_type \<Rightarrow> bus \<Rightarrow> pmp option \<Rightarrow> csrs
    \<Rightarrow> translation_result + (nat \<times> u64 \<times> phys_addr \<times> u64)" where
  "ptw_start va access b pm c = ptw_search va access b pm [2, 1, 0] (csr_satp c AND SATP_PPN_MASK) 0"

text \<open>A walk enters its page into the first-level TLB of the access and into the second level.\<close>

definition tlb_fill :: "mmu \<Rightarrow> access_type \<Rightarrow> vpn \<Rightarrow> ppn \<Rightarrow> u64 \<Rightarrow> asid \<Rightarrow> mmu" where
  "tlb_fill m access v p pte a =
    (let m1 = (if access = Acc_Fetch then m\<lparr> mm_itlb := tlb_insert v p pte a (mm_itlb m) \<rparr>
               else m\<lparr> mm_dtlb := tlb_insert v p pte a (mm_dtlb m) \<rparr>)
     in m1\<lparr> mm_l2_tlb := l2_insert v p pte a (mm_l2_tlb m1) \<rparr>)"

definition final_paddr :: "virt_addr \<Rightarrow> nat \<Rightarrow> u64 \<Rightarrow> phys_addr" where
  "final_paddr va level pte = push_bit 12 (pte_ppn_raw pte) OR (va AND (push_bit (vpn_shift level) 1 - 1))"

definition superpage_misaligned :: "nat \<Rightarrow> u64 \<Rightarrow> bool" where
  "superpage_misaligned level pte \<longleftrightarrow> 0 < level \<and> pte_ppn_raw pte AND (push_bit (level * 9) 1 - 1) \<noteq> 0"

definition ptw_leaf :: "mmu \<Rightarrow> virt_addr \<Rightarrow> access_type \<Rightarrow> privilege_mode \<Rightarrow> csrs \<Rightarrow> nat \<Rightarrow> u64 \<Rightarrow> phys_addr
    \<Rightarrow> u64 \<Rightarrow> mmu \<times> translation_result" where
  "ptw_leaf m va access priv c level pte pte_addr cycles =
    (if pte_can_write pte \<and> \<not> pte_can_read pte then (m, tr_fault (page_fault va access) cycles)
     else if superpage_misaligned level pte then (m, tr_fault (page_fault va access) cycles)
     else if \<not> check_permissions pte access priv c then (m, tr_fault (page_fault va access) cycles)
     else if mm_software_ad_bits m \<and> \<not> pte_is_accessed pte then (m, tr_fault (page_fault va access) cycles)
     else if mm_software_ad_bits m \<and> access = Acc_Write \<and> \<not> pte_is_dirty pte
     then (m, tr_fault (page_fault va access) cycles)
     else
       let (new_pte, updated) = update_access_bits pte access;
           pa = final_paddr va level pte;
           m2 = tlb_fill m access (vpn_of va) (drop_bit 12 pa) pte (satp_asid c)
       in if updated
          then (m2, tr_success_with_pte_update pa (cycles + 10) \<lparr> pu_pte_addr = pte_addr, pu_pte_value = new_pte \<rparr>)
          else (m2, tr_success pa cycles))"

definition page_table_walk :: "mmu \<Rightarrow> virt_addr \<Rightarrow> access_type \<Rightarrow> privilege_mode \<Rightarrow> csrs \<Rightarrow> bus \<Rightarrow> pmp option
    \<Rightarrow> mmu \<times> translation_result" where
  "page_table_walk m va access priv c b pm =
    (case ptw_start va access b pm c of
       Inl r \<Rightarrow> (m, r)
     | Inr (level, pte, pte_addr, cycles) \<Rightarrow> ptw_leaf m va access priv c level pte pte_addr cycles)"

subsection \<open>Translation\<close>

text \<open>The permission checks of the two hit paths, on the cached bits.\<close>

definition hit_permits :: "tlb_hit \<Rightarrow> access_type \<Rightarrow> privilege_mode \<Rightarrow> csrs \<Rightarrow> bool" where
  "hit_permits h access priv c =
    (if access = Acc_Write \<and> \<not> th_w h then False
     else if access = Acc_Fetch \<and> \<not> th_x h then False
     else if access = Acc_Read \<and> \<not> (th_r h \<or> th_x h \<and> sstatus_mxr c) then False
     else if priv = User \<and> \<not> th_u h then False
     else if priv = Supervisor \<and> th_u h \<and> \<not> sstatus_sum c then False
     else if priv = Supervisor \<and> th_u h \<and> access = Acc_Fetch then False
     else True)"

definition pte_hit :: "ppn \<Rightarrow> u64 \<Rightarrow> tlb_hit" where
  "pte_hit p pte = \<lparr> th_ppn = p, th_r = (drop_bit 1 pte AND 1 \<noteq> 0), th_w = (drop_bit 2 pte AND 1 \<noteq> 0),
     th_x = (drop_bit 3 pte AND 1 \<noteq> 0), th_u = (drop_bit 4 pte AND 1 \<noteq> 0), th_d = (drop_bit 7 pte AND 1 \<noteq> 0) \<rparr>"

text \<open>The part after a first-level miss.\<close>

definition translate_l2 :: "mmu \<Rightarrow> virt_addr \<Rightarrow> access_type \<Rightarrow> privilege_mode \<Rightarrow> csrs \<Rightarrow> bus \<Rightarrow> pmp option
    \<Rightarrow> mmu \<times> translation_result" where
  "translate_l2 m va access priv c b pm =
    (let latency = l2_latency (mm_l2_tlb m);
         (l2t, found) = l2_lookup (mm_l2_tlb m) (vpn_of va) (satp_asid c);
         m1 = m\<lparr> mm_l2_tlb := l2t \<rparr>
     in case found of
          None \<Rightarrow> page_table_walk m1 va access priv c b pm
        | Some (p, pte_bits, entry_asid) \<Rightarrow>
            let h = pte_hit p pte_bits in
            if access = Acc_Write \<and> \<not> th_d h then page_table_walk m1 va access priv c b pm
            else if \<not> hit_permits h access priv c then (m1, tr_fault (page_fault va access) latency)
            else
              let m2 = (if access = Acc_Fetch
                        then m1\<lparr> mm_itlb := tlb_insert (vpn_of va) p pte_bits entry_asid (mm_itlb m1) \<rparr>
                        else m1\<lparr> mm_dtlb := tlb_insert (vpn_of va) p pte_bits entry_asid (mm_dtlb m1) \<rparr>)
              in (m2, tr_success (push_bit 12 p OR (va AND 0xFFF)) latency))"

definition translate :: "mmu \<Rightarrow> virt_addr \<Rightarrow> access_type \<Rightarrow> privilege_mode \<Rightarrow> csrs \<Rightarrow> bus \<Rightarrow> pmp option
    \<Rightarrow> mmu \<times> translation_result" where
  "translate m va access priv c b pm =
    (let mode = drop_bit SATP_MODE_SHIFT (csr_satp c) AND SATP_MODE_MASK in
     if priv = Machine \<or> mode = SATP_MODE_BARE then (m, tr_success va 0)
     else if mode \<noteq> SATP_MODE_SV39 then (m, tr_fault (InstructionAccessFault va) 0)
     else
       let bit_38 = drop_bit 38 va AND 1;
           top_bits = drop_bit 39 va;
           expected_top = (if bit_38 = 1 then 0x1FFFFFF else 0)
       in if top_bits \<noteq> expected_top then (m, tr_fault (page_fault va access) 0)
          else
            case tlb_lookup (if access = Acc_Fetch then mm_itlb m else mm_dtlb m) (vpn_of va) (satp_asid c) of
              Some h \<Rightarrow>
                if access = Acc_Write \<and> \<not> th_d h
                then translate_l2 (m\<lparr> mm_dtlb := tlb_invalidate (vpn_of va) (mm_dtlb m) \<rparr>) va access priv c b pm
                else if \<not> hit_permits h access priv c then (m, tr_fault (page_fault va access) 0)
                else (m, tr_success (push_bit 12 (th_ppn h) OR (va AND 0xFFF)) 0)
            | None \<Rightarrow> translate_l2 m va access priv c b pm)"

subsection \<open>Bits of entries\<close>

lemma and_push_bit_1: "k < 64 \<Longrightarrow> x AND push_bit k 1 \<noteq> 0 \<longleftrightarrow> bit x k" for x :: u64
  using and_exp_eq_0_iff_not_bit [of x k] by (simp add: push_bit_of_1)

lemma shift_and_1: "drop_bit k x AND 1 \<noteq> 0 \<longleftrightarrow> bit x k" for x :: u64
  by (simp add: and_one_eq bit_iff_odd_drop_bit odd_iff_mod_2_eq_one)

lemma pte_bits:
  "pte_is_valid p \<longleftrightarrow> bit p 0" "pte_can_read p \<longleftrightarrow> bit p 1" "pte_can_write p \<longleftrightarrow> bit p 2"
  "pte_can_exec p \<longleftrightarrow> bit p 3" "pte_is_user p \<longleftrightarrow> bit p 4" "pte_is_accessed p \<longleftrightarrow> bit p 6" "pte_is_dirty p \<longleftrightarrow> bit p 7"
  using and_push_bit_1 [of 0 p] and_push_bit_1 [of 1 p] and_push_bit_1 [of 2 p] and_push_bit_1 [of 3 p]
    and_push_bit_1 [of 4 p] and_push_bit_1 [of 6 p] and_push_bit_1 [of 7 p]
  by (simp_all only: pte_is_valid_def pte_can_read_def pte_can_write_def pte_can_exec_def pte_is_user_def
      pte_is_accessed_def pte_is_dirty_def push_bit_0_id id_apply)

lemma tlb_entry_of_bits:
  "tlb_entry_of v p pte a = \<lparr> te_vpn = v, te_ppn = p, te_valid = True, te_r = bit pte 1, te_w = bit pte 2,
     te_x = bit pte 3, te_u = bit pte 4, te_d = bit pte 7, te_asid = a, te_global = bit pte 5 \<rparr>"
  unfolding tlb_entry_of_def shift_and_1 ..

lemma pte_hit_bits:
  "pte_hit p pte = \<lparr> th_ppn = p, th_r = bit pte 1, th_w = bit pte 2, th_x = bit pte 3, th_u = bit pte 4, th_d = bit pte 7 \<rparr>"
  unfolding pte_hit_def shift_and_1 ..

lemma reconstruct_pte_bits:
  "bit (reconstruct_pte e) (Suc 0) = te_r e" "bit (reconstruct_pte e) 2 = te_w e" "bit (reconstruct_pte e) 3 = te_x e"
  "bit (reconstruct_pte e) 4 = te_u e" "bit (reconstruct_pte e) 5 = te_global e" "bit (reconstruct_pte e) 7 = te_d e"
  by (simp_all add: reconstruct_pte_def bit_simps)

lemma entry_of_reconstruct: "te_valid e \<Longrightarrow> tlb_entry_of (te_vpn e) (te_ppn e) (reconstruct_pte e) (te_asid e) = e"
  by (cases e) (simp add: tlb_entry_of_bits reconstruct_pte_bits)

lemma hit_of_reconstruct: "pte_hit (te_ppn e) (reconstruct_pte e) = hit_of e"
  by (simp add: pte_hit_bits reconstruct_pte_bits hit_of_def)

subsection \<open>A walk depends on the page number only\<close>

lemma vpn_index:
  assumes "vpn_of va = vpn_of va'" "level \<le> 2"
  shows "drop_bit (vpn_shift level) va AND 0x1FF = drop_bit (vpn_shift level) va' AND 0x1FF"
proof -
  have m: "x AND 0x7FFFFFF = take_bit 27 x" "x AND 0x1FF = take_bit 9 x" for x :: u64
    by (simp_all add: take_bit_eq_mask mask_eq_exp_minus_1)
  have eq: "bit va n = bit va' n" if "12 \<le> n" "n < 39" for n
  proof -
    have "bit (take_bit 27 (drop_bit 12 va)) (n - 12) = bit (take_bit 27 (drop_bit 12 va')) (n - 12)"
      using assms(1) by (simp add: vpn_of_def m)
    with that show ?thesis by (simp add: bit_simps less_diff_conv2)
  qed
  show ?thesis unfolding m
    by (rule bit_word_eqI) (use assms(2) in \<open>auto simp: bit_simps vpn_shift_def eq\<close>)
qed

lemma ptw_search_vpn:
  assumes "vpn_of va = vpn_of va'"
  shows "\<forall>l \<in> set ls. l \<le> 2 \<Longrightarrow> ptw_search va access b pm ls ppn cycles = Inr x \<Longrightarrow>
    ptw_search va' access' b pm ls ppn cycles = Inr x"
proof (induction ls arbitrary: ppn cycles)
  case (Cons l ls)
  have "pte_addr_at va' l p = pte_addr_at va l p" for p
    using vpn_index [OF assms, of l] Cons.prems(1) by (simp add: pte_addr_at_def)
  with Cons show ?case by (auto simp: Let_def split: if_splits)
qed simp

lemma ptw_search_level:
  "\<forall>l \<in> set ls. l \<le> 2 \<Longrightarrow> ptw_search va access b pm ls ppn cycles = Inr (level, pte, pa, cy) \<Longrightarrow> level \<le> 2"
  by (induction ls arbitrary: ppn cycles) (auto simp: Let_def split: if_splits)

lemma ptw_search_fault: "ptw_search va access b pm ls ppn cycles = Inl r \<Longrightarrow> tr_trap r \<noteq> None"
  by (induction ls arbitrary: ppn cycles) (auto simp: Let_def tr_fault_def split: if_splits)

lemma vpn_of_page: "vpn_of (push_bit 12 (vpn_of va)) = vpn_of va"
proof -
  have m: "x AND 0x7FFFFFF = take_bit 27 x" for x :: u64
    by (simp add: take_bit_eq_mask mask_eq_exp_minus_1)
  show ?thesis unfolding vpn_of_def m by (rule bit_word_eqI) (auto simp: bit_simps)
qed

text \<open>The four-kilobyte frame of a page does not depend on the offset in it.\<close>

lemma final_paddr_frame:
  assumes "vpn_of va = vpn_of va'" "level \<le> 2"
  shows "push_bit 12 (drop_bit 12 (final_paddr va' level pte)) OR (va AND 0xFFF) = final_paddr va level pte"
proof -
  have m: "x AND 0x7FFFFFF = take_bit 27 x" "x AND 0xFFF = take_bit 12 x" "x AND (push_bit k 1 - 1) = take_bit k x"
    for x :: u64 and k by (simp_all add: take_bit_eq_mask mask_eq_exp_minus_1 push_bit_of_1)
  have eq: "bit va n = bit va' n" if "12 \<le> n" "n < 39" for n
  proof -
    have "bit (take_bit 27 (drop_bit 12 va)) (n - 12) = bit (take_bit 27 (drop_bit 12 va')) (n - 12)"
      using assms(1) by (simp add: vpn_of_def m)
    with that show ?thesis by (simp add: bit_simps less_diff_conv2)
  qed
  show ?thesis unfolding final_paddr_def m
    by (rule bit_word_eqI) (use assms(2) in \<open>auto simp: bit_simps vpn_shift_def eq\<close>)
qed

subsection \<open>Agreement of the TLBs with the page tables\<close>

definition leaf_of :: "csrs \<Rightarrow> bus \<Rightarrow> pmp option \<Rightarrow> vpn \<Rightarrow> (nat \<times> u64) option" where
  "leaf_of c b pm v =
    (case ptw_start (push_bit 12 v) Acc_Read b pm c of
       Inl _ \<Rightarrow> None | Inr (level, pte, _, _) \<Rightarrow> Some (level, pte))"

definition leaf_ok :: "bool \<Rightarrow> nat \<Rightarrow> u64 \<Rightarrow> bool" where
  "leaf_ok sad level pte \<longleftrightarrow> \<not> (pte_can_write pte \<and> \<not> pte_can_read pte) \<and> \<not> superpage_misaligned level pte
     \<and> (sad \<longrightarrow> pte_is_accessed pte)"

definition entry_agrees :: "bool \<Rightarrow> csrs \<Rightarrow> bus \<Rightarrow> pmp option \<Rightarrow> tlb_entry \<Rightarrow> bool" where
  "entry_agrees sad c b pm e \<longleftrightarrow> (te_global e \<or> te_asid e = satp_asid c \<longrightarrow>
    (\<exists>level pte. leaf_of c b pm (te_vpn e) = Some (level, pte) \<and> leaf_ok sad level pte
      \<and> te_ppn e = drop_bit 12 (final_paddr (push_bit 12 (te_vpn e)) level pte)
      \<and> hit_of e = pte_hit (te_ppn e) pte))"

definition mmu_coherent :: "mmu \<Rightarrow> csrs \<Rightarrow> bus \<Rightarrow> pmp option \<Rightarrow> bool" where
  "mmu_coherent m c b pm \<longleftrightarrow>
     l1.coherent (entry_agrees (mm_software_ad_bits m) c b pm) (mm_dtlb m)
     \<and> l1.coherent (entry_agrees (mm_software_ad_bits m) c b pm) (mm_itlb m)
     \<and> l2.coherent (entry_agrees (mm_software_ad_bits m) c b pm) (mm_l2_tlb m)"

definition mmu_flush :: "mmu \<Rightarrow> mmu" where
  "mmu_flush m = m\<lparr> mm_dtlb := tlb_flush (mm_dtlb m), mm_itlb := tlb_flush (mm_itlb m), mm_l2_tlb := l2_flush (mm_l2_tlb m) \<rparr>"

lemma ptw_start_vpn:
  assumes "ptw_start va access b pm c = Inr (level, pte, pa, cy)" "vpn_of va = vpn_of va'"
  shows "ptw_start va' access' b pm c = Inr (level, pte, pa, cy) \<and> level \<le> 2"
proof -
  have levels: "\<forall>l \<in> set [2, 1, 0 :: nat]. l \<le> 2" by simp
  note walk = assms(1) [unfolded ptw_start_def]
  show ?thesis
    unfolding ptw_start_def using ptw_search_vpn [OF assms(2) levels walk] ptw_search_level [OF levels walk] by blast
qed

lemma ptw_start_fault: "ptw_start va access b pm c = Inl r \<Longrightarrow> tr_trap r \<noteq> None"
  unfolding ptw_start_def by (rule ptw_search_fault)

lemma leaf_of_search:
  assumes "ptw_start va access b pm c = Inr (level, pte, pa, cy)"
  shows "leaf_of c b pm (vpn_of va) = Some (level, pte)" "level \<le> 2"
  using ptw_start_vpn [OF assms vpn_of_page [symmetric], of Acc_Read] by (simp_all add: leaf_of_def)

lemma search_of_leaf:
  assumes "leaf_of c b pm (vpn_of va) = Some (level, pte)"
  obtains pa cy where "ptw_start va access b pm c = Inr (level, pte, pa, cy)" "level \<le> 2"
proof -
  obtain pa cy where s: "ptw_start (push_bit 12 (vpn_of va)) Acc_Read b pm c = Inr (level, pte, pa, cy)"
    using assms by (auto simp: leaf_of_def split: sum.splits)
  from that ptw_start_vpn [OF s vpn_of_page] show ?thesis by simp
qed

lemma permits_hit: "hit_permits (pte_hit p pte) access priv c = check_permissions pte access priv c"
  by (simp add: hit_permits_def check_permissions_def pte_hit_bits pte_bits)

text \<open>The outcome of a walk: its trap and its address.\<close>

definition outcome :: "mmu \<times> translation_result \<Rightarrow> trap option \<times> phys_addr" where
  "outcome r = (tr_trap (snd r), tr_paddr (snd r))"

lemma outcome_simps [simp]:
  "outcome (m, tr_fault t c) = (Some t, 0)" "outcome (m, tr_success p c) = (None, p)"
  "outcome (m, tr_success_with_pte_update p c u) = (None, p)"
  by (simp_all add: outcome_def tr_fault_def tr_success_def tr_success_with_pte_update_def)

lemma ptw_leaf_outcome:
  "outcome (ptw_leaf m va access priv c level pte pa cy) =
    (if leaf_ok (mm_software_ad_bits m) level pte \<and> check_permissions pte access priv c
        \<and> \<not> (mm_software_ad_bits m \<and> access = Acc_Write \<and> \<not> pte_is_dirty pte)
     then (None, final_paddr va level pte) else (Some (page_fault va access), 0))"
  by (auto simp: ptw_leaf_def leaf_ok_def Let_def split: prod.splits)

lemma walk_outcome_cong:
  "mm_software_ad_bits m = mm_software_ad_bits m' \<Longrightarrow>
   outcome (page_table_walk m va access priv c b pm) = outcome (page_table_walk m' va access priv c b pm)"
  by (auto simp: page_table_walk_def ptw_leaf_outcome outcome_def [of "(_, _)"] split: sum.splits prod.splits)

lemma hit_outcome:
  assumes "entry_agrees (mm_software_ad_bits m) c b pm e" "tlb_match (vpn_of va) (satp_asid c) e"
    and "\<not> (access = Acc_Write \<and> \<not> th_d (hit_of e))"
  shows "outcome (page_table_walk m va access priv c b pm) =
    (if hit_permits (hit_of e) access priv c then (None, push_bit 12 (te_ppn e) OR (va AND 0xFFF))
     else (Some (page_fault va access), 0))"
proof -
  have v: "te_vpn e = vpn_of va" using assms(2) by (simp add: tlb_match_def)
  obtain level pte where e: "leaf_of c b pm (vpn_of va) = Some (level, pte)" "leaf_ok (mm_software_ad_bits m) level pte"
      "te_ppn e = drop_bit 12 (final_paddr (push_bit 12 (vpn_of va)) level pte)" "hit_of e = pte_hit (te_ppn e) pte"
    using assms(1,2) v by (auto simp: entry_agrees_def tlb_match_def)
  obtain pa cy where w: "ptw_start va access b pm c = Inr (level, pte, pa, cy)"
      "level \<le> 2"
    using search_of_leaf [OF e(1)] .
  have "access = Acc_Write \<longrightarrow> pte_is_dirty pte" using assms(3) e(4) by (auto simp: pte_hit_bits pte_bits)
  moreover have "push_bit 12 (te_ppn e) OR (va AND 0xFFF) = final_paddr va level pte"
    unfolding e(3) by (rule final_paddr_frame [OF vpn_of_page [symmetric] w(2)])
  ultimately show ?thesis
    using e(2) unfolding e(4) permits_hit by (auto simp: page_table_walk_def w(1) ptw_leaf_outcome)
qed

lemma inserted_agrees:
  assumes "ptw_start va access b pm c = Inr (level, pte, pa, cy)"
    and "leaf_ok sad level pte"
  shows "entry_agrees sad c b pm (tlb_entry_of (vpn_of va) (drop_bit 12 (final_paddr va level pte)) pte (satp_asid c))"
proof -
  note l = leaf_of_search [OF assms(1)]
  have "drop_bit 12 (final_paddr va level pte) = drop_bit 12 (final_paddr (push_bit 12 (vpn_of va)) level pte)"
    using final_paddr_frame [OF vpn_of_page [of va, symmetric] l(2), of pte, symmetric]
    by (intro bit_word_eqI) (auto simp: bit_simps dest: bit_imp_le_length)
  with l(1) assms(2) show ?thesis
    by (auto simp: entry_agrees_def tlb_entry_of_bits hit_of_def pte_hit_bits)
qed

lemma fill_coherent:
  assumes "mmu_coherent m c b pm" "entry_agrees (mm_software_ad_bits m) c b pm (tlb_entry_of v p pte a)"
  shows "mmu_coherent (tlb_fill m access v p pte a) c b pm"
  using assms by (simp add: mmu_coherent_def tlb_fill_def l1.coherent_ops(1) l2.coherent_ops(1))

lemma ptw_leaf_fst:
  "fst (ptw_leaf m va access priv c level pte pa cy) = m \<or>
   leaf_ok (mm_software_ad_bits m) level pte \<and> fst (ptw_leaf m va access priv c level pte pa cy) =
     tlb_fill m access (vpn_of va) (drop_bit 12 (final_paddr va level pte)) pte (satp_asid c)"
  by (auto simp: ptw_leaf_def leaf_ok_def Let_def split: prod.splits)

lemma walk_coherent:
  assumes "mmu_coherent m c b pm"
  shows "mmu_coherent (fst (page_table_walk m va access priv c b pm)) c b pm"
proof (cases "ptw_start va access b pm c")
  case (Inr x)
  then obtain level pte pa cy where x: "ptw_start va access b pm c = Inr (level, pte, pa, cy)"
    by (cases x) auto
  from ptw_leaf_fst [of m va access priv c level pte pa cy] inserted_agrees [OF x]
    fill_coherent [OF assms] assms show ?thesis
    by (auto simp: page_table_walk_def x)
qed (simp add: page_table_walk_def assms)

subsection \<open>Hits on both levels\<close>

lemma l2_hit_entry:
  assumes "l2.coherent P t" "snd (l2_lookup t v a) = Some (p, pte, ea)"
  obtains e where "P e" "tlb_match v a e" "p = te_ppn e" "pte = reconstruct_pte e" "ea = te_asid e"
proof -
  from assms(2) obtain e where "l2_probe t v a = Some e" "p = te_ppn e" "pte = reconstruct_pte e" "ea = te_asid e"
    by (auto simp: l2_lookup_probe)
  with that l2.coherent_probe [OF assms(1)] show ?thesis by blast
qed

lemma l2_lookup_coherent: "l2.coherent P t \<Longrightarrow> l2.coherent P (fst (l2_lookup t v a))"
  by (simp add: l2.coherent_def l2_lookup_probe l2_live_def)

lemma translate_l2_correct:
  assumes "mmu_coherent m c b pm"
  shows "outcome (translate_l2 m va access priv c b pm) = outcome (page_table_walk m va access priv c b pm)"
    and "mmu_coherent (fst (translate_l2 m va access priv c b pm)) c b pm"
proof -
  obtain t found where lk: "l2_lookup (mm_l2_tlb m) (vpn_of va) (satp_asid c) = (t, found)" by fastforce
  let ?m = "m\<lparr>mm_l2_tlb := t\<rparr>"
  have coh: "mmu_coherent ?m c b pm"
    using assms l2_lookup_coherent [of _ "mm_l2_tlb m" "vpn_of va" "satp_asid c"] by (simp add: mmu_coherent_def lk)
  have walk: "outcome (page_table_walk ?m va access priv c b pm) = outcome (page_table_walk m va access priv c b pm)"
    by (rule walk_outcome_cong) simp
  have "outcome (translate_l2 m va access priv c b pm) = outcome (page_table_walk m va access priv c b pm)
      \<and> mmu_coherent (fst (translate_l2 m va access priv c b pm)) c b pm"
  proof (cases found)
    case None
    with walk walk_coherent [OF coh] show ?thesis by (simp add: translate_l2_def lk)
  next
    case (Some r)
    obtain p pte ea where r: "r = (p, pte, ea)" by (cases r)
    have "l2.coherent (entry_agrees (mm_software_ad_bits m) c b pm) (mm_l2_tlb m)"
      using assms by (simp add: mmu_coherent_def)
    moreover have "snd (l2_lookup (mm_l2_tlb m) (vpn_of va) (satp_asid c)) = Some (p, pte, ea)"
      using lk Some r by simp
    ultimately obtain e where e: "entry_agrees (mm_software_ad_bits m) c b pm e" "tlb_match (vpn_of va) (satp_asid c) e"
        "p = te_ppn e" "pte = reconstruct_pte e" "ea = te_asid e"
      using l2_hit_entry by blast
    have v: "te_vpn e = vpn_of va" "te_valid e" using e(2) by (simp_all add: tlb_match_def)
    show ?thesis
    proof (cases "access = Acc_Write \<and> \<not> th_d (hit_of e)")
      case True
      with walk walk_coherent [OF coh] show ?thesis
        by (simp add: translate_l2_def lk Some r e(3-5) hit_of_reconstruct)
    next
      case False
      have "tlb_entry_of (vpn_of va) p pte ea = e" using entry_of_reconstruct [OF v(2)] v(1) e(3-5) by simp
      with coh e(1) have ins: "l1.coherent (entry_agrees (mm_software_ad_bits m) c b pm) (tlb_insert (vpn_of va) p pte ea (mm_dtlb m))"
          "l1.coherent (entry_agrees (mm_software_ad_bits m) c b pm) (tlb_insert (vpn_of va) p pte ea (mm_itlb m))"
        by (auto simp: mmu_coherent_def intro!: l1.coherent_ops(1))
      with False coh hit_outcome [OF e(1,2) False] show ?thesis
        by (auto simp: translate_l2_def lk Some r e(3-5) hit_of_reconstruct mmu_coherent_def Let_def)
    qed
  qed
  then show "outcome (translate_l2 m va access priv c b pm) = outcome (page_table_walk m va access priv c b pm)"
    "mmu_coherent (fst (translate_l2 m va access priv c b pm)) c b pm" by simp_all
qed

lemma mmu_flush_coherent: "mmu_coherent m c b pm \<Longrightarrow> mmu_coherent (mmu_flush m) c b pm"
  by (simp add: mmu_coherent_def mmu_flush_def l1.coherent_ops l2.coherent_ops)

text \<open>An address that Sv39 translates.\<close>

definition sv39_translates :: "virt_addr \<Rightarrow> privilege_mode \<Rightarrow> csrs \<Rightarrow> bool" where
  "sv39_translates va priv c \<longleftrightarrow> priv \<noteq> Machine
     \<and> drop_bit SATP_MODE_SHIFT (csr_satp c) AND SATP_MODE_MASK = SATP_MODE_SV39
     \<and> drop_bit 39 va = (if drop_bit 38 va AND 1 = 1 then 0x1FFFFFF else 0)"

lemma translate_sv39:
  assumes "sv39_translates va priv c"
  shows "translate m va access priv c b pm =
    (case tlb_lookup (if access = Acc_Fetch then mm_itlb m else mm_dtlb m) (vpn_of va) (satp_asid c) of
       Some h \<Rightarrow>
         if access = Acc_Write \<and> \<not> th_d h
         then translate_l2 (m\<lparr> mm_dtlb := tlb_invalidate (vpn_of va) (mm_dtlb m) \<rparr>) va access priv c b pm
         else if \<not> hit_permits h access priv c then (m, tr_fault (page_fault va access) 0)
         else (m, tr_success (push_bit 12 (th_ppn h) OR (va AND 0xFFF)) 0)
     | None \<Rightarrow> translate_l2 m va access priv c b pm)"
  using assms by (simp add: translate_def sv39_translates_def Let_def SATP_MODE_SV39_def SATP_MODE_BARE_def)

lemma translate_walks:
  assumes "mmu_coherent m c b pm" "sv39_translates va priv c"
  shows "outcome (translate m va access priv c b pm) = outcome (page_table_walk m va access priv c b pm)
    \<and> mmu_coherent (fst (translate m va access priv c b pm)) c b pm"
proof -
  let ?t = "if access = Acc_Fetch then mm_itlb m else mm_dtlb m"
  let ?P = "entry_agrees (mm_software_ad_bits m) c b pm"
  show ?thesis
  proof (cases "tlb_probe ?t (vpn_of va) (satp_asid c)")
    case None
    then have "tlb_lookup ?t (vpn_of va) (satp_asid c) = None" by (simp add: tlb_lookup_probe)
    with translate_l2_correct [OF assms(1)] show ?thesis by (simp add: translate_sv39 [OF assms(2)])
  next
    case (Some e)
    then have hit: "tlb_lookup ?t (vpn_of va) (satp_asid c) = Some (hit_of e)" by (simp add: tlb_lookup_probe)
    have "l1.coherent ?P ?t" using assms(1) by (simp add: mmu_coherent_def)
    from l1.coherent_probe [OF this Some] have e: "?P e" "tlb_match (vpn_of va) (satp_asid c) e" by simp_all
    show ?thesis
    proof (cases "access = Acc_Write \<and> \<not> th_d (hit_of e)")
      case True
      let ?m = "m\<lparr>mm_dtlb := tlb_invalidate (vpn_of va) (mm_dtlb m)\<rparr>"
      have "tlb_wf (mm_dtlb m)" using assms(1) by (simp add: mmu_coherent_def l1.coherent_def)
      then have "tlb_invalidate (vpn_of va) (mm_dtlb m) = tlb_flush_vaddr (vpn_of va) (mm_dtlb m)"
        by (simp add: tlb_flushes)
      then have "mmu_coherent ?m c b pm" using assms(1) by (simp add: mmu_coherent_def l1.coherent_ops)
      from translate_l2_correct [OF this] hit True walk_outcome_cong [of ?m m] show ?thesis
        by (simp add: translate_sv39 [OF assms(2)])
    next
      case False
      with hit_outcome [OF e False] hit assms(1) show ?thesis
        by (auto simp: translate_sv39 [OF assms(2)] hit_of_def)
    qed
  qed
qed

lemma flushed_lookup:
  "mmu_coherent m c b pm \<Longrightarrow> tlb_lookup (if access = Acc_Fetch then mm_itlb (mmu_flush m) else mm_dtlb (mmu_flush m)) v a = None"
  by (simp add: mmu_coherent_def l1.coherent_def mmu_flush_def tlb_lookup_probe l1.probe_flushed)

text \<open>A repeated access hits: the walk, or the second-level hit, has filled the first level.\<close>

definition l1_of :: "access_type \<Rightarrow> mmu \<Rightarrow> tlb" where
  "l1_of access m = (if access = Acc_Fetch then mm_itlb m else mm_dtlb m)"

lemma insert_lookup: "tlb_wf t \<Longrightarrow> te_global e \<or> te_asid e = a \<Longrightarrow> e = tlb_entry_of v p pte ea \<Longrightarrow>
   tlb_lookup (tlb_insert v p pte ea t) v a = Some (hit_of e)"
  using tlb_idx_less [of t v]
  by (auto simp: tlb_lookup_def tlb_insert_def tlb_idx_def Let_def tlb_entry_of_def)

lemma walk_fills:
  assumes "mmu_coherent m c b pm" "access \<noteq> Acc_Write" "tr_trap (snd (page_table_walk m va access priv c b pm)) = None"
  shows "\<exists>h. tlb_lookup (l1_of access (fst (page_table_walk m va access priv c b pm))) (vpn_of va) (satp_asid c) = Some h
    \<and> hit_permits h access priv c"
proof -
  have wf: "tlb_wf (mm_dtlb m)" "tlb_wf (mm_itlb m)" using assms(1) by (simp_all add: mmu_coherent_def l1.coherent_def)
  obtain level pte pa cy where x: "ptw_start va access b pm c = Inr (level, pte, pa, cy)"
    using assms(3) by (auto simp: page_table_walk_def dest!: ptw_start_fault split: sum.splits)
  have ok: "leaf_ok (mm_software_ad_bits m) level pte" "check_permissions pte access priv c"
    using assms(3) ptw_leaf_outcome [of m va access priv c level pte pa cy]
    by (auto simp: page_table_walk_def x outcome_def split: if_splits)
  then have "fst (ptw_leaf m va access priv c level pte pa cy) =
      tlb_fill m access (vpn_of va) (drop_bit 12 (final_paddr va level pte)) pte (satp_asid c)"
    using assms(2) by (auto simp: ptw_leaf_def leaf_ok_def Let_def split: prod.splits)
  moreover have "tlb_lookup (tlb_insert (vpn_of va) p pte (satp_asid c) t) (vpn_of va) (satp_asid c) = Some (pte_hit p pte)"
    if "tlb_wf t" for t p
    using insert_lookup [OF that _ refl, of "vpn_of va" p pte "satp_asid c" "satp_asid c"]
    by (simp add: hit_of_def tlb_entry_of_def pte_hit_def)
  ultimately show ?thesis
    using wf ok(2) by (auto simp: page_table_walk_def x l1_of_def tlb_fill_def permits_hit)
qed

lemma translate_fills:
  assumes "mmu_coherent m c b pm" "access \<noteq> Acc_Write" "sv39_translates va priv c"
    and "tr_trap (snd (translate m va access priv c b pm)) = None"
  shows "\<exists>h. tlb_lookup (l1_of access (fst (translate m va access priv c b pm))) (vpn_of va) (satp_asid c) = Some h
    \<and> hit_permits h access priv c"
proof (cases "tlb_lookup (l1_of access m) (vpn_of va) (satp_asid c)")
  case (Some h)
  with assms(2,4) show ?thesis
    by (auto simp: translate_sv39 [OF assms(3)] l1_of_def tr_fault_def split: if_splits)
next
  case None
  then have tr: "translate m va access priv c b pm = translate_l2 m va access priv c b pm"
    by (simp add: translate_sv39 [OF assms(3)] l1_of_def)
  obtain t found where lk: "l2_lookup (mm_l2_tlb m) (vpn_of va) (satp_asid c) = (t, found)" by fastforce
  have coh: "mmu_coherent (m\<lparr>mm_l2_tlb := t\<rparr>) c b pm"
    using assms(1) l2_lookup_coherent [of _ "mm_l2_tlb m" "vpn_of va" "satp_asid c"] by (simp add: mmu_coherent_def lk)
  show ?thesis
  proof (cases found)
    case None
    then have "translate_l2 m va access priv c b pm = page_table_walk (m\<lparr>mm_l2_tlb := t\<rparr>) va access priv c b pm"
      by (simp add: translate_l2_def lk)
    with walk_fills [OF coh assms(2)] assms(4) tr show ?thesis by simp
  next
    case (Some r)
    have wf: "tlb_wf (mm_dtlb m)" "tlb_wf (mm_itlb m)" using assms(1) by (simp_all add: mmu_coherent_def l1.coherent_def)
    obtain p pte ea where r: "r = (p, pte, ea)" by (cases r)
    have "l2.coherent (entry_agrees (mm_software_ad_bits m) c b pm) (mm_l2_tlb m)"
      using assms(1) by (simp add: mmu_coherent_def)
    moreover have "snd (l2_lookup (mm_l2_tlb m) (vpn_of va) (satp_asid c)) = Some (p, pte, ea)"
      using lk Some r by simp
    ultimately obtain e where e: "tlb_match (vpn_of va) (satp_asid c) e" "p = te_ppn e" "pte = reconstruct_pte e" "ea = te_asid e"
      using l2_hit_entry by blast
    have "e = tlb_entry_of (vpn_of va) p pte ea" "te_global e \<or> te_asid e = satp_asid c"
      using entry_of_reconstruct [of e] e by (auto simp: tlb_match_def)
    with wf insert_lookup have "tlb_lookup (tlb_insert (vpn_of va) p pte ea (mm_dtlb m)) (vpn_of va) (satp_asid c) = Some (hit_of e)"
        "tlb_lookup (tlb_insert (vpn_of va) p pte ea (mm_itlb m)) (vpn_of va) (satp_asid c) = Some (hit_of e)"
      by blast+
    with assms(2,4) show ?thesis
      by (auto simp: tr translate_l2_def lk Some r e(2-4) hit_of_reconstruct l1_of_def tr_fault_def Let_def split: if_splits)
  qed
qed

subsection \<open>Properties\<close>

text \<open>C7. The TLBs are invisible to translation. If every TLB entry of the current address space
  agrees with the page tables in memory, then for every address, access, privilege and status the
  translation gives the same trap or the same physical address as the translation with all TLBs
  flushed, and it leaves the TLBs in agreement: hits at either level, the re-walk of a store to a
  clean page, refills and the promotion from the second level included.\<close>

theorem tlb_transparent:
  assumes "mmu_coherent m c b pm"
  shows "outcome (translate m va access priv c b pm) = outcome (translate (mmu_flush m) va access priv c b pm)
    \<and> mmu_coherent (fst (translate m va access priv c b pm)) c b pm"
proof (cases "sv39_translates va priv c")
  case True
  have "outcome (page_table_walk m va access priv c b pm) = outcome (page_table_walk (mmu_flush m) va access priv c b pm)"
    by (rule walk_outcome_cong) (simp add: mmu_flush_def)
  with translate_walks [OF assms True] translate_walks [OF mmu_flush_coherent [OF assms] True] show ?thesis by simp
next
  case False
  with assms show ?thesis
    by (auto simp: translate_def sv39_translates_def Let_def outcome_def)
qed

text \<open>A gigapage at the root of a table at \<open>0x1000\<close>: valid, readable, executable, not accessed.\<close>

definition example_bus :: bus where
  "example_bus = \<lparr> bus_mem = (\<lambda>a. if a = 0x1000 then 0xB else 0), bus_width_bytes = 8, bus_latency_cycles = 1 \<rparr>"

definition example_csrs :: csrs where
  "example_csrs = csrs_default\<lparr> csr_satp := 0x8000000000000001 \<rparr>"

definition example_mmu :: mmu where
  "example_mmu = mmu_new 4 8 2 5 False"

lemma new_mmu_coherent: "mmu_coherent (mmu_new n l w t s) c b pm"
proof -
  have "tlb_live (tlb_new k) = {}" "l2_live (l2_new k j i) = {}" for k j i
    by (auto simp: tlb_live_def l2_live_def tlb_new_def l2_new_def Let_def tlb_entry_default_def)
  then show ?thesis
    by (simp add: mmu_coherent_def mmu_new_def l1.coherent_def l2.coherent_def tlb_new_wf l2_new_wf)
qed

theorem tlb_transparent_witness:
  "outcome (translate (fst (translate example_mmu 0x1234 Acc_Read Supervisor example_csrs example_bus None))
     0x1234 Acc_Read Supervisor example_csrs example_bus None) = (None, 0x1234)"
proof -
  let ?m = "fst (translate example_mmu 0x1234 Acc_Read Supervisor example_csrs example_bus None)"
  have "mmu_coherent example_mmu example_csrs example_bus None" by (simp add: example_mmu_def new_mmu_coherent)
  then have "mmu_coherent ?m example_csrs example_bus None" using tlb_transparent by blast
  from tlb_transparent [OF this, of "0x1234" Acc_Read Supervisor]
  have "outcome (translate ?m 0x1234 Acc_Read Supervisor example_csrs example_bus None) =
    outcome (translate (mmu_flush ?m) 0x1234 Acc_Read Supervisor example_csrs example_bus None)" by simp
  also have "\<dots> = (None, 0x1234)" by code_simp
  finally show ?thesis .
qed

text \<open>A page that was entered into the TLB without its accessed bit is not walked again by a
  load or a fetch: after a successful translation the same access hits, succeeds and carries no
  page table update. The update that the first access deferred to its commit is the only one; if
  that access is squashed, the accessed bit stays clear while the page is in use.\<close>

theorem repeated_access_defers_no_update:
  assumes "mmu_coherent m c b pm" "access \<noteq> Acc_Write" "sv39_translates va priv c"
    and "tr_trap (snd (translate m va access priv c b pm)) = None"
  shows "tr_trap (snd (translate (fst (translate m va access priv c b pm)) va access priv c b pm)) = None
    \<and> tr_pte_update (snd (translate (fst (translate m va access priv c b pm)) va access priv c b pm)) = None"
  using translate_fills [OF assms] assms(2)
  by (auto simp: translate_sv39 [OF assms(3)] l1_of_def tr_success_def split: if_splits)

theorem repeated_access_defers_no_update_witness:
  "tr_pte_update (snd (translate example_mmu 0x1234 Acc_Read Supervisor example_csrs example_bus None))
     = Some \<lparr> pu_pte_addr = 0x1000, pu_pte_value = 0x4B \<rparr>
   \<and> tr_pte_update (snd (translate (fst (translate example_mmu 0x1234 Acc_Read Supervisor example_csrs example_bus None))
        0x1234 Acc_Read Supervisor example_csrs example_bus None)) = None"
proof
  show "tr_pte_update (snd (translate example_mmu 0x1234 Acc_Read Supervisor example_csrs example_bus None))
     = Some \<lparr> pu_pte_addr = 0x1000, pu_pte_value = 0x4B \<rparr>" by code_simp
  have "mmu_coherent example_mmu example_csrs example_bus None" by (simp add: example_mmu_def new_mmu_coherent)
  moreover have "sv39_translates 0x1234 Supervisor example_csrs" by code_simp
  moreover have "tr_trap (snd (translate example_mmu 0x1234 Acc_Read Supervisor example_csrs example_bus None)) = None"
    by code_simp
  ultimately show "tr_pte_update (snd (translate (fst (translate example_mmu 0x1234 Acc_Read Supervisor example_csrs example_bus None))
        0x1234 Acc_Read Supervisor example_csrs example_bus None)) = None"
    using repeated_access_defers_no_update [of example_mmu example_csrs example_bus None Acc_Read "0x1234" Supervisor]
    by simp
qed

end
