(* ===== verification/Cpu.thy ===== *)
theory Cpu
  imports Mmu
begin

named_theorems csr_bits \<open>bits of CSR fields and masks\<close>

text \<open>
  The architectural state of the processor (\<open>core/cpu/mod.rs\<close>) and the operations that commit
  applies to it: the register files (\<open>core/arch/gpr.rs\<close>, \<open>fpr.rs\<close>, \<open>common/reg.rs\<close>), LR/SC
  reservations, CSR access (\<open>core/cpu/csr.rs\<close>), trap entry and return (\<open>core/cpu/trap.rs\<close>) and the
  interrupt check of the commit stage (\<open>pipeline/backend/shared/commit.rs\<close>).

  The caches, the predictors and the statistics other than the counters that CSRs read are not in
  the state: they change timing only. \<open>sstatus\<close> is stored beside \<open>mstatus\<close> in the source and has to
  be kept a view of it; that and the legal values of the WARL fields are the invariant
  \<open>csrs_inv\<close>, which every operation keeps.
\<close>

subsection \<open>State\<close>

record register_file =
  rf_gpr :: "u64 list"
  rf_fpr :: "u64 list"

definition regs_new :: register_file where
  "regs_new = \<lparr> rf_gpr = replicate 32 0, rf_fpr = replicate 32 0 \<rparr>"

definition regs_read :: "register_file \<Rightarrow> reg_idx \<Rightarrow> u64" where
  "regs_read r i = (if reg_is_zero i then 0 else rf_gpr r ! reg_as_usize i)"

definition regs_write :: "reg_idx \<Rightarrow> u64 \<Rightarrow> register_file \<Rightarrow> register_file" where
  "regs_write i v r = (if reg_is_zero i then r else r\<lparr> rf_gpr := (rf_gpr r)[reg_as_usize i := v] \<rparr>)"

definition regs_read_f :: "register_file \<Rightarrow> reg_idx \<Rightarrow> u64" where
  "regs_read_f r i = rf_fpr r ! reg_as_usize i"

definition regs_write_f :: "reg_idx \<Rightarrow> u64 \<Rightarrow> register_file \<Rightarrow> register_file" where
  "regs_write_f i v r = r\<lparr> rf_fpr := (rf_fpr r)[reg_as_usize i := v] \<rparr>"

record cpu =
  cpu_regs :: register_file
  cpu_pc :: u64
  cpu_bus :: bus
  cpu_exit_code :: "u64 option"
  cpu_csrs :: csrs
  cpu_privilege :: privilege_mode
  cpu_direct_mode :: bool
  cpu_cycles :: u64
  cpu_instructions_retired :: u64
  cpu_traps_taken :: u64
  cpu_mmu :: mmu
  cpu_pmp :: pmp
  cpu_load_reservation :: "phys_addr option"
  cpu_clint_divider :: u64
  cpu_wfi_waiting :: bool
  cpu_wfi_pc :: u64
  cpu_committed_next_pc :: u64
  cpu_redirect_pending :: bool
  cpu_sw_seip :: bool
  cpu_last_pc :: u64
  cpu_same_pc_count :: u64
  cpu_panic_detected_at_cycle :: "u64 option"

definition SSTATUS_VIEW :: u64 where
  "SSTATUS_VIEW = MSTATUS_SIE OR MSTATUS_SPIE OR MSTATUS_SPP OR MSTATUS_FS OR MSTATUS_SUM OR MSTATUS_MXR OR MSTATUS_UXL"

definition default_misa :: u64 where
  "default_misa = MISA_XLEN_64 OR MISA_EXT_A OR MISA_EXT_C OR MISA_EXT_D OR MISA_EXT_F OR MISA_EXT_I
     OR MISA_EXT_M OR MISA_EXT_S OR MISA_EXT_U"

text \<open>\<open>Cpu::new\<close>; the sizes come from the configuration, \<open>sp\<close> is the initial stack pointer of
  direct mode.\<close>

definition cpu_new :: "bus \<Rightarrow> mmu \<Rightarrow> bool \<Rightarrow> u64 option \<Rightarrow> u64 \<Rightarrow> u64 \<Rightarrow> u64 \<Rightarrow> cpu" where
  "cpu_new b m direct_mode misa_override sp start_pc divider =
    (let mstatus = (if direct_mode then MSTATUS_DEFAULT_RV64 OR MSTATUS_FS_INIT else MSTATUS_DEFAULT_RV64)
     in \<lparr> cpu_regs = (if direct_mode then regs_write 2 sp regs_new else regs_new), cpu_pc = start_pc, cpu_bus = b,
          cpu_exit_code = None,
          cpu_csrs = csrs_default\<lparr> csr_mstatus := mstatus, csr_sstatus := mstatus AND SSTATUS_VIEW,
            csr_misa := (case misa_override of None \<Rightarrow> default_misa | Some v \<Rightarrow> v), csr_stimecmp := - 1 \<rparr>,
          cpu_privilege = Machine, cpu_direct_mode = direct_mode, cpu_cycles = 0, cpu_instructions_retired = 0,
          cpu_traps_taken = 0, cpu_mmu = m, cpu_pmp = pmp_new, cpu_load_reservation = None,
          cpu_clint_divider = divider, cpu_wfi_waiting = False, cpu_wfi_pc = 0, cpu_committed_next_pc = start_pc,
          cpu_redirect_pending = False, cpu_sw_seip = False, cpu_last_pc = 0, cpu_same_pc_count = 0,
          cpu_panic_detected_at_cycle = None \<rparr>)"

abbreviation upd_csrs :: "(csrs \<Rightarrow> csrs) \<Rightarrow> cpu \<Rightarrow> cpu" where
  "upd_csrs f s \<equiv> s\<lparr> cpu_csrs := f (cpu_csrs s) \<rparr>"

subsection \<open>Reservations\<close>

definition align_reservation_address :: "phys_addr \<Rightarrow> phys_addr" where
  "align_reservation_address a = a AND NOT (64 - 1)"

definition set_reservation :: "phys_addr \<Rightarrow> cpu \<Rightarrow> cpu" where
  "set_reservation a s = s\<lparr> cpu_load_reservation := Some (align_reservation_address a) \<rparr>"

definition check_reservation :: "cpu \<Rightarrow> phys_addr \<Rightarrow> bool" where
  "check_reservation s a = (case cpu_load_reservation s of
     None \<Rightarrow> False | Some r \<Rightarrow> r = align_reservation_address a)"

definition clear_reservation :: "cpu \<Rightarrow> cpu" where
  "clear_reservation s = s\<lparr> cpu_load_reservation := None \<rparr>"

subsection \<open>Traps\<close>

fun trap_cause :: "trap \<Rightarrow> bool \<times> u64" where
  "trap_cause (InstructionAddressMisaligned _) = (False, 0)"
| "trap_cause (InstructionAccessFault _) = (False, 1)"
| "trap_cause (IllegalInstruction _) = (False, 2)"
| "trap_cause (Breakpoint _) = (False, 3)"
| "trap_cause (LoadAddressMisaligned _) = (False, 4)"
| "trap_cause (LoadAccessFault _) = (False, 5)"
| "trap_cause (StoreAddressMisaligned _) = (False, 6)"
| "trap_cause (StoreAccessFault _) = (False, 7)"
| "trap_cause EnvironmentCallFromUMode = (False, 8)"
| "trap_cause EnvironmentCallFromSMode = (False, 9)"
| "trap_cause EnvironmentCallFromMMode = (False, 11)"
| "trap_cause (InstructionPageFault _) = (False, 12)"
| "trap_cause (LoadPageFault _) = (False, 13)"
| "trap_cause (StorePageFault _) = (False, 15)"
| "trap_cause UserSoftwareInterrupt = (True, 0)"
| "trap_cause SupervisorSoftwareInterrupt = (True, 1)"
| "trap_cause MachineSoftwareInterrupt = (True, 3)"
| "trap_cause SupervisorTimerInterrupt = (True, 5)"
| "trap_cause MachineTimerInterrupt = (True, 7)"
| "trap_cause UserExternalInterrupt = (True, 8)"
| "trap_cause SupervisorExternalInterrupt = (True, 9)"
| "trap_cause MachineExternalInterrupt = (True, 11)"
| "trap_cause (RequestedTrap c) = (False, c)"
| "trap_cause (DoubleFault _) = (False, 18)"

fun trap_tval :: "trap \<Rightarrow> u64" where
  "trap_tval (InstructionAddressMisaligned a) = a"
| "trap_tval (InstructionAccessFault a) = a"
| "trap_tval (LoadAddressMisaligned a) = a"
| "trap_tval (LoadAccessFault a) = a"
| "trap_tval (StoreAddressMisaligned a) = a"
| "trap_tval (StoreAccessFault a) = a"
| "trap_tval (InstructionPageFault a) = a"
| "trap_tval (LoadPageFault a) = a"
| "trap_tval (StorePageFault a) = a"
| "trap_tval (IllegalInstruction i) = ucast i"
| "trap_tval _ = 0"

definition is_ecall :: "trap \<Rightarrow> bool" where
  "is_ecall t \<longleftrightarrow> t = EnvironmentCallFromUMode \<or> t = EnvironmentCallFromSMode \<or> t = EnvironmentCallFromMMode"

text \<open>Direct mode ends the simulation: the exit code of the program or of the failure.\<close>

definition direct_exit :: "trap \<Rightarrow> cpu \<Rightarrow> u64" where
  "direct_exit cause s =
    (if is_ecall cause then
       let a7 = regs_read (cpu_regs s) 17; a0 = regs_read (cpu_regs s) 10
       in if a7 = 93 then a0 else if a0 = 93 then regs_read (cpu_regs s) 11 else 1
     else if cause = IllegalInstruction 0 then 0 else 1)"

definition delegates_to_s :: "bool \<Rightarrow> u64 \<Rightarrow> cpu \<Rightarrow> bool" where
  "delegates_to_s is_interrupt code s =
    (let deleg_mask = (if is_interrupt then csr_mideleg (cpu_csrs s) else csr_medeleg (cpu_csrs s))
     in cpu_privilege s \<le> Supervisor \<and> drop_bit (unat code mod 64) deleg_mask AND 1 \<noteq> 0)"

definition CAUSE_INTERRUPT_BIT :: u64 where
  [csr_fields]: "CAUSE_INTERRUPT_BIT = push_bit 63 1"

definition cause_value :: "bool \<Rightarrow> u64 \<Rightarrow> u64" where
  "cause_value is_interrupt code = (if is_interrupt then CAUSE_INTERRUPT_BIT OR code else code)"

definition vector_target :: "u64 \<Rightarrow> bool \<Rightarrow> u64 \<Rightarrow> u64" where
  "vector_target tvec is_interrupt code =
     (tvec AND NOT 3) + (if tvec AND 1 \<noteq> 0 \<and> is_interrupt then 4 * code else 0)"

definition SSTATUS_TRAP :: u64 where
  "SSTATUS_TRAP = MSTATUS_SIE OR MSTATUS_SPIE OR MSTATUS_SPP"

text \<open>Trap entry stacks the interrupt enable and the privilege mode; trap return unstacks them.\<close>

definition trap_sstatus :: "privilege_mode \<Rightarrow> u64 \<Rightarrow> u64" where
  "trap_sstatus p s =
    (let s1 = (if s AND MSTATUS_SIE \<noteq> 0 then s OR MSTATUS_SPIE else s AND NOT MSTATUS_SPIE);
         s2 = (if p = Supervisor then s1 OR MSTATUS_SPP else s1 AND NOT MSTATUS_SPP)
     in s2 AND NOT MSTATUS_SIE)"

definition trap_mstatus :: "privilege_mode \<Rightarrow> u64 \<Rightarrow> u64" where
  "trap_mstatus p m =
    (let m1 = (if m AND MSTATUS_MIE \<noteq> 0 then m OR MSTATUS_MPIE else m AND NOT MSTATUS_MPIE);
         m2 = m1 AND NOT MSTATUS_MPP;
         m3 = m2 OR push_bit MSTATUS_MPP_SHIFT (ucast (privilege_to_u8 p))
     in m3 AND NOT MSTATUS_MIE)"

definition trap_to_s :: "bool \<Rightarrow> u64 \<Rightarrow> u64 \<Rightarrow> u64 \<Rightarrow> cpu \<Rightarrow> cpu" where
  "trap_to_s is_interrupt code epc tval s =
    (let c = cpu_csrs s; sstatus = trap_sstatus (cpu_privilege s) (csr_sstatus c)
     in s\<lparr> cpu_csrs := c\<lparr> csr_scause := cause_value is_interrupt code, csr_sepc := epc, csr_stval := tval,
              csr_sstatus := sstatus,
              csr_mstatus := (csr_mstatus c AND NOT SSTATUS_TRAP) OR (sstatus AND SSTATUS_TRAP) \<rparr>,
          cpu_privilege := Supervisor, cpu_pc := vector_target (csr_stvec c) is_interrupt code \<rparr>)"

definition trap_to_m :: "bool \<Rightarrow> u64 \<Rightarrow> u64 \<Rightarrow> u64 \<Rightarrow> cpu \<Rightarrow> cpu" where
  "trap_to_m is_interrupt code epc tval s =
    (let c = cpu_csrs s
     in s\<lparr> cpu_csrs := c\<lparr> csr_mcause := cause_value is_interrupt code, csr_mepc := epc, csr_mtval := tval,
              csr_mstatus := trap_mstatus (cpu_privilege s) (csr_mstatus c) \<rparr>,
          cpu_privilege := Machine, cpu_pc := vector_target (csr_mtvec c) is_interrupt code \<rparr>)"

definition cpu_trap :: "trap \<Rightarrow> u64 \<Rightarrow> cpu \<Rightarrow> cpu" where
  "cpu_trap cause epc s0 =
    (let s = clear_reservation s0 in
     if cpu_direct_mode s then s\<lparr> cpu_exit_code := Some (direct_exit cause s) \<rparr>
     else
       let (is_interrupt, code) = trap_cause cause; tval = trap_tval cause;
           s' = (if delegates_to_s is_interrupt code s then trap_to_s is_interrupt code epc tval s
                 else trap_to_m is_interrupt code epc tval s)
       in s'\<lparr> cpu_traps_taken := cpu_traps_taken s' + 1 \<rparr>)"

definition mpp_of :: "u64 \<Rightarrow> u64" where
  "mpp_of mstatus = drop_bit MSTATUS_MPP_SHIFT mstatus AND MSTATUS_MPP_MASK"

definition mret_mstatus :: "u64 \<Rightarrow> u64" where
  "mret_mstatus m =
    (let n1 = (if m AND MSTATUS_MPIE \<noteq> 0 then m OR MSTATUS_MIE else m AND NOT MSTATUS_MIE);
         n2 = (n1 OR MSTATUS_MPIE) AND NOT MSTATUS_MPP
     in if mpp_of m \<noteq> ucast (privilege_to_u8 Machine) then n2 AND NOT MSTATUS_MPRV else n2)"

definition sret_sstatus :: "u64 \<Rightarrow> u64" where
  "sret_sstatus s =
    (let n1 = (if s AND MSTATUS_SPIE \<noteq> 0 then s OR MSTATUS_SIE else s AND NOT MSTATUS_SIE)
     in (n1 OR MSTATUS_SPIE) AND NOT MSTATUS_SPP)"

definition do_mret :: "cpu \<Rightarrow> cpu" where
  "do_mret s0 =
    (let s = clear_reservation s0; c = cpu_csrs s; mstatus = csr_mstatus c
     in s\<lparr> cpu_pc := csr_mepc c AND NOT 1, cpu_privilege := privilege_from_u8 (ucast (mpp_of mstatus)),
          cpu_csrs := c\<lparr> csr_mstatus := mret_mstatus mstatus \<rparr> \<rparr>)"

definition do_sret :: "cpu \<Rightarrow> cpu" where
  "do_sret s0 =
    (let s = clear_reservation s0; c = cpu_csrs s; sstatus = csr_sstatus c; n = sret_sstatus sstatus
     in s\<lparr> cpu_pc := csr_sepc c AND NOT 1,
          cpu_privilege := (if sstatus AND MSTATUS_SPP \<noteq> 0 then Supervisor else User),
          cpu_csrs := c\<lparr> csr_sstatus := n,
            csr_mstatus := ((csr_mstatus c AND NOT SSTATUS_TRAP) OR (n AND SSTATUS_TRAP)) AND NOT MSTATUS_MPRV \<rparr> \<rparr>)"

subsection \<open>CSR access\<close>

definition pmp_cfg_word :: "pmp \<Rightarrow> nat \<Rightarrow> u64" where
  "pmp_cfg_word p base = ucast (pmp_get_cfg p base)
     OR push_bit 8 (ucast (pmp_get_cfg p (base + 1))) OR push_bit 16 (ucast (pmp_get_cfg p (base + 2)))
     OR push_bit 24 (ucast (pmp_get_cfg p (base + 3))) OR push_bit 32 (ucast (pmp_get_cfg p (base + 4)))
     OR push_bit 40 (ucast (pmp_get_cfg p (base + 5))) OR push_bit 48 (ucast (pmp_get_cfg p (base + 6)))
     OR push_bit 56 (ucast (pmp_get_cfg p (base + 7)))"

definition csr_read :: "cpu \<Rightarrow> csr_addr \<Rightarrow> u64" where
  "csr_read s a =
    (let c = cpu_csrs s in
     if a = FFLAGS then csr_fflags c AND 0x1F
     else if a = FRM then csr_frm c AND 0x7
     else if a = FCSR then push_bit 5 (csr_frm c AND 0x7) OR (csr_fflags c AND 0x1F)
     else if a = MVENDORID \<or> a = MARCHID \<or> a = MIMPID \<or> a = MHARTID then 0
     else if a = MSTATUS then with_sd (csr_mstatus c)
     else if a = MEDELEG then csr_medeleg c
     else if a = MIDELEG then csr_mideleg c
     else if a = MIE then csr_mie c
     else if a = MTVEC then csr_mtvec c
     else if a = MISA then csr_misa c
     else if a = MSCRATCH then csr_mscratch c
     else if a = MEPC then csr_mepc c
     else if a = MCAUSE then csr_mcause c
     else if a = MTVAL then csr_mtval c
     else if a = MIP then csr_mip c
     else if a = SSTATUS then with_sd (csr_sstatus c)
     else if a = SIE then csr_mie c AND csr_mideleg c
     else if a = STVEC then csr_stvec c
     else if a = SSCRATCH then csr_sscratch c
     else if a = SEPC then csr_sepc c
     else if a = SCAUSE then csr_scause c
     else if a = STVAL then csr_stval c
     else if a = SIP then csr_mip c AND csr_mideleg c
     else if a = STIMECMP then csr_stimecmp c
     else if a = SATP then csr_satp c
     else if a = MCOUNTEREN then csr_mcounteren c
     else if a = SCOUNTEREN then csr_scounteren c
     else if a = MENVCFG then csr_menvcfg c
     else if a = CYCLE \<or> a = MCYCLE then cpu_cycles s
     else if a = TIME then cpu_cycles s div cpu_clint_divider s
     else if a = INSTRET \<or> a = MINSTRET then cpu_instructions_retired s
     else if a = 0x3A0 then pmp_cfg_word (cpu_pmp s) 0
     else if a = 0x3A2 then pmp_cfg_word (cpu_pmp s) 8
     else if 0x3B0 \<le> a \<and> a \<le> 0x3BF then pmp_get_addr (cpu_pmp s) (unat (a - 0x3B0))
     else 0)"

definition mark_fs_dirty :: "csrs \<Rightarrow> csrs" where
  "mark_fs_dirty c = c\<lparr> csr_mstatus := (csr_mstatus c AND NOT MSTATUS_FS) OR MSTATUS_FS_DIRTY,
     csr_sstatus := (csr_sstatus c AND NOT MSTATUS_FS) OR MSTATUS_FS_DIRTY \<rparr>"

definition MSTATUS_WRITABLE :: u64 where
  "MSTATUS_WRITABLE = MSTATUS_SIE OR MSTATUS_MIE OR MSTATUS_SPIE OR MSTATUS_MPIE OR MSTATUS_SPP OR MSTATUS_MPP
     OR MSTATUS_FS OR MSTATUS_MPRV OR MSTATUS_SUM OR MSTATUS_MXR OR MSTATUS_TVM OR MSTATUS_TW OR MSTATUS_TSR"

definition SSTATUS_WRITABLE :: u64 where
  "SSTATUS_WRITABLE = MSTATUS_SIE OR MSTATUS_SPIE OR MSTATUS_SPP OR MSTATUS_FS OR MSTATUS_SUM OR MSTATUS_MXR"

definition S_INTERRUPTS :: u64 where
  "S_INTERRUPTS = MIP_SSIP OR MIP_STIP OR MIP_SEIP"

definition MIE_WRITABLE :: u64 where
  "MIE_WRITABLE = MIE_SSIP OR MIE_MSIP OR MIE_STIE OR MIE_MTIE OR MIE_SEIP OR MIE_MEIP"

definition write_mstatus :: "u64 \<Rightarrow> csrs \<Rightarrow> csrs" where
  "write_mstatus val c =
    (let preserved = csr_mstatus c AND (MSTATUS_UXL OR MSTATUS_SXL);
         m1 = (val AND MSTATUS_WRITABLE) OR preserved;
         m2 = (if mpp_of m1 = 2 then m1 AND NOT MSTATUS_MPP else m1)
     in c\<lparr> csr_mstatus := m2, csr_sstatus := m2 AND SSTATUS_VIEW \<rparr>)"

definition write_sstatus :: "u64 \<Rightarrow> csrs \<Rightarrow> csrs" where
  "write_sstatus val c =
    (let m1 = (csr_mstatus c AND NOT SSTATUS_WRITABLE) OR (val AND SSTATUS_WRITABLE)
     in c\<lparr> csr_mstatus := m1, csr_sstatus := m1 AND (SSTATUS_WRITABLE OR MSTATUS_UXL) \<rparr>)"

definition warl_tvec :: "u64 \<Rightarrow> u64" where
  "warl_tvec val = (if 2 \<le> val AND 3 then val AND NOT 3 else val)"

definition warl_satp :: "u64 \<Rightarrow> u64" where
  "warl_satp val =
    (let mode = drop_bit SATP_MODE_SHIFT val AND SATP_MODE_MASK
     in if mode = SATP_MODE_SV39 \<or> mode = SATP_MODE_BARE then val
        else val AND NOT (push_bit SATP_MODE_SHIFT SATP_MODE_MASK))"

definition write_pmp_cfgs :: "nat \<Rightarrow> u64 \<Rightarrow> pmp \<Rightarrow> pmp" where
  "write_pmp_cfgs base val p = fold (\<lambda>i. pmp_set_cfg (base + i) (ucast (drop_bit (i * 8) val AND 0xFF))) [0..<8] p"

definition csr_write :: "csr_addr \<Rightarrow> u64 \<Rightarrow> cpu \<Rightarrow> cpu" where
  "csr_write a val s =
    (if a = FFLAGS then upd_csrs (\<lambda>c. mark_fs_dirty (c\<lparr> csr_fflags := val AND 0x1F \<rparr>)) s
     else if a = FRM then upd_csrs (\<lambda>c. mark_fs_dirty (c\<lparr> csr_frm := val AND 0x7 \<rparr>)) s
     else if a = FCSR then
       upd_csrs (\<lambda>c. mark_fs_dirty (c\<lparr> csr_fflags := val AND 0x1F, csr_frm := drop_bit 5 val AND 0x7 \<rparr>)) s
     else if a = CSR_SIM_PANIC then cpu_trap (RequestedTrap val) (cpu_pc s) s
     else if a = MSTATUS then upd_csrs (write_mstatus val) s
     else if a = MEDELEG then upd_csrs (\<lambda>c. c\<lparr> csr_medeleg := val AND NOT (push_bit 11 1) \<rparr>) s
     else if a = MIDELEG then upd_csrs (\<lambda>c. c\<lparr> csr_mideleg := val AND S_INTERRUPTS \<rparr>) s
     else if a = MIE then upd_csrs (\<lambda>c. c\<lparr> csr_mie := val AND MIE_WRITABLE \<rparr>) s
     else if a = MTVEC then upd_csrs (\<lambda>c. c\<lparr> csr_mtvec := warl_tvec val \<rparr>) s
     else if a = MISA then s
     else if a = MSCRATCH then upd_csrs (\<lambda>c. c\<lparr> csr_mscratch := val \<rparr>) s
     else if a = MEPC then upd_csrs (\<lambda>c. c\<lparr> csr_mepc := val AND NOT 1 \<rparr>) s
     else if a = MCAUSE then upd_csrs (\<lambda>c. c\<lparr> csr_mcause := val \<rparr>) s
     else if a = MTVAL then upd_csrs (\<lambda>c. c\<lparr> csr_mtval := val \<rparr>) s
     else if a = MIP then
       (upd_csrs (\<lambda>c. c\<lparr> csr_mip := (csr_mip c AND NOT S_INTERRUPTS) OR (val AND S_INTERRUPTS) \<rparr>) s)
         \<lparr> cpu_sw_seip := (val AND MIP_SEIP \<noteq> 0) \<rparr>
     else if a = SSTATUS then upd_csrs (write_sstatus val) s
     else if a = SIE then
       upd_csrs (\<lambda>c. c\<lparr> csr_mie := (csr_mie c AND NOT (csr_mideleg c)) OR (val AND csr_mideleg c) \<rparr>) s
     else if a = STVEC then upd_csrs (\<lambda>c. c\<lparr> csr_stvec := warl_tvec val \<rparr>) s
     else if a = SSCRATCH then upd_csrs (\<lambda>c. c\<lparr> csr_sscratch := val \<rparr>) s
     else if a = SEPC then upd_csrs (\<lambda>c. c\<lparr> csr_sepc := val AND NOT 1 \<rparr>) s
     else if a = SCAUSE then upd_csrs (\<lambda>c. c\<lparr> csr_scause := val \<rparr>) s
     else if a = STVAL then upd_csrs (\<lambda>c. c\<lparr> csr_stval := val \<rparr>) s
     else if a = SIP then
       upd_csrs (\<lambda>c. let msk = csr_mideleg c AND MIP_SSIP
                    in c\<lparr> csr_mip := (csr_mip c AND NOT msk) OR (val AND msk) \<rparr>) s
     else if a = MCOUNTEREN then upd_csrs (\<lambda>c. c\<lparr> csr_mcounteren := val AND 0x7 \<rparr>) s
     else if a = SCOUNTEREN then upd_csrs (\<lambda>c. c\<lparr> csr_scounteren := val AND 0x7 \<rparr>) s
     else if a = MENVCFG then upd_csrs (\<lambda>c. c\<lparr> csr_menvcfg := val \<rparr>) s
     else if a = MCYCLE then s\<lparr> cpu_cycles := val \<rparr>
     else if a = MINSTRET then s\<lparr> cpu_instructions_retired := val \<rparr>
     else if a = 0x3A0 then s\<lparr> cpu_pmp := write_pmp_cfgs 0 val (cpu_pmp s) \<rparr>
     else if a = 0x3A2 then s\<lparr> cpu_pmp := write_pmp_cfgs 8 val (cpu_pmp s) \<rparr>
     else if 0x3B0 \<le> a \<and> a \<le> 0x3BF then s\<lparr> cpu_pmp := pmp_set_addr (unat (a - 0x3B0)) val (cpu_pmp s) \<rparr>
     else if a = STIMECMP then
       upd_csrs (\<lambda>c. c\<lparr> csr_stimecmp := val, csr_mip := csr_mip c AND NOT MIP_STIP \<rparr>) s
     else if a = SATP then
       (upd_csrs (\<lambda>c. c\<lparr> csr_satp := warl_satp val \<rparr>) s)\<lparr> cpu_mmu := mmu_flush (cpu_mmu s) \<rparr>
     else s)"

subsection \<open>Interrupts\<close>

definition check_interrupt :: "cpu \<Rightarrow> u64 \<Rightarrow> u64 \<Rightarrow> u64 \<Rightarrow> trap option" where
  "check_interrupt s irq enable_bit deleg_bit =
    (let c = cpu_csrs s;
         pending = (csr_mip c AND irq \<noteq> 0); enabled = (csr_mie c AND enable_bit \<noteq> 0)
     in if \<not> pending \<or> \<not> enabled then None
        else
          let delegated = (csr_mideleg c AND deleg_bit \<noteq> 0);
              target_priv = (if delegated then Supervisor else Machine)
          in if privilege_to_u8 (cpu_privilege s) < privilege_to_u8 target_priv then Some (irq_to_trap irq)
             else if cpu_privilege s = target_priv then
               (if target_priv = Machine \<and> csr_mstatus c AND MSTATUS_MIE \<noteq> 0 then Some (irq_to_trap irq)
                else if target_priv = Supervisor \<and> csr_mstatus c AND MSTATUS_SIE \<noteq> 0 then Some (irq_to_trap irq)
                else None)
             else None)"

text \<open>The six sources in the order of the \<open>or_else\<close> chain, with their enable and delegation bits.\<close>

definition irq_sources :: "(u64 \<times> u64 \<times> u64) list" where
  "irq_sources =
    [(MIP_MEIP, MIE_MEIP, push_bit 11 1), (MIP_MSIP, MIE_MSIP, push_bit 3 1), (MIP_MTIP, MIE_MTIE, push_bit 7 1),
     (MIP_SEIP, MIE_SEIP, push_bit 9 1), (MIP_SSIP, MIE_SSIP, push_bit 1 1), (MIP_STIP, MIE_STIE, push_bit 5 1)]"

fun first_interrupt :: "cpu \<Rightarrow> (u64 \<times> u64 \<times> u64) list \<Rightarrow> trap option" where
  "first_interrupt s [] = None"
| "first_interrupt s ((i, e, d) # qs) =
    (case check_interrupt s i e d of Some t \<Rightarrow> Some t | None \<Rightarrow> first_interrupt s qs)"

definition check_interrupts :: "cpu \<Rightarrow> trap option" where
  "check_interrupts s = first_interrupt s irq_sources"

subsection \<open>The start and the end of a cycle\<close>

text \<open>What the SoC reports at the start of a cycle: the exit request, the panic sentinel and the interrupt
  lines (\<open>timer_irq\<close>, \<open>msip\<close>, \<open>meip\<close>, \<open>seip\<close>) that \<open>bus.tick()\<close> returns.\<close>

record soc_signals =
  sig_exit :: "u64 option"
  sig_kernel_panic :: bool
  sig_timer :: bool
  sig_msip :: bool
  sig_meip :: bool
  sig_seip :: bool

datatype sim_error = KernelPanic u64

definition set_line :: "bool \<Rightarrow> u64 \<Rightarrow> u64 \<Rightarrow> u64" where
  "set_line on line mip = (if on then mip OR line else mip AND NOT line)"

definition pre_tick_mip :: "soc_signals \<Rightarrow> cpu \<Rightarrow> u64" where
  "pre_tick_mip g s =
    (let m1 = set_line (sig_timer g) MIP_MTIP (csr_mip (cpu_csrs s));
         m2 = set_line (sig_msip g) MIP_MSIP m1;
         m3 = set_line (sig_meip g) MIP_MEIP m2;
         m4 = (if sig_seip g then m3 OR MIP_SEIP else if \<not> cpu_sw_seip s then m3 AND NOT MIP_SEIP else m3)
     in if csr_menvcfg (cpu_csrs s) AND MENVCFG_STCE \<noteq> 0 then
          set_line (csr_stimecmp (cpu_csrs s) \<le> cpu_cycles s div cpu_clint_divider s) MIP_STIP m4
        else m4)"

definition saturating_sub :: "u64 \<Rightarrow> u64 \<Rightarrow> u64" where
  "saturating_sub a b = (if b \<le> a then a - b else 0)"

definition track_pc :: "cpu \<Rightarrow> cpu" where
  "track_pc s = (if cpu_pc s = cpu_last_pc s then s\<lparr> cpu_same_pc_count := cpu_same_pc_count s + 1 \<rparr>
     else s\<lparr> cpu_last_pc := cpu_pc s, cpu_same_pc_count := 0 \<rparr>)"

definition note_panic :: "soc_signals \<Rightarrow> cpu \<Rightarrow> cpu" where
  "note_panic g s = (if sig_kernel_panic g then
       s\<lparr> cpu_panic_detected_at_cycle :=
           Some (case cpu_panic_detected_at_cycle s of None \<Rightarrow> cpu_cycles s | Some c \<Rightarrow> c) \<rparr>
     else s)"

definition pre_tick :: "soc_signals \<Rightarrow> cpu \<Rightarrow> cpu \<times> (sim_error + bool)" where
  "pre_tick g s =
    (case sig_exit g of
       Some code \<Rightarrow> (s\<lparr> cpu_exit_code := Some code \<rparr>, Inr True)
     | None \<Rightarrow>
         let s1 = note_panic g s; detected_at = the (cpu_panic_detected_at_cycle s1) in
         if sig_kernel_panic g \<and> 10000 \<le> saturating_sub (cpu_cycles s1) detected_at then (s1, Inl (KernelPanic detected_at))
         else
           let s2 = track_pc s1
           in (s2\<lparr> cpu_csrs := (cpu_csrs s2)\<lparr> csr_mip := pre_tick_mip g s2 \<rparr>, cpu_cycles := cpu_cycles s2 + 1 \<rparr>, Inr False))"

definition post_tick :: "cpu \<Rightarrow> cpu" where
  "post_tick s = s\<lparr> cpu_regs := regs_write 0 0 (cpu_regs s) \<rparr>"

subsection \<open>The fields of the status registers, bit by bit\<close>

lemma bit_one_hot: "bit (push_bit k 1 :: u64) n \<longleftrightarrow> n = k \<and> k < 64"
  by (auto simp: bit_simps)

lemma and_one_hot: "x AND push_bit k 1 = 0 \<longleftrightarrow> \<not> bit x k" for x :: u64
  by (simp add: bit_iff_and_push_bit_not_eq_0)

lemma bit_three: "bit (3 :: u64) n \<longleftrightarrow> n < 2"
proof -
  have three: "(3 :: u64) = mask 2" by (simp add: mask_eq_exp_minus_1)
  show ?thesis unfolding three bit_mask_iff by auto
qed

lemma bit_two_hot: "bit (push_bit k 3 :: u64) n \<longleftrightarrow> (n = k \<or> n = Suc k) \<and> n < 64"
  unfolding bit_push_bit_iff bit_three by auto

lemmas bit_fields [csr_bits] =
  bit_one_hot [where k = 1, folded MSTATUS_SIE_def] bit_one_hot [where k = 3, folded MSTATUS_MIE_def]
  bit_one_hot [where k = 5, folded MSTATUS_SPIE_def] bit_one_hot [where k = 7, folded MSTATUS_MPIE_def]
  bit_one_hot [where k = 8, folded MSTATUS_SPP_def] bit_one_hot [where k = 17, folded MSTATUS_MPRV_def]
  bit_one_hot [where k = 18, folded MSTATUS_SUM_def] bit_one_hot [where k = 19, folded MSTATUS_MXR_def]
  bit_one_hot [where k = 20, folded MSTATUS_TVM_def] bit_one_hot [where k = 21, folded MSTATUS_TW_def]
  bit_one_hot [where k = 22, folded MSTATUS_TSR_def] bit_two_hot [where k = 11, folded MSTATUS_MPP_def]
  bit_two_hot [where k = 13, folded MSTATUS_FS_def] bit_two_hot [where k = 13, folded MSTATUS_FS_DIRTY_def]
  bit_one_hot [where k = 13, folded MSTATUS_FS_INIT_def]
  bit_two_hot [where k = 32, folded MSTATUS_UXL_def] bit_two_hot [where k = 34, folded MSTATUS_SXL_def]

lemmas bit_irqs [csr_bits] =
  bit_one_hot [where k = 1, folded MIP_SSIP_def] bit_one_hot [where k = 3, folded MIP_MSIP_def]
  bit_one_hot [where k = 5, folded MIP_STIP_def] bit_one_hot [where k = 7, folded MIP_MTIP_def]
  bit_one_hot [where k = 9, folded MIP_SEIP_def] bit_one_hot [where k = 11, folded MIP_MEIP_def]
  bit_one_hot [where k = 1, folded MIE_SSIP_def] bit_one_hot [where k = 3, folded MIE_MSIP_def]
  bit_one_hot [where k = 5, folded MIE_STIE_def] bit_one_hot [where k = 7, folded MIE_MTIE_def]
  bit_one_hot [where k = 9, folded MIE_SEIP_def] bit_one_hot [where k = 11, folded MIE_MEIP_def]

lemmas test_fields [csr_bits] =
  and_one_hot [where k = 1, folded MSTATUS_SIE_def] and_one_hot [where k = 3, folded MSTATUS_MIE_def]
  and_one_hot [where k = 5, folded MSTATUS_SPIE_def] and_one_hot [where k = 7, folded MSTATUS_MPIE_def]
  and_one_hot [where k = 8, folded MSTATUS_SPP_def]

lemma bit_status_masks [csr_bits]:
  "bit SSTATUS_VIEW n \<longleftrightarrow> n \<in> {1, 5, 8, 13, 14, 18, 19, 32, 33}"
  "bit SSTATUS_WRITABLE n \<longleftrightarrow> n \<in> {1, 5, 8, 13, 14, 18, 19}"
  "bit SSTATUS_TRAP n \<longleftrightarrow> n \<in> {1, 5, 8}"
  "bit MSTATUS_WRITABLE n \<longleftrightarrow> n \<in> {1, 3, 5, 7, 8, 11, 12, 13, 14, 17, 18, 19, 20, 21, 22}"
  "bit S_INTERRUPTS n \<longleftrightarrow> n \<in> {1, 5, 9}"
  "bit MIE_WRITABLE n \<longleftrightarrow> n \<in> {1, 3, 5, 7, 9, 11}"
  by (auto simp: SSTATUS_VIEW_def SSTATUS_WRITABLE_def SSTATUS_TRAP_def MSTATUS_WRITABLE_def S_INTERRUPTS_def
      MIE_WRITABLE_def csr_bits bit_or_iff)

lemma bit_MSTATUS_DEFAULT [csr_bits]: "bit MSTATUS_DEFAULT_RV64 n \<longleftrightarrow> n = 33 \<or> n = 35"
proof -
  have eq: "MSTATUS_DEFAULT_RV64 = push_bit 33 1 OR push_bit 35 1" by code_simp
  show ?thesis unfolding eq bit_or_iff bit_one_hot by auto
qed

lemma u64_eq_bits: "x = y \<longleftrightarrow> (\<forall>n. bit x n \<longleftrightarrow> bit y n)" for x y :: u64
  by (auto intro: bit_word_eqI)

lemma take_bit_2_cases: "take_bit 2 x = (if bit x 0 then if bit x 1 then 3 else 1 else if bit x 1 then 2 else 0)"
  for x :: u64
  by (simp add: numeral_2_eq_2 take_bit_Suc mod_2_eq_odd bit_0 bit_Suc)

lemma mpp_of_cases: "mpp_of m = (if bit m 11 then if bit m 12 then 3 else 1 else if bit m 12 then 2 else 0)"
proof -
  have "mpp_of m = take_bit 2 (drop_bit 11 m)" by (simp add: mpp_of_def csr_fields cast_simps)
  then show ?thesis by (simp add: take_bit_2_cases bit_drop_bit_eq)
qed

lemma mpp_of_eq_2: "mpp_of m = 2 \<longleftrightarrow> bit m 12 \<and> \<not> bit m 11"
  by (simp add: mpp_of_cases)

lemma disjoint_mask_iff: "x AND NOT m = 0 \<longleftrightarrow> (\<forall>n. bit x n \<longrightarrow> bit m n)" for x m :: u64
proof -
  have "bit (x AND NOT m) n \<longleftrightarrow> bit x n \<and> \<not> bit m n" for n
    using bit_imp_le_length [of x n] by (auto simp: bit_and_iff bit_not_iff)
  then show ?thesis unfolding u64_eq_bits [of "x AND NOT m"] by simp
qed

text \<open>What software may rely on in every state: \<open>sstatus\<close> is the view of \<open>mstatus\<close>, MPP encodes a mode,
  the widths are hardwired to 64 bits, machine interrupts and the machine-mode ecall are not delegated,
  only defined interrupts are enabled, both trap vectors are direct or vectored and \<open>satp\<close> selects Bare or Sv39.\<close>

definition tvec_legal :: "u64 \<Rightarrow> bool" where
  "tvec_legal v \<longleftrightarrow> v AND 3 < 2"

definition satp_legal :: "u64 \<Rightarrow> bool" where
  "satp_legal v \<longleftrightarrow> (let mode = drop_bit SATP_MODE_SHIFT v AND SATP_MODE_MASK in mode = SATP_MODE_BARE \<or> mode = SATP_MODE_SV39)"

definition status_inv :: "u64 \<Rightarrow> u64 \<Rightarrow> bool" where
  "status_inv m s \<longleftrightarrow> s = m AND SSTATUS_VIEW \<and> mpp_of m \<noteq> 2 \<and> m AND (MSTATUS_UXL OR MSTATUS_SXL) = MSTATUS_DEFAULT_RV64"

definition csrs_inv :: "csrs \<Rightarrow> bool" where
  "csrs_inv c \<longleftrightarrow> status_inv (csr_mstatus c) (csr_sstatus c)
     \<and> csr_mideleg c AND NOT S_INTERRUPTS = 0 \<and> \<not> bit (csr_medeleg c) 11 \<and> csr_mie c AND NOT MIE_WRITABLE = 0
     \<and> tvec_legal (csr_mtvec c) \<and> tvec_legal (csr_stvec c) \<and> satp_legal (csr_satp c)"

lemma status_inv_bits: "status_inv m s \<longleftrightarrow>
    (\<forall>n. bit s n \<longleftrightarrow> bit m n \<and> bit SSTATUS_VIEW n) \<and> (bit m 12 \<longrightarrow> bit m 11)
    \<and> bit m 33 \<and> bit m 35 \<and> \<not> bit m 32 \<and> \<not> bit m 34"
proof -
  have "m AND (MSTATUS_UXL OR MSTATUS_SXL) = MSTATUS_DEFAULT_RV64
      \<longleftrightarrow> (\<forall>n. bit m n \<and> n \<in> {32, 33, 34, 35} \<longleftrightarrow> n \<in> {33, 35})"
    unfolding u64_eq_bits by (rule arg_cong [where f = All], rule ext) (auto simp: bit_and_iff bit_or_iff csr_bits)
  also have "\<dots> \<longleftrightarrow> bit m 33 \<and> bit m 35 \<and> \<not> bit m 32 \<and> \<not> bit m 34"
  proof
    assume h: "\<forall>n. bit m n \<and> n \<in> {32, 33, 34, 35} \<longleftrightarrow> n \<in> {33, 35}"
    show "bit m 33 \<and> bit m 35 \<and> \<not> bit m 32 \<and> \<not> bit m 34"
      using h [rule_format, of 32] h [rule_format, of 33] h [rule_format, of 34] h [rule_format, of 35] by simp
  qed auto
  finally show ?thesis
    unfolding status_inv_def mpp_of_eq_2 u64_eq_bits [of s] by (simp add: bit_and_iff)
qed

lemma status_invI:
  assumes "\<And>n. bit s n \<longleftrightarrow> bit m n \<and> bit SSTATUS_VIEW n" "bit m 12 \<Longrightarrow> bit m 11"
    "bit m 33" "bit m 35" "\<not> bit m 32" "\<not> bit m 34"
  shows "status_inv m s"
  unfolding status_inv_bits using assms by blast

lemma status_invD:
  assumes "status_inv m s"
  shows "bit s n \<longleftrightarrow> bit m n \<and> bit SSTATUS_VIEW n" "bit m 12 \<Longrightarrow> bit m 11"
    "bit m 33" "bit m 35" "\<not> bit m 32" "\<not> bit m 34"
  using assms unfolding status_inv_bits by blast+

text \<open>A merge under a mask is a bitwise choice; this turns every status update into a table of bits.\<close>

lemma bit_merge: "bit ((x AND NOT k) OR (y AND k)) n \<longleftrightarrow> (if bit k n then bit y n else bit x n)" for x y k :: u64
  using bit_imp_le_length [of x n] by (auto simp: bit_and_iff bit_or_iff bit_not_iff)

lemma bit_clear: "bit (x AND NOT k) n \<longleftrightarrow> bit x n \<and> \<not> bit k n" for x k :: u64
  using bit_imp_le_length [of x n] by (auto simp: bit_and_iff bit_not_iff)

lemma bit_not_u64: "bit (NOT k) n \<longleftrightarrow> n < 64 \<and> \<not> bit k n" for k :: u64
  by (simp add: bit_not_iff)

lemmas status_ops = bit_not_u64 bit_or_iff bit_and_iff csr_bits


lemma bit_privilege_mpp:
  "bit (push_bit MSTATUS_MPP_SHIFT (ucast (privilege_to_u8 p) :: u64)) n \<longleftrightarrow>
     (n = 11 \<and> p \<noteq> User) \<or> (n = 12 \<and> p = Machine)"
proof (cases p)
  case User then show ?thesis by (simp add: csr_fields)
next
  case Supervisor then show ?thesis by (simp add: MSTATUS_MPP_SHIFT_def) (use bit_one_hot [of 11 n] in simp)
next
  case Machine then show ?thesis by (simp add: MSTATUS_MPP_SHIFT_def) (use bit_two_hot [of 11 n] in auto)
qed

lemma bit_trap_mstatus: "bit (trap_mstatus p m) n \<longleftrightarrow>
    (if n = 3 then False else if n = 7 then bit m 3 else if n = 11 then p \<noteq> User
     else if n = 12 then p = Machine else bit m n)"
  unfolding trap_mstatus_def Let_def bit_clear bit_or_iff if_distrib [of "\<lambda>w. bit w n"] csr_bits bit_privilege_mpp
  by auto

lemma bit_trap_sstatus: "bit (trap_sstatus p s) n \<longleftrightarrow>
    (if n = 1 then False else if n = 5 then bit s 1 else if n = 8 then p = Supervisor else bit s n)"
  unfolding trap_sstatus_def Let_def bit_clear bit_or_iff if_distrib [of "\<lambda>w. bit w n"] csr_bits by auto

lemma bit_mret_mstatus: "bit (mret_mstatus m) n \<longleftrightarrow>
    (if n = 3 then bit m 7 else if n = 7 then True else if n = 11 \<or> n = 12 then False
     else if n = 17 then bit m 17 \<and> mpp_of m = 3 else bit m n)"
  unfolding mret_mstatus_def Let_def bit_clear bit_or_iff if_distrib [of "\<lambda>w. bit w n"] csr_bits by auto

lemma bit_sret_sstatus: "bit (sret_sstatus s) n \<longleftrightarrow>
    (if n = 1 then bit s 5 else if n = 5 then True else if n = 8 then False else bit s n)"
  unfolding sret_sstatus_def Let_def bit_clear bit_or_iff if_distrib [of "\<lambda>w. bit w n"] csr_bits by auto

lemmas status_bits = bit_trap_mstatus bit_trap_sstatus bit_mret_mstatus bit_sret_sstatus

lemma status_inv_mark_fs_dirty:
  assumes "status_inv m s"
  shows "status_inv ((m AND NOT MSTATUS_FS) OR MSTATUS_FS_DIRTY) ((s AND NOT MSTATUS_FS) OR MSTATUS_FS_DIRTY)"
  by (rule status_invI) (auto simp: status_ops status_invD [OF assms])

lemma status_inv_write_sstatus:
  assumes "status_inv m s"
  shows "status_inv ((m AND NOT SSTATUS_WRITABLE) OR (v AND SSTATUS_WRITABLE))
    (((m AND NOT SSTATUS_WRITABLE) OR (v AND SSTATUS_WRITABLE)) AND (SSTATUS_WRITABLE OR MSTATUS_UXL))"
  by (rule status_invI) (auto simp: status_ops status_invD [OF assms])

lemma status_inv_trap_m:
  assumes "status_inv m s"
  shows "status_inv (trap_mstatus p m) s"
  by (rule status_invI) (auto simp: status_bits status_ops status_invD [OF assms])

lemma status_inv_trap_s:
  assumes "status_inv m s"
  shows "status_inv ((m AND NOT SSTATUS_TRAP) OR (trap_sstatus p s AND SSTATUS_TRAP)) (trap_sstatus p s)"
  by (rule status_invI) (auto simp: status_bits status_ops status_invD [OF assms])

lemma status_inv_mret:
  assumes "status_inv m s"
  shows "status_inv (mret_mstatus m) s"
  by (rule status_invI) (auto simp: status_bits status_ops status_invD [OF assms])

lemma status_inv_sret:
  assumes "status_inv m s"
  shows "status_inv (((m AND NOT SSTATUS_TRAP) OR (sret_sstatus s AND SSTATUS_TRAP)) AND NOT MSTATUS_MPRV) (sret_sstatus s)"
  by (rule status_invI) (auto simp: status_bits status_ops status_invD [OF assms])

lemma status_inv_new_mstatus:
  assumes "bit m 12 \<Longrightarrow> bit m 11" "bit m 33" "bit m 35" "\<not> bit m 32" "\<not> bit m 34"
  shows "status_inv m (m AND SSTATUS_VIEW)"
  using assms by (intro status_invI) (auto simp: bit_and_iff)

lemma tvec_legal_warl [simp]: "tvec_legal (warl_tvec v)"
proof -
  have "(v AND NOT 3) AND 3 = 0" by (rule bit_word_eqI) (auto simp: bit_simps)
  then show ?thesis by (simp add: tvec_legal_def warl_tvec_def not_le)
qed

lemma satp_legal_warl [simp]: "satp_legal (warl_satp v)"
proof -
  have "drop_bit SATP_MODE_SHIFT (v AND NOT (push_bit SATP_MODE_SHIFT SATP_MODE_MASK)) AND SATP_MODE_MASK = 0"
    by (rule bit_word_eqI) (auto simp: bit_simps csr_fields)
  then show ?thesis by (auto simp: satp_legal_def warl_satp_def Let_def csr_fields)
qed

lemma mark_fs_dirty_inv [inv_intros]: "csrs_inv c \<Longrightarrow> csrs_inv (mark_fs_dirty c)"
  by (auto simp: mark_fs_dirty_def csrs_inv_def intro: status_inv_mark_fs_dirty)

lemma trap_to_m_inv: "csrs_inv (cpu_csrs s) \<Longrightarrow> csrs_inv (cpu_csrs (trap_to_m i code epc tval s))"
  by (simp add: trap_to_m_def Let_def csrs_inv_def status_inv_trap_m)

lemma trap_to_s_inv: "csrs_inv (cpu_csrs s) \<Longrightarrow> csrs_inv (cpu_csrs (trap_to_s i code epc tval s))"
  by (simp add: trap_to_s_def Let_def csrs_inv_def status_inv_trap_s)

lemma cpu_trap_inv [inv_intros]: "csrs_inv (cpu_csrs s) \<Longrightarrow> csrs_inv (cpu_csrs (cpu_trap t epc s))"
  by (simp add: cpu_trap_def Let_def clear_reservation_def trap_to_m_inv trap_to_s_inv split: prod.split)

lemma do_mret_inv [inv_intros]: "csrs_inv (cpu_csrs s) \<Longrightarrow> csrs_inv (cpu_csrs (do_mret s))"
  by (simp add: do_mret_def Let_def clear_reservation_def csrs_inv_def status_inv_mret)

lemma do_sret_inv [inv_intros]: "csrs_inv (cpu_csrs s) \<Longrightarrow> csrs_inv (cpu_csrs (do_sret s))"
  by (simp add: do_sret_def Let_def clear_reservation_def csrs_inv_def status_inv_sret)

lemma write_mstatus_inv: "csrs_inv c \<Longrightarrow> csrs_inv (write_mstatus v c)"
proof -
  assume c: "csrs_inv c"
  define m1 where "m1 = (v AND MSTATUS_WRITABLE) OR (csr_mstatus c AND (MSTATUS_UXL OR MSTATUS_SXL))"
  define m2 where "m2 = (if mpp_of m1 = 2 then m1 AND NOT MSTATUS_MPP else m1)"
  from c have s: "status_inv (csr_mstatus c) (csr_sstatus c)" by (simp add: csrs_inv_def)
  have "bit m1 33" "bit m1 35" "\<not> bit m1 32" "\<not> bit m1 34"
    by (simp_all add: m1_def status_ops status_invD [OF s])
  then have "status_inv m2 (m2 AND SSTATUS_VIEW)"
    by (intro status_inv_new_mstatus) (auto simp: m2_def status_ops mpp_of_eq_2 split: if_splits)
  with c show ?thesis unfolding write_mstatus_def Let_def m1_def [symmetric] m2_def [symmetric] by (simp add: csrs_inv_def)
qed

lemma write_sstatus_inv: "csrs_inv c \<Longrightarrow> csrs_inv (write_sstatus v c)"
  unfolding write_sstatus_def Let_def csrs_inv_def using status_inv_write_sstatus [of "csr_mstatus c" "csr_sstatus c" v] by simp

lemma csr_write_inv [inv_intros]:
  assumes "csrs_inv (cpu_csrs s)"
  shows "csrs_inv (cpu_csrs (csr_write a v s))"
proof -
  let ?c = "cpu_csrs s"
  have plain: "csrs_inv (?c\<lparr> csr_fflags := x \<rparr>)" "csrs_inv (?c\<lparr> csr_frm := x \<rparr>)"
    "csrs_inv (?c\<lparr> csr_fflags := x, csr_frm := y \<rparr>)" "csrs_inv (?c\<lparr> csr_mscratch := x \<rparr>)"
    "csrs_inv (?c\<lparr> csr_mepc := x \<rparr>)" "csrs_inv (?c\<lparr> csr_mcause := x \<rparr>)" "csrs_inv (?c\<lparr> csr_mtval := x \<rparr>)"
    "csrs_inv (?c\<lparr> csr_mip := x \<rparr>)" "csrs_inv (?c\<lparr> csr_sscratch := x \<rparr>)" "csrs_inv (?c\<lparr> csr_sepc := x \<rparr>)"
    "csrs_inv (?c\<lparr> csr_scause := x \<rparr>)" "csrs_inv (?c\<lparr> csr_stval := x \<rparr>)" "csrs_inv (?c\<lparr> csr_mcounteren := x \<rparr>)"
    "csrs_inv (?c\<lparr> csr_scounteren := x \<rparr>)" "csrs_inv (?c\<lparr> csr_menvcfg := x \<rparr>)"
    "csrs_inv (?c\<lparr> csr_stimecmp := x, csr_mip := y \<rparr>)" for x y
    using assms by (simp_all add: csrs_inv_def)
  have warl: "csrs_inv (?c\<lparr> csr_mtvec := warl_tvec v \<rparr>)" "csrs_inv (?c\<lparr> csr_stvec := warl_tvec v \<rparr>)"
    "csrs_inv (?c\<lparr> csr_satp := warl_satp v \<rparr>)" using assms by (simp_all add: csrs_inv_def)
  have mask11: "\<not> bit (v AND NOT (push_bit 11 1)) 11" unfolding bit_clear bit_one_hot by simp
  have masked: "csrs_inv (?c\<lparr> csr_medeleg := v AND NOT (push_bit 11 1) \<rparr>)"
    "csrs_inv (?c\<lparr> csr_mideleg := v AND S_INTERRUPTS \<rparr>)" "csrs_inv (?c\<lparr> csr_mie := v AND MIE_WRITABLE \<rparr>)"
    using assms mask11 by (simp_all add: csrs_inv_def disjoint_mask_iff bit_and_iff)
  have sie: "csrs_inv (?c\<lparr> csr_mie := (csr_mie ?c AND NOT (csr_mideleg ?c)) OR (v AND csr_mideleg ?c) \<rparr>)"
    using assms by (simp add: csrs_inv_def disjoint_mask_iff bit_merge csr_bits) blast
  show ?thesis
    unfolding csr_write_def Let_def
    using assms plain warl masked sie cpu_trap_inv [OF assms] write_mstatus_inv [OF assms] write_sstatus_inv [OF assms]
      plain(1-3) [THEN mark_fs_dirty_inv]
    by (simp only: if_distrib [of cpu_csrs] if_distrib [of csrs_inv]) simp
qed

lemma cpu_new_inv [inv_intros]: "csrs_inv (cpu_csrs (cpu_new b m dm misa sp pc dv))"
proof -
  have "status_inv (MSTATUS_DEFAULT_RV64 OR MSTATUS_FS_INIT) ((MSTATUS_DEFAULT_RV64 OR MSTATUS_FS_INIT) AND SSTATUS_VIEW)"
    "status_inv MSTATUS_DEFAULT_RV64 (MSTATUS_DEFAULT_RV64 AND SSTATUS_VIEW)"
    by (rule status_inv_new_mstatus; simp add: status_ops)+
  then show ?thesis
    by (simp add: cpu_new_def Let_def csrs_inv_def csrs_default_def tvec_legal_def satp_legal_def SATP_MODE_BARE_def SATP_MODE_MASK_def)
qed

lemma pre_tick_inv [inv_intros]: "csrs_inv (cpu_csrs s) \<Longrightarrow> csrs_inv (cpu_csrs (fst (pre_tick g s)))"
  by (auto simp: pre_tick_def note_panic_def track_pc_def Let_def csrs_inv_def split: option.split)

subsection \<open>The invariant of the control registers\<close>

datatype arch_op = CsrWrite csr_addr u64 | TakeTrap trap u64 | Mret_op | Sret_op | FpDirty | Tick soc_signals

fun arch_step :: "arch_op \<Rightarrow> cpu \<Rightarrow> cpu" where
  "arch_step (CsrWrite a v) s = csr_write a v s"
| "arch_step (TakeTrap t epc) s = cpu_trap t epc s"
| "arch_step Mret_op s = do_mret s"
| "arch_step Sret_op s = do_sret s"
| "arch_step FpDirty s = upd_csrs mark_fs_dirty s"
| "arch_step (Tick g) s = fst (pre_tick g s)"

lemma arch_step_inv: "csrs_inv (cpu_csrs s) \<Longrightarrow> csrs_inv (cpu_csrs (arch_step opr s))"
  by (cases opr) (simp_all add: inv_intros)

lemma arch_run_inv: "csrs_inv (cpu_csrs s) \<Longrightarrow> csrs_inv (cpu_csrs (fold arch_step ops s))"
  by (induction ops arbitrary: s) (simp_all add: arch_step_inv)

lemma bit_MSTATUS_SD: "bit MSTATUS_SD n \<longleftrightarrow> n = 63"
  unfolding MSTATUS_SD_def bit_one_hot by simp

lemma with_sd_view:
  assumes "status_inv m s"
  shows "with_sd s = with_sd m AND (SSTATUS_VIEW OR MSTATUS_SD)"
proof -
  have fs: "(x AND NOT MSTATUS_SD) AND MSTATUS_FS = MSTATUS_FS_DIRTY \<longleftrightarrow> bit x 13 \<and> bit x 14" for x :: u64
  proof
    assume h: "(x AND NOT MSTATUS_SD) AND MSTATUS_FS = MSTATUS_FS_DIRTY"
    have "bit MSTATUS_FS_DIRTY 13" "bit MSTATUS_FS_DIRTY 14" by (simp_all add: csr_bits)
    then show "bit x 13 \<and> bit x 14" unfolding h [symmetric] by (simp add: bit_and_iff)
  qed (auto simp: u64_eq_bits status_ops bit_MSTATUS_SD)
  have eq: "bit (with_sd x) n \<longleftrightarrow> (if n = 63 then bit x 13 \<and> bit x 14 else bit x n)" for x n
    unfolding with_sd_def Let_def fs by (auto simp: bit_clear bit_or_iff bit_MSTATUS_SD)
  show ?thesis
    unfolding u64_eq_bits bit_and_iff bit_or_iff eq bit_MSTATUS_SD status_invD(1) [OF assms] by (auto simp: csr_bits)
qed

lemma csr_read_status:
  "csr_read s SSTATUS = with_sd (csr_sstatus (cpu_csrs s))" "csr_read s MSTATUS = with_sd (csr_mstatus (cpu_csrs s))"
  by (simp_all add: csr_read_def Let_def csr_addrs)

text \<open>C12. From reset, and through any sequence of CSR writes (any address, any value), traps, MRET and SRET,
  floating-point state updates and cycle starts, the control registers stay legal: \<open>sstatus\<close> is the view of
  \<open>mstatus\<close> although the two are stored separately, MPP never holds the reserved encoding, UXL and SXL stay
  at 64 bits, no machine interrupt and no machine-mode ecall is delegated, the trap vectors and \<open>satp\<close> hold
  supported modes. Software reading \<open>sstatus\<close> therefore sees exactly the supervisor fields of \<open>mstatus\<close>.\<close>

theorem control_registers_stay_legal:
  fixes b m dm misa sp pc dv ops
  defines "s \<equiv> fold arch_step ops (cpu_new b m dm misa sp pc dv)"
  shows "csrs_inv (cpu_csrs s) \<and> csr_read s SSTATUS = csr_read s MSTATUS AND (SSTATUS_VIEW OR MSTATUS_SD)"
proof -
  have inv: "csrs_inv (cpu_csrs s)" unfolding s_def by (rule arch_run_inv [OF cpu_new_inv])
  then have "status_inv (csr_mstatus (cpu_csrs s)) (csr_sstatus (cpu_csrs s))" by (simp add: csrs_inv_def)
  with inv show ?thesis by (simp add: csr_read_status with_sd_view)
qed

subsection \<open>Trap entry and return\<close>

lemma privilege_le_Supervisor [simp]: "p \<le> Supervisor \<longleftrightarrow> p \<noteq> Machine"
  unfolding less_eq_privilege_mode_def by (cases p) (simp_all add: word_le_nat_alt)

lemma privilege_le_Machine [simp]: "p \<le> Machine"
  unfolding less_eq_privilege_mode_def by (cases p) simp_all

lemma privilege_of_mpp: "privilege_from_u8 (ucast (mpp_of (trap_mstatus p m))) = p"
  by (cases p) (simp_all add: mpp_of_cases bit_trap_mstatus privilege_from_u8_def)

lemma delegates_clear [simp]: "delegates_to_s i c (clear_reservation s) = delegates_to_s i c s"
  by (simp add: delegates_to_s_def clear_reservation_def)

lemma clear_fields [simp]: "cpu_direct_mode (clear_reservation s) = cpu_direct_mode s"
  "cpu_traps_taken (trap_to_m i c epc tv (clear_reservation s)) = cpu_traps_taken s"
  "cpu_traps_taken (trap_to_s i c epc tv (clear_reservation s)) = cpu_traps_taken s"
  by (simp_all add: clear_reservation_def trap_to_m_def trap_to_s_def Let_def)

lemma cpu_trap_m:
  assumes "\<not> cpu_direct_mode s" "trap_cause t = (i, code)" "\<not> delegates_to_s i code s"
  shows "cpu_trap t epc s =
    (trap_to_m i code epc (trap_tval t) (clear_reservation s))\<lparr> cpu_traps_taken := cpu_traps_taken s + 1 \<rparr>"
  using assms by (simp add: cpu_trap_def Let_def)

lemma cpu_trap_s:
  assumes "\<not> cpu_direct_mode s" "trap_cause t = (i, code)" "delegates_to_s i code s"
  shows "cpu_trap t epc s =
    (trap_to_s i code epc (trap_tval t) (clear_reservation s))\<lparr> cpu_traps_taken := cpu_traps_taken s + 1 \<rparr>"
  using assms by (simp add: cpu_trap_def Let_def)

lemma trap_m_effect:
  assumes "\<not> cpu_direct_mode s" "trap_cause t = (i, code)" "\<not> delegates_to_s i code s"
  shows "cpu_privilege (cpu_trap t epc s) = Machine" "cpu_pc (cpu_trap t epc s) = vector_target (csr_mtvec (cpu_csrs s)) i code"
    "csr_mcause (cpu_csrs (cpu_trap t epc s)) = cause_value i code" "csr_mepc (cpu_csrs (cpu_trap t epc s)) = epc"
    "csr_mtval (cpu_csrs (cpu_trap t epc s)) = trap_tval t" "cpu_regs (cpu_trap t epc s) = cpu_regs s"
    "csr_mstatus (cpu_csrs (cpu_trap t epc s)) = trap_mstatus (cpu_privilege s) (csr_mstatus (cpu_csrs s))"
    "csr_sstatus (cpu_csrs (cpu_trap t epc s)) = csr_sstatus (cpu_csrs s)"
  by (simp_all add: cpu_trap_m [OF assms] trap_to_m_def clear_reservation_def Let_def)

lemma trap_s_effect:
  assumes "\<not> cpu_direct_mode s" "trap_cause t = (i, code)" "delegates_to_s i code s"
  shows "cpu_privilege (cpu_trap t epc s) = Supervisor" "cpu_pc (cpu_trap t epc s) = vector_target (csr_stvec (cpu_csrs s)) i code"
    "csr_scause (cpu_csrs (cpu_trap t epc s)) = cause_value i code" "csr_sepc (cpu_csrs (cpu_trap t epc s)) = epc"
    "csr_stval (cpu_csrs (cpu_trap t epc s)) = trap_tval t" "cpu_regs (cpu_trap t epc s) = cpu_regs s"
    "csr_sstatus (cpu_csrs (cpu_trap t epc s)) = trap_sstatus (cpu_privilege s) (csr_sstatus (cpu_csrs s))"
    "csr_mstatus (cpu_csrs (cpu_trap t epc s)) = (csr_mstatus (cpu_csrs s) AND NOT SSTATUS_TRAP)
       OR (trap_sstatus (cpu_privilege s) (csr_sstatus (cpu_csrs s)) AND SSTATUS_TRAP)"
  by (simp_all add: cpu_trap_s [OF assms] trap_to_s_def clear_reservation_def Let_def)

lemma mret_effect:
  "cpu_pc (do_mret s) = csr_mepc (cpu_csrs s) AND NOT 1" "cpu_regs (do_mret s) = cpu_regs s"
  "cpu_privilege (do_mret s) = privilege_from_u8 (ucast (mpp_of (csr_mstatus (cpu_csrs s))))"
  "csr_mstatus (cpu_csrs (do_mret s)) = mret_mstatus (csr_mstatus (cpu_csrs s))"
  "csr_sstatus (cpu_csrs (do_mret s)) = csr_sstatus (cpu_csrs s)"
  by (simp_all add: do_mret_def Let_def clear_reservation_def)

lemma sret_effect:
  "cpu_pc (do_sret s) = csr_sepc (cpu_csrs s) AND NOT 1" "cpu_regs (do_sret s) = cpu_regs s"
  "cpu_privilege (do_sret s) = (if bit (csr_sstatus (cpu_csrs s)) 8 then Supervisor else User)"
  "csr_sstatus (cpu_csrs (do_sret s)) = sret_sstatus (csr_sstatus (cpu_csrs s))"
  "csr_mstatus (cpu_csrs (do_sret s)) = ((csr_mstatus (cpu_csrs s) AND NOT SSTATUS_TRAP)
     OR (sret_sstatus (csr_sstatus (cpu_csrs s)) AND SSTATUS_TRAP)) AND NOT MSTATUS_MPRV"
  by (simp_all add: do_sret_def Let_def clear_reservation_def csr_bits)

text \<open>C15. A trap goes to supervisor mode exactly when the hart runs below machine mode and the cause is
  delegated, never lowers the privilege, records cause, \<open>epc\<close> and \<open>tval\<close>, masks the interrupts of the mode it
  enters and jumps through that mode's vector. The matching return instruction resumes the interrupted
  program: the same privilege mode, the saved address (bit 0 cleared), the same registers, and every
  \<open>mstatus\<close> bit as before except the stacked fields and MPRV.\<close>

theorem trap_return_resumes:
  fixes epc :: u64
  assumes "\<not> cpu_direct_mode s" "csrs_inv (cpu_csrs s)" "trap_cause t = (i, code)"
  defines "s1 \<equiv> cpu_trap t epc s"
  shows "cpu_privilege s \<le> cpu_privilege s1 \<and>
    (if delegates_to_s i code s then
       cpu_privilege s1 = Supervisor \<and> cpu_pc s1 = vector_target (csr_stvec (cpu_csrs s)) i code
       \<and> csr_scause (cpu_csrs s1) = cause_value i code \<and> csr_sepc (cpu_csrs s1) = epc \<and> csr_stval (cpu_csrs s1) = trap_tval t
       \<and> csr_mstatus (cpu_csrs s1) AND MSTATUS_SIE = 0
       \<and> cpu_privilege (do_sret s1) = cpu_privilege s \<and> cpu_pc (do_sret s1) = epc AND NOT 1
       \<and> cpu_regs (do_sret s1) = cpu_regs s
       \<and> (\<forall>n. n \<notin> {5, 8, 17} \<longrightarrow> bit (csr_mstatus (cpu_csrs (do_sret s1))) n = bit (csr_mstatus (cpu_csrs s)) n)
     else
       cpu_privilege s1 = Machine \<and> cpu_pc s1 = vector_target (csr_mtvec (cpu_csrs s)) i code
       \<and> csr_mcause (cpu_csrs s1) = cause_value i code \<and> csr_mepc (cpu_csrs s1) = epc \<and> csr_mtval (cpu_csrs s1) = trap_tval t
       \<and> csr_mstatus (cpu_csrs s1) AND MSTATUS_MIE = 0
       \<and> cpu_privilege (do_mret s1) = cpu_privilege s \<and> cpu_pc (do_mret s1) = epc AND NOT 1
       \<and> cpu_regs (do_mret s1) = cpu_regs s
       \<and> (\<forall>n. n \<notin> {7, 11, 12, 17} \<longrightarrow> bit (csr_mstatus (cpu_csrs (do_mret s1))) n = bit (csr_mstatus (cpu_csrs s)) n))"
proof (cases "delegates_to_s i code s")
  case True
  then have p: "cpu_privilege s \<noteq> Machine" by (simp add: delegates_to_s_def Let_def)
  from assms(2) have view: "bit (csr_sstatus (cpu_csrs s)) n \<longleftrightarrow> bit (csr_mstatus (cpu_csrs s)) n \<and> bit SSTATUS_VIEW n" for n
    by (simp add: csrs_inv_def status_inv_def bit_and_iff)
  have "(if cpu_privilege s = Supervisor then Supervisor else User) = cpu_privilege s"
    using p by (cases "cpu_privilege s") simp_all
  then show ?thesis
    unfolding s1_def sret_effect trap_s_effect [OF assms(1,3) True] using True p
    by (simp add: bit_trap_sstatus bit_sret_sstatus bit_merge bit_clear csr_bits view)
next
  case False
  then show ?thesis
    unfolding s1_def mret_effect trap_m_effect [OF assms(1,3) False]
    by (simp add: privilege_of_mpp bit_trap_mstatus bit_mret_mstatus csr_bits)
qed

text \<open>A hart that firmware has taken to supervisor mode with supervisor ecalls delegated.\<close>

definition smode_example :: cpu where
  "smode_example = fold arch_step [CsrWrite MEDELEG 0x200, CsrWrite STVEC 0x80200000, CsrWrite MSTATUS 0x80A, Mret_op]
     (cpu_new \<lparr> bus_mem = (\<lambda>_. 0), bus_width_bytes = 8, bus_latency_cycles = 4 \<rparr> (mmu_new 4 8 2 5 False) False None 0 0x80000000 100)"

theorem trap_return_resumes_witness:
  "cpu_privilege smode_example = Supervisor
   \<and> cpu_pc (do_sret (cpu_trap EnvironmentCallFromSMode 0x80001004 smode_example)) = 0x80001004
   \<and> cpu_privilege (do_sret (cpu_trap EnvironmentCallFromSMode 0x80001004 smode_example)) = Supervisor"
proof -
  have inv: "csrs_inv (cpu_csrs smode_example)" unfolding smode_example_def by (rule arch_run_inv [OF cpu_new_inv])
  have d: "\<not> cpu_direct_mode smode_example" "delegates_to_s False 9 smode_example" "cpu_privilege smode_example = Supervisor"
    by code_simp+
  have m: "(0x80001004 :: u64) AND NOT 1 = 0x80001004" by code_simp
  from trap_return_resumes [OF d(1) inv, of EnvironmentCallFromSMode False 9 "0x80001004"] d m show ?thesis by simp
qed

subsection \<open>Interrupts\<close>

text \<open>The privileged specification's rule: the interrupt of cause \<open>n\<close> is taken when it is pending and enabled
  and its target mode is above the current one, or is the current one with interrupts globally enabled.\<close>

definition irq_target :: "cpu \<Rightarrow> nat \<Rightarrow> privilege_mode" where
  "irq_target s n = (if bit (csr_mideleg (cpu_csrs s)) n then Supervisor else Machine)"

definition globally_enabled :: "cpu \<Rightarrow> privilege_mode \<Rightarrow> bool" where
  "globally_enabled s p \<longleftrightarrow> cpu_privilege s < p
     \<or> cpu_privilege s = p \<and> bit (csr_mstatus (cpu_csrs s)) (if p = Machine then 3 else 1)"

definition takeable :: "cpu \<Rightarrow> nat \<Rightarrow> bool" where
  "takeable s n \<longleftrightarrow> bit (csr_mip (cpu_csrs s)) n \<and> bit (csr_mie (cpu_csrs s)) n \<and> globally_enabled s (irq_target s n)"

definition irq_trap :: "nat \<Rightarrow> trap" where
  "irq_trap n = (if n = 11 then MachineExternalInterrupt else if n = 3 then MachineSoftwareInterrupt
     else if n = 7 then MachineTimerInterrupt else if n = 9 then SupervisorExternalInterrupt
     else if n = 1 then SupervisorSoftwareInterrupt else SupervisorTimerInterrupt)"

definition irq_priority :: "nat list" where
  "irq_priority = [11, 3, 7, 9, 1, 5]"

lemma check_interrupt_takeable:
  "check_interrupt s (push_bit n 1) (push_bit n 1) (push_bit n 1) =
     (if takeable s n then Some (irq_to_trap (push_bit n 1)) else None)"
  by (cases "cpu_privilege s"; cases "bit (csr_mideleg (cpu_csrs s)) n")
     (simp_all add: check_interrupt_def Let_def and_one_hot takeable_def globally_enabled_def irq_target_def
        less_privilege_mode_def csr_bits del: push_bit_of_1)

lemma irq_to_trap_one_hot:
  assumes "n \<in> set irq_priority"
  shows "irq_to_trap (push_bit n 1) = irq_trap n"
proof -
  from assms have "n = 11 \<or> n = 3 \<or> n = 7 \<or> n = 9 \<or> n = 1 \<or> n = 5" by (auto simp: irq_priority_def)
  then show ?thesis by (elim disjE) (hypsubst, code_simp)+
qed

lemma check_interrupts_find:
  "check_interrupts s = map_option irq_trap (find (takeable s) irq_priority)"
proof -
  have all: "first_interrupt s (map (\<lambda>n. (push_bit n 1, push_bit n 1, push_bit n 1)) ns) =
      map_option irq_trap (find (takeable s) ns)" if "set ns \<subseteq> set irq_priority" for ns
    using that by (induction ns) (simp_all add: check_interrupt_takeable irq_to_trap_one_hot del: push_bit_of_1)
  have src: "irq_sources = map (\<lambda>n. (push_bit n 1, push_bit n 1, push_bit n 1)) irq_priority"
    by (simp add: irq_sources_def irq_priority_def csr_fields)
  show ?thesis unfolding check_interrupts_def src by (rule all) simp
qed

lemma irq_trap_cause: "n \<in> set irq_priority \<Longrightarrow> trap_cause (irq_trap n) = (True, of_nat n) \<and> n < 64"
  by (auto simp: irq_priority_def irq_trap_def)

lemma delegates_irq:
  "n < 64 \<Longrightarrow> delegates_to_s True (of_nat n) s \<longleftrightarrow> cpu_privilege s \<noteq> Machine \<and> bit (csr_mideleg (cpu_csrs s)) n"
  by (simp add: delegates_to_s_def Let_def unat_of_nat_u64 bit_iff_odd_drop_bit even_iff_mod_2_eq_zero and_one_eq)

lemma globally_enabled_below: "globally_enabled s Supervisor \<Longrightarrow> cpu_privilege s \<noteq> Machine"
  by (auto simp: globally_enabled_def less_privilege_mode_def word_less_nat_alt)



text \<open>The comment on \<open>sw_seip\<close> says that \<open>mip\<close>.SEIP is the OR of the software-written bit and the
  interrupt controller's line. A read-modify-write of \<open>mip\<close> (CSRRS of any other bit) while the line is
  asserted writes the line's value into \<open>sw_seip\<close>: SEIP then stays pending in every later cycle after the
  controller has dropped its line, although software never wrote it.\<close>

theorem seip_line_latched_by_rmw:
  assumes "bit (csr_mip (cpu_csrs s)) 9" "sig_exit g = None" "\<not> sig_kernel_panic g"
  shows "bit (csr_mip (cpu_csrs (fst (pre_tick g (csr_write MIP (csr_read s MIP OR v) s))))) 9"
proof -
  let ?s = "csr_write MIP (csr_read s MIP OR v) s"
  have rd: "csr_read s MIP = csr_mip (cpu_csrs s)" by (simp add: csr_read_def Let_def csr_addrs)
  have wr: "csr_write MIP x s = (upd_csrs (\<lambda>c. c\<lparr> csr_mip := (csr_mip c AND NOT S_INTERRUPTS) OR (x AND S_INTERRUPTS) \<rparr>) s)
     \<lparr> cpu_sw_seip := (x AND MIP_SEIP \<noteq> 0) \<rparr>" for x by (simp add: csr_write_def csr_addrs)
  have sw: "cpu_sw_seip ?s"
    unfolding wr rd MIP_SEIP_def and_one_hot using assms(1) by (simp add: bit_or_iff and_one_hot del: push_bit_of_1)
  have pend: "bit (csr_mip (cpu_csrs ?s)) 9" unfolding wr rd using assms(1)
    by (simp add: bit_merge csr_bits) (simp add: bit_or_iff)
  have line: "bit (set_line b l m) 9 \<longleftrightarrow> bit m 9" if "l \<in> {MIP_MTIP, MIP_MSIP, MIP_MEIP, MIP_STIP}" for b l m
    using that by (auto simp: set_line_def bit_or_iff bit_clear csr_bits)
  have tp: "csr_mip (cpu_csrs (track_pc u)) = csr_mip (cpu_csrs u)" "cpu_sw_seip (track_pc u) = cpu_sw_seip u" for u
    by (simp_all add: track_pc_def)
  have "bit (pre_tick_mip g (track_pc ?s)) 9"
    using sw pend by (simp add: pre_tick_mip_def Let_def line tp bit_or_iff csr_bits)
  with assms(2,3) show ?thesis by (simp add: pre_tick_def note_panic_def Let_def)
qed

theorem seip_line_latched_by_rmw_witness:
  "bit (csr_mip (cpu_csrs (fst (pre_tick
     \<lparr> sig_exit = None, sig_kernel_panic = False, sig_timer = False, sig_msip = False, sig_meip = False, sig_seip = False \<rparr>
     (csr_write MIP (csr_read (upd_csrs (\<lambda>c. c\<lparr> csr_mip := 0x200 \<rparr>) smode_example) MIP OR 2)
       (upd_csrs (\<lambda>c. c\<lparr> csr_mip := 0x200 \<rparr>) smode_example)))))) 9"
proof -
  have b: "bit (0x200 :: u64) 9" by code_simp
  show ?thesis by (rule seip_line_latched_by_rmw) (simp_all add: b)
qed

end
