(* ===== verification/Commit.thy ===== *)
theory Commit
  imports Rename Cpu
begin

text \<open>
  The commit stage (\<open>core/pipeline/backend/shared/commit.rs\<close>), which retires instructions from the head
  of the reorder buffer and is the only stage that changes architectural state, and the first step of
  the out-of-order engine's \<open>tick\<close> (\<open>core/pipeline/backend/o3/mod.rs\<close>), which runs it and recovers from
  what it reports. The machine is the engine (reorder buffer, queues, rename state) beside the processor
  (registers, control registers, memory).

  Trace output, the commit log, the branch predictor update, the cache simulation and the statistics
  that no CSR reads are left out: they change timing only. The in-order backend passes no load queue, no
  physical registers and no checkpoints, which is the flag \<open>en_has_prf\<close>.
\<close>

subsection \<open>The effects of one retired instruction\<close>

definition entry_next_pc :: "rob_entry \<Rightarrow> u64" where
  "entry_next_pc e = re_pc e + inst_size_as_u64 (re_inst_size e)"

definition entry_committed_next :: "rob_entry \<Rightarrow> u64" where
  "entry_committed_next e =
    (let target = (case re_bp_target e of Some t \<Rightarrow> t | None \<Rightarrow> entry_next_pc e)
     in case cs_control_flow (re_ctrl e) of
          CF_Jump \<Rightarrow> target
        | CF_Branch \<Rightarrow> (if bo_taken (re_bp_outcome e) then target else entry_next_pc e)
        | CF_Sequential \<Rightarrow> entry_next_pc e)"

definition count_retired :: "rob_entry \<Rightarrow> cpu \<Rightarrow> cpu" where
  "count_retired e s = s\<lparr> cpu_committed_next_pc := entry_committed_next e,
     cpu_instructions_retired :=
       (if re_inst e \<noteq> 0 \<and> re_inst e \<noteq> 0x13 then cpu_instructions_retired s + 1 else cpu_instructions_retired s) \<rparr>"

definition commit_registers :: "rob_entry \<Rightarrow> engine \<Rightarrow> cpu \<Rightarrow> engine \<times> cpu" where
  "commit_registers e g s =
    (let val = (case re_result e of Some v \<Rightarrow> v | None \<Rightarrow> 0);
         fl = (if re_old_phys_dst e \<noteq> re_phys_dst e then fl_reclaim (re_old_phys_dst e) (en_free_list g) else en_free_list g)
     in if cs_fp_reg_write (re_ctrl e) then
          (g\<lparr> en_scoreboard := sc_clear_if_match (re_rd e) True (re_tag e) (en_scoreboard g), en_free_list := fl,
              en_committed_map := rm_set (re_rd e) True (re_phys_dst e) (en_committed_map g) \<rparr>,
           s\<lparr> cpu_regs := regs_write_f (re_rd e) val (cpu_regs s), cpu_csrs := mark_fs_dirty (cpu_csrs s) \<rparr>)
        else if cs_reg_write (re_ctrl e) \<and> \<not> reg_is_zero (re_rd e) then
          (g\<lparr> en_scoreboard := sc_clear_if_match (re_rd e) False (re_tag e) (en_scoreboard g), en_free_list := fl,
              en_committed_map := rm_set (re_rd e) False (re_phys_dst e) (en_committed_map g) \<rparr>,
           s\<lparr> cpu_regs := regs_write (re_rd e) val (cpu_regs s) \<rparr>)
        else (g, s))"

abbreviation cpu_mem :: "cpu \<Rightarrow> byte_mem" where
  "cpu_mem s \<equiv> bus_mem (cpu_bus s)"

definition set_mem :: "byte_mem \<Rightarrow> cpu \<Rightarrow> cpu" where
  "set_mem m s = s\<lparr> cpu_bus := (cpu_bus s)\<lparr> bus_mem := m \<rparr> \<rparr>"

definition commit_pte :: "rob_entry \<Rightarrow> cpu \<Rightarrow> cpu" where
  "commit_pte e s = (case re_pte_update e of
     None \<Rightarrow> s
   | Some u \<Rightarrow> set_mem (write_store_to_memory (pu_pte_addr u) (pu_pte_value u) W_Double (cpu_mem s)) s)"

definition commit_fp_flags :: "rob_entry \<Rightarrow> cpu \<Rightarrow> cpu" where
  "commit_fp_flags e s = (if re_fp_flags e \<noteq> 0 then
     upd_csrs (\<lambda>c. mark_fs_dirty (c\<lparr> csr_fflags := csr_fflags c OR ucast (re_fp_flags e) \<rparr>)) s else s)"

definition drain_all :: "engine \<Rightarrow> cpu \<Rightarrow> engine \<times> cpu" where
  "drain_all g s = (case drain_all_committed (en_store_buffer g) (cpu_mem s) of
     (b, m) \<Rightarrow> (g\<lparr> en_store_buffer := b \<rparr>, set_mem m s))"

definition redirect_after :: "rob_entry \<Rightarrow> cpu \<Rightarrow> cpu" where
  "redirect_after e s = s\<lparr> cpu_pc := entry_next_pc e, cpu_redirect_pending := True \<rparr>"

definition commit_csr :: "csr_update \<Rightarrow> rob_entry \<Rightarrow> engine \<Rightarrow> cpu \<Rightarrow> engine \<times> cpu" where
  "commit_csr u e g s =
    (let (g1, s1) = (if cu_addr u = SATP then drain_all g s else (g, s));
         s2 = (if \<not> cu_applied u then csr_write (cu_addr u) (cu_new_val u) s1 else s1)
     in (g1, if cu_addr u = SATP then redirect_after e s2 else s2))"

definition commit_wfi :: "rob_entry \<Rightarrow> cpu \<Rightarrow> cpu" where
  "commit_wfi e s =
    (let s1 = (if csr_mie (cpu_csrs s) \<noteq> 0 \<or> csr_mip (cpu_csrs s) \<noteq> 0
               then s\<lparr> cpu_wfi_waiting := True, cpu_wfi_pc := entry_next_pc e \<rparr>
               else redirect_after e s)
     in s1\<lparr> cpu_committed_next_pc := entry_next_pc e \<rparr>)"

text \<open>LR sets the reservation. SC consumes it; without one it fails: the store is cancelled, \<open>rd\<close> becomes 1
  and fetch restarts behind it (\<open>False\<close>: the loop stops here).\<close>

definition commit_lr_sc :: "rob_entry \<Rightarrow> engine \<Rightarrow> cpu \<Rightarrow> (engine \<times> cpu) \<times> bool" where
  "commit_lr_sc e g s =
    (case re_lr_sc e of
       None \<Rightarrow> ((g, s), True)
     | Some (LrRecord paddr) \<Rightarrow> ((g, set_reservation paddr s), True)
     | Some (ScRecord paddr) \<Rightarrow>
         if check_reservation s paddr then ((g, clear_reservation s), True)
         else
           let writes = cs_reg_write (re_ctrl e) \<and> \<not> reg_is_zero (re_rd e);
               g1 = g\<lparr> en_store_buffer := sb_cancel (re_tag e) (en_store_buffer g),
                       en_prf := (if writes \<and> en_has_prf g then prf_write (re_phys_dst e) 1 (en_prf g) else en_prf g) \<rparr>;
               s1 = (if writes then s\<lparr> cpu_regs := regs_write (re_rd e) 1 (cpu_regs s) \<rparr> else s)
           in ((g1, redirect_after e s1), False))"

definition commit_store :: "rob_entry \<Rightarrow> engine \<Rightarrow> cpu \<Rightarrow> engine \<times> cpu" where
  "commit_store e g s =
    (if cs_mem_write (re_ctrl e) then
       let s1 = (if re_lr_sc e = None then
                   (case sb_find_paddr (en_store_buffer g) (re_tag e) of
                      Some paddr \<Rightarrow> (if check_reservation s paddr then clear_reservation s else s)
                    | None \<Rightarrow> s)
                 else s)
       in (g\<lparr> en_store_buffer := sb_mark_committed (re_tag e) (en_store_buffer g) \<rparr>, s1)
     else (g, s))"

definition commit_free :: "rob_entry \<Rightarrow> engine \<Rightarrow> engine" where
  "commit_free e g = g\<lparr>
     en_load_queue := (if cs_mem_read (re_ctrl e) \<and> en_has_prf g then lq_deallocate (re_tag e) (en_load_queue g) else en_load_queue g),
     en_checkpoints := (case re_checkpoint_id e of
        Some ck \<Rightarrow> (if en_has_prf g then ct_free ck (en_checkpoints g) else en_checkpoints g)
      | None \<Rightarrow> en_checkpoints g) \<rparr>"

definition sfence_vma_commit :: "sfence_vma_info \<Rightarrow> cpu \<Rightarrow> cpu" where
  "sfence_vma_commit info s =
    (let m = cpu_mmu s; v = vpn_of (sf_rs1_val info); a = ucast (sf_rs2_val info) :: u16
     in s\<lparr> cpu_mmu :=
       (if reg_is_zero (sf_rs1_idx info) then
          if reg_is_zero (sf_rs2_idx info) then mmu_flush m
          else m\<lparr> mm_dtlb := tlb_flush_asid a (mm_dtlb m), mm_itlb := tlb_flush_asid a (mm_itlb m),
                  mm_l2_tlb := l2_flush_asid a (mm_l2_tlb m) \<rparr>
        else
          if reg_is_zero (sf_rs2_idx info) then
            m\<lparr> mm_dtlb := tlb_flush_vaddr v (mm_dtlb m), mm_itlb := tlb_flush_vaddr v (mm_itlb m),
               mm_l2_tlb := l2_flush_vaddr v (mm_l2_tlb m) \<rparr>
          else m\<lparr> mm_dtlb := tlb_flush_vaddr_asid v a (mm_dtlb m), mm_itlb := tlb_flush_vaddr_asid v a (mm_itlb m),
                  mm_l2_tlb := l2_flush_vaddr_asid v a (mm_l2_tlb m) \<rparr>) \<rparr>)"

definition fence_drains :: "rob_entry \<Rightarrow> bool" where
  "fence_drains e \<longleftrightarrow> (let pred_bits = drop_bit 24 (re_inst e) AND 0xF in pred_bits AND 1 \<noteq> 0 \<or> pred_bits AND 2 \<noteq> 0)"

text \<open>The part of the loop body behind the LR/SC action.\<close>

definition commit_tail :: "rob_entry \<Rightarrow> engine \<Rightarrow> cpu \<Rightarrow> (engine \<times> cpu) \<times> bool" where
  "commit_tail e g s =
    (let (g1, s1) = commit_store e g s;
         g2 = commit_free e g1
     in if cs_system_op (re_ctrl e) = Sys_FenceI then
          case drain_all g2 s1 of (g3, s3) \<Rightarrow> ((g3, redirect_after e s3), False)
        else
          let (g3, s3) = (if cs_system_op (re_ctrl e) = Sys_Fence \<and> fence_drains e then drain_all g2 s1 else (g2, s1))
          in case re_sfence_vma e of
               Some info \<Rightarrow> ((g3, redirect_after e (clear_reservation (sfence_vma_commit info s3))), False)
             | None \<Rightarrow> ((g3, s3\<lparr> cpu_regs := regs_write 0 0 (cpu_regs s3) \<rparr>), True))"

text \<open>One retired entry. The flag says whether the loop goes on.\<close>

definition retire_entry :: "rob_entry \<Rightarrow> engine \<Rightarrow> cpu \<Rightarrow> (engine \<times> cpu) \<times> bool" where
  "retire_entry e g s =
    (let (g1, s1) = commit_registers e g (count_retired e s);
         s2 = commit_fp_flags e (commit_pte e s1);
         op = cs_system_op (re_ctrl e)
     in case re_csr_update e of
          Some u \<Rightarrow> (commit_csr u e g1 s2, False)
        | None \<Rightarrow>
            if op = Sys_Mret then let s3 = do_mret s2 in ((g1, s3\<lparr> cpu_committed_next_pc := cpu_pc s3 \<rparr>), False)
            else if op = Sys_Sret then let s3 = do_sret s2 in ((g1, s3\<lparr> cpu_committed_next_pc := cpu_pc s3 \<rparr>), False)
            else if op = Sys_Wfi then ((g1, commit_wfi e s2), False)
            else case commit_lr_sc e g1 s2 of
                   ((g3, s3), False) \<Rightarrow> ((g3, s3), False)
                 | ((g3, s3), True) \<Rightarrow> commit_tail e g3 s3)"

subsection \<open>The stage\<close>

text \<open>A faulting head leaves the reorder buffer, gives its register back and raises its trap.\<close>

definition commit_fault :: "engine \<Rightarrow> engine \<times> (trap \<times> u64) option" where
  "commit_fault g =
    (case rob_commit_head (en_rob g) of
       (r, None) \<Rightarrow> (g\<lparr> en_rob := r \<rparr>, None)
     | (r, Some e) \<Rightarrow>
         (case re_trap e of
            None \<Rightarrow> (g\<lparr> en_rob := r \<rparr>, None)
          | Some t \<Rightarrow>
              (g\<lparr> en_rob := r,
                  en_free_list := (if re_phys_dst e \<noteq> 0 then fl_reclaim (re_phys_dst e) (en_free_list g) else en_free_list g) \<rparr>,
               Some (t, re_pc e))))"

text \<open>Whether the head has to wait: a completed load behind a store without an address, an unfinished
  instruction, or an SFENCE.VMA before the committed stores have drained (a faulting head never waits).\<close>

definition head_waits :: "rob_entry \<Rightarrow> engine \<Rightarrow> bool" where
  "head_waits e g \<longleftrightarrow>
     re_state e = Completed \<and> cs_mem_read (re_ctrl e) \<and> sb_has_unresolved_store_before (en_store_buffer g) (re_tag e)
     \<or> re_state e = Issued
     \<or> re_state e \<noteq> Faulted \<and> cs_system_op (re_ctrl e) = Sys_SfenceVma \<and> sb_has_committed_stores (en_store_buffer g)"

fun commit_loop :: "nat \<Rightarrow> engine \<Rightarrow> cpu \<Rightarrow> engine \<times> cpu \<times> (trap \<times> u64) option" where
  "commit_loop 0 g s = (g, s, None)"
| "commit_loop (Suc n) g s =
    (case rob_peek_head (en_rob g) of
       None \<Rightarrow> (g, s, None)
     | Some head \<Rightarrow>
         if head_waits head g then (g, s, None)
         else if re_state head = Faulted then (case commit_fault g of (g1, t) \<Rightarrow> (g1, s, t))
         else case rob_commit_head (en_rob g) of
                (r, None) \<Rightarrow> (g\<lparr> en_rob := r \<rparr>, s, None)
              | (r, Some e) \<Rightarrow>
                  (case retire_entry e (g\<lparr> en_rob := r \<rparr>) s of
                     ((g1, s1), True) \<Rightarrow> commit_loop n g1 s1
                   | ((g1, s1), False) \<Rightarrow> (g1, s1, None)))"

definition interrupt_epc :: "engine \<Rightarrow> cpu \<Rightarrow> u64" where
  "interrupt_epc g s =
    (if cpu_wfi_waiting s then cpu_wfi_pc s
     else case rob_peek_head (en_rob g) of Some head \<Rightarrow> re_pc head | None \<Rightarrow> cpu_committed_next_pc s)"

definition drain_step :: "engine \<Rightarrow> cpu \<Rightarrow> engine \<times> cpu" where
  "drain_step g s = (case drain_one_store (en_store_buffer g, cpu_mem s) of
     (b, m) \<Rightarrow> (g\<lparr> en_store_buffer := b \<rparr>, set_mem m s))"

definition commit_stage :: "engine \<Rightarrow> cpu \<Rightarrow> engine \<times> cpu \<times> (trap \<times> u64) option" where
  "commit_stage g s =
    (case check_interrupts s of
       Some t \<Rightarrow> (g, s\<lparr> cpu_wfi_waiting := False \<rparr>, Some (t, interrupt_epc g s))
     | None \<Rightarrow>
         if cpu_wfi_waiting s then
           if csr_mip (cpu_csrs s) AND csr_mie (cpu_csrs s) \<noteq> 0 then
             (g, s\<lparr> cpu_wfi_waiting := False, cpu_pc := cpu_wfi_pc s, cpu_redirect_pending := True \<rparr>, None)
           else (g, s, None)
         else
           case commit_loop (en_width g) g s of
             (g1, s1, t) \<Rightarrow> (case drain_step g1 s1 of (g2, s2) \<Rightarrow> (g2, s2, t)))"

text \<open>The start of \<open>O3Engine::tick\<close>: the squash stall counts down, commit runs, and a trap or a changed
  program counter flushes the engine; the flag says that the rest of the tick is skipped.\<close>

definition tick_commit :: "engine \<Rightarrow> cpu \<Rightarrow> engine \<times> cpu \<times> bool" where
  "tick_commit g s =
    (let g0 = g\<lparr> en_squash_stall := en_squash_stall g - 1 \<rparr>; pc_before_commit = cpu_pc s
     in case commit_stage g0 s of
          (g1, s1, Some (t, pc)) \<Rightarrow>
            let g2 = (o3_flush g1)\<lparr> en_squash_stall := compute_squash_stall (o3_flush g1) (rob_len (en_rob g1)) 0 \<rparr>;
                s2 = cpu_trap t pc (s1\<lparr> cpu_redirect_pending := True \<rparr>)
            in (g2, s2\<lparr> cpu_committed_next_pc := cpu_pc s2 \<rparr>, True)
        | (g1, s1, None) \<Rightarrow>
            if cpu_pc s1 \<noteq> pc_before_commit then
              ((o3_flush g1)\<lparr> en_squash_stall := compute_squash_stall (o3_flush g1) (rob_len (en_rob g1)) 0 \<rparr>, s1, True)
            else (g1, s1, False))"

subsection \<open>What retirement changes\<close>

text \<open>The part of the engine that renaming is about.\<close>

definition ren_view :: "engine \<Rightarrow> bool \<times> rob \<times> free_list \<times> rename_map \<times> rename_map \<times> checkpoint_table \<times> nat" where
  "ren_view g = (en_has_prf g, en_rob g, en_free_list g, en_rename_map g, en_committed_map g, en_checkpoints g, en_width g)"

lemma ren_view_frame [simp]:
  "ren_view (g\<lparr> en_store_buffer := b \<rparr>) = ren_view g" "ren_view (g\<lparr> en_prf := p \<rparr>) = ren_view g"
  "ren_view (g\<lparr> en_store_buffer := b, en_prf := p \<rparr>) = ren_view g" "ren_view (g\<lparr> en_load_queue := q \<rparr>) = ren_view g"
  "ren_view (g\<lparr> en_squash_stall := k \<rparr>) = ren_view g"
  by (simp_all add: ren_view_def)

lemma ren_view_cong: "ren_view g = ren_view g' \<Longrightarrow> ren_inv n g = ren_inv n g'"
  by (simp add: ren_view_def ren_inv_def)

lemma drain_all_frame:
  assumes "drain_all g s = (g', s')"
  shows "ren_view g' = ren_view g" "cpu_regs s' = cpu_regs s" "cpu_csrs s' = cpu_csrs s"
    "cpu_load_reservation s' = cpu_load_reservation s"
  using assms by (auto simp: drain_all_def set_mem_def split: prod.splits)

lemma regs_frame [simp]:
  "cpu_regs (redirect_after e s) = cpu_regs s" "cpu_regs (commit_pte e s) = cpu_regs s"
  "cpu_regs (commit_fp_flags e s) = cpu_regs s" "cpu_regs (count_retired e s) = cpu_regs s"
  "cpu_regs (commit_wfi e s) = cpu_regs s" "cpu_regs (clear_reservation s) = cpu_regs s"
  "cpu_regs (set_reservation a s) = cpu_regs s" "cpu_regs (sfence_vma_commit i s) = cpu_regs s"
  by (simp_all add: redirect_after_def commit_pte_def commit_fp_flags_def count_retired_def commit_wfi_def
      clear_reservation_def set_reservation_def sfence_vma_commit_def set_mem_def Let_def split: option.split)

lemma cpu_trap_regs [simp]: "cpu_regs (cpu_trap t epc s) = cpu_regs s"
  by (simp add: cpu_trap_def Let_def trap_to_s_def trap_to_m_def split: prod.split)

lemma csr_write_regs [simp]: "cpu_regs (csr_write a v s) = cpu_regs s"
  unfolding csr_write_def Let_def by (simp only: if_distrib [of cpu_regs]) simp

lemma commit_csr_frame:
  assumes "commit_csr u e g s = (g', s')"
  shows "ren_view g' = ren_view g" "cpu_regs s' = cpu_regs s"
proof -
  obtain g1 s1 where d: "drain_all g s = (g1, s1)" by force
  show "ren_view g' = ren_view g" "cpu_regs s' = cpu_regs s"
    using assms drain_all_frame [OF d]
    by (cases "cu_addr u = SATP"; cases "cu_applied u"; auto simp: commit_csr_def Let_def d)+
qed

lemma commit_store_frame:
  assumes "commit_store e g s = (g', s')"
  shows "ren_view g' = ren_view g" "cpu_regs s' = cpu_regs s"
  using assms by (auto simp: commit_store_def Let_def split: if_splits option.splits)

text \<open>The architectural effect of an instruction on the registers.\<close>

definition arch_write :: "rob_entry \<Rightarrow> register_file \<Rightarrow> register_file" where
  "arch_write e r =
    (let val = (case re_result e of Some v \<Rightarrow> v | None \<Rightarrow> 0)
     in if cs_fp_reg_write (re_ctrl e) then regs_write_f (re_rd e) val r
        else if cs_reg_write (re_ctrl e) then regs_write (re_rd e) val r else r)"

definition sc_failure_write :: "rob_entry \<Rightarrow> register_file \<Rightarrow> register_file" where
  "sc_failure_write e r = (if cs_reg_write (re_ctrl e) then regs_write (re_rd e) 1 r else r)"

lemma regs_write_zero [simp]: "regs_write 0 v r = r"
  by (simp add: regs_write_def reg_is_zero_def)

lemma commit_registers_effect:
  assumes "commit_registers e g s = (g', s')"
  shows "cpu_regs s' = arch_write e (cpu_regs s)"
    and "ren_view g' = (en_has_prf g, en_rob g,
      (if entry_writes e \<and> re_old_phys_dst e \<noteq> re_phys_dst e then fl_reclaim (re_old_phys_dst e) (en_free_list g) else en_free_list g),
      en_rename_map g,
      (if entry_writes e then rm_set (re_rd e) (cs_fp_reg_write (re_ctrl e)) (re_phys_dst e) (en_committed_map g) else en_committed_map g),
      en_checkpoints g, en_width g)"
  using assms by (auto simp: commit_registers_def arch_write_def ren_view_def entry_writes_def Let_def regs_write_def split: if_splits)

lemma commit_lr_sc_frame:
  assumes "commit_lr_sc e g s = ((g', s'), b)"
  shows "ren_view g' = ren_view g"
    and "cpu_regs s' = (if b then cpu_regs s else sc_failure_write e (cpu_regs s))"
    and "\<not> b \<Longrightarrow> \<exists>p. re_lr_sc e = Some (ScRecord p)"
  using assms by (auto simp: commit_lr_sc_def Let_def sc_failure_write_def regs_write_def
      split: option.splits lr_sc_record.splits if_splits)

definition free_checkpoint :: "rob_entry \<Rightarrow> engine \<Rightarrow> checkpoint_table" where
  "free_checkpoint e g = en_checkpoints (commit_free e g)"

lemma commit_free_view:
  "ren_view (commit_free e g) = (en_has_prf g, en_rob g, en_free_list g, en_rename_map g, en_committed_map g, free_checkpoint e g, en_width g)"
  by (simp add: ren_view_def commit_free_def free_checkpoint_def)

lemma free_checkpoint_cong:
  "ren_view g = ren_view g' \<Longrightarrow> free_checkpoint e g = free_checkpoint e g'"
  by (auto simp: free_checkpoint_def commit_free_def ren_view_def split: option.split)

lemma commit_tail_frame:
  assumes "commit_tail e g s = ((g', s'), b)"
  shows "ren_view g' = ren_view (commit_free e g)" "cpu_regs s' = cpu_regs s"
proof -
  obtain g1 s1 where st: "commit_store e g s = (g1, s1)" by force
  obtain g2 s2 where dr: "drain_all (commit_free e g1) s1 = (g2, s2)" by force
  note f = commit_store_frame [OF st] drain_all_frame [OF dr]
  have "ren_view (commit_free e g1) = ren_view (commit_free e g)"
    using f(1) free_checkpoint_cong [OF f(1)] unfolding commit_free_view by (simp add: ren_view_def)
  then show "ren_view g' = ren_view (commit_free e g)" "cpu_regs s' = cpu_regs s"
    using assms f st dr by (auto simp: commit_tail_def Let_def split: if_splits option.splits prod.splits)
qed

lemma retire_entry_frame:
  assumes "retire_entry e g s = ((g', s'), b)" "entry_ok e"
  shows "\<exists>g1 s1. commit_registers e g (count_retired e s) = (g1, s1) \<and> ren_view g' = ren_view (commit_free e g1)
      \<and> (cpu_regs s' = arch_write e (cpu_regs s)
         \<or> \<not> b \<and> (\<exists>p. re_lr_sc e = Some (ScRecord p)) \<and> cpu_regs s' = sc_failure_write e (arch_write e (cpu_regs s)))"
proof -
  obtain g1 s1 where cr: "commit_registers e g (count_retired e s) = (g1, s1)" by force
  let ?s2 = "commit_fp_flags e (commit_pte e s1)"
  have r: "cpu_regs ?s2 = arch_write e (cpu_regs s)" using commit_registers_effect(1) [OF cr] by simp
  have early: "ren_view (commit_free e g1) = ren_view g1"
    if "re_csr_update e \<noteq> None \<or> re_lr_sc e \<noteq> None \<or> cs_system_op (re_ctrl e) \<noteq> Sys_None"
    using that assms(2)
    by (cases "re_checkpoint_id e") (auto simp: entry_ok_def ctrl_ok_def commit_free_def ren_view_def)
  show ?thesis
  proof (cases "re_csr_update e")
    case (Some u)
    then have "commit_csr u e g1 ?s2 = (g', s')" using assms(1) cr by (simp add: retire_entry_def Let_def)
    with commit_csr_frame [OF this] early Some r cr show ?thesis by auto
  next
    case None
    show ?thesis
    proof (cases "cs_system_op (re_ctrl e) \<in> {Sys_Mret, Sys_Sret, Sys_Wfi}")
      case True
      with None early r cr assms(1) show ?thesis
        by (auto simp: retire_entry_def Let_def mret_effect sret_effect)
    next
      case False
      obtain g3 s3 c where lr: "commit_lr_sc e g1 ?s2 = ((g3, s3), c)" by (metis prod.exhaust)
      note l = commit_lr_sc_frame [OF lr]
      show ?thesis
      proof (cases c)
        case True
        then have "commit_tail e g3 s3 = ((g', s'), b)"
          using assms(1) None \<open>_ \<notin> _\<close> cr lr by (simp add: retire_entry_def Let_def)
        note t = commit_tail_frame [OF this]
        have "ren_view (commit_free e g3) = ren_view (commit_free e g1)"
          using l(1) free_checkpoint_cong [OF l(1)] unfolding commit_free_view by (simp add: ren_view_def)
        with t l(2) True r cr show ?thesis by auto
      next
        case False
        then have "g' = g3" "s' = s3" "\<not> b"
          using assms(1) None \<open>_ \<notin> {Sys_Mret, Sys_Sret, Sys_Wfi}\<close> cr lr by (simp_all add: retire_entry_def Let_def)
        with l False early r cr show ?thesis by auto
      qed
    qed
  qed
qed

subsection \<open>Retirement keeps the renaming invariant\<close>

lemma checkpoints_ok_retire:
  assumes "checkpoints_ok m (e # es) (en_checkpoints g)" "en_has_prf g"
  shows "checkpoints_ok (rebuild_apply e m) es (free_checkpoint e g)"
proof -
  let ?t = "en_checkpoints g" and ?t' = "free_checkpoint e g"
  from assms(1) have wf: "ct_wf ?t" "length (ct_slots ?t) \<le> 256" by (simp_all add: checkpoints_ok_def)
  have eq: "?t' = (case re_checkpoint_id e of Some ck \<Rightarrow> ct_free ck ?t | None \<Rightarrow> ?t)"
    using assms(2) by (simp add: free_checkpoint_def commit_free_def split: option.split)
  have slots: "ct_wf ?t'" "length (ct_slots ?t') = length (ct_slots ?t)"
    "\<And>i. ct_slots ?t' ! i \<noteq> None \<Longrightarrow> i < length (ct_slots ?t) \<Longrightarrow>
      ct_slots ?t' ! i = ct_slots ?t ! i \<and> (\<forall>ck. re_checkpoint_id e = Some ck \<longrightarrow> i \<noteq> unat ck)"
    using wf ct_free_spec [OF wf(1)]
    by (auto simp: eq nth_list_update split: option.splits if_splits)
  have "\<exists>k < length es. re_tag (es ! k) = ck_branch_tag c \<and> re_checkpoint_id (es ! k) = Some (of_nat i)
      \<and> ck_rename_map c = replay_map (take (Suc k) es) (rebuild_apply e m)"
    if i: "i < length (ct_slots ?t')" "ct_slots ?t' ! i = Some c" for i c
  proof -
    from slots(3) [of i] i slots(2) have c: "ct_slots ?t ! i = Some c" "\<forall>ck. re_checkpoint_id e = Some ck \<longrightarrow> i \<noteq> unat ck"
      by auto
    from checkpoints_okD [OF assms(1) _ c(1)] i slots(2) obtain k where
      k: "k < length (e # es)" "re_tag ((e # es) ! k) = ck_branch_tag c" "re_checkpoint_id ((e # es) ! k) = Some (of_nat i)"
        "ck_rename_map c = replay_map (take (Suc k) (e # es)) m" by auto
    have "unat (of_nat i :: checkpoint_id) = i" using i slots(2) wf(2) by (simp add: unsigned_of_nat take_bit_nat_eq_self)
    with k c(2) obtain k' where "k = Suc k'" by (cases k) auto
    with k show ?thesis by auto
  qed
  with slots wf(2) show ?thesis by (simp add: checkpoints_ok_def)
qed

lemma commit_head_cons:
  assumes "rob_inv r" "ring_window r = e # es" "re_state e \<noteq> Issued"
  shows "\<exists>r'. rob_commit_head r = (r', Some e) \<and> rob_inv r' \<and> ring_window r' = es"
proof (intro exI conjI)
  show "rob_commit_head r = (fst (rob_commit_head r), Some e)"
    by (subst rob_commit_head_spec(1) [OF assms(1)]) (simp add: assms(2,3))
  show "rob_inv (fst (rob_commit_head r))" by (rule rob_commit_head_spec(3) [OF assms(1)])
  show "ring_window (fst (rob_commit_head r)) = es" using rob_commit_head_spec(2) [OF assms(1)] assms(2,3) by simp
qed

lemma retire_ren_inv:
  assumes "ren_inv n g" "en_has_prf g" "en_window g = e # es"
    and r: "rob_inv r" "ring_window r = es"
    and "retire_entry e (g\<lparr> en_rob := r \<rparr>) s = ((g', s'), b)"
  shows "ren_inv n g' \<and> en_has_prf g' \<and> en_window g' = es \<and> en_width g' = en_width g"
proof -
  note inv = ren_invD [OF assms(1)]
  let ?m = "en_committed_map g"
  from inv(5) assms(3) have ok: "entry_ok e" by simp
  from inv(6) assms(3) have old: "entry_writes e \<Longrightarrow> re_old_phys_dst e = rm_get ?m (re_rd e) (cs_fp_reg_write (re_ctrl e))"
    and olds: "olds_ok (rebuild_apply e ?m) es" by simp_all
  obtain g1 s1 where cr: "commit_registers e (g\<lparr> en_rob := r \<rparr>) (count_retired e s) = (g1, s1)"
    and v: "ren_view g' = ren_view (commit_free e g1)"
    using retire_entry_frame [OF assms(6) ok] by blast
  have v1: "ren_view g1 = (True, r, (if entry_writes e then fl_reclaim (re_old_phys_dst e) (en_free_list g) else en_free_list g),
      en_rename_map g, rebuild_apply e ?m, en_checkpoints g, en_width g)"
  proof (cases "entry_writes e")
    case True
    have c: "conserved n (en_free_list g) (e # es) ?m" using inv(7) assms(3) by simp
    show ?thesis
      using commit_registers_effect(2) [OF cr] assms(2) True conserved_retire(1) [OF c inv(1,3) ok True old [OF True]]
        rebuild_apply_writes [OF ok True, of ?m] by simp
  next
    case False
    with commit_registers_effect(2) [OF cr] assms(2) show ?thesis by (simp add: rebuild_apply_silent)
  qed
  have "free_checkpoint e g1 = free_checkpoint e g"
    using v1 assms(2) by (auto simp: free_checkpoint_def commit_free_def ren_view_def split: option.split)
  with v v1 have view: "en_has_prf g'" "en_rob g' = r" "en_rename_map g' = en_rename_map g"
      "en_committed_map g' = rebuild_apply e ?m" "en_checkpoints g' = free_checkpoint e g" "en_width g' = en_width g"
      "en_free_list g' = (if entry_writes e then fl_reclaim (re_old_phys_dst e) (en_free_list g) else en_free_list g)"
    unfolding commit_free_view by (simp_all add: ren_view_def)
  have "conserved n (en_free_list g') es (rebuild_apply e ?m)"
  proof (cases "entry_writes e")
    case True
    have c: "conserved n (en_free_list g) (e # es) ?m" using inv(7) assms(3) by simp
    from conserved_retire(3) [OF c inv(1,3) ok True old [OF True]] True view(7) show ?thesis by simp
  next
    case False
    with inv(7) assms(3) view(7) show ?thesis by (simp add: conserved_def rebuild_apply_silent)
  qed
  then show ?thesis
    using inv assms(3) r olds view checkpoints_ok_retire [OF _ assms(2), of ?m e es]
    by (simp add: ren_inv_def rebuild_apply_wf)
qed

text \<open>After a faulting head has left, the speculative map is stale until the flush that follows; what
  is left of the invariant is enough for that flush.\<close>

definition flushable :: "nat \<Rightarrow> engine \<Rightarrow> bool" where
  "flushable n g \<longleftrightarrow> n \<le> 2 ^ 16 \<and> rob_inv (en_rob g) \<and> rm_wf (en_committed_map g) \<and> (\<forall>e \<in> set (en_window g). entry_ok e)
     \<and> conserved n (en_free_list g) (en_window g) (en_committed_map g)
     \<and> ct_wf (en_checkpoints g) \<and> length (ct_slots (en_checkpoints g)) \<le> 256"

lemma ren_inv_flushable: "ren_inv n g \<Longrightarrow> flushable n g"
  by (simp add: ren_inv_def flushable_def checkpoints_ok_def)

lemma flushable_flush: "flushable n g \<Longrightarrow> ren_inv n (o3_flush g)"
  using conserved_reclaim [of n "en_free_list g" "[]" "en_window g" "en_committed_map g"] rob_flush_all_spec [of "en_rob g"]
  by (simp add: flushable_def ren_inv_def o3_flush_def rob_iter_all_window checkpoints_ok_def ct_flush_all_spec)

lemma flushable_cong: "ren_view g = ren_view g' \<Longrightarrow> flushable n g = flushable n g'"
  by (simp add: ren_view_def flushable_def)

definition faults_ok :: "engine \<Rightarrow> bool" where
  "faults_ok g \<longleftrightarrow> (\<forall>e \<in> set (en_window g). re_state e = Faulted \<longrightarrow> re_trap e \<noteq> None)"

lemma commit_fault_effect:
  assumes "ren_inv n g" "en_window g = e # es" "re_state e = Faulted" "re_trap e = Some t" "commit_fault g = (g', tr)"
  shows "flushable n g'" "en_window g' = es" "tr = Some (t, re_pc e)" "en_width g' = en_width g" "en_has_prf g' = en_has_prf g"
proof -
  note inv = ren_invD [OF assms(1)]
  obtain r where r: "rob_commit_head (en_rob g) = (r, Some e)" "rob_inv r" "ring_window r = es"
    using commit_head_cons [OF inv(2) assms(2)] assms(3) by auto
  have eq: "g' = g\<lparr> en_rob := r, en_free_list := (if re_phys_dst e \<noteq> 0 then fl_reclaim (re_phys_dst e) (en_free_list g) else en_free_list g) \<rparr>"
    "tr = Some (t, re_pc e)" using assms(4,5) r(1) by (simp_all add: commit_fault_def)
  then show "tr = Some (t, re_pc e)" "en_window g' = es" "en_width g' = en_width g" "en_has_prf g' = en_has_prf g"
    using r by simp_all
  from inv(5) assms(2) have ok: "entry_ok e" by simp
  have nz: "entry_writes e \<Longrightarrow> re_phys_dst e \<noteq> 0" using conserved_nonzero(2) [OF inv(7,1,3)] assms(2) by auto
  have "conserved n (en_free_list g') es (en_committed_map g)"
    using inv(7) assms(2) ok nz by (cases "entry_writes e") (auto simp: eq(1) conserved_def entry_ok_def fl_reclaim_queue)
  then show "flushable n g'"
    using inv r assms(2) by (simp add: flushable_def eq(1) checkpoints_ok_def)
qed

lemma peek_head_window:
  "rob_inv r \<Longrightarrow> rob_peek_head r = (case ring_window r of [] \<Rightarrow> None | e # _ \<Rightarrow> Some e)"
  using rob_inv_wf [of r] ring_window_nth [of r 0] length_ring_window [of r]
  by (cases "ring_window r") (auto simp: rob_peek_head_def ring_wf_def)

text \<open>The loop retires a prefix of the window in program order; the registers are the sequential effect of
  that prefix, and a trap comes from the instruction right behind it.\<close>

definition precise :: "rob_entry list \<Rightarrow> register_file \<Rightarrow> rob_entry list \<Rightarrow> register_file \<Rightarrow> (trap \<times> u64) option \<Rightarrow> nat \<Rightarrow> bool" where
  "precise w r w' r' t k \<longleftrightarrow> k \<le> length w \<and> (\<forall>e \<in> set (take k w). re_state e = Completed)
     \<and> (r' = fold arch_write (take k w) r
        \<or> t = None \<and> k \<noteq> 0 \<and> (\<exists>p. re_lr_sc (w ! (k - 1)) = Some (ScRecord p))
          \<and> r' = sc_failure_write (w ! (k - 1)) (fold arch_write (take k w) r))
     \<and> (case t of
          None \<Rightarrow> w' = drop k w
        | Some (tr, epc) \<Rightarrow> k < length w \<and> re_state (w ! k) = Faulted \<and> re_trap (w ! k) = Some tr \<and> re_pc (w ! k) = epc
            \<and> w' = drop (Suc k) w)"

lemma precise_stop: "precise w r w r None 0"
  by (simp add: precise_def)

lemma precise_step:
  assumes "re_state e = Completed" "precise es (arch_write e r) w' r' t k"
  shows "precise (e # es) r w' r' t (Suc k)"
  using assms by (cases k) (auto simp: precise_def split: option.splits)

lemma faults_ok_tl: "en_window g = e # es \<Longrightarrow> en_window g' = es \<Longrightarrow> faults_ok g \<Longrightarrow> faults_ok g'"
  by (simp add: faults_ok_def)

lemma commit_loop_spec:
  assumes "ren_inv n g" "en_has_prf g" "faults_ok g" "commit_loop w g s = (g', s', t)"
  shows "\<exists>k \<le> w. precise (en_window g) (cpu_regs s) (en_window g') (cpu_regs s') t k
    \<and> (if t = None then ren_inv n g' \<and> faults_ok g' else flushable n g') \<and> en_has_prf g' \<and> en_width g' = en_width g"
  using assms
proof (induction w arbitrary: g s)
  case 0
  then show ?case using precise_stop by auto
next
  case (Suc w)
  note inv = ren_invD [OF Suc.prems(1)]
  show ?case
  proof (cases "en_window g")
    case Nil
    with Suc.prems peek_head_window [OF inv(2)] show ?thesis using precise_stop by auto
  next
    case (Cons e es)
    have pk: "rob_peek_head (en_rob g) = Some e" using Cons peek_head_window [OF inv(2)] by simp
    consider (wait) "head_waits e g" | (fault) "\<not> head_waits e g" "re_state e = Faulted"
      | (fin) "\<not> head_waits e g" "re_state e = Completed" by (cases "re_state e") (auto simp: head_waits_def)
    then show ?thesis
    proof cases
      case wait
      with Suc.prems pk show ?thesis using precise_stop by auto
    next
      case fault
      with Suc.prems(3) Cons obtain tr where tr: "re_trap e = Some tr" by (auto simp: faults_ok_def)
      obtain g1 t1 where cf: "commit_fault g = (g1, t1)" by force
      note c = commit_fault_effect [OF Suc.prems(1) Cons fault(2) tr cf]
      have "g' = g1" "s' = s" "t = t1" using Suc.prems(4) pk fault cf by simp_all
      with c fault tr Cons Suc.prems(2) show ?thesis by (auto simp: precise_def)
    next
      case fin
      obtain r where r: "rob_commit_head (en_rob g) = (r, Some e)" "rob_inv r" "ring_window r = es"
        using commit_head_cons [OF inv(2) Cons] fin by auto
      obtain g1 s1 b where ret: "retire_entry e (g\<lparr> en_rob := r \<rparr>) s = ((g1, s1), b)" by (metis prod.exhaust)
      from retire_ren_inv [OF Suc.prems(1,2) Cons r(2,3) ret]
      have g1: "ren_inv n g1" "en_has_prf g1" "en_window g1 = es" "en_width g1 = en_width g" by simp_all
      note f1 = faults_ok_tl [OF Cons g1(3) Suc.prems(3)]
      from inv(5) Cons have "entry_ok e" by simp
      from retire_entry_frame [OF ret this]
      have regs: "cpu_regs s1 = arch_write e (cpu_regs s)
         \<or> \<not> b \<and> (\<exists>p. re_lr_sc e = Some (ScRecord p)) \<and> cpu_regs s1 = sc_failure_write e (arch_write e (cpu_regs s))"
        by blast
      show ?thesis
      proof (cases b)
        case True
        then have "commit_loop w g1 s1 = (g', s', t)" using Suc.prems(4) pk fin r(1) ret by simp
        from Suc.IH [OF g1(1,2) f1 this] obtain k where "k \<le> w"
          and k: "precise es (cpu_regs s1) (en_window g') (cpu_regs s') t k"
          and rest: "if t = None then ren_inv n g' \<and> faults_ok g' else flushable n g'" "en_has_prf g'" "en_width g' = en_width g"
          using g1(3,4) by auto
        have "precise (en_window g) (cpu_regs s) (en_window g') (cpu_regs s') t (Suc k)"
          using precise_step [OF fin(2)] k regs True Cons by simp
        with \<open>k \<le> w\<close> rest show ?thesis by (intro exI [of _ "Suc k"]) simp
      next
        case False
        then have "g' = g1" "s' = s1" "t = None" using Suc.prems(4) pk fin r(1) ret by simp_all
        with g1 f1 regs Cons fin(2) show ?thesis by (intro exI [of _ 1]) (auto simp: precise_def)
      qed
    qed
  qed
qed

subsection \<open>Properties\<close>

lemma drain_step_frame:
  assumes "drain_step g s = (g', s')"
  shows "ren_view g' = ren_view g" "cpu_regs s' = cpu_regs s" "cpu_pc s' = cpu_pc s"
  using assms by (auto simp: drain_step_def set_mem_def split: prod.splits)

lemma faults_ok_cong: "ren_view g = ren_view g' \<Longrightarrow> faults_ok g = faults_ok g'"
  by (simp add: ren_view_def faults_ok_def)

text \<open>The common part of the properties of the stage.\<close>

lemma commit_stage_spec:
  assumes "ren_inv n g" "en_has_prf g" "faults_ok g" "commit_stage g s = (g', s', t)"
  shows "en_has_prf g' \<and> (if t = None then ren_inv n g' \<and> faults_ok g' else flushable n g')
    \<and> (case check_interrupts s of
         Some i \<Rightarrow> t = Some (i, interrupt_epc g s) \<and> en_window g' = en_window g \<and> cpu_regs s' = cpu_regs s
       | None \<Rightarrow>
           if cpu_wfi_waiting s then t = None \<and> en_window g' = en_window g \<and> cpu_regs s' = cpu_regs s
           else \<exists>k \<le> en_width g. precise (en_window g) (cpu_regs s) (en_window g') (cpu_regs s') t k)"
proof (cases "check_interrupts s")
  case (Some i)
  with assms show ?thesis by (auto simp: commit_stage_def ren_inv_flushable)
next
  case None
  show ?thesis
  proof (cases "cpu_wfi_waiting s")
    case True
    with None assms show ?thesis by (auto simp: commit_stage_def split: if_splits)
  next
    case False
    obtain g1 s1 t1 where loop: "commit_loop (en_width g) g s = (g1, s1, t1)" by (metis prod_cases3)
    obtain g2 s2 where dr: "drain_step g1 s1 = (g2, s2)" by force
    have eq: "g' = g2" "s' = s2" "t = t1" using assms(4) None False loop dr by (simp_all add: commit_stage_def)
    note f = drain_step_frame [OF dr]
    have w: "en_window g2 = en_window g1" "en_has_prf g2 = en_has_prf g1" using f(1) by (simp_all add: ren_view_def)
    from commit_loop_spec [OF assms(1-3) loop] obtain k where
      "k \<le> en_width g" "precise (en_window g) (cpu_regs s) (en_window g1) (cpu_regs s1) t1 k"
      "if t1 = None then ren_inv n g1 \<and> faults_ok g1 else flushable n g1" "en_has_prf g1" by blast
    with None False w f(2) ren_view_cong [OF f(1)] faults_ok_cong [OF f(1)] flushable_cong [OF f(1)]
    show ?thesis unfolding eq by auto
  qed
qed

lemma tick_commit_inv:
  assumes "ren_inv n g" "en_has_prf g" "faults_ok g" "tick_commit g s = (g', s', b)"
  shows "ren_inv n g' \<and> en_has_prf g' \<and> faults_ok g' \<and> (b \<longrightarrow> en_window g' = [])"
proof -
  let ?g0 = "g\<lparr> en_squash_stall := en_squash_stall g - 1 \<rparr>"
  obtain g1 s1 t where cs: "commit_stage ?g0 s = (g1, s1, t)" by (metis prod_cases3)
  have "ren_inv n ?g0" "en_has_prf ?g0" "faults_ok ?g0"
    using assms(1-3) ren_view_cong [of ?g0 g] faults_ok_cong [of ?g0 g] by simp_all
  from commit_stage_spec [OF this cs]
  have s: "en_has_prf g1" "if t = None then ren_inv n g1 \<and> faults_ok g1 else flushable n g1" by simp_all
  let ?g2 = "(o3_flush g1)\<lparr> en_squash_stall := compute_squash_stall (o3_flush g1) (rob_len (en_rob g1)) 0 \<rparr>"
  have fl: "flushable n g1" using s(2) by (cases t) (auto simp: ren_inv_flushable)
  have win: "en_window ?g2 = []" by (simp add: o3_flush_def rob_flush_all_spec)
  then have g2: "ren_inv n ?g2 \<and> en_has_prf ?g2 \<and> faults_ok ?g2 \<and> en_window ?g2 = []"
    using flushable_flush [OF fl] ren_view_cong [of ?g2 "o3_flush g1"] s(1) by (simp add: faults_ok_def) (simp add: o3_flush_def)
  show ?thesis
  proof (cases t)
    case (Some tr)
    with assms(4) cs g2 show ?thesis by (cases tr) (auto simp: tick_commit_def Let_def)
  next
    case None
    with assms(4) cs g2 s show ?thesis by (auto simp: tick_commit_def Let_def split: if_splits)
  qed
qed

text \<open>C1. Commit is in order and traps are precise. When the stage runs, it retires some number \<open>k\<close> of
  completed instructions from the front of the reorder buffer, at most the width, and the registers become
  exactly the sequential effect of those \<open>k\<close> instructions on the old ones (a failing SC, which ends the
  group, writes 1 to its destination). If it reports a trap, it is the trap of the faulting instruction right
  behind them with that instruction's address, whose own result is not written. An interrupt is reported
  with nothing retired, and a waiting WFI retires nothing.\<close>

theorem commit_is_precise:
  assumes "ren_inv n g" "en_has_prf g" "faults_ok g" "commit_stage g s = (g', s', t)"
  shows "case check_interrupts s of
       Some i \<Rightarrow> t = Some (i, interrupt_epc g s) \<and> en_window g' = en_window g \<and> cpu_regs s' = cpu_regs s
     | None \<Rightarrow>
         if cpu_wfi_waiting s then t = None \<and> en_window g' = en_window g \<and> cpu_regs s' = cpu_regs s
         else \<exists>k \<le> en_width g. precise (en_window g) (cpu_regs s) (en_window g') (cpu_regs s') t k"
  using commit_stage_spec [OF assms] by blast

definition bus_example :: bus where
  "bus_example = \<lparr> bus_mem = (\<lambda>_. 0), bus_width_bytes = 8, bus_latency_cycles = 4 \<rparr>"

definition cpu_example :: cpu where
  "cpu_example = cpu_new bus_example (mmu_new 4 8 2 5 False) False None 0 0x80000000 100"

theorem commit_is_precise_witness:
  "check_interrupts cpu_example = None \<and> \<not> cpu_wfi_waiting cpu_example
   \<and> (\<exists>g' s' t. commit_stage (o3_new 4 4 4 70 2 1) cpu_example = (g', s', t)
       \<and> (\<exists>k \<le> 2. precise [] (cpu_regs cpu_example) (en_window g') (cpu_regs s') t k))"
proof -
  have c: "check_interrupts cpu_example = None" "\<not> cpu_wfi_waiting cpu_example" by code_simp+
  let ?g = "o3_new 4 4 4 70 2 1"
  have g: "ren_inv 70 ?g" "en_has_prf ?g" "en_window ?g = []" "en_width ?g = 2"
    using o3_new_inv [of 4 70 1 4 4 2] by (simp_all add: o3_new_def rob_new_def ring_window_def)
  obtain g' s' t where cs: "commit_stage ?g cpu_example = (g', s', t)" by (metis prod_cases3)
  have "faults_ok ?g" unfolding faults_ok_def g(3) by simp
  from commit_is_precise [OF g(1,2) this cs] c cs g(3,4) show ?thesis by auto
qed

text \<open>C25. Store-conditional. At commit an SC succeeds exactly when the reservation covers its 64-byte granule: it
  then clears the reservation, keeps its store and retirement goes on. Otherwise it fails: \<open>rd\<close> becomes 1 in the
  register file, its store is cancelled, memory is untouched, fetch restarts behind it and the group ends.
  The failing path leaves the reservation as it was, so after LR of one granule and a failed SC to another,
  an SC to the first granule still succeeds; the architecture requires every SC to invalidate the
  reservation.\<close>

theorem sc_commit:
  assumes "re_lr_sc e = Some (ScRecord p)"
  shows "case commit_lr_sc e g s of ((g', s'), go) \<Rightarrow>
      (go \<longleftrightarrow> cpu_load_reservation s = Some (align_reservation_address p))
      \<and> (go \<longrightarrow> cpu_load_reservation s' = None \<and> g' = g \<and> cpu_regs s' = cpu_regs s \<and> cpu_mem s' = cpu_mem s)
      \<and> (\<not> go \<longrightarrow> cpu_load_reservation s' = cpu_load_reservation s \<and> cpu_regs s' = sc_failure_write e (cpu_regs s)
           \<and> en_store_buffer g' = sb_cancel (re_tag e) (en_store_buffer g) \<and> cpu_mem s' = cpu_mem s
           \<and> cpu_pc s' = entry_next_pc e \<and> cpu_redirect_pending s')"
  using assms by (auto simp: commit_lr_sc_def check_reservation_def clear_reservation_def redirect_after_def Let_def
      sc_failure_write_def regs_write_def split: option.splits)

definition sc_example :: "phys_addr \<Rightarrow> rob_entry" where
  "sc_example p = (rob_entry_new 5 0x80000010 0x18B5A52F Standard 10 False (default_ctrl\<lparr> cs_reg_write := True, cs_mem_write := True \<rparr>) 70 10)
     \<lparr> re_lr_sc := Some (ScRecord p), re_state := Completed \<rparr>"

theorem sc_commit_witness:
  "case commit_lr_sc (sc_example 0x2000) (o3_new 4 4 4 70 2 1) (set_reservation 0x1008 cpu_example) of ((g', s'), go) \<Rightarrow>
     \<not> go \<and> cpu_load_reservation s' = Some 0x1000 \<and> check_reservation s' 0x1010"
proof -
  have "re_lr_sc (sc_example 0x2000) = Some (ScRecord 0x2000)" by (simp add: sc_example_def)
  note sc = sc_commit [OF this, where g = "o3_new 4 4 4 70 2 1" and s = "set_reservation 0x1008 cpu_example"]
  have a: "align_reservation_address 0x1008 = 0x1000" "align_reservation_address 0x1010 = 0x1000"
    "align_reservation_address 0x2000 = 0x2000" by (code_simp)+
  have r: "cpu_load_reservation (set_reservation 0x1008 cpu_example) = Some 0x1000" by (simp add: set_reservation_def a)
  from sc show ?thesis by (auto simp: r a check_reservation_def split: prod.splits)
qed

text \<open>A redirect to the address that fetch already stands at does not flush the engine: \<open>tick\<close> compares the
  program counter before and after commit and ignores \<open>redirect_pending\<close>, which the pipeline uses to
  flush the frontend exactly for this coincidence. When a WFI that is not taken as a trap wakes up with
  fetch at the address behind it, the younger instructions stay in the reorder buffer while the frontend
  fetches the same addresses again, so they can retire twice.\<close>

theorem wakeup_without_flush:
  assumes "check_interrupts s = None" "cpu_wfi_waiting s" "csr_mip (cpu_csrs s) AND csr_mie (cpu_csrs s) \<noteq> 0"
    and "cpu_pc s = cpu_wfi_pc s"
  shows "case tick_commit g s of (g', s', flushed) \<Rightarrow>
    \<not> flushed \<and> cpu_redirect_pending s' \<and> cpu_pc s' = cpu_wfi_pc s \<and> \<not> cpu_wfi_waiting s' \<and> en_window g' = en_window g"
  using assms by (simp add: tick_commit_def commit_stage_def Let_def)

definition wfi_example :: cpu where
  "wfi_example = (upd_csrs (\<lambda>c. c\<lparr> csr_mie := 0x80, csr_mip := 0x80 \<rparr>) cpu_example)
     \<lparr> cpu_wfi_waiting := True, cpu_wfi_pc := 0x80000000 \<rparr>"

theorem wakeup_without_flush_witness:
  "case tick_commit (o3_new 4 4 4 70 2 1) wfi_example of (g', s', flushed) \<Rightarrow> \<not> flushed \<and> cpu_redirect_pending s'"
proof -
  have "check_interrupts wfi_example = None" "cpu_wfi_waiting wfi_example"
    "csr_mip (cpu_csrs wfi_example) AND csr_mie (cpu_csrs wfi_example) \<noteq> 0" "cpu_pc wfi_example = cpu_wfi_pc wfi_example"
    by code_simp+
  from wakeup_without_flush [OF this, where g = "o3_new 4 4 4 70 2 1"] show ?thesis by (auto split: prod.splits)
qed

end
