(* ===== verification/Engine.thy ===== *)
theory Engine
  imports Commit
begin

text \<open>
  The out-of-order engine as a state machine over its renaming state: the stages of
  \<open>core/pipeline/backend/o3/mod.rs\<close> and \<open>core/pipeline/frontend/rename.rs\<close> that change the reorder
  buffer, the free list, the rename maps and the checkpoints are the steps, in any order and any
  number. Stages that only touch the store buffer, the load queue or the values of physical registers
  (memory, writeback, execute) are the step \<open>other\<close>.
\<close>

subsection \<open>What the stages record in the reorder buffer\<close>

text \<open>The calls of the execute, memory and writeback stages on an entry. CSR, LR/SC and SFENCE.VMA actions
  are recorded for instructions that are no branch or jump.\<close>

datatype rob_note =
    Note_complete rob_tag u64
  | Note_fault rob_tag trap exception_stage
  | Note_csr rob_tag csr_update
  | Note_csr_applied rob_tag
  | Note_bp_update rob_tag u64 bp_outcome "u64 option" ghr
  | Note_bp_target rob_tag u64
  | Note_fp_flags rob_tag u8
  | Note_pte rob_tag pte_update
  | Note_sfence rob_tag sfence_vma_info
  | Note_lr_sc rob_tag lr_sc_record
  | Note_store_info rob_tag u64 u64

fun apply_note :: "rob_note \<Rightarrow> rob \<Rightarrow> rob" where
  "apply_note (Note_complete t v) r = rob_complete t v r"
| "apply_note (Note_fault t tr st) r = rob_fault t tr st r"
| "apply_note (Note_csr t u) r = rob_set_csr_update t u r"
| "apply_note (Note_csr_applied t) r = rob_mark_csr_applied t r"
| "apply_note (Note_bp_update t pc out tgt gh) r = rob_set_bp_update t pc out tgt gh r"
| "apply_note (Note_bp_target t a) r = rob_set_bp_target t a r"
| "apply_note (Note_fp_flags t x) r = rob_set_fp_flags t x r"
| "apply_note (Note_pte t u) r = rob_set_pte_update t u r"
| "apply_note (Note_sfence t i) r = rob_set_sfence_vma t i r"
| "apply_note (Note_lr_sc t x) r = rob_set_lr_sc t x r"
| "apply_note (Note_store_info t a d) r = rob_set_store_info t a d r"

fun note_ok :: "rob_note \<Rightarrow> rob_entry list \<Rightarrow> bool" where
  "note_ok (Note_csr t u) es = (\<forall>e \<in> set es. re_tag e = t \<longrightarrow> \<not> is_branch_or_jump (re_ctrl e))"
| "note_ok (Note_sfence t i) es = (\<forall>e \<in> set es. re_tag e = t \<longrightarrow> \<not> is_branch_or_jump (re_ctrl e))"
| "note_ok (Note_lr_sc t x) es = (\<forall>e \<in> set es. re_tag e = t \<longrightarrow> \<not> is_branch_or_jump (re_ctrl e))"
| "note_ok _ es = True"

inductive o3_reach :: "nat \<Rightarrow> engine \<Rightarrow> bool" for n :: nat where
  init: "0 < rob_size \<Longrightarrow> 64 \<le> n \<Longrightarrow> n \<le> 2 ^ 16 \<Longrightarrow> checkpoint_count \<le> 256 \<Longrightarrow>
     o3_reach n (o3_new rob_size sb_size lq_size n width checkpoint_count)"
| rename: "o3_reach n g \<Longrightarrow> ctrl_ok (id_ctrl d) \<Longrightarrow> rob_room (en_rob g) \<Longrightarrow> rename_o3 d g = Rn_Done g' e \<Longrightarrow> o3_reach n g'"
| commit: "o3_reach n g \<Longrightarrow> tick_commit g s = (g', s', flushed) \<Longrightarrow> o3_reach n g'"
| stage: "o3_reach n g \<Longrightarrow> note_ok c (en_window g) \<Longrightarrow> o3_reach n (g\<lparr> en_rob := apply_note c (en_rob g) \<rparr>)"
| drain_flags: "o3_reach n g \<Longrightarrow> rob_drain_fp_flags_before t (en_rob g) = (fl, r) \<Longrightarrow> o3_reach n (g\<lparr> en_rob := r \<rparr>)"
| recover: "o3_reach n g \<Longrightarrow> keep_ok t g \<Longrightarrow> o3_reach n (o3_flush_after t g)"
| violation: "o3_reach n g \<Longrightarrow> rob_find_entry (en_rob g) t \<noteq> None \<Longrightarrow> o3_reach n (o3_mem_violation t g)"
| flush: "o3_reach n g \<Longrightarrow> o3_reach n (o3_flush g)"
| other: "o3_reach n g \<Longrightarrow> ren_view g' = ren_view g \<Longrightarrow> o3_reach n g'"

subsection \<open>The invariant of every reachable state\<close>

text \<open>An update of entries that keeps what renaming is about.\<close>

definition keeps_rename :: "(rob_entry \<Rightarrow> rob_entry) \<Rightarrow> rob_entry \<Rightarrow> bool" where
  "keeps_rename f e \<longleftrightarrow> re_tag (f e) = re_tag e \<and> re_valid (f e) = re_valid e \<and> re_ctrl (f e) = re_ctrl e \<and> re_rd (f e) = re_rd e
     \<and> re_phys_dst (f e) = re_phys_dst e \<and> re_old_phys_dst (f e) = re_old_phys_dst e \<and> re_checkpoint_id (f e) = re_checkpoint_id e
     \<and> (entry_ok e \<longrightarrow> entry_ok (f e)) \<and> ((re_state e = Faulted \<longrightarrow> re_trap e \<noteq> None) \<longrightarrow> re_state (f e) = Faulted \<longrightarrow> re_trap (f e) \<noteq> None)"

lemma keeps_renameD:
  assumes "keeps_rename f e"
  shows "rebuild_apply (f e) m = rebuild_apply e m" "entry_writes (f e) = entry_writes e"
  using assms by (simp_all add: keeps_rename_def rebuild_apply_def entry_writes_def)

lemma map_keeps:
  assumes "\<forall>e \<in> set es. keeps_rename f e"
  shows "replay_map (map f es) m = replay_map es m" "in_flight (map f es) = in_flight es" "olds_ok m (map f es) = olds_ok m es"
  using assms
  by (induction es arbitrary: m) (simp_all add: keeps_renameD, simp_all add: keeps_rename_def)

lemma checkpoints_ok_map:
  assumes "\<forall>e \<in> set es. keeps_rename f e" "checkpoints_ok m es t"
  shows "checkpoints_ok m (map f es) t"
proof -
  have "\<exists>k < length (map f es). re_tag (map f es ! k) = ck_branch_tag c \<and> re_checkpoint_id (map f es ! k) = Some (of_nat i)
      \<and> ck_rename_map c = replay_map (take (Suc k) (map f es)) m"
    if "i < length (ct_slots t)" "ct_slots t ! i = Some c" for i c
  proof -
    from checkpoints_okD [OF assms(2) that] obtain k where
      k: "k < length es" "re_tag (es ! k) = ck_branch_tag c" "re_checkpoint_id (es ! k) = Some (of_nat i)"
        "ck_rename_map c = replay_map (take (Suc k) es) m" by blast
    have "\<forall>e \<in> set (take (Suc k) es). keeps_rename f e" using assms(1) by (auto dest: in_set_takeD)
    from map_keeps(1) [OF this] have "replay_map (take (Suc k) (map f es)) m = replay_map (take (Suc k) es) m" by (simp add: take_map)
    moreover have "keeps_rename f (es ! k)" using assms(1) k(1) by simp
    ultimately show ?thesis using k by (intro exI [of _ k]) (simp add: keeps_rename_def)
  qed
  with assms(2) show ?thesis by (simp add: checkpoints_ok_def)
qed

definition o3_inv :: "nat \<Rightarrow> engine \<Rightarrow> bool" where
  "o3_inv n g \<longleftrightarrow> ren_inv n g \<and> en_has_prf g \<and> faults_ok g"

lemma o3_inv_map:
  assumes "o3_inv n g" "rob_inv r" "ring_window r = map f (en_window g)" "\<forall>e \<in> set (en_window g). keeps_rename f e"
  shows "o3_inv n (g\<lparr> en_rob := r \<rparr>)"
proof -
  from assms(1) have g: "ren_inv n g" "en_has_prf g" "faults_ok g" by (simp_all add: o3_inv_def)
  note inv = ren_invD [OF g(1)] and m = map_keeps [OF assms(4)]
  have "conserved n (en_free_list g) (map f (en_window g)) (en_committed_map g)"
    using inv(7) by (simp add: conserved_def m)
  moreover have "\<forall>e \<in> set (map f (en_window g)). entry_ok e" using inv(5) assms(4) by (auto simp: keeps_rename_def)
  moreover have "faults_ok (g\<lparr> en_rob := r \<rparr>)" using g(3) assms(3,4) by (auto simp: faults_ok_def keeps_rename_def)
  ultimately show ?thesis
    using inv g(2) assms(2,3) m checkpoints_ok_map [OF assms(4) inv(8)] by (simp add: o3_inv_def ren_inv_def)
qed

lemmas note_defs = rob_complete_def rob_fault_def rob_set_csr_update_def rob_mark_csr_applied_def rob_set_bp_update_def
  rob_set_bp_target_def rob_set_fp_flags_def rob_set_pte_update_def rob_set_sfence_vma_def rob_set_lr_sc_def rob_set_store_info_def

lemma keeps_complete: "keeps_rename (entry_complete v) e"
  by (auto simp: keeps_rename_def entry_complete_def entry_ok_def entry_writes_def)

lemma keeps_mark_applied: "keeps_rename entry_mark_applied e"
  by (cases "re_csr_update e") (auto simp: keeps_rename_def entry_mark_applied_def entry_ok_def entry_writes_def)

lemma keeps_fields:
  "keeps_rename (\<lambda>e. e\<lparr> re_state := Faulted, re_trap := Some tr, re_exception_stage := Some st \<rparr>) e"
  "keeps_rename (\<lambda>e. e\<lparr> re_bp_update := True, re_bp_pc := pc, re_bp_outcome := ot, re_bp_target := tg, re_bp_ghr_snapshot := gh \<rparr>) e"
  "keeps_rename (\<lambda>e. e\<lparr> re_bp_target := Some a \<rparr>) e" "keeps_rename (\<lambda>e. e\<lparr> re_fp_flags := re_fp_flags e OR fl \<rparr>) e"
  "keeps_rename (\<lambda>e. e\<lparr> re_pte_update := Some u \<rparr>) e" "keeps_rename (\<lambda>e. e\<lparr> re_store_addr := sa, re_store_data := sd \<rparr>) e"
  by (auto simp: keeps_rename_def entry_ok_def entry_writes_def)

lemma keeps_actions:
  assumes "\<not> is_branch_or_jump (re_ctrl e)"
  shows "keeps_rename (\<lambda>e. e\<lparr> re_csr_update := Some cu \<rparr>) e" "keeps_rename (\<lambda>e. e\<lparr> re_sfence_vma := Some i \<rparr>) e"
    "keeps_rename (\<lambda>e. e\<lparr> re_lr_sc := Some l \<rparr>) e"
  using assms by (auto simp: keeps_rename_def entry_ok_def entry_writes_def)

text \<open>Every note is one update of the entry with its tag.\<close>

fun note_tag :: "rob_note \<Rightarrow> rob_tag" where
  "note_tag (Note_complete t _) = t" | "note_tag (Note_fault t _ _) = t" | "note_tag (Note_csr t _) = t"
| "note_tag (Note_csr_applied t) = t" | "note_tag (Note_bp_update t _ _ _ _) = t" | "note_tag (Note_bp_target t _) = t"
| "note_tag (Note_fp_flags t _) = t" | "note_tag (Note_pte t _) = t" | "note_tag (Note_sfence t _) = t"
| "note_tag (Note_lr_sc t _) = t" | "note_tag (Note_store_info t _ _) = t"

fun note_upd :: "rob_note \<Rightarrow> rob_entry \<Rightarrow> rob_entry" where
  "note_upd (Note_complete _ v) = entry_complete v"
| "note_upd (Note_fault _ tr st) = (\<lambda>e. e\<lparr> re_state := Faulted, re_trap := Some tr, re_exception_stage := Some st \<rparr>)"
| "note_upd (Note_csr _ u) = (\<lambda>e. e\<lparr> re_csr_update := Some u \<rparr>)"
| "note_upd (Note_csr_applied _) = entry_mark_applied"
| "note_upd (Note_bp_update _ pc ot tg gh) = (\<lambda>e. e\<lparr> re_bp_update := True, re_bp_pc := pc, re_bp_outcome := ot,
     re_bp_target := tg, re_bp_ghr_snapshot := gh \<rparr>)"
| "note_upd (Note_bp_target _ a) = (\<lambda>e. e\<lparr> re_bp_target := Some a \<rparr>)"
| "note_upd (Note_fp_flags _ fl) = (\<lambda>e. e\<lparr> re_fp_flags := re_fp_flags e OR fl \<rparr>)"
| "note_upd (Note_pte _ u) = (\<lambda>e. e\<lparr> re_pte_update := Some u \<rparr>)"
| "note_upd (Note_sfence _ i) = (\<lambda>e. e\<lparr> re_sfence_vma := Some i \<rparr>)"
| "note_upd (Note_lr_sc _ l) = (\<lambda>e. e\<lparr> re_lr_sc := Some l \<rparr>)"
| "note_upd (Note_store_info _ a d) = (\<lambda>e. e\<lparr> re_store_addr := a, re_store_data := d \<rparr>)"

lemma apply_note_update: "apply_note c r = rob_update (note_tag c) (note_upd c) r"
  by (cases c) (simp_all add: note_defs)

lemma note_upd_keeps: "note_ok c es \<Longrightarrow> e \<in> set es \<Longrightarrow> re_tag e = note_tag c \<Longrightarrow> keeps_rename (note_upd c) e"
  by (cases c) (simp_all add: keeps_complete keeps_mark_applied keeps_fields keeps_actions)

lemma note_upd_tag: "tag_preserving (note_upd c)"
  by (cases c) (auto simp: tag_preserving_def entry_complete_def entry_mark_applied_def split: option.split)

lemma o3_inv_note:
  assumes "o3_inv n g" "note_ok c (en_window g)"
  shows "o3_inv n (g\<lparr> en_rob := apply_note c (en_rob g) \<rparr>)"
proof -
  from assms(1) have inv: "rob_inv (en_rob g)" by (simp add: o3_inv_def ren_inv_def)
  have "keeps_rename (\<lambda>e. if re_tag e = note_tag c then note_upd c e else e) e" if "e \<in> set (en_window g)" for e
    using note_upd_keeps [OF assms(2) that] by (cases "re_tag e = note_tag c") (auto simp: keeps_rename_def)
  then show ?thesis unfolding apply_note_update
    by (intro o3_inv_map [OF assms(1) rob_update_inv [OF inv note_upd_tag] rob_update_window [OF inv]]) simp
qed

lemma o3_inv_drain:
  assumes "o3_inv n g" "rob_drain_fp_flags_before t (en_rob g) = (fl, r)"
  shows "o3_inv n (g\<lparr> en_rob := r \<rparr>)"
proof -
  from assms(1) have inv: "rob_inv (en_rob g)" by (simp add: o3_inv_def ren_inv_def)
  have "keeps_rename (drain_entry t) e" for e
    by (auto simp: keeps_rename_def drain_entry_def entry_ok_def entry_writes_def)
  then show ?thesis by (intro o3_inv_map [OF assms(1) rob_drain_spec(3,2) [OF inv assms(2)]]) simp
qed

lemma faults_ok_subset: "faults_ok g \<Longrightarrow> set (en_window g') \<subseteq> set (en_window g) \<Longrightarrow> faults_ok g'"
  by (auto simp: faults_ok_def)

lemma o3_flush_window: "en_window (o3_flush g) = []"
  by (simp add: o3_flush_def rob_flush_all_spec)

lemma o3_flush_after_window:
  assumes "ren_inv n g" "keep_ok t g"
  shows "set (en_window (o3_flush_after t g)) \<subseteq> set (en_window g)"
proof (cases "rob_find_entry (en_rob g) t = None")
  case True
  with assms o3_flush_after_retired(2) [OF assms(1) True] show ?thesis by (simp add: keep_ok_def)
next
  case False
  then obtain k where "k < ring_count (en_rob g)" "re_tag (en_window g ! k) = t"
    using live_position [OF ren_invD(2) [OF assms(1)]] by blast
  from o3_flush_after_live(2) [OF assms(1) this] show ?thesis by (simp add: set_take_subset)
qed

lemma engine_frame [simp]:
  "en_has_prf (o3_flush g) = en_has_prf g" "en_has_prf (o3_flush_after t g) = en_has_prf g"
  "en_has_prf (o3_mem_violation t g) = en_has_prf g"
  by (simp_all add: o3_flush_def o3_flush_after_def o3_mem_violation_def Let_def split: option.split)

lemma o3_reach_inv: "o3_reach n g \<Longrightarrow> o3_inv n g"
proof (induction rule: o3_reach.induct)
  case (init rob_size checkpoint_count sb_size lq_size width)
  let ?g = "o3_new rob_size sb_size lq_size n width checkpoint_count"
  have "en_window ?g = []" by (simp add: o3_new_def rob_new_def ring_window_def)
  then show ?case using o3_new_inv [OF init] by (simp add: o3_inv_def faults_ok_def) (simp add: o3_new_def)
next
  case (rename g d g' e)
  then have inv: "ren_inv n g" "faults_ok g" "en_has_prf g" by (simp_all add: o3_inv_def)
  note r = rename_o3_inv [OF inv(1) rename.hyps(2-4)]
  from r(4) inv(2) have "faults_ok g'" by (auto simp: faults_ok_def)
  with r(1,5) inv(3) show ?case by (simp add: o3_inv_def)
next
  case (commit g s g' s' flushed)
  then show ?case using tick_commit_inv unfolding o3_inv_def by blast
next
  case (stage g c)
  then show ?case by (simp add: o3_inv_note)
next
  case (drain_flags g t fl r)
  then show ?case by (simp add: o3_inv_drain)
next
  case (recover g t)
  then show ?case
    using o3_flush_after_inv(1) o3_flush_after_window faults_ok_subset unfolding o3_inv_def by (metis engine_frame(2))
next
  case (violation g t)
  then have inv: "ren_inv n g" "faults_ok g" "en_has_prf g" by (simp_all add: o3_inv_def)
  obtain k where k: "k < ring_count (en_rob g)" "re_tag (en_window g ! k) = t"
    using live_position [OF ren_invD(2) [OF inv(1)] violation.hyps(2)] by blast
  from o3_mem_violation_inv [OF inv(1) k] have v: "ren_inv n (o3_mem_violation t g)" "en_window (o3_mem_violation t g) = take k (en_window g)"
    by simp_all
  have "faults_ok (o3_mem_violation t g)" using inv(2) by (rule faults_ok_subset) (simp add: v(2) set_take_subset)
  with v inv show ?case by (simp add: o3_inv_def)
next
  case (flush g)
  then show ?case by (simp add: o3_inv_def o3_flush_inv faults_ok_def o3_flush_window)
next
  case (other g g')
  then show ?case
    using ren_view_cong [OF other.hyps(2)] faults_ok_cong [OF other.hyps(2)] by (simp add: o3_inv_def) (simp add: ren_view_def)
qed

subsection \<open>Properties\<close>

lemma rm_regs_size: "rm_wf m \<Longrightarrow> size (rm_regs m) = 64"
  by (simp add: rm_regs_def rm_wf_def)

lemma all_phys_size: "size (all_phys n) = n"
  by (simp add: all_phys_def)

text \<open>C2. No physical register leaks or is held twice. In every state the engine can reach, by renaming,
  committing, trapping, recovering from mispredictions and memory-order violations in any order, each
  physical register below the configured number is exactly one of: on the free list, the destination of
  one instruction in flight, or mapped by the committed rename map. After a flush the free list
  therefore has exactly the registers that no architectural register holds, which is the \<open>debug_assert\<close> of
  \<open>O3Engine::flush\<close>.\<close>

theorem physical_registers_conserved:
  assumes "o3_reach n g"
  shows "mset (fl_queue (en_free_list g)) + in_flight (en_window g) + rm_regs (en_committed_map g) = all_phys n
    \<and> (\<forall>p. count (mset (fl_queue (en_free_list g))) p + count (in_flight (en_window g)) p + count (rm_regs (en_committed_map g)) p \<le> 1)
    \<and> fl_available (en_free_list (o3_flush g)) + 64 = n"
proof -
  from o3_reach_inv [OF assms] have inv: "ren_inv n g" by (simp add: o3_inv_def)
  note c = ren_invD(7) [OF inv] and f = ren_invD [OF o3_flush_inv [OF inv]]
  have "mset (fl_queue (en_free_list (o3_flush g))) + rm_regs (en_committed_map (o3_flush g)) = all_phys n"
    using f(7) by (simp add: conserved_def o3_flush_window)
  then have "size (mset (fl_queue (en_free_list (o3_flush g))) + rm_regs (en_committed_map (o3_flush g))) = n"
    by (simp only: all_phys_size)
  then have "fl_available (en_free_list (o3_flush g)) + 64 = n" by (simp add: fl_available_def rm_regs_size [OF f(3)])
  with c conserved_unique [OF c ren_invD(1) [OF inv]] show ?thesis by (simp add: conserved_def)
qed

definition engine_example :: engine where
  "engine_example = o3_new 4 4 4 70 2 1"

lemma engine_example_reach: "o3_reach 70 engine_example"
  unfolding engine_example_def by (rule o3_reach.init) simp_all

theorem physical_registers_conserved_witness:
  "fl_available (en_free_list (o3_flush engine_example)) + 64 = 70"
  using physical_registers_conserved [OF engine_example_reach] by simp

text \<open>The youngest instruction in flight that writes a register.\<close>

definition writes_reg :: "reg_idx \<Rightarrow> bool \<Rightarrow> rob_entry \<Rightarrow> bool" where
  "writes_reg reg fp e \<longleftrightarrow> re_rd e = reg \<and> (if fp then cs_fp_reg_write (re_ctrl e) else cs_reg_write (re_ctrl e) \<and> \<not> reg_is_zero reg)"

lemma rm_get_rebuild:
  assumes "rm_wf m" "entry_ok e"
  shows "rm_get (rebuild_apply e m) reg fp = (if writes_reg reg fp e then re_phys_dst e else rm_get m reg fp)"
  using assms by (auto simp: rebuild_apply_def writes_reg_def rm_get_def rm_set_def rm_wf_def entry_ok_def ctrl_ok_def nth_list_update)

lemma rm_get_replay:
  assumes "rm_wf m" "\<forall>e \<in> set es. entry_ok e"
  shows "rm_get (replay_map es m) reg fp =
    (case find (writes_reg reg fp) (rev es) of Some e \<Rightarrow> re_phys_dst e | None \<Rightarrow> rm_get m reg fp)"
  using assms
proof (induction es rule: rev_induct)
  case (snoc e es)
  then show ?case using rm_get_rebuild [OF replay_map_wf [OF snoc.prems(1)], of e es] by simp
qed simp




text \<open>The engine after one instruction has been renamed.\<close>

definition engine_one :: engine where
  "engine_one = (case rename_o3 id_ex_nop engine_example of Rn_Done g _ \<Rightarrow> g | _ \<Rightarrow> engine_example)"

lemma rename_o3_no_stall: "\<not> is_branch_or_jump (id_ctrl d) \<Longrightarrow> rename_o3 d g \<noteq> Rn_Stall"
  by (simp add: rename_o3_def Let_def split: option.split prod.split bool.split)

lemma engine_one_reach: "o3_reach 70 engine_one" "length (en_window engine_one) = 1"
proof -
  have "has_room (Suc 0) engine_example" "en_has_prf engine_example"
    by (simp_all add: engine_example_def o3_new_def has_room_def rob_free_slots_def rob_new_def sb_free_slots_def
        sb_new_def lq_free_slots_def lq_new_def fl_available_def fl_new_def ct_new_def ct_wf_def)
  moreover have "\<not> is_branch_or_jump (id_ctrl id_ex_nop)" by (simp add: id_ex_nop_def default_ctrl_def is_branch_or_jump_def)
  ultimately obtain g e where g: "rename_o3 id_ex_nop engine_example = Rn_Done g e"
    using rename_o3_progress [of 0 engine_example id_ex_nop] rename_o3_no_stall by metis
  then have eq: "engine_one = g" by (simp add: engine_one_def)
  have ctrl: "ctrl_ok (id_ctrl id_ex_nop)" by (simp add: ctrl_ok_def id_ex_nop_def default_ctrl_def is_branch_or_jump_def)
  have win: "en_window engine_example = []" by (simp add: engine_example_def o3_new_def rob_new_def ring_window_def)
  have room: "rob_room (en_rob engine_example)" by (simp add: rob_room_def win)
  from o3_reach.rename [OF engine_example_reach ctrl room g] show "o3_reach 70 engine_one" by (simp add: eq)
  have "ren_inv 70 engine_example" using o3_reach_inv [OF engine_example_reach] by (simp add: o3_inv_def)
  from rename_o3_inv(3) [OF this ctrl room g] win show "length (en_window engine_one) = 1" by (simp add: eq)
qed


end
