(* ===== verification/Mdp.thy ===== *)
theory Mdp
  imports Rob "HOL-Library.AList"
begin

text \<open>
  The memory dependence unit (\<open>core/units/mdp\<close>): the store-set predictor with its two tables
  (\<open>store_set.rs\<close>), and the unit that turns a prediction into the dependency a load or store waits for
  (\<open>mem_dep_unit.rs\<close>). The hash map of dependency records is an association list with distinct keys;
  the statistics counters are left out.

  A prediction is only a hint, so what matters is that following it is harmless: every table access stays
  in range, and an instruction only ever waits for an older one, so waiting cannot be circular.
\<close>

subsection \<open>The store-set predictor\<close>

datatype mem_prediction = NoDep | DepOn rob_tag

record store_set =
  ss_ssit :: "u16 option list"
  ss_lfst :: "rob_tag option list"
  ss_next_set_id :: u16
  ss_max_sets :: u16
  ss_tick_counter :: u64
  ss_clear_interval :: u64

definition ss_new :: "nat \<Rightarrow> nat \<Rightarrow> u64 \<Rightarrow> store_set" where
  "ss_new ssit_size lfst_size clear_interval =
    \<lparr> ss_ssit = replicate ssit_size None, ss_lfst = replicate lfst_size None, ss_next_set_id = 0,
      ss_max_sets = of_nat lfst_size, ss_tick_counter = 0, ss_clear_interval = clear_interval \<rparr>"

definition ssit_from_pc :: "u64 \<Rightarrow> nat \<Rightarrow> nat" where
  "ssit_from_pc pc table_size = unat ((ucast (drop_bit 2 pc) :: u32) mod of_nat table_size)"

definition ssit_index :: "store_set \<Rightarrow> u64 \<Rightarrow> nat" where
  "ssit_index s pc = ssit_from_pc pc (length (ss_ssit s))"

definition ss_predict :: "u64 \<Rightarrow> store_set \<Rightarrow> mem_prediction" where
  "ss_predict pc s = (case ss_ssit s ! ssit_index s pc of
     None \<Rightarrow> NoDep
   | Some set_id \<Rightarrow> (case ss_lfst s ! unat set_id of None \<Rightarrow> NoDep | Some t \<Rightarrow> DepOn t))"

definition ss_register_store :: "u64 \<Rightarrow> rob_tag \<Rightarrow> store_set \<Rightarrow> store_set" where
  "ss_register_store store_pc tag s = (case ss_ssit s ! ssit_index s store_pc of
     None \<Rightarrow> s
   | Some set_id \<Rightarrow> s\<lparr> ss_lfst := (ss_lfst s)[unat set_id := Some tag] \<rparr>)"

definition ss_train :: "u64 \<Rightarrow> u64 \<Rightarrow> store_set \<Rightarrow> store_set" where
  "ss_train load_pc store_pc s =
    (let li = ssit_index s load_pc; si = ssit_index s store_pc
     in case (ss_ssit s ! li, ss_ssit s ! si) of
          (None, None) \<Rightarrow>
            let set_id = ss_next_set_id s
            in s\<lparr> ss_next_set_id := (ss_next_set_id s + 1) mod ss_max_sets s,
                 ss_ssit := (ss_ssit s)[li := Some set_id, si := Some set_id] \<rparr>
        | (None, Some sid) \<Rightarrow> s\<lparr> ss_ssit := (ss_ssit s)[li := Some sid] \<rparr>
        | (Some lid, None) \<Rightarrow> s\<lparr> ss_ssit := (ss_ssit s)[si := Some lid] \<rparr>
        | (Some lid, Some sid) \<Rightarrow> if lid \<noteq> sid then s\<lparr> ss_ssit := (ss_ssit s)[li := Some sid] \<rparr> else s)"

definition ss_rebuild_lfst_entry :: "u64 \<Rightarrow> rob_tag \<Rightarrow> store_set \<Rightarrow> store_set" where
  "ss_rebuild_lfst_entry store_pc tag s = (case ss_ssit s ! ssit_index s store_pc of
     None \<Rightarrow> s
   | Some set_id \<Rightarrow> (case ss_lfst s ! unat set_id of
       None \<Rightarrow> s\<lparr> ss_lfst := (ss_lfst s)[unat set_id := Some tag] \<rparr>
     | Some current \<Rightarrow> if is_newer_than tag current then s\<lparr> ss_lfst := (ss_lfst s)[unat set_id := Some tag] \<rparr> else s))"

definition ss_flush :: "store_set \<Rightarrow> store_set" where
  "ss_flush s = s\<lparr> ss_lfst := map (\<lambda>_. None) (ss_lfst s) \<rparr>"

definition ss_flush_after :: "rob_tag \<Rightarrow> store_set \<Rightarrow> store_set" where
  "ss_flush_after keep s = s\<lparr> ss_lfst := map (\<lambda>e. case e of
     Some t \<Rightarrow> if is_newer_than t keep then None else e | None \<Rightarrow> None) (ss_lfst s) \<rparr>"

definition ss_tick :: "store_set \<Rightarrow> store_set" where
  "ss_tick s =
    (let c = ss_tick_counter s + 1; s1 = s\<lparr> ss_tick_counter := c \<rparr>
     in if ss_clear_interval s > 0 \<and> c mod ss_clear_interval s = 0
        then s1\<lparr> ss_ssit := map (\<lambda>_. None) (ss_ssit s) \<rparr> else s1)"

subsection \<open>The dependence unit\<close>

datatype mem_dep_state = Md_None | Md_Bypass | Md_WaitAll | Md_WaitFor rob_tag | Md_Resolved rob_tag

datatype predictor_kind = Pk_Blind | Pk_StoreSet store_set

record dep_record =
  dep_barrier :: rob_tag
  dep_resolved :: bool

record mem_dep_unit =
  mdu_predictor :: predictor_kind
  mdu_deps :: "(rob_tag \<times> dep_record) list"

definition mdu_new :: "(nat \<times> nat \<times> u64) option \<Rightarrow> mem_dep_unit" where
  "mdu_new cfg = \<lparr> mdu_predictor = (case cfg of None \<Rightarrow> Pk_Blind | Some (a, b, c) \<Rightarrow> Pk_StoreSet (ss_new a b c)), mdu_deps = [] \<rparr>"

definition mdu_dispatch :: "u64 \<Rightarrow> rob_tag \<Rightarrow> bool \<Rightarrow> bool \<Rightarrow> mem_dep_unit \<Rightarrow> mem_dep_unit \<times> mem_dep_state" where
  "mdu_dispatch pc tag is_load is_store u = (case mdu_predictor u of
     Pk_Blind \<Rightarrow> (u, if is_load then Md_WaitAll else Md_None)
   | Pk_StoreSet s \<Rightarrow>
       if \<not> is_load \<and> \<not> is_store then (u, Md_None)
       else let prediction = ss_predict pc s;
                s1 = (if is_store then ss_register_store pc tag s else s);
                u1 = u\<lparr> mdu_predictor := Pk_StoreSet s1 \<rparr>
            in case prediction of
                 NoDep \<Rightarrow> (u1, if is_load then Md_Bypass else Md_None)
               | DepOn barrier \<Rightarrow>
                   if is_older_than barrier tag
                   then (u1\<lparr> mdu_deps := AList.update tag \<lparr> dep_barrier = barrier, dep_resolved = False \<rparr> (mdu_deps u) \<rparr>,
                         Md_WaitFor barrier)
                   else (u1, if is_load then Md_Bypass else Md_None))"

definition mdu_store_resolved :: "rob_tag \<Rightarrow> mem_dep_unit \<Rightarrow> mem_dep_unit \<times> rob_tag option" where
  "mdu_store_resolved store_tag u =
    (let hit = (\<lambda>d. dep_barrier d = store_tag \<and> \<not> dep_resolved d)
     in (u\<lparr> mdu_deps := map (\<lambda>(k, d). (k, if hit d then d\<lparr> dep_resolved := True \<rparr> else d)) (mdu_deps u) \<rparr>,
         if list_ex (\<lambda>(k, d). hit d) (mdu_deps u) then Some store_tag else None))"

definition mdu_issued :: "rob_tag \<Rightarrow> mem_dep_unit \<Rightarrow> mem_dep_unit" where
  "mdu_issued tag u = u\<lparr> mdu_deps := AList.delete tag (mdu_deps u) \<rparr>"

definition mdu_violation :: "u64 \<Rightarrow> u64 \<Rightarrow> mem_dep_unit \<Rightarrow> mem_dep_unit" where
  "mdu_violation load_pc store_pc u = (case mdu_predictor u of
     Pk_StoreSet s \<Rightarrow> u\<lparr> mdu_predictor := Pk_StoreSet (ss_train load_pc store_pc s) \<rparr> | Pk_Blind \<Rightarrow> u)"

definition mdu_flush :: "mem_dep_unit \<Rightarrow> mem_dep_unit" where
  "mdu_flush u = u\<lparr> mdu_deps := [],
     mdu_predictor := (case mdu_predictor u of Pk_StoreSet s \<Rightarrow> Pk_StoreSet (ss_flush s) | Pk_Blind \<Rightarrow> Pk_Blind) \<rparr>"

definition mdu_flush_after :: "rob_tag \<Rightarrow> rob \<Rightarrow> mem_dep_unit \<Rightarrow> mem_dep_unit" where
  "mdu_flush_after keep r u = u\<lparr> mdu_deps := filter (\<lambda>(t, d). is_older_or_eq t keep) (mdu_deps u),
     mdu_predictor := (case mdu_predictor u of
        Pk_StoreSet s \<Rightarrow> Pk_StoreSet (fold (\<lambda>e s. if cs_mem_write (re_ctrl e) then ss_rebuild_lfst_entry (re_pc e) (re_tag e) s else s)
                            (rob_iter_in_order r) (ss_flush_after keep s))
      | Pk_Blind \<Rightarrow> Pk_Blind) \<rparr>"

definition mdu_tick :: "mem_dep_unit \<Rightarrow> mem_dep_unit" where
  "mdu_tick u = (case mdu_predictor u of Pk_StoreSet s \<Rightarrow> u\<lparr> mdu_predictor := Pk_StoreSet (ss_tick s) \<rparr> | Pk_Blind \<Rightarrow> u)"

subsection \<open>Table accesses stay in range\<close>

text \<open>The sizes are those the configuration allows: the tables are not empty, the first is indexed by a
  \<open>u32\<close> and the second by a \<open>u16\<close>.\<close>

definition ss_inv :: "store_set \<Rightarrow> bool" where
  "ss_inv s \<longleftrightarrow> 0 < length (ss_ssit s) \<and> length (ss_ssit s) < 2 ^ 32 \<and> 0 < length (ss_lfst s) \<and> length (ss_lfst s) < 2 ^ 16
     \<and> ss_max_sets s = of_nat (length (ss_lfst s)) \<and> unat (ss_next_set_id s) < length (ss_lfst s)
     \<and> (\<forall>i. Some i \<in> set (ss_ssit s) \<longrightarrow> unat i < length (ss_lfst s))"

lemma ssit_index_less: "ss_inv s \<Longrightarrow> ssit_index s pc < length (ss_ssit s)"
proof -
  assume i: "ss_inv s"
  then have "unat (of_nat (length (ss_ssit s)) :: u32) = length (ss_ssit s)"
    by (simp add: ss_inv_def unsigned_of_nat take_bit_nat_eq_self)
  then show ?thesis using i by (simp add: ssit_index_def ssit_from_pc_def unat_mod_distrib ss_inv_def)
qed

lemma set_id_less:
  assumes "ss_inv s" "ss_ssit s ! ssit_index s pc = Some i"
  shows "unat i < length (ss_lfst s)"
  using assms ssit_index_less [OF assms(1), of pc] by (auto simp: ss_inv_def in_set_conv_nth)

lemma ss_inv_lfst:
  assumes "ss_inv s" "length l = length (ss_lfst s)"
  shows "ss_inv (s\<lparr> ss_lfst := l \<rparr>)"
  using assms by (simp add: ss_inv_def)

lemma ss_inv_ssit:
  assumes "ss_inv s" "unat i < length (ss_lfst s)"
  shows "ss_inv (s\<lparr> ss_ssit := (ss_ssit s)[n := Some i] \<rparr>)"
  using assms set_update_subset_insert [of "ss_ssit s" n "Some i"] by (auto simp: ss_inv_def)

lemma next_set_id_less:
  assumes "ss_inv s"
  shows "unat ((ss_next_set_id s + 1) mod ss_max_sets s) < length (ss_lfst s)"
proof -
  have "unat (ss_max_sets s) = length (ss_lfst s)"
    using assms by (simp add: ss_inv_def unsigned_of_nat take_bit_nat_eq_self)
  then show ?thesis using assms by (simp add: unat_mod_distrib ss_inv_def)
qed

lemma ss_ops_inv [inv_intros]:
  assumes "ss_inv s"
  shows "ss_inv (ss_register_store pc t s)" "ss_inv (ss_rebuild_lfst_entry pc t s)" "ss_inv (ss_flush s)"
    "ss_inv (ss_flush_after t s)" "ss_inv (ss_tick s)" "ss_inv (ss_train load_pc store_pc s)"
proof -
  show "ss_inv (ss_train load_pc store_pc s)"
  proof -
    let ?s = "s\<lparr> ss_next_set_id := (ss_next_set_id s + 1) mod ss_max_sets s \<rparr>"
    have n: "ss_inv ?s" using assms next_set_id_less [OF assms] by (simp add: ss_inv_def)
    have k: "unat (ss_next_set_id s) < length (ss_lfst s)" using assms by (simp add: ss_inv_def)
    from ss_inv_ssit [OF ss_inv_ssit [OF n], of "ss_next_set_id s" "ss_next_set_id s"] k
    have "ss_inv (?s\<lparr> ss_ssit := (ss_ssit s)[i := Some (ss_next_set_id s), j := Some (ss_next_set_id s)] \<rparr>)" for i j by simp
    then show ?thesis using assms set_id_less [OF assms] ss_inv_ssit [OF assms]
      by (auto simp: ss_train_def Let_def split: option.splits)
  qed
qed (use assms in \<open>auto simp: ss_register_store_def ss_rebuild_lfst_entry_def ss_flush_def ss_flush_after_def ss_tick_def Let_def
    ss_inv_lfst split: option.splits\<close>, auto simp: ss_inv_def)

subsection \<open>The unit over any sequence of calls\<close>

datatype mdu_call = Mc_Dispatch u64 rob_tag bool bool | Mc_Resolved rob_tag | Mc_Issued rob_tag | Mc_Violation u64 u64
  | Mc_Flush | Mc_FlushAfter rob_tag rob | Mc_Tick

primrec mdu_exec :: "mdu_call \<Rightarrow> mem_dep_unit \<Rightarrow> mem_dep_unit" where
  "mdu_exec (Mc_Dispatch pc t l s) u = fst (mdu_dispatch pc t l s u)"
| "mdu_exec (Mc_Resolved t) u = fst (mdu_store_resolved t u)"
| "mdu_exec (Mc_Issued t) u = mdu_issued t u"
| "mdu_exec (Mc_Violation l s) u = mdu_violation l s u"
| "mdu_exec Mc_Flush u = mdu_flush u"
| "mdu_exec (Mc_FlushAfter t r) u = mdu_flush_after t r u"
| "mdu_exec Mc_Tick u = mdu_tick u"

definition deps_older :: "(rob_tag \<times> dep_record) list \<Rightarrow> bool" where
  "deps_older ds \<longleftrightarrow> list_all (\<lambda>(t, d). is_older_than (dep_barrier d) t) ds"

definition mdu_inv :: "mem_dep_unit \<Rightarrow> bool" where
  "mdu_inv u \<longleftrightarrow> (case mdu_predictor u of Pk_Blind \<Rightarrow> True | Pk_StoreSet s \<Rightarrow> ss_inv s)
     \<and> distinct (map fst (mdu_deps u)) \<and> deps_older (mdu_deps u)"

lemma ss_new_inv: "0 < a \<Longrightarrow> a < 2 ^ 32 \<Longrightarrow> 0 < b \<Longrightarrow> b < 2 ^ 16 \<Longrightarrow> ss_inv (ss_new a b c)"
  by (simp add: ss_new_def ss_inv_def)

lemma rebuild_fold_inv:
  "ss_inv s \<Longrightarrow> ss_inv (fold (\<lambda>e s. if cs_mem_write (re_ctrl e) then ss_rebuild_lfst_entry (re_pc e) (re_tag e) s else s) es s)"
  by (induction es arbitrary: s) (simp_all add: ss_ops_inv)

lemma deps_older_simps:
  "deps_older []" "deps_older ds \<Longrightarrow> deps_older (filter P ds)"
  "deps_older ds \<Longrightarrow> deps_older (map (\<lambda>(k, d). (k, if Q d then d\<lparr> dep_resolved := True \<rparr> else d)) ds)"
  "deps_older ds \<Longrightarrow> is_older_than (dep_barrier d) t \<Longrightarrow> deps_older (AList.update t d ds)"
  "deps_older ds \<Longrightarrow> deps_older (AList.delete t ds)"
  unfolding deps_older_def by (induction ds) (auto simp: AList.delete_eq)

lemma keys_map: "map fst (map (\<lambda>(k, d). (k, f d)) ds) = map fst ds"
  by (induction ds) auto

lemma mdu_dispatch_inv: "mdu_inv u \<Longrightarrow> mdu_inv (fst (mdu_dispatch pc t l s u))"
  by (auto simp: mdu_dispatch_def mdu_inv_def Let_def distinct_update ss_ops_inv deps_older_simps
      split: predictor_kind.splits mem_prediction.split)

lemma mdu_exec_inv: "mdu_inv u \<Longrightarrow> mdu_inv (mdu_exec c u)"
proof (cases c)
  case (Mc_Dispatch pc t l s)
  assume "mdu_inv u"
  then show ?thesis using Mc_Dispatch by (simp add: mdu_dispatch_inv)
next
  case (Mc_Resolved t)
  assume "mdu_inv u"
  then show ?thesis using Mc_Resolved
    by (simp add: mdu_store_resolved_def mdu_inv_def Let_def keys_map deps_older_simps del: map_map)
next
  case (Mc_FlushAfter t r)
  assume "mdu_inv u"
  then show ?thesis using Mc_FlushAfter
    by (auto simp: mdu_flush_after_def mdu_inv_def rebuild_fold_inv ss_ops_inv distinct_map_filter deps_older_simps
        split: predictor_kind.splits)
qed (auto simp: mdu_issued_def mdu_violation_def mdu_flush_def mdu_tick_def mdu_inv_def ss_ops_inv
    distinct_delete deps_older_simps split: predictor_kind.splits)

lemma mdu_run_inv: "mdu_inv u \<Longrightarrow> mdu_inv (fold mdu_exec cs u)"
  by (induction cs arbitrary: u) (simp_all add: mdu_exec_inv)

lemma mdu_run_kind:
  "\<exists>s. mdu_predictor u = Pk_StoreSet s \<Longrightarrow> \<exists>s. mdu_predictor (fold mdu_exec cs u) = Pk_StoreSet s"
proof (induction cs arbitrary: u)
  case (Cons c cs)
  have "\<exists>s. mdu_predictor (mdu_exec c u) = Pk_StoreSet s"
    using Cons.prems by (cases c) (auto simp: mdu_dispatch_def mdu_store_resolved_def mdu_issued_def mdu_violation_def mdu_flush_def
        mdu_flush_after_def mdu_tick_def Let_def split: mem_prediction.split)
  with Cons.IH show ?case by simp
qed simp



end
