(* ===== verification/IssueQueue.thy ===== *)
theory IssueQueue
  imports Rename Cpu Mdp "HOL-Library.Sublist"
begin

text \<open>
  The issue queue of the out-of-order backend (\<open>backend/o3/issue_queue.rs\<close>) and the functional-unit
  pool (\<open>fu_pool.rs\<close>). Entries wait in unordered slots until their operands have been broadcast; selection
  takes ready entries in the order of their tags within the width and port limits.

  The main invariant relates the queue to the physical register file: an operand that holds a value holds
  the value of its register, and an operand that still waits has a register that is not written yet. So what
  is issued reads exactly the physical registers it was renamed to, and no wakeup is lost.
\<close>

subsection \<open>Operands and entries\<close>

datatype operand_ready = NotReady | Speculative | Ready u64

primrec or_is_ready :: "operand_ready \<Rightarrow> bool" where
  "or_is_ready NotReady = False"
| "or_is_ready Speculative = True"
| "or_is_ready (Ready v) = True"

primrec or_is_speculative :: "operand_ready \<Rightarrow> bool" where
  "or_is_speculative NotReady = False"
| "or_is_speculative Speculative = True"
| "or_is_speculative (Ready v) = False"

record operand_state =
  os_phys :: phys_reg
  os_tag :: "rob_tag option"
  os_readiness :: operand_ready

definition os_ready :: "phys_reg \<Rightarrow> rob_tag option \<Rightarrow> u64 \<Rightarrow> operand_state" where
  "os_ready p t v = \<lparr> os_phys = p, os_tag = t, os_readiness = Ready v \<rparr>"

definition os_not_ready :: "phys_reg \<Rightarrow> rob_tag option \<Rightarrow> operand_state" where
  "os_not_ready p t = \<lparr> os_phys = p, os_tag = t, os_readiness = NotReady \<rparr>"

record iq_entry =
  iq_entry :: rename_issue_entry
  iq_src1 :: operand_state
  iq_src2 :: operand_state
  iq_src3 :: operand_state
  iq_mem_dep :: mem_dep_state

record selected_entry =
  se_entry :: rename_issue_entry
  se_mem_dep :: mem_dep_state

record issue_queue =
  iq_slots :: "iq_entry option list"
  iq_capacity :: nat
  iq_count :: nat

definition iq_new :: "nat \<Rightarrow> issue_queue" where
  "iq_new capacity = \<lparr> iq_slots = replicate capacity None, iq_capacity = capacity, iq_count = 0 \<rparr>"

subsection \<open>Dispatch\<close>

definition resolve_operand_prf :: "reg_idx \<Rightarrow> bool \<Rightarrow> phys_reg \<Rightarrow> phys_reg_file \<Rightarrow> operand_state" where
  "resolve_operand_prf reg is_fp phys f =
    (if \<not> is_fp \<and> reg_is_zero reg then os_ready 0 None 0
     else if prf_is_ready f phys then os_ready phys None (prf_read f phys)
     else if phys = 0 then os_ready 0 None 0
     else os_not_ready phys None)"

definition resolve_operand_legacy :: "reg_idx \<Rightarrow> bool \<Rightarrow> rob_tag option \<Rightarrow> rob \<Rightarrow> register_file \<Rightarrow> operand_state" where
  "resolve_operand_legacy reg is_fp tag r regs =
    (let value = (if is_fp then regs_read_f regs reg else regs_read regs reg)
     in if \<not> is_fp \<and> reg_is_zero reg then os_ready 0 None 0
        else case tag of
               None \<Rightarrow> os_ready 0 None value
             | Some t \<Rightarrow> (case rob_find_entry r t of
                 Some e \<Rightarrow> if re_state e = Completed then os_ready 0 (Some t) (case re_result e of Some v \<Rightarrow> v | None \<Rightarrow> 0)
                           else os_not_ready 0 (Some t)
               | None \<Rightarrow> os_ready 0 None value))"

definition resolve_sources :: "rename_issue_entry \<Rightarrow> rob \<Rightarrow> register_file \<Rightarrow> phys_reg_file option
    \<Rightarrow> operand_state \<times> operand_state \<times> operand_state" where
  "resolve_sources e r regs prf =
    (let c = ri_ctrl e in case prf of
       Some f \<Rightarrow>
         (resolve_operand_prf (ri_rs1 e) (cs_rs1_fp c) (ri_rs1_phys e) f,
          resolve_operand_prf (ri_rs2 e) (cs_rs2_fp c) (ri_rs2_phys e) f,
          if cs_rs3_fp c then resolve_operand_prf (ri_rs3 e) True (ri_rs3_phys e) f else os_ready 0 None 0)
     | None \<Rightarrow>
         (resolve_operand_legacy (ri_rs1 e) (cs_rs1_fp c) (ri_rs1_tag e) r regs,
          resolve_operand_legacy (ri_rs2 e) (cs_rs2_fp c) (ri_rs2_tag e) r regs,
          if cs_rs3_fp c then resolve_operand_legacy (ri_rs3 e) True (ri_rs3_tag e) r regs else os_ready 0 None 0))"

text \<open>The first free slot; \<open>None\<close> is the \<open>unreachable!\<close> behind the loop.\<close>

fun first_free :: "iq_entry option list \<Rightarrow> nat option" where
  "first_free [] = None"
| "first_free (None # ss) = Some 0"
| "first_free (Some e # ss) = map_option Suc (first_free ss)"

definition iq_dispatch :: "rename_issue_entry \<Rightarrow> rob \<Rightarrow> register_file \<Rightarrow> phys_reg_file option \<Rightarrow> mem_dep_state \<Rightarrow> issue_queue
    \<Rightarrow> (issue_queue \<times> bool) option" where
  "iq_dispatch e r regs prf md q =
    (if iq_capacity q \<le> iq_count q then Some (q, False)
     else let (s1, s2, s3) = resolve_sources e r regs prf;
              x = \<lparr> iq_entry = e, iq_src1 = s1, iq_src2 = s2, iq_src3 = s3, iq_mem_dep = md \<rparr>
          in map_option (\<lambda>i. (q\<lparr> iq_slots := (iq_slots q)[i := Some x], iq_count := iq_count q + 1 \<rparr>, True))
               (first_free (iq_slots q)))"

subsection \<open>Wakeup\<close>

definition wake :: "(operand_state \<Rightarrow> bool) \<Rightarrow> operand_ready \<Rightarrow> operand_state \<Rightarrow> operand_state" where
  "wake match r s = (if match s then s\<lparr> os_readiness := r \<rparr> else s)"

definition iq_map_sources :: "(operand_state \<Rightarrow> operand_state) \<Rightarrow> issue_queue \<Rightarrow> issue_queue" where
  "iq_map_sources f q = q\<lparr> iq_slots := map (map_option (\<lambda>e.
     e\<lparr> iq_src1 := f (iq_src1 e), iq_src2 := f (iq_src2 e), iq_src3 := f (iq_src3 e) \<rparr>)) (iq_slots q) \<rparr>"

definition wakeup_phys :: "phys_reg \<Rightarrow> u64 \<Rightarrow> issue_queue \<Rightarrow> issue_queue" where
  "wakeup_phys p v = iq_map_sources (wake (\<lambda>s. os_phys s = p \<and> \<not> or_is_ready (os_readiness s)) (Ready v))"

definition speculative_wakeup_phys :: "phys_reg \<Rightarrow> issue_queue \<Rightarrow> issue_queue" where
  "speculative_wakeup_phys p q = (if p = 0 then q
     else iq_map_sources (wake (\<lambda>s. os_phys s = p \<and> \<not> or_is_ready (os_readiness s)) Speculative) q)"

definition cancel_wakeup_phys :: "phys_reg \<Rightarrow> phys_reg_file \<Rightarrow> issue_queue \<Rightarrow> issue_queue" where
  "cancel_wakeup_phys p f q = (if p = 0 then q else if prf_is_ready f p then q
     else iq_map_sources (wake (\<lambda>s. os_phys s = p \<and> or_is_speculative (os_readiness s)) NotReady) q)"

definition wakeup_tag :: "rob_tag \<Rightarrow> u64 \<Rightarrow> issue_queue \<Rightarrow> issue_queue" where
  "wakeup_tag t v = iq_map_sources (wake (\<lambda>s. os_tag s = Some t \<and> \<not> or_is_ready (os_readiness s)) (Ready v))"

definition wakeup_mem_dep :: "rob_tag list \<Rightarrow> issue_queue \<Rightarrow> issue_queue" where
  "wakeup_mem_dep resolved q = q\<lparr> iq_slots := map (map_option (\<lambda>e. case iq_mem_dep e of
     Md_WaitFor barrier \<Rightarrow> if barrier \<in> set resolved then e\<lparr> iq_mem_dep := Md_Resolved barrier \<rparr> else e
   | _ \<Rightarrow> e)) (iq_slots q) \<rparr>"

subsection \<open>Select\<close>

definition prf_validated :: "operand_state \<Rightarrow> phys_reg_file \<Rightarrow> bool" where
  "prf_validated s f = (case os_readiness s of Speculative \<Rightarrow> prf_is_ready f (os_phys s) | _ \<Rightarrow> True)"

definition resolve_value :: "operand_state \<Rightarrow> phys_reg_file option \<Rightarrow> u64" where
  "resolve_value s prf = (case os_readiness s of
     Ready v \<Rightarrow> v
   | Speculative \<Rightarrow> if os_phys s = 0 then 0 else (case prf of None \<Rightarrow> 0 | Some f \<Rightarrow> prf_read f (os_phys s))
   | NotReady \<Rightarrow> 0)"

definition operands_ready :: "phys_reg_file option \<Rightarrow> iq_entry \<Rightarrow> bool" where
  "operands_ready prf e \<longleftrightarrow>
    (ri_trap (iq_entry e) \<noteq> None
      \<or> or_is_ready (os_readiness (iq_src1 e)) \<and> or_is_ready (os_readiness (iq_src2 e)) \<and> or_is_ready (os_readiness (iq_src3 e)))
    \<and> (case prf of None \<Rightarrow> True
       | Some f \<Rightarrow> prf_validated (iq_src1 e) f \<and> prf_validated (iq_src2 e) f \<and> prf_validated (iq_src3 e) f)"

definition mem_dep_ready :: "store_buffer \<Rightarrow> iq_entry \<Rightarrow> bool" where
  "mem_dep_ready sb e = (case iq_mem_dep e of
     Md_WaitAll \<Rightarrow> \<not> sb_has_unresolved_store_before sb (ri_rob_tag (iq_entry e))
   | Md_WaitFor barrier \<Rightarrow> \<not> sb_is_unresolved sb barrier
   | _ \<Rightarrow> True)"

definition order_ready :: "rob \<Rightarrow> rename_issue_entry \<Rightarrow> bool" where
  "order_ready r e =
    (let c = ri_ctrl e; so = cs_system_op c
     in \<not> (so \<noteq> Sys_None \<and> so \<noteq> Sys_Fence \<and> \<not> rob_all_before_completed r (ri_rob_tag e))
      \<and> \<not> (so = Sys_Fence \<and> (let pred_bits = (ucast (drop_bit 24 (ri_inst e) AND 0xF) :: u8)
              in \<not> rob_fence_pred_satisfied r (ri_rob_tag e) (pred_bits AND 2 \<noteq> 0) (pred_bits AND 1 \<noteq> 0)))
      \<and> \<not> ((cs_mem_read c \<or> cs_mem_write c) \<and> rob_has_fence_blocking r (ri_rob_tag e) (cs_mem_read c) (cs_mem_write c)))"

definition can_issue :: "store_buffer \<Rightarrow> rob \<Rightarrow> phys_reg_file option \<Rightarrow> iq_entry \<Rightarrow> bool" where
  "can_issue sb r prf e \<longleftrightarrow> operands_ready prf e \<and> mem_dep_ready sb e \<and> order_ready r (iq_entry e)"

definition slot_key :: "iq_entry option list \<Rightarrow> nat \<Rightarrow> rob_tag" where
  "slot_key ss i = (case ss ! i of None \<Rightarrow> 0 | Some e \<Rightarrow> ri_rob_tag (iq_entry e))"

definition ready_indices :: "store_buffer \<Rightarrow> rob \<Rightarrow> phys_reg_file option \<Rightarrow> iq_entry option list \<Rightarrow> nat list" where
  "ready_indices sb r prf ss = sort_key (slot_key ss)
     (filter (\<lambda>i. case ss ! i of None \<Rightarrow> False | Some e \<Rightarrow> can_issue sb r prf e) [0..<length ss])"

definition issue_entry_of :: "phys_reg_file option \<Rightarrow> iq_entry \<Rightarrow> selected_entry" where
  "issue_entry_of prf e =
    \<lparr> se_entry = (if ri_trap (iq_entry e) = None
        then (iq_entry e)\<lparr> ri_rv1 := resolve_value (iq_src1 e) prf, ri_rv2 := resolve_value (iq_src2 e) prf,
               ri_rv3 := resolve_value (iq_src3 e) prf \<rparr>
        else iq_entry e),
      se_mem_dep = iq_mem_dep e \<rparr>"

fun select_loop :: "nat \<Rightarrow> nat \<Rightarrow> nat \<Rightarrow> phys_reg_file option \<Rightarrow> nat list \<Rightarrow> nat \<Rightarrow> nat \<Rightarrow> selected_entry list \<Rightarrow> issue_queue
    \<Rightarrow> issue_queue \<times> selected_entry list" where
  "select_loop width lp sp prf [] loads stores res q = (q, res)"
| "select_loop width lp sp prf (i # is) loads stores res q =
    (if width \<le> length res then (q, res)
     else case iq_slots q ! i of
       None \<Rightarrow> select_loop width lp sp prf is loads stores res q
     | Some e \<Rightarrow>
         let is_load = cs_mem_read (ri_ctrl (iq_entry e)); is_store = cs_mem_write (ri_ctrl (iq_entry e))
         in if is_load \<and> lp \<le> loads \<or> is_store \<and> sp \<le> stores then select_loop width lp sp prf is loads stores res q
            else select_loop width lp sp prf is (if is_load then loads + 1 else loads) (if is_store then stores + 1 else stores)
                   (res @ [issue_entry_of prf e]) (q\<lparr> iq_slots := (iq_slots q)[i := None], iq_count := iq_count q - 1 \<rparr>))"

definition iq_select :: "nat \<Rightarrow> store_buffer \<Rightarrow> rob \<Rightarrow> nat \<Rightarrow> nat \<Rightarrow> phys_reg_file option \<Rightarrow> issue_queue
    \<Rightarrow> issue_queue \<times> selected_entry list" where
  "iq_select width sb r load_ports store_ports prf q =
     select_loop width load_ports store_ports prf (ready_indices sb r prf (iq_slots q)) 0 0 [] q"

subsection \<open>Queries and flushes\<close>

definition iq_available_slots :: "issue_queue \<Rightarrow> nat" where
  "iq_available_slots q = iq_capacity q - iq_count q"

definition iq_is_empty :: "issue_queue \<Rightarrow> bool" where
  "iq_is_empty q \<longleftrightarrow> iq_count q = 0"

definition iq_flush :: "issue_queue \<Rightarrow> issue_queue" where
  "iq_flush q = q\<lparr> iq_slots := map (\<lambda>_. None) (iq_slots q), iq_count := 0 \<rparr>"

definition newer_slot :: "rob_tag \<Rightarrow> iq_entry option \<Rightarrow> bool" where
  "newer_slot keep s = (case s of None \<Rightarrow> False | Some e \<Rightarrow> is_newer_than (ri_rob_tag (iq_entry e)) keep)"

definition iq_flush_after :: "rob_tag \<Rightarrow> issue_queue \<Rightarrow> issue_queue" where
  "iq_flush_after keep q = q\<lparr> iq_slots := map (\<lambda>s. if newer_slot keep s then None else s) (iq_slots q),
     iq_count := iq_count q - length (filter (newer_slot keep) (iq_slots q)) \<rparr>"

definition iq_queue_snapshot :: "issue_queue \<Rightarrow> rename_issue_entry list" where
  "iq_queue_snapshot q = map iq_entry (sort_key (\<lambda>e. ri_rob_tag (iq_entry e)) (List.map_filter id (iq_slots q)))"

subsection \<open>Functional units\<close>

datatype fu_type = Fu_IntAlu | Fu_IntMul | Fu_IntDiv | Fu_FpAdd | Fu_FpMul | Fu_FpFma | Fu_FpDivSqrt | Fu_Branch | Fu_Mem

definition fu_classify :: "control_signals \<Rightarrow> fu_type" where
  "fu_classify c =
    (if cs_mem_read c \<or> cs_mem_write c \<or> cs_atomic_op c \<noteq> At_None then Fu_Mem
     else if cs_control_flow c \<noteq> CF_Sequential then Fu_Branch
     else if cs_alu c \<in> {Alu_Mul, Alu_Mulh, Alu_Mulhsu, Alu_Mulhu} then Fu_IntMul
     else if cs_alu c \<in> {Alu_Div, Alu_Divu, Alu_Rem, Alu_Remu} then Fu_IntDiv
     else if cs_alu c = Alu_FMul then Fu_FpMul
     else if cs_alu c \<in> {Alu_FDiv, Alu_FSqrt} then Fu_FpDivSqrt
     else if cs_alu c \<in> {Alu_FMAdd, Alu_FMSub, Alu_FNMAdd, Alu_FNMSub} then Fu_FpFma
     else if cs_alu c \<in> {Alu_FAdd, Alu_FSub, Alu_FMin, Alu_FMax, Alu_FSgnJ, Alu_FSgnJN, Alu_FSgnJX, Alu_FEq, Alu_FLt, Alu_FLe,
        Alu_FClass, Alu_FCvtWS, Alu_FCvtWUS, Alu_FCvtLS, Alu_FCvtLUS, Alu_FCvtSW, Alu_FCvtSWU, Alu_FCvtSL, Alu_FCvtSLU,
        Alu_FCvtSD, Alu_FCvtDS, Alu_FMvToX, Alu_FMvToF} then Fu_FpAdd
     else Fu_IntAlu)"

record fu_unit =
  fu_type_of :: fu_type
  fu_latency :: u64
  fu_is_pipelined :: bool
  fu_busy_until :: u64

definition fu_is_free :: "fu_unit \<Rightarrow> u64 \<Rightarrow> bool" where
  "fu_is_free u now \<longleftrightarrow> now \<ge> fu_busy_until u"

definition fu_unit_acquire :: "u64 \<Rightarrow> fu_unit \<Rightarrow> fu_unit \<times> u64" where
  "fu_unit_acquire now u =
    (let complete = now + fu_latency u
     in (u\<lparr> fu_busy_until := (if fu_is_pipelined u then now + 1 else complete) \<rparr>, complete))"

record fu_config =
  num_int_alu :: nat
  int_alu_latency :: u64
  num_int_mul :: nat
  int_mul_latency :: u64
  num_int_div :: nat
  int_div_latency :: u64
  num_fp_add :: nat
  fp_add_latency :: u64
  num_fp_mul :: nat
  fp_mul_latency :: u64
  num_fp_fma :: nat
  fp_fma_latency :: u64
  num_fp_div_sqrt :: nat
  fp_div_sqrt_latency :: u64
  num_branch :: nat
  branch_latency :: u64
  num_mem :: nat
  mem_latency :: u64

definition fu_config_default :: fu_config where
  "fu_config_default = \<lparr> num_int_alu = 4, int_alu_latency = 1, num_int_mul = 1, int_mul_latency = 3, num_int_div = 1, int_div_latency = 35, 
     num_fp_add = 2, fp_add_latency = 4, num_fp_mul = 2, fp_mul_latency = 5, num_fp_fma = 2, fp_fma_latency = 5, 
     num_fp_div_sqrt = 1, fp_div_sqrt_latency = 21, num_branch = 2, branch_latency = 1, num_mem = 2, mem_latency = 1 \<rparr>"

definition fu_units :: "fu_type \<Rightarrow> nat \<Rightarrow> u64 \<Rightarrow> bool \<Rightarrow> fu_unit list" where
  "fu_units t n l p = replicate n \<lparr> fu_type_of = t, fu_latency = l, fu_is_pipelined = p, fu_busy_until = 0 \<rparr>"

definition fu_pool_new :: "fu_config \<Rightarrow> fu_unit list" where
  "fu_pool_new c = fu_units Fu_IntAlu (num_int_alu c) (int_alu_latency c) True
     @ fu_units Fu_IntMul (num_int_mul c) (int_mul_latency c) True
     @ fu_units Fu_IntDiv (num_int_div c) (int_div_latency c) False
     @ fu_units Fu_FpAdd (num_fp_add c) (fp_add_latency c) True
     @ fu_units Fu_FpMul (num_fp_mul c) (fp_mul_latency c) True
     @ fu_units Fu_FpFma (num_fp_fma c) (fp_fma_latency c) True
     @ fu_units Fu_FpDivSqrt (num_fp_div_sqrt c) (fp_div_sqrt_latency c) False
     @ fu_units Fu_Branch (num_branch c) (branch_latency c) True
     @ fu_units Fu_Mem (num_mem c) (mem_latency c) True"

definition fu_has_free :: "fu_unit list \<Rightarrow> fu_type \<Rightarrow> u64 \<Rightarrow> bool" where
  "fu_has_free us t now \<longleftrightarrow> list_ex (\<lambda>u. fu_type_of u = t \<and> fu_is_free u now) us"

text \<open>\<open>None\<close> is the panic when no unit is free.\<close>

fun fu_acquire :: "fu_type \<Rightarrow> u64 \<Rightarrow> fu_unit list \<Rightarrow> (fu_unit list \<times> u64) option" where
  "fu_acquire t now [] = None"
| "fu_acquire t now (u # us) =
    (if fu_type_of u = t \<and> fu_is_free u now then (let (u', c) = fu_unit_acquire now u in Some (u' # us, c))
     else map_option (\<lambda>(us', c). (u # us', c)) (fu_acquire t now us))"

definition fu_get_latency :: "fu_unit list \<Rightarrow> fu_type \<Rightarrow> u64" where
  "fu_get_latency us t = (case find (\<lambda>u. fu_type_of u = t) us of None \<Rightarrow> 1 | Some u \<Rightarrow> fu_latency u)"

definition fu_pool_is_pipelined :: "fu_unit list \<Rightarrow> fu_type \<Rightarrow> bool" where
  "fu_pool_is_pipelined us t = (case find (\<lambda>u. fu_type_of u = t) us of None \<Rightarrow> True | Some u \<Rightarrow> fu_is_pipelined u)"


subsection \<open>Slots\<close>

definition occupied :: "iq_entry option list \<Rightarrow> nat" where
  "occupied ss = length (filter (\<lambda>s. s \<noteq> None) ss)"

definition iq_wf :: "issue_queue \<Rightarrow> bool" where
  "iq_wf q \<longleftrightarrow> length (iq_slots q) = iq_capacity q \<and> iq_count q = occupied (iq_slots q)"

lemma first_free_spec:
  "case first_free ss of None \<Rightarrow> occupied ss = length ss | Some i \<Rightarrow> i < length ss \<and> ss ! i = None"
  by (induction ss rule: first_free.induct) (auto simp: occupied_def split: option.splits)

lemma occupied_update:
  assumes "i < length ss"
  shows "occupied (ss[i := x]) + (if ss ! i = None then 0 else 1) = occupied ss + (if x = None then 0 else 1)"
  using length_filter_update [OF assms, of "\<lambda>s. s \<noteq> None" x] by (auto simp: occupied_def split: if_splits)

lemma occupied_map:
  assumes "\<And>s. f s = None \<longleftrightarrow> s = None"
  shows "occupied (map f ss) = occupied ss"
  by (simp add: occupied_def filter_map o_def assms del: not_None_eq)

lemma occupied_flush: "occupied (map (\<lambda>s. if newer_slot keep s then None else s) ss) + length (filter (newer_slot keep) ss) = occupied ss"
  by (induction ss) (auto simp: occupied_def newer_slot_def)

lemma iq_dispatch_spec:
  assumes "iq_wf q"
  shows "(iq_capacity q \<le> iq_count q \<and> iq_dispatch e r regs prf md q = Some (q, False))
    \<or> (\<exists>i s1 s2 s3. iq_count q < iq_capacity q \<and> i < length (iq_slots q) \<and> iq_slots q ! i = None \<and> resolve_sources e r regs prf = (s1, s2, s3)
        \<and> iq_dispatch e r regs prf md q = Some (q\<lparr> iq_slots := (iq_slots q)[i := Some \<lparr> iq_entry = e, iq_src1 = s1, iq_src2 = s2,
             iq_src3 = s3, iq_mem_dep = md \<rparr>], iq_count := iq_count q + 1 \<rparr>, True))"
proof (cases "iq_capacity q \<le> iq_count q")
  case False
  then have "first_free (iq_slots q) \<noteq> None" using assms first_free_spec [of "iq_slots q"] by (cases "first_free (iq_slots q)") (simp_all add: iq_wf_def)
  with False show ?thesis using first_free_spec [of "iq_slots q"]
    by (auto simp: iq_dispatch_def Let_def split: prod.splits option.splits)
qed (simp add: iq_dispatch_def)

text \<open>What a selection does: it picks a subsequence of the ready slots and empties them.\<close>

definition clear_slots :: "nat list \<Rightarrow> iq_entry option list \<Rightarrow> iq_entry option list" where
  "clear_slots js ss = fold (\<lambda>j ss. ss[j := None]) js ss"

definition is_load_slot :: "iq_entry option list \<Rightarrow> nat \<Rightarrow> bool" where
  "is_load_slot ss i = (case ss ! i of None \<Rightarrow> False | Some e \<Rightarrow> cs_mem_read (ri_ctrl (iq_entry e)))"

definition is_store_slot :: "iq_entry option list \<Rightarrow> nat \<Rightarrow> bool" where
  "is_store_slot ss i = (case ss ! i of None \<Rightarrow> False | Some e \<Rightarrow> cs_mem_write (ri_ctrl (iq_entry e)))"

definition selects :: "nat \<Rightarrow> nat \<Rightarrow> nat \<Rightarrow> iq_entry option list \<Rightarrow> nat list \<Rightarrow> nat \<Rightarrow> nat \<Rightarrow> nat \<Rightarrow> nat list \<Rightarrow> bool" where
  "selects width lp sp ss is n loads stores js \<longleftrightarrow> subseq js is \<and> n + length js \<le> max n width
     \<and> loads + length (filter (is_load_slot ss) js) \<le> max loads lp \<and> stores + length (filter (is_store_slot ss) js) \<le> max stores sp
     \<and> (\<forall>i \<in> set is - set js. width \<le> n + length js
          \<or> is_load_slot ss i \<and> lp \<le> loads + length (filter (is_load_slot ss) js)
          \<or> is_store_slot ss i \<and> sp \<le> stores + length (filter (is_store_slot ss) js))"


lemma nth_clear_slots: "i < length ss \<Longrightarrow> clear_slots js ss ! i = (if i \<in> set js then None else ss ! i)"
  unfolding clear_slots_def by (induction js arbitrary: ss) (auto simp: nth_list_update)

lemma length_clear_slots [simp]: "length (clear_slots js ss) = length ss"
  unfolding clear_slots_def by (induction js arbitrary: ss) auto

lemma slot_update_other: "i \<noteq> j \<Longrightarrow> is_load_slot (ss[i := x]) j = is_load_slot ss j" "i \<noteq> j \<Longrightarrow> is_store_slot (ss[i := x]) j = is_store_slot ss j"
  by (simp_all add: is_load_slot_def is_store_slot_def)

lemma filter_slot_update:
  assumes "i \<notin> set js"
  shows "filter (is_load_slot (ss[i := x])) js = filter (is_load_slot ss) js" "filter (is_store_slot (ss[i := x])) js = filter (is_store_slot ss) js"
  using assms by (intro filter_cong refl; metis slot_update_other)+

lemma selects_skip:
  assumes "selects width lp sp ss is n l st js"
    "width \<le> n \<or> is_load_slot ss i \<and> lp \<le> l \<or> is_store_slot ss i \<and> sp \<le> st"
  shows "selects width lp sp ss (i # is) n l st js"
  using assms unfolding selects_def by (auto intro: trans_le_add1)

lemma selects_take:
  assumes "selects width lp sp (ss[i := None]) is (n + 1) (if is_load_slot ss i then l + 1 else l) (if is_store_slot ss i then st + 1 else st) js"
    "n < width" "\<not> (is_load_slot ss i \<and> lp \<le> l)" "\<not> (is_store_slot ss i \<and> sp \<le> st)" "i \<notin> set is"
  shows "selects width lp sp ss (i # is) n l st (i # js)"
proof -
  have sub: "subseq js is" using assms(1) by (simp add: selects_def)
  then have "i \<notin> set js" using assms(5) by (auto dest: list_emb_set)
  note f = filter_slot_update [OF this, of ss None]
  have "is_load_slot (ss[i := None]) j = is_load_slot ss j \<and> is_store_slot (ss[i := None]) j = is_store_slot ss j"
    if "j \<in> set is" for j using that assms(5) by (metis slot_update_other)
  with assms(1-4) f show ?thesis unfolding selects_def by (auto simp: max_def split: if_splits)
qed

lemma select_loop_spec:
  assumes "distinct is" "\<forall>i \<in> set is. i < length (iq_slots q) \<and> iq_slots q ! i \<noteq> None"
  shows "\<exists>js. selects width lp sp (iq_slots q) is (length res) l st js
      \<and> select_loop width lp sp prf is l st res q
        = (q\<lparr> iq_slots := clear_slots js (iq_slots q), iq_count := iq_count q - length js \<rparr>,
           res @ map (\<lambda>j. issue_entry_of prf (the (iq_slots q ! j))) js)"
  using assms
proof (induction "is" arbitrary: l st res q)
  case Nil
  then show ?case by (intro exI [of _ "[]"]) (simp add: selects_def clear_slots_def)
next
  case (Cons i "is")
  obtain e where e: "iq_slots q ! i = Some e" using Cons.prems(2) by auto
  have ls: "is_load_slot (iq_slots q) i = cs_mem_read (ri_ctrl (iq_entry e))"
    "is_store_slot (iq_slots q) i = cs_mem_write (ri_ctrl (iq_entry e))" by (simp_all add: is_load_slot_def is_store_slot_def e)
  consider (full) "width \<le> length res"
    | (skip) "length res < width" "is_load_slot (iq_slots q) i \<and> lp \<le> l \<or> is_store_slot (iq_slots q) i \<and> sp \<le> st"
    | (tk) "length res < width" "\<not> (is_load_slot (iq_slots q) i \<and> lp \<le> l \<or> is_store_slot (iq_slots q) i \<and> sp \<le> st)"
    by linarith
  then show ?case
  proof cases
    case full
    then show ?thesis by (intro exI [of _ "[]"]) (simp add: selects_def clear_slots_def)
  next
    case skip
    obtain js where "selects width lp sp (iq_slots q) is (length res) l st js"
      "select_loop width lp sp prf is l st res q = (q\<lparr> iq_slots := clear_slots js (iq_slots q), iq_count := iq_count q - length js \<rparr>,
        res @ map (\<lambda>j. issue_entry_of prf (the (iq_slots q ! j))) js)"
      using Cons.IH [of q res l st] Cons.prems by auto
    with skip selects_skip e ls show ?thesis by (intro exI [of _ js]) (auto simp: Let_def)
  next
    case tk
    let ?q = "q\<lparr> iq_slots := (iq_slots q)[i := None], iq_count := iq_count q - 1 \<rparr>"
    let ?l = "if is_load_slot (iq_slots q) i then l + 1 else l" and ?st = "if is_store_slot (iq_slots q) i then st + 1 else st"
    have "\<forall>j \<in> set is. j < length (iq_slots ?q) \<and> iq_slots ?q ! j \<noteq> None" using Cons.prems by (auto simp: nth_list_update)
    then obtain js where js: "selects width lp sp (iq_slots ?q) is (length (res @ [issue_entry_of prf e])) ?l ?st js"
      "select_loop width lp sp prf is ?l ?st (res @ [issue_entry_of prf e]) ?q
        = (?q\<lparr> iq_slots := clear_slots js (iq_slots ?q), iq_count := iq_count ?q - length js \<rparr>,
           (res @ [issue_entry_of prf e]) @ map (\<lambda>j. issue_entry_of prf (the (iq_slots ?q ! j))) js)"
      using Cons.IH [of ?q "res @ [issue_entry_of prf e]" ?l ?st] Cons.prems(1) by auto
    have "i \<notin> set js" using js(1) Cons.prems(1) by (auto simp: selects_def dest: list_emb_set)
    then have m: "map (\<lambda>j. issue_entry_of prf (the (iq_slots ?q ! j))) js = map (\<lambda>j. issue_entry_of prf (the (iq_slots q ! j))) js"
      by (intro map_cong refl) (simp, metis nth_list_update_neq)
    have "selects width lp sp (iq_slots q) (i # is) (length res) l st (i # js)"
      using js(1) tk Cons.prems(1) by (intro selects_take) auto
    moreover have "select_loop width lp sp prf (i # is) l st res q = select_loop width lp sp prf is ?l ?st (res @ [issue_entry_of prf e]) ?q"
      using tk e ls by (auto simp: Let_def)
    ultimately show ?thesis using js(2) m e by (intro exI [of _ "i # js"]) (simp add: clear_slots_def)
  qed
qed


lemma ready_indices_props:
  "distinct (ready_indices sb r prf ss)" "sorted (map (slot_key ss) (ready_indices sb r prf ss))"
  "i \<in> set (ready_indices sb r prf ss) \<longleftrightarrow> i < length ss \<and> (\<exists>e. ss ! i = Some e \<and> can_issue sb r prf e)"
  by (auto simp: ready_indices_def split: option.splits)

lemma occupied_clear:
  "distinct js \<Longrightarrow> \<forall>j \<in> set js. j < length ss \<and> ss ! j \<noteq> None \<Longrightarrow> occupied (clear_slots js ss) = occupied ss - length js"
proof (induction js arbitrary: ss)
  case (Cons j js)
  then have "occupied (clear_slots js (ss[j := None])) = occupied (ss[j := None]) - length js"
    by (intro Cons.IH) (auto simp: nth_list_update)
  then show ?case using occupied_update [of j ss None] Cons.prems by (simp add: clear_slots_def)
qed (simp add: clear_slots_def)

lemma iq_select_spec:
  "\<exists>js. selects width lp sp (iq_slots q) (ready_indices sb r prf (iq_slots q)) 0 0 0 js
      \<and> iq_select width sb r lp sp prf q
        = (q\<lparr> iq_slots := clear_slots js (iq_slots q), iq_count := iq_count q - length js \<rparr>,
           map (\<lambda>j. issue_entry_of prf (the (iq_slots q ! j))) js)"
proof -
  have "\<forall>i \<in> set (ready_indices sb r prf (iq_slots q)). i < length (iq_slots q) \<and> iq_slots q ! i \<noteq> None"
    by (auto simp: ready_indices_props(3))
  from select_loop_spec [OF ready_indices_props(1) this, of width lp sp "[]" 0 0 "prf"] show ?thesis
    by (simp add: iq_select_def)
qed

lemma selects_ready:
  assumes "selects w lp sp ss (ready_indices sb r prf ss) 0 0 0 js"
  shows "distinct js" "sorted (map (slot_key ss) js)" "j \<in> set js \<Longrightarrow> j < length ss \<and> (\<exists>e. ss ! j = Some e \<and> can_issue sb r prf e)"
proof -
  have sub: "subseq js (ready_indices sb r prf ss)" using assms by (simp add: selects_def)
  then obtain N where n: "js = nths (ready_indices sb r prf ss) N" by (auto simp: subseq_conv_nths)
  show "distinct js" unfolding n by (intro distinct_nthsI ready_indices_props)
  show "sorted (map (slot_key ss) js)" unfolding n nths_map [symmetric] by (intro sorted_nths ready_indices_props)
  show "j \<in> set js \<Longrightarrow> j < length ss \<and> (\<exists>e. ss ! j = Some e \<and> can_issue sb r prf e)"
    using set_nths_subset [of "ready_indices sb r prf ss" N] ready_indices_props(3) [of j sb r "prf" ss] unfolding n by blast
qed


lemma iq_select_wf:
  assumes "iq_wf q"
  shows "iq_wf (fst (iq_select width sb r lp sp prf q))"
proof -
  obtain js where js: "selects width lp sp (iq_slots q) (ready_indices sb r prf (iq_slots q)) 0 0 0 js"
    "iq_select width sb r lp sp prf q = (q\<lparr> iq_slots := clear_slots js (iq_slots q), iq_count := iq_count q - length js \<rparr>,
       map (\<lambda>j. issue_entry_of prf (the (iq_slots q ! j))) js)" using iq_select_spec by blast
  have "\<forall>j \<in> set js. j < length (iq_slots q) \<and> iq_slots q ! j \<noteq> None" using selects_ready(3) [OF js(1)] by fastforce
  with js(2) assms occupied_clear [OF selects_ready(1) [OF js(1)]] show ?thesis by (simp add: iq_wf_def)
qed

lemma iq_wf_ops:
  "iq_wf (iq_new n)" "iq_wf q \<Longrightarrow> iq_wf (iq_map_sources g q)" "iq_wf q \<Longrightarrow> iq_wf (wakeup_mem_dep rs q)" "iq_wf q \<Longrightarrow> iq_wf (iq_flush q)"
  by (simp_all add: iq_wf_def iq_new_def iq_map_sources_def wakeup_mem_dep_def iq_flush_def occupied_map, simp_all add: occupied_def)

lemma iq_flush_after_wf: "iq_wf q \<Longrightarrow> iq_wf (iq_flush_after t q)"
  using occupied_flush [of t "iq_slots q"] by (auto simp: iq_wf_def iq_flush_after_def)

lemma iq_dispatch_wf:
  assumes "iq_wf q" "iq_dispatch e r regs prf md q = Some (q', b)"
  shows "iq_wf q'"
  using iq_dispatch_spec [OF assms(1), of e r regs "prf" md]
proof (elim disjE exE conjE)
  fix i s1 s2 s3
  let ?x = "\<lparr> iq_entry = e, iq_src1 = s1, iq_src2 = s2, iq_src3 = s3, iq_mem_dep = md \<rparr>"
  assume "i < length (iq_slots q)" "iq_slots q ! i = None"
    "iq_dispatch e r regs prf md q = Some (q\<lparr> iq_slots := (iq_slots q)[i := Some ?x], iq_count := iq_count q + 1 \<rparr>, True)"
  with assms occupied_update [of i "iq_slots q" "Some ?x"] show ?thesis by (auto simp: iq_wf_def)
qed (use assms in simp)

subsection \<open>The queue and the physical register file\<close>

definition src_ok :: "phys_reg_file \<Rightarrow> bool \<Rightarrow> phys_reg \<Rightarrow> operand_state \<Rightarrow> bool" where
  "src_ok f absent p s \<longleftrightarrow>
    (if absent then os_readiness s = Ready 0
     else os_phys s = p \<and> (case os_readiness s of
       NotReady \<Rightarrow> p \<noteq> 0 \<and> \<not> prf_is_ready f p
     | Speculative \<Rightarrow> p \<noteq> 0
     | Ready v \<Rightarrow> prf_is_ready f p \<and> v = prf_read f p))"

definition no_rs1 :: "rename_issue_entry \<Rightarrow> bool" where
  "no_rs1 e \<longleftrightarrow> \<not> cs_rs1_fp (ri_ctrl e) \<and> reg_is_zero (ri_rs1 e)"

definition no_rs2 :: "rename_issue_entry \<Rightarrow> bool" where
  "no_rs2 e \<longleftrightarrow> \<not> cs_rs2_fp (ri_ctrl e) \<and> reg_is_zero (ri_rs2 e)"

definition no_rs3 :: "rename_issue_entry \<Rightarrow> bool" where
  "no_rs3 e \<longleftrightarrow> \<not> cs_rs3_fp (ri_ctrl e)"

definition srcs_ok :: "phys_reg_file \<Rightarrow> iq_entry \<Rightarrow> bool" where
  "srcs_ok f x \<longleftrightarrow> (let e = iq_entry x in
     src_ok f (no_rs1 e) (ri_rs1_phys e) (iq_src1 x) \<and> src_ok f (no_rs2 e) (ri_rs2_phys e) (iq_src2 x)
     \<and> src_ok f (no_rs3 e) (ri_rs3_phys e) (iq_src3 x))"

definition iq_entries :: "issue_queue \<Rightarrow> iq_entry set" where
  "iq_entries q = {x. Some x \<in> set (iq_slots q)}"

text \<open>The physical registers an entry reads.\<close>

definition sources :: "rename_issue_entry \<Rightarrow> phys_reg set" where
  "sources e = (if no_rs1 e then {} else {ri_rs1_phys e}) \<union> (if no_rs2 e then {} else {ri_rs2_phys e})
     \<union> (if no_rs3 e then {} else {ri_rs3_phys e})"

definition in_prf :: "phys_reg_file \<Rightarrow> phys_reg \<Rightarrow> bool" where
  "in_prf f p \<longleftrightarrow> p \<noteq> 0 \<and> unat p < length (prf_values f)"

lemma prf_write_wf: "prf_wf f \<Longrightarrow> prf_wf (prf_write p v f)"
  by (auto simp: prf_wf_def prf_write_def Let_def nth_list_update)

lemma prf_allocate_wf: "prf_wf f \<Longrightarrow> prf_wf (prf_allocate p f)"
  by (auto simp: prf_wf_def prf_allocate_def Let_def nth_list_update)

lemma prf_write_same: "prf_wf f \<Longrightarrow> in_prf f p \<Longrightarrow> prf_is_ready (prf_write p v f) p \<and> prf_read (prf_write p v f) p = v"
  by (auto simp: prf_wf_def in_prf_def prf_write_def prf_is_ready_def prf_read_def Let_def unat_eq_0)

lemma prf_write_other:
  "q \<noteq> p \<Longrightarrow> prf_is_ready (prf_write p v f) q = prf_is_ready f q \<and> prf_read (prf_write p v f) q = prf_read f q"
  by (auto simp: prf_write_def prf_is_ready_def prf_read_def Let_def nth_list_update word_unat_eq_iff)

lemma prf_allocate_other:
  "q \<noteq> p \<Longrightarrow> prf_is_ready (prf_allocate p f) q = prf_is_ready f q" "prf_read (prf_allocate p f) q = prf_read f q"
  by (auto simp: prf_allocate_def prf_is_ready_def prf_read_def Let_def nth_list_update word_unat_eq_iff)

lemma prf_zero: "prf_wf f \<Longrightarrow> prf_is_ready f 0 \<and> prf_read f 0 = 0"
  by (simp add: prf_wf_def prf_is_ready_def prf_read_def)

lemma src_ok_resolve:
  assumes "prf_wf f"
  shows "src_ok f (\<not> is_fp \<and> reg_is_zero reg) p (resolve_operand_prf reg is_fp p f)"
  using prf_zero [OF assms] by (auto simp: src_ok_def resolve_operand_prf_def os_ready_def os_not_ready_def)

lemma srcs_ok_resolve:
  assumes "prf_wf f" "resolve_sources e r regs (Some f) = (s1, s2, s3)"
  shows "srcs_ok f \<lparr> iq_entry = e, iq_src1 = s1, iq_src2 = s2, iq_src3 = s3, iq_mem_dep = md \<rparr>"
  using assms(2) src_ok_resolve [OF assms(1), of False "ri_rs3 e" "ri_rs3_phys e"]
    src_ok_resolve [OF assms(1), of True "ri_rs3 e" "ri_rs3_phys e"]
  by (auto simp: resolve_sources_def Let_def srcs_ok_def no_rs1_def no_rs2_def no_rs3_def src_ok_resolve [OF assms(1)]
      src_ok_def [of f True] os_ready_def split: if_splits)

lemma src_ok_write:
  assumes "prf_wf f" "in_prf f p" "\<not> prf_is_ready f p" "src_ok f a q s"
  shows "src_ok (prf_write p v f) a q (wake (\<lambda>s. os_phys s = p \<and> \<not> or_is_ready (os_readiness s)) (Ready v) s)"
  using assms prf_write_same [OF assms(1,2), of v] prf_write_other [of q p v f]
  by (cases "os_readiness s"; cases "q = p") (auto simp: src_ok_def wake_def)

lemma src_ok_speculate: "src_ok f a q s \<Longrightarrow> p \<noteq> 0 \<Longrightarrow> src_ok f a q (wake (\<lambda>s. os_phys s = p \<and> \<not> or_is_ready (os_readiness s)) Speculative s)"
  by (cases "os_readiness s") (auto simp: src_ok_def wake_def)

lemma src_ok_cancel:
  "src_ok f a q s \<Longrightarrow> \<not> prf_is_ready f p \<Longrightarrow> src_ok f a q (wake (\<lambda>s. os_phys s = p \<and> or_is_speculative (os_readiness s)) NotReady s)"
  by (cases "os_readiness s") (auto simp: src_ok_def wake_def)

lemma src_ok_allocate: "src_ok f a q s \<Longrightarrow> a \<or> q \<noteq> p \<Longrightarrow> src_ok (prf_allocate p f) a q s"
  by (cases "os_readiness s") (auto simp: src_ok_def prf_allocate_other)

lemma srcs_ok_map:
  assumes "\<And>a q s. src_ok f a q s \<Longrightarrow> src_ok f' a q (g s)" "\<forall>x \<in> iq_entries iq. srcs_ok f x" "y \<in> iq_entries (iq_map_sources g iq)"
  shows "srcs_ok f' y"
proof -
  obtain x where x: "Some x \<in> set (iq_slots iq)"
    "y = x\<lparr> iq_src1 := g (iq_src1 x), iq_src2 := g (iq_src2 x), iq_src3 := g (iq_src3 x) \<rparr>"
    using assms(3) by (auto simp: iq_entries_def iq_map_sources_def dest!: map_option_eq_Some [THEN iffD1, OF sym])
  then have "srcs_ok f x" using assms(2) by (simp add: iq_entries_def)
  with x(2) assms(1) show ?thesis by (simp add: srcs_ok_def Let_def)
qed

lemma srcs_ok_allocate:
  "srcs_ok f x \<Longrightarrow> p \<notin> sources (iq_entry x) \<Longrightarrow> srcs_ok (prf_allocate p f) x"
  by (auto simp: srcs_ok_def Let_def sources_def intro!: src_ok_allocate split: if_splits)

lemma srcs_ok_mem_dep: "srcs_ok f (x\<lparr> iq_mem_dep := d \<rparr>) = srcs_ok f x"
  by (simp add: srcs_ok_def)

lemma iq_entries_dispatch:
  assumes "iq_dispatch e r regs prf md q = Some (q', b)" "x \<in> iq_entries q'"
  shows "x \<in> iq_entries q \<or> (\<exists>s1 s2 s3. resolve_sources e r regs prf = (s1, s2, s3)
    \<and> x = \<lparr> iq_entry = e, iq_src1 = s1, iq_src2 = s2, iq_src3 = s3, iq_mem_dep = md \<rparr>)"
  using assms by (auto simp: iq_dispatch_def Let_def iq_entries_def split: if_splits prod.splits dest!: set_update_subset_insert [THEN subsetD])

lemma set_clear_slots: "Some x \<in> set (clear_slots js ss) \<Longrightarrow> Some x \<in> set ss"
  unfolding clear_slots_def by (induction js arbitrary: ss) (auto dest!: set_update_subset_insert [THEN subsetD])

lemma iq_entries_select: "iq_entries (fst (iq_select w sb r lp sp prf q)) \<subseteq> iq_entries q"
  using iq_select_spec [of w lp sp q sb r "prf"] by (auto simp: iq_entries_def dest: set_clear_slots)

lemma iq_entries_flush: "iq_entries (iq_flush q) = {}" "iq_entries (iq_flush_after t q) \<subseteq> iq_entries q"
  by (auto simp: iq_entries_def iq_flush_def iq_flush_after_def split: if_splits)

lemma srcs_ok_wakeup_mem_dep:
  assumes "\<forall>x \<in> iq_entries q. srcs_ok f x" "y \<in> iq_entries (wakeup_mem_dep rs q)"
  shows "srcs_ok f y"
  using assms by (auto simp: iq_entries_def wakeup_mem_dep_def srcs_ok_mem_dep dest!: map_option_eq_Some [THEN iffD1, OF sym]
      split: mem_dep_state.splits if_splits)

text \<open>
  The steps the backend takes on the queue and the register file: a result is written to the register
  file and broadcast in the same step; a register is allocated only when no waiting entry reads it.
\<close>

inductive iq_reach :: "issue_queue \<Rightarrow> phys_reg_file \<Rightarrow> bool" where
  start: "prf_wf f \<Longrightarrow> iq_reach (iq_new n) f"
| dispatch: "iq_reach q f \<Longrightarrow> iq_dispatch e r regs (Some f) md q = Some (q', b) \<Longrightarrow> iq_reach q' f"
| writeback: "iq_reach q f \<Longrightarrow> in_prf f p \<Longrightarrow> \<not> prf_is_ready f p \<Longrightarrow> iq_reach (wakeup_phys p v q) (prf_write p v f)"
| speculate: "iq_reach q f \<Longrightarrow> iq_reach (speculative_wakeup_phys p q) f"
| cancel: "iq_reach q f \<Longrightarrow> iq_reach (cancel_wakeup_phys p f q) f"
| mem_dep: "iq_reach q f \<Longrightarrow> iq_reach (wakeup_mem_dep rs q) f"
| select: "iq_reach q f \<Longrightarrow> iq_reach (fst (iq_select w sb r lp sp (Some f) q)) f"
| flush: "iq_reach q f \<Longrightarrow> iq_reach (iq_flush q) f"
| flush_after: "iq_reach q f \<Longrightarrow> iq_reach (iq_flush_after t q) f"
| allocate: "iq_reach q f \<Longrightarrow> \<forall>x \<in> iq_entries q. p \<notin> sources (iq_entry x) \<Longrightarrow> iq_reach q (prf_allocate p f)"

lemma iq_reach_ok: "iq_reach q f \<Longrightarrow> prf_wf f \<and> iq_wf q \<and> (\<forall>x \<in> iq_entries q. srcs_ok f x)"
proof (induction rule: iq_reach.induct)
  case (start f n)
  moreover have "iq_entries (iq_new n) = {}" by (simp add: iq_entries_def iq_new_def)
  ultimately show ?case by (simp add: iq_wf_ops(1))
next
  case (dispatch q f e r regs md q' b)
  have "srcs_ok f x" if x: "x \<in> iq_entries q'" for x
    using iq_entries_dispatch [OF dispatch(2) x] dispatch.IH by (elim disjE exE conjE) (simp_all add: srcs_ok_resolve)
  with dispatch show ?case using iq_dispatch_wf by blast
next
  case (writeback q f p v)
  then show ?case
    by (auto simp: prf_write_wf wakeup_phys_def iq_wf_ops intro: srcs_ok_map [rotated] src_ok_write)
next
  case (speculate q f p)
  then show ?case
    by (auto simp: speculative_wakeup_phys_def iq_wf_ops intro: srcs_ok_map [rotated] src_ok_speculate)
next
  case (cancel q f p)
  then show ?case by (auto simp: cancel_wakeup_phys_def iq_wf_ops intro: srcs_ok_map [rotated] src_ok_cancel)
next
  case (mem_dep q f rs)
  then show ?case by (auto simp: iq_wf_ops intro: srcs_ok_wakeup_mem_dep)
next
  case (select q f w sb r lp sp)
  then show ?case using iq_entries_select [of w sb r lp sp "Some f" q] iq_select_wf [of q] by blast
next
  case (flush q f)
  then show ?case by (simp add: iq_entries_flush iq_wf_ops)
next
  case (flush_after q f t)
  then show ?case using iq_entries_flush(2) by (auto simp: iq_flush_after_wf)
next
  case (allocate q f p)
  then show ?case by (auto simp: prf_allocate_wf intro: srcs_ok_allocate)
qed

lemma srcs_ok_ready:
  assumes "srcs_ok f x" "ri_trap (iq_entry x) = None"
  shows "operands_ready (Some f) x \<longleftrightarrow> (\<forall>p \<in> sources (iq_entry x). prf_is_ready f p)"
proof -
  have "or_is_ready (os_readiness s) \<and> prf_validated s f \<longleftrightarrow> a \<or> prf_is_ready f p" if "src_ok f a p s" for a p s
    using that by (cases "os_readiness s") (auto simp: src_ok_def prf_validated_def split: if_splits)
  with assms show ?thesis by (auto simp: operands_ready_def srcs_ok_def Let_def sources_def split: if_splits)
qed

lemma src_ok_value:
  assumes "src_ok f a p s" "a \<or> prf_is_ready f p"
  shows "resolve_value s (Some f) = (if a then 0 else prf_read f p)"
  using assms by (cases "os_readiness s") (auto simp: src_ok_def resolve_value_def split: if_splits)

definition with_operands :: "phys_reg_file \<Rightarrow> rename_issue_entry \<Rightarrow> rename_issue_entry" where
  "with_operands f e = e\<lparr> ri_rv1 := (if no_rs1 e then 0 else prf_read f (ri_rs1_phys e)),
     ri_rv2 := (if no_rs2 e then 0 else prf_read f (ri_rs2_phys e)), ri_rv3 := (if no_rs3 e then 0 else prf_read f (ri_rs3_phys e)) \<rparr>"

lemma issue_entry_of_ready:
  assumes "srcs_ok f x" "ri_trap (iq_entry x) = None" "operands_ready (Some f) x"
  shows "se_entry (issue_entry_of (Some f) x) = with_operands f (iq_entry x)"
proof -
  have "\<forall>p \<in> sources (iq_entry x). prf_is_ready f p" using assms srcs_ok_ready by blast
  then have r: "no_rs1 (iq_entry x) \<or> prf_is_ready f (ri_rs1_phys (iq_entry x))" "no_rs2 (iq_entry x) \<or> prf_is_ready f (ri_rs2_phys (iq_entry x))"
    "no_rs3 (iq_entry x) \<or> prf_is_ready f (ri_rs3_phys (iq_entry x))" by (auto simp: sources_def)
  from assms(1) have s: "src_ok f (no_rs1 (iq_entry x)) (ri_rs1_phys (iq_entry x)) (iq_src1 x)"
    "src_ok f (no_rs2 (iq_entry x)) (ri_rs2_phys (iq_entry x)) (iq_src2 x)"
    "src_ok f (no_rs3 (iq_entry x)) (ri_rs3_phys (iq_entry x)) (iq_src3 x)" by (simp_all add: srcs_ok_def Let_def)
  show ?thesis using assms(2) src_ok_value [OF s(1) r(1)] src_ok_value [OF s(2) r(2)] src_ok_value [OF s(3) r(3)]
    by (simp add: issue_entry_of_def with_operands_def)
qed

lemma iq_select_members:
  assumes "s \<in> set (snd (iq_select w sb r lp sp prf q))"
  shows "\<exists>x \<in> iq_entries q. s = issue_entry_of prf x \<and> can_issue sb r prf x"
proof -
  obtain js where js: "selects w lp sp (iq_slots q) (ready_indices sb r prf (iq_slots q)) 0 0 0 js"
    "iq_select w sb r lp sp prf q = (q\<lparr> iq_slots := clear_slots js (iq_slots q), iq_count := iq_count q - length js \<rparr>,
       map (\<lambda>j. issue_entry_of prf (the (iq_slots q ! j))) js)" using iq_select_spec by blast
  then obtain j where "j \<in> set js" "s = issue_entry_of prf (the (iq_slots q ! j))" using assms by auto
  with selects_ready(3) [OF js(1)] show ?thesis by (fastforce simp: iq_entries_def in_set_conv_nth)
qed


text \<open>C11. No wakeup is lost and none is spurious: in every reachable state an entry without a trap passes the
  operand check of selection exactly when every physical register it reads has been written.\<close>

theorem no_lost_wakeup:
  assumes "iq_reach q f" "x \<in> iq_entries q" "ri_trap (iq_entry x) = None"
  shows "operands_ready (Some f) x \<longleftrightarrow> (\<forall>p \<in> sources (iq_entry x). prf_is_ready f p)"
  using iq_reach_ok [OF assms(1)] assms(2,3) by (intro srcs_ok_ready) auto

text \<open>An entry for a one-operand instruction, a register file in which its register is pending, and the
  queue after its dispatch and the register's writeback.\<close>

definition demo_entry :: "rob_tag \<Rightarrow> rename_issue_entry" where
  "demo_entry t = \<lparr> ri_rob_tag = t, ri_pc = 0x1000, ri_inst = 0x00028513, ri_inst_size = Standard, ri_rs1 = 5, ri_rs2 = 0, ri_rs3 = 0,
     ri_rd = 10, ri_imm = 0, ri_rv1 = 0, ri_rv2 = 0, ri_rv3 = 0, ri_rs1_tag = None, ri_rs2_tag = None, ri_rs3_tag = None,
     ri_rs1_phys = 3, ri_rs2_phys = 0, ri_rs3_phys = 0, ri_rd_phys = 4, ri_ctrl = default_ctrl, ri_trap = None, ri_exception_stage = None,
     ri_pred_taken = False, ri_pred_target = 0, ri_ghr_snapshot = ghr_default, ri_ras_snapshot = 0 \<rparr>"

definition demo_queue :: issue_queue where
  "demo_queue = fst (the (iq_dispatch (demo_entry 1) (rob_new 4) regs_new (Some (prf_new 8)) Md_None (iq_new 2)))"

definition demo_item :: iq_entry where
  "demo_item = \<lparr> iq_entry = demo_entry 1, iq_src1 = os_not_ready 3 None, iq_src2 = os_ready 0 None 0, iq_src3 = os_ready 0 None 0,
     iq_mem_dep = Md_None \<rparr>"

lemma demo_dispatch:
  "iq_dispatch (demo_entry 1) (rob_new 4) regs_new (Some (prf_new 8)) Md_None (iq_new 2)
    = Some (\<lparr> iq_slots = [Some demo_item, None], iq_capacity = 2, iq_count = 1 \<rparr>, True)"
  by code_simp

lemma demo_reach: "iq_reach demo_queue (prf_new 8)" "iq_reach (wakeup_phys 3 42 demo_queue) (prf_write 3 42 (prf_new 8))"
proof -
  have "prf_wf (prf_new 8)" by (simp add: prf_wf_def prf_new_def)
  then show d: "iq_reach demo_queue (prf_new 8)"
    using iq_reach.dispatch [OF iq_reach.start demo_dispatch] by (simp add: demo_queue_def demo_dispatch)
  have "in_prf (prf_new 8) 3" by (simp add: in_prf_def prf_new_def)
  moreover have "\<not> prf_is_ready (prf_new 8) 3" by code_simp
  ultimately show "iq_reach (wakeup_phys 3 42 demo_queue) (prf_write 3 42 (prf_new 8))" using iq_reach.writeback [OF d] by blast
qed


theorem no_lost_wakeup_witness:
  "\<not> operands_ready (Some (prf_new 8)) demo_item"
proof -
  have "demo_item \<in> iq_entries demo_queue" by (simp add: iq_entries_def demo_queue_def demo_dispatch)
  moreover have "ri_trap (iq_entry demo_item) = None" by code_simp
  moreover have "3 \<in> sources (iq_entry demo_item)" by code_simp
  moreover have "\<not> prf_is_ready (prf_new 8) 3" by code_simp
  ultimately show ?thesis using no_lost_wakeup [OF demo_reach(1)] by blast
qed

subsection \<open>Selection order\<close>

text \<open>Selection is greedy in the order of the raw tags: it takes slots that can issue, in ascending order of tag,
  at most \<open>width\<close> of them with at most \<open>lp\<close> loads and \<open>sp\<close> stores; a slot that could issue is left behind only when
  the width or the port limit of its kind is used up; exactly the chosen slots are emptied, the count stays the number
  of occupied slots, and the result lists the chosen entries in that order.\<close>

theorem select_greedy:
  assumes "iq_wf q"
  shows "\<exists>js. distinct js \<and> sorted (map (slot_key (iq_slots q)) js) \<and> length js \<le> width
      \<and> length (filter (is_load_slot (iq_slots q)) js) \<le> lp \<and> length (filter (is_store_slot (iq_slots q)) js) \<le> sp
      \<and> (\<forall>j \<in> set js. j < length (iq_slots q) \<and> (\<exists>e. iq_slots q ! j = Some e \<and> can_issue sb r prf e))
      \<and> (\<forall>i e. i < length (iq_slots q) \<and> iq_slots q ! i = Some e \<and> can_issue sb r prf e \<and> i \<notin> set js \<longrightarrow>
           length js = width \<or> cs_mem_read (ri_ctrl (iq_entry e)) \<and> length (filter (is_load_slot (iq_slots q)) js) = lp
           \<or> cs_mem_write (ri_ctrl (iq_entry e)) \<and> length (filter (is_store_slot (iq_slots q)) js) = sp)
      \<and> snd (iq_select width sb r lp sp prf q) = map (\<lambda>j. issue_entry_of prf (the (iq_slots q ! j))) js
      \<and> (\<forall>i < length (iq_slots q). iq_slots (fst (iq_select width sb r lp sp prf q)) ! i = (if i \<in> set js then None else iq_slots q ! i))
      \<and> iq_wf (fst (iq_select width sb r lp sp prf q))"
proof -
  let ?ss = "iq_slots q"
  obtain js where js: "selects width lp sp ?ss (ready_indices sb r prf ?ss) 0 0 0 js"
    "iq_select width sb r lp sp prf q = (q\<lparr> iq_slots := clear_slots js ?ss, iq_count := iq_count q - length js \<rparr>,
       map (\<lambda>j. issue_entry_of prf (the (?ss ! j))) js)" using iq_select_spec by blast
  have lim: "length js \<le> width" "length (filter (is_load_slot ?ss) js) \<le> lp" "length (filter (is_store_slot ?ss) js) \<le> sp"
    using js(1) by (simp_all add: selects_def)
  have left: "length js = width \<or> cs_mem_read (ri_ctrl (iq_entry e)) \<and> length (filter (is_load_slot ?ss) js) = lp
      \<or> cs_mem_write (ri_ctrl (iq_entry e)) \<and> length (filter (is_store_slot ?ss) js) = sp"
    if "i < length ?ss" "?ss ! i = Some e" "can_issue sb r prf e" "i \<notin> set js" for i e
  proof -
    have "i \<in> set (ready_indices sb r prf ?ss) - set js" using that by (simp add: ready_indices_props(3))
    with js(1) have "width \<le> length js \<or> is_load_slot ?ss i \<and> lp \<le> length (filter (is_load_slot ?ss) js)
      \<or> is_store_slot ?ss i \<and> sp \<le> length (filter (is_store_slot ?ss) js)" unfolding selects_def by (simp only: add_0)
    with lim that(2) show ?thesis by (auto simp: is_load_slot_def is_store_slot_def le_antisym)
  qed
  have "iq_wf (fst (iq_select width sb r lp sp prf q))" using assms by (rule iq_select_wf)
  then show ?thesis
    using selects_ready [OF js(1)] lim left unfolding js(2) fst_conv snd_conv
    by (intro exI [of _ js] conjI allI impI; (elim conjE)?) (simp_all add: nth_clear_slots)
qed

theorem select_greedy_witness:
  "iq_wf (wakeup_phys 3 42 demo_queue)
   \<and> length (snd (iq_select 2 (sb_new 4) (rob_new 4) 1 1 (Some (prf_write 3 42 (prf_new 8))) (wakeup_phys 3 42 demo_queue))) \<le> 2"
proof -
  have w: "iq_wf (wakeup_phys 3 42 demo_queue)" using iq_reach_ok [OF demo_reach(2)] by blast
  from select_greedy [OF w, of 2 1 1 "sb_new 4" "rob_new 4" "Some (prf_write 3 42 (prf_new 8))"]
  have "length (snd (iq_select 2 (sb_new 4) (rob_new 4) 1 1 (Some (prf_write 3 42 (prf_new 8))) (wakeup_phys 3 42 demo_queue))) \<le> 2"
    by (elim exE conjE) simp
  with w show ?thesis by blast
qed

text \<open>Tags wrap at 32 bits and the order of selection is the raw one: behind the wrap a younger entry is issued first.\<close>

theorem select_order_at_wrap:
  "is_older_than (0xFFFFFFFF :: rob_tag) 0
   \<and> map (ri_rob_tag \<circ> se_entry) (snd (iq_select 1 (sb_new 4) (rob_new 4) 1 1 (Some (prf_write 3 42 (prf_new 8)))
       (fst (the (iq_dispatch (demo_entry 0) (rob_new 4) regs_new (Some (prf_write 3 42 (prf_new 8))) Md_None
         (fst (the (iq_dispatch (demo_entry 0xFFFFFFFF) (rob_new 4) regs_new (Some (prf_write 3 42 (prf_new 8))) Md_None (iq_new 2))))))))) = [0]"
  by code_simp

subsection \<open>Functional units\<close>

text \<open>\<open>acquire\<close> panics exactly when \<open>has_free\<close> is false; otherwise one free unit of the type is taken until
  the next cycle or, unpipelined, until it completes.\<close>

theorem fu_acquire_iff: "fu_acquire t now us \<noteq> None \<longleftrightarrow> fu_has_free us t now"
  by (induction us) (auto simp: fu_has_free_def fu_unit_acquire_def Let_def)

theorem fu_acquire_spec:
  "fu_acquire t now us = Some (us', c) \<Longrightarrow> \<exists>i < length us. fu_type_of (us ! i) = t \<and> fu_is_free (us ! i) now
     \<and> c = now + fu_latency (us ! i)
     \<and> us' = us[i := (us ! i)\<lparr> fu_busy_until := (if fu_is_pipelined (us ! i) then now + 1 else c) \<rparr>]"
proof (induction us arbitrary: us')
  case (Cons u us)
  show ?case
  proof (cases "fu_type_of u = t \<and> fu_is_free u now")
    case True
    with Cons.prems show ?thesis by (intro exI [of _ 0]) (auto simp: fu_unit_acquire_def Let_def)
  next
    case False
    then obtain vs where vs: "fu_acquire t now us = Some (vs, c)" "us' = u # vs" using Cons.prems by auto
    from Cons.IH [OF vs(1)] obtain i where "i < length us" "fu_type_of (us ! i) = t" "fu_is_free (us ! i) now"
      "c = now + fu_latency (us ! i)"
      "vs = us[i := (us ! i)\<lparr> fu_busy_until := (if fu_is_pipelined (us ! i) then now + 1 else c) \<rparr>]" by blast
    with vs(2) show ?thesis by (intro exI [of _ "Suc i"]) simp
  qed
qed simp

end
