(* ===== verification/Isa.thy ===== *)
theory Isa
  imports Signals
begin

text \<open>
  Instruction encodings: the fields of a 32-bit instruction (\<open>isa/instruction.rs\<close>), the decoder of
  fields and immediates (\<open>isa/decode.rs\<close>) and the expansion of 16-bit compressed instructions
  (\<open>isa/rvc/expand.rs\<close>).

  The theory \<open>Asm\<close> proves both against an assembler.
\<close>

named_theorems isa_consts \<open>opcodes and function codes\<close>

subsection \<open>Opcodes and function codes\<close>

definition OP_LOAD :: u32 where [isa_consts]: "OP_LOAD = 0b0000011"
definition OP_IMM :: u32 where [isa_consts]: "OP_IMM = 0b0010011"
definition OP_AUIPC :: u32 where [isa_consts]: "OP_AUIPC = 0b0010111"
definition OP_IMM_32 :: u32 where [isa_consts]: "OP_IMM_32 = 0b0011011"
definition OP_STORE :: u32 where [isa_consts]: "OP_STORE = 0b0100011"
definition OP_REG :: u32 where [isa_consts]: "OP_REG = 0b0110011"
definition OP_LUI :: u32 where [isa_consts]: "OP_LUI = 0b0110111"
definition OP_REG_32 :: u32 where [isa_consts]: "OP_REG_32 = 0b0111011"
definition OP_BRANCH :: u32 where [isa_consts]: "OP_BRANCH = 0b1100011"
definition OP_JALR :: u32 where [isa_consts]: "OP_JALR = 0b1100111"
definition OP_JAL :: u32 where [isa_consts]: "OP_JAL = 0b1101111"
definition OP_MISC_MEM :: u32 where [isa_consts]: "OP_MISC_MEM = 0b0001111"
definition OP_AMO :: u32 where [isa_consts]: "OP_AMO = 0b0101111"
definition OP_LOAD_FP :: u32 where [isa_consts]: "OP_LOAD_FP = 0b0000111"
definition OP_STORE_FP :: u32 where [isa_consts]: "OP_STORE_FP = 0b0100111"
definition OP_FP :: u32 where [isa_consts]: "OP_FP = 0b1010011"
definition OP_FMADD :: u32 where [isa_consts]: "OP_FMADD = 0b1000011"
definition OP_FMSUB :: u32 where [isa_consts]: "OP_FMSUB = 0b1000111"
definition OP_FNMSUB :: u32 where [isa_consts]: "OP_FNMSUB = 0b1001011"
definition OP_FNMADD :: u32 where [isa_consts]: "OP_FNMADD = 0b1001111"
definition OP_SYSTEM :: u32 where [isa_consts]: "OP_SYSTEM = 0b1110011"

definition ECALL :: u32 where [isa_consts]: "ECALL = 0x00000073"
definition EBREAK :: u32 where [isa_consts]: "EBREAK = 0x00100073"
definition MRET :: u32 where [isa_consts]: "MRET = 0x30200073"
definition SRET :: u32 where [isa_consts]: "SRET = 0x10200073"
definition WFI :: u32 where [isa_consts]: "WFI = 0x10500073"
definition SFENCE_VMA :: u32 where [isa_consts]: "SFENCE_VMA = 0x12000073"

definition F3_ADD_SUB :: u32 where [isa_consts]: "F3_ADD_SUB = 0"
definition F3_SLL :: u32 where [isa_consts]: "F3_SLL = 1"
definition F3_XOR :: u32 where [isa_consts]: "F3_XOR = 4"
definition F3_SRL_SRA :: u32 where [isa_consts]: "F3_SRL_SRA = 5"
definition F3_OR :: u32 where [isa_consts]: "F3_OR = 6"
definition F3_AND :: u32 where [isa_consts]: "F3_AND = 7"
definition F3_LW :: u32 where [isa_consts]: "F3_LW = 2"
definition F3_LD :: u32 where [isa_consts]: "F3_LD = 3"
definition F3_SW :: u32 where [isa_consts]: "F3_SW = 2"
definition F3_SD :: u32 where [isa_consts]: "F3_SD = 3"
definition F3_BEQ :: u32 where [isa_consts]: "F3_BEQ = 0"
definition F3_BNE :: u32 where [isa_consts]: "F3_BNE = 1"
definition F7_SUB :: u32 where [isa_consts]: "F7_SUB = 0b0100000"
definition F7_SRA :: u32 where [isa_consts]: "F7_SRA = 0b0100000"

subsection \<open>Instruction fields\<close>

definition inst_opcode :: "u32 \<Rightarrow> u32" where
  "inst_opcode w = w AND 0x7F"

definition inst_rd :: "u32 \<Rightarrow> reg_idx" where
  "inst_rd w = reg_new (ucast (drop_bit 7 w AND 0x1F))"

definition inst_rs1 :: "u32 \<Rightarrow> reg_idx" where
  "inst_rs1 w = reg_new (ucast (drop_bit 15 w AND 0x1F))"

definition inst_rs2 :: "u32 \<Rightarrow> reg_idx" where
  "inst_rs2 w = reg_new (ucast (drop_bit 20 w AND 0x1F))"

definition inst_rs3 :: "u32 \<Rightarrow> reg_idx" where
  "inst_rs3 w = reg_new (ucast (drop_bit 27 w AND 0x1F))"

definition inst_funct3 :: "u32 \<Rightarrow> u32" where
  "inst_funct3 w = drop_bit 12 w AND 7"

definition inst_funct7 :: "u32 \<Rightarrow> u32" where
  "inst_funct7 w = drop_bit 25 w AND 0x7F"

definition inst_csr :: "u32 \<Rightarrow> csr_addr" where
  "inst_csr w = ucast ((drop_bit 20 w AND 0xFFF) AND 0xFFF)"

record decoded =
  d_raw :: u32
  d_opcode :: u32
  d_rd :: reg_idx
  d_rs1 :: reg_idx
  d_rs2 :: reg_idx
  d_funct3 :: u32
  d_funct7 :: u32
  d_imm :: i64

subsection \<open>Immediates\<close>

definition decode_sign_extend :: "u32 \<Rightarrow> nat \<Rightarrow> i64" where
  "decode_sign_extend val bits =
    (let shift = 32 - bits in sext32 (signed_drop_bit shift (push_bit shift val)))"

definition decode_i_type_imm :: "u32 \<Rightarrow> i64" where
  "decode_i_type_imm w = sext32 (signed_drop_bit 20 w)"

definition decode_s_type_imm :: "u32 \<Rightarrow> i64" where
  "decode_s_type_imm w =
    (let low = drop_bit 7 w AND 0x1F;
         high = drop_bit 25 w AND 0x7F;
         combined = push_bit 5 high OR low
     in decode_sign_extend combined 12)"

definition decode_b_type_imm :: "u32 \<Rightarrow> i64" where
  "decode_b_type_imm w =
    (let bit_11 = drop_bit 7 w AND 1;
         bits_4_1 = drop_bit 8 w AND 0xF;
         bits_10_5 = drop_bit 25 w AND 0x3F;
         bit_12 = drop_bit 31 w AND 1;
         combined = push_bit 12 bit_12 OR push_bit 11 bit_11 OR push_bit 5 bits_10_5 OR push_bit 1 bits_4_1
     in decode_sign_extend combined 13)"

definition decode_u_type_imm :: "u32 \<Rightarrow> i64" where
  "decode_u_type_imm w = sext32 (w AND 0xFFFFF000)"

definition decode_j_type_imm :: "u32 \<Rightarrow> i64" where
  "decode_j_type_imm w =
    (let bits_19_12 = drop_bit 12 w AND 0xFF;
         bit_11 = drop_bit 20 w AND 1;
         bits_10_1 = drop_bit 21 w AND 0x3FF;
         bit_20 = drop_bit 31 w AND 1;
         combined = push_bit 20 bit_20 OR push_bit 12 bits_19_12 OR push_bit 11 bit_11 OR push_bit 1 bits_10_1
     in decode_sign_extend combined 21)"

definition decode :: "u32 \<Rightarrow> decoded" where
  "decode w =
    (let opcode = inst_opcode w;
         imm = (if opcode = OP_IMM \<or> opcode = OP_LOAD \<or> opcode = OP_JALR \<or> opcode = OP_IMM_32 \<or> opcode = OP_LOAD_FP
                then decode_i_type_imm w
                else if opcode = OP_STORE \<or> opcode = OP_STORE_FP then decode_s_type_imm w
                else if opcode = OP_BRANCH then decode_b_type_imm w
                else if opcode = OP_LUI \<or> opcode = OP_AUIPC then decode_u_type_imm w
                else if opcode = OP_JAL then decode_j_type_imm w
                else 0)
     in \<lparr> d_raw = w, d_opcode = opcode, d_rd = inst_rd w, d_rs1 = inst_rs1 w, d_rs2 = inst_rs2 w,
          d_funct3 = inst_funct3 w, d_funct7 = inst_funct7 w, d_imm = imm \<rparr>)"

subsection \<open>Compressed instructions\<close>

definition rvc_sign_extend :: "u32 \<Rightarrow> nat \<Rightarrow> u32" where
  "rvc_sign_extend val bits = (let shift = 32 - bits in signed_drop_bit shift (push_bit shift val))"

text \<open>The operand shapes the arms of \<open>expand\<close> repeat: a register of \<open>x8\<close> to \<open>x15\<close>, a full register
  field, the 6-bit immediate, and the split store immediate.\<close>

definition c_reg3 :: "nat \<Rightarrow> u16 \<Rightarrow> u32" where
  "c_reg3 n i = 8 + ucast (drop_bit n i AND 7)"

definition c_reg5 :: "nat \<Rightarrow> u16 \<Rightarrow> u32" where
  "c_reg5 n i = ucast (drop_bit n i AND 0x1F)"

definition c_imm6 :: "u16 \<Rightarrow> u32" where
  "c_imm6 i = rvc_sign_extend (ucast ((drop_bit 2 i AND 0x1F) OR push_bit 5 (drop_bit 12 i AND 1))) 6"

definition c_store :: "u16 \<Rightarrow> u32 \<Rightarrow> u32 \<Rightarrow> u32 \<Rightarrow> u32 \<Rightarrow> u32" where
  "c_store imm rs2 rs1 f3 opc =
    (let imm_low = ucast (imm AND 0x1F); imm_high = ucast (drop_bit 5 imm)
     in push_bit 25 imm_high OR push_bit 20 rs2 OR push_bit 15 rs1 OR push_bit 12 f3 OR push_bit 7 imm_low OR opc)"

definition c_load :: "u16 \<Rightarrow> u32 \<Rightarrow> u32 \<Rightarrow> u32 \<Rightarrow> u32 \<Rightarrow> u32" where
  "c_load imm rs1 f3 rd opc = push_bit 20 (ucast imm) OR push_bit 15 rs1 OR push_bit 12 f3 OR push_bit 7 rd OR opc"

definition expand_q0 :: "u16 \<Rightarrow> u32" where
  "expand_q0 i =
    (let funct3 = drop_bit 13 i AND 7;
         imm_d = push_bit 3 (drop_bit 10 i AND 7) OR push_bit 6 (drop_bit 5 i AND 3);
         imm_w = push_bit 2 (drop_bit 6 i AND 1) OR push_bit 3 (drop_bit 10 i AND 7) OR push_bit 6 (drop_bit 5 i AND 1)
     in if funct3 = 0b000 then
          let imm = push_bit 2 (drop_bit 6 i AND 1) OR push_bit 3 (drop_bit 5 i AND 1)
                 OR push_bit 4 (drop_bit 11 i AND 3) OR push_bit 6 (drop_bit 7 i AND 0xF)
          in if imm = 0 then 0 else c_load imm 2 F3_ADD_SUB (c_reg3 2 i) OP_IMM
        else if funct3 = 0b001 then c_load imm_d (c_reg3 7 i) F3_LD (c_reg3 2 i) OP_LOAD_FP
        else if funct3 = 0b010 then c_load imm_w (c_reg3 7 i) F3_LW (c_reg3 2 i) OP_LOAD
        else if funct3 = 0b011 then c_load imm_d (c_reg3 7 i) F3_LD (c_reg3 2 i) OP_LOAD
        else if funct3 = 0b101 then c_store imm_d (c_reg3 2 i) (c_reg3 7 i) F3_SD OP_STORE_FP
        else if funct3 = 0b110 then c_store imm_w (c_reg3 2 i) (c_reg3 7 i) F3_SW OP_STORE
        else if funct3 = 0b111 then c_store imm_d (c_reg3 2 i) (c_reg3 7 i) F3_SD OP_STORE
        else 0)"

definition c_imm_op :: "u32 \<Rightarrow> u32 \<Rightarrow> u32 \<Rightarrow> u32 \<Rightarrow> u32 \<Rightarrow> u32" where
  "c_imm_op imm12 rs1 f3 rd opc = push_bit 20 imm12 OR push_bit 15 rs1 OR push_bit 12 f3 OR push_bit 7 rd OR opc"

definition c_reg_op :: "u32 \<Rightarrow> u32 \<Rightarrow> u32 \<Rightarrow> u32 \<Rightarrow> u32 \<Rightarrow> u32 \<Rightarrow> u32" where
  "c_reg_op f7 rs2 rs1 f3 rd opc =
     push_bit 25 f7 OR push_bit 20 rs2 OR push_bit 15 rs1 OR push_bit 12 f3 OR push_bit 7 rd OR opc"

definition expand_misc_alu :: "u16 \<Rightarrow> u32" where
  "expand_misc_alu i =
    (let bit12 = drop_bit 12 i AND 1;
         funct2 = drop_bit 10 i AND 3;
         rd = c_reg3 7 i;
         imm = c_imm6 i
     in if funct2 = 0 then c_imm_op (imm AND 0x3F) rd F3_SRL_SRA rd OP_IMM
        else if funct2 = 1 then push_bit 25 F7_SRA OR c_imm_op (imm AND 0x3F) rd F3_SRL_SRA rd OP_IMM
        else if funct2 = 2 then c_imm_op (imm AND 0xFFF) rd F3_AND rd OP_IMM
        else let sub_op = drop_bit 5 i AND 3; rs2 = c_reg3 2 i
             in if (bit12, sub_op) = (0, 0) then c_reg_op F7_SUB rs2 rd F3_ADD_SUB rd OP_REG
                else if (bit12, sub_op) = (0, 1) then c_reg_op 0 rs2 rd F3_XOR rd OP_REG
                else if (bit12, sub_op) = (0, 2) then c_reg_op 0 rs2 rd F3_OR rd OP_REG
                else if (bit12, sub_op) = (0, 3) then c_reg_op 0 rs2 rd F3_AND rd OP_REG
                else if (bit12, sub_op) = (1, 0) then c_reg_op F7_SUB rs2 rd F3_ADD_SUB rd OP_REG_32
                else if (bit12, sub_op) = (1, 1) then c_reg_op 0 rs2 rd F3_ADD_SUB rd OP_REG_32
                else 0)"

definition c_jump :: "u32 \<Rightarrow> u32" where
  "c_jump offset =
    (let imm20 = drop_bit 20 offset AND 1;
         imm10_1 = drop_bit 1 offset AND 0x3FF;
         imm11 = drop_bit 11 offset AND 1;
         imm19_12 = drop_bit 12 offset AND 0xFF
     in push_bit 31 imm20 OR push_bit 12 imm19_12 OR push_bit 20 imm11 OR push_bit 21 imm10_1 OR OP_JAL)"

definition c_branch :: "u16 \<Rightarrow> u32 \<Rightarrow> u32" where
  "c_branch i f3 =
    (let offset = rvc_sign_extend (ucast (push_bit 1 (drop_bit 3 i AND 3) OR push_bit 3 (drop_bit 10 i AND 3)
                     OR push_bit 5 (drop_bit 2 i AND 1) OR push_bit 6 (drop_bit 5 i AND 3)
                     OR push_bit 8 (drop_bit 12 i AND 1))) 9;
         rs1 = c_reg3 7 i;
         imm12 = drop_bit 12 offset AND 1;
         imm10_5 = drop_bit 5 offset AND 0x3F;
         imm4_1 = drop_bit 1 offset AND 0xF;
         imm11 = drop_bit 11 offset AND 1
     in push_bit 31 imm12 OR push_bit 25 imm10_5 OR push_bit 15 rs1 OR push_bit 12 f3
        OR push_bit 8 imm4_1 OR push_bit 7 imm11 OR OP_BRANCH)"

definition expand_q1 :: "u16 \<Rightarrow> u32" where
  "expand_q1 i =
    (let funct3 = drop_bit 13 i AND 7; rd = c_reg5 7 i; imm = c_imm6 i
     in if funct3 = 0b000 then c_imm_op (imm AND 0xFFF) rd F3_ADD_SUB rd OP_IMM
        else if funct3 = 0b001 then (if rd = 0 then 0 else c_imm_op (imm AND 0xFFF) rd F3_ADD_SUB rd OP_IMM_32)
        else if funct3 = 0b010 then push_bit 20 (imm AND 0xFFF) OR push_bit 12 F3_ADD_SUB OR push_bit 7 rd OR OP_IMM
        else if funct3 = 0b011 then
          if rd = 2 then
            let imm = rvc_sign_extend (ucast (push_bit 4 (drop_bit 6 i AND 1) OR push_bit 5 (drop_bit 2 i AND 1)
                        OR push_bit 6 (drop_bit 5 i AND 1) OR push_bit 7 (drop_bit 3 i AND 3)
                        OR push_bit 9 (drop_bit 12 i AND 1))) 10
            in if imm = 0 then 0 else c_imm_op (imm AND 0xFFF) 2 F3_ADD_SUB 2 OP_IMM
          else if imm = 0 then 0 else push_bit 12 imm OR push_bit 7 rd OR OP_LUI
        else if funct3 = 0b100 then expand_misc_alu i
        else if funct3 = 0b101 then
          c_jump (rvc_sign_extend (ucast (push_bit 1 (drop_bit 3 i AND 7) OR push_bit 4 (drop_bit 11 i AND 1)
                   OR push_bit 5 (drop_bit 2 i AND 1) OR push_bit 6 (drop_bit 7 i AND 1)
                   OR push_bit 7 (drop_bit 6 i AND 1) OR push_bit 8 (drop_bit 9 i AND 3)
                   OR push_bit 10 (drop_bit 8 i AND 1) OR push_bit 11 (drop_bit 12 i AND 1))) 12)
        else if funct3 = 0b110 then c_branch i F3_BEQ
        else c_branch i F3_BNE)"

definition expand_q2_alu :: "u16 \<Rightarrow> u32" where
  "expand_q2_alu i =
    (let bit12 = drop_bit 12 i AND 1; rs2 = c_reg5 2 i; rs1 = c_reg5 7 i
     in if bit12 = 0 then
          if rs2 = 0 then
            if rs1 = 0 then 0 else push_bit 15 rs1 OR push_bit 12 F3_ADD_SUB OR OP_JALR
          else push_bit 20 rs2 OR push_bit 12 F3_ADD_SUB OR push_bit 7 rs1 OR OP_REG
        else if rs2 = 0 then
          if rs1 = 0 then EBREAK else push_bit 15 rs1 OR push_bit 12 F3_ADD_SUB OR push_bit 7 1 OR OP_JALR
        else c_reg_op 0 rs2 rs1 F3_ADD_SUB rs1 OP_REG)"

definition expand_q2 :: "u16 \<Rightarrow> u32" where
  "expand_q2 i =
    (let funct3 = drop_bit 13 i AND 7; rd = c_reg5 7 i; rs2 = c_reg5 2 i;
         imm_ld = push_bit 5 (drop_bit 12 i AND 1) OR push_bit 3 (drop_bit 5 i AND 3) OR push_bit 6 (drop_bit 2 i AND 7);
         imm_sd = push_bit 3 (drop_bit 10 i AND 7) OR push_bit 6 (drop_bit 7 i AND 7)
     in if funct3 = 0b000 then
          let imm = (drop_bit 2 i AND 0x1F) OR push_bit 5 (drop_bit 12 i AND 1)
          in if rd = 0 then 0 else c_load imm rd F3_SLL rd OP_IMM
        else if funct3 = 0b001 then c_load imm_ld 2 F3_LD rd OP_LOAD_FP
        else if funct3 = 0b010 then
          let imm = push_bit 5 (drop_bit 12 i AND 1) OR push_bit 2 (drop_bit 4 i AND 7) OR push_bit 6 (drop_bit 2 i AND 3)
          in if rd = 0 then 0 else c_load imm 2 F3_LW rd OP_LOAD
        else if funct3 = 0b011 then (if rd = 0 then 0 else c_load imm_ld 2 F3_LD rd OP_LOAD)
        else if funct3 = 0b100 then expand_q2_alu i
        else if funct3 = 0b101 then c_store imm_sd rs2 2 F3_SD OP_STORE_FP
        else if funct3 = 0b110 then
          let imm = push_bit 2 (drop_bit 9 i AND 0xF) OR push_bit 6 (drop_bit 7 i AND 3)
          in c_store imm rs2 2 F3_SW OP_STORE
        else c_store imm_sd rs2 2 F3_SD OP_STORE)"

definition expand :: "u16 \<Rightarrow> u32" where
  "expand i =
    (let op = i AND 3
     in if op = 0 then expand_q0 i else if op = 1 then expand_q1 i else if op = 2 then expand_q2 i else 0)"

end
