(* ===== verification/Asm.thy ===== *)
theory Asm
  imports Isa
begin

text \<open>
  The decoder and the expansion of compressed instructions (\<open>Isa\<close>) against an assembler written from the
  instruction formats of the architecture: \<open>decode\<close> recovers every operand of an assembled instruction,
  immediates with their sign, and \<open>expand\<close> turns every assembled compressed instruction into the 32-bit
  instruction it abbreviates. Words are put together from fields (\<open>cat_fields\<close>) and taken apart field by field
  (\<open>cat_field\<close>); only immediates are compared bit by bit.
\<close>

subsection \<open>An assembler for the instruction formats\<close>

text \<open>The six formats of the base encoding. Branch and jump offsets are even; their operand is the
  offset without its lowest bit.\<close>

datatype asm =
    R_type u32 "5 word" "3 word" "5 word" "5 word" "7 word"
  | I_type u32 "5 word" "3 word" "5 word" "12 word"
  | S_type u32 "3 word" "5 word" "5 word" "12 word"
  | B_type u32 "3 word" "5 word" "5 word" "12 word"
  | U_type u32 "5 word" "20 word"
  | J_type u32 "5 word" "20 word"

definition bits :: "nat \<Rightarrow> nat \<Rightarrow> 'a::len word \<Rightarrow> 'b::len word" where
  "bits hi lo x = take_bit (hi + 1 - lo) (drop_bit lo (ucast x))"

text \<open>Fields from the most significant to the least significant, with their widths.\<close>

primrec cat_fields :: "(nat \<times> 'a::len word) list \<Rightarrow> 'a word" where
  "cat_fields [] = 0"
| "cat_fields (f # fs) = push_bit (sum_list (map fst fs)) (take_bit (fst f) (snd f)) OR cat_fields fs"

primrec asm_encode :: "asm \<Rightarrow> u32" where
  "asm_encode (R_type opc rd f3 rs1 rs2 f7) =
     cat_fields [(7, ucast f7), (5, ucast rs2), (5, ucast rs1), (3, ucast f3), (5, ucast rd), (7, opc)]"
| "asm_encode (I_type opc rd f3 rs1 imm) =
     cat_fields [(12, ucast imm), (5, ucast rs1), (3, ucast f3), (5, ucast rd), (7, opc)]"
| "asm_encode (S_type opc f3 rs1 rs2 imm) =
     cat_fields [(7, bits 11 5 imm), (5, ucast rs2), (5, ucast rs1), (3, ucast f3), (5, bits 4 0 imm), (7, opc)]"
| "asm_encode (B_type opc f3 rs1 rs2 imm) =
     cat_fields [(1, bits 11 11 imm), (6, bits 9 4 imm), (5, ucast rs2), (5, ucast rs1), (3, ucast f3),
       (4, bits 3 0 imm), (1, bits 10 10 imm), (7, opc)]"
| "asm_encode (U_type opc rd imm) = cat_fields [(20, ucast imm), (5, ucast rd), (7, opc)]"
| "asm_encode (J_type opc rd imm) =
     cat_fields [(1, bits 19 19 imm), (10, bits 9 0 imm), (1, bits 10 10 imm), (8, bits 18 11 imm),
       (5, ucast rd), (7, opc)]"

primrec asm_opcode :: "asm \<Rightarrow> u32" where
  "asm_opcode (R_type opc rd f3 rs1 rs2 f7) = opc"
| "asm_opcode (I_type opc rd f3 rs1 imm) = opc"
| "asm_opcode (S_type opc f3 rs1 rs2 imm) = opc"
| "asm_opcode (B_type opc f3 rs1 rs2 imm) = opc"
| "asm_opcode (U_type opc rd imm) = opc"
| "asm_opcode (J_type opc rd imm) = opc"

primrec asm_wf :: "asm \<Rightarrow> bool" where
  "asm_wf (R_type opc rd f3 rs1 rs2 f7) \<longleftrightarrow> opc \<in> {OP_REG, OP_REG_32, OP_AMO, OP_FP, OP_FMADD, OP_FMSUB, OP_FNMSUB, OP_FNMADD}"
| "asm_wf (I_type opc rd f3 rs1 imm) \<longleftrightarrow> opc \<in> {OP_IMM, OP_LOAD, OP_JALR, OP_IMM_32, OP_LOAD_FP}"
| "asm_wf (S_type opc f3 rs1 rs2 imm) \<longleftrightarrow> opc \<in> {OP_STORE, OP_STORE_FP}"
| "asm_wf (B_type opc f3 rs1 rs2 imm) \<longleftrightarrow> opc = OP_BRANCH"
| "asm_wf (U_type opc rd imm) \<longleftrightarrow> opc \<in> {OP_LUI, OP_AUIPC}"
| "asm_wf (J_type opc rd imm) \<longleftrightarrow> opc = OP_JAL"

text \<open>What the fields of a decoded instruction have to be.\<close>

primrec asm_fields :: "asm \<Rightarrow> decoded \<Rightarrow> bool" where
  "asm_fields (R_type opc rd f3 rs1 rs2 f7) d \<longleftrightarrow> d_opcode d = opc \<and> d_rd d = rd \<and> d_funct3 d = ucast f3
     \<and> d_rs1 d = rs1 \<and> d_rs2 d = rs2 \<and> d_funct7 d = ucast f7 \<and> d_imm d = 0"
| "asm_fields (I_type opc rd f3 rs1 imm) d \<longleftrightarrow> d_opcode d = opc \<and> d_rd d = rd \<and> d_funct3 d = ucast f3
     \<and> d_rs1 d = rs1 \<and> d_imm d = scast imm"
| "asm_fields (S_type opc f3 rs1 rs2 imm) d \<longleftrightarrow> d_opcode d = opc \<and> d_funct3 d = ucast f3
     \<and> d_rs1 d = rs1 \<and> d_rs2 d = rs2 \<and> d_imm d = scast imm"
| "asm_fields (B_type opc f3 rs1 rs2 imm) d \<longleftrightarrow> d_opcode d = opc \<and> d_funct3 d = ucast f3
     \<and> d_rs1 d = rs1 \<and> d_rs2 d = rs2 \<and> d_imm d = push_bit 1 (scast imm)"
| "asm_fields (U_type opc rd imm) d \<longleftrightarrow> d_opcode d = opc \<and> d_rd d = rd \<and> d_imm d = push_bit 12 (scast imm)"
| "asm_fields (J_type opc rd imm) d \<longleftrightarrow> d_opcode d = opc \<and> d_rd d = rd \<and> d_imm d = push_bit 1 (scast imm)"

subsection \<open>An assembler for compressed instructions\<close>

text \<open>The compressed instructions of RV64DC. Scaled operands are given without the low bits that are
  always zero, three-bit registers name \<open>x8\<close> to \<open>x15\<close>.\<close>

datatype (plugins only: code size) rvc =
    C_ADDI4SPN "3 word" "8 word"
  | C_FLD "3 word" "3 word" "5 word" | C_LW "3 word" "3 word" "5 word" | C_LD "3 word" "3 word" "5 word"
  | C_FSD "3 word" "3 word" "5 word" | C_SW "3 word" "3 word" "5 word" | C_SD "3 word" "3 word" "5 word"
  | C_ADDI "5 word" "6 word" | C_ADDIW "5 word" "6 word" | C_LI "5 word" "6 word"
  | C_ADDI16SP "6 word" | C_LUI "5 word" "6 word"
  | C_SRLI "3 word" "6 word" | C_SRAI "3 word" "6 word" | C_ANDI "3 word" "6 word"
  | C_SUB "3 word" "3 word" | C_XOR "3 word" "3 word" | C_OR "3 word" "3 word" | C_AND "3 word" "3 word"
  | C_SUBW "3 word" "3 word" | C_ADDW "3 word" "3 word"
  | C_J "11 word" | C_BEQZ "3 word" "8 word" | C_BNEZ "3 word" "8 word"
  | C_SLLI "5 word" "6 word" | C_FLDSP "5 word" "6 word" | C_LWSP "5 word" "6 word" | C_LDSP "5 word" "6 word"
  | C_JR "5 word" | C_MV "5 word" "5 word" | C_EBREAK | C_JALR "5 word" | C_ADD "5 word" "5 word"
  | C_FSDSP "5 word" "6 word" | C_SWSP "5 word" "6 word" | C_SDSP "5 word" "6 word"

definition rvc_word :: "3 word \<Rightarrow> (nat \<times> u16) list \<Rightarrow> 2 word \<Rightarrow> u16" where
  "rvc_word f3 fs q = cat_fields ((3, ucast f3) # fs @ [(2, ucast q)])"

definition scaled :: "nat \<Rightarrow> 'a::len word \<Rightarrow> 12 word" where
  "scaled k x = push_bit k (ucast x)"

definition ls_d :: "3 word \<Rightarrow> 2 word \<Rightarrow> 3 word \<Rightarrow> 3 word \<Rightarrow> 5 word \<Rightarrow> u16" where
  "ls_d f3 q r rs1 u = (let imm = scaled 3 u in
     rvc_word f3 [(3, bits 5 3 imm), (3, ucast rs1), (2, bits 7 6 imm), (3, ucast r)] q)"

definition ls_w :: "3 word \<Rightarrow> 2 word \<Rightarrow> 3 word \<Rightarrow> 3 word \<Rightarrow> 5 word \<Rightarrow> u16" where
  "ls_w f3 q r rs1 u = (let imm = scaled 2 u in
     rvc_word f3 [(3, bits 5 3 imm), (3, ucast rs1), (1, bits 2 2 imm), (1, bits 6 6 imm), (3, ucast r)] q)"

definition ci :: "3 word \<Rightarrow> 2 word \<Rightarrow> 5 word \<Rightarrow> 6 word \<Rightarrow> u16" where
  "ci f3 q rd imm = rvc_word f3 [(1, bits 5 5 imm), (5, ucast rd), (5, bits 4 0 imm)] q"

definition cb_alu :: "2 word \<Rightarrow> 3 word \<Rightarrow> 6 word \<Rightarrow> u16" where
  "cb_alu f2 rd imm = rvc_word 4 [(1, bits 5 5 imm), (2, ucast f2), (3, ucast rd), (5, bits 4 0 imm)] 1"

definition ca :: "1 word \<Rightarrow> 2 word \<Rightarrow> 3 word \<Rightarrow> 3 word \<Rightarrow> u16" where
  "ca b f2 rd rs2 = rvc_word 4 [(1, ucast b), (2, 3), (3, ucast rd), (2, ucast f2), (3, ucast rs2)] 1"

definition cb_branch :: "3 word \<Rightarrow> 3 word \<Rightarrow> 8 word \<Rightarrow> u16" where
  "cb_branch f3 rs1 u = (let imm = scaled 1 u in
     rvc_word f3 [(1, bits 8 8 imm), (2, bits 4 3 imm), (3, ucast rs1), (2, bits 7 6 imm), (2, bits 2 1 imm), (1, bits 5 5 imm)] 1)"

definition cr :: "1 word \<Rightarrow> 5 word \<Rightarrow> 5 word \<Rightarrow> u16" where
  "cr b rd rs2 = rvc_word 4 [(1, ucast b), (5, ucast rd), (5, ucast rs2)] 2"

primrec rvc_encode :: "rvc \<Rightarrow> u16" where
  "rvc_encode (C_ADDI4SPN rd u) = (let imm = scaled 2 u in
     rvc_word 0 [(2, bits 5 4 imm), (4, bits 9 6 imm), (1, bits 2 2 imm), (1, bits 3 3 imm), (3, ucast rd)] 0)"
| "rvc_encode (C_FLD rd rs1 u) = ls_d 1 0 rd rs1 u"
| "rvc_encode (C_LW rd rs1 u) = ls_w 2 0 rd rs1 u"
| "rvc_encode (C_LD rd rs1 u) = ls_d 3 0 rd rs1 u"
| "rvc_encode (C_FSD rs2 rs1 u) = ls_d 5 0 rs2 rs1 u"
| "rvc_encode (C_SW rs2 rs1 u) = ls_w 6 0 rs2 rs1 u"
| "rvc_encode (C_SD rs2 rs1 u) = ls_d 7 0 rs2 rs1 u"
| "rvc_encode (C_ADDI rd imm) = ci 0 1 rd imm"
| "rvc_encode (C_ADDIW rd imm) = ci 1 1 rd imm"
| "rvc_encode (C_LI rd imm) = ci 2 1 rd imm"
| "rvc_encode (C_ADDI16SP u) = (let imm = scaled 4 u in
     rvc_word 3 [(1, bits 9 9 imm), (5, 2), (1, bits 4 4 imm), (1, bits 6 6 imm), (2, bits 8 7 imm), (1, bits 5 5 imm)] 1)"
| "rvc_encode (C_LUI rd imm) = ci 3 1 rd imm"
| "rvc_encode (C_SRLI rd sh) = cb_alu 0 rd sh"
| "rvc_encode (C_SRAI rd sh) = cb_alu 1 rd sh"
| "rvc_encode (C_ANDI rd imm) = cb_alu 2 rd imm"
| "rvc_encode (C_SUB rd rs2) = ca 0 0 rd rs2"
| "rvc_encode (C_XOR rd rs2) = ca 0 1 rd rs2"
| "rvc_encode (C_OR rd rs2) = ca 0 2 rd rs2"
| "rvc_encode (C_AND rd rs2) = ca 0 3 rd rs2"
| "rvc_encode (C_SUBW rd rs2) = ca 1 0 rd rs2"
| "rvc_encode (C_ADDW rd rs2) = ca 1 1 rd rs2"
| "rvc_encode (C_J u) = (let imm = scaled 1 u in
     rvc_word 5 [(1, bits 11 11 imm), (1, bits 4 4 imm), (2, bits 9 8 imm), (1, bits 10 10 imm), (1, bits 6 6 imm),
       (1, bits 7 7 imm), (3, bits 3 1 imm), (1, bits 5 5 imm)] 1)"
| "rvc_encode (C_BEQZ rs1 u) = cb_branch 6 rs1 u"
| "rvc_encode (C_BNEZ rs1 u) = cb_branch 7 rs1 u"
| "rvc_encode (C_SLLI rd sh) = ci 0 2 rd sh"
| "rvc_encode (C_FLDSP rd u) = (let imm = scaled 3 u in
     rvc_word 1 [(1, bits 5 5 imm), (5, ucast rd), (2, bits 4 3 imm), (3, bits 8 6 imm)] 2)"
| "rvc_encode (C_LWSP rd u) = (let imm = scaled 2 u in
     rvc_word 2 [(1, bits 5 5 imm), (5, ucast rd), (3, bits 4 2 imm), (2, bits 7 6 imm)] 2)"
| "rvc_encode (C_LDSP rd u) = (let imm = scaled 3 u in
     rvc_word 3 [(1, bits 5 5 imm), (5, ucast rd), (2, bits 4 3 imm), (3, bits 8 6 imm)] 2)"
| "rvc_encode (C_JR rs1) = cr 0 rs1 0"
| "rvc_encode (C_MV rd rs2) = cr 0 rd rs2"
| "rvc_encode C_EBREAK = cr 1 0 0"
| "rvc_encode (C_JALR rs1) = cr 1 rs1 0"
| "rvc_encode (C_ADD rd rs2) = cr 1 rd rs2"
| "rvc_encode (C_FSDSP rs2 u) = (let imm = scaled 3 u in
     rvc_word 5 [(3, bits 5 3 imm), (3, bits 8 6 imm), (5, ucast rs2)] 2)"
| "rvc_encode (C_SWSP rs2 u) = (let imm = scaled 2 u in
     rvc_word 6 [(4, bits 5 2 imm), (2, bits 7 6 imm), (5, ucast rs2)] 2)"
| "rvc_encode (C_SDSP rs2 u) = (let imm = scaled 3 u in
     rvc_word 7 [(3, bits 5 3 imm), (3, bits 8 6 imm), (5, ucast rs2)] 2)"

text \<open>The base instruction that a compressed instruction abbreviates, and the operands it may have.\<close>

definition x8 :: "3 word \<Rightarrow> 5 word" where
  "x8 r = 8 + ucast r"

primrec rvc_asm :: "rvc \<Rightarrow> asm" where
  "rvc_asm (C_ADDI4SPN rd u) = I_type OP_IMM (x8 rd) 0 2 (scaled 2 u)"
| "rvc_asm (C_FLD rd rs1 u) = I_type OP_LOAD_FP (x8 rd) 3 (x8 rs1) (scaled 3 u)"
| "rvc_asm (C_LW rd rs1 u) = I_type OP_LOAD (x8 rd) 2 (x8 rs1) (scaled 2 u)"
| "rvc_asm (C_LD rd rs1 u) = I_type OP_LOAD (x8 rd) 3 (x8 rs1) (scaled 3 u)"
| "rvc_asm (C_FSD rs2 rs1 u) = S_type OP_STORE_FP 3 (x8 rs1) (x8 rs2) (scaled 3 u)"
| "rvc_asm (C_SW rs2 rs1 u) = S_type OP_STORE 2 (x8 rs1) (x8 rs2) (scaled 2 u)"
| "rvc_asm (C_SD rs2 rs1 u) = S_type OP_STORE 3 (x8 rs1) (x8 rs2) (scaled 3 u)"
| "rvc_asm (C_ADDI rd imm) = I_type OP_IMM rd 0 rd (scast imm)"
| "rvc_asm (C_ADDIW rd imm) = I_type OP_IMM_32 rd 0 rd (scast imm)"
| "rvc_asm (C_LI rd imm) = I_type OP_IMM rd 0 0 (scast imm)"
| "rvc_asm (C_ADDI16SP u) = I_type OP_IMM 2 0 2 (push_bit 4 (scast u))"
| "rvc_asm (C_LUI rd imm) = U_type OP_LUI rd (scast imm)"
| "rvc_asm (C_SRLI rd sh) = I_type OP_IMM (x8 rd) 5 (x8 rd) (ucast sh)"
| "rvc_asm (C_SRAI rd sh) = I_type OP_IMM (x8 rd) 5 (x8 rd) (0x400 OR ucast sh)"
| "rvc_asm (C_ANDI rd imm) = I_type OP_IMM (x8 rd) 7 (x8 rd) (scast imm)"
| "rvc_asm (C_SUB rd rs2) = R_type OP_REG (x8 rd) 0 (x8 rd) (x8 rs2) 0x20"
| "rvc_asm (C_XOR rd rs2) = R_type OP_REG (x8 rd) 4 (x8 rd) (x8 rs2) 0"
| "rvc_asm (C_OR rd rs2) = R_type OP_REG (x8 rd) 6 (x8 rd) (x8 rs2) 0"
| "rvc_asm (C_AND rd rs2) = R_type OP_REG (x8 rd) 7 (x8 rd) (x8 rs2) 0"
| "rvc_asm (C_SUBW rd rs2) = R_type OP_REG_32 (x8 rd) 0 (x8 rd) (x8 rs2) 0x20"
| "rvc_asm (C_ADDW rd rs2) = R_type OP_REG_32 (x8 rd) 0 (x8 rd) (x8 rs2) 0"
| "rvc_asm (C_J u) = J_type OP_JAL 0 (scast u)"
| "rvc_asm (C_BEQZ rs1 u) = B_type OP_BRANCH 0 (x8 rs1) 0 (scast u)"
| "rvc_asm (C_BNEZ rs1 u) = B_type OP_BRANCH 1 (x8 rs1) 0 (scast u)"
| "rvc_asm (C_SLLI rd sh) = I_type OP_IMM rd 1 rd (ucast sh)"
| "rvc_asm (C_FLDSP rd u) = I_type OP_LOAD_FP rd 3 2 (scaled 3 u)"
| "rvc_asm (C_LWSP rd u) = I_type OP_LOAD rd 2 2 (scaled 2 u)"
| "rvc_asm (C_LDSP rd u) = I_type OP_LOAD rd 3 2 (scaled 3 u)"
| "rvc_asm (C_JR rs1) = I_type OP_JALR 0 0 rs1 0"
| "rvc_asm (C_MV rd rs2) = R_type OP_REG rd 0 0 rs2 0"
| "rvc_asm C_EBREAK = I_type OP_SYSTEM 0 0 0 1"
| "rvc_asm (C_JALR rs1) = I_type OP_JALR 1 0 rs1 0"
| "rvc_asm (C_ADD rd rs2) = R_type OP_REG rd 0 rd rs2 0"
| "rvc_asm (C_FSDSP rs2 u) = S_type OP_STORE_FP 3 2 rs2 (scaled 3 u)"
| "rvc_asm (C_SWSP rs2 u) = S_type OP_STORE 2 2 rs2 (scaled 2 u)"
| "rvc_asm (C_SDSP rs2 u) = S_type OP_STORE 3 2 rs2 (scaled 3 u)"

definition rvc_legal :: "rvc \<Rightarrow> bool" where
  "rvc_legal i \<longleftrightarrow> (case i of
     C_ADDI4SPN rd u \<Rightarrow> u \<noteq> 0 | C_ADDIW rd imm \<Rightarrow> rd \<noteq> 0 | C_ADDI16SP u \<Rightarrow> u \<noteq> 0 | C_LUI rd imm \<Rightarrow> rd \<noteq> 2 \<and> imm \<noteq> 0
   | C_SLLI rd sh \<Rightarrow> rd \<noteq> 0 | C_LWSP rd u \<Rightarrow> rd \<noteq> 0 | C_LDSP rd u \<Rightarrow> rd \<noteq> 0 | C_JR rs1 \<Rightarrow> rs1 \<noteq> 0 | C_MV rd rs2 \<Rightarrow> rs2 \<noteq> 0
   | C_JALR rs1 \<Rightarrow> rs1 \<noteq> 0 | C_ADD rd rs2 \<Rightarrow> rs2 \<noteq> 0 | _ \<Rightarrow> True)"

subsection \<open>Fields of an assembled word\<close>

abbreviation width :: "(nat \<times> 'a::len word) list \<Rightarrow> nat" where
  "width fs \<equiv> sum_list (map fst fs)"

primrec has_field :: "nat \<Rightarrow> nat \<Rightarrow> (nat \<times> 'a::len word) list \<Rightarrow> bool" where
  "has_field n w [] = False"
| "has_field n w (f # fs) = (if n = width fs \<and> w = fst f then True else has_field n w fs)"

primrec get_field :: "nat \<Rightarrow> nat \<Rightarrow> (nat \<times> 'a::len word) list \<Rightarrow> 'a word" where
  "get_field n w [] = 0"
| "get_field n w (f # fs) = (if n = width fs \<and> w = fst f then take_bit w (snd f) else get_field n w fs)"

lemma bit_beyond: "LENGTH('a) \<le> n \<Longrightarrow> \<not> bit (w :: 'a::len word) n"
  by (metis bit_imp_le_length leD)

lemma bit_cat_fields: "bit (cat_fields fs) n \<Longrightarrow> n < width fs"
  by (induction fs) (auto simp: bit_simps)

lemma has_field_width: "has_field n w fs \<Longrightarrow> n + w \<le> width fs"
  by (induction fs) (auto split: if_splits)

lemma cat_field:
  fixes fs :: "(nat \<times> 'a::len word) list"
  shows "has_field n w fs \<Longrightarrow> width fs \<le> LENGTH('a) \<Longrightarrow> take_bit w (drop_bit n (cat_fields fs)) = get_field n w fs"
proof (induction fs)
  case (Cons f fs)
  show ?case
  proof (cases "n = width fs \<and> w = fst f")
    case True
    then have "\<not> bit (cat_fields fs) (n + k)" for k using bit_cat_fields [of fs "n + k"] by auto
    with True Cons.prems(2) show ?thesis by (intro bit_word_eqI) (auto simp: bit_simps)
  next
    case False
    with Cons.prems have h: "has_field n w fs" by (auto split: if_splits)
    then have "n + w \<le> width fs" by (rule has_field_width)
    then have "take_bit w (drop_bit n (cat_fields (f # fs))) = take_bit w (drop_bit n (cat_fields fs))"
      by (intro bit_word_eqI) (auto simp: bit_simps)
    with False h Cons show ?thesis by (auto simp del: cat_fields.simps)
  qed
qed simp

lemma take_ucast: "LENGTH('b) \<le> w \<Longrightarrow> take_bit w (ucast x :: 'a::len word) = ucast x" for x :: "'b::len word"
  by (rule bit_word_eqI) (auto simp: bit_simps dest: bit_imp_le_length)

lemma take_bits: "take_bit w (bits hi lo x) = bits hi lo x" if "hi + 1 - lo \<le> w"
  using that by (simp add: bits_def min_def)

lemma take_opcode:
  "opc \<in> {OP_REG, OP_REG_32, OP_AMO, OP_FP, OP_FMADD, OP_FMSUB, OP_FNMSUB, OP_FNMADD, OP_IMM, OP_LOAD, OP_JALR, OP_IMM_32,
     OP_LOAD_FP, OP_STORE, OP_STORE_FP, OP_BRANCH, OP_LUI, OP_AUIPC, OP_JAL, OP_SYSTEM} \<Longrightarrow> take_bit 7 opc = opc"
  by (auto simp: isa_consts)

lemma reg_of_field: "reg_new (ucast x) = ucast x" for x :: u32
  by (rule bit_word_eqI) (auto simp: reg_new_def and_masks bit_simps dest: bit_imp_le_length)

lemma field_regs:
  fixes fs :: "(nat \<times> u32) list"
  assumes "width fs \<le> 32"
  shows "has_field 7 5 fs \<Longrightarrow> inst_rd (cat_fields fs) = ucast (get_field 7 5 fs)"
    and "has_field 15 5 fs \<Longrightarrow> inst_rs1 (cat_fields fs) = ucast (get_field 15 5 fs)"
    and "has_field 20 5 fs \<Longrightarrow> inst_rs2 (cat_fields fs) = ucast (get_field 20 5 fs)"
    and "has_field 0 7 fs \<Longrightarrow> inst_opcode (cat_fields fs) = get_field 0 7 fs"
    and "has_field 12 3 fs \<Longrightarrow> inst_funct3 (cat_fields fs) = get_field 12 3 fs"
    and "has_field 25 7 fs \<Longrightarrow> inst_funct7 (cat_fields fs) = get_field 25 7 fs"
  using assms cat_field [of 7 5 fs] cat_field [of 15 5 fs] cat_field [of 20 5 fs] cat_field [of 0 7 fs]
    cat_field [of 12 3 fs] cat_field [of 25 7 fs]
  by (simp_all add: inst_rd_def inst_rs1_def inst_rs2_def inst_opcode_def inst_funct3_def inst_funct7_def
       and_masks reg_of_field)

lemma ucast_reg [simp]: "ucast (ucast x :: u32) = x" for x :: reg_idx
  by (rule bit_word_eqI) (auto simp: bit_simps dest: bit_imp_le_length)

lemma asm_registers:
  "inst_rd (asm_encode (R_type opc rd f3 rs1 rs2 f7)) = rd" "inst_rd (asm_encode (I_type opc rd f3 rs1 imm)) = rd"
  "inst_rd (asm_encode (U_type opc rd imm20)) = rd" "inst_rd (asm_encode (J_type opc rd imm20)) = rd"
  "inst_rs1 (asm_encode (R_type opc rd f3 rs1 rs2 f7)) = rs1" "inst_rs1 (asm_encode (I_type opc rd f3 rs1 imm)) = rs1"
  "inst_rs1 (asm_encode (S_type opc f3 rs1 rs2 imm)) = rs1" "inst_rs1 (asm_encode (B_type opc f3 rs1 rs2 imm)) = rs1"
  "inst_rs2 (asm_encode (R_type opc rd f3 rs1 rs2 f7)) = rs2"
  "inst_rs2 (asm_encode (S_type opc f3 rs1 rs2 imm)) = rs2" "inst_rs2 (asm_encode (B_type opc f3 rs1 rs2 imm)) = rs2"
  by (simp_all add: field_regs take_ucast del: cat_fields.simps)

lemma asm_functs:
  "inst_funct3 (asm_encode (R_type opc rd f3 rs1 rs2 f7)) = ucast f3" "inst_funct3 (asm_encode (I_type opc rd f3 rs1 imm)) = ucast f3"
  "inst_funct3 (asm_encode (S_type opc f3 rs1 rs2 imm)) = ucast f3" "inst_funct3 (asm_encode (B_type opc f3 rs1 rs2 imm)) = ucast f3"
  "inst_funct7 (asm_encode (R_type opc rd f3 rs1 rs2 f7)) = ucast f7"
  by (simp_all add: field_regs take_ucast del: cat_fields.simps)

lemma asm_opcodes: "asm_wf a \<Longrightarrow> inst_opcode (asm_encode a) = asm_opcode a"
  by (cases a) (auto simp add: field_regs take_opcode simp del: cat_fields.simps)

text \<open>An immediate that is put together from the fields of a word.\<close>

lemma signed_drop_field:
  fixes x :: "'b::len word" and w :: u32
  assumes "LENGTH('b) + n = 32" "take_bit LENGTH('b) (drop_bit n w) = ucast x"
  shows "signed_drop_bit n w = scast x"
proof -
  have "bit w (n + k) = bit x k" if "k < LENGTH('b)" for k
    using that assms(1) arg_cong [OF assms(2), of "\<lambda>v. bit v k"] by (simp add: bit_simps)
  moreover have "n + (LENGTH('b) - 1) = 31" using assms(1) len_gt_0 [where ?'a = 'b] by linarith
  ultimately have "bit w 31 = bit x (LENGTH('b) - 1)" "\<And>k. k < LENGTH('b) \<Longrightarrow> bit w (n + k) = bit x k"
    by (metis One_nat_def diff_less len_gt_0 lessI)+
  with assms(1) show ?thesis
    by (intro bit_word_eqI) (auto simp: bit_signed_drop_bit_iff bit_signed_iff min_def not_less not_le le_antisym dest!: le_antisym)
qed

lemma sext32_scast: "sext32 (scast x) = scast x" if "LENGTH('a) \<le> 32" for x :: "'a::len word"
  using that by (intro bit_word_eqI) (auto simp: sext32_def bit_simps min_def)

lemma sext32_push_scast:
  fixes x :: "'a::len word"
  assumes "LENGTH('a) + k \<le> 32"
  shows "sext32 (push_bit k (scast x)) = push_bit k (scast x)"
proof -
  have "k \<le> 31" using assms len_gt_0 [where ?'a = 'a] by linarith
  then show ?thesis using assms by (intro bit_word_eqI) (auto simp: sext32_def bit_simps min_def)
qed

lemma rvc_sign_extend_ucast: "rvc_sign_extend (ucast x) LENGTH('b) = scast x" if "LENGTH('b) \<le> 32" for x :: "'b::len word"
proof -
  have "take_bit LENGTH('b) (drop_bit (32 - LENGTH('b)) (push_bit (32 - LENGTH('b)) (ucast x :: u32))) = ucast x"
    using that by (intro bit_word_eqI) (auto simp: bit_simps dest: bit_imp_le_length)
  with that signed_drop_field [where ?'b = 'b and n = "32 - LENGTH('b)"] show ?thesis
    by (simp add: rvc_sign_extend_def Let_def)
qed

lemma decode_sign_extend_ucast: "decode_sign_extend (ucast x) LENGTH('b) = scast x" if "LENGTH('b) \<le> 32" for x :: "'b::len word"
  using rvc_sign_extend_ucast [OF that, of x] that
  by (simp add: decode_sign_extend_def rvc_sign_extend_def Let_def sext32_scast)

text \<open>An equation between words is one equation per bit.\<close>

lemma word_eq_list: "v = w \<longleftrightarrow> list_all (\<lambda>n. bit v n = bit w n) [0..<LENGTH('a)]" for v w :: "'a::len word"
  by (auto simp: list_all_iff intro: bit_word_eqI)

lemma upto_lists:
  "[0..<5] = [0, 1, 2, 3, 4]"
  "[0..<6] = [0, 1, 2, 3, 4, 5]"
  "[0..<9] = [0, 1, 2, 3, 4, 5, 6, 7, 8]"
  "[0..<10] = [0, 1, 2, 3, 4, 5, 6, 7, 8, 9]"
  "[0..<8] = [0, 1, 2, 3, 4, 5, 6, 7]"
  "[0..<16] = [0, 1, 2, 3, 4, 5, 6, 7, 8, 9, 10, 11, 12, 13, 14, 15]"
  "[0..<32] = [0, 1, 2, 3, 4, 5, 6, 7, 8, 9, 10, 11, 12, 13, 14, 15, 16, 17, 18, 19, 20, 21, 22, 23, 24, 25, 26, 27, 28, 29, 30, 31]"
  by (simp_all add: upt_rec)

lemma len_numerals:
  "LENGTH(3) = 3" "LENGTH(5) = 5" "LENGTH(6) = 6" "LENGTH(8) = 8" "LENGTH(9) = 9" "LENGTH(10) = 10" "LENGTH(11) = 11" "LENGTH(12) = 12" "LENGTH(13) = 13" "LENGTH(16) = 16"
  "LENGTH(20) = 20" "LENGTH(21) = 21" "LENGTH(32) = 32"
  by simp_all

lemmas word_bits = word_eq_list bit_or_iff bit_and_iff bit_push_bit_iff bit_take_bit_iff bit_drop_bit_eq o_apply
  bit_unsigned_iff bit_signed_iff possible_bit_word len_numerals upto_lists list.pred_inject bits_def
lemmas word_bits_simps = bit_beyond numeral_2_eq_2 [symmetric]

lemma imm_of_bits:
  "push_bit 5 (bits 11 5 imm) OR bits 4 0 imm = (ucast imm :: u32)"
  "push_bit 12 (bits 11 11 imm) OR push_bit 11 (bits 10 10 imm) OR push_bit 5 (bits 9 4 imm) OR push_bit 1 (bits 3 0 imm)
     = (ucast (push_bit 1 (ucast imm) :: 13 word) :: u32)"
  "push_bit 20 (bits 19 19 off) OR push_bit 12 (bits 18 11 off) OR push_bit 11 (bits 10 10 off) OR push_bit 1 (bits 9 0 off)
     = (ucast (push_bit 1 (ucast off) :: 21 word) :: u32)"
  for imm :: "12 word" and off :: "20 word"
  unfolding word_bits by (simp_all add: word_bits_simps)

lemma decode_i_asm: "decode_i_type_imm (asm_encode (I_type opc rd f3 rs1 imm)) = scast imm"
  using cat_field [of 20 12 "[(12, ucast imm :: u32), (5, ucast rs1), (3, ucast f3), (5, ucast rd), (7, opc)]"]
    signed_drop_field [of 20 "asm_encode (I_type opc rd f3 rs1 imm)" imm]
  by (simp add: decode_i_type_imm_def sext32_scast take_ucast del: cat_fields.simps)

lemma scast_push_bit:
  fixes x :: "'a::len word"
  assumes "LENGTH('b::len) = LENGTH('a) + k"
  shows "scast (push_bit k (ucast x) :: 'b word) = (push_bit k (scast x) :: 'c::len word)"
proof (rule bit_word_eqI)
  fix n assume "n < LENGTH('c)"
  have "k \<le> LENGTH('b) - 1" using assms len_gt_0 [where ?'a = 'a] by linarith
  then show "bit (scast (push_bit k (ucast x) :: 'b word) :: 'c word) n = bit (push_bit k (scast x) :: 'c word) n"
    using assms \<open>n < LENGTH('c)\<close> by (auto simp: bit_simps min_def dest: bit_imp_le_length)
qed

lemma decode_s_asm: "decode_s_type_imm (asm_encode (S_type opc f3 rs1 rs2 imm)) = scast imm"
  using decode_sign_extend_ucast [of imm]
  by (simp add: decode_s_type_imm_def Let_def and_masks cat_field take_bits imm_of_bits del: cat_fields.simps)

lemma decode_b_asm: "decode_b_type_imm (asm_encode (B_type opc f3 rs1 rs2 imm)) = push_bit 1 (scast imm)"
  using decode_sign_extend_ucast [of "push_bit 1 (ucast imm) :: 13 word"] scast_push_bit [of 1 imm, where ?'b = 13 and ?'c = 64]
  by (simp add: decode_b_type_imm_def Let_def and_masks cat_field take_bits imm_of_bits del: cat_fields.simps push_bit_Suc One_nat_def)

lemma decode_j_asm: "decode_j_type_imm (asm_encode (J_type opc rd imm)) = push_bit 1 (scast imm)"
  using decode_sign_extend_ucast [of "push_bit 1 (ucast imm) :: 21 word"] scast_push_bit [of 1 imm, where ?'b = 21 and ?'c = 64]
  by (simp add: decode_j_type_imm_def Let_def and_masks cat_field take_bits imm_of_bits del: cat_fields.simps push_bit_Suc One_nat_def)

lemma decode_u_asm: "decode_u_type_imm (asm_encode (U_type opc rd imm)) = push_bit 12 (scast imm)"
proof -
  have "asm_encode (U_type opc rd imm) AND 0xFFFFF000 = push_bit 12 (scast imm)"
    unfolding asm_encode.simps cat_fields.simps fst_conv snd_conv word_bits by (simp add: word_bits_simps)
  with sext32_push_scast [of 12 imm] show ?thesis by (simp add: decode_u_type_imm_def)
qed

lemma asm_fields_decode: "asm_wf a \<Longrightarrow> asm_fields a (decode (asm_encode a))"
  using asm_opcodes [of a]
  by (cases a) (auto simp: decode_def asm_registers asm_functs decode_i_asm decode_s_asm decode_b_asm decode_u_asm decode_j_asm
       isa_consts Let_def simp del: asm_encode.simps)

text \<open>C21. Decoding inverts assembling in all six formats: opcode, registers, function codes and the sign-extended
  immediate of a 32-bit instruction are the operands it was assembled from, for every immediate of the format.\<close>

theorem decode_asm: "asm_wf a \<Longrightarrow> asm_fields a (decode (asm_encode a))"
  by (rule asm_fields_decode)

theorem decode_asm_witness:
  "asm_wf (B_type OP_BRANCH 1 5 6 (- 3)) \<and> asm_encode (B_type OP_BRANCH 1 5 6 (- 3)) = 0xFE629DE3
   \<and> d_imm (decode 0xFE629DE3) = - 6 \<and> d_rs2 (decode 0xFE629DE3) = 6"
proof -
  have "asm_wf (B_type OP_BRANCH 1 5 6 (- 3))" by simp
  moreover have e: "asm_encode (B_type OP_BRANCH 1 5 6 (- 3)) = 0xFE629DE3" by code_simp
  moreover have "push_bit 1 (scast (- 3 :: 12 word)) = (- 6 :: i64)" by code_simp
  ultimately show ?thesis using decode_asm [of "B_type OP_BRANCH 1 5 6 (- 3)"] by (simp del: asm_encode.simps push_bit_Suc)
qed

subsection \<open>Expansion of assembled compressed instructions\<close>

lemma rvc_word_select:
  assumes "width fs = 11"
  shows "take_bit 2 (rvc_word f3 fs q) = ucast q"
proof -
  have "has_field 0 2 (fs @ [(2, x)])" "get_field 0 2 (fs @ [(2, x)]) = take_bit 2 x" for fs and x :: u16
    by (induction fs) simp_all
  then show ?thesis
    using cat_field [of 0 2 "((3, ucast f3) # fs) @ [(2, ucast q :: u16)]"] assms
    by (simp add: rvc_word_def take_ucast del: cat_fields.simps)
qed

lemma rvc_field: "has_field n w ((3, ucast f3) # fs @ [(2, ucast q)]) \<Longrightarrow> width fs = 11
    \<Longrightarrow> take_bit w (drop_bit n (rvc_word f3 fs q)) = get_field n w ((3, ucast f3) # fs @ [(2, ucast q)])"
  unfolding rvc_word_def by (rule cat_field) simp_all

lemma ucast_x8: "8 + ucast r = (ucast (x8 r) :: u32)" for r :: "3 word"
proof -
  have "unat r < 8" using unsigned_less [of r, where ?'a = nat] by simp
  then show ?thesis
    by (simp add: x8_def word_unat_eq_iff unat_word_ariths unsigned_ucast_eq take_bit_nat_eq_self take_ucast)
qed

text \<open>The immediates the arms put together.\<close>

lemma rvc_uimm:
  "push_bit 3 (bits 5 3 (scaled 3 u)) OR push_bit 6 (bits 7 6 (scaled 3 u)) = (ucast (scaled 3 u) :: u16)"
  "push_bit 2 (bits 2 2 (scaled 2 u)) OR push_bit 3 (bits 5 3 (scaled 2 u)) OR push_bit 6 (bits 6 6 (scaled 2 u)) = (ucast (scaled 2 u) :: u16)"
  "push_bit 2 (bits 2 2 (scaled 2 v)) OR push_bit 3 (bits 3 3 (scaled 2 v)) OR push_bit 4 (bits 5 4 (scaled 2 v))
     OR push_bit 6 (bits 9 6 (scaled 2 v)) = (ucast (scaled 2 v) :: u16)"
  "bits 4 0 imm OR push_bit 5 (bits 5 5 imm) = (ucast imm :: u16)"
  "push_bit 5 (bits 5 5 (scaled 3 imm)) OR push_bit 3 (bits 4 3 (scaled 3 imm)) OR push_bit 6 (bits 8 6 (scaled 3 imm)) = (ucast (scaled 3 imm) :: u16)"
  "push_bit 5 (bits 5 5 (scaled 2 imm)) OR push_bit 2 (bits 4 2 (scaled 2 imm)) OR push_bit 6 (bits 7 6 (scaled 2 imm)) = (ucast (scaled 2 imm) :: u16)"
  "push_bit 3 (bits 5 3 (scaled 3 imm)) OR push_bit 6 (bits 8 6 (scaled 3 imm)) = (ucast (scaled 3 imm) :: u16)"
  "push_bit 2 (bits 5 2 (scaled 2 imm)) OR push_bit 6 (bits 7 6 (scaled 2 imm)) = (ucast (scaled 2 imm) :: u16)"
  for u :: "5 word" and v :: "8 word" and imm :: "6 word"
  unfolding scaled_def word_bits by (simp_all add: word_bits_simps)

lemma rvc_offset:
  "push_bit 4 (bits 4 4 (scaled 4 imm)) OR push_bit 5 (bits 5 5 (scaled 4 imm)) OR push_bit 6 (bits 6 6 (scaled 4 imm))
     OR push_bit 7 (bits 8 7 (scaled 4 imm)) OR push_bit 9 (bits 9 9 (scaled 4 imm)) = (ucast (push_bit 4 (ucast imm) :: 10 word) :: u16)"
  "push_bit 1 (bits 3 1 (scaled 1 j)) OR push_bit 4 (bits 4 4 (scaled 1 j)) OR push_bit 5 (bits 5 5 (scaled 1 j))
     OR push_bit 6 (bits 6 6 (scaled 1 j)) OR push_bit 7 (bits 7 7 (scaled 1 j)) OR push_bit 8 (bits 9 8 (scaled 1 j))
     OR push_bit 10 (bits 10 10 (scaled 1 j)) OR push_bit 11 (bits 11 11 (scaled 1 j)) = (ucast (push_bit 1 (ucast j) :: 12 word) :: u16)"
  "push_bit 1 (bits 2 1 (scaled 1 b)) OR push_bit 3 (bits 4 3 (scaled 1 b)) OR push_bit 5 (bits 5 5 (scaled 1 b))
     OR push_bit 6 (bits 7 6 (scaled 1 b)) OR push_bit 8 (bits 8 8 (scaled 1 b)) = (ucast (push_bit 1 (ucast b) :: 9 word) :: u16)"
  for imm :: "6 word" and j :: "11 word" and b :: "8 word"
  unfolding scaled_def word_bits by (simp_all add: word_bits_simps)

lemma rvc_extend:
  "rvc_sign_extend (ucast imm) 6 = scast imm"
  "rvc_sign_extend (ucast (push_bit 4 (ucast imm) :: 10 word)) 10 = push_bit 4 (scast imm)"
  "rvc_sign_extend (ucast (push_bit 1 (ucast j) :: 12 word)) 12 = push_bit 1 (scast j)"
  "rvc_sign_extend (ucast (push_bit 1 (ucast b) :: 9 word)) 9 = push_bit 1 (scast b)"
  for imm :: "6 word" and j :: "11 word" and b :: "8 word"
  using rvc_sign_extend_ucast [of imm] rvc_sign_extend_ucast [of "push_bit 4 (ucast imm) :: 10 word"]
    rvc_sign_extend_ucast [of "push_bit 1 (ucast j) :: 12 word"] rvc_sign_extend_ucast [of "push_bit 1 (ucast b) :: 9 word"]
  by (simp_all add: ucast_up_ucast is_up scast_push_bit del: push_bit_Suc One_nat_def)

lemma rvc_sign_extend_0: "rvc_sign_extend 0 n = 0"
  by (simp add: rvc_sign_extend_def Let_def)

lemma imm_fields:
  "ucast (take_bit 5 (ucast x :: u16)) = (bits 4 0 x :: u32)"
  "ucast (drop_bit 5 (ucast x :: u16)) = (bits 11 5 x :: u32)"
  "take_bit 12 (scast imm) = (ucast (scast imm :: 12 word) :: u32)"
  "take_bit 12 (push_bit 4 (scast imm)) = (ucast (push_bit 4 (scast imm) :: 12 word) :: u32)"
  "take_bit 6 (scast imm) = (ucast imm :: u32)" "ucast (ucast imm :: 12 word) = (ucast imm :: u32)"
  "push_bit 12 (scast imm :: u32) = push_bit 12 (ucast (scast imm :: 20 word))"
  "push_bit 20 (ucast (0x400 OR ucast imm :: 12 word)) = (0x40000000 OR push_bit 20 (ucast imm) :: u32)"
  for x :: "12 word" and imm :: "6 word"
  unfolding word_bits by (simp_all add: word_bits_simps)

lemma jump_fields:
  "take_bit 1 (drop_bit 20 (push_bit 1 (scast j))) = (bits 19 19 (scast j :: 20 word) :: u32)"
  "take_bit 10 (drop_bit 1 (push_bit 1 (scast j))) = (bits 9 0 (scast j :: 20 word) :: u32)"
  "take_bit 1 (drop_bit 11 (push_bit 1 (scast j))) = (bits 10 10 (scast j :: 20 word) :: u32)"
  "take_bit 8 (drop_bit 12 (push_bit 1 (scast j))) = (bits 18 11 (scast j :: 20 word) :: u32)"
  for j :: "11 word"
  unfolding word_bits by (simp_all add: word_bits_simps)

lemma branch_fields:
  "take_bit 1 (drop_bit 12 (push_bit 1 (scast b))) = (bits 11 11 (scast b :: 12 word) :: u32)"
  "take_bit 6 (drop_bit 5 (push_bit 1 (scast b))) = (bits 9 4 (scast b :: 12 word) :: u32)"
  "take_bit 4 (drop_bit 1 (push_bit 1 (scast b))) = (bits 3 0 (scast b :: 12 word) :: u32)"
  "take_bit 1 (drop_bit 11 (push_bit 1 (scast b))) = (bits 10 10 (scast b :: 12 word) :: u32)"
  for b :: "8 word"
  unfolding word_bits by (simp_all add: word_bits_simps)

lemma ucast_u16_u32: "ucast (ucast x :: u16) = (ucast x :: u32)" if "LENGTH('a) \<le> 16" for x :: "'a::len word"
  using that by (intro bit_word_eqI) (auto simp: bit_simps dest: bit_imp_le_length)

lemma operand_tests:
  "(ucast r = (0 :: u32)) = (r = 0)" "(ucast r = (2 :: u32)) = (r = 2)"
  "(ucast (scaled 2 v) = (0 :: u16)) = (v = 0)" "(scast imm = (0 :: u32)) = (imm = 0)" "(push_bit 4 (scast imm) = (0 :: u32)) = (imm = 0)"
  for r :: "5 word" and v :: "8 word" and imm :: "6 word"
  unfolding scaled_def word_bits by (auto simp: word_bits_simps)

lemma field_consts:
  "ucast (0 :: 3 word) = (0 :: 'a::len word)" "ucast (1 :: 3 word) = (1 :: 'a::len word)"
  "ucast (2 :: 3 word) = (2 :: u16)" "ucast (2 :: 3 word) = (2 :: u32)"
  "ucast (3 :: 3 word) = (3 :: u16)" "ucast (3 :: 3 word) = (3 :: u32)"
  "ucast (4 :: 3 word) = (4 :: u16)" "ucast (4 :: 3 word) = (4 :: u32)"
  "ucast (5 :: 3 word) = (5 :: u16)" "ucast (5 :: 3 word) = (5 :: u32)"
  "ucast (6 :: 3 word) = (6 :: u16)" "ucast (6 :: 3 word) = (6 :: u32)"
  "ucast (7 :: 3 word) = (7 :: u16)" "ucast (7 :: 3 word) = (7 :: u32)"
  "ucast (2 :: 2 word) = (2 :: u16)" "ucast (3 :: 2 word) = (3 :: u16)" "ucast (2 :: 5 word) = (2 :: u32)" "ucast (0x20 :: 7 word) = (0x20 :: u32)"
  by simp_all

text \<open>Each arm, quadrant by quadrant.\<close>

lemmas arm_rules = expand_def Let_def rvc_word_select rvc_field and_masks take_ucast take_bits
  c_load_def c_store_def c_imm_op_def c_reg_op_def c_imm6_def c_reg3_def c_reg5_def ucast_x8
  rvc_uimm rvc_offset rvc_extend imm_fields operand_tests ucast_u16_u32 isa_consts
lemmas arm_defs = arm_rules [unfolded One_nat_def]

lemma expand_q0_arms:
  "u \<noteq> 0 \<Longrightarrow> expand (rvc_encode (C_ADDI4SPN rd u)) = asm_encode (rvc_asm (C_ADDI4SPN rd u))"
  "expand (rvc_encode (C_FLD rd rs1 w)) = asm_encode (rvc_asm (C_FLD rd rs1 w))"
  "expand (rvc_encode (C_LW rd rs1 w)) = asm_encode (rvc_asm (C_LW rd rs1 w))"
  "expand (rvc_encode (C_LD rd rs1 w)) = asm_encode (rvc_asm (C_LD rd rs1 w))"
  "expand (rvc_encode (C_FSD rd rs1 w)) = asm_encode (rvc_asm (C_FSD rd rs1 w))"
  "expand (rvc_encode (C_SW rd rs1 w)) = asm_encode (rvc_asm (C_SW rd rs1 w))"
  "expand (rvc_encode (C_SD rd rs1 w)) = asm_encode (rvc_asm (C_SD rd rs1 w))"
  by (simp_all add: arm_defs expand_q0_def ls_d_def ls_w_def del: push_bit_Suc take_bit_Suc_0)

lemma expand_q1_imm_arms:
  "expand (rvc_encode (C_ADDI r imm)) = asm_encode (rvc_asm (C_ADDI r imm))"
  "r \<noteq> 0 \<Longrightarrow> expand (rvc_encode (C_ADDIW r imm)) = asm_encode (rvc_asm (C_ADDIW r imm))"
  "expand (rvc_encode (C_LI r imm)) = asm_encode (rvc_asm (C_LI r imm))"
  "r \<noteq> 2 \<Longrightarrow> imm \<noteq> 0 \<Longrightarrow> expand (rvc_encode (C_LUI r imm)) = asm_encode (rvc_asm (C_LUI r imm))"
  by (simp_all add: arm_defs expand_q1_def ci_def del: push_bit_Suc take_bit_Suc_0)

lemma expand_addi16sp:
  "imm \<noteq> 0 \<Longrightarrow> expand (rvc_encode (C_ADDI16SP imm)) = asm_encode (rvc_asm (C_ADDI16SP imm))"
  by (simp add: arm_defs expand_q1_def del: push_bit_Suc take_bit_Suc_0)

lemma expand_jump: "expand (rvc_encode (C_J j)) = asm_encode (rvc_asm (C_J j))"
  by (simp add: arm_defs expand_q1_def c_jump_def jump_fields [unfolded One_nat_def] del: push_bit_Suc take_bit_Suc_0)
    (simp only: or.assoc or.left_commute or.commute)

lemma expand_branches:
  "expand (rvc_encode (C_BEQZ rd b)) = asm_encode (rvc_asm (C_BEQZ rd b))"
  "expand (rvc_encode (C_BNEZ rd b)) = asm_encode (rvc_asm (C_BNEZ rd b))"
  by (simp_all add: arm_defs expand_q1_def cb_branch_def c_branch_def branch_fields [unfolded One_nat_def] del: push_bit_Suc take_bit_Suc_0)

lemma expand_shift_arms:
  "expand (rvc_encode (C_SRLI rd imm)) = asm_encode (rvc_asm (C_SRLI rd imm))"
  "expand (rvc_encode (C_SRAI rd imm)) = asm_encode (rvc_asm (C_SRAI rd imm))"
  "expand (rvc_encode (C_ANDI rd imm)) = asm_encode (rvc_asm (C_ANDI rd imm))"
  by (simp_all add: arm_defs expand_q1_def expand_misc_alu_def cb_alu_def or.assoc del: push_bit_Suc take_bit_Suc_0)

lemma expand_reg_arms:
  "expand (rvc_encode (C_SUB rd rs2)) = asm_encode (rvc_asm (C_SUB rd rs2))"
  "expand (rvc_encode (C_XOR rd rs2)) = asm_encode (rvc_asm (C_XOR rd rs2))"
  "expand (rvc_encode (C_OR rd rs2)) = asm_encode (rvc_asm (C_OR rd rs2))"
  "expand (rvc_encode (C_AND rd rs2)) = asm_encode (rvc_asm (C_AND rd rs2))"
  "expand (rvc_encode (C_SUBW rd rs2)) = asm_encode (rvc_asm (C_SUBW rd rs2))"
  "expand (rvc_encode (C_ADDW rd rs2)) = asm_encode (rvc_asm (C_ADDW rd rs2))"
  by (simp_all add: arm_defs expand_q1_def expand_misc_alu_def ca_def del: push_bit_Suc take_bit_Suc_0)

lemma expand_q2_arms:
  "r \<noteq> 0 \<Longrightarrow> expand (rvc_encode (C_SLLI r imm)) = asm_encode (rvc_asm (C_SLLI r imm))"
  "expand (rvc_encode (C_FLDSP r imm)) = asm_encode (rvc_asm (C_FLDSP r imm))"
  "r \<noteq> 0 \<Longrightarrow> expand (rvc_encode (C_LWSP r imm)) = asm_encode (rvc_asm (C_LWSP r imm))"
  "r \<noteq> 0 \<Longrightarrow> expand (rvc_encode (C_LDSP r imm)) = asm_encode (rvc_asm (C_LDSP r imm))"
  "expand (rvc_encode (C_FSDSP r imm)) = asm_encode (rvc_asm (C_FSDSP r imm))"
  "expand (rvc_encode (C_SWSP r imm)) = asm_encode (rvc_asm (C_SWSP r imm))"
  "expand (rvc_encode (C_SDSP r imm)) = asm_encode (rvc_asm (C_SDSP r imm))"
  by (simp_all add: arm_defs expand_q2_def ci_def del: push_bit_Suc take_bit_Suc_0)

lemma expand_cr_arms:
  "r \<noteq> 0 \<Longrightarrow> expand (rvc_encode (C_JR r)) = asm_encode (rvc_asm (C_JR r))"
  "r \<noteq> 0 \<Longrightarrow> expand (rvc_encode (C_JALR r)) = asm_encode (rvc_asm (C_JALR r))"
  "rs2 \<noteq> 0 \<Longrightarrow> expand (rvc_encode (C_MV r rs2)) = asm_encode (rvc_asm (C_MV r rs2))"
  "rs2 \<noteq> 0 \<Longrightarrow> expand (rvc_encode (C_ADD r rs2)) = asm_encode (rvc_asm (C_ADD r rs2))"
  "expand (rvc_encode C_EBREAK) = asm_encode (rvc_asm C_EBREAK)"
  by (simp_all add: arm_defs expand_q2_def expand_q2_alu_def cr_def del: push_bit_Suc take_bit_Suc_0)

lemmas expand_arms = expand_q0_arms expand_q1_imm_arms expand_addi16sp expand_jump expand_branches expand_shift_arms
  expand_reg_arms expand_q2_arms expand_cr_arms

lemma expand_encode: "rvc_legal i \<Longrightarrow> expand (rvc_encode i) = asm_encode (rvc_asm i)"
  by (cases i) (simp_all only: rvc_legal_def rvc.case expand_arms simp_thms)

lemma rvc_asm_wf: "i \<noteq> C_EBREAK \<Longrightarrow> asm_wf (rvc_asm i)"
  by (cases i) simp_all

text \<open>C20. Every compressed instruction with legal operands expands to the 32-bit encoding of the instruction it
  abbreviates, and the decoder reads that instruction's operands off the expansion: the scrambled immediates of the
  halfword arrive with their value and sign.\<close>

theorem expand_correct:
  "rvc_legal i \<Longrightarrow> expand (rvc_encode i) = asm_encode (rvc_asm i)
     \<and> (i \<noteq> C_EBREAK \<longrightarrow> asm_fields (rvc_asm i) (decode (expand (rvc_encode i))))"
  by (simp add: expand_encode asm_fields_decode rvc_asm_wf)

theorem expand_correct_witness:
  "rvc_legal (C_LUI 1 (- 1)) \<and> expand (rvc_encode (C_LUI 1 (- 1))) = 0xFFFFF0B7
   \<and> d_imm (decode (expand (rvc_encode (C_LUI 1 (- 1))))) = - 4096"
proof -
  have l: "rvc_legal (C_LUI 1 (- 1))" by (simp add: rvc_legal_def)
  have a: "rvc_asm (C_LUI 1 (- 1)) = U_type OP_LUI 1 (- 1)" by simp
  have w: "asm_encode (U_type OP_LUI 1 (- 1)) = 0xFFFFF0B7" by code_simp
  have m: "push_bit 12 (scast (- 1 :: 20 word)) = (- 4096 :: i64)" by code_simp
  have n: "C_LUI 1 (- 1) \<noteq> C_EBREAK" by simp
  from expand_correct [OF l] n l show ?thesis unfolding a w m asm_fields.simps by blast
qed

text \<open>The reserved operands (a zero immediate of \<open>c.addi4spn\<close>, \<open>c.addi16sp\<close> and \<open>c.lui\<close>, \<open>x0\<close> as destination of
  \<open>c.addiw\<close>, \<open>c.lwsp\<close> and \<open>c.ldsp\<close>, \<open>c.jr x0\<close>) expand to the all-zero word, which the decoder rejects. So does
  \<open>c.slli\<close> with destination \<open>x0\<close>, although the architecture makes it a hint and not a reserved encoding.\<close>

theorem expand_reserved:
  "expand (rvc_encode (C_ADDI4SPN rd 0)) = 0 \<and> expand (rvc_encode (C_ADDI16SP 0)) = 0
   \<and> (r = 2 \<or> expand (rvc_encode (C_LUI r 0)) = 0) \<and> expand (rvc_encode (C_ADDIW 0 imm)) = 0
   \<and> expand (rvc_encode (C_LWSP 0 imm)) = 0 \<and> expand (rvc_encode (C_LDSP 0 imm)) = 0
   \<and> expand (rvc_encode (C_JR 0)) = 0 \<and> expand (rvc_encode (C_SLLI 0 imm)) = 0"
  by (intro conjI; simp add: arm_defs expand_q0_def expand_q1_def expand_q2_def expand_q2_alu_def ci_def cr_def
       rvc_sign_extend_0 del: push_bit_Suc take_bit_Suc_0)

end
