(* ===== verification/Decode.thy ===== *)
theory Decode
  imports Rename Cpu Isa
begin

text \<open>
  The decode stage (\<open>core/pipeline/frontend/decode.rs\<close>): control signals of one instruction and the
  loop over a fetch bundle. A \<open>match\<close> on a function code is a finite table. The control signals meet
  the contract \<open>ctrl_ok\<close> that renaming relies on; the stage hands every instruction but the canonical
  no-operation to renaming in order, stops behind the first trap, and for the in-order backend cuts the
  bundle before an instruction that reads a register the bundle writes.
\<close>

subsection \<open>Control signals\<close>

definition load_table :: "(u32 \<times> mem_width \<times> bool) list" where
  "load_table = [(0, W_Byte, True), (1, W_Half, True), (2, W_Word, True), (3, W_Double, True),
     (4, W_Byte, False), (5, W_Half, False), (6, W_Word, False)]"

definition store_table :: "(u32 \<times> mem_width) list" where
  "store_table = [(0, W_Byte), (1, W_Half), (2, W_Word), (3, W_Double)]"

definition fp_width_table :: "(u32 \<times> mem_width) list" where
  "fp_width_table = [(2, W_Word), (3, W_Double)]"

definition imm_table :: "(u32 \<times> alu_op) list" where
  "imm_table = [(0, Alu_Add), (2, Alu_Slt), (3, Alu_Sltu), (4, Alu_Xor), (6, Alu_Or), (7, Alu_And), (1, Alu_Sll)]"

definition muldiv_table :: "(u32 \<times> alu_op) list" where
  "muldiv_table = [(0, Alu_Mul), (1, Alu_Mulh), (2, Alu_Mulhsu), (3, Alu_Mulhu),
     (4, Alu_Div), (5, Alu_Divu), (6, Alu_Rem), (7, Alu_Remu)]"

definition alu_reg_table :: "((u32 \<times> u32) \<times> alu_op) list" where
  "alu_reg_table = [((0, 0), Alu_Add), ((0, 0x20), Alu_Sub), ((1, 0), Alu_Sll), ((2, 0), Alu_Slt), ((3, 0), Alu_Sltu),
     ((4, 0), Alu_Xor), ((5, 0), Alu_Srl), ((5, 0x20), Alu_Sra), ((6, 0), Alu_Or), ((7, 0), Alu_And)]"

definition amo_table :: "(u32 \<times> atomic_op) list" where
  "amo_table = [(0b00010, At_Lr), (0b00011, At_Sc), (0b00001, At_Swap), (0b00000, At_Add), (0b00100, At_Xor),
     (0b01100, At_And), (0b01000, At_Or), (0b10000, At_Min), (0b10100, At_Max), (0b11000, At_Minu), (0b11100, At_Maxu)]"

definition csr_table :: "(u32 \<times> csr_op) list" where
  "csr_table = [(1, Csr_Rw), (2, Csr_Rs), (3, Csr_Rc), (5, Csr_Rwi), (6, Csr_Rsi), (7, Csr_Rci)]"

text \<open>The arithmetic of \<open>OP_FP\<close>: the operation and what the arm changes of the default of two floating-point
  operands and a floating-point result (\<open>Fp_Int\<close>: the result is an integer, \<open>Fp_FromInt\<close>: \<open>rs1\<close> is an integer).\<close>

datatype fp_shape = Fp_Fp | Fp_Int | Fp_FromInt

definition fp_op :: "decoded \<Rightarrow> (fp_shape \<times> alu_op) option" where
  "fp_op d =
    (let f7 = d_funct7 d; f3 = d_funct3 d; sel = (\<lambda>sh t k. map_option (Pair sh) (map_of t k))
     in if f7 = 0b0000000 \<or> f7 = 0b0000001 then Some (Fp_Fp, Alu_FAdd)
        else if f7 = 0b0000100 \<or> f7 = 0b0000101 then Some (Fp_Fp, Alu_FSub)
        else if f7 = 0b0001000 \<or> f7 = 0b0001001 then Some (Fp_Fp, Alu_FMul)
        else if f7 = 0b0001100 \<or> f7 = 0b0001101 then Some (Fp_Fp, Alu_FDiv)
        else if f7 = 0b0101100 \<or> f7 = 0b0101101 then Some (Fp_Fp, Alu_FSqrt)
        else if f7 = 0b0010000 \<or> f7 = 0b0010001 then sel Fp_Fp [(0, Alu_FSgnJ), (1, Alu_FSgnJN), (2, Alu_FSgnJX)] f3
        else if f7 = 0b0010100 \<or> f7 = 0b0010101 then sel Fp_Fp [(0, Alu_FMin), (1, Alu_FMax)] f3
        else if f7 = 0b1010000 \<or> f7 = 0b1010001 then sel Fp_Int [(2, Alu_FEq), (1, Alu_FLt), (0, Alu_FLe)] f3
        else if f7 = 0b1110000 \<or> f7 = 0b1110001 then sel Fp_Int [(0, Alu_FMvToX), (1, Alu_FClass)] f3
        else if f7 = 0b1111000 \<or> f7 = 0b1111001 then Some (Fp_FromInt, Alu_FMvToF)
        else if f7 = 0b1100000 \<or> f7 = 0b1100001 then
          map_option (Pair Fp_Int) (map_of [(0, Alu_FCvtWS), (1, Alu_FCvtWUS), (2, Alu_FCvtLS), (3, Alu_FCvtLUS)] (d_rs2 d))
        else if f7 = 0b1101000 \<or> f7 = 0b1101001 then
          map_option (Pair Fp_FromInt) (map_of [(0, Alu_FCvtSW), (1, Alu_FCvtSWU), (2, Alu_FCvtSL), (3, Alu_FCvtSLU)] (d_rs2 d))
        else if f7 = 0b0100001 then Some (Fp_Fp, Alu_FCvtDS)
        else if f7 = 0b0100000 then Some (Fp_Fp, Alu_FCvtSD)
        else None)"

definition fp_ctrl :: "fp_shape \<Rightarrow> alu_op \<Rightarrow> control_signals \<Rightarrow> control_signals" where
  "fp_ctrl sh op c = (case sh of
     Fp_Fp \<Rightarrow> c\<lparr> cs_alu := op \<rparr>
   | Fp_Int \<Rightarrow> c\<lparr> cs_fp_reg_write := False, cs_reg_write := True, cs_rs1_fp := True, cs_alu := op \<rparr>
   | Fp_FromInt \<Rightarrow> c\<lparr> cs_rs1_fp := False, cs_fp_reg_write := True, cs_a_src := A_Reg1, cs_alu := op \<rparr>)"

definition decode_fp :: "decoded \<Rightarrow> control_signals \<Rightarrow> control_signals option" where
  "decode_fp d c =
    (let fmt = d_funct7 d AND 3; c1 = c\<lparr> cs_is_rv32 := (fmt = 0) \<rparr>; is_double = (fmt = 1)
     in if \<not> cs_is_rv32 c1 \<and> \<not> is_double then None
        else let c2 = c1\<lparr> cs_rs1_fp := True, cs_rs2_fp := True, cs_fp_reg_write := True, cs_b_src := B_Reg2 \<rparr>
             in map_option (\<lambda>(sh, op). fp_ctrl sh op c2) (fp_op d))"

definition decode_reg :: "decoded \<Rightarrow> control_signals \<Rightarrow> control_signals option" where
  "decode_reg d c =
    (let c1 = c\<lparr> cs_reg_write := True, cs_is_rv32 := (d_opcode d = OP_REG_32), cs_b_src := B_Reg2 \<rparr>
     in map_option (\<lambda>op. c1\<lparr> cs_alu := op \<rparr>)
          (if d_funct7 d = 1 then map_of muldiv_table (d_funct3 d)
           else map_of alu_reg_table (d_funct3 d, d_funct7 d)))"

definition decode_imm :: "decoded \<Rightarrow> control_signals \<Rightarrow> control_signals option" where
  "decode_imm d c =
    (let c1 = c\<lparr> cs_reg_write := True, cs_is_rv32 := (d_opcode d = OP_IMM_32) \<rparr>
     in map_option (\<lambda>op. c1\<lparr> cs_alu := op \<rparr>)
          (if d_funct3 d = 5 then Some (if d_funct7 d AND 0x20 \<noteq> 0 then Alu_Sra else Alu_Srl)
           else map_of imm_table (d_funct3 d)))"

definition decode_amo :: "decoded \<Rightarrow> control_signals \<Rightarrow> control_signals option" where
  "decode_amo d c =
    (case map_of fp_width_table (d_funct3 d) of None \<Rightarrow> None
     | Some w \<Rightarrow> map_option (\<lambda>op. c\<lparr> cs_width := w, cs_atomic_op := op, cs_alu := Alu_Add, cs_a_src := A_Reg1,
           cs_b_src := B_Zero, cs_mem_read := True, cs_mem_write := (op \<noteq> At_Lr), cs_reg_write := True \<rparr>)
         (map_of amo_table (drop_bit 2 (d_funct7 d))))"

definition decode_fma :: "decoded \<Rightarrow> control_signals \<Rightarrow> control_signals" where
  "decode_fma d c = c\<lparr> cs_rs1_fp := True, cs_rs2_fp := True, cs_rs3_fp := True, cs_fp_reg_write := True, cs_b_src := B_Reg2,
     cs_is_rv32 := (d_funct7 d AND 3 = 0),
     cs_alu := (if d_opcode d = OP_FMADD then Alu_FMAdd else if d_opcode d = OP_FMSUB then Alu_FMSub
                else if d_opcode d = OP_FNMADD then Alu_FNMAdd else if d_opcode d = OP_FNMSUB then Alu_FNMSub else Alu_Add) \<rparr>"

definition decode_system :: "u32 \<Rightarrow> u64 \<Rightarrow> decoded \<Rightarrow> control_signals \<Rightarrow> trap + control_signals" where
  "decode_system inst pc d c =
    (if inst AND 0xFE007FFF = SFENCE_VMA then Inr (c\<lparr> cs_system_op := Sys_SfenceVma \<rparr>)
     else if d_raw d = EBREAK then Inl (Breakpoint pc)
     else if d_raw d = MRET then Inr (c\<lparr> cs_system_op := Sys_Mret \<rparr>)
     else if d_raw d = SRET then Inr (c\<lparr> cs_system_op := Sys_Sret \<rparr>)
     else if d_raw d = WFI then Inr (c\<lparr> cs_system_op := Sys_Wfi \<rparr>)
     else if d_raw d = ECALL then Inr (c\<lparr> cs_system_op := Sys_System \<rparr>)
     else if d_funct3 d \<noteq> 0 then
       Inr (c\<lparr> cs_system_op := Sys_System, cs_csr_addr := inst_csr inst, cs_a_src := A_Reg1, cs_b_src := B_Zero,
         cs_csr_op := (case map_of csr_table (d_funct3 d) of Some op \<Rightarrow> op | None \<Rightarrow> Csr_None),
         cs_reg_write := (\<not> reg_is_zero (d_rd d)) \<rparr>)
     else Inr c)"

definition or_illegal :: "u32 \<Rightarrow> control_signals option \<Rightarrow> trap + control_signals" where
  "or_illegal inst r = (case r of None \<Rightarrow> Inl (IllegalInstruction inst) | Some c \<Rightarrow> Inr c)"

definition decode_instruction :: "u32 \<Rightarrow> u64 \<Rightarrow> decoded \<Rightarrow> trap + control_signals" where
  "decode_instruction inst pc d =
    (let c = default_ctrl\<lparr> cs_a_src := A_Reg1, cs_b_src := B_Imm, cs_alu := Alu_Add \<rparr>; opc = d_opcode d
     in if opc = OP_LUI then Inr (c\<lparr> cs_reg_write := True, cs_a_src := A_Zero \<rparr>)
        else if opc = OP_AUIPC then Inr (c\<lparr> cs_reg_write := True, cs_a_src := A_Pc \<rparr>)
        else if opc = OP_JAL then Inr (c\<lparr> cs_reg_write := True, cs_control_flow := CF_Jump \<rparr>)
        else if opc = OP_JALR then Inr (c\<lparr> cs_reg_write := True, cs_control_flow := CF_Jump, cs_alu := Alu_Add \<rparr>)
        else if opc = OP_BRANCH then Inr (c\<lparr> cs_control_flow := CF_Branch, cs_b_src := B_Reg2 \<rparr>)
        else if opc = OP_LOAD then or_illegal inst
          (map_option (\<lambda>(w, s). c\<lparr> cs_reg_write := True, cs_mem_read := True, cs_alu := Alu_Add, cs_width := w, cs_signed_load := s \<rparr>)
            (map_of load_table (d_funct3 d)))
        else if opc = OP_STORE then or_illegal inst
          (map_option (\<lambda>w. c\<lparr> cs_mem_write := True, cs_b_src := B_Imm, cs_alu := Alu_Add, cs_width := w \<rparr>)
            (map_of store_table (d_funct3 d)))
        else if opc = OP_IMM \<or> opc = OP_IMM_32 then or_illegal inst (decode_imm d c)
        else if opc = OP_REG \<or> opc = OP_REG_32 then or_illegal inst (decode_reg d c)
        else if opc = OP_AMO then or_illegal inst (decode_amo d c)
        else if opc = OP_LOAD_FP then or_illegal inst
          (map_option (\<lambda>w. c\<lparr> cs_fp_reg_write := True, cs_mem_read := True, cs_alu := Alu_Add, cs_width := w \<rparr>)
            (map_of fp_width_table (d_funct3 d)))
        else if opc = OP_STORE_FP then or_illegal inst
          (map_option (\<lambda>w. c\<lparr> cs_mem_write := True, cs_rs1_fp := False, cs_rs2_fp := True, cs_b_src := B_Imm,
              cs_alu := Alu_Add, cs_width := w \<rparr>) (map_of fp_width_table (d_funct3 d)))
        else if opc = OP_FP then or_illegal inst (decode_fp d c)
        else if opc = OP_FMADD \<or> opc = OP_FMSUB \<or> opc = OP_FNMADD \<or> opc = OP_FNMSUB then Inr (decode_fma d c)
        else if opc = OP_SYSTEM then decode_system inst pc d c
        else if opc = OP_MISC_MEM then
          (if d_funct3 d = 0 then Inr (c\<lparr> cs_system_op := Sys_Fence \<rparr>)
           else if d_funct3 d = 1 then Inr (c\<lparr> cs_system_op := Sys_FenceI \<rparr>)
           else Inl (IllegalInstruction inst))
        else Inl (IllegalInstruction inst))"

subsection \<open>The decode stage\<close>

record if_id_entry =
  if_pc :: u64
  if_inst :: u32
  if_inst_size :: inst_size
  if_pred_taken :: bool
  if_pred_target :: u64
  if_trap :: "trap option"
  if_exception_stage :: "exception_stage option"
  if_ghr_snapshot :: ghr
  if_ras_snapshot :: nat

text \<open>The entry for a fetch that trapped, built from \<open>IdExEntry::default()\<close>.\<close>

definition id_of_trap :: "if_id_entry \<Rightarrow> trap \<Rightarrow> id_ex_entry" where
  "id_of_trap e t = \<lparr> id_pc = if_pc e, id_inst = if_inst e, id_inst_size = if_inst_size e, id_rs1 = 0, id_rs2 = 0, id_rs3 = 0,
     id_rd = 0, id_imm = 0, id_rv1 = 0, id_rv2 = 0, id_rv3 = 0, id_ctrl = default_ctrl, id_trap = Some t,
     id_exception_stage = if_exception_stage e, id_pred_taken = False, id_pred_target = 0,
     id_ghr_snapshot = ghr_default, id_ras_snapshot = 0 \<rparr>"

definition decode_entry :: "register_file \<Rightarrow> if_id_entry \<Rightarrow> id_ex_entry" where
  "decode_entry regs e =
    (let inst = if_inst e; d = decode inst;
         (ctrl, trap, ex_stage) = (case decode_instruction inst (if_pc e) d of
            Inr c \<Rightarrow> (c, None, None) | Inl t \<Rightarrow> (default_ctrl, Some t, Some Stage_Decode));
         rs3_idx = inst_rs3 inst
     in \<lparr> id_pc = if_pc e, id_inst = inst, id_inst_size = if_inst_size e, id_rs1 = d_rs1 d, id_rs2 = d_rs2 d, id_rs3 = rs3_idx,
          id_rd = d_rd d, id_imm = d_imm d,
          id_rv1 = (if cs_rs1_fp ctrl then regs_read_f regs (d_rs1 d) else regs_read regs (d_rs1 d)),
          id_rv2 = (if cs_rs2_fp ctrl then regs_read_f regs (d_rs2 d) else regs_read regs (d_rs2 d)),
          id_rv3 = (if cs_rs3_fp ctrl then regs_read_f regs rs3_idx else 0),
          id_ctrl = ctrl, id_trap = trap, id_exception_stage = ex_stage, id_pred_taken = if_pred_taken e,
          id_pred_target = if_pred_target e, id_ghr_snapshot = if_ghr_snapshot e, id_ras_snapshot = if_ras_snapshot e \<rparr>)"

definition bundle_hazard :: "(reg_idx \<times> bool) list \<Rightarrow> id_ex_entry \<Rightarrow> bool" where
  "bundle_hazard ws e \<longleftrightarrow>
     (\<not> reg_is_zero (id_rs1 e) \<or> cs_rs1_fp (id_ctrl e)) \<and> (id_rs1 e, cs_rs1_fp (id_ctrl e)) \<in> set ws
   \<or> (\<not> reg_is_zero (id_rs2 e) \<or> cs_rs2_fp (id_ctrl e)) \<and> (id_rs2 e, cs_rs2_fp (id_ctrl e)) \<in> set ws
   \<or> cs_rs3_fp (id_ctrl e) \<and> (id_rs3 e, True) \<in> set ws"

definition bundle_writes :: "id_ex_entry \<Rightarrow> (reg_idx \<times> bool) list" where
  "bundle_writes e = (if cs_reg_write (id_ctrl e) \<and> \<not> reg_is_zero (id_rd e) then [(id_rd e, False)] else [])
     @ (if cs_fp_reg_write (id_ctrl e) then [(id_rd e, True)] else [])"

definition INSTRUCTION_NOP :: u32 where
  [isa_consts]: "INSTRUCTION_NOP = 0x13"

text \<open>The loop over the bundle: the number of consumed entries and the output. \<open>ren\<close> is
  \<open>cpu.has_register_renaming\<close>.\<close>

fun decode_loop :: "bool \<Rightarrow> register_file \<Rightarrow> if_id_entry list \<Rightarrow> (reg_idx \<times> bool) list \<Rightarrow> nat \<Rightarrow> id_ex_entry list
    \<Rightarrow> nat \<times> id_ex_entry list" where
  "decode_loop ren regs [] ws consumed out = (consumed, out)"
| "decode_loop ren regs (e # es) ws consumed out =
    (case if_trap e of
       Some t \<Rightarrow> (consumed + 1, out @ [id_of_trap e t])
     | None \<Rightarrow>
         if if_inst e = INSTRUCTION_NOP then decode_loop ren regs es ws (consumed + 1) out
         else let x = decode_entry regs e
              in if \<not> ren \<and> bundle_hazard ws x then (consumed, out)
                 else if id_trap x \<noteq> None then (consumed + 1, out @ [x])
                 else decode_loop ren regs es (ws @ bundle_writes x) (consumed + 1) (out @ [x]))"

definition decode_stage :: "bool \<Rightarrow> register_file \<Rightarrow> if_id_entry list \<Rightarrow> id_ex_entry list \<Rightarrow> if_id_entry list \<times> id_ex_entry list" where
  "decode_stage ren regs input output =
    (let (consumed, out) = decode_loop ren regs input [] 0 output in (drop consumed input, out))"


subsection \<open>Control signals are consistent\<close>

definition signals_ok :: "control_signals \<Rightarrow> bool" where
  "signals_ok c \<longleftrightarrow> ctrl_ok c
     \<and> (cs_mem_read c \<or> cs_mem_write c \<longrightarrow> cs_width c \<noteq> W_Nop \<and> \<not> is_branch_or_jump c \<and> cs_system_op c = Sys_None \<and> cs_alu c = Alu_Add)
     \<and> (cs_atomic_op c \<noteq> At_None \<longrightarrow> cs_mem_read c \<and> cs_width c \<in> {W_Word, W_Double} \<and> cs_reg_write c
           \<and> cs_mem_write c = (cs_atomic_op c \<noteq> At_Lr))
     \<and> (cs_csr_op c \<noteq> Csr_None \<longrightarrow> cs_system_op c = Sys_System)
     \<and> (cs_rs3_fp c \<longrightarrow> cs_rs1_fp c \<and> cs_rs2_fp c \<and> cs_fp_reg_write c)"

lemmas signals_defs = signals_ok_def ctrl_ok_def is_branch_or_jump_def default_ctrl_def

lemma fp_width_table_simps: "map_of fp_width_table k = Some w \<Longrightarrow> w \<in> {W_Word, W_Double}"
  by (auto simp: fp_width_table_def split: if_splits)

lemma amo_table_simps: "map_of amo_table k = Some op \<Longrightarrow> op \<noteq> At_None"
  by (auto simp: amo_table_def split: if_splits)

lemma load_table_simps: "map_of load_table k = Some (w, b) \<Longrightarrow> w \<noteq> W_Nop"
  by (auto simp: load_table_def split: if_splits)

lemma store_table_simps: "map_of store_table k = Some w \<Longrightarrow> w \<noteq> W_Nop"
  by (auto simp: store_table_def split: if_splits)

lemmas table_simps = fp_width_table_simps amo_table_simps load_table_simps store_table_simps

lemma decode_imm_ok: "decode_imm d default_ctrl = Some c \<Longrightarrow> signals_ok c"
  by (auto simp: decode_imm_def signals_defs Let_def)

lemma decode_reg_ok: "decode_reg d default_ctrl = Some c \<Longrightarrow> signals_ok c"
  by (auto simp: decode_reg_def signals_defs Let_def)

lemma decode_amo_ok: "decode_amo d default_ctrl = Some c \<Longrightarrow> signals_ok c"
  by (auto simp: decode_amo_def signals_defs Let_def dest!: table_simps split: option.splits)

lemma fp_ctrl_ok:
  "signals_ok (fp_ctrl sh op (default_ctrl\<lparr> cs_is_rv32 := b, cs_rs1_fp := True, cs_rs2_fp := True, cs_fp_reg_write := True, cs_b_src := B_Reg2 \<rparr>))"
  by (cases sh) (simp_all add: fp_ctrl_def signals_defs)

lemma decode_fp_ok: "decode_fp d default_ctrl = Some c \<Longrightarrow> signals_ok c"
  using fp_ctrl_ok by (fastforce simp: decode_fp_def Let_def split: if_splits)

lemma decode_fma_ok: "signals_ok (decode_fma d default_ctrl)"
  by (simp add: decode_fma_def signals_defs)

lemma decode_system_ok: "decode_system inst pc d default_ctrl = Inr c \<Longrightarrow> signals_ok c"
  by (auto simp: decode_system_def signals_defs split: if_splits)

lemma or_illegal_Inr: "or_illegal inst r = Inr c \<longleftrightarrow> r = Some c"
  by (simp add: or_illegal_def split: option.split)

lemma or_illegal_Inl: "or_illegal inst r = Inl t \<Longrightarrow> t = IllegalInstruction inst"
  by (simp add: or_illegal_def split: option.splits)

lemma start_ctrl: "default_ctrl\<lparr> cs_a_src := A_Reg1, cs_b_src := B_Imm, cs_alu := Alu_Add \<rparr> = default_ctrl"
  by (simp add: default_ctrl_def)

lemma plain_arms_ok:
  "signals_ok (default_ctrl\<lparr> cs_reg_write := True, cs_a_src := A_Zero \<rparr>)"
  "signals_ok (default_ctrl\<lparr> cs_reg_write := True, cs_a_src := A_Pc \<rparr>)"
  "signals_ok (default_ctrl\<lparr> cs_reg_write := True, cs_control_flow := CF_Jump \<rparr>)"
  "signals_ok (default_ctrl\<lparr> cs_reg_write := True, cs_control_flow := CF_Jump, cs_alu := Alu_Add \<rparr>)"
  "signals_ok (default_ctrl\<lparr> cs_control_flow := CF_Branch, cs_b_src := B_Reg2 \<rparr>)"
  "signals_ok (default_ctrl\<lparr> cs_system_op := so \<rparr>)"
  by (simp_all add: signals_defs)

lemma mem_arms_ok:
  "w \<noteq> W_Nop \<Longrightarrow> signals_ok (default_ctrl\<lparr> cs_reg_write := True, cs_mem_read := True, cs_alu := Alu_Add, cs_width := w, cs_signed_load := sg \<rparr>)"
  "w \<noteq> W_Nop \<Longrightarrow> signals_ok (default_ctrl\<lparr> cs_mem_write := True, cs_b_src := B_Imm, cs_alu := Alu_Add, cs_width := w \<rparr>)"
  "w \<noteq> W_Nop \<Longrightarrow> signals_ok (default_ctrl\<lparr> cs_fp_reg_write := True, cs_mem_read := True, cs_alu := Alu_Add, cs_width := w \<rparr>)"
  "w \<noteq> W_Nop \<Longrightarrow> signals_ok (default_ctrl\<lparr> cs_mem_write := True, cs_rs1_fp := False, cs_rs2_fp := True, cs_b_src := B_Imm,
      cs_alu := Alu_Add, cs_width := w \<rparr>)"
  by (simp_all add: signals_defs)

lemma mem_tables:
  "map_option (\<lambda>(w, s). f w s) (map_of load_table k) = Some c \<Longrightarrow> (\<And>w s. w \<noteq> W_Nop \<Longrightarrow> signals_ok (f w s)) \<Longrightarrow> signals_ok c"
  "map_option g (map_of store_table k) = Some c \<Longrightarrow> (\<And>w. w \<noteq> W_Nop \<Longrightarrow> signals_ok (g w)) \<Longrightarrow> signals_ok c"
  "map_option g (map_of fp_width_table k) = Some c \<Longrightarrow> (\<And>w. w \<noteq> W_Nop \<Longrightarrow> signals_ok (g w)) \<Longrightarrow> signals_ok c"
  by (auto dest: table_simps)

lemma decode_instruction_ok: "decode_instruction inst pc d = Inr c \<Longrightarrow> signals_ok c"
  unfolding decode_instruction_def start_ctrl Let_def
  by (simp only: or_illegal_Inr sum.inject split: if_split_asm)
    (auto simp only: plain_arms_ok sum.distinct intro: decode_imm_ok decode_reg_ok decode_amo_ok decode_fp_ok decode_fma_ok decode_system_ok
      elim!: mem_tables intro!: mem_arms_ok)


lemma d_raw_decode [simp]: "d_raw (decode inst) = inst"
  by (simp add: decode_def Let_def)

lemma decode_instruction_trap: "decode_instruction inst pc d = Inl t \<Longrightarrow> t = IllegalInstruction inst \<or> t = Breakpoint pc \<and> d_raw d = EBREAK"
  unfolding decode_instruction_def start_ctrl Let_def
  by (simp only: sum.distinct split: if_split_asm) (auto dest: or_illegal_Inl simp: decode_system_def split: if_splits)

lemma default_ctrl_ok: "ctrl_ok default_ctrl"
  by (simp add: signals_defs)

lemma decode_signals_consistent_aux: "decode_instruction inst pc (decode inst) = Inr c \<Longrightarrow> ctrl_ok c"
  using decode_instruction_ok by (auto simp: signals_ok_def)


text \<open>Reserved encodings of \<open>SYSTEM\<close> and of the fused multiply-add opcodes are not rejected: an unknown
  privileged instruction (here \<open>uret\<close>) gets the signals of an addition into no register, \<open>SYSTEM\<close> with function
  code 4 becomes a CSR instruction without an operation that still writes its destination, and a fused
  multiply-add in a reserved format is decoded as a double.\<close>

theorem reserved_encodings_accepted:
  "decode_instruction 0x00200073 pc (decode 0x00200073) = Inr default_ctrl
   \<and> (case decode_instruction 0x300040F3 pc (decode 0x300040F3) of Inr c \<Rightarrow> cs_csr_op c = Csr_None \<and> cs_reg_write c | Inl t \<Rightarrow> False)
   \<and> (case decode_instruction 0x04208043 pc (decode 0x04208043) of Inr c \<Rightarrow> cs_alu c = Alu_FMAdd \<and> \<not> cs_is_rv32 c | Inl t \<Rightarrow> False)"
  by (intro conjI) code_simp+

subsection \<open>The stage in order\<close>

definition visible :: "if_id_entry \<Rightarrow> bool" where
  "visible e \<longleftrightarrow> if_trap e \<noteq> None \<or> if_inst e \<noteq> INSTRUCTION_NOP"

definition decoded_of :: "register_file \<Rightarrow> if_id_entry \<Rightarrow> id_ex_entry" where
  "decoded_of regs e = (case if_trap e of Some t \<Rightarrow> id_of_trap e t | None \<Rightarrow> decode_entry regs e)"

definition bundle_of :: "register_file \<Rightarrow> if_id_entry list \<Rightarrow> id_ex_entry list" where
  "bundle_of regs es = map (decoded_of regs) (filter visible es)"

definition writes_of :: "id_ex_entry list \<Rightarrow> (reg_idx \<times> bool) list" where
  "writes_of xs = concat (map bundle_writes xs)"

text \<open>No instruction of a bundle reads a register that an earlier one of the bundle writes.\<close>

fun hazard_free :: "(reg_idx \<times> bool) list \<Rightarrow> id_ex_entry list \<Rightarrow> bool" where
  "hazard_free ws [] = True"
| "hazard_free ws (x # xs) \<longleftrightarrow> \<not> bundle_hazard ws x \<and> hazard_free (ws @ bundle_writes x) xs"

text \<open>Why the loop may stop before the end of the bundle.\<close>

definition stop_ok :: "bool \<Rightarrow> register_file \<Rightarrow> (reg_idx \<times> bool) list \<Rightarrow> if_id_entry list \<Rightarrow> nat \<Rightarrow> bool" where
  "stop_ok ren regs ws es k \<longleftrightarrow>
    (let xs = bundle_of regs (take k es)
     in (\<exists>x \<in> set xs. id_trap x \<noteq> None)
        \<or> \<not> ren \<and> visible (es ! k) \<and> bundle_hazard (ws @ writes_of xs) (decoded_of regs (es ! k)))"

definition loop_ok :: "bool \<Rightarrow> register_file \<Rightarrow> (reg_idx \<times> bool) list \<Rightarrow> if_id_entry list \<Rightarrow> nat \<Rightarrow> bool" where
  "loop_ok ren regs ws es k \<longleftrightarrow>
    (let xs = bundle_of regs (take k es)
     in k \<le> length es \<and> (\<forall>x \<in> set (butlast xs). id_trap x = None) \<and> (k < length es \<longrightarrow> stop_ok ren regs ws es k)
        \<and> (ren \<or> hazard_free ws xs))"

lemma bundle_of_Cons: "bundle_of regs (e # es) = (if visible e then [decoded_of regs e] else []) @ bundle_of regs es"
  by (simp add: bundle_of_def)

lemma trap_no_hazard: "\<not> bundle_hazard ws (id_of_trap e t)"
  by (simp add: bundle_hazard_def id_of_trap_def default_ctrl_def reg_is_zero_def)

lemma loop_ok_last:
  assumes "visible e" "id_trap (decoded_of regs e) \<noteq> None" "ren \<or> \<not> bundle_hazard ws (decoded_of regs e)"
  shows "loop_ok ren regs ws (e # es) 1"
  using assms by (simp add: loop_ok_def stop_ok_def bundle_of_def)

lemma loop_ok_nop: "\<not> visible e \<Longrightarrow> loop_ok ren regs ws es k \<Longrightarrow> loop_ok ren regs ws (e # es) (Suc k)"
  by (simp add: loop_ok_def stop_ok_def bundle_of_Cons Let_def)

lemma loop_ok_step:
  assumes "visible e" "id_trap (decoded_of regs e) = None" "ren \<or> \<not> bundle_hazard ws (decoded_of regs e)"
    "loop_ok ren regs (ws @ bundle_writes (decoded_of regs e)) es k"
  shows "loop_ok ren regs ws (e # es) (Suc k)"
  using assms by (auto simp: loop_ok_def stop_ok_def bundle_of_Cons writes_of_def Let_def)

lemma decode_loop_spec:
  "\<exists>k. decode_loop ren regs es ws n out = (n + k, out @ bundle_of regs (take k es)) \<and> loop_ok ren regs ws es k \<and> (es \<noteq> [] \<and> ws = [] \<longrightarrow> 0 < k)"
proof (induction es arbitrary: ws n out)
  case Nil
  then show ?case by (simp add: bundle_of_def loop_ok_def)
next
  case (Cons e es)
  show ?case
  proof (cases "if_trap e")
    case (Some t)
    then have "visible e" "decoded_of regs e = id_of_trap e t" by (simp_all add: visible_def decoded_of_def)
    then show ?thesis using Some loop_ok_last [of e regs ren ws es] trap_no_hazard [of ws e t]
      by (intro exI [of _ 1]) (simp add: bundle_of_def, simp add: id_of_trap_def)
  next
    case None
    then have d: "decoded_of regs e = decode_entry regs e" by (simp add: decoded_of_def)
    show ?thesis
    proof (cases "if_inst e = INSTRUCTION_NOP")
      case True
      then have v: "\<not> visible e" using None by (simp add: visible_def)
      obtain k where "decode_loop ren regs es ws (n + 1) out = (n + 1 + k, out @ bundle_of regs (take k es))" "loop_ok ren regs ws es k"
        using Cons.IH by blast
      with v True None show ?thesis by (intro exI [of _ "Suc k"]) (simp add: bundle_of_Cons loop_ok_nop)
    next
      case False
      then have v: "visible e" by (simp add: visible_def)
      consider (stop) "\<not> ren" "bundle_hazard ws (decode_entry regs e)"
        | (trap) "ren \<or> \<not> bundle_hazard ws (decode_entry regs e)" "id_trap (decode_entry regs e) \<noteq> None"
        | (go) "ren \<or> \<not> bundle_hazard ws (decode_entry regs e)" "id_trap (decode_entry regs e) = None" by blast
      then show ?thesis
      proof cases
        case stop
        then have "loop_ok ren regs ws (e # es) 0" using v d by (simp add: loop_ok_def stop_ok_def bundle_of_def writes_of_def)
        moreover have "ws \<noteq> []" using stop(2) by (auto simp: bundle_hazard_def)
        ultimately show ?thesis using stop False None by (intro exI [of _ 0]) (simp add: bundle_of_def Let_def)
      next
        case trap
        then show ?thesis using False None v d loop_ok_last [of e regs ren ws es]
          by (intro exI [of _ 1]) (auto simp: bundle_of_def Let_def)
      next
        case go
        obtain k where "decode_loop ren regs es (ws @ bundle_writes (decode_entry regs e)) (n + 1) (out @ [decode_entry regs e])
            = (n + 1 + k, (out @ [decode_entry regs e]) @ bundle_of regs (take k es))"
          "loop_ok ren regs (ws @ bundle_writes (decode_entry regs e)) es k" using Cons.IH by blast
        then show ?thesis using go False None v d loop_ok_step [of e regs ren ws es k]
          by (intro exI [of _ "Suc k"]) (auto simp: bundle_of_Cons Let_def)
      qed
    qed
  qed
qed


text \<open>C18. The decode stage loses and reorders nothing: it consumes a prefix of the fetch bundle, hands over the
  decoded form of every instruction of the prefix but the canonical no-operation, in order, and keeps the rest. It
  stops early only behind a trap or, without register renaming, before an instruction that depends on the bundle;
  only the last instruction it hands over can carry a trap, a nonempty bundle always makes progress, and every
  instruction handed over meets the control-signal contract of renaming.\<close>

theorem decode_stage_in_order:
  "\<exists>k. decode_stage ren regs input out = (drop k input, out @ bundle_of regs (take k input))
     \<and> loop_ok ren regs [] input k \<and> (input = [] \<or> 0 < k) \<and> list_all (\<lambda>x. ctrl_ok (id_ctrl x)) (bundle_of regs (take k input))"
proof -
  have c: "ctrl_ok (id_ctrl (decoded_of regs e))" for e
    using decode_signals_consistent_aux [of "if_inst e" "if_pc e"]
    by (auto simp: decoded_of_def id_of_trap_def decode_entry_def default_ctrl_ok Let_def split: option.split sum.splits)
  obtain k where "decode_loop ren regs input [] 0 out = (0 + k, out @ bundle_of regs (take k input))"
    "loop_ok ren regs [] input k" "input \<noteq> [] \<longrightarrow> 0 < k"
    using decode_loop_spec [of ren regs input "[]" 0 out] by auto
  then show ?thesis by (intro exI [of _ k]) (auto simp: decode_stage_def bundle_of_def list_all_iff c)
qed

end
