(* ===== verification/Alu.thy ===== *)
theory Alu
  imports Signals
begin

text \<open>
  The integer ALU (\<open>core/units/alu/\<close>): arithmetic with the M extension, logic and
  comparisons, shifts, and the dispatch of \<open>Alu::execute\<close>. The definitions follow the
  source's casts; the properties compare them with integer arithmetic on the values the
  operands denote.
\<close>

subsection \<open>The three operation groups\<close>

text \<open>\<open>i32::wrapping_div\<close>, \<open>i64::wrapping_div\<close> and the remainders truncate towards
  zero and wrap on \<open>MIN / -1\<close>.\<close>

definition wrapping_div :: "'a::len word \<Rightarrow> 'a word \<Rightarrow> 'a word" where
  "wrapping_div a b = word_of_int (sint a sdiv sint b)"

definition wrapping_rem :: "'a::len word \<Rightarrow> 'a word \<Rightarrow> 'a word" where
  "wrapping_rem a b = word_of_int (sint a smod sint b)"

definition arithmetic_execute :: "alu_op \<Rightarrow> u64 \<Rightarrow> u64 \<Rightarrow> bool \<Rightarrow> u64" where
  "arithmetic_execute op a b is32 =
    (case op of
       Alu_Add \<Rightarrow> if is32 then sext32 (as_i32 a + as_i32 b) else a + b
     | Alu_Sub \<Rightarrow> if is32 then sext32 (as_i32 a - as_i32 b) else a - b
     | Alu_Mul \<Rightarrow> if is32 then sext32 (as_i32 a * as_i32 b) else a * b
     | Alu_Mulh \<Rightarrow>
         if is32 then signed_drop_bit 32 (sext32 (as_i32 a) * sext32 (as_i32 b))
         else ucast (signed_drop_bit 64 ((scast a :: i128) * scast b))
     | Alu_Mulhsu \<Rightarrow>
         if is32 then signed_drop_bit 32 (sext32 (as_i32 a) * ucast (as_i32 b))
         else ucast (signed_drop_bit 64 ((scast a :: i128) * ucast b))
     | Alu_Mulhu \<Rightarrow>
         if is32 then drop_bit 32 ((ucast (as_i32 a) :: u64) * ucast (as_i32 b))
         else ucast (drop_bit 64 ((ucast a :: i128) * ucast b))
     | Alu_Div \<Rightarrow>
         if is32 then (if as_i32 b = 0 then - 1
                       else sext32 (wrapping_div (as_i32 a) (as_i32 b)))
         else if b = 0 then - 1 else wrapping_div a b
     | Alu_Divu \<Rightarrow>
         if is32 then (if as_i32 b = 0 then - 1 else sext32 (as_i32 a div as_i32 b))
         else if b = 0 then - 1 else a div b
     | Alu_Rem \<Rightarrow>
         if is32 then (if as_i32 b = 0 then sext32 (as_i32 a)
                       else sext32 (wrapping_rem (as_i32 a) (as_i32 b)))
         else if b = 0 then a else wrapping_rem a b
     | Alu_Remu \<Rightarrow>
         if is32 then (if as_i32 b = 0 then sext32 (as_i32 a)
                       else sext32 (as_i32 a mod as_i32 b))
         else if b = 0 then a else a mod b
     | _ \<Rightarrow> 0)"

definition logic_execute :: "alu_op \<Rightarrow> u64 \<Rightarrow> u64 \<Rightarrow> bool \<Rightarrow> u64" where
  "logic_execute op a b is32 =
    (case op of
       Alu_Or \<Rightarrow> a OR b
     | Alu_And \<Rightarrow> a AND b
     | Alu_Xor \<Rightarrow> a XOR b
     | Alu_Slt \<Rightarrow> if is32 then bool_as (as_i32 a <s as_i32 b) else bool_as (a <s b)
     | Alu_Sltu \<Rightarrow> if is32 then bool_as (as_i32 a < as_i32 b) else bool_as (a < b)
     | _ \<Rightarrow> 0)"

definition shifts_execute :: "alu_op \<Rightarrow> u64 \<Rightarrow> u64 \<Rightarrow> bool \<Rightarrow> u64" where
  "shifts_execute op a b is32 =
    (let sh6 = unat (b AND 0x3f); sh5 = unat (as_i32 b AND 0x1f) in
     case op of
       Alu_Sll \<Rightarrow> if is32 then sext32 (push_bit sh5 (as_i32 a)) else push_bit sh6 a
     | Alu_Srl \<Rightarrow> if is32 then sext32 (drop_bit sh5 (as_i32 a)) else drop_bit sh6 a
     | Alu_Sra \<Rightarrow> if is32 then sext32 (signed_drop_bit sh5 (as_i32 a)) else signed_drop_bit sh6 a
     | _ \<Rightarrow> 0)"

definition alu_execute :: "alu_op \<Rightarrow> u64 \<Rightarrow> u64 \<Rightarrow> u64 \<Rightarrow> bool \<Rightarrow> u64" where
  "alu_execute op a b c is32 =
    (case op of
       Alu_Add \<Rightarrow> arithmetic_execute op a b is32
     | Alu_Sub \<Rightarrow> arithmetic_execute op a b is32
     | Alu_Mul \<Rightarrow> arithmetic_execute op a b is32
     | Alu_Mulh \<Rightarrow> arithmetic_execute op a b is32
     | Alu_Mulhsu \<Rightarrow> arithmetic_execute op a b is32
     | Alu_Mulhu \<Rightarrow> arithmetic_execute op a b is32
     | Alu_Div \<Rightarrow> arithmetic_execute op a b is32
     | Alu_Divu \<Rightarrow> arithmetic_execute op a b is32
     | Alu_Rem \<Rightarrow> arithmetic_execute op a b is32
     | Alu_Remu \<Rightarrow> arithmetic_execute op a b is32
     | Alu_Or \<Rightarrow> logic_execute op a b is32
     | Alu_And \<Rightarrow> logic_execute op a b is32
     | Alu_Xor \<Rightarrow> logic_execute op a b is32
     | Alu_Slt \<Rightarrow> logic_execute op a b is32
     | Alu_Sltu \<Rightarrow> logic_execute op a b is32
     | Alu_Sll \<Rightarrow> shifts_execute op a b is32
     | Alu_Srl \<Rightarrow> shifts_execute op a b is32
     | Alu_Sra \<Rightarrow> shifts_execute op a b is32
     | _ \<Rightarrow> 0)"

subsection \<open>High halves of a product\<close>

lemma sint_range64: "- (2 ^ 63) \<le> sint (a :: u64)" "sint a < 2 ^ 63"
  using sint_ge [of a] sint_lt [of a] by simp_all

lemma mult_bounds:
  fixes x y :: int
  assumes "- m \<le> x" "x \<le> m" "- n \<le> y" "y \<le> n" "0 \<le> m"
  shows "- (m * n) \<le> x * y" "x * y \<le> m * n"
proof -
  have "\<bar>x * y\<bar> \<le> m * n" unfolding abs_mult using assms by (intro mult_mono) auto
  then show "- (m * n) \<le> x * y" "x * y \<le> m * n" by auto
qed

lemma sint_scast128 [cast_simps]: "sint (scast (a :: u64) :: i128) = sint a"
  by (rule sint_up_scast) (simp add: is_up)

lemma sint_ucast128 [cast_simps]: "sint (ucast (a :: u64) :: i128) = uint a"
  by (rule bit_eqI) (auto simp: signed_ucast_eq bit_simps min_def dest: bit_imp_le_length)

lemma uint_ucast128 [cast_simps]: "uint (ucast (a :: u64) :: i128) = uint a"
  by (rule uint_up_ucast) (simp add: is_up)

lemma sint_mul128:
  assumes "- (2 ^ 127) \<le> sint x * sint y" "sint x * sint y < 2 ^ 127"
  shows "sint ((x :: i128) * y) = sint x * sint y"
  using assms by (simp add: sint_word_ariths signed_take_bit_int_eq_self)

lemma sint_high_half: "sint (ucast (signed_drop_bit 64 (w :: i128)) :: u64) = sint w div 2 ^ 64"
proof -
  have "- (2 ^ 63) \<le> sint w div 2 ^ 64" "sint w div 2 ^ 64 < 2 ^ 63"
    using sint_ge [of w] sint_lt [of w] by simp_all
  moreover have "sint (ucast (signed_drop_bit 64 w) :: u64)
      = signed_take_bit 63 (sint (signed_drop_bit 64 w))"
    by (rule bit_eqI) (auto simp: signed_ucast_eq bit_simps min_def)
  ultimately show ?thesis
    by (simp add: sint_signed_drop_bit_eq drop_bit_eq_div signed_take_bit_int_eq_self)
qed

lemma mulh_high: "sint (arithmetic_execute Alu_Mulh a b False) = sint a * sint b div 2 ^ 64"
proof -
  have "- (2 ^ 63 * 2 ^ 63) \<le> sint a * sint b" "sint a * sint b \<le> 2 ^ 63 * 2 ^ 63"
    using mult_bounds [of "2 ^ 63" "sint a" "2 ^ 63" "sint b"]
      sint_range64 [of a] sint_range64 [of b] by simp_all
  then show ?thesis
    by (simp add: arithmetic_execute_def sint_high_half sint_mul128 cast_simps)
qed

lemma mulhsu_high: "sint (arithmetic_execute Alu_Mulhsu a b False) = sint a * uint b div 2 ^ 64"
proof -
  have "- (2 ^ 63 * (2 ^ 64 - 1)) \<le> sint a * uint b" "sint a * uint b \<le> 2 ^ 63 * (2 ^ 64 - 1)"
    using mult_bounds [of "2 ^ 63" "sint a" "2 ^ 64 - 1" "uint b"]
      sint_range64 [of a] uint_lt2p [of b] uint_ge_0 [of b] by simp_all
  then show ?thesis
    by (simp add: arithmetic_execute_def sint_high_half sint_mul128 cast_simps)
qed

lemma mulhu_high: "uint (arithmetic_execute Alu_Mulhu a b False) = uint a * uint b div 2 ^ 64"
proof -
  have le: "uint a * uint b \<le> (2 ^ 64 - 1) * (2 ^ 64 - 1)"
    using uint_lt2p [of a] uint_lt2p [of b] by (intro mult_mono) simp_all
  then have "uint ((ucast a :: i128) * ucast b) = uint a * uint b"
    by (simp add: uint_word_ariths cast_simps)
  moreover from le have "uint a * uint b div 2 ^ 64 < 2 ^ 64" by simp
  moreover have "0 \<le> uint a * uint b div 2 ^ 64" by (simp add: pos_imp_zdiv_nonneg_iff)
  ultimately show ?thesis
    by (simp add: arithmetic_execute_def unsigned_ucast_eq drop_bit_eq_div uint_div
        take_bit_int_eq_self)
qed

lemma len64: "LENGTH(64) = 64"
  by simp

lemma mul_low:
  "uint (arithmetic_execute Alu_Mul a b False) = sint a * sint b mod 2 ^ 64"
  "uint (arithmetic_execute Alu_Mul a b False) = sint a * uint b mod 2 ^ 64"
  "uint (arithmetic_execute Alu_Mul a b False) = uint a * uint b mod 2 ^ 64"
proof -
  have "uint (a * b) = uint (word_of_int (sint a * sint b) :: u64)"
    "uint (a * b) = uint (word_of_int (sint a * uint b) :: u64)"
    by simp_all
  then show "uint (arithmetic_execute Alu_Mul a b False) = sint a * sint b mod 2 ^ 64"
    "uint (arithmetic_execute Alu_Mul a b False) = sint a * uint b mod 2 ^ 64"
    by (simp_all only: arithmetic_execute_def alu_op.case if_False uint_word_of_int len64)
qed (simp add: arithmetic_execute_def uint_word_ariths)

subsection \<open>Division and remainder\<close>

lemma wrapping_div_rem: "wrapping_div a b * b + wrapping_rem a b = (a :: 'a::len word)"
proof -
  have "a = word_of_int (sint a)" by simp
  also have "\<dots> = word_of_int (sint a sdiv sint b * sint b + sint a smod sint b)"
    by (simp add: sdiv_mult_smod_eq)
  also have "\<dots> = wrapping_div a b * b + wrapping_rem a b"
    by (simp add: wrapping_div_def wrapping_rem_def)
  finally show ?thesis ..
qed

lemma unsigned_div_rem: "(a div b) * b + a mod b = (a :: 'a::len word)"
  by (simp add: word_mod_div_equality)

lemma smod_abs_less: "l \<noteq> 0 \<Longrightarrow> \<bar>k smod l\<bar> < \<bar>l :: int\<bar>"
  by (simp add: smod_int_alt_def abs_mult sgn_if)

lemma sint_wrapping_rem: "sint (wrapping_rem a b) = sint a smod sint (b :: u64)"
proof (cases "b = 0")
  case False
  then have "\<bar>sint a smod sint b\<bar> < \<bar>sint b\<bar>"
    by (intro smod_abs_less) (simp add: signed_eq_0_iff)
  then have "- (2 ^ 63) \<le> sint a smod sint b" "sint a smod sint b < 2 ^ 63"
    using sint_range64 [of b] by auto
  then show ?thesis
    by (simp add: wrapping_rem_def sint_sbintrunc' signed_take_bit_int_eq_self)
qed (simp add: wrapping_rem_def)

lemma sint_wrapping_div:
  assumes "\<not> (a = 2 ^ 63 \<and> b = - 1)"
  shows "sint (wrapping_div a b) = sint a sdiv sint (b :: u64)"
proof -
  have "sint a sdiv sint b \<in> {- (2 ^ 63)..<2 ^ 63}"
  proof (cases "sint a = - (2 ^ 63)")
    case True
    have "a = word_of_int (sint a)" by simp
    also have "\<dots> = word_of_int (- (2 ^ 63))" by (simp only: True)
    finally have "a = 2 ^ 63" by simp
    with assms have "sint b \<noteq> - 1" by (simp add: sint_eq_minus_1)
    with True have "sint a sdiv sint b \<noteq> - sint a"
      using int_sdiv_negated_is_minus1 [of "sint a" "sint b"] by simp
    with True sdiv_int_range [of "sint a" "sint b"] show ?thesis by auto
  next
    case False
    with sint_range64 [of a] have "\<bar>sint a\<bar> < 2 ^ 63" by auto
    with sdiv_int_range [of "sint a" "sint b"] show ?thesis by auto
  qed
  then show ?thesis
    by (simp add: wrapping_div_def sint_sbintrunc' signed_take_bit_int_eq_self)
qed

subsection \<open>Properties\<close>

lemmas alu_dispatch = alu_execute_def

text \<open>The high and low halves that MULH, MULHSU, MULHU and MUL compute through 128-bit
  intermediates are together the exact product of the operands, read with the signedness of
  the instruction.\<close>
theorem alu_mul_exact:
  "sint a * sint b
     = sint (alu_execute Alu_Mulh a b c False) * 2 ^ 64 + uint (alu_execute Alu_Mul a b c False)
   \<and> sint a * uint b
     = sint (alu_execute Alu_Mulhsu a b c False) * 2 ^ 64 + uint (alu_execute Alu_Mul a b c False)
   \<and> uint a * uint b
     = uint (alu_execute Alu_Mulhu a b c False) * 2 ^ 64 + uint (alu_execute Alu_Mul a b c False)"
  by (simp only: alu_dispatch alu_op.case mulh_high mulhsu_high mulhu_high)
     (metis div_mult_mod_eq mul_low)

text \<open>Quotient and remainder recompose to the dividend for every operand pair, including a
  zero divisor and the overflow \<open>MIN / -1\<close>: signed and unsigned, 64-bit and W forms.\<close>
theorem alu_div_rem_recompose:
  "alu_execute Alu_Div a b c False * b + alu_execute Alu_Rem a b c False = a
   \<and> alu_execute Alu_Divu a b c False * b + alu_execute Alu_Remu a b c False = a
   \<and> as_i32 (alu_execute Alu_Div a b c True) * as_i32 b + as_i32 (alu_execute Alu_Rem a b c True)
     = as_i32 a
   \<and> as_i32 (alu_execute Alu_Divu a b c True) * as_i32 b
     + as_i32 (alu_execute Alu_Remu a b c True) = as_i32 a"
  by (simp add: alu_dispatch arithmetic_execute_def wrapping_div_rem unsigned_div_rem)

text \<open>Outside the overflow case a signed division by a non-zero divisor gives the quotient
  truncated towards zero and the remainder with the sign of the dividend, smaller in size
  than the divisor.\<close>
theorem alu_div_exact:
  assumes "b \<noteq> 0" "\<not> (a = 2 ^ 63 \<and> b = - 1)"
  shows "sint (alu_execute Alu_Div a b c False) = sint a sdiv sint b
    \<and> sint (alu_execute Alu_Rem a b c False) = sint a smod sint b
    \<and> \<bar>sint (alu_execute Alu_Rem a b c False)\<bar> < \<bar>sint b\<bar>"
  using assms smod_abs_less [of "sint b" "sint a"]
  by (simp add: alu_dispatch arithmetic_execute_def sint_wrapping_div sint_wrapping_rem
      signed_eq_0_iff)

theorem alu_div_exact_witness:
  "sint (alu_execute Alu_Div (- 7) 2 0 False) = - 3 \<and> sint (alu_execute Alu_Rem (- 7) 2 0 False) = - 1"
  using alu_div_exact [of 2 "- 7" 0] by simp

text \<open>A W-suffix operation depends only on the low words of its operands and returns a value
  sign-extended from bit 31.\<close>
theorem alu_word_form:
  assumes "op \<in> {Alu_Add, Alu_Sub, Alu_Mul, Alu_Div, Alu_Divu, Alu_Rem, Alu_Remu,
                 Alu_Sll, Alu_Srl, Alu_Sra}"
  shows "alu_execute op a b c True
       = alu_execute op (sext32 (as_i32 a)) (sext32 (as_i32 b)) c True
    \<and> alu_execute op a b c True = sext32 (as_i32 (alu_execute op a b c True))"
  using assms
  by (auto simp: alu_dispatch arithmetic_execute_def shifts_execute_def Let_def)

theorem alu_word_form_witness:
  "alu_execute Alu_Divu 0x100000008 2 0 True = alu_execute Alu_Divu 8 2 0 True"
  using alu_word_form [of Alu_Divu "0x100000008" 2 0]
  by (simp add: sext32_def as_i32_def)

end
