(* ===== verification/Arch.thy ===== *)
theory Arch
  imports Asm Decode Alu
begin

text \<open>
  The integer instructions of RV64IM as the architecture defines them: their encodings, the value they
  write and the address of the instruction that follows. Values are read as the integers they denote, so that
  nothing of the simulator's arithmetic enters; this is the reference that decoding and execution are
  compared with.
\<close>

subsection \<open>Instructions\<close>

datatype rop = ADD | SUB | SLL | SLT | SLTU | XOR' | SRL | SRA | OR' | AND'
  | ADDW | SUBW | SLLW | SRLW | SRAW
  | MUL | MULH | MULHSU | MULHU | DIV | DIVU | REM | REMU | MULW | DIVW | DIVUW | REMW | REMUW

datatype iop = ADDI | SLTI | SLTIU | XORI | ORI | ANDI | ADDIW

datatype shop = SLLI | SRLI | SRAI

datatype bop = BEQ | BNE | BLT | BGE | BLTU | BGEU

datatype rv =
    Rv_R rop "5 word" "5 word" "5 word"
  | Rv_I iop "5 word" "5 word" "12 word"
  | Rv_Sh shop "5 word" "5 word" "6 word"
  | Rv_ShW shop "5 word" "5 word" "5 word"
  | Rv_Lui "5 word" "20 word"
  | Rv_Auipc "5 word" "20 word"
  | Rv_Jal "5 word" "20 word"
  | Rv_Jalr "5 word" "5 word" "12 word"
  | Rv_B bop "5 word" "5 word" "12 word"

primrec rop_code :: "rop \<Rightarrow> u32 \<times> 3 word \<times> 7 word" where
  "rop_code ADD = (OP_REG, 0, 0)" | "rop_code SUB = (OP_REG, 0, 0x20)" | "rop_code SLL = (OP_REG, 1, 0)"
| "rop_code SLT = (OP_REG, 2, 0)" | "rop_code SLTU = (OP_REG, 3, 0)" | "rop_code XOR' = (OP_REG, 4, 0)"
| "rop_code SRL = (OP_REG, 5, 0)" | "rop_code SRA = (OP_REG, 5, 0x20)" | "rop_code OR' = (OP_REG, 6, 0)" | "rop_code AND' = (OP_REG, 7, 0)"
| "rop_code ADDW = (OP_REG_32, 0, 0)" | "rop_code SUBW = (OP_REG_32, 0, 0x20)" | "rop_code SLLW = (OP_REG_32, 1, 0)"
| "rop_code SRLW = (OP_REG_32, 5, 0)" | "rop_code SRAW = (OP_REG_32, 5, 0x20)"
| "rop_code MUL = (OP_REG, 0, 1)" | "rop_code MULH = (OP_REG, 1, 1)" | "rop_code MULHSU = (OP_REG, 2, 1)" | "rop_code MULHU = (OP_REG, 3, 1)"
| "rop_code DIV = (OP_REG, 4, 1)" | "rop_code DIVU = (OP_REG, 5, 1)" | "rop_code REM = (OP_REG, 6, 1)" | "rop_code REMU = (OP_REG, 7, 1)"
| "rop_code MULW = (OP_REG_32, 0, 1)" | "rop_code DIVW = (OP_REG_32, 4, 1)" | "rop_code DIVUW = (OP_REG_32, 5, 1)"
| "rop_code REMW = (OP_REG_32, 6, 1)" | "rop_code REMUW = (OP_REG_32, 7, 1)"

primrec iop_code :: "iop \<Rightarrow> u32 \<times> 3 word" where
  "iop_code ADDI = (OP_IMM, 0)" | "iop_code SLTI = (OP_IMM, 2)" | "iop_code SLTIU = (OP_IMM, 3)" | "iop_code XORI = (OP_IMM, 4)"
| "iop_code ORI = (OP_IMM, 6)" | "iop_code ANDI = (OP_IMM, 7)" | "iop_code ADDIW = (OP_IMM_32, 0)"

primrec shop_code :: "shop \<Rightarrow> 3 word \<times> 12 word" where
  "shop_code SLLI = (1, 0)" | "shop_code SRLI = (5, 0)" | "shop_code SRAI = (5, 0x400)"

primrec bop_code :: "bop \<Rightarrow> 3 word" where
  "bop_code BEQ = 0" | "bop_code BNE = 1" | "bop_code BLT = 4" | "bop_code BGE = 5" | "bop_code BLTU = 6" | "bop_code BGEU = 7"

primrec rv_asm :: "rv \<Rightarrow> asm" where
  "rv_asm (Rv_R op rd rs1 rs2) = (case rop_code op of (opc, f3, f7) \<Rightarrow> R_type opc rd f3 rs1 rs2 f7)"
| "rv_asm (Rv_I op rd rs1 imm) = (case iop_code op of (opc, f3) \<Rightarrow> I_type opc rd f3 rs1 imm)"
| "rv_asm (Rv_Sh op rd rs1 sh) = (case shop_code op of (f3, hi) \<Rightarrow> I_type OP_IMM rd f3 rs1 (hi OR ucast sh))"
| "rv_asm (Rv_ShW op rd rs1 sh) = (case shop_code op of (f3, hi) \<Rightarrow> I_type OP_IMM_32 rd f3 rs1 (hi OR ucast sh))"
| "rv_asm (Rv_Lui rd imm) = U_type OP_LUI rd imm"
| "rv_asm (Rv_Auipc rd imm) = U_type OP_AUIPC rd imm"
| "rv_asm (Rv_Jal rd imm) = J_type OP_JAL rd imm"
| "rv_asm (Rv_Jalr rd rs1 imm) = I_type OP_JALR rd 0 rs1 imm"
| "rv_asm (Rv_B op rs1 rs2 imm) = B_type OP_BRANCH (bop_code op) rs1 rs2 imm"

definition rv_encode :: "rv \<Rightarrow> u32" where
  "rv_encode i = asm_encode (rv_asm i)"

subsection \<open>Values\<close>

definition w64 :: "int \<Rightarrow> u64" where
  "w64 x = word_of_int x"

definition w32 :: "int \<Rightarrow> u64" where
  "w32 x = scast (word_of_int x :: 32 word)"

definition slo :: "u64 \<Rightarrow> int" where
  "slo a = sint (ucast a :: 32 word)"

definition ulo :: "u64 \<Rightarrow> int" where
  "ulo a = uint (ucast a :: 32 word)"

definition rv_div :: "int \<Rightarrow> int \<Rightarrow> int" where
  "rv_div x y = (if y = 0 then - 1 else x sdiv y)"

definition rv_rem :: "int \<Rightarrow> int \<Rightarrow> int" where
  "rv_rem x y = (if y = 0 then x else x smod y)"

text \<open>Shift amounts: the low six bits of the operand, the low five bits for a word operation.\<close>

definition sh6 :: "u64 \<Rightarrow> int" where
  "sh6 b = 2 ^ nat (uint b mod 64)"

definition sh5 :: "u64 \<Rightarrow> int" where
  "sh5 b = 2 ^ nat (uint b mod 32)"

primrec rop_value :: "rop \<Rightarrow> u64 \<Rightarrow> u64 \<Rightarrow> u64" where
  "rop_value ADD a b = w64 (sint a + sint b)"
| "rop_value SUB a b = w64 (sint a - sint b)"
| "rop_value SLL a b = w64 (uint a * sh6 b)"
| "rop_value SLT a b = of_bool (sint a < sint b)"
| "rop_value SLTU a b = of_bool (uint a < uint b)"
| "rop_value XOR' a b = a XOR b"
| "rop_value SRL a b = w64 (uint a div sh6 b)"
| "rop_value SRA a b = w64 (sint a div sh6 b)"
| "rop_value OR' a b = a OR b"
| "rop_value AND' a b = a AND b"
| "rop_value ADDW a b = w32 (slo a + slo b)"
| "rop_value SUBW a b = w32 (slo a - slo b)"
| "rop_value SLLW a b = w32 (ulo a * sh5 b)"
| "rop_value SRLW a b = w32 (ulo a div sh5 b)"
| "rop_value SRAW a b = w32 (slo a div sh5 b)"
| "rop_value MUL a b = w64 (sint a * sint b)"
| "rop_value MULH a b = w64 (sint a * sint b div 2 ^ 64)"
| "rop_value MULHSU a b = w64 (sint a * uint b div 2 ^ 64)"
| "rop_value MULHU a b = w64 (uint a * uint b div 2 ^ 64)"
| "rop_value DIV a b = w64 (rv_div (sint a) (sint b))"
| "rop_value DIVU a b = w64 (rv_div (uint a) (uint b))"
| "rop_value REM a b = w64 (rv_rem (sint a) (sint b))"
| "rop_value REMU a b = w64 (rv_rem (uint a) (uint b))"
| "rop_value MULW a b = w32 (slo a * slo b)"
| "rop_value DIVW a b = w32 (rv_div (slo a) (slo b))"
| "rop_value DIVUW a b = w32 (rv_div (ulo a) (ulo b))"
| "rop_value REMW a b = w32 (rv_rem (slo a) (slo b))"
| "rop_value REMUW a b = w32 (rv_rem (ulo a) (ulo b))"

primrec iop_rop :: "iop \<Rightarrow> rop" where
  "iop_rop ADDI = ADD" | "iop_rop SLTI = SLT" | "iop_rop SLTIU = SLTU" | "iop_rop XORI = XOR'" | "iop_rop ORI = OR'" | "iop_rop ANDI = AND'"
| "iop_rop ADDIW = ADDW"

primrec shop_rop :: "shop \<Rightarrow> rop" where
  "shop_rop SLLI = SLL" | "shop_rop SRLI = SRL" | "shop_rop SRAI = SRA"

primrec shop_ropw :: "shop \<Rightarrow> rop" where
  "shop_ropw SLLI = SLLW" | "shop_ropw SRLI = SRLW" | "shop_ropw SRAI = SRAW"

primrec bop_holds :: "bop \<Rightarrow> u64 \<Rightarrow> u64 \<Rightarrow> bool" where
  "bop_holds BEQ a b \<longleftrightarrow> a = b" | "bop_holds BNE a b \<longleftrightarrow> a \<noteq> b"
| "bop_holds BLT a b \<longleftrightarrow> sint a < sint b" | "bop_holds BGE a b \<longleftrightarrow> sint a \<ge> sint b"
| "bop_holds BLTU a b \<longleftrightarrow> uint a < uint b" | "bop_holds BGEU a b \<longleftrightarrow> uint a \<ge> uint b"

text \<open>The value written to \<open>rd\<close> (none for a branch) and the next address, from the address \<open>pc\<close>, the size \<open>sz\<close> and
  the operands \<open>a\<close> and \<open>b\<close>. Offsets of branches and jumps count half-words.\<close>

primrec rv_value :: "rv \<Rightarrow> u64 \<Rightarrow> u64 \<Rightarrow> u64 \<Rightarrow> u64 \<Rightarrow> u64 option" where
  "rv_value (Rv_R op rd rs1 rs2) pc sz a b = Some (rop_value op a b)"
| "rv_value (Rv_I op rd rs1 imm) pc sz a b = Some (rop_value (iop_rop op) a (scast imm))"
| "rv_value (Rv_Sh op rd rs1 sh) pc sz a b = Some (rop_value (shop_rop op) a (ucast sh))"
| "rv_value (Rv_ShW op rd rs1 sh) pc sz a b = Some (rop_value (shop_ropw op) a (ucast sh))"
| "rv_value (Rv_Lui rd imm) pc sz a b = Some (w64 (sint imm * 2 ^ 12))"
| "rv_value (Rv_Auipc rd imm) pc sz a b = Some (pc + w64 (sint imm * 2 ^ 12))"
| "rv_value (Rv_Jal rd imm) pc sz a b = Some (pc + sz)"
| "rv_value (Rv_Jalr rd rs1 imm) pc sz a b = Some (pc + sz)"
| "rv_value (Rv_B op rs1 rs2 imm) pc sz a b = None"

primrec rv_next :: "rv \<Rightarrow> u64 \<Rightarrow> u64 \<Rightarrow> u64 \<Rightarrow> u64 \<Rightarrow> u64" where
  "rv_next (Rv_R op rd rs1 rs2) pc sz a b = pc + sz"
| "rv_next (Rv_I op rd rs1 imm) pc sz a b = pc + sz"
| "rv_next (Rv_Sh op rd rs1 sh) pc sz a b = pc + sz"
| "rv_next (Rv_ShW op rd rs1 sh) pc sz a b = pc + sz"
| "rv_next (Rv_Lui rd imm) pc sz a b = pc + sz"
| "rv_next (Rv_Auipc rd imm) pc sz a b = pc + sz"
| "rv_next (Rv_Jal rd imm) pc sz a b = pc + w64 (2 * sint imm)"
| "rv_next (Rv_Jalr rd rs1 imm) pc sz a b = (a + w64 (sint imm)) AND NOT 1"
| "rv_next (Rv_B op rs1 rs2 imm) pc sz a b = (if bop_holds op a b then pc + w64 (2 * sint imm) else pc + sz)"

primrec rv_jumps :: "rv \<Rightarrow> bool" where
  "rv_jumps (Rv_R op rd rs1 rs2) = False" | "rv_jumps (Rv_I op rd rs1 imm) = False" | "rv_jumps (Rv_Sh op rd rs1 sh) = False"
| "rv_jumps (Rv_ShW op rd rs1 sh) = False" | "rv_jumps (Rv_Lui rd imm) = False" | "rv_jumps (Rv_Auipc rd imm) = False"
| "rv_jumps (Rv_Jal rd imm) = True" | "rv_jumps (Rv_Jalr rd rs1 imm) = True" | "rv_jumps (Rv_B op rs1 rs2 imm) = True"

subsection \<open>The ALU computes these values\<close>

primrec rop_alu :: "rop \<Rightarrow> alu_op" where
  "rop_alu ADD = Alu_Add" | "rop_alu SUB = Alu_Sub" | "rop_alu SLL = Alu_Sll" | "rop_alu SLT = Alu_Slt" | "rop_alu SLTU = Alu_Sltu"
| "rop_alu XOR' = Alu_Xor" | "rop_alu SRL = Alu_Srl" | "rop_alu SRA = Alu_Sra" | "rop_alu OR' = Alu_Or" | "rop_alu AND' = Alu_And"
| "rop_alu ADDW = Alu_Add" | "rop_alu SUBW = Alu_Sub" | "rop_alu SLLW = Alu_Sll" | "rop_alu SRLW = Alu_Srl" | "rop_alu SRAW = Alu_Sra"
| "rop_alu MUL = Alu_Mul" | "rop_alu MULH = Alu_Mulh" | "rop_alu MULHSU = Alu_Mulhsu" | "rop_alu MULHU = Alu_Mulhu"
| "rop_alu DIV = Alu_Div" | "rop_alu DIVU = Alu_Divu" | "rop_alu REM = Alu_Rem" | "rop_alu REMU = Alu_Remu" | "rop_alu MULW = Alu_Mul"
| "rop_alu DIVW = Alu_Div" | "rop_alu DIVUW = Alu_Divu" | "rop_alu REMW = Alu_Rem" | "rop_alu REMUW = Alu_Remu"

definition rop_is32 :: "rop \<Rightarrow> bool" where
  "rop_is32 op \<longleftrightarrow> op \<in> {ADDW, SUBW, SLLW, SRLW, SRAW, MULW, DIVW, DIVUW, REMW, REMUW}"

lemma w64_sint [simp]: "w64 (sint a) = a" "w64 (uint a) = a"
  by (simp_all add: w64_def)

lemma w64_eq: "sint a = x \<Longrightarrow> a = w64 x" "uint a = x \<Longrightarrow> a = w64 x"
  by auto

lemma nat_mod_unat:
  "nat (uint (b :: 'a::len word) mod 64) = unat b mod 64" "nat (uint b mod 32) = unat b mod 32"
  by (metis nat_mod_distrib nat_numeral uint_nonnegative unat_eq_nat_uint zero_le_numeral)+

lemma sh6_amount: "sh6 b = 2 ^ unat (b AND 0x3F)"
proof -
  have "unat (take_bit 6 b) = unat b mod 2 ^ 6" by (simp only: unsigned_take_bit_eq) (simp only: take_bit_eq_mod)
  then show ?thesis by (simp add: sh6_def nat_mod_unat and_masks)
qed

lemma sh5_amount: "sh5 b = 2 ^ unat (as_i32 b AND 0x1F)"
proof -
  have "unat (take_bit 5 (as_i32 b)) = unat b mod 2 ^ 5"
    by (simp only: unsigned_take_bit_eq as_i32_def unsigned_ucast_eq take_bit_take_bit) (simp add: take_bit_eq_mod)
  then show ?thesis by (simp add: sh5_def nat_mod_unat and_masks)
qed

text \<open>Operations on words as operations on the integers they denote.\<close>

lemma push_bit_int: "push_bit n a = word_of_int (uint a * 2 ^ n)" for a :: "'a::len word"
  by (simp add: push_bit_eq_mult)

lemma drop_bit_int: "drop_bit n a = word_of_int (uint a div 2 ^ n)" for a :: "'a::len word"
proof -
  have "uint (drop_bit n a) = uint a div 2 ^ n" 
    by (simp only: unsigned_drop_bit_eq take_bit_int_eq_self uint_nonnegative uint_lt2p) (simp only: drop_bit_eq_div)
  moreover have "drop_bit n a = word_of_int (uint (drop_bit n a))" by simp
  ultimately show ?thesis by (simp only:)
qed

lemma signed_drop_bit_int: "signed_drop_bit n a = word_of_int (sint a div 2 ^ n)" for a :: "'a::len word"
proof -
  have "sint (signed_drop_bit n a) = sint a div 2 ^ n" by (simp only: sint_signed_drop_bit_eq) (simp only: drop_bit_eq_div)
  moreover have "signed_drop_bit n a = word_of_int (sint (signed_drop_bit n a))" by simp
  ultimately show ?thesis by simp
qed

lemma unsigned_div_int: "(a :: 'a::len word) div b = word_of_int (uint a div uint b)" "a mod b = word_of_int (uint a mod uint b)"
  by (simp_all add: word_div_def word_mod_def)

lemma sdiv_nonneg: "0 \<le> x \<Longrightarrow> 0 \<le> y \<Longrightarrow> x sdiv y = x div (y :: int)" "0 \<le> x \<Longrightarrow> 0 \<le> y \<Longrightarrow> x smod y = x mod (y :: int)"
  by (cases "x = 0"; cases "y = 0"; simp add: signed_divide_int_def signed_modulo_int_def)+

lemmas int_forms = push_bit_int drop_bit_int signed_drop_bit_int unsigned_div_int

lemma w32_sext: "w32 x = sext32 (word_of_int x)"
  by (simp add: w32_def sext32_def)

lemma sext32_ones [simp]: "sext32 (- 1) = - 1"
  by (rule bit_word_eqI) (auto simp: sext32_def bit_simps)

lemma lo_as: "slo a = sint (as_i32 a)" "ulo a = uint (as_i32 a)"
  by (simp_all add: slo_def ulo_def as_i32_def)

lemma alu_arith:
  "alu_execute Alu_Add a b c False = rop_value ADD a b" "alu_execute Alu_Sub a b c False = rop_value SUB a b"
  "alu_execute Alu_Add a b c True = rop_value ADDW a b" "alu_execute Alu_Sub a b c True = rop_value SUBW a b"
  "alu_execute Alu_Mul a b c False = rop_value MUL a b" "alu_execute Alu_Mul a b c True = rop_value MULW a b"
  "alu_execute Alu_Mulh a b c False = rop_value MULH a b" "alu_execute Alu_Mulhsu a b c False = rop_value MULHSU a b"
  "alu_execute Alu_Mulhu a b c False = rop_value MULHU a b"
  by (simp_all add: alu_execute_def w64_eq(1) [OF mulh_high] w64_eq(1) [OF mulhsu_high] w64_eq(2) [OF mulhu_high])
    (simp_all add: arithmetic_execute_def w64_def w32_sext lo_as)

lemma alu_divide:
  "alu_execute Alu_Div a b c False = rop_value DIV a b" "alu_execute Alu_Divu a b c False = rop_value DIVU a b"
  "alu_execute Alu_Rem a b c False = rop_value REM a b" "alu_execute Alu_Remu a b c False = rop_value REMU a b"
  "alu_execute Alu_Div a b c True = rop_value DIVW a b" "alu_execute Alu_Divu a b c True = rop_value DIVUW a b"
  "alu_execute Alu_Rem a b c True = rop_value REMW a b" "alu_execute Alu_Remu a b c True = rop_value REMUW a b"
  by (simp_all add: alu_execute_def arithmetic_execute_def rv_div_def rv_rem_def wrapping_div_def wrapping_rem_def lo_as w64_def w32_sext
      unsigned_div_int sdiv_nonneg signed_eq_0_iff uint_0_iff)

lemma alu_logic:
  "alu_execute Alu_Xor a b c False = rop_value XOR' a b" "alu_execute Alu_Or a b c False = rop_value OR' a b"
  "alu_execute Alu_And a b c False = rop_value AND' a b" "alu_execute Alu_Slt a b c False = rop_value SLT a b"
  "alu_execute Alu_Sltu a b c False = rop_value SLTU a b"
  by (simp_all add: alu_execute_def logic_execute_def bool_as_def word_sless_alt word_less_def)

lemma alu_shift:
  "alu_execute Alu_Sll a b c False = rop_value SLL a b" "alu_execute Alu_Srl a b c False = rop_value SRL a b"
  "alu_execute Alu_Sra a b c False = rop_value SRA a b" "alu_execute Alu_Sll a b c True = rop_value SLLW a b"
  "alu_execute Alu_Srl a b c True = rop_value SRLW a b" "alu_execute Alu_Sra a b c True = rop_value SRAW a b"
  by (simp_all only: alu_execute_def shifts_execute_def Let_def int_forms sh6_amount sh5_amount lo_as w64_def w32_sext rop_value.simps
      alu_op.case if_True if_False)

lemma alu_rop: "alu_execute (rop_alu op) a b c (rop_is32 op) = rop_value op a b"
  by (cases op) (simp_all only: rop_alu.simps rop_is32_def alu_arith alu_divide alu_logic alu_shift insert_iff empty_iff rop.distinct simp_thms)

subsection \<open>Decoding gives their control signals\<close>

abbreviation alu_ctrl :: "rop \<Rightarrow> control_signals" where
  "alu_ctrl op \<equiv> default_ctrl\<lparr> cs_reg_write := True, cs_is_rv32 := rop_is32 op, cs_alu := rop_alu op \<rparr>"

primrec rv_ctrl :: "rv \<Rightarrow> control_signals" where
  "rv_ctrl (Rv_R op rd rs1 rs2) = (alu_ctrl op)\<lparr> cs_b_src := B_Reg2 \<rparr>"
| "rv_ctrl (Rv_I op rd rs1 imm) = alu_ctrl (iop_rop op)"
| "rv_ctrl (Rv_Sh op rd rs1 sh) = alu_ctrl (shop_rop op)"
| "rv_ctrl (Rv_ShW op rd rs1 sh) = alu_ctrl (shop_ropw op)"
| "rv_ctrl (Rv_Lui rd imm) = default_ctrl\<lparr> cs_reg_write := True, cs_a_src := A_Zero \<rparr>"
| "rv_ctrl (Rv_Auipc rd imm) = default_ctrl\<lparr> cs_reg_write := True, cs_a_src := A_Pc \<rparr>"
| "rv_ctrl (Rv_Jal rd imm) = default_ctrl\<lparr> cs_reg_write := True, cs_control_flow := CF_Jump \<rparr>"
| "rv_ctrl (Rv_Jalr rd rs1 imm) = default_ctrl\<lparr> cs_reg_write := True, cs_control_flow := CF_Jump \<rparr>"
| "rv_ctrl (Rv_B op rs1 rs2 imm) = default_ctrl\<lparr> cs_control_flow := CF_Branch, cs_b_src := B_Reg2 \<rparr>"

lemma base_ctrl: "default_ctrl\<lparr> cs_a_src := A_Reg1, cs_b_src := B_Imm, cs_alu := Alu_Add \<rparr> = default_ctrl"
  by (simp add: default_ctrl_def)

lemma decode_groups:
  "d_opcode d = OP_REG \<or> d_opcode d = OP_REG_32 \<Longrightarrow> decode_instruction inst pc d = or_illegal inst (decode_reg d default_ctrl)"
  "d_opcode d = OP_IMM \<or> d_opcode d = OP_IMM_32 \<Longrightarrow> decode_instruction inst pc d = or_illegal inst (decode_imm d default_ctrl)"
  unfolding decode_instruction_def base_ctrl Let_def by (elim disjE; simp add: isa_consts)+

lemma rv_asm_wf: "asm_wf (rv_asm i)"
proof (cases i)
  case (Rv_R op rd rs1 rs2)
  then show ?thesis by (cases op) simp_all
next
  case (Rv_I op rd rs1 imm)
  then show ?thesis by (cases op) simp_all
qed (auto split: prod.split)

lemma rv_fields: "asm_fields (rv_asm i) (decode (rv_encode i))"
  unfolding rv_encode_def by (intro asm_fields_decode rv_asm_wf)

lemma funct7_i_type:
  "inst_funct7 (asm_encode (I_type opc rd f3 rs1 imm)) AND 0x20 \<noteq> 0 \<longleftrightarrow> bit imm 10"
proof -
  define w where "w = asm_encode (I_type opc rd f3 rs1 imm)"
  have "take_bit 12 (drop_bit 20 w) = ucast imm"
    unfolding w_def by (subst asm_encode.simps, subst cat_field) (simp_all add: take_ucast)
  then have "bit (take_bit 12 (drop_bit 20 w)) 10 = bit (ucast imm :: u32) 10" by simp
  then have "bit w 30 = bit imm 10" by (simp add: bit_simps)
  moreover have "inst_funct7 w AND 2 ^ 5 \<noteq> 0 \<longleftrightarrow> bit w 30"
    unfolding and_exp_eq_0_iff_not_bit by (simp add: inst_funct7_def and_masks bit_simps)
  ultimately show ?thesis unfolding w_def by simp
qed

lemma rv_decode_reg: "decode_instruction inst pc (decode (rv_encode (Rv_R op rd rs1 rs2))) = Inr (rv_ctrl (Rv_R op rd rs1 rs2))"
  using rv_fields [of "Rv_R op rd rs1 rs2"]
  by (cases op) (simp_all add: decode_groups decode_reg_def muldiv_table_def alu_reg_table_def Let_def or_illegal_def rop_is32_def
      isa_consts default_ctrl_def)

lemma rv_decode_imm: "decode_instruction inst pc (decode (rv_encode (Rv_I op rd rs1 imm))) = Inr (rv_ctrl (Rv_I op rd rs1 imm))"
  using rv_fields [of "Rv_I op rd rs1 imm"]
  by (cases op) (simp_all add: decode_groups decode_imm_def imm_table_def Let_def or_illegal_def rop_is32_def
      isa_consts default_ctrl_def)

lemma shift_hi_bit: "bit (snd (shop_code op) OR ucast (sh :: 6 word) :: 12 word) 10 \<longleftrightarrow> op = SRAI"
  "bit (snd (shop_code op) OR ucast (sh' :: 5 word) :: 12 word) 10 \<longleftrightarrow> op = SRAI"
  by (cases op; simp add: bit_simps; (auto dest: bit_imp_le_length)?)+

lemma rv_decode_shift:
  "decode_instruction inst pc (decode (rv_encode (Rv_Sh op rd rs1 sh))) = Inr (rv_ctrl (Rv_Sh op rd rs1 sh))"
  "decode_instruction inst pc (decode (rv_encode (Rv_ShW op rd rs1 sh'))) = Inr (rv_ctrl (Rv_ShW op rd rs1 sh'))"
proof -
  have f7: "d_funct7 (decode w) = inst_funct7 w" for w by (simp add: decode_def Let_def)
  have "d_funct7 (decode (rv_encode (Rv_Sh op rd rs1 sh))) AND 0x20 \<noteq> 0 \<longleftrightarrow> op = SRAI"
    "d_funct7 (decode (rv_encode (Rv_ShW op rd rs1 sh'))) AND 0x20 \<noteq> 0 \<longleftrightarrow> op = SRAI"
    unfolding f7 rv_encode_def rv_asm.simps by (simp_all only: split_beta funct7_i_type shift_hi_bit)
  with rv_fields [of "Rv_Sh op rd rs1 sh"] rv_fields [of "Rv_ShW op rd rs1 sh'"]
  show "decode_instruction inst pc (decode (rv_encode (Rv_Sh op rd rs1 sh))) = Inr (rv_ctrl (Rv_Sh op rd rs1 sh))"
    "decode_instruction inst pc (decode (rv_encode (Rv_ShW op rd rs1 sh'))) = Inr (rv_ctrl (Rv_ShW op rd rs1 sh'))"
    by (cases op; simp add: decode_groups decode_imm_def imm_table_def Let_def or_illegal_def rop_is32_def isa_consts default_ctrl_def)+
qed

lemma rv_decode: "decode_instruction inst pc (decode (rv_encode i)) = Inr (rv_ctrl i)"
proof (cases i)
  case (Rv_R op rd rs1 rs2)
  then show ?thesis by (simp only: rv_decode_reg)
next
  case (Rv_I op rd rs1 imm)
  then show ?thesis by (simp only: rv_decode_imm)
next
  case (Rv_Sh op rd rs1 sh)
  then show ?thesis by (simp only: rv_decode_shift)
next
  case (Rv_ShW op rd rs1 sh)
  then show ?thesis by (simp only: rv_decode_shift)
qed (use rv_fields [of i] in \<open>simp_all add: decode_instruction_def base_ctrl Let_def isa_consts default_ctrl_def\<close>)

end
