(* ===== verification/Execute.thy ===== *)
theory Execute
  imports Commit Arch
begin

text \<open>
  The execute stages of the two backends (\<open>backend/o3/execute.rs\<close>, \<open>backend/inorder/execute.rs\<close>): operand
  selection, the ALU, branch and jump resolution, the privilege checks of system instructions and CSR
  accesses, whose writes are left to commit.

  The floating-point unit is the argument \<open>fpu\<close> (its operation, the operands and the width give a result and
  the exception flags); the calls on the branch predictor are collected in order as a list of events.

  Below: every integer instruction, taken from its encoding through decode and execute, has the result and
  the successor that the architecture gives it; mispredictions are found exactly; CSR accesses are refused
  exactly when the privilege rules refuse them.
\<close>

subsection \<open>Results\<close>

type_synonym fpu = "alu_op \<Rightarrow> u64 \<Rightarrow> u64 \<Rightarrow> u64 \<Rightarrow> bool \<Rightarrow> u64 \<times> u8"

record ex_mem1_entry =
  xm_rob_tag :: rob_tag
  xm_pc :: u64
  xm_inst :: u32
  xm_inst_size :: inst_size
  xm_rd :: reg_idx
  xm_rd_phys :: phys_reg
  xm_alu :: u64
  xm_store_data :: u64
  xm_ctrl :: control_signals
  xm_trap :: "trap option"
  xm_exception_stage :: "exception_stage option"
  xm_fp_flags :: u8
  xm_sfence_vma :: "sfence_vma_info option"

datatype bp_event =
    Bp_RepairHistory ghr
  | Bp_Speculate u64 bool
  | Bp_RestoreRas nat
  | Bp_UpdateBtb u64 u64
  | Bp_OnCall u64 u64 u64
  | Bp_OnReturn

record exec_result =
  xr_rob :: rob
  xr_cpu :: cpu
  xr_out :: ex_mem1_entry
  xr_flush :: bool
  xr_bp :: "bp_event list"

text \<open>\<open>make_result\<close>: the entry with an ALU value and store data, everything else from the instruction.\<close>

definition mk_result :: "rename_issue_entry \<Rightarrow> u64 \<Rightarrow> u64 \<Rightarrow> ex_mem1_entry" where
  "mk_result e alu sd = \<lparr> xm_rob_tag = ri_rob_tag e, xm_pc = ri_pc e, xm_inst = ri_inst e, xm_inst_size = ri_inst_size e,
     xm_rd = ri_rd e, xm_rd_phys = ri_rd_phys e, xm_alu = alu, xm_store_data = sd, xm_ctrl = ri_ctrl e, xm_trap = None,
     xm_exception_stage = None, xm_fp_flags = 0, xm_sfence_vma = None \<rparr>"

definition done_with :: "rob \<Rightarrow> cpu \<Rightarrow> ex_mem1_entry \<Rightarrow> bool \<Rightarrow> exec_result" where
  "done_with r s x fl = \<lparr> xr_rob = r, xr_cpu = s, xr_out = x, xr_flush = fl, xr_bp = [] \<rparr>"

definition illegal :: "rename_issue_entry \<Rightarrow> rob \<Rightarrow> rob" where
  "illegal e r = rob_fault (ri_rob_tag e) (IllegalInstruction (ri_inst e)) Stage_Execute r"

subsection \<open>Operands and arithmetic\<close>

definition op_a_of :: "rename_issue_entry \<Rightarrow> u64" where
  "op_a_of e = (case cs_a_src (ri_ctrl e) of A_Reg1 \<Rightarrow> ri_rv1 e | A_Pc \<Rightarrow> ri_pc e | A_Zero \<Rightarrow> 0)"

definition op_b_of :: "rename_issue_entry \<Rightarrow> u64" where
  "op_b_of e = (case cs_b_src (ri_ctrl e) of B_Reg2 \<Rightarrow> ri_rv2 e | B_Imm \<Rightarrow> ri_imm e | B_Zero \<Rightarrow> 0)"

definition box_f32 :: "u32 \<Rightarrow> u64" where
  "box_f32 w = 0xFFFFFFFF00000000 OR ucast w"

definition is_fp_op :: "alu_op \<Rightarrow> bool" where
  "is_fp_op op \<longleftrightarrow> op \<in> {Alu_FAdd, Alu_FSub, Alu_FMul, Alu_FDiv, Alu_FSqrt, Alu_FMin, Alu_FMax, Alu_FMAdd, Alu_FMSub, Alu_FNMAdd,
     Alu_FNMSub, Alu_FSgnJ, Alu_FSgnJN, Alu_FSgnJX, Alu_FEq, Alu_FLt, Alu_FLe, Alu_FClass, Alu_FCvtWS, Alu_FCvtWUS, Alu_FCvtLS,
     Alu_FCvtLUS, Alu_FMvToX}"

definition is_fp_convert :: "alu_op \<Rightarrow> bool" where
  "is_fp_convert op \<longleftrightarrow> op \<in> {Alu_FCvtSW, Alu_FCvtSL, Alu_FCvtSWU, Alu_FCvtSLU, Alu_FCvtSD, Alu_FCvtDS}"

definition compute_alu :: "fpu \<Rightarrow> alu_op \<Rightarrow> u64 \<Rightarrow> u64 \<Rightarrow> u64 \<Rightarrow> bool \<Rightarrow> u64 \<times> u8" where
  "compute_alu fpu op a b c is32 =
    (if is_fp_convert op then fpu op a b c is32
     else if op = Alu_FMvToF then (if is32 then box_f32 (ucast a) else a, 0)
     else if is_fp_op op then fpu op a b c is32
     else (alu_execute op a b c is32, 0))"

subsection \<open>Branches and jumps\<close>

definition branch_taken :: "u32 \<Rightarrow> u64 \<Rightarrow> u64 \<Rightarrow> bool" where
  "branch_taken inst a b =
    (let f3 = drop_bit 12 inst AND 7
     in if f3 = 0 then a = b
        else if f3 = 1 then a \<noteq> b
        else if f3 = 4 then a <s b
        else if f3 = 5 then b <=s a
        else if f3 = 6 then a < b
        else if f3 = 7 then b \<le> a
        else False)"

definition fallthrough :: "rename_issue_entry \<Rightarrow> u64" where
  "fallthrough e = ri_pc e + inst_size_as_u64 (ri_inst_size e)"

definition predicted_next :: "rename_issue_entry \<Rightarrow> u64" where
  "predicted_next e = (if ri_pred_taken e then ri_pred_target e else fallthrough e)"

definition resolve_branch :: "rename_issue_entry \<Rightarrow> exec_result \<Rightarrow> exec_result" where
  "resolve_branch e x =
    (let taken = branch_taken (ri_inst e) (op_a_of e) (op_b_of e);
         actual_target = ri_pc e + ri_imm e;
         actual_next_pc = (if taken then actual_target else fallthrough e);
         mispredicted = (predicted_next e \<noteq> actual_next_pc);
         r = rob_set_bp_update (ri_rob_tag e) (ri_pc e) \<lparr> bo_taken = taken, bo_mispredicted = mispredicted \<rparr>
               (if taken then Some actual_target else None) (ri_ghr_snapshot e) (xr_rob x)
     in if mispredicted
        then x\<lparr> xr_rob := r, xr_cpu := (xr_cpu x)\<lparr> cpu_pc := actual_next_pc, cpu_redirect_pending := True \<rparr>, xr_flush := True,
               xr_bp := xr_bp x @ [Bp_RepairHistory (ri_ghr_snapshot e), Bp_Speculate (ri_pc e) taken, Bp_RestoreRas (ri_ras_snapshot e)] \<rparr>
        else x\<lparr> xr_rob := r \<rparr>)"

definition is_link :: "reg_idx \<Rightarrow> bool" where
  "is_link r \<longleftrightarrow> r = 1 \<or> r = 5"

definition is_jalr :: "rename_issue_entry \<Rightarrow> bool" where
  "is_jalr e \<longleftrightarrow> ri_inst e AND 0x7F = OP_JALR"

definition jump_target :: "rename_issue_entry \<Rightarrow> u64" where
  "jump_target e = (if is_jalr e then (ri_rv1 e + ri_imm e) AND NOT 1 else ri_pc e + ri_imm e)"

definition resolve_jump :: "rename_issue_entry \<Rightarrow> exec_result \<Rightarrow> exec_result" where
  "resolve_jump e x =
    (let rd_link = is_link (ri_rd e); rs1_link = (is_jalr e \<and> is_link (ri_rs1 e));
         actual_target = jump_target e; mispredicted = (actual_target \<noteq> predicted_next e);
         ret_addr = fallthrough e;
         btb = (if rd_link then [] else [Bp_UpdateBtb (ri_pc e) actual_target]);
         repair = (if mispredicted then [Bp_RepairHistory (ri_ghr_snapshot e), Bp_RestoreRas (ri_ras_snapshot e)] else []);
         ras = (if rd_link \<and> rs1_link \<and> ri_rd e \<noteq> ri_rs1 e then [Bp_OnReturn, Bp_OnCall (ri_pc e) ret_addr actual_target]
                else if rd_link then [Bp_OnCall (ri_pc e) ret_addr actual_target]
                else if rs1_link then [Bp_OnReturn] else [])
     in x\<lparr> xr_rob := rob_set_bp_target (ri_rob_tag e) actual_target (xr_rob x),
           xr_cpu := (if mispredicted then (xr_cpu x)\<lparr> cpu_pc := actual_target, cpu_redirect_pending := True \<rparr> else xr_cpu x),
           xr_flush := (xr_flush x \<or> mispredicted),
           xr_bp := xr_bp x @ btb @ repair @ ras \<rparr>)"

subsection \<open>CSR accesses\<close>

definition counter_bit :: "csr_addr \<Rightarrow> nat option" where
  "counter_bit a = (if a = CYCLE then Some 0 else if a = TIME then Some 1 else if a = INSTRET then Some 2 else None)"

definition counter_denied :: "csr_addr \<Rightarrow> cpu \<Rightarrow> bool" where
  "counter_denied a s = (case counter_bit a of
     None \<Rightarrow> False
   | Some b \<Rightarrow> let mask = push_bit b 1 :: u64; c = cpu_csrs s in
       (case cpu_privilege s of
          Supervisor \<Rightarrow> csr_mcounteren c AND mask = 0
        | User \<Rightarrow> csr_mcounteren c AND mask = 0 \<or> csr_scounteren c AND mask = 0
        | Machine \<Rightarrow> False))"

definition csr_would_write :: "rename_issue_entry \<Rightarrow> bool" where
  "csr_would_write e = (case cs_csr_op (ri_ctrl e) of
     Csr_Rw \<Rightarrow> True | Csr_Rwi \<Rightarrow> True
   | Csr_Rs \<Rightarrow> \<not> reg_is_zero (ri_rs1 e) | Csr_Rc \<Rightarrow> \<not> reg_is_zero (ri_rs1 e)
   | Csr_Rsi \<Rightarrow> ri_rs1 e AND 0x1F \<noteq> 0 | Csr_Rci \<Rightarrow> ri_rs1 e AND 0x1F \<noteq> 0
   | Csr_None \<Rightarrow> False)"

definition tvm :: "cpu \<Rightarrow> bool" where
  "tvm s \<longleftrightarrow> drop_bit 20 (csr_mstatus (cpu_csrs s)) AND 1 \<noteq> 0"

definition csr_refused :: "rename_issue_entry \<Rightarrow> cpu \<Rightarrow> bool" where
  "csr_refused e s \<longleftrightarrow>
    (let a = cs_csr_addr (ri_ctrl e) in
       a = SATP \<and> cpu_privilege s = Supervisor \<and> tvm s
     \<or> counter_denied a s
     \<or> privilege_to_u8 (cpu_privilege s) < csr_privilege_level a
     \<or> csr_is_read_only a \<and> csr_would_write e)"

definition csr_source :: "rename_issue_entry \<Rightarrow> u64" where
  "csr_source e = (case cs_csr_op (ri_ctrl e) of
     Csr_Rwi \<Rightarrow> ucast (ri_rs1 e) AND 0x1F | Csr_Rsi \<Rightarrow> ucast (ri_rs1 e) AND 0x1F | Csr_Rci \<Rightarrow> ucast (ri_rs1 e) AND 0x1F | _ \<Rightarrow> ri_rv1 e)"

definition csr_new_value :: "csr_op \<Rightarrow> u64 \<Rightarrow> u64 \<Rightarrow> u64" where
  "csr_new_value op old src = (case op of
     Csr_Rw \<Rightarrow> src | Csr_Rwi \<Rightarrow> src | Csr_Rs \<Rightarrow> old OR src | Csr_Rsi \<Rightarrow> old OR src
   | Csr_Rc \<Rightarrow> old AND NOT src | Csr_Rci \<Rightarrow> old AND NOT src | Csr_None \<Rightarrow> old)"

text \<open>The flags that older instructions have raised and that are not committed yet become visible first;
  \<open>extra\<close> are the flags of in-flight instructions that the in-order backend adds.\<close>

definition drain_flags :: "rename_issue_entry \<Rightarrow> u8 \<Rightarrow> rob \<Rightarrow> cpu \<Rightarrow> rob \<times> cpu" where
  "drain_flags e extra r s =
    (if cs_csr_addr (ri_ctrl e) \<in> {FFLAGS, FCSR, FRM} then
       let (acc, r1) = rob_drain_fp_flags_before (ri_rob_tag e) r
       in (r1, upd_csrs (\<lambda>c. c\<lparr> csr_fflags := csr_fflags c OR ucast (acc OR extra) \<rparr>) s)
     else (r, s))"

definition record_csr :: "rename_issue_entry \<Rightarrow> u64 \<Rightarrow> rob \<Rightarrow> rob" where
  "record_csr e old r =
    (if csr_would_write e then
       rob_set_csr_update (ri_rob_tag e) \<lparr> cu_addr = cs_csr_addr (ri_ctrl e), cu_old_val = old,
         cu_new_val = csr_new_value (cs_csr_op (ri_ctrl e)) old (csr_source e), cu_applied = False \<rparr> r
     else r)"

definition redirect_to :: "u64 \<Rightarrow> cpu \<Rightarrow> cpu" where
  "redirect_to pc s = s\<lparr> cpu_pc := pc, cpu_redirect_pending := True \<rparr>"

definition execute_csr :: "rename_issue_entry \<Rightarrow> rob \<Rightarrow> cpu \<Rightarrow> exec_result" where
  "execute_csr e r s =
    (if csr_refused e s then done_with (illegal e r) s (mk_result e 0 0) True
     else let (r1, s1) = drain_flags e 0 r s; old = csr_read s1 (cs_csr_addr (ri_ctrl e));
              flush = csr_would_write e
          in done_with (record_csr e old r1) (if flush then redirect_to (fallthrough e) s1 else s1) (mk_result e old (ri_rv2 e)) flush)"

subsection \<open>System instructions\<close>

text \<open>Refused returns, waits and fences; an unprivileged \<open>SFENCE.VMA\<close> is not among them.\<close>

definition mstatus_bit :: "nat \<Rightarrow> cpu \<Rightarrow> bool" where
  "mstatus_bit n s \<longleftrightarrow> drop_bit n (csr_mstatus (cpu_csrs s)) AND 1 \<noteq> 0"

definition system_refused :: "system_op \<Rightarrow> cpu \<Rightarrow> bool" where
  "system_refused op s = (case op of
     Sys_Mret \<Rightarrow> cpu_privilege s \<noteq> Machine
   | Sys_Sret \<Rightarrow> cpu_privilege s = User \<or> cpu_privilege s = Supervisor \<and> mstatus_bit 22 s
   | Sys_Wfi \<Rightarrow> cpu_privilege s = User \<or> cpu_privilege s = Supervisor \<and> mstatus_bit 21 s
   | Sys_SfenceVma \<Rightarrow> cpu_privilege s = Supervisor \<and> tvm s
   | _ \<Rightarrow> False)"

definition ecall_trap :: "privilege_mode \<Rightarrow> trap" where
  "ecall_trap p = (case p of User \<Rightarrow> EnvironmentCallFromUMode | Supervisor \<Rightarrow> EnvironmentCallFromSMode | Machine \<Rightarrow> EnvironmentCallFromMMode)"

definition sfence_info :: "rename_issue_entry \<Rightarrow> sfence_vma_info" where
  "sfence_info e = \<lparr> sf_rs1_idx = ri_rs1 e, sf_rs2_idx = ri_rs2 e, sf_rs1_val = ri_rv1 e, sf_rs2_val = ri_rv2 e \<rparr>"

definition execute_system :: "rename_issue_entry \<Rightarrow> rob \<Rightarrow> cpu \<Rightarrow> exec_result" where
  "execute_system e r s =
    (let op = cs_system_op (ri_ctrl e); r1 = (if system_refused op s then illegal e r else r)
     in if op = Sys_Mret \<or> op = Sys_Sret \<or> op = Sys_Wfi then done_with r1 s (mk_result e 0 0) True
        else if op = Sys_SfenceVma then
          (if system_refused op s then done_with r1 s (mk_result e 0 (ri_rv2 e)) True
           else done_with r s ((mk_result e 0 (ri_rv2 e))\<lparr> xm_sfence_vma := Some (sfence_info e) \<rparr>) False)
        else if ri_inst e = ECALL then
          done_with (rob_fault (ri_rob_tag e) (ecall_trap (cpu_privilege s)) Stage_Execute r) s (mk_result e 0 0) True
        else if cs_csr_op (ri_ctrl e) \<noteq> Csr_None then execute_csr e r s
        else done_with r s (mk_result e 0 0) True)"

subsection \<open>The out-of-order execute unit\<close>

definition fp_disabled :: "rename_issue_entry \<Rightarrow> cpu \<Rightarrow> bool" where
  "fp_disabled e s \<longleftrightarrow> (let c = ri_ctrl e in
     drop_bit 13 (csr_mstatus (cpu_csrs s) AND MSTATUS_FS) = 0 \<and> (cs_fp_reg_write c \<or> cs_rs1_fp c \<or> cs_rs2_fp c \<or> cs_rs3_fp c))"

definition exec_stage_of :: "rename_issue_entry \<Rightarrow> exception_stage" where
  "exec_stage_of e = (case ri_exception_stage e of Some st \<Rightarrow> st | None \<Rightarrow> Stage_Execute)"

definition resolve_flow :: "rename_issue_entry \<Rightarrow> exec_result \<Rightarrow> exec_result" where
  "resolve_flow e x = (case cs_control_flow (ri_ctrl e) of
     CF_Branch \<Rightarrow> resolve_branch e x | CF_Jump \<Rightarrow> resolve_jump e x | CF_Sequential \<Rightarrow> x)"

definition execute_data :: "fpu \<Rightarrow> rename_issue_entry \<Rightarrow> rob \<Rightarrow> cpu \<Rightarrow> exec_result" where
  "execute_data fpu e r s =
    (let (out, flags) = compute_alu fpu (cs_alu (ri_ctrl e)) (op_a_of e) (op_b_of e) (ri_rv3 e) (cs_is_rv32 (ri_ctrl e))
     in resolve_flow e (done_with r s ((mk_result e out (ri_rv2 e))\<lparr> xm_fp_flags := flags \<rparr>) False))"

definition execute_one :: "fpu \<Rightarrow> rename_issue_entry \<Rightarrow> rob \<Rightarrow> cpu \<Rightarrow> exec_result" where
  "execute_one fpu e r s =
    (case ri_trap e of
       Some t \<Rightarrow> done_with (rob_fault (ri_rob_tag e) t (exec_stage_of e) r) s (mk_result e 0 0) True
     | None \<Rightarrow>
         let op = cs_system_op (ri_ctrl e)
         in if op = Sys_FenceI then done_with r (redirect_to (fallthrough e) s) (mk_result e 0 0) True
            else if op \<noteq> Sys_None \<and> op \<noteq> Sys_Fence then execute_system e r s
            else if fp_disabled e s then done_with (illegal e r) s (mk_result e 0 0) True
            else execute_data fpu e r s)"

subsection \<open>The in-order execute unit\<close>

text \<open>One instruction of the in-order unit: it carries no physical register, redirects behind every CSR access
  and \<open>SFENCE.VMA\<close>, and lets an unknown system instruction fall through to the ALU. \<open>flags\<close> are the exception
  flags that are not in the reorder buffer yet.\<close>

definition no_phys :: "exec_result \<Rightarrow> exec_result" where
  "no_phys x = x\<lparr> xr_out := (xr_out x)\<lparr> xm_rd_phys := 0 \<rparr> \<rparr>"

definition inorder_csr :: "u8 \<Rightarrow> rename_issue_entry \<Rightarrow> rob \<Rightarrow> cpu \<Rightarrow> exec_result" where
  "inorder_csr flags e r s =
    (if csr_refused e s then done_with (illegal e r) s (mk_result e 0 0) True
     else let (r1, s1) = drain_flags e flags r s; old = csr_read s1 (cs_csr_addr (ri_ctrl e))
          in done_with (record_csr e old r1) (redirect_to (fallthrough e) s1) (mk_result e old (ri_rv2 e)) True)"

definition inorder_data :: "fpu \<Rightarrow> rename_issue_entry \<Rightarrow> rob \<Rightarrow> cpu \<Rightarrow> exec_result" where
  "inorder_data fpu e r s =
    (if fp_disabled e s then done_with (illegal e r) s (mk_result e 0 0) True else execute_data fpu e r s)"

definition inorder_system :: "fpu \<Rightarrow> u8 \<Rightarrow> rename_issue_entry \<Rightarrow> rob \<Rightarrow> cpu \<Rightarrow> exec_result" where
  "inorder_system fpu flags e r s =
    (let op = cs_system_op (ri_ctrl e); r1 = (if system_refused op s then illegal e r else r)
     in if op = Sys_Mret \<or> op = Sys_Sret \<or> op = Sys_Wfi then done_with r1 s (mk_result e 0 0) True
        else if op = Sys_SfenceVma then
          (if system_refused op s then done_with r1 s (mk_result e 0 0) True
           else done_with r (redirect_to (fallthrough e) s)
                  ((mk_result e 0 (ri_rv2 e))\<lparr> xm_sfence_vma := Some (sfence_info e) \<rparr>) True)
        else if ri_inst e = ECALL then
          done_with (rob_fault (ri_rob_tag e) (ecall_trap (cpu_privilege s)) Stage_Execute r) s (mk_result e 0 0) True
        else if cs_csr_op (ri_ctrl e) \<noteq> Csr_None then inorder_csr flags e r s
        else inorder_data fpu e r s)"

definition inorder_one :: "fpu \<Rightarrow> u8 \<Rightarrow> rename_issue_entry \<Rightarrow> rob \<Rightarrow> cpu \<Rightarrow> exec_result" where
  "inorder_one fpu flags e r s = no_phys
    (case ri_trap e of
       Some t \<Rightarrow> done_with (rob_fault (ri_rob_tag e) t (exec_stage_of e) r) s (mk_result e 0 0) True
     | None \<Rightarrow>
         let op = cs_system_op (ri_ctrl e)
         in if op = Sys_FenceI then done_with r (s\<lparr> cpu_pc := fallthrough e \<rparr>) (mk_result e 0 0) True
            else if op \<noteq> Sys_None \<and> op \<noteq> Sys_Fence then inorder_system fpu flags e r s
            else inorder_data fpu e r s)"

text \<open>The loop over the issued bundle; it ends behind the first instruction that flushes. \<open>batch\<close> collects the flags
  raised in this cycle.\<close>

fun inorder_loop :: "fpu \<Rightarrow> u8 \<Rightarrow> u8 \<Rightarrow> rename_issue_entry list \<Rightarrow> rob \<Rightarrow> cpu \<Rightarrow> ex_mem1_entry list \<Rightarrow> bp_event list
    \<Rightarrow> (rob \<times> cpu) \<times> ex_mem1_entry list \<times> bool \<times> bp_event list" where
  "inorder_loop fpu inflight batch [] r s res bp = ((r, s), res, False, bp)"
| "inorder_loop fpu inflight batch (e # es) r s res bp =
    (let x = inorder_one fpu (inflight OR batch) e r s
     in if xr_flush x then ((xr_rob x, xr_cpu x), res @ [xr_out x], True, bp @ xr_bp x)
        else inorder_loop fpu inflight (batch OR xm_fp_flags (xr_out x)) es (xr_rob x) (xr_cpu x) (res @ [xr_out x]) (bp @ xr_bp x))"

definition execute_inorder :: "fpu \<Rightarrow> rename_issue_entry list \<Rightarrow> u8 \<Rightarrow> rob \<Rightarrow> cpu
    \<Rightarrow> (rob \<times> cpu) \<times> ex_mem1_entry list \<times> bool \<times> bp_event list" where
  "execute_inorder fpu es inflight r s = inorder_loop fpu inflight 0 es r s [] []"

subsection \<open>Integer instructions\<close>

text \<open>What writeback makes of a result that is not a load.\<close>

definition writeback_value :: "ex_mem1_entry \<Rightarrow> u64" where
  "writeback_value x = (if cs_control_flow (xm_ctrl x) = CF_Jump then xm_pc x + inst_size_as_u64 (xm_inst_size x) else xm_alu x)"

text \<open>The entry that renaming issues for an instruction \<open>i\<close> fetched at \<open>pc\<close>.\<close>

definition issues :: "rv \<Rightarrow> rename_issue_entry \<Rightarrow> bool" where
  "issues i e \<longleftrightarrow> (\<exists>regs fe. if_inst fe = rv_encode i \<and> same_inst (decode_entry regs fe) e)"

lemma issues_fields:
  assumes "issues i e"
  shows "ri_ctrl e = rv_ctrl i" "ri_trap e = None" "ri_inst e = rv_encode i" "ri_imm e = d_imm (decode (rv_encode i))"
  using assms by (auto simp: issues_def same_inst_def decode_entry_def Let_def rv_decode)

primrec rv_imm :: "rv \<Rightarrow> u64" where
  "rv_imm (Rv_R op rd rs1 rs2) = 0"
| "rv_imm (Rv_I op rd rs1 imm) = scast imm"
| "rv_imm (Rv_Sh op rd rs1 sh) = scast (snd (shop_code op) OR ucast sh)"
| "rv_imm (Rv_ShW op rd rs1 sh) = scast (snd (shop_code op) OR ucast sh)"
| "rv_imm (Rv_Lui rd imm) = push_bit 12 (scast imm)"
| "rv_imm (Rv_Auipc rd imm) = push_bit 12 (scast imm)"
| "rv_imm (Rv_Jal rd imm) = push_bit 1 (scast imm)"
| "rv_imm (Rv_Jalr rd rs1 imm) = scast imm"
| "rv_imm (Rv_B op rs1 rs2 imm) = push_bit 1 (scast imm)"

lemma issues_imm: "issues i e \<Longrightarrow> ri_imm e = rv_imm i"
  unfolding issues_fields(4) using rv_fields [of i]
  by (cases i) (simp_all only: rv_asm.simps rv_imm.simps split_beta asm_fields.simps)

lemma rv_offsets:
  "rv_imm (Rv_Lui rd i) = w64 (sint i * 2 ^ 12)" "rv_imm (Rv_Auipc rd i) = w64 (sint i * 2 ^ 12)" "rv_imm (Rv_Jal rd i) = w64 (2 * sint i)"
  "rv_imm (Rv_Jalr rd rs1 j) = w64 (sint j)" "rv_imm (Rv_B op rs1 rs2 j) = w64 (2 * sint j)"
  unfolding rv_imm.simps w64_def scast_eq push_bit_eq_mult by simp_all

lemmas rv_imms = rv_offsets rv_imm.simps(2-4)

declare rv_imm.simps [simp del]

lemma shift_mask:
  "(scast (snd (shop_code op) OR ucast (sh :: 6 word) :: 12 word) :: u64) AND 0x3F = ucast sh AND 0x3F"
  "as_i32 (scast (snd (shop_code op) OR ucast (sh' :: 5 word) :: 12 word)) AND 0x1F = as_i32 (ucast sh') AND 0x1F"
proof -
  have hi: "snd (shop_code op) = 0 \<or> snd (shop_code op) = push_bit 10 1" by (cases op) simp_all
  show "(scast (snd (shop_code op) OR ucast (sh :: 6 word) :: 12 word) :: u64) AND 0x3F = ucast sh AND 0x3F"
    using hi unfolding and_masks by (elim disjE; intro bit_word_eqI; auto simp: bit_simps simp del: push_bit_of_1)
  show "as_i32 (scast (snd (shop_code op) OR ucast (sh' :: 5 word) :: 12 word)) AND 0x1F = as_i32 (ucast sh') AND 0x1F"
    using hi unfolding and_masks as_i32_def by (elim disjE; intro bit_word_eqI; auto simp: bit_simps simp del: push_bit_of_1)
qed

lemma shift_imm:
  "rop_value (shop_rop op) a (scast (snd (shop_code op) OR ucast (sh :: 6 word) :: 12 word)) = rop_value (shop_rop op) a (ucast sh)"
  "rop_value (shop_ropw op) a (scast (snd (shop_code op) OR ucast (sh' :: 5 word) :: 12 word)) = rop_value (shop_ropw op) a (ucast sh')"
  using shift_mask(1) [of op sh] shift_mask(2) [of op sh'] by (cases op; simp add: sh6_amount sh5_amount)+

lemma compute_int: "compute_alu fpu (rop_alu op) a b c (rop_is32 op) = (rop_value op a b, 0)"
proof -
  have "\<not> is_fp_convert (rop_alu op) \<and> rop_alu op \<noteq> Alu_FMvToF \<and> \<not> is_fp_op (rop_alu op)"
    by (cases op) (simp_all add: is_fp_convert_def is_fp_op_def)
  then show ?thesis by (simp add: compute_alu_def alu_rop)
qed

lemma compute_add: "compute_alu fpu Alu_Add a b c False = (a + b, 0)"
  using compute_int [of fpu ADD a b c] by (simp add: rop_is32_def w64_def)

lemma branch_taken_bop:
  assumes "inst_funct3 inst = ucast (bop_code op)"
  shows "branch_taken inst a b = bop_holds op a b"
proof -
  have "drop_bit 12 inst AND 7 = ucast (bop_code op)" using assms by (simp add: inst_funct3_def)
  then show ?thesis
    by (cases op) (simp_all add: branch_taken_def word_sless_alt word_sle_eq word_less_def word_le_def)
qed

lemma rv_signals: "cs_system_op (rv_ctrl i) = Sys_None" "\<not> cs_fp_reg_write (rv_ctrl i)" "\<not> cs_rs1_fp (rv_ctrl i)" "\<not> cs_rs2_fp (rv_ctrl i)"
  "\<not> cs_rs3_fp (rv_ctrl i)" "cs_reg_write (rv_ctrl i) = (rv_value i pc sz a b \<noteq> None)" "\<not> cs_mem_read (rv_ctrl i)" "\<not> cs_mem_write (rv_ctrl i)"
  "cs_control_flow (rv_ctrl i) = CF_Sequential \<longleftrightarrow> \<not> rv_jumps i"
  by (cases i; simp add: default_ctrl_def)+

lemma execute_issued:
  assumes "issues i e"
  shows "execute_one fpu e r s = execute_data fpu e r s"
  using assms by (simp add: execute_one_def issues_fields rv_signals fp_disabled_def Let_def)

lemma resolve_flow_out: "xr_out (resolve_flow e x) = xr_out x"
  by (simp add: resolve_flow_def resolve_branch_def resolve_jump_def Let_def split: control_flow.split)

lemma integer_value:
  assumes "issues i e" "rv_value i (ri_pc e) (inst_size_as_u64 (ri_inst_size e)) (ri_rv1 e) (ri_rv2 e) = Some v"
  shows "writeback_value (xr_out (execute_one fpu e r s)) = v"
  using assms(2) unfolding execute_issued [OF assms(1)] execute_data_def
  by (cases i) (simp_all add: issues_fields(1-3) [OF assms(1)] issues_imm [OF assms(1)] op_a_of_def op_b_of_def compute_int compute_add
      default_ctrl_def resolve_flow_out writeback_value_def done_with_def mk_result_def shift_imm rv_imms)

lemma rv_opcode: "rv_encode i AND 0x7F = asm_opcode (rv_asm i)"
  using asm_opcodes [OF rv_asm_wf [of i]] by (simp add: rv_encode_def inst_opcode_def)

lemma rv_funct3: "inst_funct3 (rv_encode (Rv_B op rs1 rs2 imm)) = ucast (bop_code op)"
  unfolding rv_encode_def rv_asm.simps by (rule asm_functs)

text \<open>The architectural successor as \<open>resolve_flow\<close> computes it.\<close>

definition actual_next :: "rename_issue_entry \<Rightarrow> u64" where
  "actual_next e = (case cs_control_flow (ri_ctrl e) of
     CF_Branch \<Rightarrow> (if branch_taken (ri_inst e) (op_a_of e) (op_b_of e) then ri_pc e + ri_imm e else fallthrough e)
   | CF_Jump \<Rightarrow> jump_target e
   | CF_Sequential \<Rightarrow> fallthrough e)"

lemma resolve_flow_cpu:
  assumes "\<not> xr_flush x"
  shows "if cs_control_flow (ri_ctrl e) \<noteq> CF_Sequential \<and> predicted_next e \<noteq> actual_next e
    then xr_flush (resolve_flow e x) \<and> xr_cpu (resolve_flow e x) = redirect_to (actual_next e) (xr_cpu x)
    else \<not> xr_flush (resolve_flow e x) \<and> xr_cpu (resolve_flow e x) = xr_cpu x"
  using assms
  by (auto simp: resolve_flow_def resolve_branch_def resolve_jump_def actual_next_def redirect_to_def Let_def split: control_flow.splits)

lemma integer_next:
  assumes "issues i e"
  shows "actual_next e = rv_next i (ri_pc e) (inst_size_as_u64 (ri_inst_size e)) (ri_rv1 e) (ri_rv2 e)"
  by (cases i) (simp_all add: actual_next_def issues_fields(1-3) [OF assms] issues_imm [OF assms] default_ctrl_def fallthrough_def
      jump_target_def is_jalr_def rv_opcode isa_consts rv_imms branch_taken_bop [OF rv_funct3] op_a_of_def op_b_of_def)

lemma rob_find_update:
  assumes "rob_inv r" "tag_preserving f"
  shows "rob_find_entry (rob_update t f r) t = map_option f (rob_find_entry r t)"
proof -
  have "find (\<lambda>e. re_tag e = t) (map (\<lambda>e. if re_tag e = t then f e else e) es) = map_option f (find (\<lambda>e. re_tag e = t) es)" for es
    using assms(2) by (induction es) (auto simp: tag_preserving_def)
  with assms show ?thesis by (simp add: rob_find_entry_conv rob_update_inv rob_update_window)
qed

text \<open>What commit will record as the next address once the instruction has executed.\<close>

lemma resolve_flow_committed:
  assumes "rob_inv (xr_rob x)" "rob_find_entry (xr_rob x) (ri_rob_tag e) = Some b" "re_pc b = ri_pc e" "re_inst_size b = ri_inst_size e"
    "re_ctrl b = ri_ctrl e"
  shows "map_option entry_committed_next (rob_find_entry (xr_rob (resolve_flow e x)) (ri_rob_tag e)) = Some (actual_next e)"
proof -
  have "entry_next_pc b' = fallthrough e" if "re_pc b' = ri_pc e" "re_inst_size b' = ri_inst_size e" for b'
    using that by (simp add: entry_next_pc_def fallthrough_def)
  with assms show ?thesis
    by (auto simp: resolve_flow_def resolve_branch_def resolve_jump_def Let_def rob_set_bp_update_def rob_set_bp_target_def
        rob_find_update tag_preserving_def entry_committed_next_def actual_next_def split: control_flow.splits)
qed

text \<open>C8. Every integer instruction of RV64IM, from its encoding through decode, renaming and execute: the value that is written
  back is the one the architecture defines over the integers, for all operands (overflow, division by zero and shift
  amounts included). A branch or jump redirects fetch exactly when the prediction differs from the architectural next
  address, and to that address; no other instruction redirects or changes the processor.\<close>

theorem integer_instructions_correct:
  assumes "issues i e"
  shows "let x = execute_one fpu e r s; sz = inst_size_as_u64 (ri_inst_size e);
      val = rv_value i (ri_pc e) sz (ri_rv1 e) (ri_rv2 e); next_pc = rv_next i (ri_pc e) sz (ri_rv1 e) (ri_rv2 e)
    in (case val of None \<Rightarrow> \<not> cs_reg_write (ri_ctrl e) | Some v \<Rightarrow> cs_reg_write (ri_ctrl e) \<and> writeback_value (xr_out x) = v)
     \<and> (if rv_jumps i \<and> predicted_next e \<noteq> next_pc then xr_flush x \<and> xr_cpu x = redirect_to next_pc s
        else \<not> xr_flush x \<and> xr_cpu x = s)"
proof -
  let ?sz = "inst_size_as_u64 (ri_inst_size e)"
  have "case rv_value i (ri_pc e) ?sz (ri_rv1 e) (ri_rv2 e) of None \<Rightarrow> \<not> cs_reg_write (ri_ctrl e)
      | Some v \<Rightarrow> cs_reg_write (ri_ctrl e) \<and> writeback_value (xr_out (execute_one fpu e r s)) = v"
    using integer_value [OF assms] rv_signals(6) [of i "ri_pc e" ?sz "ri_rv1 e" "ri_rv2 e"]
    by (auto simp: issues_fields(1) [OF assms] split: option.split)
  moreover have "\<exists>x. \<not> xr_flush x \<and> xr_cpu x = s \<and> execute_one fpu e r s = resolve_flow e x"
    unfolding execute_issued [OF assms] execute_data_def
    by (intro exI [of _ "done_with r s _ False"]) (simp add: done_with_def split_beta)
  then obtain x where "\<not> xr_flush x" "xr_cpu x = s" "execute_one fpu e r s = resolve_flow e x" by blast
  with resolve_flow_cpu [of x e] integer_next [OF assms] have "if rv_jumps i \<and> predicted_next e \<noteq> rv_next i (ri_pc e) ?sz (ri_rv1 e) (ri_rv2 e)
      then xr_flush (execute_one fpu e r s) \<and> xr_cpu (execute_one fpu e r s) = redirect_to (rv_next i (ri_pc e) ?sz (ri_rv1 e) (ri_rv2 e)) s
      else \<not> xr_flush (execute_one fpu e r s) \<and> xr_cpu (execute_one fpu e r s) = s"
    by (simp add: issues_fields(1) [OF assms] rv_signals(9))
  ultimately show ?thesis by (simp only: Let_def simp_thms)
qed

text \<open>C9. The next address that commit records for an executed integer instruction, from what execute left in the reorder
  buffer, is the architectural one: the committed path is the path of the program.\<close>

theorem committed_path_is_architectural:
  assumes "issues i e" "rob_inv r" "rob_find_entry r (ri_rob_tag e) = Some b" "re_pc b = ri_pc e" "re_inst_size b = ri_inst_size e"
    "re_ctrl b = ri_ctrl e"
  shows "map_option entry_committed_next (rob_find_entry (xr_rob (execute_one fpu e r s)) (ri_rob_tag e))
    = Some (rv_next i (ri_pc e) (inst_size_as_u64 (ri_inst_size e)) (ri_rv1 e) (ri_rv2 e))"
proof -
  have "\<exists>x. xr_rob x = r \<and> execute_one fpu e r s = resolve_flow e x"
    unfolding execute_issued [OF assms(1)] execute_data_def
    by (intro exI [of _ "done_with r s _ False"]) (simp add: done_with_def split_beta)
  then obtain x where "xr_rob x = r" "execute_one fpu e r s = resolve_flow e x" by blast
  with resolve_flow_committed [of x e b] assms(2-) integer_next [OF assms(1)] show ?thesis by simp
qed

text \<open>A backward branch (\<open>bne x5, x6, -6\<close>), predicted not taken, in a reorder buffer that holds it.\<close>

definition demo_bne :: rv where
  "demo_bne = Rv_B BNE 5 6 (- 3)"

definition demo_fetch :: if_id_entry where
  "demo_fetch = \<lparr> if_pc = 0x1000, if_inst = rv_encode demo_bne, if_inst_size = Standard, if_pred_taken = False, if_pred_target = 0,
     if_trap = None, if_exception_stage = None, if_ghr_snapshot = ghr_default, if_ras_snapshot = 0 \<rparr>"

definition demo_branch :: rename_issue_entry where
  "demo_branch = (issue_entry (decode_entry regs_new demo_fetch) 1 None None None 0 0 0 0)\<lparr> ri_rv1 := 7, ri_rv2 := 8 \<rparr>"

definition demo_rob :: rob where
  "demo_rob = rob_exec (Call_Allocate 0x1000 (rv_encode demo_bne) Standard 0 False (rv_ctrl demo_bne) 0 0) (rob_new 2)"

lemma demo_issues: "issues demo_bne demo_branch"
  unfolding issues_def
  by (intro exI [of _ regs_new] exI [of _ demo_fetch]) (simp add: demo_branch_def demo_fetch_def same_inst_def issue_entry_def)

lemma demo_branch_fields: "ri_pc demo_branch = 0x1000" "ri_inst_size demo_branch = Standard" "ri_rv1 demo_branch = 7" "ri_rv2 demo_branch = 8"
  "ri_rob_tag demo_branch = 1" "ri_pred_taken demo_branch = False"
  by (simp_all add: demo_branch_def issue_entry_def decode_entry_def demo_fetch_def Let_def split_beta)

lemma demo_next: "rv_next demo_bne 0x1000 4 7 8 = 0xFFA"
  by (simp add: demo_bne_def w64_def)

theorem integer_instructions_correct_witness:
  "issues demo_bne demo_branch \<and> xr_flush (execute_one (\<lambda>_ _ _ _ _. (0, 0)) demo_branch demo_rob cpu_example)
   \<and> cpu_pc (xr_cpu (execute_one (\<lambda>_ _ _ _ _. (0, 0)) demo_branch demo_rob cpu_example)) = 0xFFA"
proof -
  have "rv_jumps demo_bne" "predicted_next demo_branch \<noteq> 0xFFA"
    by (simp_all add: demo_bne_def predicted_next_def fallthrough_def demo_branch_fields)
  moreover have "inst_size_as_u64 Standard = 4" by simp
  ultimately show ?thesis
    using integer_instructions_correct [OF demo_issues, of "\<lambda>_ _ _ _ _. (0, 0)" demo_rob cpu_example] demo_issues
    by (simp add: Let_def demo_branch_fields demo_next redirect_to_def)
qed

lemma demo_rob_facts:
  "rob_inv demo_rob" "rob_find_entry demo_rob 1 = Some (rob_entry_new 1 0x1000 (rv_encode demo_bne) Standard 0 False (rv_ctrl demo_bne) 0 0)"
proof -
  have "rob_reach 2 demo_rob"
    unfolding demo_rob_def by (intro rob_reach_step rob_reach_new) (simp add: rob_room_def ring_window_def rob_new_def)
  then show "rob_inv demo_rob" using rob_reach_inv by fastforce
  show "rob_find_entry demo_rob 1 = Some (rob_entry_new 1 0x1000 (rv_encode demo_bne) Standard 0 False (rv_ctrl demo_bne) 0 0)"
    by (simp add: demo_rob_def rob_allocate_def rob_new_def rob_is_full_def ring_push_def bump_tag_def Let_def rob_find_entry_def
        rob_entry_new_def replicate_2)
qed

theorem committed_path_is_architectural_witness:
  "map_option entry_committed_next (rob_find_entry (xr_rob (execute_one (\<lambda>_ _ _ _ _. (0, 0)) demo_branch demo_rob cpu_example)) 1) = Some 0xFFA"
proof -
  let ?b = "rob_entry_new 1 0x1000 (rv_encode demo_bne) Standard 0 False (rv_ctrl demo_bne) 0 0"
  have "re_pc ?b = ri_pc demo_branch" "re_inst_size ?b = ri_inst_size demo_branch" "re_ctrl ?b = ri_ctrl demo_branch"
    by (simp_all add: rob_entry_new_def demo_branch_fields issues_fields(1) [OF demo_issues])
  with committed_path_is_architectural [OF demo_issues demo_rob_facts(1), of ?b "\<lambda>_ _ _ _ _. (0, 0)" cpu_example] demo_rob_facts(2)
  show ?thesis by (simp add: demo_branch_fields demo_next)
qed

subsection \<open>CSR accesses and system instructions\<close>

definition csr_access :: "rename_issue_entry \<Rightarrow> bool" where
  "csr_access e \<longleftrightarrow> ri_trap e = None \<and> cs_system_op (ri_ctrl e) = Sys_System \<and> ri_inst e \<noteq> ECALL \<and> cs_csr_op (ri_ctrl e) \<noteq> Csr_None"

lemma execute_csr_access: "csr_access e \<Longrightarrow> execute_one fpu e r s = execute_csr e r s"
  by (simp add: csr_access_def execute_one_def execute_system_def Let_def)

text \<open>A CSR instruction touches no architectural state at execute. When the privilege rules, the counter enables or the
  read-only encoding refuse the access, the instruction becomes an illegal-instruction fault of its own reorder buffer
  entry and nothing else changes. Otherwise \<open>rd\<close> receives the old value, the write that commit will perform is exactly the
  read-modify-write of that value, and the pipeline restarts behind the instruction; an instruction that only reads
  records no write and restarts nothing.\<close>

theorem csr_access_deferred:
  assumes "csr_access e" "rob_inv r" "rob_find_entry r (ri_rob_tag e) = Some b" "cs_csr_addr (ri_ctrl e) \<notin> {FFLAGS, FCSR, FRM}"
  shows "let x = execute_one fpu e r s; a = cs_csr_addr (ri_ctrl e); old = csr_read s a;
      b' = the (rob_find_entry (xr_rob x) (ri_rob_tag e))
    in if csr_refused e s
       then b' = b\<lparr> re_state := Faulted, re_trap := Some (IllegalInstruction (ri_inst e)), re_exception_stage := Some Stage_Execute \<rparr>
         \<and> xr_cpu x = s \<and> xr_flush x
       else xm_alu (xr_out x) = old
         \<and> (if csr_would_write e
            then b' = b\<lparr> re_csr_update := Some \<lparr> cu_addr = a, cu_old_val = old,
                   cu_new_val = csr_new_value (cs_csr_op (ri_ctrl e)) old (csr_source e), cu_applied = False \<rparr> \<rparr>
              \<and> xr_cpu x = redirect_to (fallthrough e) s \<and> xr_flush x
            else xr_rob x = r \<and> xr_cpu x = s \<and> \<not> xr_flush x)"
  using assms(2-)
  by (simp add: execute_csr_access [OF assms(1)] execute_csr_def Let_def done_with_def illegal_def rob_fault_def drain_flags_def
      record_csr_def rob_set_csr_update_def rob_find_update tag_preserving_def mk_result_def)

definition demo_csrrw :: rename_issue_entry where
  "demo_csrrw = demo_branch\<lparr> ri_inst := 0x34029073,
     ri_ctrl := default_ctrl\<lparr> cs_system_op := Sys_System, cs_csr_op := Csr_Rw, cs_csr_addr := MSCRATCH \<rparr> \<rparr>"

theorem csr_access_deferred_witness:
  "\<not> csr_refused demo_csrrw cpu_example
   \<and> map_option cu_new_val (re_csr_update (the (rob_find_entry (xr_rob (execute_one (\<lambda>_ _ _ _ _. (0, 0)) demo_csrrw demo_rob cpu_example)) 1))) = Some 7"
proof -
  have c: "csr_access demo_csrrw"
    by (simp add: csr_access_def demo_csrrw_def issues_fields(2) [OF demo_issues] ECALL_def default_ctrl_def)
  have addr: "cs_csr_addr (ri_ctrl demo_csrrw) \<notin> {FFLAGS, FCSR, FRM}" by (simp add: demo_csrrw_def csr_addrs)
  have tag: "ri_rob_tag demo_csrrw = 1" by (simp add: demo_csrrw_def demo_branch_fields)
  have m: "cpu_privilege cpu_example = Machine" by (simp add: cpu_example_def cpu_new_def Let_def)
  have w: "csr_would_write demo_csrrw" "cs_csr_op (ri_ctrl demo_csrrw) = Csr_Rw" "csr_source demo_csrrw = 7"
    by (simp_all add: demo_csrrw_def csr_would_write_def csr_source_def demo_branch_fields)
  have "\<not> csr_refused demo_csrrw cpu_example"
    by (simp add: csr_refused_def m counter_denied_def demo_csrrw_def csr_addrs csr_privilege_level_def csr_is_read_only_def
        counter_bit_def Let_def split: option.split)
  with csr_access_deferred [OF c demo_rob_facts(1) _ addr, of _ "\<lambda>_ _ _ _ _. (0, 0)" cpu_example] demo_rob_facts(2) w show ?thesis
    by (simp add: tag Let_def csr_new_value_def)
qed



text \<open>The two execute units agree on everything but the physical register and the serialising instructions whose restart differs.\<close>

theorem backends_agree:
  assumes "cs_system_op (ri_ctrl e) \<notin> {Sys_FenceI, Sys_SfenceVma, Sys_System} \<or> ri_trap e \<noteq> None"
  shows "inorder_one fpu fl e r s = no_phys (execute_one fpu e r s)"
  using assms
  by (cases "cs_system_op (ri_ctrl e)")
    (auto simp: inorder_one_def execute_one_def inorder_system_def execute_system_def inorder_data_def Let_def split: option.split)

end
