(* ===== verification/Replacement.thy ===== *)
theory Replacement
  imports Prelude
begin

text \<open>
  The replacement policies of the caches (\<open>core/units/cache/policies\<close>). The trait is the locale \<open>replacement\<close>: a policy is told of
  every use of a way and names a victim way when a set is full. Each of the five policies interprets it, and so does the
  boxed policy a cache holds.

  The least-recently-used stack is characterised by the history of uses: the victim is a way that was never used, or the
  way since whose last use every other way has been used.
\<close>

subsection \<open>The policies\<close>

record fifo_policy =
  ff_next_way :: "nat list"
  ff_ways :: nat

definition fifo_new :: "nat \<Rightarrow> nat \<Rightarrow> fifo_policy" where
  "fifo_new sets ways = \<lparr> ff_next_way = replicate sets 0, ff_ways = ways \<rparr>"

definition fifo_update :: "nat \<Rightarrow> nat \<Rightarrow> fifo_policy \<Rightarrow> fifo_policy" where
  "fifo_update s way p =
    (if ff_next_way p ! s = way then p\<lparr> ff_next_way := (ff_next_way p)[s := (ff_next_way p ! s + 1) mod ff_ways p] \<rparr> else p)"

definition fifo_victim :: "nat \<Rightarrow> fifo_policy \<Rightarrow> nat \<times> fifo_policy" where
  "fifo_victim s p = (ff_next_way p ! s, p)"

record lru_policy =
  lr_usage :: "nat list list"

definition lru_new :: "nat \<Rightarrow> nat \<Rightarrow> lru_policy" where
  "lru_new sets ways = \<lparr> lr_usage = replicate sets [0..<ways] \<rparr>"

definition to_front :: "nat \<Rightarrow> nat list \<Rightarrow> nat list" where
  "to_front way stack = way # remove1 way stack"

definition lru_update :: "nat \<Rightarrow> nat \<Rightarrow> lru_policy \<Rightarrow> lru_policy" where
  "lru_update s way p = p\<lparr> lr_usage := (lr_usage p)[s := to_front way (lr_usage p ! s)] \<rparr>"

definition lru_victim_way :: "nat \<Rightarrow> lru_policy \<Rightarrow> nat \<times> lru_policy" where
  "lru_victim_way s p = (let stack = lr_usage p ! s in (if stack = [] then 0 else last stack, p))"

record mru_policy =
  mr_usage :: "nat list list"

definition mru_new :: "nat \<Rightarrow> nat \<Rightarrow> mru_policy" where
  "mru_new sets ways = \<lparr> mr_usage = replicate sets [0..<ways] \<rparr>"

definition mru_update :: "nat \<Rightarrow> nat \<Rightarrow> mru_policy \<Rightarrow> mru_policy" where
  "mru_update s way p = p\<lparr> mr_usage := (mr_usage p)[s := to_front way (mr_usage p ! s)] \<rparr>"

definition mru_victim :: "nat \<Rightarrow> mru_policy \<Rightarrow> nat \<times> mru_policy" where
  "mru_victim s p = (let stack = mr_usage p ! s in (if stack = [] then 0 else hd stack, p))"

text \<open>Shift amounts are taken modulo 64, as in the release build.\<close>

record plru_policy =
  pr_usage :: "u64 list"
  pr_ways :: nat

definition plru_new :: "nat \<Rightarrow> nat \<Rightarrow> plru_policy" where
  "plru_new sets ways = \<lparr> pr_usage = replicate sets 0, pr_ways = ways \<rparr>"

definition plru_update :: "nat \<Rightarrow> nat \<Rightarrow> plru_policy \<Rightarrow> plru_policy" where
  "plru_update s way p =
    (let m = push_bit (way mod 64) 1; u = pr_usage p ! s OR m; all_ones = push_bit (pr_ways p mod 64) 1 - 1
     in p\<lparr> pr_usage := (pr_usage p)[s := if u AND all_ones = all_ones then m else u] \<rparr>)"

definition plru_victim :: "nat \<Rightarrow> plru_policy \<Rightarrow> nat \<times> plru_policy" where
  "plru_victim s p =
    ((case find (\<lambda>i. drop_bit (i mod 64) (pr_usage p ! s) AND 1 = 0) [0..<pr_ways p] of Some i \<Rightarrow> i | None \<Rightarrow> 0), p)"

record random_policy =
  rn_ways :: nat
  rn_state :: u64

definition random_new :: "nat \<Rightarrow> nat \<Rightarrow> random_policy" where
  "random_new sets ways = \<lparr> rn_ways = ways, rn_state = 123456789 \<rparr>"

definition random_update :: "nat \<Rightarrow> nat \<Rightarrow> random_policy \<Rightarrow> random_policy" where
  "random_update s way p = p"

definition xorshift :: "u64 \<Rightarrow> u64" where
  "xorshift x = (let x1 = x XOR push_bit 13 x; x2 = x1 XOR drop_bit 7 x1 in x2 XOR push_bit 17 x2)"

definition random_victim :: "nat \<Rightarrow> random_policy \<Rightarrow> nat \<times> random_policy" where
  "random_victim s p = (let x = xorshift (rn_state p) in (unat x mod rn_ways p, p\<lparr> rn_state := x \<rparr>))"

text \<open>The boxed policy of a cache.\<close>

datatype policy_type = Policy_Lru | Policy_Plru | Policy_Fifo | Policy_Random | Policy_Mru

datatype policy = Fifo fifo_policy | Lru lru_policy | Mru mru_policy | Plru plru_policy | Random random_policy

fun policy_new :: "policy_type \<Rightarrow> nat \<Rightarrow> nat \<Rightarrow> policy" where
  "policy_new Policy_Fifo sets ways = Fifo (fifo_new sets ways)"
| "policy_new Policy_Random sets ways = Random (random_new sets ways)"
| "policy_new Policy_Plru sets ways = Plru (plru_new sets ways)"
| "policy_new Policy_Lru sets ways = Lru (lru_new sets ways)"
| "policy_new Policy_Mru sets ways = Mru (mru_new sets ways)"

fun policy_update :: "nat \<Rightarrow> nat \<Rightarrow> policy \<Rightarrow> policy" where
  "policy_update s way (Fifo p) = Fifo (fifo_update s way p)"
| "policy_update s way (Lru p) = Lru (lru_update s way p)"
| "policy_update s way (Mru p) = Mru (mru_update s way p)"
| "policy_update s way (Plru p) = Plru (plru_update s way p)"
| "policy_update s way (Random p) = Random (random_update s way p)"

fun policy_victim :: "nat \<Rightarrow> policy \<Rightarrow> nat \<times> policy" where
  "policy_victim s (Fifo p) = map_prod id Fifo (fifo_victim s p)"
| "policy_victim s (Lru p) = map_prod id Lru (lru_victim_way s p)"
| "policy_victim s (Mru p) = map_prod id Mru (mru_victim s p)"
| "policy_victim s (Plru p) = map_prod id Plru (plru_victim s p)"
| "policy_victim s (Random p) = map_prod id Random (random_victim s p)"

subsection \<open>The interface\<close>

locale replacement =
  fixes ok :: "nat \<Rightarrow> nat \<Rightarrow> 'p \<Rightarrow> bool"
    and update :: "nat \<Rightarrow> nat \<Rightarrow> 'p \<Rightarrow> 'p"
    and victim :: "nat \<Rightarrow> 'p \<Rightarrow> nat \<times> 'p"
  assumes update_ok: "ok sets ways p \<Longrightarrow> s < sets \<Longrightarrow> w < ways \<Longrightarrow> ok sets ways (update s w p)"
    and victim_ok: "ok sets ways p \<Longrightarrow> s < sets \<Longrightarrow> ok sets ways (snd (victim s p))"
    and victim_range: "ok sets ways p \<Longrightarrow> s < sets \<Longrightarrow> 0 < ways \<Longrightarrow> fst (victim s p) < ways"
begin

text \<open>A replacement: the victim of a set is used.\<close>

lemma replace_ok:
  assumes "ok sets ways p" "s < sets" "0 < ways"
  shows "ok sets ways (update s (fst (victim s p)) (snd (victim s p)))"
  using assms by (intro update_ok victim_ok victim_range) auto

lemma fold_update_ok: "ok sets ways p \<Longrightarrow> list_all (\<lambda>(s, w). s < sets \<and> w < ways) us \<Longrightarrow> ok sets ways (fold (\<lambda>(s, w). update s w) us p)"
  by (induction us arbitrary: p) (auto intro: update_ok)

lemma victim_after_uses:
  assumes "ok sets ways p" "list_all (\<lambda>(s, w). s < sets \<and> w < ways) us" "s < sets" "0 < ways"
  shows "fst (victim s (fold (\<lambda>(s, w). update s w) us p)) < ways"
  using assms by (intro victim_range fold_update_ok) auto

end

definition fifo_ok :: "nat \<Rightarrow> nat \<Rightarrow> fifo_policy \<Rightarrow> bool" where
  "fifo_ok sets ways p \<longleftrightarrow> ff_ways p = ways \<and> length (ff_next_way p) = sets \<and> list_all (\<lambda>w. w < ways \<or> ways = 0) (ff_next_way p)"

definition stack_ok :: "nat \<Rightarrow> nat list \<Rightarrow> bool" where
  "stack_ok ways st \<longleftrightarrow> distinct st \<and> set st = {..<ways}"

definition lru_ok :: "nat \<Rightarrow> nat \<Rightarrow> lru_policy \<Rightarrow> bool" where
  "lru_ok sets ways p \<longleftrightarrow> length (lr_usage p) = sets \<and> list_all (stack_ok ways) (lr_usage p)"

definition mru_ok :: "nat \<Rightarrow> nat \<Rightarrow> mru_policy \<Rightarrow> bool" where
  "mru_ok sets ways p \<longleftrightarrow> length (mr_usage p) = sets \<and> list_all (stack_ok ways) (mr_usage p)"

definition plru_ok :: "nat \<Rightarrow> nat \<Rightarrow> plru_policy \<Rightarrow> bool" where
  "plru_ok sets ways p \<longleftrightarrow> pr_ways p = ways \<and> length (pr_usage p) = sets"

definition random_ok :: "nat \<Rightarrow> nat \<Rightarrow> random_policy \<Rightarrow> bool" where
  "random_ok sets ways p \<longleftrightarrow> rn_ways p = ways"

lemma list_all_upd: "list_all P xs \<Longrightarrow> P x \<Longrightarrow> list_all P (xs[i := x])"
  by (auto simp: list_all_iff dest: subsetD [OF set_update_subset_insert])

lemma stack_ok_to_front: "stack_ok ways st \<Longrightarrow> way < ways \<Longrightarrow> stack_ok ways (to_front way st)"
  by (auto simp: stack_ok_def to_front_def)

lemma stack_ok_nonempty: "stack_ok ways st \<Longrightarrow> 0 < ways \<Longrightarrow> st \<noteq> [] \<and> hd st < ways \<and> last st < ways"
  by (cases "st = []") (use hd_in_set last_in_set in \<open>auto simp: stack_ok_def\<close>)

interpretation fifo: replacement fifo_ok fifo_update fifo_victim
proof
  fix sets ways s w :: nat and p
  assume "fifo_ok sets ways p" "s < sets" "w < ways"
  then show "fifo_ok sets ways (fifo_update s w p)"
    by (auto simp: fifo_ok_def fifo_update_def intro!: list_all_upd)
qed (auto simp: fifo_ok_def fifo_victim_def list_all_length)

interpretation lru: replacement lru_ok lru_update lru_victim_way
  using stack_ok_to_front stack_ok_nonempty
  by unfold_locales (auto simp: lru_ok_def lru_update_def lru_victim_way_def Let_def list_all_length nth_list_update)

interpretation mru: replacement mru_ok mru_update mru_victim
  using stack_ok_to_front stack_ok_nonempty
  by unfold_locales (auto simp: mru_ok_def mru_update_def mru_victim_def Let_def list_all_length nth_list_update)

interpretation plru: replacement plru_ok plru_update plru_victim
  by unfold_locales (auto simp: plru_ok_def plru_update_def plru_victim_def Let_def find_Some_iff split: option.splits)

interpretation random: replacement random_ok random_update random_victim
  by unfold_locales (auto simp: random_ok_def random_update_def random_victim_def Let_def)

fun policy_ok :: "nat \<Rightarrow> nat \<Rightarrow> policy \<Rightarrow> bool" where
  "policy_ok sets ways (Fifo p) = fifo_ok sets ways p"
| "policy_ok sets ways (Lru p) = lru_ok sets ways p"
| "policy_ok sets ways (Mru p) = mru_ok sets ways p"
| "policy_ok sets ways (Plru p) = plru_ok sets ways p"
| "policy_ok sets ways (Random p) = random_ok sets ways p"

lemmas policy_laws = fifo.update_ok lru.update_ok mru.update_ok plru.update_ok random.update_ok fifo.victim_ok lru.victim_ok mru.victim_ok
  plru.victim_ok random.victim_ok fifo.victim_range lru.victim_range mru.victim_range plru.victim_range random.victim_range

interpretation any: replacement policy_ok policy_update policy_victim
proof
  fix sets ways s w :: nat and p
  show "policy_ok sets ways p \<Longrightarrow> s < sets \<Longrightarrow> w < ways \<Longrightarrow> policy_ok sets ways (policy_update s w p)"
    "policy_ok sets ways p \<Longrightarrow> s < sets \<Longrightarrow> policy_ok sets ways (snd (policy_victim s p))"
    "policy_ok sets ways p \<Longrightarrow> s < sets \<Longrightarrow> 0 < ways \<Longrightarrow> fst (policy_victim s p) < ways"
    by (cases p; simp add: policy_laws)+
qed

lemma policy_new_ok: "policy_ok sets ways (policy_new t sets ways)"
  by (cases t) (auto simp: fifo_ok_def fifo_new_def lru_ok_def lru_new_def mru_ok_def mru_new_def plru_ok_def plru_new_def random_ok_def random_new_def
      list_all_length stack_ok_def)

subsection \<open>What the stack records\<close>

text \<open>The stack of one set after a history of uses, most recent last.\<close>

lemma remdups_snoc: "remdups (xs @ [x]) = filter (\<lambda>y. y \<noteq> x) (remdups xs) @ [x]"
  by (induction xs) auto

lemma lru_stack_history:
  assumes "list_all (\<lambda>w. w < ways) ts"
  shows "fold to_front ts [0..<ways] = rev (remdups ts) @ filter (\<lambda>w. w \<notin> set ts) [0..<ways]"
  using assms
proof (induction ts rule: rev_induct)
  case (snoc w ts)
  let ?used = "rev (remdups ts)" and ?rest = "filter (\<lambda>x. x \<notin> set ts) [0..<ways]"
  have d: "distinct (?used @ ?rest)" by auto
  have "remove1 w (?used @ ?rest) = filter (\<lambda>x. w \<noteq> x) (?used @ ?rest)"
    by (simp only: distinct_remove1_removeAll [OF d] removeAll_filter_not_eq)
  also have "\<dots> = rev (filter (\<lambda>x. x \<noteq> w) (remdups ts)) @ filter (\<lambda>x. x \<notin> set (ts @ [w])) [0..<ways]"
  proof -
    have "filter (\<lambda>x. w \<noteq> x) ?used = rev (filter (\<lambda>x. x \<noteq> w) (remdups ts))" unfolding rev_filter by (rule filter_cong) auto
    moreover have "filter (\<lambda>x. w \<noteq> x) ?rest = filter (\<lambda>x. x \<notin> set (ts @ [w])) [0..<ways]" unfolding filter_filter by (rule filter_cong) auto
    ultimately show ?thesis by (simp only: filter_append)
  qed
  finally show ?case using snoc by (simp add: to_front_def remdups_snoc)
qed (simp add: filter_id_conv)

lemma fold_lru_update:
  assumes "s < length (lr_usage p)"
  shows "lr_usage (fold (\<lambda>(s, w). lru_update s w) us p) ! s = fold to_front (map snd (filter (\<lambda>u. fst u = s) us)) (lr_usage p ! s)
    \<and> length (lr_usage (fold (\<lambda>(s, w). lru_update s w) us p)) = length (lr_usage p)"
  using assms
proof (induction us arbitrary: p)
  case (Cons u us)
  have "s < length (lr_usage (lru_update (fst u) (snd u) p))" using Cons.prems by (simp add: lru_update_def)
  from Cons.IH [OF this] show ?case using Cons.prems by (auto simp: split_beta lru_update_def nth_list_update)
qed simp

text \<open>C39. Least recently used. After any sequence of uses of a fresh policy, the victim of a set is a way of the set that was never
  used, or every other way of the set has been used since the victim was used last.\<close>

theorem lru_victim_is_least_recently_used:
  assumes "list_all (\<lambda>(s, w). s < sets \<and> w < ways) us" "s < sets" "0 < ways"
  defines "ts \<equiv> map snd (filter (\<lambda>u. fst u = s) us)"
  defines "v \<equiv> fst (lru_victim_way s (fold (\<lambda>(s, w). lru_update s w) us (lru_new sets ways)))"
  shows "v < ways \<and> (v \<notin> set ts \<or> (\<exists>before after. ts = before @ v # after \<and> v \<notin> set after \<and> {..<ways} - {v} \<subseteq> set after))"
proof -
  have ts: "list_all (\<lambda>w. w < ways) ts" using assms(1) by (auto simp: ts_def list_all_iff)
  have "lr_usage (fold (\<lambda>(s, w). lru_update s w) us (lru_new sets ways)) ! s = fold to_front ts [0..<ways]"
    using fold_lru_update [of s "lru_new sets ways" us] assms(2) by (simp add: lru_new_def ts_def)
  also have "\<dots> = rev (remdups ts) @ filter (\<lambda>w. w \<notin> set ts) [0..<ways]" using ts by (rule lru_stack_history)
  finally have st: "lr_usage (fold (\<lambda>(s, w). lru_update s w) us (lru_new sets ways)) ! s = rev (remdups ts) @ filter (\<lambda>w. w \<notin> set ts) [0..<ways]" .
  show ?thesis
  proof (cases "filter (\<lambda>w. w \<notin> set ts) [0..<ways] = []")
    case False
    then have "v = last (filter (\<lambda>w. w \<notin> set ts) [0..<ways])" by (simp add: v_def lru_victim_way_def st Let_def)
    with last_in_set [OF False] show ?thesis by simp
  next
    case True
    then have all: "{..<ways} \<subseteq> set ts" by (auto simp: filter_empty_conv)
    with assms(3) have ne: "remdups ts \<noteq> []" by auto
    obtain x xs where x: "remdups ts = x # xs" using ne by (cases "remdups ts") auto
    have v: "v = x" using True x by (simp add: v_def lru_victim_way_def st Let_def)
    have "\<exists>before after. ts = before @ x # after \<and> x \<notin> set after \<and> set after = set xs"
      using x
    proof (induction ts arbitrary: x xs)
      case (Cons t ts)
      show ?case
      proof (cases "t \<in> set ts")
        case True
        then obtain b a where "ts = b @ x # a" "x \<notin> set a" "set a = set xs" using Cons by auto
        then show ?thesis by (metis append_Cons)
      next
        case False
        then have "x = t" "xs = remdups ts" using Cons.prems by auto
        with False show ?thesis by (intro exI [of _ "[]"] exI [of _ ts]) auto
      qed
    qed simp
    then obtain b a where ba: "ts = b @ x # a" "x \<notin> set a" "set a = set xs" by blast
    have "set ts = insert x (set xs)" using x by (metis list.simps(15) set_remdups)
    then have "{..<ways} - {v} \<subseteq> set a" using all ba v by auto
    moreover have "v < ways" using ts v ba(1) by (simp add: list_all_iff)
    ultimately show ?thesis using ba v by blast
  qed
qed


theorem lru_victim_is_least_recently_used_witness:
  "fst (lru_victim_way 0 (fold (\<lambda>(s, w). lru_update s w) [(0, 2), (1, 0), (0, 0), (0, 1), (0, 2)] (lru_new 2 3))) < 3
   \<and> list_all (\<lambda>(s, w). s < 2 \<and> w < (3 :: nat)) [(0, 2), (1, 0), (0, 0), (0, 1), (0 :: nat, 2)]"
proof -
  have "list_all (\<lambda>(s, w). s < 2 \<and> w < (3 :: nat)) [(0, 2), (1, 0), (0, 0), (0, 1), (0 :: nat, 2)]" by simp
  from lru_victim_is_least_recently_used [OF this, of 0] this show ?thesis by simp
qed

text \<open>The pointer of the first-in first-out policy also moves when the oldest line is hit: after two fills of a two-way set a hit on the
  older line makes the newer line the victim.\<close>

theorem fifo_evicts_newer_line:
  "fst (fifo_victim 0 (fold (fifo_update 0) [0, 1] (fifo_new 1 2))) = 0" "fst (fifo_victim 0 (fold (fifo_update 0) [0, 1, 0] (fifo_new 1 2))) = 1"
  by (simp_all add: fifo_new_def fifo_update_def fifo_victim_def)

end
