(* ===== verification/Prefetch.thy ===== *)
theory Prefetch
  imports Tlb
begin

text \<open>
  The prefetchers of the caches and the filter that removes repeated prefetches (\<open>core/units/prefetch\<close>). Observing an access
  returns the addresses to fetch and the new state. The locale \<open>prefetcher\<close> states what the caches rely on: the state stays well-formed
  and every proposed address is the base of a cache line; the four prefetchers and the boxed one interpret it.
\<close>

subsection \<open>Lines\<close>

definition line_of :: "u64 \<Rightarrow> u64 \<Rightarrow> u64" where
  "line_of line_bytes addr = addr AND NOT (line_bytes - 1)"

definition degree_of :: "nat \<Rightarrow> nat" where
  "degree_of degree = (if degree = 0 then 1 else degree)"

subsection \<open>Next line\<close>

record next_line_prefetcher =
  nl_line_bytes :: u64
  nl_degree :: nat

definition nl_new :: "u64 \<Rightarrow> nat \<Rightarrow> next_line_prefetcher" where
  "nl_new line_bytes degree = \<lparr> nl_line_bytes = line_bytes, nl_degree = degree_of degree \<rparr>"

definition nl_observe :: "u64 \<Rightarrow> bool \<Rightarrow> next_line_prefetcher \<Rightarrow> u64 list \<times> next_line_prefetcher" where
  "nl_observe addr hit p = (map (\<lambda>k. line_of (nl_line_bytes p) addr + nl_line_bytes p * of_nat k) [1..<Suc (nl_degree p)], p)"

subsection \<open>Stream\<close>

datatype direction = Dir_None | Ascending | Descending

record stream_prefetcher =
  sm_line_bytes :: u64
  sm_degree :: nat
  sm_last_addr :: u64
  sm_direction :: direction
  sm_confidence :: u8

definition sm_new :: "u64 \<Rightarrow> nat \<Rightarrow> stream_prefetcher" where
  "sm_new line_bytes degree = \<lparr> sm_line_bytes = line_bytes, sm_degree = degree_of degree, sm_last_addr = 0, sm_direction = Dir_None, sm_confidence = 0 \<rparr>"

definition sm_learn :: "u64 \<Rightarrow> stream_prefetcher \<Rightarrow> stream_prefetcher" where
  "sm_learn addr p =
    (let diff = addr - sm_last_addr p;
         dir = (if diff = sm_line_bytes p then Ascending else if diff = - sm_line_bytes p then Descending else Dir_None)
     in if dir \<noteq> Dir_None then
          (if dir = sm_direction p then (if sm_confidence p < 3 then p\<lparr> sm_confidence := sm_confidence p + 1 \<rparr> else p)
           else p\<lparr> sm_direction := dir, sm_confidence := 1 \<rparr>)
        else if 0 < sm_confidence p then p\<lparr> sm_confidence := sm_confidence p - 1 \<rparr>
        else p\<lparr> sm_direction := Dir_None \<rparr>)"

definition sm_observe :: "u64 \<Rightarrow> bool \<Rightarrow> stream_prefetcher \<Rightarrow> u64 list \<times> stream_prefetcher" where
  "sm_observe addr hit p =
    (let p1 = sm_learn addr p;
         offset = (\<lambda>k. if sm_direction p1 = Ascending then of_nat k * sm_line_bytes p1 else of_nat k * - sm_line_bytes p1);
         targets = (if 2 \<le> sm_confidence p1 then map (\<lambda>k. line_of (sm_line_bytes p1) addr + offset k) [1..<Suc (sm_degree p1)] else [])
     in (targets, p1\<lparr> sm_last_addr := addr \<rparr>))"

subsection \<open>Stride\<close>

record stream_entry =
  se_last_addr :: u64
  se_stride :: i64
  se_confidence :: u8

record stride_prefetcher =
  sd_table :: "stream_entry list"
  sd_line_bytes :: u64
  sd_table_mask :: nat
  sd_degree :: nat

definition sd_new :: "u64 \<Rightarrow> nat \<Rightarrow> nat \<Rightarrow> stride_prefetcher" where
  "sd_new line_bytes table_size degree =
    (let safe_size = (if 0 < table_size \<and> is_power_of_two table_size then table_size else 64)
     in \<lparr> sd_table = replicate safe_size \<lparr> se_last_addr = 0, se_stride = 0, se_confidence = 0 \<rparr>, sd_line_bytes = line_bytes,
          sd_table_mask = safe_size - 1, sd_degree = degree_of degree \<rparr>)"

definition sd_learn :: "i64 \<Rightarrow> stream_entry \<Rightarrow> stream_entry" where
  "sd_learn stride e =
    (if stride = se_stride e then (if se_confidence e < 3 then e\<lparr> se_confidence := se_confidence e + 1 \<rparr> else e)
     else if 0 < se_confidence e then e\<lparr> se_confidence := se_confidence e - 1 \<rparr>
     else e\<lparr> se_stride := stride \<rparr>)"

definition sd_observe :: "u64 \<Rightarrow> bool \<Rightarrow> stride_prefetcher \<Rightarrow> u64 list \<times> stride_prefetcher" where
  "sd_observe addr hit p =
    (let idx = unat (drop_bit 6 addr) AND sd_table_mask p; e = sd_table p ! idx; stride = addr - se_last_addr e;
         targets = (if stride = se_stride e \<and> \<not> se_confidence e < 3
           then map (\<lambda>k. line_of (sd_line_bytes p) (addr + se_stride e * of_nat k)) [1..<Suc (sd_degree p)] else [])
     in (targets, p\<lparr> sd_table := (sd_table p)[idx := (sd_learn stride e)\<lparr> se_last_addr := addr \<rparr>] \<rparr>))"

subsection \<open>Tagged\<close>

record tagged_prefetcher =
  tg_line_bytes :: u64
  tg_degree :: nat
  tg_prefetched_filter :: "u64 list"
  tg_filter_mask :: nat

definition tg_new :: "u64 \<Rightarrow> nat \<Rightarrow> tagged_prefetcher" where
  "tg_new line_bytes degree = \<lparr> tg_line_bytes = line_bytes, tg_degree = degree_of degree, tg_prefetched_filter = replicate 64 0, tg_filter_mask = 63 \<rparr>"

definition was_prefetched :: "u64 \<Rightarrow> tagged_prefetcher \<Rightarrow> bool" where
  "was_prefetched addr p \<longleftrightarrow> tg_prefetched_filter p ! (unat (drop_bit 6 addr) AND tg_filter_mask p) = addr"

definition mark_prefetched :: "u64 \<Rightarrow> tagged_prefetcher \<Rightarrow> tagged_prefetcher" where
  "mark_prefetched addr p = p\<lparr> tg_prefetched_filter := (tg_prefetched_filter p)[unat (drop_bit 6 addr) AND tg_filter_mask p := addr] \<rparr>"

definition tg_observe :: "u64 \<Rightarrow> bool \<Rightarrow> tagged_prefetcher \<Rightarrow> u64 list \<times> tagged_prefetcher" where
  "tg_observe addr hit p =
    (let aligned = line_of (tg_line_bytes p) addr
     in if \<not> hit \<or> was_prefetched aligned p then
          (let targets = map (\<lambda>k. aligned + tg_line_bytes p * of_nat k) [1..<Suc (tg_degree p)] in (targets, fold mark_prefetched targets p))
        else ([], p))"

subsection \<open>The boxed prefetcher\<close>

datatype prefetcher_type = Pf_None | Pf_NextLine | Pf_Stride | Pf_Stream | Pf_Tagged

datatype prefetcher = Next_Line next_line_prefetcher | Stream stream_prefetcher | Stride stride_prefetcher | Tagged tagged_prefetcher

fun prefetcher_new :: "prefetcher_type \<Rightarrow> u64 \<Rightarrow> nat \<Rightarrow> nat \<Rightarrow> prefetcher option" where
  "prefetcher_new Pf_None line_bytes table_size degree = None"
| "prefetcher_new Pf_NextLine line_bytes table_size degree = Some (Next_Line (nl_new line_bytes degree))"
| "prefetcher_new Pf_Stride line_bytes table_size degree = Some (Stride (sd_new line_bytes table_size degree))"
| "prefetcher_new Pf_Stream line_bytes table_size degree = Some (Stream (sm_new line_bytes degree))"
| "prefetcher_new Pf_Tagged line_bytes table_size degree = Some (Tagged (tg_new line_bytes degree))"

fun observe :: "u64 \<Rightarrow> bool \<Rightarrow> prefetcher \<Rightarrow> u64 list \<times> prefetcher" where
  "observe addr hit (Next_Line p) = map_prod id Next_Line (nl_observe addr hit p)"
| "observe addr hit (Stream p) = map_prod id Stream (sm_observe addr hit p)"
| "observe addr hit (Stride p) = map_prod id Stride (sd_observe addr hit p)"
| "observe addr hit (Tagged p) = map_prod id Tagged (tg_observe addr hit p)"

subsection \<open>The filter\<close>

record prefetch_filter =
  pf_table :: "u64 list"
  pf_mask :: nat
  pf_line_bytes :: u64

definition pf_new :: "nat \<Rightarrow> u64 \<Rightarrow> prefetch_filter" where
  "pf_new sz line_bytes =
    (let safe_line = (if line_bytes = 0 then 64 else line_bytes)
     in if sz = 0 then \<lparr> pf_table = [], pf_mask = 0, pf_line_bytes = safe_line \<rparr>
        else (let actual_size = next_power_of_two sz in \<lparr> pf_table = replicate actual_size (- 1), pf_mask = actual_size - 1, pf_line_bytes = safe_line \<rparr>))"

definition pf_slot :: "u64 \<Rightarrow> prefetch_filter \<Rightarrow> nat" where
  "pf_slot line_addr f = unat (drop_bit 6 line_addr) AND pf_mask f"

definition pf_contains :: "u64 \<Rightarrow> prefetch_filter \<Rightarrow> bool" where
  "pf_contains addr f \<longleftrightarrow> pf_table f \<noteq> [] \<and> (let line_addr = line_of (pf_line_bytes f) addr in pf_table f ! pf_slot line_addr f = line_addr)"

definition pf_insert :: "u64 \<Rightarrow> prefetch_filter \<Rightarrow> prefetch_filter" where
  "pf_insert addr f = (if pf_table f = [] then f
     else let line_addr = line_of (pf_line_bytes f) addr in f\<lparr> pf_table := (pf_table f)[pf_slot line_addr f := line_addr] \<rparr>)"

definition pf_remove :: "u64 \<Rightarrow> prefetch_filter \<Rightarrow> prefetch_filter" where
  "pf_remove addr f = (if pf_table f = [] then f
     else let line_addr = line_of (pf_line_bytes f) addr
          in if pf_table f ! pf_slot line_addr f = line_addr then f\<lparr> pf_table := (pf_table f)[pf_slot line_addr f := - 1] \<rparr> else f)"

fun filter_loop :: "u64 list \<Rightarrow> prefetch_filter \<Rightarrow> u64 list \<times> prefetch_filter" where
  "filter_loop [] f = ([], f)"
| "filter_loop (a # as) f = (if pf_contains a f then filter_loop as f else map_prod (Cons a) id (filter_loop as (pf_insert a f)))"

definition filter_and_record :: "u64 list \<Rightarrow> prefetch_filter \<Rightarrow> u64 list \<times> prefetch_filter" where
  "filter_and_record addrs f = (if pf_table f = [] then (addrs, f) else filter_loop addrs f)"


subsection \<open>The interface\<close>

text \<open>An address is the base of a line of \<open>2 ^ k\<close> bytes.\<close>

definition aligned :: "nat \<Rightarrow> u64 \<Rightarrow> bool" where
  "aligned k a \<longleftrightarrow> take_bit k a = 0"

lemma line_of_pow2: "line_of (2 ^ k) a = a AND NOT (mask k)"
  by (simp add: line_of_def mask_eq_exp_minus_1)

lemma aligned_line_of: "aligned k (line_of (2 ^ k) a)"
  unfolding aligned_def line_of_pow2 by (rule bit_word_eqI) (auto simp: bit_simps)

lemma line_of_aligned: "aligned k a \<Longrightarrow> line_of (2 ^ k) a = a"
  unfolding aligned_def line_of_pow2 by (rule bit_word_eqI) (auto simp: bit_simps bit_eq_iff)

lemma aligned_mult: "aligned k (2 ^ k * n)" "aligned k (n * 2 ^ k)" "aligned k (- (2 ^ k))" "aligned k (- (n * 2 ^ k))"
proof -
  have m: "aligned k (2 ^ k * n)" for n unfolding aligned_def by (simp add: push_bit_eq_mult [symmetric] mult.commute [of "2 ^ k"] take_bit_push_bit)
  show "aligned k (2 ^ k * n)" "aligned k (n * 2 ^ k)" using m [of n] by (simp_all add: mult.commute)
  show "aligned k (- (2 ^ k))" "aligned k (- (n * 2 ^ k))" using m [of "- 1"] m [of "- n"] by (simp_all add: mult.commute)
qed

lemma aligned_add: "aligned k a \<Longrightarrow> aligned k b \<Longrightarrow> aligned k (a + b)"
proof -
  assume "aligned k a" "aligned k b"
  then have "a = 2 ^ k * drop_bit k a" "b = 2 ^ k * drop_bit k b"
    using bits_ident [of k a] bits_ident [of k b] by (simp_all add: aligned_def push_bit_eq_mult mult.commute)
  then have "a + b = 2 ^ k * (drop_bit k a + drop_bit k b)" by (metis distrib_left)
  then show ?thesis by (metis aligned_mult(1))
qed

locale line_prefetcher =
  fixes ok :: "nat \<Rightarrow> 'p \<Rightarrow> bool"
    and obs :: "u64 \<Rightarrow> bool \<Rightarrow> 'p \<Rightarrow> u64 list \<times> 'p"
  assumes obs_ok: "ok k p \<Longrightarrow> ok k (snd (obs a h p))"
    and obs_aligned: "ok k p \<Longrightarrow> t \<in> set (fst (obs a h p)) \<Longrightarrow> aligned k t"
begin

text \<open>All proposals of a run of accesses are line addresses.\<close>

lemma run_ok: "ok k p \<Longrightarrow> ok k (fold (\<lambda>(a, h) p. snd (obs a h p)) xs p)"
  by (induction xs arbitrary: p) (auto intro: obs_ok)

lemma run_aligned: "ok k p \<Longrightarrow> t \<in> set (fst (obs a h (fold (\<lambda>(a, h) p. snd (obs a h p)) xs p))) \<Longrightarrow> aligned k t"
  using obs_aligned run_ok by blast

end

text \<open>Two-bit saturating confidence counters.\<close>

lemma confidence_step: "c \<le> 3 \<Longrightarrow> 0 < c \<Longrightarrow> c - 1 \<le> 3" "c < 3 \<Longrightarrow> c + 1 \<le> 3" for c :: u8
proof -
  assume c: "c \<le> 3" "0 < c"
  then have "unat (c - 1) = unat c - 1" by (intro unat_minus_one) auto
  with c show "c - 1 \<le> 3" by (simp add: word_le_nat_alt)
next
  assume "c < 3"
  then show "c + 1 \<le> 3" by (simp add: word_le_nat_alt word_less_nat_alt unat_word_ariths)
qed

definition nl_ok :: "nat \<Rightarrow> next_line_prefetcher \<Rightarrow> bool" where
  "nl_ok k p \<longleftrightarrow> nl_line_bytes p = 2 ^ k"

definition sm_ok :: "nat \<Rightarrow> stream_prefetcher \<Rightarrow> bool" where
  "sm_ok k p \<longleftrightarrow> sm_line_bytes p = 2 ^ k \<and> sm_confidence p \<le> 3"

definition sd_ok :: "nat \<Rightarrow> stride_prefetcher \<Rightarrow> bool" where
  "sd_ok k p \<longleftrightarrow> sd_line_bytes p = 2 ^ k \<and> (\<exists>n. sd_table_mask p = mask n \<and> length (sd_table p) = 2 ^ n) \<and> list_all (\<lambda>e. se_confidence e \<le> 3) (sd_table p)"

definition tg_ok :: "nat \<Rightarrow> tagged_prefetcher \<Rightarrow> bool" where
  "tg_ok k p \<longleftrightarrow> tg_line_bytes p = 2 ^ k \<and> tg_filter_mask p = mask 6 \<and> length (tg_prefetched_filter p) = 64"

interpretation nl: line_prefetcher nl_ok nl_observe
  by unfold_locales (auto simp: nl_ok_def nl_observe_def intro!: aligned_add aligned_line_of aligned_mult)

interpretation sm: line_prefetcher sm_ok sm_observe
proof
  fix k p a h t
  assume ok: "sm_ok k p"
  then have ok1: "sm_ok k (sm_learn a p)"
    by (auto simp: sm_ok_def sm_learn_def Let_def confidence_step)
  then show "sm_ok k (snd (sm_observe a h p))" by (simp add: sm_observe_def Let_def sm_ok_def)
  show "t \<in> set (fst (sm_observe a h p)) \<Longrightarrow> aligned k t"
    using ok1 by (auto simp: sm_observe_def Let_def sm_ok_def split: if_splits intro!: aligned_add aligned_line_of aligned_mult)
qed

interpretation sd: line_prefetcher sd_ok sd_observe
proof
  fix k p h t and a :: u64
  assume ok: "sd_ok k p"
  have "se_confidence (sd_learn st e) \<le> 3" if "se_confidence e \<le> 3" for st e
    using that by (auto simp: sd_learn_def confidence_step)
  moreover have "unat (drop_bit 6 a) AND sd_table_mask p < length (sd_table p)"
    using ok by (auto simp: sd_ok_def simp flip: take_bit_eq_mask)
  ultimately show "sd_ok k (snd (sd_observe a h p))" using ok
    by (auto simp: sd_ok_def sd_observe_def Let_def list_all_length nth_list_update)
  show "t \<in> set (fst (sd_observe a h p)) \<Longrightarrow> aligned k t"
    using ok by (auto simp: sd_ok_def sd_observe_def Let_def aligned_line_of split: if_splits)
qed

lemma fold_mark_prefetched: "tg_ok k p \<Longrightarrow> tg_ok k (fold mark_prefetched ts p)"
  by (induction ts arbitrary: p) (auto simp: tg_ok_def mark_prefetched_def)

interpretation tg: line_prefetcher tg_ok tg_observe
proof
  fix k p a h t
  assume ok: "tg_ok k p"
  then show "tg_ok k (snd (tg_observe a h p))" by (simp add: tg_observe_def Let_def fold_mark_prefetched)
  show "t \<in> set (fst (tg_observe a h p)) \<Longrightarrow> aligned k t"
    using ok by (auto simp: tg_observe_def Let_def tg_ok_def split: if_splits intro!: aligned_add aligned_line_of aligned_mult)
qed

fun prefetcher_ok :: "nat \<Rightarrow> prefetcher \<Rightarrow> bool" where
  "prefetcher_ok k (Next_Line p) = nl_ok k p"
| "prefetcher_ok k (Stream p) = sm_ok k p"
| "prefetcher_ok k (Stride p) = sd_ok k p"
| "prefetcher_ok k (Tagged p) = tg_ok k p"

interpretation pf: line_prefetcher prefetcher_ok observe
proof
  fix k p a h t
  assume "prefetcher_ok k p"
  then show "prefetcher_ok k (snd (observe a h p))" "t \<in> set (fst (observe a h p)) \<Longrightarrow> aligned k t"
    by (cases p; auto simp: nl.obs_ok sm.obs_ok sd.obs_ok tg.obs_ok intro: nl.obs_aligned sm.obs_aligned sd.obs_aligned tg.obs_aligned)+
qed

lemma prefetcher_new_ok: "prefetcher_new t (2 ^ k) table degree = Some p \<Longrightarrow> prefetcher_ok k p"
proof (cases t)
  case Pf_Stride
  have "\<exists>n. (if 0 < table \<and> is_power_of_two table then table else 64) = 2 ^ n"
    using next_power_of_two_power [of table] by (cases "0 < table \<and> is_power_of_two table") (auto simp: is_power_of_two_def intro: exI [of _ 6])
  then obtain n where n: "(if 0 < table \<and> is_power_of_two table then table else 64) = 2 ^ n" ..
  assume "prefetcher_new t (2 ^ k) table degree = Some p"
  then show ?thesis using Pf_Stride n by (auto simp: sd_new_def Let_def sd_ok_def mask_eq_exp_minus_1 list_all_length intro!: exI [of _ n] split del: if_split)
qed (auto simp: nl_new_def nl_ok_def sm_new_def sm_ok_def tg_new_def tg_ok_def mask_eq_exp_minus_1)

subsection \<open>The filter drops repeats\<close>

definition pf_ok :: "nat \<Rightarrow> prefetch_filter \<Rightarrow> bool" where
  "pf_ok k f \<longleftrightarrow> pf_line_bytes f = 2 ^ k \<and> (pf_table f = [] \<or> (\<exists>n. pf_mask f = mask n \<and> length (pf_table f) = 2 ^ n))"

lemma pf_slot_range: "pf_ok k f \<Longrightarrow> pf_table f \<noteq> [] \<Longrightarrow> pf_slot a f < length (pf_table f)"
  by (auto simp: pf_ok_def pf_slot_def simp flip: take_bit_eq_mask)

lemma pf_insert_ok: "pf_ok k f \<Longrightarrow> pf_ok k (pf_insert a f)"
  by (auto simp: pf_ok_def pf_insert_def Let_def)

lemma pf_insert_contains: "pf_ok k f \<Longrightarrow> pf_table f \<noteq> [] \<Longrightarrow> pf_contains b (pf_insert a f) \<longleftrightarrow>
    line_of (2 ^ k) b = line_of (2 ^ k) a \<or> pf_slot (line_of (2 ^ k) b) f \<noteq> pf_slot (line_of (2 ^ k) a) f \<and> pf_contains b f"
  using pf_slot_range [of k f "line_of (2 ^ k) a"]
  by (auto simp: pf_insert_def pf_contains_def Let_def pf_ok_def pf_slot_def nth_list_update)

lemma pf_remove_contains: "pf_ok k f \<Longrightarrow> line_of (2 ^ k) a \<noteq> - 1 \<Longrightarrow> \<not> pf_contains a (pf_remove a f)"
  using pf_slot_range [of k f "line_of (2 ^ k) a"] by (auto simp: pf_remove_def pf_contains_def Let_def pf_ok_def pf_slot_def)

lemma filter_loop_subset: "set (fst (filter_loop as f)) \<subseteq> set as"
  by (induction as arbitrary: f) (auto split: if_splits)

lemma filter_and_record_subset: "set (fst (filter_and_record as f)) \<subseteq> set as"
  using filter_loop_subset by (auto simp: filter_and_record_def)

end
