(* ===== verification/Cache.thy ===== *)
theory Cache
  imports Replacement Prefetch
begin

text \<open>
  The set-associative cache (\<open>core/units/cache/mod.rs\<close>): tags, dirty bits and replacement; it holds no data. A cache without
  duplicates is abstracted to a map from lines to dirty bits, and the lookups, installations, invalidations and flushes are
  specified on it: an access makes its line present, reports the one line it displaces with its dirty bit, and
  leaves every other line alone.

  A configuration whose size is below one line per way gives a cache without sets, whose first access divides by zero; the
  invariant \<open>cache_ok\<close> asks for at least one set.
\<close>

subsection \<open>State\<close>

record evicted_line =
  ev_addr :: u64
  ev_dirty :: bool

record cache_line =
  ln_tag :: u64
  ln_valid :: bool
  ln_dirty :: bool

record cache_config =
  cf_enabled :: bool
  cf_size_bytes :: nat
  cf_line_bytes :: nat
  cf_ways :: nat
  cf_policy :: policy_type
  cf_latency :: u64
  cf_prefetcher :: prefetcher_type
  cf_prefetch_table_size :: nat
  cf_prefetch_degree :: nat

record cache =
  ca_latency :: u64
  ca_enabled :: bool
  ca_prefetcher :: "prefetcher option"
  ca_lines :: "cache_line list"
  ca_num_sets :: nat
  ca_ways :: nat
  ca_line_bytes :: nat
  ca_policy :: policy

definition line_default :: cache_line where
  "line_default = \<lparr> ln_tag = 0, ln_valid = False, ln_dirty = False \<rparr>"

definition cache_new :: "cache_config \<Rightarrow> cache" where
  "cache_new c =
    (let safe_ways = (if cf_ways c = 0 then 1 else cf_ways c); safe_line = (if cf_line_bytes c = 0 then 64 else cf_line_bytes c);
         safe_size = (if cf_size_bytes c = 0 then 4096 else cf_size_bytes c); num_sets = safe_size div safe_line div safe_ways
     in \<lparr> ca_latency = cf_latency c, ca_enabled = cf_enabled c,
          ca_prefetcher = prefetcher_new (cf_prefetcher c) (of_nat safe_line) (cf_prefetch_table_size c) (cf_prefetch_degree c),
          ca_lines = replicate (num_sets * safe_ways) line_default, ca_num_sets = num_sets, ca_ways = safe_ways, ca_line_bytes = safe_line,
          ca_policy = policy_new (cf_policy c) num_sets safe_ways \<rparr>)"

subsection \<open>Operations\<close>

definition set_index :: "u64 \<Rightarrow> cache \<Rightarrow> nat" where
  "set_index addr c = unat addr div ca_line_bytes c mod ca_num_sets c"

definition tag_of :: "u64 \<Rightarrow> cache \<Rightarrow> u64" where
  "tag_of addr c = addr div of_nat (ca_line_bytes c * ca_num_sets c)"

definition reconstruct_addr :: "nat \<Rightarrow> u64 \<Rightarrow> cache \<Rightarrow> u64" where
  "reconstruct_addr s t c = t * of_nat (ca_line_bytes c * ca_num_sets c) + of_nat (s * ca_line_bytes c)"

definition line_at :: "nat \<Rightarrow> nat \<Rightarrow> cache \<Rightarrow> cache_line" where
  "line_at s i c = ca_lines c ! (s * ca_ways c + i)"

definition set_line :: "nat \<Rightarrow> nat \<Rightarrow> cache_line \<Rightarrow> cache \<Rightarrow> cache" where
  "set_line s i l c = c\<lparr> ca_lines := (ca_lines c)[s * ca_ways c + i := l] \<rparr>"

definition way_of :: "nat \<Rightarrow> u64 \<Rightarrow> cache \<Rightarrow> nat option" where
  "way_of s t c = find (\<lambda>i. ln_valid (line_at s i c) \<and> ln_tag (line_at s i c) = t) [0..<ca_ways c]"

definition cache_contains :: "u64 \<Rightarrow> cache \<Rightarrow> bool" where
  "cache_contains addr c \<longleftrightarrow> ca_enabled c \<and> way_of (set_index addr c) (tag_of addr c) c \<noteq> None"

definition install_line_tracked :: "u64 \<Rightarrow> bool \<Rightarrow> u64 \<Rightarrow> cache \<Rightarrow> (u64 \<times> evicted_line option) \<times> cache" where
  "install_line_tracked addr is_write next_level_latency c =
    (let s = set_index addr c; t = tag_of addr c; (victim_way, pol) = policy_victim s (ca_policy c); old = line_at s victim_way c;
         evicted = (if ln_valid old then Some \<lparr> ev_addr = reconstruct_addr s (ln_tag old) c, ev_dirty = ln_dirty old \<rparr> else None);
         penalty = (if ln_valid old \<and> ln_dirty old then next_level_latency else 0)
     in ((penalty, evicted), set_line s victim_way \<lparr> ln_tag = t, ln_valid = True, ln_dirty = is_write \<rparr>
           (c\<lparr> ca_policy := policy_update s victim_way pol \<rparr>)))"

definition install_line :: "u64 \<Rightarrow> bool \<Rightarrow> u64 \<Rightarrow> cache \<Rightarrow> u64 \<times> cache" where
  "install_line addr is_write lat c = (let (r, c') = install_line_tracked addr is_write lat c in (fst r, c'))"

text \<open>The hit path every access shares: the way is used and a write marks it dirty.\<close>

definition touch_way :: "nat \<Rightarrow> nat \<Rightarrow> bool \<Rightarrow> cache \<Rightarrow> cache" where
  "touch_way s i is_write c =
    (let c1 = c\<lparr> ca_policy := policy_update s i (ca_policy c) \<rparr>
     in if is_write then set_line s i ((line_at s i c)\<lparr> ln_dirty := True \<rparr>) c1 else c1)"

definition observe_opt :: "u64 \<Rightarrow> bool \<Rightarrow> cache \<Rightarrow> u64 list \<times> cache" where
  "observe_opt addr hit c = (case ca_prefetcher c of
     None \<Rightarrow> ([], c) | Some p \<Rightarrow> (let (ts, p') = observe addr hit p in (ts, c\<lparr> ca_prefetcher := Some p' \<rparr>)))"

fun install_prefetches :: "u64 list \<Rightarrow> u64 \<Rightarrow> cache \<Rightarrow> evicted_line list \<times> cache" where
  "install_prefetches [] lat c = ([], c)"
| "install_prefetches (t # ts) lat c =
    (if cache_contains t c then install_prefetches ts lat c
     else let ((_, ev), c1) = install_line_tracked t False lat c; (evs, c2) = install_prefetches ts lat c1
          in ((case ev of None \<Rightarrow> evs | Some e \<Rightarrow> e # evs), c2))"

definition access_tracked_split :: "u64 \<Rightarrow> bool \<Rightarrow> u64 \<Rightarrow> cache \<Rightarrow> (bool \<times> u64 \<times> evicted_line list \<times> u64 list) \<times> cache" where
  "access_tracked_split addr is_write lat c =
    (if \<not> ca_enabled c then ((False, 0, [], []), c)
     else let s = set_index addr c; t = tag_of addr c
       in case way_of s t c of
            Some i \<Rightarrow> (let (ts, c1) = observe_opt addr True (touch_way s i is_write c) in ((True, 0, [], ts), c1))
          | None \<Rightarrow> (let ((pen, ev), c1) = install_line_tracked addr is_write lat c; (ts, c2) = observe_opt addr False c1
              in ((False, pen, (case ev of None \<Rightarrow> [] | Some e \<Rightarrow> [e]), ts), c2)))"

definition access_tracked :: "u64 \<Rightarrow> bool \<Rightarrow> u64 \<Rightarrow> cache \<Rightarrow> (bool \<times> u64 \<times> evicted_line list) \<times> cache" where
  "access_tracked addr is_write lat c =
    (let ((hit, pen, evs, ts), c1) = access_tracked_split addr is_write lat c; (evs', c2) = install_prefetches ts lat c1 in ((hit, pen, evs @ evs'), c2))"

definition cache_access :: "u64 \<Rightarrow> bool \<Rightarrow> u64 \<Rightarrow> cache \<Rightarrow> (bool \<times> u64) \<times> cache" where
  "cache_access addr is_write lat c =
    (if \<not> ca_enabled c then ((False, 0), c)
     else let s = set_index addr c; t = tag_of addr c;
              (hit, pen, c1) = (case way_of s t c of
                Some i \<Rightarrow> (True, 0, touch_way s i is_write c) | None \<Rightarrow> (let (p, c') = install_line addr is_write lat c in (False, p, c')));
              (ts, c2) = observe_opt addr hit c1; (_, c3) = install_prefetches ts lat c2
          in ((hit, pen), c3))"

definition access_check :: "u64 \<Rightarrow> bool \<Rightarrow> cache \<Rightarrow> bool \<times> cache" where
  "access_check addr is_write c =
    (if \<not> ca_enabled c then (False, c)
     else let s = set_index addr c; t = tag_of addr c;
              (hit, c1) = (case way_of s t c of Some i \<Rightarrow> (True, touch_way s i is_write c) | None \<Rightarrow> (False, c));
              (ts, c2) = observe_opt addr hit c1; (_, c3) = install_prefetches ts 0 c2
          in (hit, c3))"

definition install_line_public :: "u64 \<Rightarrow> bool \<Rightarrow> u64 \<Rightarrow> cache \<Rightarrow> u64 \<times> cache" where
  "install_line_public addr is_write lat c = install_line addr is_write lat c"

definition install_line_public_tracked :: "u64 \<Rightarrow> bool \<Rightarrow> u64 \<Rightarrow> cache \<Rightarrow> (u64 \<times> evicted_line option) \<times> cache" where
  "install_line_public_tracked addr is_write lat c = install_line_tracked addr is_write lat c"

definition clear_line :: "cache_line \<Rightarrow> cache_line" where
  "clear_line l = l\<lparr> ln_valid := False, ln_dirty := False \<rparr>"

definition invalidate_line :: "u64 \<Rightarrow> cache \<Rightarrow> bool \<times> cache" where
  "invalidate_line addr c =
    (if \<not> ca_enabled c then (False, c)
     else let s = set_index addr c in case way_of s (tag_of addr c) c of
         Some i \<Rightarrow> (True, set_line s i (clear_line (line_at s i c)) c) | None \<Rightarrow> (False, c))"

definition install_or_replace :: "u64 \<Rightarrow> bool \<Rightarrow> u64 \<Rightarrow> cache \<Rightarrow> (u64 \<times> evicted_line option) \<times> cache" where
  "install_or_replace addr is_write lat c =
    (if \<not> ca_enabled c then ((0, None), c)
     else let s = set_index addr c in case find (\<lambda>i. \<not> ln_valid (line_at s i c)) [0..<ca_ways c] of
         Some i \<Rightarrow> ((0, None), set_line s i \<lparr> ln_tag = tag_of addr c, ln_valid = True, ln_dirty = is_write \<rparr>
           (c\<lparr> ca_policy := policy_update s i (ca_policy c) \<rparr>))
       | None \<Rightarrow> install_line_tracked addr is_write lat c)"

definition dirty_evictions :: "cache \<Rightarrow> evicted_line list" where
  "dirty_evictions c = map (\<lambda>i. \<lparr> ev_addr = reconstruct_addr (i div ca_ways c) (ln_tag (ca_lines c ! i)) c, ev_dirty = True \<rparr>)
     (filter (\<lambda>i. ln_valid (ca_lines c ! i) \<and> ln_dirty (ca_lines c ! i)) [0..<length (ca_lines c)])"

definition cache_flush :: "cache \<Rightarrow> evicted_line list \<times> cache" where
  "cache_flush c = (if \<not> ca_enabled c then ([], c)
     else (dirty_evictions c, c\<lparr> ca_lines := map (\<lambda>l. if ln_valid l \<and> ln_dirty l then clear_line l else l) (ca_lines c) \<rparr>))"

definition invalidate_all :: "cache \<Rightarrow> evicted_line list \<times> cache" where
  "invalidate_all c = (if \<not> ca_enabled c then ([], c)
     else (dirty_evictions c, c\<lparr> ca_lines := map (\<lambda>l. if ln_valid l then clear_line l else l) (ca_lines c) \<rparr>))"

subsection \<open>Addresses\<close>

definition geometry_ok :: "cache \<Rightarrow> bool" where
  "geometry_ok c \<longleftrightarrow> 0 < ca_line_bytes c \<and> 0 < ca_num_sets c \<and> 0 < ca_ways c \<and> length (ca_lines c) = ca_num_sets c * ca_ways c
     \<and> ca_line_bytes c * ca_num_sets c < 2 ^ 64"

definition same_line :: "cache \<Rightarrow> u64 \<Rightarrow> u64 \<Rightarrow> bool" where
  "same_line c a b \<longleftrightarrow> unat a div ca_line_bytes c = unat b div ca_line_bytes c"

lemma unat_tag_of: "geometry_ok c \<Longrightarrow> unat (tag_of a c) = unat a div ca_line_bytes c div ca_num_sets c"
proof -
  assume "geometry_ok c"
  then have "unat (of_nat (ca_line_bytes c * ca_num_sets c) :: u64) = ca_line_bytes c * ca_num_sets c"
    by (intro unat_of_nat_u64) (simp add: geometry_ok_def)
  then show ?thesis unfolding tag_of_def unat_div by (simp only: div_mult2_eq)
qed

lemma set_index_less: "geometry_ok c \<Longrightarrow> set_index a c < ca_num_sets c"
  by (simp add: set_index_def geometry_ok_def)

lemma same_line_iff: "geometry_ok c \<Longrightarrow> same_line c a b \<longleftrightarrow> set_index a c = set_index b c \<and> tag_of a c = tag_of b c"
proof -
  assume g: "geometry_ok c"
  have "x = y \<longleftrightarrow> x mod n = y mod n \<and> x div n = y div n" for x y n :: nat by (metis div_mult_mod_eq)
  then show ?thesis unfolding same_line_def set_index_def word_unat_eq_iff unat_tag_of [OF g] by blast
qed

text \<open>The address of a line is rebuilt from its set and tag; a tag that came from an address leads back to its set and tag.\<close>

definition tag_fits :: "cache \<Rightarrow> nat \<Rightarrow> u64 \<Rightarrow> bool" where
  "tag_fits c s t \<longleftrightarrow> (unat t * ca_num_sets c + s) * ca_line_bytes c < 2 ^ 64"

lemma tag_of_fits: "geometry_ok c \<Longrightarrow> tag_fits c (set_index a c) (tag_of a c)"
proof -
  assume g: "geometry_ok c"
  have "unat a div ca_line_bytes c * ca_line_bytes c \<le> unat a" by (rule div_times_less_eq_dividend)
  moreover have "unat a < 2 ^ 64" using unsigned_less [of a, where ?'a = nat] by simp
  ultimately have "unat a div ca_line_bytes c * ca_line_bytes c < 2 ^ 64" by (rule le_less_trans)
  then show ?thesis unfolding tag_fits_def set_index_def unat_tag_of [OF g] div_mult_mod_eq .
qed

lemma unat_reconstruct: "tag_fits c s t \<Longrightarrow> unat (reconstruct_addr s t c) = (unat t * ca_num_sets c + s) * ca_line_bytes c"
proof -
  assume f: "tag_fits c s t"
  have "reconstruct_addr s t c = of_nat (unat t * (ca_line_bytes c * ca_num_sets c) + s * ca_line_bytes c)"
    by (simp add: reconstruct_addr_def)
  also have "unat t * (ca_line_bytes c * ca_num_sets c) + s * ca_line_bytes c = (unat t * ca_num_sets c + s) * ca_line_bytes c"
    by (simp only: distrib_right mult.assoc mult.commute [of "ca_line_bytes c"])
  finally show ?thesis using f by (simp only: tag_fits_def unat_of_nat_u64)
qed

lemma reconstruct_index:
  assumes "geometry_ok c" "s < ca_num_sets c" "tag_fits c s t"
  shows "set_index (reconstruct_addr s t c) c = s" "tag_of (reconstruct_addr s t c) c = t"
proof -
  note u = unat_reconstruct [OF assms(3)]
  show "set_index (reconstruct_addr s t c) c = s" using assms(1,2) by (simp add: set_index_def u geometry_ok_def)
  show "tag_of (reconstruct_addr s t c) c = t"
    using assms(1,2) by (simp add: word_unat_eq_iff unat_tag_of u geometry_ok_def)
qed

lemma reconstruct_same_line: "geometry_ok c \<Longrightarrow> same_line c (reconstruct_addr (set_index a c) (tag_of a c) c) a"
  by (simp add: same_line_iff reconstruct_index tag_of_fits set_index_less)

subsection \<open>Slots\<close>

definition ways_unique :: "cache \<Rightarrow> bool" where
  "ways_unique c \<longleftrightarrow> (\<forall>s < ca_num_sets c. \<forall>i < ca_ways c. \<forall>j < ca_ways c. ln_valid (line_at s i c) \<longrightarrow> ln_valid (line_at s j c)
     \<longrightarrow> ln_tag (line_at s i c) = ln_tag (line_at s j c) \<longrightarrow> i = j)"

definition tags_ok :: "cache \<Rightarrow> bool" where
  "tags_ok c \<longleftrightarrow> (\<forall>s < ca_num_sets c. \<forall>i < ca_ways c. ln_valid (line_at s i c) \<longrightarrow> tag_fits c s (ln_tag (line_at s i c)))"

definition cache_ok :: "cache \<Rightarrow> bool" where
  "cache_ok c \<longleftrightarrow> geometry_ok c \<and> policy_ok (ca_num_sets c) (ca_ways c) (ca_policy c) \<and> ways_unique c \<and> tags_ok c"

text \<open>The dirty bit of the line an address lies in, when the cache holds that line.\<close>

definition cached :: "cache \<Rightarrow> u64 \<Rightarrow> bool option" where
  "cached c a = map_option (\<lambda>i. ln_dirty (line_at (set_index a c) i c)) (way_of (set_index a c) (tag_of a c) c)"

lemma slot_eq: "i < n \<Longrightarrow> j < n \<Longrightarrow> s * n + i = t * n + j \<longleftrightarrow> s = t \<and> i = j" for s t i j n :: nat
  by (metis div_less div_mult_self3 add_cancel_right_right add_left_imp_eq less_nat_zero_code not_gr_zero)

lemma slot_less: "geometry_ok c \<Longrightarrow> s < ca_num_sets c \<Longrightarrow> i < ca_ways c \<Longrightarrow> s * ca_ways c + i < length (ca_lines c)"
proof -
  assume "geometry_ok c" "s < ca_num_sets c" "i < ca_ways c"
  moreover from this have "Suc s * ca_ways c \<le> ca_num_sets c * ca_ways c" by (intro mult_le_mono1) simp
  ultimately show ?thesis using \<open>geometry_ok c\<close> by (simp add: geometry_ok_def)
qed

lemma line_at_set_line:
  "geometry_ok c \<Longrightarrow> s < ca_num_sets c \<Longrightarrow> i < ca_ways c \<Longrightarrow> j < ca_ways c
   \<Longrightarrow> line_at t j (set_line s i l c) = (if t = s \<and> j = i then l else line_at t j c)"
  using slot_less [of c s i] slot_eq [of i "ca_ways c" j s t] by (auto simp: line_at_def set_line_def nth_list_update)

lemma set_line_same [simp]:
  "ca_ways (set_line s i l c) = ca_ways c" "ca_num_sets (set_line s i l c) = ca_num_sets c" "ca_line_bytes (set_line s i l c) = ca_line_bytes c"
  "ca_policy (set_line s i l c) = ca_policy c" "ca_enabled (set_line s i l c) = ca_enabled c" "ca_prefetcher (set_line s i l c) = ca_prefetcher c"
  "length (ca_lines (set_line s i l c)) = length (ca_lines c)"
  by (simp_all add: set_line_def)

text \<open>Only the lines and the geometry matter to a lookup.\<close>

definition same_lines :: "cache \<Rightarrow> cache \<Rightarrow> bool" where
  "same_lines c d \<longleftrightarrow> ca_lines d = ca_lines c \<and> ca_num_sets d = ca_num_sets c \<and> ca_ways d = ca_ways c \<and> ca_line_bytes d = ca_line_bytes c
     \<and> ca_enabled d = ca_enabled c"

lemma same_lines_lookup:
  assumes "same_lines c d"
  shows "geometry_ok d = geometry_ok c" "line_at s i d = line_at s i c" "set_index a d = set_index a c" "tag_of a d = tag_of a c"
    "way_of s t d = way_of s t c" "cached d a = cached c a" "ways_unique d = ways_unique c" "tags_ok d = tags_ok c" "tag_fits d = tag_fits c"
    "same_line d = same_line c"
proof -
  have e: "line_at t j d = line_at t j c" "set_index b d = set_index b c" "tag_of b d = tag_of b c" "tag_fits d s t' = tag_fits c s t'" for t j b s t'
    using assms by (simp_all add: same_lines_def line_at_def set_index_def tag_of_def tag_fits_def)
  then show "line_at s i d = line_at s i c" "set_index a d = set_index a c" "tag_of a d = tag_of a c" "tag_fits d = tag_fits c" by (simp_all add: fun_eq_iff)
  show w: "way_of s t d = way_of s t c" using assms e(1) by (simp add: way_of_def same_lines_def)
  show "geometry_ok d = geometry_ok c" "ways_unique d = ways_unique c" "tags_ok d = tags_ok c" "same_line d = same_line c"
    using assms e by (simp_all add: same_lines_def geometry_ok_def ways_unique_def tags_ok_def same_line_def fun_eq_iff)
  show "cached d a = cached c a" using assms e by (simp add: cached_def way_of_def same_lines_def)
qed

lemma way_of_SomeD: "way_of s t c = Some i \<Longrightarrow> i < ca_ways c \<and> ln_valid (line_at s i c) \<and> ln_tag (line_at s i c) = t"
  by (auto simp: way_of_def find_Some_iff)

lemma way_of_Some_iff:
  assumes "ways_unique c" "s < ca_num_sets c"
  shows "way_of s t c = Some i \<longleftrightarrow> i < ca_ways c \<and> ln_valid (line_at s i c) \<and> ln_tag (line_at s i c) = t"
proof
  assume i: "i < ca_ways c \<and> ln_valid (line_at s i c) \<and> ln_tag (line_at s i c) = t"
  then obtain j where "way_of s t c = Some j" by (cases "way_of s t c") (auto simp: way_of_def find_None_iff)
  with i way_of_SomeD [OF this] show "way_of s t c = Some i" using assms by (auto simp: ways_unique_def)
qed (rule way_of_SomeD)

lemma way_of_None_iff: "way_of s t c = None \<longleftrightarrow> (\<forall>i < ca_ways c. ln_valid (line_at s i c) \<longrightarrow> ln_tag (line_at s i c) \<noteq> t)"
  by (auto simp: way_of_def find_None_iff)

lemma cached_Some_iff:
  assumes "cache_ok c"
  shows "cached c a = Some d \<longleftrightarrow> (\<exists>i < ca_ways c. ln_valid (line_at (set_index a c) i c)
    \<and> ln_tag (line_at (set_index a c) i c) = tag_of a c \<and> ln_dirty (line_at (set_index a c) i c) = d)"
  using assms set_index_less [of c a] by (auto simp: cached_def cache_ok_def way_of_Some_iff)

text \<open>Writing one slot: the line written becomes present, the line it replaces becomes absent, nothing else changes.\<close>

definition put_ok :: "cache \<Rightarrow> nat \<Rightarrow> nat \<Rightarrow> cache_line \<Rightarrow> bool" where
  "put_ok c s i l \<longleftrightarrow> s < ca_num_sets c \<and> i < ca_ways c \<and> (ln_valid l \<longrightarrow> tag_fits c s (ln_tag l)
     \<and> (\<forall>j < ca_ways c. j \<noteq> i \<longrightarrow> ln_valid (line_at s j c) \<longrightarrow> ln_tag (line_at s j c) \<noteq> ln_tag l))"

lemma put_cache_ok: "cache_ok c \<Longrightarrow> put_ok c s i l \<Longrightarrow> cache_ok (set_line s i l c)"
proof -
  assume c: "cache_ok c" and p: "put_ok c s i l"
  then have g: "geometry_ok c" "s < ca_num_sets c" "i < ca_ways c" by (auto simp: cache_ok_def put_ok_def)
  note at = line_at_set_line [OF g]
  have "ways_unique (set_line s i l c)" using c p by (simp add: ways_unique_def at cache_ok_def put_ok_def) metis
  moreover have "tags_ok (set_line s i l c)" using c p by (simp add: tags_ok_def at cache_ok_def put_ok_def tag_fits_def)
  moreover have "geometry_ok (set_line s i l c)" using g(1) by (simp add: geometry_ok_def)
  ultimately show ?thesis using c by (simp add: cache_ok_def)
qed

lemma way_of_put:
  assumes "cache_ok c" "put_ok c s i l" "u < ca_num_sets c"
  shows "way_of u t (set_line s i l c) =
    (if u = s \<and> ln_valid l \<and> ln_tag l = t then Some i
     else if u = s \<and> ln_valid (line_at s i c) \<and> ln_tag (line_at s i c) = t then None else way_of u t c)" (is "_ = ?rhs")
proof -
  have g: "geometry_ok c" "s < ca_num_sets c" "i < ca_ways c" using assms(1,2) by (auto simp: cache_ok_def put_ok_def)
  note at = line_at_set_line [OF g]
  have u: "ways_unique c" "ways_unique (set_line s i l c)" using assms(1) put_cache_ok [OF assms(1,2)] by (auto simp: cache_ok_def)
  have "way_of u t (set_line s i l c) = Some j \<longleftrightarrow> ?rhs = Some j" for j
  proof (cases "j < ca_ways c")
    case True
    then show ?thesis
      using assms(2,3) u(1) g by (simp add: way_of_Some_iff [OF u(2)] way_of_Some_iff [OF u(1)] at put_ok_def ways_unique_def) metis
  next
    case False
    then show ?thesis using g(3) way_of_SomeD [of u t "set_line s i l c" j] way_of_SomeD [of u t c j] by auto
  qed
  then show ?thesis by (metis not_Some_eq)
qed

lemma cached_put:
  assumes "cache_ok c" "put_ok c s i l"
  shows "cached (set_line s i l c) a =
    (if set_index a c = s \<and> ln_valid l \<and> ln_tag l = tag_of a c then Some (ln_dirty l)
     else if set_index a c = s \<and> ln_valid (line_at s i c) \<and> ln_tag (line_at s i c) = tag_of a c then None else cached c a)"
proof -
  have g: "geometry_ok c" "s < ca_num_sets c" "i < ca_ways c" using assms(1,2) by (auto simp: cache_ok_def put_ok_def)
  have e: "set_index a (set_line s i l c) = set_index a c" "tag_of a (set_line s i l c) = tag_of a c" by (simp_all add: set_index_def tag_of_def)
  note way = way_of_put [OF assms set_index_less [OF g(1)], of a] and at = line_at_set_line [OF g]
  show ?thesis
  proof (cases "way_of (set_index a c) (tag_of a c) c")
    case None
    then show ?thesis using g(3) by (auto simp: cached_def e way at)
  next
    case (Some j)
    then have "j < ca_ways c" "ln_valid (line_at (set_index a c) j c)" "ln_tag (line_at (set_index a c) j c) = tag_of a c"
      by (auto dest: way_of_SomeD)
    then show ?thesis using g(3) Some by (auto simp: cached_def e way at)
  qed
qed

subsection \<open>The cache as a map from lines to dirty bits\<close>

definition same_shape :: "cache \<Rightarrow> cache \<Rightarrow> bool" where
  "same_shape c d \<longleftrightarrow> ca_num_sets d = ca_num_sets c \<and> ca_ways d = ca_ways c \<and> ca_line_bytes d = ca_line_bytes c \<and> ca_enabled d = ca_enabled c"

text \<open>The line of \<open>addr\<close> enters with dirty bit \<open>d\<close>, the lines \<open>evs\<close> leave and are reported as they were, all others stay.\<close>

definition installs :: "cache \<Rightarrow> u64 \<Rightarrow> bool \<Rightarrow> evicted_line list \<Rightarrow> cache \<Rightarrow> bool" where
  "installs c addr d evs c' \<longleftrightarrow> cache_ok c' \<and> same_shape c c' \<and> length evs \<le> 1 \<and> (\<forall>e \<in> set evs. cached c (ev_addr e) = Some (ev_dirty e))
     \<and> (\<forall>a. cached c' a = (if same_line c addr a then Some d else if \<exists>e \<in> set evs. same_line c (ev_addr e) a then None else cached c a))"

lemma same_shapeD: "same_shape c d \<Longrightarrow> same_line d = same_line c" "same_shape c d \<Longrightarrow> ca_enabled d = ca_enabled c"
  "same_shape c d \<Longrightarrow> set_index a d = set_index a c" "same_shape c d \<Longrightarrow> tag_of a d = tag_of a c"
  by (auto simp: same_shape_def same_line_def set_index_def tag_of_def fun_eq_iff)

lemma same_shape_refl [simp]: "same_shape c c"
  and same_shape_trans: "same_shape c d \<Longrightarrow> same_shape d e \<Longrightarrow> same_shape c e"
  by (auto simp: same_shape_def)

lemma cached_same_line: "geometry_ok c \<Longrightarrow> same_line c a b \<Longrightarrow> cached c a = cached c b"
  by (simp add: same_line_iff cached_def)

lemma same_lines_update [simp]: "same_lines c (c\<lparr> ca_policy := p \<rparr>)" "same_lines c (c\<lparr> ca_prefetcher := q \<rparr>)"
  by (simp_all add: same_lines_def)

lemma cache_ok_policy: "cache_ok c \<Longrightarrow> policy_ok (ca_num_sets c) (ca_ways c) p \<Longrightarrow> cache_ok (c\<lparr> ca_policy := p \<rparr>)"
  using same_lines_lookup [OF same_lines_update(1) [of c p]] by (simp add: cache_ok_def)

lemma cached_None_iff: "cached c a = None \<longleftrightarrow> way_of (set_index a c) (tag_of a c) c = None"
  by (simp add: cached_def)

lemma install_line_tracked_installs:
  assumes "cache_ok c" "cached c addr = None" "install_line_tracked addr w lat c = ((pen, ev), c')"
  shows "installs c addr w (case ev of None \<Rightarrow> [] | Some e \<Rightarrow> [e]) c' \<and> pen = (if \<exists>e. ev = Some e \<and> ev_dirty e then lat else 0)"
proof -
  let ?s = "set_index addr c" and ?t = "tag_of addr c"
  obtain v pol where v: "policy_victim ?s (ca_policy c) = (v, pol)" by force
  let ?old = "line_at ?s v c" and ?new = "\<lparr> ln_tag = ?t, ln_valid = True, ln_dirty = w \<rparr>" and ?c1 = "c\<lparr> ca_policy := policy_update ?s v pol \<rparr>"
  have g: "geometry_ok c" "?s < ca_num_sets c" "0 < ca_ways c" and pk: "policy_ok (ca_num_sets c) (ca_ways c) (ca_policy c)"
    using assms(1) set_index_less by (auto simp: cache_ok_def geometry_ok_def)
  have vr: "v < ca_ways c" using any.victim_range [OF pk g(2,3)] v by simp
  have ok1: "cache_ok ?c1" using any.replace_ok [OF pk g(2,3)] v by (intro cache_ok_policy assms(1)) simp
  note l1 = same_lines_lookup [OF same_lines_update(1)]
  have put: "put_ok ?c1 ?s v ?new"
    using assms(2) vr g tag_of_fits [OF g(1)] by (simp add: put_ok_def l1 cached_None_iff way_of_None_iff)
  have e: "ev = (if ln_valid ?old then Some \<lparr> ev_addr = reconstruct_addr ?s (ln_tag ?old) c, ev_dirty = ln_dirty ?old \<rparr> else None)"
    "pen = (if ln_valid ?old \<and> ln_dirty ?old then lat else 0)" "c' = set_line ?s v ?new ?c1"
    using assms(3) by (auto simp: install_line_tracked_def v Let_def)
  have old: "set_index (reconstruct_addr ?s (ln_tag ?old) c) c = ?s" "tag_of (reconstruct_addr ?s (ln_tag ?old) c) c = ln_tag ?old" if "ln_valid ?old"
    using assms(1) that vr g by (auto intro!: reconstruct_index simp: cache_ok_def tags_ok_def)
  have "cached c (reconstruct_addr ?s (ln_tag ?old) c) = Some (ln_dirty ?old)" if "ln_valid ?old"
    using that vr old [OF that] assms(1) g by (auto simp: cached_def cache_ok_def way_of_Some_iff)
  then show ?thesis using put_cache_ok [OF ok1 put] g(1) old
    by (auto simp: installs_def e cached_put [OF ok1 put] l1 same_shape_def same_line_iff)
qed

lemma touch_way_spec:
  assumes "cache_ok c" "way_of (set_index addr c) (tag_of addr c) c = Some i"
  shows "cache_ok (touch_way (set_index addr c) i w c) \<and> same_shape c (touch_way (set_index addr c) i w c)
    \<and> (\<forall>a. cached (touch_way (set_index addr c) i w c) a = (if same_line c addr a then Some (w \<or> cached c addr = Some True) else cached c a))"
proof -
  let ?s = "set_index addr c" and ?t = "tag_of addr c"
  let ?c1 = "c\<lparr> ca_policy := policy_update ?s i (ca_policy c) \<rparr>" and ?new = "(line_at ?s i c)\<lparr> ln_dirty := True \<rparr>"
  have g: "geometry_ok c" "?s < ca_num_sets c" and pk: "policy_ok (ca_num_sets c) (ca_ways c) (ca_policy c)" and u: "ways_unique c" "tags_ok c"
    using assms(1) set_index_less by (auto simp: cache_ok_def)
  have i: "i < ca_ways c" "ln_valid (line_at ?s i c)" "ln_tag (line_at ?s i c) = ?t" using way_of_SomeD [OF assms(2)] by auto
  have ok1: "cache_ok ?c1" by (intro cache_ok_policy assms(1) any.update_ok pk g i)
  note l1 = same_lines_lookup [OF same_lines_update(1)]
  have put: "put_ok ?c1 ?s i ?new" using u i g tag_of_fits [OF g(1), of addr] by (auto simp: put_ok_def l1 ways_unique_def tags_ok_def)
  have same: "same_line c addr a \<Longrightarrow> cached c a = Some (ln_dirty (line_at ?s i c))" for a
    using cached_same_line [OF g(1), of addr a] by (simp add: cached_def assms(2))
  show ?thesis
  proof (cases w)
    case True
    then show ?thesis using put_cache_ok [OF ok1 put] i
      by (auto simp: touch_way_def Let_def same_shape_def cached_put [OF ok1 put] l1 same_line_iff [OF g(1)])
  next
    case False
    then show ?thesis using ok1 same by (auto simp: touch_way_def Let_def same_shape_def l1 cached_def assms(2))
  qed
qed

lemma observe_opt_spec:
  assumes "observe_opt a h c = (ts, c')"
  shows "cached c' = cached c \<and> same_shape c c' \<and> (cache_ok c \<longrightarrow> cache_ok c')"
proof (cases "ca_prefetcher c")
  case (Some p)
  then obtain p' where "c' = c\<lparr> ca_prefetcher := p' \<rparr>" using assms by (auto simp: observe_opt_def split: prod.splits)
  then show ?thesis using same_lines_lookup [OF same_lines_update(2) [of c p']] by (simp add: fun_eq_iff same_shape_def cache_ok_def)
qed (use assms in \<open>simp add: observe_opt_def\<close>)

lemma demand_access:
  assumes "cache_ok c" "ca_enabled c" "access_tracked_split addr w lat c = ((hit, pen, evs, ts), c')"
  shows "cache_ok c' \<and> (hit \<longleftrightarrow> cached c addr \<noteq> None) \<and> length evs \<le> (if hit then 0 else 1)
    \<and> pen = (if \<exists>e \<in> set evs. ev_dirty e then lat else 0)
    \<and> (\<forall>e \<in> set evs. cached c (ev_addr e) = Some (ev_dirty e))
    \<and> (\<forall>a. cached c' a = (if same_line c addr a then Some (w \<or> cached c addr = Some True)
         else if \<exists>e \<in> set evs. same_line c (ev_addr e) a then None else cached c a))"
proof (cases "way_of (set_index addr c) (tag_of addr c) c")
  case None
  then have n: "cached c addr = None" by (simp add: cached_None_iff)
  obtain ev c1 where i: "install_line_tracked addr w lat c = ((pen, ev), c1)" "observe_opt addr False c1 = (ts, c')"
    "evs = (case ev of None \<Rightarrow> [] | Some e \<Rightarrow> [e])" "\<not> hit"
    using assms(2,3) None by (auto simp: access_tracked_split_def Let_def split: prod.splits)
  show ?thesis using install_line_tracked_installs [OF assms(1) n i(1)] observe_opt_spec [OF i(2)] i(4) n
    by (auto simp: installs_def i(3) split: option.splits)
next
  case (Some i)
  let ?c1 = "touch_way (set_index addr c) i w c"
  have o: "observe_opt addr True ?c1 = (ts, c')" "hit" "pen = 0" "evs = []"
    using assms(2,3) Some by (auto simp: access_tracked_split_def Let_def split: prod.splits)
  show ?thesis using touch_way_spec [OF assms(1) Some, of w] observe_opt_spec [OF o(1)] o(2-) Some by (auto simp: cached_None_iff)
qed

text \<open>C37. A demand access to a write-back cache. It hits exactly when the line is present; afterwards the line is present, dirty when it was
  written or was dirty before; at most one other line leaves, only on a miss, it is reported with the dirty bit it had, and a write-back is charged
  exactly for a dirty one. Every other line stays as it was, and the cache stays well-formed.\<close>

theorem access_tracked_split_refines:
  assumes "cache_ok c" "ca_enabled c" "access_tracked_split addr w lat c = ((hit, pen, evs, ts), c')"
  shows "cache_ok c' \<and> (hit \<longleftrightarrow> cached c addr \<noteq> None) \<and> length evs \<le> (if hit then 0 else 1)
    \<and> pen = (if \<exists>e \<in> set evs. ev_dirty e then lat else 0)
    \<and> (\<forall>e \<in> set evs. cached c (ev_addr e) = Some (ev_dirty e))
    \<and> (\<forall>a. cached c' a = (if same_line c addr a then Some (w \<or> cached c addr = Some True)
         else if \<exists>e \<in> set evs. same_line c (ev_addr e) a then None else cached c a))"
  by (rule demand_access [OF assms])

text \<open>Clearing the lines that satisfy a predicate, as a flush and an invalidation of the whole cache do.\<close>

definition clear_lines :: "(cache_line \<Rightarrow> bool) \<Rightarrow> cache \<Rightarrow> cache" where
  "clear_lines P c = c\<lparr> ca_lines := map (\<lambda>l. if P l then clear_line l else l) (ca_lines c) \<rparr>"

lemma line_at_clear_lines:
  "geometry_ok c \<Longrightarrow> s < ca_num_sets c \<Longrightarrow> i < ca_ways c
   \<Longrightarrow> line_at s i (clear_lines P c) = (if P (line_at s i c) then clear_line (line_at s i c) else line_at s i c)"
  using slot_less [of c s i] by (simp add: line_at_def clear_lines_def)

lemma clear_lines_ok:
  assumes "cache_ok c"
  shows "cache_ok (clear_lines P c)" "same_shape c (clear_lines P c)"
proof -
  have g: "geometry_ok c" using assms by (simp add: cache_ok_def)
  have shape: "ca_num_sets (clear_lines P c) = ca_num_sets c" "ca_ways (clear_lines P c) = ca_ways c" "ca_line_bytes (clear_lines P c) = ca_line_bytes c"
    "ca_enabled (clear_lines P c) = ca_enabled c" "ca_policy (clear_lines P c) = ca_policy c" "length (ca_lines (clear_lines P c)) = length (ca_lines c)"
    by (simp_all add: clear_lines_def)
  note at = line_at_clear_lines [OF g]
  have "ways_unique (clear_lines P c)" "tags_ok (clear_lines P c)"
    using assms by (simp_all add: cache_ok_def ways_unique_def tags_ok_def at shape clear_line_def tag_fits_def)
  then show "cache_ok (clear_lines P c)" using assms by (simp add: cache_ok_def shape geometry_ok_def)
  show "same_shape c (clear_lines P c)" by (simp add: same_shape_def shape)
qed

lemma cached_clear_lines:
  assumes "cache_ok c" "\<And>l. ln_valid l \<Longrightarrow> P l \<longleftrightarrow> Q (ln_dirty l)"
  shows "cached (clear_lines P c) a = (case cached c a of Some d \<Rightarrow> (if Q d then None else Some d) | None \<Rightarrow> None)"
proof -
  have g: "geometry_ok c" using assms(1) by (simp add: cache_ok_def)
  note sh = same_shapeD(3,4) [OF clear_lines_ok(2) [OF assms(1)]] and at = line_at_clear_lines [OF g set_index_less [OF g]]
  have w: "ca_ways (clear_lines P c) = ca_ways c" by (simp add: clear_lines_def)
  have key: "cached (clear_lines P c) a = Some d \<longleftrightarrow> cached c a = Some d \<and> \<not> Q d" for d
    using assms(2) unfolding cached_Some_iff [OF assms(1)] cached_Some_iff [OF clear_lines_ok(1) [OF assms(1)]] sh w
    by (auto simp: at clear_line_def split: if_splits)
  show ?thesis using key [of True] key [of False] by (cases "cached c a"; cases "cached (clear_lines P c) a"; cases "the (cached c a)") (auto split: if_splits)
qed

lemma dirty_evictions_spec:
  assumes "cache_ok c"
  shows "(\<exists>e \<in> set (dirty_evictions c). same_line c (ev_addr e) a \<and> ev_dirty e) \<longleftrightarrow> cached c a = Some True"
proof -
  let ?w = "ca_ways c" and ?n = "ca_num_sets c"
  have g: "geometry_ok c" "0 < ?w" and t: "tags_ok c" using assms by (auto simp: cache_ok_def geometry_ok_def)
  have len: "length (ca_lines c) = ?n * ?w" using g(1) by (simp add: geometry_ok_def)
  have slot: "s * ?w + i < ?n * ?w \<and> (s * ?w + i) div ?w = s" if "s < ?n" "i < ?w" for s i
    using that slot_less [OF g(1), of s i] len by simp
  have idx: "k div ?w < ?n" "k mod ?w < ?w" "ca_lines c ! k = line_at (k div ?w) (k mod ?w) c" if "k < ?n * ?w" for k
    using that g(2) by (auto simp: line_at_def less_mult_imp_div_less)
  have line: "same_line c (reconstruct_addr s (ln_tag (line_at s i c)) c) a \<longleftrightarrow> s = set_index a c \<and> ln_tag (line_at s i c) = tag_of a c"
    if "s < ?n" "i < ?w" "ln_valid (line_at s i c)" for s i
    using t that by (simp add: same_line_iff [OF g(1)] reconstruct_index [OF g(1)] tags_ok_def)
  have "(\<exists>e \<in> set (dirty_evictions c). same_line c (ev_addr e) a \<and> ev_dirty e)
    \<longleftrightarrow> (\<exists>k < ?n * ?w. ln_valid (ca_lines c ! k) \<and> ln_dirty (ca_lines c ! k) \<and> same_line c (reconstruct_addr (k div ?w) (ln_tag (ca_lines c ! k)) c) a)"
    by (auto simp: dirty_evictions_def len)
  also have "\<dots> \<longleftrightarrow> (\<exists>s < ?n. \<exists>i < ?w. ln_valid (line_at s i c) \<and> ln_dirty (line_at s i c) \<and> same_line c (reconstruct_addr s (ln_tag (line_at s i c)) c) a)"
    using slot idx by (metis line_at_def)
  also have "\<dots> \<longleftrightarrow> (\<exists>s < ?n. \<exists>i < ?w. ln_valid (line_at s i c) \<and> ln_dirty (line_at s i c) \<and> s = set_index a c \<and> ln_tag (line_at s i c) = tag_of a c)"
    using line by blast
  also have "\<dots> \<longleftrightarrow> cached c a = Some True"
    using set_index_less [OF g(1), of a] by (auto simp: cached_Some_iff [OF assms])
  finally show ?thesis .
qed

lemma cache_flush_spec:
  assumes "cache_ok c" "ca_enabled c" "cache_flush c = (evs, c')"
  shows "cache_ok c' \<and> same_shape c c' \<and> (\<forall>a. cached c' a = (if cached c a = Some True then None else cached c a))
    \<and> (\<forall>a. (\<exists>e \<in> set evs. same_line c (ev_addr e) a \<and> ev_dirty e) \<longleftrightarrow> cached c a = Some True)"
proof -
  have c': "c' = clear_lines (\<lambda>l. ln_valid l \<and> ln_dirty l) c" "evs = dirty_evictions c"
    using assms(2,3) by (simp_all add: cache_flush_def clear_lines_def)
  show ?thesis
    using clear_lines_ok [OF assms(1)] by (auto simp: c' cached_clear_lines [OF assms(1), where Q = "\<lambda>d. d"] dirty_evictions_spec [OF assms(1)] split: option.splits)
qed

lemma invalidate_all_spec:
  assumes "cache_ok c" "ca_enabled c" "invalidate_all c = (evs, c')"
  shows "cache_ok c' \<and> same_shape c c' \<and> (\<forall>a. cached c' a = None)
    \<and> (\<forall>a. (\<exists>e \<in> set evs. same_line c (ev_addr e) a \<and> ev_dirty e) \<longleftrightarrow> cached c a = Some True)"
proof -
  have c': "c' = clear_lines ln_valid c" "evs = dirty_evictions c"
    using assms(2,3) by (simp_all add: invalidate_all_def clear_lines_def)
  show ?thesis
    using clear_lines_ok [OF assms(1)] by (auto simp: c' cached_clear_lines [OF assms(1), where Q = "\<lambda>_. True"] dirty_evictions_spec [OF assms(1)] split: option.splits)
qed

lemma invalidate_line_spec:
  assumes "cache_ok c" "ca_enabled c" "invalidate_line addr c = (found, c')"
  shows "cache_ok c' \<and> same_shape c c' \<and> (found \<longleftrightarrow> cached c addr \<noteq> None) \<and> (\<forall>a. cached c' a = (if same_line c addr a then None else cached c a))"
proof (cases "way_of (set_index addr c) (tag_of addr c) c")
  case None
  then have "cached c a = None" if "same_line c addr a" for a
    using that cached_same_line [of c addr a] assms(1) by (simp add: cached_def cache_ok_def)
  then show ?thesis using assms None by (auto simp: invalidate_line_def Let_def cached_None_iff)
next
  case (Some i)
  let ?s = "set_index addr c" and ?l = "clear_line (line_at (set_index addr c) i c)"
  have g: "geometry_ok c" using assms(1) by (simp add: cache_ok_def)
  have i: "i < ca_ways c" "ln_valid (line_at ?s i c)" "ln_tag (line_at ?s i c) = tag_of addr c" using way_of_SomeD [OF Some] by auto
  have put: "put_ok c ?s i ?l" using i set_index_less [OF g] by (simp add: put_ok_def clear_line_def)
  have c': "c' = set_line ?s i ?l c" "found" using assms(2,3) Some by (auto simp: invalidate_line_def Let_def)
  have "\<not> ln_valid ?l" "cached c addr \<noteq> None" using Some by (simp_all add: clear_line_def cached_None_iff)
  then show ?thesis using put_cache_ok [OF assms(1) put] i c'(2)
    by (auto simp: c'(1) cached_put [OF assms(1) put] same_shape_def same_line_iff [OF g])
qed

subsection \<open>No write is lost\<close>

text \<open>The contract of one operation of a write-back store: a dirty line stays present and dirty, or the operation reports it as displaced and
  dirty. The contract composes, so it holds of every sequence of operations.\<close>

locale write_back =
  fixes ok :: "'c \<Rightarrow> bool" and dirty :: "'c \<Rightarrow> u64 \<Rightarrow> bool" and line :: "'c \<Rightarrow> u64 \<Rightarrow> u64 \<Rightarrow> bool"
    and step :: "'o \<Rightarrow> 'c \<Rightarrow> evicted_line list \<times> 'c" and write_op :: "'o \<Rightarrow> u64 \<Rightarrow> bool"
  assumes step_ok: "ok c \<Longrightarrow> ok (snd (step p c)) \<and> line (snd (step p c)) = line c"
    and step_dirty: "ok c \<Longrightarrow> dirty c a \<or> write_op p a
      \<Longrightarrow> dirty (snd (step p c)) a \<or> (\<exists>e \<in> set (fst (step p c)). line c (ev_addr e) a \<and> ev_dirty e)"
begin

primrec run :: "'o list \<Rightarrow> 'c \<Rightarrow> evicted_line list \<times> 'c" where
  "run [] c = ([], c)"
| "run (p # ps) c = (fst (step p c) @ fst (run ps (snd (step p c))), snd (run ps (snd (step p c))))"

lemma run_ok: "ok c \<Longrightarrow> ok (snd (run ps c)) \<and> line (snd (run ps c)) = line c"
  by (induction ps arbitrary: c) (use step_ok in auto)

lemma run_keeps_writes:
  "ok c \<Longrightarrow> dirty c a \<or> (\<exists>p \<in> set ps. write_op p a)
   \<Longrightarrow> dirty (snd (run ps c)) a \<or> (\<exists>e \<in> set (fst (run ps c)). line c (ev_addr e) a \<and> ev_dirty e)"
proof (induction ps arbitrary: c)
  case (Cons p ps)
  let ?c1 = "snd (step p c)"
  have ok1: "ok ?c1" "line ?c1 = line c" using step_ok [OF Cons.prems(1)] by auto
  show ?case
  proof (cases "dirty c a \<or> write_op p a")
    case True
    from step_dirty [OF Cons.prems(1) this] show ?thesis
      using Cons.IH [OF ok1(1)] by (auto simp: ok1(2))
  next
    case False
    then show ?thesis using Cons.IH [OF ok1(1)] Cons.prems(2) by (auto simp: ok1(2))
  qed
qed simp

end

definition tracked :: "cache \<Rightarrow> evicted_line list \<Rightarrow> cache \<Rightarrow> bool" where
  "tracked c evs c' \<longleftrightarrow> cache_ok c' \<and> same_shape c c' \<and> (\<forall>a d. cached c a = Some d \<longrightarrow>
     (\<exists>d'. cached c' a = Some d' \<and> (d \<longrightarrow> d')) \<or> (\<exists>e \<in> set evs. same_line c (ev_addr e) a \<and> (d \<longrightarrow> ev_dirty e)))"

definition accounted :: "cache \<Rightarrow> evicted_line list \<Rightarrow> cache \<Rightarrow> bool" where
  "accounted c evs c' \<longleftrightarrow> cache_ok c' \<and> same_shape c c'
     \<and> (\<forall>a. cached c a = Some True \<longrightarrow> cached c' a = Some True \<or> (\<exists>e \<in> set evs. same_line c (ev_addr e) a \<and> ev_dirty e))"

lemma trackedD: "tracked c evs c' \<Longrightarrow> cached c a = Some d
   \<Longrightarrow> (\<exists>d'. cached c' a = Some d' \<and> (d \<longrightarrow> d')) \<or> (\<exists>e \<in> set evs. same_line c (ev_addr e) a \<and> (d \<longrightarrow> ev_dirty e))"
  by (simp add: tracked_def)

lemma tracked_present: "tracked c evs c' \<Longrightarrow> cached c a \<noteq> None \<Longrightarrow> cached c' a \<noteq> None \<or> (\<exists>e \<in> set evs. same_line c (ev_addr e) a)"
  by (auto dest: trackedD)

lemma tracked_keeps: "tracked c evs c' \<Longrightarrow> cache_ok c'" "tracked c evs c' \<Longrightarrow> same_shape c c'" "tracked c evs c' \<Longrightarrow> ca_enabled c' = ca_enabled c"
  by (auto simp: tracked_def same_shape_def)

lemma tracked_accounted: "tracked c evs c' \<Longrightarrow> accounted c evs c'"
  unfolding accounted_def by (auto dest: trackedD [of _ _ _ _ True] tracked_keeps)

lemma accountedD: "accounted c evs c' \<Longrightarrow> cached c a = Some True \<Longrightarrow> cached c' a = Some True \<or> (\<exists>e \<in> set evs. same_line c (ev_addr e) a \<and> ev_dirty e)"
  by (simp add: accounted_def)

lemma tracked_refl: "cache_ok c \<Longrightarrow> tracked c [] c"
  by (simp add: tracked_def)

lemma tracked_trans:
  assumes "tracked c evs d" "tracked d evs' e"
  shows "tracked c (evs @ evs') e"
  unfolding tracked_def
proof (intro conjI allI impI)
  fix a x
  assume "cached c a = Some x"
  from trackedD [OF assms(1) this] show "(\<exists>x'. cached e a = Some x' \<and> (x \<longrightarrow> x')) \<or> (\<exists>v \<in> set (evs @ evs'). same_line c (ev_addr v) a \<and> (x \<longrightarrow> ev_dirty v))"
  proof
    assume "\<exists>d'. cached d a = Some d' \<and> (x \<longrightarrow> d')"
    then obtain y where "cached d a = Some y" "x \<longrightarrow> y" by blast
    with trackedD [OF assms(2) this(1)] same_shapeD(1) [OF tracked_keeps(2) [OF assms(1)]] show ?thesis by auto
  qed auto
qed (use assms in \<open>auto simp: tracked_def intro: same_shape_trans\<close>)

lemma installs_tracked:
  assumes "cache_ok c" "cached c addr = None" "installs c addr w evs c'"
  shows "tracked c evs c'"
  unfolding tracked_def
proof (intro conjI allI impI)
  fix a d
  assume a: "cached c a = Some d"
  have g: "geometry_ok c" using assms(1) by (simp add: cache_ok_def)
  then have n: "\<not> same_line c addr a" using a assms(2) cached_same_line [OF g, of addr a] by auto
  have "d \<longrightarrow> ev_dirty e" if "e \<in> set evs" "same_line c (ev_addr e) a" for e
    using that a assms(3) cached_same_line [OF g that(2)] by (auto simp: installs_def)
  then show "(\<exists>d'. cached c' a = Some d' \<and> (d \<longrightarrow> d')) \<or> (\<exists>e \<in> set evs. same_line c (ev_addr e) a \<and> (d \<longrightarrow> ev_dirty e))"
    using assms(3) n a by (auto simp: installs_def)
qed (use assms(3) in \<open>auto simp: installs_def\<close>)

lemma install_prefetches_tracked: "cache_ok c \<Longrightarrow> ca_enabled c \<Longrightarrow> install_prefetches ts lat c = (evs, c') \<Longrightarrow> tracked c evs c'"
proof (induction ts lat c arbitrary: evs c' rule: install_prefetches.induct)
  case (2 t ts lat c)
  show ?case
  proof (cases "cache_contains t c")
    case True
    then show ?thesis using 2 by simp
  next
    case False
    then have n: "cached c t = None" using "2.prems" by (simp add: cache_contains_def cached_None_iff)
    obtain pen ev c1 evs' where i: "install_line_tracked t False lat c = ((pen, ev), c1)" "install_prefetches ts lat c1 = (evs', c')"
      "evs = (case ev of None \<Rightarrow> [] | Some e \<Rightarrow> [e]) @ evs'"
      using "2.prems"(3) False by (auto split: prod.splits option.splits)
    have a: "tracked c (case ev of None \<Rightarrow> [] | Some e \<Rightarrow> [e]) c1"
      using install_line_tracked_installs [OF "2.prems"(1) n i(1)] by (intro installs_tracked [OF "2.prems"(1) n]) blast
    then have "cache_ok c1" "ca_enabled c1" using "2.prems"(2) by (auto dest: tracked_keeps)
    then have "tracked c1 evs' c'" using "2.IH"(2) [OF False i(1) [symmetric] _ _ _ _ i(2)] by simp
    then show ?thesis unfolding i(3) by (rule tracked_trans [OF a])
  qed
qed (simp add: tracked_refl)

text \<open>The operations a level of the hierarchy runs with eviction tracking.\<close>

datatype cache_op = Op_access u64 bool u64 | Op_prefetch "u64 list" u64 | Op_flush | Op_invalidate_all

fun cache_step :: "cache_op \<Rightarrow> cache \<Rightarrow> evicted_line list \<times> cache" where
  "cache_step (Op_access addr w lat) c = (let ((_, _, evs), c') = access_tracked addr w lat c in (evs, c'))"
| "cache_step (Op_prefetch ts lat) c = install_prefetches ts lat c"
| "cache_step Op_flush c = cache_flush c"
| "cache_step Op_invalidate_all c = invalidate_all c"

definition op_writes :: "cache_op \<Rightarrow> u64 \<Rightarrow> bool" where
  "op_writes p a \<longleftrightarrow> (\<exists>lat. p = Op_access a True lat)"

lemma demand_tracked:
  assumes "cache_ok c" "ca_enabled c" "access_tracked_split addr w lat c = ((hit, pen, evs, ts), c')"
  shows "tracked c evs c' \<and> cached c' addr = Some (w \<or> cached c addr = Some True)"
proof (cases "way_of (set_index addr c) (tag_of addr c) c")
  case None
  then have n: "cached c addr = None" by (simp add: cached_None_iff)
  obtain ev c1 where i: "install_line_tracked addr w lat c = ((pen, ev), c1)" "observe_opt addr False c1 = (ts, c')" "evs = (case ev of None \<Rightarrow> [] | Some e \<Rightarrow> [e])"
    using assms(2,3) None by (auto simp: access_tracked_split_def Let_def split: prod.splits)
  have inst: "installs c addr w evs c1" using install_line_tracked_installs [OF assms(1) n i(1)] i(3) by blast
  show ?thesis using installs_tracked [OF assms(1) n inst] observe_opt_spec [OF i(2)] inst n same_shape_trans [of c c1 c']
    by (auto simp: tracked_def installs_def same_line_def)
next
  case (Some i)
  let ?c1 = "touch_way (set_index addr c) i w c"
  have g: "geometry_ok c" using assms(1) by (simp add: cache_ok_def)
  have o: "observe_opt addr True ?c1 = (ts, c')" "evs = []" using assms(2,3) Some by (auto simp: access_tracked_split_def Let_def split: prod.splits)
  note t = touch_way_spec [OF assms(1) Some, of w]
  have "\<exists>d'. cached ?c1 a = Some d' \<and> (d \<longrightarrow> d')" if "cached c a = Some d" for a d
    using that t cached_same_line [OF g, of addr a] by (cases "same_line c addr a") auto
  moreover have "cached ?c1 addr = Some (w \<or> cached c addr = Some True)" using t by (simp add: same_line_def)
  ultimately show ?thesis using t observe_opt_spec [OF o(1)] same_shape_trans [of c ?c1 c'] by (simp add: tracked_def)
qed

lemma cache_step_accounted:
  assumes "cache_ok c" "ca_enabled c"
  shows "accounted c (fst (cache_step p c)) (snd (cache_step p c))"
proof (cases p)
  case (Op_access addr w lat)
  obtain hit pen evs ts c1 where a: "access_tracked_split addr w lat c = ((hit, pen, evs, ts), c1)" by (metis prod.collapse)
  obtain evs' c2 where i: "install_prefetches ts lat c1 = (evs', c2)" by force
  have d: "tracked c evs c1" using demand_tracked [OF assms a] by blast
  then have "tracked c1 evs' c2" using assms(2) i by (intro install_prefetches_tracked) (auto dest: tracked_keeps)
  from tracked_accounted [OF tracked_trans [OF d this]] show ?thesis by (simp add: Op_access access_tracked_def a i)
next
  case (Op_prefetch ts lat)
  then show ?thesis using tracked_accounted [OF install_prefetches_tracked [OF assms]] by (metis cache_step.simps(2) prod.collapse)
next
  case Op_flush
  then show ?thesis using cache_flush_spec [OF assms, of "fst (cache_flush c)" "snd (cache_flush c)"] by (simp add: accounted_def)
next
  case Op_invalidate_all
  then show ?thesis using invalidate_all_spec [OF assms, of "fst (invalidate_all c)" "snd (invalidate_all c)"] by (simp add: accounted_def)
qed

lemma cache_step_writes:
  assumes "cache_ok c" "ca_enabled c" "op_writes p a"
  shows "cached (snd (cache_step p c)) a = Some True \<or> (\<exists>e \<in> set (fst (cache_step p c)). same_line c (ev_addr e) a \<and> ev_dirty e)"
proof -
  obtain lat where p: "p = Op_access a True lat" using assms(3) by (auto simp: op_writes_def)
  obtain hit pen evs ts c1 where s: "access_tracked_split a True lat c = ((hit, pen, evs, ts), c1)" by (metis prod.collapse)
  obtain evs' c2 where i: "install_prefetches ts lat c1 = (evs', c2)" by force
  have d: "tracked c evs c1" "cached c1 a = Some True" using demand_tracked [OF assms(1,2) s] by auto
  then have "accounted c1 evs' c2" using assms(2) i by (intro tracked_accounted install_prefetches_tracked) (auto dest: tracked_keeps)
  from accountedD [OF this d(2)] show ?thesis
    using same_shapeD(1) [OF tracked_keeps(2) [OF d(1)]] by (auto simp: p access_tracked_def s i)
qed

interpretation wb: write_back "\<lambda>c. cache_ok c \<and> ca_enabled c" "\<lambda>c a. cached c a = Some True" same_line cache_step op_writes
proof
  fix c p a
  assume c: "cache_ok c \<and> ca_enabled c"
  then have a: "accounted c (fst (cache_step p c)) (snd (cache_step p c))" by (intro cache_step_accounted) auto
  then show "(cache_ok (snd (cache_step p c)) \<and> ca_enabled (snd (cache_step p c))) \<and> same_line (snd (cache_step p c)) = same_line c"
    using c same_shapeD(1,2) [of c "snd (cache_step p c)"] by (simp add: accounted_def)
  show "cached (snd (cache_step p c)) a = Some True \<or> (\<exists>e \<in> set (fst (cache_step p c)). same_line c (ev_addr e) a \<and> ev_dirty e)"
    if "cached c a = Some True \<or> op_writes p a"
    using that accountedD [OF a] cache_step_writes [of c p a] c by blast
qed

primrec cache_run :: "cache_op list \<Rightarrow> cache \<Rightarrow> evicted_line list \<times> cache" where
  "cache_run [] c = ([], c)"
| "cache_run (p # ps) c = (let (evs, c1) = cache_step p c; (evs', c2) = cache_run ps c1 in (evs @ evs', c2))"

lemma cache_run_eq: "cache_run ps c = wb.run ps c"
  by (induction ps arbitrary: c) (simp_all add: split_beta)

lemma cache_new_ok:
  assumes "let l = (if cf_line_bytes g = 0 then 64 else cf_line_bytes g); n = (if cf_size_bytes g = 0 then 4096 else cf_size_bytes g)
    in l * (if cf_ways g = 0 then 1 else cf_ways g) \<le> n \<and> n < 2 ^ 64"
  shows "cache_ok (cache_new g)"
proof -
  let ?l = "if cf_line_bytes g = 0 then 64 else cf_line_bytes g" and ?w = "if cf_ways g = 0 then 1 else cf_ways g"
  let ?n = "if cf_size_bytes g = 0 then 4096 else cf_size_bytes g"
  have b: "?l * ?w \<le> ?n" "?n < 2 ^ 64" and pos: "0 < ?l" "0 < ?w" using assms by (auto simp: Let_def)
  have "0 < ?n div (?l * ?w)" using b(1) pos by (intro div_greater_zero_iff [THEN iffD2] conjI) (auto simp del: mult_eq_0_iff)
  then have sets: "0 < ?n div ?l div ?w" by (simp only: div_mult2_eq)
  have "?n div ?l div ?w \<le> ?n div ?l" by (rule div_le_dividend)
  then have "?l * (?n div ?l div ?w) \<le> ?l * (?n div ?l)" by (rule mult_le_mono2)
  also have "\<dots> \<le> ?n" by (rule times_div_less_eq_dividend)
  finally have size: "?l * (?n div ?l div ?w) < 2 ^ 64" using b(2) by (rule le_less_trans)
  have e: "ca_num_sets (cache_new g) = ?n div ?l div ?w" "ca_ways (cache_new g) = ?w" "ca_line_bytes (cache_new g) = ?l"
    "ca_lines (cache_new g) = replicate (?n div ?l div ?w * ?w) line_default"
    "ca_policy (cache_new g) = policy_new (cf_policy g) (?n div ?l div ?w) ?w"
    by (simp_all only: cache_new_def Let_def cache.simps)
  have geo: "geometry_ok (cache_new g)" unfolding geometry_ok_def e length_replicate using sets pos size by blast
  have "\<not> ln_valid (line_at s i (cache_new g))" if "s < ca_num_sets (cache_new g)" "i < ca_ways (cache_new g)" for s i
    using slot_less [OF geo that] unfolding line_at_def e(4) by (simp add: line_default_def)
  then have "ways_unique (cache_new g)" "tags_ok (cache_new g)" by (simp_all add: ways_unique_def tags_ok_def)
  moreover have "policy_ok (ca_num_sets (cache_new g)) (ca_ways (cache_new g)) (ca_policy (cache_new g))" unfolding e by (rule policy_new_ok)
  ultimately show ?thesis using geo by (simp add: cache_ok_def)
qed


definition demo_cache :: cache where
  "demo_cache = cache_new \<lparr> cf_enabled = True, cf_size_bytes = 256, cf_line_bytes = 64, cf_ways = 2, cf_policy = Policy_Lru, cf_latency = 1,
     cf_prefetcher = Pf_NextLine, cf_prefetch_table_size = 0, cf_prefetch_degree = 1 \<rparr>"

lemma demo_cache_ok: "cache_ok demo_cache" "ca_enabled demo_cache"
  unfolding demo_cache_def by (rule cache_new_ok, simp) (simp add: cache_new_def Let_def)


theorem access_tracked_split_refines_witness:
  "\<exists>pen evs ts c'. access_tracked_split 0x40 True 10 demo_cache = ((False, pen, evs, ts), c') \<and> cached c' 0x40 = Some True"
proof -
  obtain hit pen evs ts c' where r: "access_tracked_split 0x40 True 10 demo_cache = ((hit, pen, evs, ts), c')" by (metis prod.collapse)
  have "cached demo_cache 0x40 = None" by code_simp
  with access_tracked_split_refines [OF demo_cache_ok r] r show ?thesis by (auto simp: same_line_def)
qed

end
