(* ===== verification/Devices.thy ===== *)
theory Devices
  imports Prelude "HOL-Library.Sublist"
begin

text \<open>
  The simple memory-mapped devices (\<open>soc/devices\<close>): the core-local interruptor, the platform interrupt
  controller, the 16550 UART, the host-target interface, the system controller and the real-time clock. Every
  device has the eight register accesses of the \<open>Device\<close> trait at an offset from its base and, where it
  raises interrupts, a tick.

  The host is outside the model: characters the UART prints are appended to \<open>ua_out\<close>, characters that
  arrive on standard input are an argument of the tick, the time of day is an argument of the clock's reads, and
  the exit request that two devices share with the driver is passed through their writes.
\<close>

subsection \<open>Core-local interruptor\<close>

record clint =
  cl_base_addr :: u64
  cl_mtime :: u64
  cl_mtimecmp :: u64
  cl_msip :: u32
  cl_divider :: u64
  cl_counter :: u64

definition clint_new :: "u64 \<Rightarrow> u64 \<Rightarrow> clint" where
  "clint_new base divider = \<lparr> cl_base_addr = base, cl_mtime = 0, cl_mtimecmp = - 1, cl_msip = 0,
     cl_divider = (if divider = 0 then 1 else divider), cl_counter = 0 \<rparr>"

definition MSIP_OFFSET :: u64 where "MSIP_OFFSET = 0x0000"
definition MTIMECMP_OFFSET :: u64 where "MTIMECMP_OFFSET = 0x4000"
definition MTIME_OFFSET :: u64 where "MTIME_OFFSET = 0xBFF8"

definition msip_pending :: "clint \<Rightarrow> bool" where
  "msip_pending c \<longleftrightarrow> cl_msip c AND 1 \<noteq> 0"

definition clint_read_u64 :: "u64 \<Rightarrow> clint \<Rightarrow> u64" where
  "clint_read_u64 offset c =
    (if offset = MSIP_OFFSET then ucast (cl_msip c) else if offset = MTIMECMP_OFFSET then cl_mtimecmp c
     else if offset = MTIME_OFFSET then cl_mtime c else 0)"

definition clint_read_u32 :: "u64 \<Rightarrow> clint \<Rightarrow> u32" where
  "clint_read_u32 offset c =
    (if offset = MSIP_OFFSET then cl_msip c
     else if offset = MTIMECMP_OFFSET then ucast (cl_mtimecmp c)
     else if offset = MTIMECMP_OFFSET + 4 then ucast (drop_bit 32 (cl_mtimecmp c))
     else if offset = MTIME_OFFSET then ucast (cl_mtime c)
     else if offset = MTIME_OFFSET + 4 then ucast (drop_bit 32 (cl_mtime c)) else 0)"

definition clint_read_u16 :: "u64 \<Rightarrow> clint \<Rightarrow> u16" where
  "clint_read_u16 offset c = 0"

definition clint_read_u8 :: "u64 \<Rightarrow> clint \<Rightarrow> u8" where
  "clint_read_u8 offset c =
    (let val = clint_read_u64 (offset AND NOT 7) c; shift = unat (offset AND 7) * 8 in ucast (drop_bit shift val AND 0xFF))"

text \<open>The low and the high half of a 64-bit register.\<close>

definition write_low :: "u32 \<Rightarrow> u64 \<Rightarrow> u64" where
  "write_low val w = (w AND 0xFFFFFFFF00000000) OR ucast val"

definition write_high :: "u32 \<Rightarrow> u64 \<Rightarrow> u64" where
  "write_high val w = (w AND 0x00000000FFFFFFFF) OR push_bit 32 (ucast val)"

definition clint_write_u32 :: "u64 \<Rightarrow> u32 \<Rightarrow> clint \<Rightarrow> clint" where
  "clint_write_u32 offset val c =
    (if offset = MSIP_OFFSET then c\<lparr> cl_msip := val AND 1 \<rparr>
     else if offset = MTIMECMP_OFFSET then c\<lparr> cl_mtimecmp := write_low val (cl_mtimecmp c) \<rparr>
     else if offset = MTIMECMP_OFFSET + 4 then c\<lparr> cl_mtimecmp := write_high val (cl_mtimecmp c) \<rparr>
     else if offset = MTIME_OFFSET then c\<lparr> cl_mtime := write_low val (cl_mtime c) \<rparr>
     else if offset = MTIME_OFFSET + 4 then c\<lparr> cl_mtime := write_high val (cl_mtime c) \<rparr> else c)"

definition clint_write_u64 :: "u64 \<Rightarrow> u64 \<Rightarrow> clint \<Rightarrow> clint" where
  "clint_write_u64 offset val c =
    (if offset = MSIP_OFFSET then c\<lparr> cl_msip := ucast val AND 1 \<rparr>
     else if offset = MTIMECMP_OFFSET then c\<lparr> cl_mtimecmp := val \<rparr>
     else if offset = MTIME_OFFSET then c\<lparr> cl_mtime := val \<rparr> else c)"

definition clint_tick :: "clint \<Rightarrow> clint \<times> bool" where
  "clint_tick c =
    (let c1 = c\<lparr> cl_counter := cl_counter c + 1 \<rparr>;
         c2 = (if cl_divider c1 \<le> cl_counter c1 then c1\<lparr> cl_mtime := cl_mtime c1 + 1, cl_counter := 0 \<rparr> else c1)
     in (c2, cl_mtimecmp c2 \<le> cl_mtime c2))"

text \<open>The lowest reachable state of the divider: the counter stays below it.\<close>

definition clint_ok :: "clint \<Rightarrow> bool" where
  "clint_ok c \<longleftrightarrow> cl_counter c < cl_divider c"

lemma clint_new_ok [inv_intros]: "clint_ok (clint_new base divider)"
  by (auto simp: clint_ok_def clint_new_def word_neq_0_conv)

lemma clint_counter_Suc: "clint_ok c \<Longrightarrow> unat (cl_counter c + 1) = Suc (unat (cl_counter c))"
  using unsigned_less [of "cl_divider c", where ?'a = nat] by (simp add: clint_ok_def word_less_nat_alt unat_word_ariths)

lemma clint_tick_ok [inv_intros]: "clint_ok c \<Longrightarrow> clint_ok (fst (clint_tick c))"
  by (auto simp: clint_ok_def clint_tick_def Let_def not_le) (metis word_gt_0 word_not_simps(1))

lemma clint_tick_keeps:
  "cl_divider (fst (clint_tick c)) = cl_divider c" "cl_mtimecmp (fst (clint_tick c)) = cl_mtimecmp c" "cl_msip (fst (clint_tick c)) = cl_msip c"
  by (simp_all add: clint_tick_def Let_def)

lemma clint_tick_time:
  assumes "clint_ok c"
  shows "unat (cl_counter (fst (clint_tick c))) = Suc (unat (cl_counter c)) mod unat (cl_divider c)"
    "cl_mtime (fst (clint_tick c)) = cl_mtime c + of_nat (Suc (unat (cl_counter c)) div unat (cl_divider c))"
proof -
  let ?k = "unat (cl_counter c)" and ?d = "unat (cl_divider c)"
  have k: "?k < ?d" using assms by (simp add: clint_ok_def word_less_nat_alt)
  have "cl_divider c \<le> cl_counter c + 1 \<longleftrightarrow> Suc ?k = ?d"
    using k by (auto simp: word_le_nat_alt clint_counter_Suc [OF assms])
  with k show "unat (cl_counter (fst (clint_tick c))) = Suc ?k mod ?d" "cl_mtime (fst (clint_tick c)) = cl_mtime c + of_nat (Suc ?k div ?d)"
    by (auto simp: clint_tick_def Let_def clint_counter_Suc [OF assms])
qed

lemma Suc_mod_div: "0 < d \<Longrightarrow> Suc (n mod d) div d + n div d = (k + Suc m) div d" if "n = k + m" for d :: nat
proof -
  assume "0 < d"
  then have "(Suc (n mod d) + d * (n div d)) div d = n div d + Suc (n mod d) div d" by (subst div_mult_self2) simp_all
  moreover have "Suc (n mod d) + d * (n div d) = k + Suc m" using that by (metis add_Suc add_Suc_right mod_mult_div_eq)
  ultimately show ?thesis by simp
qed

definition clint_ticks :: "nat \<Rightarrow> clint \<Rightarrow> clint" where
  "clint_ticks n = (\<lambda>c. fst (clint_tick c)) ^^ n"

lemma clint_ticks_time:
  assumes "clint_ok c"
  shows "clint_ok (clint_ticks n c) \<and> cl_divider (clint_ticks n c) = cl_divider c \<and> cl_mtimecmp (clint_ticks n c) = cl_mtimecmp c
    \<and> unat (cl_counter (clint_ticks n c)) = (unat (cl_counter c) + n) mod unat (cl_divider c)
    \<and> cl_mtime (clint_ticks n c) = cl_mtime c + of_nat ((unat (cl_counter c) + n) div unat (cl_divider c))"
proof (induction n)
  case 0
  then show ?case using assms by (simp add: clint_ticks_def clint_ok_def word_less_nat_alt)
next
  case (Suc n)
  let ?c = "clint_ticks n c" and ?k = "unat (cl_counter c)" and ?d = "unat (cl_divider c)"
  have step: "clint_ticks (Suc n) c = fst (clint_tick ?c)" by (simp add: clint_ticks_def)
  have IH: "clint_ok ?c" "cl_divider ?c = cl_divider c" "unat (cl_counter ?c) = (?k + n) mod ?d" "cl_mtime ?c = cl_mtime c + of_nat ((?k + n) div ?d)"
    using Suc.IH by auto
  have "Suc ((?k + n) mod ?d) div ?d + (?k + n) div ?d = (?k + Suc n) div ?d"
    using assms by (intro Suc_mod_div) (auto simp: clint_ok_def word_less_nat_alt)
  then have "cl_mtime (fst (clint_tick ?c)) = cl_mtime c + of_nat ((?k + Suc n) div ?d)"
    using clint_tick_time(2) [OF IH(1)] IH by (metis (no_types, lifting) add.commute add.left_commute of_nat_add)
  moreover have "unat (cl_counter (fst (clint_tick ?c))) = (?k + Suc n) mod ?d"
    using clint_tick_time(1) [OF IH(1)] IH(2,3) by (simp add: mod_Suc_eq)
  ultimately show ?case using clint_tick_ok [OF IH(1)] Suc.IH by (simp add: step clint_tick_keeps)
qed


subsection \<open>Platform-level interrupt controller\<close>

record plic =
  pl_base_addr :: u64
  pl_priorities :: "u32 list"
  pl_pending :: "u32 list"
  pl_enables :: "u32 list list"
  pl_thresholds :: "u32 list"
  pl_claims :: "u32 list"

definition NUM_CONTEXTS :: nat where "NUM_CONTEXTS = 2"
definition ENABLE_WORDS_PER_CONTEXT :: nat where "ENABLE_WORDS_PER_CONTEXT = 32"
definition PLIC_PRIORITY_BASE :: u64 where "PLIC_PRIORITY_BASE = 0x000000"
definition PLIC_PENDING_BASE :: u64 where "PLIC_PENDING_BASE = 0x001000"
definition PLIC_ENABLE_BASE :: u64 where "PLIC_ENABLE_BASE = 0x002000"
definition PLIC_CONTEXT_BASE :: u64 where "PLIC_CONTEXT_BASE = 0x200000"

definition plic_new :: "u64 \<Rightarrow> plic" where
  "plic_new base = \<lparr> pl_base_addr = base, pl_priorities = replicate 1024 0, pl_pending = replicate 32 0,
     pl_enables = replicate NUM_CONTEXTS (replicate ENABLE_WORDS_PER_CONTEXT 0), pl_thresholds = replicate NUM_CONTEXTS 0,
     pl_claims = replicate NUM_CONTEXTS 0 \<rparr>"

definition update_irqs :: "u64 \<Rightarrow> plic \<Rightarrow> plic" where
  "update_irqs m p = p\<lparr> pl_pending := (pl_pending p)[0 := ucast (m AND 0xFFFFFFFF), 1 := ucast (drop_bit 32 m)] \<rparr>"

definition plic_num_words :: "nat \<Rightarrow> plic \<Rightarrow> nat" where
  "plic_num_words ctx p = min (length (pl_pending p)) (length (pl_enables p ! ctx))"

definition plic_active :: "nat \<Rightarrow> nat \<Rightarrow> plic \<Rightarrow> u32" where
  "plic_active ctx word p = pl_pending p ! word AND pl_enables p ! ctx ! word"

definition has_qualified_irq :: "nat \<Rightarrow> plic \<Rightarrow> bool" where
  "has_qualified_irq ctx p =
    (let threshold = pl_thresholds p ! ctx
     in list_ex (\<lambda>word. let active = plic_active ctx word p in active \<noteq> 0 \<and>
          list_ex (\<lambda>b. let irq_id = word * 32 + b in irq_id \<noteq> 0 \<and> active AND push_bit b 1 \<noteq> 0
            \<and> irq_id < length (pl_priorities p) \<and> threshold < pl_priorities p ! irq_id) [0..<32])
        [0..<plic_num_words ctx p])"

text \<open>The loop keeps the highest priority so far and the interrupt that has it.\<close>

definition calc_max_bit :: "nat \<Rightarrow> u32 \<Rightarrow> nat \<Rightarrow> plic \<Rightarrow> nat \<Rightarrow> u32 \<times> u32 \<Rightarrow> u32 \<times> u32" where
  "calc_max_bit word active ctx p b s =
    (let irq_id = word * 32 + b; threshold = pl_thresholds p ! ctx; (max_prio, max_id) = s
     in if irq_id = 0 then s
        else if active AND push_bit b 1 \<noteq> 0 \<and> irq_id < length (pl_priorities p) then
          (let prio = pl_priorities p ! irq_id
           in if max_prio < prio \<and> threshold < prio then (prio, of_nat irq_id) else s)
        else s)"

definition calc_max_word :: "nat \<Rightarrow> plic \<Rightarrow> nat \<Rightarrow> u32 \<times> u32 \<Rightarrow> u32 \<times> u32" where
  "calc_max_word ctx p word s =
    (let active = plic_active ctx word p in if active = 0 then s else fold (calc_max_bit word active ctx p) [0..<32] s)"

definition calc_max_id :: "nat \<Rightarrow> plic \<Rightarrow> u32" where
  "calc_max_id ctx p = snd (fold (calc_max_word ctx p) [0..<plic_num_words ctx p] (0, 0))"

definition plic_set_claim :: "nat \<Rightarrow> plic \<Rightarrow> plic \<times> bool" where
  "plic_set_claim ctx p =
    (if has_qualified_irq ctx p then (p\<lparr> pl_claims := (pl_claims p)[ctx := calc_max_id ctx p] \<rparr>, True)
     else (p\<lparr> pl_claims := (pl_claims p)[ctx := 0] \<rparr>, False))"

definition plic_check_interrupts :: "plic \<Rightarrow> plic \<times> bool \<times> bool" where
  "plic_check_interrupts p =
    (let (p1, meip) = plic_set_claim 0 p; (p2, seip) = plic_set_claim 1 p1 in (p2, meip, seip))"

definition plic_tick :: "plic \<Rightarrow> plic \<times> bool" where
  "plic_tick p = (let (p', meip, seip) = plic_check_interrupts p in (p', meip \<or> seip))"

text \<open>Clearing the pending bit of an interrupt, on claim and on completion.\<close>

definition plic_clear_pending :: "u32 \<Rightarrow> plic \<Rightarrow> plic" where
  "plic_clear_pending irq_id p =
    (if 0 < irq_id \<and> unat irq_id < 1024 then
       (let idx = unat irq_id div 32; b = push_bit (unat (irq_id mod 32)) 1
        in if idx < length (pl_pending p) then p\<lparr> pl_pending := (pl_pending p)[idx := pl_pending p ! idx AND NOT b] \<rparr> else p)
     else p)"

definition plic_read_u32 :: "u64 \<Rightarrow> plic \<Rightarrow> u32 \<times> plic" where
  "plic_read_u32 offset p =
    (if PLIC_PRIORITY_BASE \<le> offset \<and> offset < PLIC_PENDING_BASE then
       (let idx = unat (offset - PLIC_PRIORITY_BASE) div 4
        in (if idx < length (pl_priorities p) then pl_priorities p ! idx else 0, p))
     else if PLIC_PENDING_BASE \<le> offset \<and> offset < PLIC_ENABLE_BASE then
       (let idx = unat (offset - PLIC_PENDING_BASE) div 4 in (if idx < length (pl_pending p) then pl_pending p ! idx else 0, p))
     else if PLIC_ENABLE_BASE \<le> offset \<and> offset < PLIC_CONTEXT_BASE then
       (let rel = unat (offset - PLIC_ENABLE_BASE); ctx = rel div 0x80; word_idx = rel mod 0x80 div 4
        in (if ctx < NUM_CONTEXTS \<and> word_idx < ENABLE_WORDS_PER_CONTEXT then pl_enables p ! ctx ! word_idx else 0, p))
     else if PLIC_CONTEXT_BASE \<le> offset then
       (let ctx = unat (offset - PLIC_CONTEXT_BASE) div 0x1000; reg = offset AND 0xFFF
        in if ctx < 2 then
             (if reg = 0 then (pl_thresholds p ! ctx, p)
              else if reg = 4 then (let irq_id = pl_claims p ! ctx in (irq_id, plic_clear_pending irq_id p))
              else (0, p))
           else (0, p))
     else (0, p))"

definition plic_write_u32 :: "u64 \<Rightarrow> u32 \<Rightarrow> plic \<Rightarrow> plic" where
  "plic_write_u32 offset val p =
    (if PLIC_PRIORITY_BASE \<le> offset \<and> offset < PLIC_PENDING_BASE then
       (let idx = unat (offset - PLIC_PRIORITY_BASE) div 4
        in if idx < length (pl_priorities p) then p\<lparr> pl_priorities := (pl_priorities p)[idx := val] \<rparr> else p)
     else if PLIC_ENABLE_BASE \<le> offset \<and> offset < PLIC_CONTEXT_BASE then
       (let rel = unat (offset - PLIC_ENABLE_BASE); ctx = rel div 0x80; word_idx = rel mod 0x80 div 4
        in if ctx < NUM_CONTEXTS \<and> word_idx < ENABLE_WORDS_PER_CONTEXT
           then p\<lparr> pl_enables := (pl_enables p)[ctx := (pl_enables p ! ctx)[word_idx := val]] \<rparr> else p)
     else if PLIC_CONTEXT_BASE \<le> offset then
       (let ctx = unat (offset - PLIC_CONTEXT_BASE) div 0x1000; reg = offset AND 0xFFF
        in if ctx < 2 then
             (let p1 = (if reg = 0 then p\<lparr> pl_thresholds := (pl_thresholds p)[ctx := val] \<rparr> else p)
              in if reg = 4 then (let p2 = plic_clear_pending val p1 in p2\<lparr> pl_claims := (pl_claims p2)[ctx := 0] \<rparr>) else p1)
           else p)
     else p)"

definition plic_read_u8 :: "u64 \<Rightarrow> plic \<Rightarrow> u8 \<times> plic" where
  "plic_read_u8 offset p = (let (v, p') = plic_read_u32 (offset AND NOT 3) p in (ucast (drop_bit (unat (offset AND 3) * 8) v), p'))"

definition plic_read_u16 :: "u64 \<Rightarrow> plic \<Rightarrow> u16 \<times> plic" where
  "plic_read_u16 offset p = (let (v, p') = plic_read_u32 (offset AND NOT 3) p in (ucast (drop_bit (unat (offset AND 3) * 8) v), p'))"

definition plic_read_u64 :: "u64 \<Rightarrow> plic \<Rightarrow> u64 \<times> plic" where
  "plic_read_u64 offset p = (let (v, p') = plic_read_u32 offset p in (ucast v, p'))"

text \<open>The narrow writes read the register first, which for the claim register is a claim.\<close>

definition plic_write_u8 :: "u64 \<Rightarrow> u8 \<Rightarrow> plic \<Rightarrow> plic" where
  "plic_write_u8 offset val p =
    (let aligned = offset AND NOT 3; byte_pos = unat (offset AND 3) * 8; (old, p') = plic_read_u32 aligned p;
         m = NOT (push_bit byte_pos 0xFF)
     in plic_write_u32 aligned ((old AND m) OR push_bit byte_pos (ucast val)) p')"

definition plic_write_u16 :: "u64 \<Rightarrow> u16 \<Rightarrow> plic \<Rightarrow> plic" where
  "plic_write_u16 offset val p =
    (let aligned = offset AND NOT 3; byte_pos = unat (offset AND 2) * 8; (old, p') = plic_read_u32 aligned p;
         m = NOT (push_bit byte_pos 0xFFFF)
     in plic_write_u32 aligned ((old AND m) OR push_bit byte_pos (ucast val)) p')"

definition plic_write_u64 :: "u64 \<Rightarrow> u64 \<Rightarrow> plic \<Rightarrow> plic" where
  "plic_write_u64 offset val p = plic_write_u32 offset (ucast val) p"

text \<open>The vectors keep the lengths they are created with.\<close>

definition plic_ok :: "plic \<Rightarrow> bool" where
  "plic_ok p \<longleftrightarrow> length (pl_priorities p) = 1024 \<and> length (pl_pending p) = 32 \<and> length (pl_enables p) = 2
     \<and> (\<forall>e \<in> set (pl_enables p). length e = 32) \<and> length (pl_thresholds p) = 2 \<and> length (pl_claims p) = 2"

lemma plic_ok_enables: "plic_ok p \<Longrightarrow> i < 2 \<Longrightarrow> length (pl_enables p ! i) = 32"
  by (simp add: plic_ok_def)

lemma plic_new_ok [inv_intros]: "plic_ok (plic_new base)"
  by (simp add: plic_ok_def plic_new_def NUM_CONTEXTS_def ENABLE_WORDS_PER_CONTEXT_def)

lemma update_irqs_ok [inv_intros]: "plic_ok p \<Longrightarrow> plic_ok (update_irqs m p)"
  by (simp add: plic_ok_def update_irqs_def)

lemma plic_set_claim_ok [inv_intros]: "plic_ok p \<Longrightarrow> plic_ok (fst (plic_set_claim ctx p))"
  by (simp add: plic_ok_def plic_set_claim_def)

lemma plic_check_interrupts_ok [inv_intros]: "plic_ok p \<Longrightarrow> plic_ok (fst (plic_check_interrupts p))"
  using plic_set_claim_ok [of "fst (plic_set_claim 0 p)" 1] plic_set_claim_ok [of p 0] by (simp add: plic_check_interrupts_def split_beta)

lemma plic_clear_pending_ok [inv_intros]: "plic_ok p \<Longrightarrow> plic_ok (plic_clear_pending i p)"
  by (simp add: plic_ok_def plic_clear_pending_def Let_def)

lemma plic_read_u32_ok [inv_intros]: "plic_ok p \<Longrightarrow> plic_ok (snd (plic_read_u32 offset p))"
  by (simp add: plic_read_u32_def Let_def plic_clear_pending_ok)

lemma plic_write_u32_ok [inv_intros]:
  assumes "plic_ok p"
  shows "plic_ok (plic_write_u32 offset val p)"
proof -
  have e: "e \<in> set ((pl_enables p)[i := (pl_enables p ! i)[j := val]]) \<Longrightarrow> i < 2 \<Longrightarrow> length e = 32" for e i j
    using assms plic_ok_enables [OF assms] by (auto simp: plic_ok_def in_set_conv_nth nth_list_update split: if_splits)
  have c: "plic_ok (q\<lparr> pl_claims := (pl_claims q)[i := 0] \<rparr>)" if "plic_ok q" for q i
    using that by (simp add: plic_ok_def)
  have t: "plic_ok (p\<lparr> pl_thresholds := (pl_thresholds p)[i := val] \<rparr>)" for i
    using assms by (simp add: plic_ok_def)
  have w: "plic_ok (p\<lparr> pl_enables := (pl_enables p)[i := (pl_enables p ! i)[j := val]] \<rparr>)" if "i < 2" for i j
    using assms e that by (simp add: plic_ok_def)
  have r: "plic_ok (p\<lparr> pl_priorities := (pl_priorities p)[i := val] \<rparr>)" for i
    using assms by (simp add: plic_ok_def)
  show ?thesis unfolding plic_write_u32_def Let_def NUM_CONTEXTS_def using assms r w t
    by (simp add: c plic_clear_pending_ok)
qed


text \<open>An interrupt qualifies for a context when it is pending, enabled and above the threshold.\<close>

definition plic_qualified :: "nat \<Rightarrow> plic \<Rightarrow> nat \<Rightarrow> bool" where
  "plic_qualified ctx p i \<longleftrightarrow> 0 < i \<and> i < 1024 \<and> bit (pl_pending p ! (i div 32)) (i mod 32)
     \<and> bit (pl_enables p ! ctx ! (i div 32)) (i mod 32) \<and> pl_thresholds p ! ctx < pl_priorities p ! i"

definition plic_best :: "nat \<Rightarrow> plic \<Rightarrow> nat \<Rightarrow> nat \<Rightarrow> bool" where
  "plic_best ctx p n i \<longleftrightarrow> i < n \<and> plic_qualified ctx p i \<and> (\<forall>j < n. plic_qualified ctx p j \<longrightarrow>
     pl_priorities p ! j < pl_priorities p ! i \<or> pl_priorities p ! j = pl_priorities p ! i \<and> i \<le> j)"

lemma bit_and_single: "w AND 2 ^ b = 0 \<longleftrightarrow> \<not> (b < 32 \<and> bit w b)" for w :: u32
proof (cases "b < 32 \<and> bit w b")
  case True
  then have "bit (w AND 2 ^ b) b" by (simp add: bit_simps)
  with True show ?thesis by auto
next
  case False
  then have "w AND 2 ^ b = 0" by (intro bit_word_eqI) (auto simp: bit_simps)
  with False show ?thesis by simp
qed

lemma plic_active_bit:
  assumes "b < 32"
  shows "bit (plic_active ctx w p) b \<longleftrightarrow> bit (pl_pending p ! ((w * 32 + b) div 32)) ((w * 32 + b) mod 32)
    \<and> bit (pl_enables p ! ctx ! ((w * 32 + b) div 32)) ((w * 32 + b) mod 32)"
  using assms by (simp add: plic_active_def bit_simps)

lemma plic_num_words_ok: "plic_ok p \<Longrightarrow> ctx < 2 \<Longrightarrow> plic_num_words ctx p = 32"
  by (simp add: plic_num_words_def plic_ok_enables) (simp add: plic_ok_def)

definition plic_scan :: "nat \<Rightarrow> plic \<Rightarrow> nat \<Rightarrow> u32 \<times> u32 \<Rightarrow> u32 \<times> u32" where
  "plic_scan ctx p i s = (if plic_qualified ctx p i \<and> fst s < pl_priorities p ! i then (pl_priorities p ! i, of_nat i) else s)"

lemma calc_max_bit_scan:
  assumes "plic_ok p" "w < 32" "b < 32"
  shows "calc_max_bit w (plic_active ctx w p) ctx p b s = plic_scan ctx p (w * 32 + b) s"
proof -
  have "w * 32 + b < 1024" using assms by simp
  with assms show ?thesis
    by (auto simp: calc_max_bit_def plic_scan_def plic_qualified_def bit_and_single plic_active_bit plic_ok_def Let_def split_beta)
qed

lemma calc_max_word_scan:
  assumes "plic_ok p" "w < 32"
  shows "calc_max_word ctx p w s = fold (plic_scan ctx p) (map ((+) (w * 32)) [0..<32]) s"
proof (cases "plic_active ctx w p = 0")
  case True
  then have "\<not> plic_qualified ctx p (w * 32 + b)" if "b < 32" for b
    using plic_active_bit [OF that, of ctx w p] by (auto simp: plic_qualified_def)
  then have "fold (plic_scan ctx p) (map ((+) (w * 32)) [0..<n]) s = s" if "n \<le> 32" for n
    using that by (induction n) (auto simp: plic_scan_def)
  with True show ?thesis by (simp add: calc_max_word_def)
next
  case False
  have "fold (calc_max_bit w (plic_active ctx w p) ctx p) [0..<n] s = fold (plic_scan ctx p) (map ((+) (w * 32)) [0..<n]) s" if "n \<le> 32" for n
    using that by (induction n) (auto simp: calc_max_bit_scan assms)
  from this [of 32] False show ?thesis by (simp add: calc_max_word_def)
qed

lemma calc_max_words_scan:
  assumes "plic_ok p" "n \<le> 32"
  shows "fold (calc_max_word ctx p) [0..<n] s = fold (plic_scan ctx p) [0..<n * 32] s"
  using assms(2)
proof (induction n)
  case (Suc n)
  have "map ((+) (n * 32)) [0..<32] = [n * 32..<32 + n * 32]"
    by (rule trans [OF _ map_add_upt [of "n * 32" 32]]) (auto simp: add.commute)
  then have "[0..<Suc n * 32] = [0..<n * 32] @ map ((+) (n * 32)) [0..<32]"
    using upt_add_eq_append [of 0 "n * 32" 32] by (simp add: add.commute)
  with Suc show ?case by (simp only: fold_append comp_apply upt_Suc) (simp add: calc_max_word_scan assms(1))
qed simp

lemma plic_scan_best:
  assumes "n \<le> 1024"
  shows "if \<exists>i < n. plic_qualified ctx p i then \<exists>i. plic_best ctx p n i \<and> fold (plic_scan ctx p) [0..<n] (0, 0) = (pl_priorities p ! i, of_nat i)
    else fold (plic_scan ctx p) [0..<n] (0, 0) = (0, 0)"
  using assms
proof (induction n)
  case (Suc n)
  let ?s = "fold (plic_scan ctx p) [0..<n] (0, 0)"
  have step: "fold (plic_scan ctx p) [0..<Suc n] (0, 0) = plic_scan ctx p n ?s" by simp
  have pos: "plic_qualified ctx p n \<Longrightarrow> 0 < pl_priorities p ! n"
    unfolding plic_qualified_def by (metis word_coorder.extremum le_less_trans)
  show ?case
  proof (cases "\<exists>i < n. plic_qualified ctx p i")
    case True
    then obtain i where i: "plic_best ctx p n i" "?s = (pl_priorities p ! i, of_nat i)" using Suc by auto
    then have "plic_best ctx p (Suc n) (if plic_qualified ctx p n \<and> pl_priorities p ! i < pl_priorities p ! n then n else i)"
      unfolding plic_best_def less_Suc_eq using linorder_cases by (auto dest: order_less_trans)
    with True i show ?thesis unfolding step by (auto simp: plic_scan_def less_Suc_eq)
  next
    case False
    then have s: "?s = (0, 0)" using Suc by auto
    with False pos show ?thesis unfolding step by (auto simp: plic_scan_def plic_best_def less_Suc_eq)
  qed
qed simp

lemma calc_max_id_best:
  assumes "plic_ok p" "ctx < 2"
  shows "if \<exists>i. plic_qualified ctx p i then \<exists>i. plic_best ctx p 1024 i \<and> calc_max_id ctx p = of_nat i else calc_max_id ctx p = 0"
proof -
  have "fold (calc_max_word ctx p) [0..<plic_num_words ctx p] (0, 0) = fold (plic_scan ctx p) [0..<1024] (0, 0)"
    using calc_max_words_scan [OF assms(1), of 32] by (simp add: plic_num_words_ok assms)
  moreover have "(\<exists>i. plic_qualified ctx p i) \<longleftrightarrow> (\<exists>i < 1024. plic_qualified ctx p i)" by (auto simp: plic_qualified_def)
  ultimately show ?thesis using plic_scan_best [of 1024 ctx p] by (auto simp: calc_max_id_def split: if_splits)
qed

lemma has_qualified_irq_iff:
  assumes "plic_ok p" "ctx < 2"
  shows "has_qualified_irq ctx p \<longleftrightarrow> (\<exists>i. plic_qualified ctx p i)"
proof -
  have irq: "plic_qualified ctx p (w * 32 + b) \<longleftrightarrow> plic_active ctx w p \<noteq> 0 \<and> w * 32 + b \<noteq> 0 \<and> plic_active ctx w p AND push_bit b 1 \<noteq> 0
      \<and> w * 32 + b < length (pl_priorities p) \<and> pl_thresholds p ! ctx < pl_priorities p ! (w * 32 + b)" if "w < 32" "b < 32" for w b
    using that assms plic_active_bit [OF that(2), of ctx w p] by (auto simp: plic_qualified_def plic_ok_def bit_and_single)
  have "has_qualified_irq ctx p \<longleftrightarrow> (\<exists>w < 32. \<exists>b < 32. plic_qualified ctx p (w * 32 + b))"
    unfolding has_qualified_irq_def Let_def list_ex_iff plic_num_words_ok [OF assms] set_upt Bex_def atLeastLessThan_iff using irq by blast
  also have "\<dots> \<longleftrightarrow> (\<exists>i. plic_qualified ctx p i)"
  proof
    assume "\<exists>i. plic_qualified ctx p i"
    then obtain i where i: "plic_qualified ctx p i" ..
    then have "i div 32 < 32" "i mod 32 < 32" "i div 32 * 32 + i mod 32 = i" by (auto simp: plic_qualified_def)
    with i show "\<exists>w < 32. \<exists>b < 32. plic_qualified ctx p (w * 32 + b)" by metis
  qed auto
  finally show ?thesis .
qed


lemma plic_set_claim_keeps:
  "plic_ok (fst (plic_set_claim c p)) = plic_ok p" "plic_qualified ctx (fst (plic_set_claim c p)) = plic_qualified ctx p"
  "pl_priorities (fst (plic_set_claim c p)) = pl_priorities p" "calc_max_id ctx (fst (plic_set_claim c p)) = calc_max_id ctx p"
proof -
  obtain cl where "fst (plic_set_claim c p) = p\<lparr> pl_claims := (pl_claims p)[c := cl] \<rparr>" by (cases "has_qualified_irq c p") (auto simp: plic_set_claim_def)
  moreover have "calc_max_bit w a ctx (p\<lparr> pl_claims := x \<rparr>) = calc_max_bit w a ctx p" for w a x
    by (intro ext) (simp add: calc_max_bit_def Let_def split_beta)
  then have "calc_max_word ctx (p\<lparr> pl_claims := x \<rparr>) = calc_max_word ctx p" for x
    by (intro ext) (simp add: calc_max_word_def plic_active_def Let_def)
  ultimately show "plic_ok (fst (plic_set_claim c p)) = plic_ok p" "plic_qualified ctx (fst (plic_set_claim c p)) = plic_qualified ctx p"
    "pl_priorities (fst (plic_set_claim c p)) = pl_priorities p" "calc_max_id ctx (fst (plic_set_claim c p)) = calc_max_id ctx p"
    by (auto simp: plic_ok_def plic_qualified_def [abs_def] calc_max_id_def plic_num_words_def)
qed

lemma plic_set_claim_spec:
  assumes "plic_ok p" "ctx < 2"
  shows "snd (plic_set_claim ctx p) \<longleftrightarrow> (\<exists>i. plic_qualified ctx p i)"
    "pl_claims (fst (plic_set_claim ctx p)) = (pl_claims p)[ctx := calc_max_id ctx p]"
  using has_qualified_irq_iff [OF assms] calc_max_id_best [OF assms] by (auto simp: plic_set_claim_def)

lemma plic_clear_pending_nth:
  assumes "plic_ok p" "0 < i" "i < 1024" "k < 32"
  shows "bit (pl_pending (plic_clear_pending (of_nat i) p) ! k) b \<longleftrightarrow> bit (pl_pending p ! k) b \<and> k * 32 + b \<noteq> i"
proof -
  have i: "unat (of_nat i :: u32) = i" using assms(3) by (simp add: unsigned_of_nat take_bit_nat_eq_self)
  have m: "unat (of_nat i mod 32 :: u32) = i mod 32" by (simp add: unat_mod i)
  have "b < 32 \<Longrightarrow> k * 32 + b = i \<longleftrightarrow> k = i div 32 \<and> b = i mod 32" by auto
  moreover have "bit (pl_pending p ! k) b \<Longrightarrow> b < 32" by (auto dest: bit_imp_le_length)
  ultimately show ?thesis using assms i
    by (auto simp: plic_clear_pending_def Let_def m plic_ok_def nth_list_update bit_simps word_less_nat_alt)
qed

lemma plic_read_claim:
  assumes "ctx < 2"
  shows "plic_read_u32 (0x200004 + of_nat ctx * 0x1000) q = (pl_claims q ! ctx, plic_clear_pending (pl_claims q ! ctx) q)"
proof -
  have "plic_read_u32 0x200004 q = (pl_claims q ! 0, plic_clear_pending (pl_claims q ! 0) q)"
    "plic_read_u32 0x201004 q = (pl_claims q ! 1, plic_clear_pending (pl_claims q ! 1) q)"
    by (simp_all add: plic_read_u32_def Let_def PLIC_PRIORITY_BASE_def PLIC_PENDING_BASE_def PLIC_ENABLE_BASE_def PLIC_CONTEXT_BASE_def)
  with assms show ?thesis by (auto simp: less_2_cases_iff)
qed

text \<open>C32. Arbitration and claim. After the controller is ticked, a context's interrupt line is high exactly when some
  interrupt is pending, enabled for the context and above its threshold; reading the claim register then returns the one
  of highest priority, the lowest number among equals, and clears that pending bit and no other. With no
  qualified interrupt the claim register reads 0 and nothing changes.\<close>

theorem plic_claims_best_interrupt:
  assumes "plic_ok p" "ctx < 2"
  defines "p' \<equiv> fst (plic_check_interrupts p)"
  defines "claim \<equiv> plic_read_u32 (0x200004 + of_nat ctx * 0x1000) p'"
  shows "((if ctx = 0 then fst (snd (plic_check_interrupts p)) else snd (snd (plic_check_interrupts p))) \<longleftrightarrow> (\<exists>i. plic_qualified ctx p i))
    \<and> (if \<exists>i. plic_qualified ctx p i
      then \<exists>i. plic_qualified ctx p i \<and> fst claim = of_nat i
        \<and> (\<forall>j. plic_qualified ctx p j \<longrightarrow> pl_priorities p ! j < pl_priorities p ! i \<or> pl_priorities p ! j = pl_priorities p ! i \<and> i \<le> j)
        \<and> (\<forall>k < 32. \<forall>b < 32. bit (pl_pending (snd claim) ! k) b \<longleftrightarrow> bit (pl_pending p ! k) b \<and> k * 32 + b \<noteq> i)
      else claim = (0, p'))"
proof (intro conjI)
  let ?p1 = "fst (plic_set_claim 0 p)"
  have ok1: "plic_ok ?p1" by (simp add: plic_set_claim_keeps assms)
  have p': "p' = fst (plic_set_claim 1 ?p1)" by (simp add: p'_def plic_check_interrupts_def split_beta)
  have ok': "plic_ok p'" unfolding p' by (simp add: plic_set_claim_keeps assms)
  have pend: "pl_pending p' = pl_pending p" by (simp add: p' plic_set_claim_def)
  have cl: "pl_claims p' = (pl_claims p)[0 := calc_max_id 0 p, 1 := calc_max_id 1 p]"
    using plic_set_claim_spec(2) [OF assms(1), of 0] plic_set_claim_spec(2) [OF ok1, of 1] by (simp add: p' plic_set_claim_keeps)
  show "(if ctx = 0 then fst (snd (plic_check_interrupts p)) else snd (snd (plic_check_interrupts p))) \<longleftrightarrow> (\<exists>i. plic_qualified ctx p i)"
    using plic_set_claim_spec(1) [OF assms(1), of 0] plic_set_claim_spec(1) [OF ok1, of 1] assms(2)
    by (cases "ctx = 0") (auto simp: plic_check_interrupts_def split_beta plic_set_claim_keeps less_2_cases_iff)
  have c: "pl_claims p' ! ctx = calc_max_id ctx p" using assms(1,2) cl by (auto simp: less_2_cases_iff plic_ok_def)
  have claim: "claim = (calc_max_id ctx p, plic_clear_pending (calc_max_id ctx p) p')"
    unfolding claim_def by (simp only: plic_read_claim [OF assms(2)] c)
  show "if \<exists>i. plic_qualified ctx p i
      then \<exists>i. plic_qualified ctx p i \<and> fst claim = of_nat i
        \<and> (\<forall>j. plic_qualified ctx p j \<longrightarrow> pl_priorities p ! j < pl_priorities p ! i \<or> pl_priorities p ! j = pl_priorities p ! i \<and> i \<le> j)
        \<and> (\<forall>k < 32. \<forall>b < 32. bit (pl_pending (snd claim) ! k) b \<longleftrightarrow> bit (pl_pending p ! k) b \<and> k * 32 + b \<noteq> i)
      else claim = (0, p')"
  proof (cases "\<exists>i. plic_qualified ctx p i")
    case True
    then obtain i where i: "plic_best ctx p 1024 i" "calc_max_id ctx p = of_nat i" using calc_max_id_best [OF assms(1,2)] by auto
    then have q: "plic_qualified ctx p i" "0 < i" "i < 1024" by (auto simp: plic_best_def plic_qualified_def)
    have "\<forall>j. plic_qualified ctx p j \<longrightarrow> pl_priorities p ! j < pl_priorities p ! i \<or> pl_priorities p ! j = pl_priorities p ! i \<and> i \<le> j"
      using i(1) by (auto simp: plic_best_def plic_qualified_def)
    with True q i(2) show ?thesis by (auto simp: claim plic_clear_pending_nth ok' pend)
  next
    case False
    then have "calc_max_id ctx p = 0" using calc_max_id_best [OF assms(1,2)] by simp
    with False show ?thesis by (simp add: claim plic_clear_pending_def)
  qed
qed


definition demo_plic :: plic where
  "demo_plic = fold (\<lambda>(offset, val). plic_write_u32 offset val)
     [(4, 3), (40, 5), (44, 5), (0x2080, 0xC02), (0x201000, 2)] (update_irqs 0xC02 (plic_new 0x0c000000))"

lemma demo_plic_ok: "plic_ok demo_plic"
  by (simp add: demo_plic_def plic_write_u32_ok update_irqs_ok plic_new_ok)

theorem plic_claims_best_interrupt_witness:
  "plic_qualified 1 demo_plic 10 \<and> (\<exists>i. plic_qualified 1 demo_plic i
    \<and> fst (plic_read_u32 (0x200004 + of_nat 1 * 0x1000) (fst (plic_check_interrupts demo_plic))) = of_nat i)"
proof -
  have q: "plic_qualified 1 demo_plic 10" by code_simp
  with plic_claims_best_interrupt [OF demo_plic_ok, of 1] show ?thesis by (auto split: if_splits)
qed

text \<open>The line of a device is copied into the pending bits at every tick of the bus, also while the interrupt is
  being served: a claimed level interrupt is pending again at once, before its completion.\<close>

lemma low32: "ucast (m AND 0xFFFFFFFF) = (ucast m :: u32)" for m :: u64
proof -
  have "(0xFFFFFFFF :: u64) = mask 32" by (simp add: mask_eq_exp_minus_1)
  then show ?thesis by (intro bit_word_eqI) (simp only: bit_unsigned_iff bit_and_iff bit_mask_iff, auto)
qed

theorem plic_claim_not_remembered:
  assumes "plic_ok p" "0 < i" "i < 64" "bit m i"
  shows "bit (pl_pending (update_irqs m (plic_clear_pending (of_nat i) p)) ! (i div 32)) (i mod 32)"
proof -
  have "length (pl_pending (plic_clear_pending (of_nat i) p)) = 32" using plic_clear_pending_ok [OF assms(1)] by (simp add: plic_ok_def)
  moreover have "i < 32 \<or> (i div 32 = 1 \<and> 32 + i mod 32 = i)" using assms(3) by (auto simp: mod_if div_if)
  ultimately show ?thesis using assms(4) unfolding update_irqs_def low32 by (elim disjE) (simp_all add: bit_simps)
qed

subsection \<open>UART\<close>

record uart =
  ua_base_addr :: u64
  ua_rx_queue :: "u8 list"
  ua_ier :: u8
  ua_lcr :: u8
  ua_mcr :: u8
  ua_scr :: u8
  ua_div :: u16
  ua_tick_count :: u8
  ua_thre_ip :: bool
  ua_quiet :: bool
  ua_panic_match_state :: nat
  ua_panic_detected :: bool
  ua_out :: "u8 list"

definition uart_new :: "u64 \<Rightarrow> bool \<Rightarrow> uart" where
  "uart_new base quiet = \<lparr> ua_base_addr = base, ua_rx_queue = [], ua_ier = 0, ua_lcr = 0, ua_mcr = 0, ua_scr = 0, ua_div = 0,
     ua_tick_count = 0, ua_thre_ip = True, ua_quiet = quiet, ua_panic_match_state = 0, ua_panic_detected = False, ua_out = [] \<rparr>"

text \<open>\<open>try_recv\<close> empties the channel the reader thread of standard input fills.\<close>

definition check_stdin :: "u8 list \<Rightarrow> uart \<Rightarrow> uart" where
  "check_stdin received u = u\<lparr> ua_rx_queue := ua_rx_queue u @ received \<rparr>"

definition IIR_NO_INTERRUPT :: u8 where "IIR_NO_INTERRUPT = 0x01"
definition IIR_THRE :: u8 where "IIR_THRE = 0x02"
definition IIR_RDA :: u8 where "IIR_RDA = 0x04"
definition IIR_ID_MASK :: u8 where "IIR_ID_MASK = 0xC0"
definition LSR_DATA_READY :: u8 where "LSR_DATA_READY = 0x01"
definition LSR_DEFAULT :: u8 where "LSR_DEFAULT = 0x20 OR 0x40"
definition LCR_DLAB :: u8 where "LCR_DLAB = 0x80"
definition IER_RDA :: u8 where "IER_RDA = 0x01"
definition IER_THRE :: u8 where "IER_THRE = 0x02"

definition update_interrupts :: "uart \<Rightarrow> u8" where
  "update_interrupts u =
    (if ua_ier u AND IER_RDA \<noteq> 0 \<and> ua_rx_queue u \<noteq> [] then IIR_RDA
     else if ua_ier u AND IER_THRE \<noteq> 0 \<and> ua_thre_ip u then IIR_THRE else IIR_NO_INTERRUPT)"

text \<open>\<open>kernel panic\<close>\<close>

definition PATTERN :: "u8 list" where
  "PATTERN = [107, 101, 114, 110, 101, 108, 32, 112, 97, 110, 105, 99]"

definition to_lower :: "u8 \<Rightarrow> u8" where
  "to_lower ch = (if 65 \<le> ch \<and> ch \<le> 90 then ch + 32 else ch)"

definition check_char_for_panic :: "u8 \<Rightarrow> uart \<Rightarrow> uart \<times> bool" where
  "check_char_for_panic ch u =
    (let ch_lower = to_lower ch
     in if ch_lower = PATTERN ! ua_panic_match_state u then
          (let u1 = u\<lparr> ua_panic_match_state := ua_panic_match_state u + 1 \<rparr>
           in if ua_panic_match_state u1 = length PATTERN then (u1\<lparr> ua_panic_detected := True, ua_panic_match_state := 0 \<rparr>, True)
              else (u1, False))
        else if ch_lower = 107 then (u\<lparr> ua_panic_match_state := 1 \<rparr>, False)
        else (u\<lparr> ua_panic_match_state := 0 \<rparr>, False))"

definition dlab_set :: "uart \<Rightarrow> bool" where
  "dlab_set u \<longleftrightarrow> ua_lcr u AND LCR_DLAB \<noteq> 0"

definition read_rbr_or_dll :: "uart \<Rightarrow> u8 \<times> uart" where
  "read_rbr_or_dll u =
    (if dlab_set u then (ucast (ua_div u AND 0xFF), u)
     else case ua_rx_queue u of [] \<Rightarrow> (0, u) | b # q \<Rightarrow> (b, u\<lparr> ua_rx_queue := q \<rparr>))"

definition read_ier_or_dlm :: "uart \<Rightarrow> u8" where
  "read_ier_or_dlm u = (if dlab_set u then ucast (drop_bit 8 (ua_div u)) else ua_ier u)"

definition read_iir :: "uart \<Rightarrow> u8 \<times> uart" where
  "read_iir u = (let iir = update_interrupts u
     in (IIR_ID_MASK OR iir, if iir = IIR_THRE then u\<lparr> ua_thre_ip := False \<rparr> else u))"

definition read_lsr :: "uart \<Rightarrow> u8" where
  "read_lsr u = (if ua_rx_queue u \<noteq> [] then LSR_DEFAULT OR LSR_DATA_READY else LSR_DEFAULT)"

definition write_thr_or_dll :: "u8 \<Rightarrow> uart \<Rightarrow> uart" where
  "write_thr_or_dll val u =
    (if dlab_set u then u\<lparr> ua_div := (ua_div u AND 0xFF00) OR ucast val \<rparr>
     else let (u1, panicked) = check_char_for_panic val u
          in if panicked then u1
             else u1\<lparr> ua_out := (if ua_quiet u1 then ua_out u1 else ua_out u1 @ [val]), ua_thre_ip := True \<rparr>)"

definition write_ier_or_dlm :: "u8 \<Rightarrow> uart \<Rightarrow> uart" where
  "write_ier_or_dlm val u =
    (if dlab_set u then u\<lparr> ua_div := (ua_div u AND 0x00FF) OR push_bit 8 (ucast val) \<rparr>
     else let u1 = u\<lparr> ua_ier := val \<rparr> in if ua_ier u1 AND IER_THRE \<noteq> 0 then u1\<lparr> ua_thre_ip := True \<rparr> else u1)"

definition uart_read_u8 :: "u64 \<Rightarrow> uart \<Rightarrow> u8 \<times> uart" where
  "uart_read_u8 offset u =
    (if offset = 0 then read_rbr_or_dll u else if offset = 1 then (read_ier_or_dlm u, u) else if offset = 2 then read_iir u
     else if offset = 3 then (ua_lcr u, u) else if offset = 4 then (ua_mcr u, u) else if offset = 5 then (read_lsr u, u)
     else if offset = 7 then (ua_scr u, u) else (0, u))"

definition uart_read_u16 :: "u64 \<Rightarrow> uart \<Rightarrow> u16 \<times> uart" where
  "uart_read_u16 offset u = map_prod ucast id (uart_read_u8 offset u)"

definition uart_read_u32 :: "u64 \<Rightarrow> uart \<Rightarrow> u32 \<times> uart" where
  "uart_read_u32 offset u = map_prod ucast id (uart_read_u8 offset u)"

definition uart_read_u64 :: "u64 \<Rightarrow> uart \<Rightarrow> u64 \<times> uart" where
  "uart_read_u64 offset u = map_prod ucast id (uart_read_u8 offset u)"

definition uart_write_u8 :: "u64 \<Rightarrow> u8 \<Rightarrow> uart \<Rightarrow> uart" where
  "uart_write_u8 offset val u =
    (if offset = 0 then write_thr_or_dll val u else if offset = 1 then write_ier_or_dlm val u
     else if offset = 3 then u\<lparr> ua_lcr := val \<rparr> else if offset = 4 then u\<lparr> ua_mcr := val \<rparr>
     else if offset = 7 then u\<lparr> ua_scr := val \<rparr> else u)"

definition uart_write_u16 :: "u64 \<Rightarrow> u16 \<Rightarrow> uart \<Rightarrow> uart" where
  "uart_write_u16 offset val u = uart_write_u8 offset (ucast val) u"

definition uart_write_u32 :: "u64 \<Rightarrow> u32 \<Rightarrow> uart \<Rightarrow> uart" where
  "uart_write_u32 offset val u = uart_write_u8 offset (ucast val) u"

definition uart_write_u64 :: "u64 \<Rightarrow> u64 \<Rightarrow> uart \<Rightarrow> uart" where
  "uart_write_u64 offset val u = uart_write_u8 offset (ucast val) u"

definition uart_tick :: "u8 list \<Rightarrow> uart \<Rightarrow> uart \<times> bool" where
  "uart_tick received u =
    (let u1 = u\<lparr> ua_tick_count := ua_tick_count u + 1 \<rparr>;
         u2 = (if ua_tick_count u1 = 0 then check_stdin received u1 else u1)
     in (u2, update_interrupts u2 AND IIR_NO_INTERRUPT = 0))"

text \<open>The matcher: its state is the length of the longest proper prefix of the pattern that ends the text. The
  first letter of the pattern occurs nowhere else in it, which is why falling back to that letter is enough.\<close>

lemma PATTERN_length: "length PATTERN = 12"
  by (simp add: PATTERN_def)

lemma PATTERN_head: "i < 12 \<Longrightarrow> PATTERN ! i = 107 \<longleftrightarrow> i = 0"
  by (auto simp: PATTERN_def nth_Cons' split: if_splits)

lemma PATTERN_last: "i < 12 \<Longrightarrow> PATTERN ! i = 99 \<longleftrightarrow> i = 11"
  by (auto simp: PATTERN_def nth_Cons' split: if_splits)

lemma suffix_take_snoc:
  assumes "j < 12"
  shows "suffix (take (Suc j) PATTERN) (t @ [c]) \<longleftrightarrow> suffix (take j PATTERN) t \<and> PATTERN ! j = c"
  using assms by (auto simp: take_Suc_conv_app_nth PATTERN_length)

definition matched :: "u8 list \<Rightarrow> nat \<Rightarrow> bool" where
  "matched t k \<longleftrightarrow> k < 12 \<and> suffix (take k PATTERN) t \<and> (\<forall>j. k < j \<longrightarrow> j < 12 \<longrightarrow> \<not> suffix (take j PATTERN) t)"

lemma no_overlap:
  assumes "suffix (take j PATTERN) t" "suffix (take k PATTERN) t" "0 < j" "j \<le> k" "k < 12"
  shows "j = k"
proof (rule ccontr)
  assume "j \<noteq> k"
  have "suffix (take j PATTERN) (take k PATTERN)"
    using suffix_length_suffix [OF assms(1,2)] assms(4,5) by (simp add: PATTERN_length)
  then obtain xs where xs: "take k PATTERN = xs @ take j PATTERN" by (auto simp: suffix_def)
  then have len: "length xs = k - j" using assms(4,5) by (auto simp: PATTERN_length dest: arg_cong [of _ _ length])
  have "take k PATTERN ! (k - j) = PATTERN ! 0" using assms(3,5) by (simp add: xs nth_append len)
  moreover have "take k PATTERN ! (k - j) = PATTERN ! (k - j)" using assms(3,4) \<open>j \<noteq> k\<close> by simp
  moreover have "k - j < 12" "k - j \<noteq> 0" using assms(4,5) \<open>j \<noteq> k\<close> by simp_all
  ultimately show False using PATTERN_head [of "k - j"] PATTERN_head [of 0] by simp
qed

lemma matched_step:
  assumes "matched t k"
  shows "matched (t @ [c]) (if c = PATTERN ! k then (if Suc k = 12 then 0 else Suc k) else if c = 107 then 1 else 0)"
    "suffix PATTERN (t @ [c]) \<longleftrightarrow> c = PATTERN ! k \<and> Suc k = 12"
proof -
  have k: "k < 12" "suffix (take k PATTERN) t" "\<And>j. k < j \<Longrightarrow> j < 12 \<Longrightarrow> \<not> suffix (take j PATTERN) t"
    using assms by (auto simp: matched_def)
  have ext: "suffix (take j PATTERN) (t @ [c]) \<longleftrightarrow> (j = Suc k \<and> c = PATTERN ! k) \<or> (j = 1 \<and> c = 107)" if "0 < j" "j \<le> 12" for j
  proof -
    obtain i where i: "j = Suc i" "i < 12" using \<open>0 < j\<close> \<open>j \<le> 12\<close> by (cases j) auto
    have "suffix (take i PATTERN) t \<longleftrightarrow> i = k \<or> i = 0"
      using no_overlap [of i t k] k i(2) by (cases "k < i") auto
    then show ?thesis using PATTERN_head [of 0] unfolding i(1) suffix_take_snoc [OF i(2)] by auto
  qed
  show "suffix PATTERN (t @ [c]) \<longleftrightarrow> c = PATTERN ! k \<and> Suc k = 12"
    using ext [of 12] by (auto simp: PATTERN_length)
  define S where "S j = suffix (take j PATTERN) (t @ [c])" for j
  have S: "S 0" "\<And>j. 0 < j \<Longrightarrow> j \<le> 12 \<Longrightarrow> S j \<longleftrightarrow> (j = Suc k \<and> c = PATTERN ! k) \<or> (j = 1 \<and> c = 107)"
    using ext by (auto simp: S_def)
  show "matched (t @ [c]) (if c = PATTERN ! k then (if Suc k = 12 then 0 else Suc k) else if c = 107 then 1 else 0)"
    using S k(1) PATTERN_last [of k] PATTERN_last [of 11] PATTERN_head [of k] unfolding matched_def S_def [symmetric] by auto
qed

lemma check_char_for_panic_step:
  assumes "matched t (ua_panic_match_state u)"
  shows "matched (t @ [to_lower c]) (ua_panic_match_state (fst (check_char_for_panic c u)))"
    "snd (check_char_for_panic c u) \<longleftrightarrow> suffix PATTERN (t @ [to_lower c])"
    "ua_panic_detected (fst (check_char_for_panic c u)) \<longleftrightarrow> ua_panic_detected u \<or> suffix PATTERN (t @ [to_lower c])"
  using matched_step [OF assms, of "to_lower c"] unfolding check_char_for_panic_def Let_def PATTERN_length by (auto split: if_splits)


lemma check_char_for_panic_keeps:
  "ua_lcr (fst (check_char_for_panic c u)) = ua_lcr u" "ua_quiet (fst (check_char_for_panic c u)) = ua_quiet u"
  "ua_out (fst (check_char_for_panic c u)) = ua_out u"
  by (simp_all add: check_char_for_panic_def Let_def)

text \<open>What the transmitter prints of a text: every character but the ones that complete the pattern.\<close>

definition uart_echo :: "u8 list \<Rightarrow> u8 list" where
  "uart_echo bs = map ((!) bs) (filter (\<lambda>i. \<not> suffix PATTERN (map to_lower (take (Suc i) bs))) [0..<length bs])"

lemma uart_echo_snoc:
  "uart_echo (bs @ [b]) = uart_echo bs @ (if suffix PATTERN (map to_lower bs @ [to_lower b]) then [] else [b])"
proof -
  have "filter (\<lambda>i. \<not> suffix PATTERN (map to_lower (take (Suc i) (bs @ [b])))) [0..<length bs]
      = filter (\<lambda>i. \<not> suffix PATTERN (map to_lower (take (Suc i) bs))) [0..<length bs]"
    by (rule filter_cong) auto
  moreover have "map ((!) (bs @ [b])) (filter P [0..<length bs]) = map ((!) bs) (filter P [0..<length bs])" for P
    by (auto simp: nth_append)
  ultimately show ?thesis by (simp add: uart_echo_def)
qed

lemma sublist_snoc_iff: "sublist p (t @ [c]) \<longleftrightarrow> sublist p t \<or> suffix p (t @ [c])"
proof
  assume "sublist p (t @ [c])"
  then obtain xs ys where t: "t @ [c] = xs @ p @ ys" by (auto simp: sublist_def)
  show "sublist p t \<or> suffix p (t @ [c])"
  proof (cases ys rule: rev_exhaust)
    case Nil
    with t show ?thesis by (metis append_Nil2 suffixI)
  next
    case (snoc zs z)
    with t have "t = xs @ p @ zs" by auto
    then show ?thesis by auto
  qed
next
  show "sublist p t \<or> suffix p (t @ [c]) \<Longrightarrow> sublist p (t @ [c])"
    using sublist_order.order_trans sublist_append_rightI suffix_imp_sublist by (metis sublist_appendI append.left_neutral)
qed

text \<open>The console. Whatever bytes the program sends to a fresh UART, the panic flag is up exactly when the text sent so
  far, ignoring case, contains the words \<open>kernel panic\<close>; the host sees the text, in order, without the
  letters that complete an occurrence.\<close>

theorem uart_detects_kernel_panic:
  "ua_panic_detected (fold (uart_write_u8 0) bs (uart_new base False)) \<longleftrightarrow> sublist PATTERN (map to_lower bs)"
  "ua_out (fold (uart_write_u8 0) bs (uart_new base False)) = uart_echo bs"
proof -
  let ?u = "\<lambda>bs. fold (uart_write_u8 0) bs (uart_new base False)"
  have "matched (map to_lower bs) (ua_panic_match_state (?u bs)) \<and> ua_lcr (?u bs) = 0 \<and> \<not> ua_quiet (?u bs)
      \<and> (ua_panic_detected (?u bs) \<longleftrightarrow> sublist PATTERN (map to_lower bs)) \<and> ua_out (?u bs) = uart_echo bs"
  proof (induction bs rule: rev_induct)
    case Nil
    have "matched [] 0" unfolding matched_def by (auto simp: PATTERN_def)
    moreover have "\<not> sublist PATTERN []" by (simp add: PATTERN_def)
    ultimately show ?case by (simp add: uart_new_def uart_echo_def)
  next
    case (snoc b bs)
    let ?v = "?u bs"
    have "\<not> dlab_set ?v" using snoc by (simp add: dlab_set_def)
    then have w: "uart_write_u8 0 b ?v = (let (u1, panicked) = check_char_for_panic b ?v in if panicked then u1
        else u1\<lparr> ua_out := (if ua_quiet u1 then ua_out u1 else ua_out u1 @ [b]), ua_thre_ip := True \<rparr>)"
      by (simp add: uart_write_u8_def write_thr_or_dll_def)
    note st = check_char_for_panic_step [of "map to_lower bs" ?v b]
    show ?case using snoc st
      by (simp add: w split_beta Let_def check_char_for_panic_keeps uart_echo_snoc sublist_snoc_iff del: suffix_snoc)
  qed
  then show "ua_panic_detected (?u bs) \<longleftrightarrow> sublist PATTERN (map to_lower bs)" "ua_out (?u bs) = uart_echo bs" by auto
qed

text \<open>Received bytes leave the UART in the order they arrived.\<close>

lemma uart_receives_in_order:
  assumes "\<not> dlab_set u" "ua_rx_queue u = b # bs"
  shows "uart_read_u8 0 u = (b, u\<lparr> ua_rx_queue := bs \<rparr>)" "uart_read_u8 5 u = (LSR_DEFAULT OR LSR_DATA_READY, u)"
  using assms by (simp_all add: uart_read_u8_def read_rbr_or_dll_def read_lsr_def)

subsection \<open>Host-target interface, system controller, clock\<close>

text \<open>The exit request: all ones while the simulation runs.\<close>

definition handle_tohost :: "u64 \<Rightarrow> u64 \<Rightarrow> u64" where
  "handle_tohost val exit_signal =
    (if val = 0 then exit_signal else if val = 1 then 0 else if val AND 1 \<noteq> 0 then drop_bit 1 val else val)"

record htif =
  ht_base_addr :: u64

definition htif_write_u32 :: "u64 \<Rightarrow> u32 \<Rightarrow> u64 \<Rightarrow> u64" where
  "htif_write_u32 offset val exit_signal = (if offset = 0 then handle_tohost (ucast val) exit_signal else exit_signal)"

definition htif_write_u64 :: "u64 \<Rightarrow> u64 \<Rightarrow> u64 \<Rightarrow> u64" where
  "htif_write_u64 offset val exit_signal = (if offset = 0 then handle_tohost val exit_signal else exit_signal)"

record syscon =
  sy_base_addr :: u64

definition syscon_write_u32 :: "u64 \<Rightarrow> u32 \<Rightarrow> u64 \<Rightarrow> u64" where
  "syscon_write_u32 offset val exit_signal =
    (if offset = 0 then
       (if val = 0x5555 then 0 else if val = 0x7777 then 0 else if val = 0x3333 then 1 else exit_signal)
     else exit_signal)"

definition syscon_write_u64 :: "u64 \<Rightarrow> u64 \<Rightarrow> u64 \<Rightarrow> u64" where
  "syscon_write_u64 offset val exit_signal = syscon_write_u32 offset (ucast val) exit_signal"

record goldfish_rtc =
  rt_base_addr :: u64

definition rtc_read_u32 :: "u64 \<Rightarrow> u64 \<Rightarrow> u32" where
  "rtc_read_u32 time_ns offset = (if offset = 0x00 then ucast time_ns else if offset = 0x04 then ucast (drop_bit 32 time_ns) else 0)"

definition rtc_read_u64 :: "u64 \<Rightarrow> u64 \<Rightarrow> u64" where
  "rtc_read_u64 time_ns offset = (if offset = 0x00 then time_ns else 0)"

definition check_exit :: "u64 \<Rightarrow> u64 option" where
  "check_exit exit_signal = (if exit_signal = - 1 then None else Some exit_signal)"

text \<open>Every nonzero result a test program reports ends the simulation, with code 0 exactly for a pass.\<close>

lemma tohost_exits:
  assumes "val \<noteq> 0"
  shows "\<exists>code. check_exit (htif_write_u64 0 val exit_signal) = Some code \<and> (code = 0 \<longleftrightarrow> val = 1)"
proof -
  have "drop_bit 1 val = 0 \<Longrightarrow> odd val \<Longrightarrow> val = 1"
    by (metis drop_bit_eq_div power_one_right odd_iff_mod_2_eq_one div_mult_mod_eq mult_zero_left add_0)
  moreover have "\<not> bit (drop_bit 1 val) 63" by (auto simp: bit_simps dest: bit_imp_le_length)
  then have "drop_bit 1 val \<noteq> - 1" by auto
  moreover have "even val \<Longrightarrow> val \<noteq> - 1" by auto
  ultimately show ?thesis using assms
    by (auto simp: check_exit_def htif_write_u64_def handle_tohost_def and_one_eq odd_iff_mod_2_eq_one)
qed

end
