(* ===== verification/Ram.thy ===== *)
theory Ram
  imports Lsu
begin

text \<open>
  Main memory (\<open>soc/memory\<close>): the shared byte buffer (\<open>buffer.rs\<close>) and the memory device in front of it
  (\<open>mod.rs\<close>). The buffer is a list of bytes; an access that fails the assertions of the buffer stops the simulator, which is
  the value \<open>None\<close>. Words are stored in little-endian order.
\<close>

type_synonym dram_buffer = "u8 list"

subsection \<open>Little-endian bytes\<close>

definition from_le_bytes :: "u8 list \<Rightarrow> 'a::len word" where
  "from_le_bytes bs = foldr (\<lambda>b acc. ucast b OR push_bit 8 acc) bs 0"

definition to_le_bytes :: "nat \<Rightarrow> 'a::len word \<Rightarrow> u8 list" where
  "to_le_bytes n w = map (\<lambda>i. ucast (drop_bit (8 * i) w)) [0..<n]"

lemma bit_from_le_bytes:
  "bit (from_le_bytes bs :: 'a::len word) k \<longleftrightarrow> k < LENGTH('a) \<and> k div 8 < length bs \<and> bit (bs ! (k div 8)) (k mod 8)"
proof (induction bs arbitrary: k)
  case Nil
  then show ?case by (simp add: from_le_bytes_def)
next
  case (Cons b bs)
  have step: "from_le_bytes (b # bs) = ucast b OR push_bit 8 (from_le_bytes bs :: 'a word)" by (simp add: from_le_bytes_def)
  show ?case
  proof (cases "k < 8")
    case True
    then show ?thesis by (auto simp: step bit_simps)
  next
    case False
    then have "k div 8 = Suc ((k - 8) div 8)" "k mod 8 = (k - 8) mod 8" by (simp_all add: le_div_geq le_mod_geq)
    with False show ?thesis by (auto simp: step bit_simps Cons.IH dest: bit_imp_le_length)
  qed
qed

lemma length_to_le_bytes [simp]: "length (to_le_bytes n w) = n"
  by (simp add: to_le_bytes_def)

lemma bit_to_le_bytes: "i < n \<Longrightarrow> bit (to_le_bytes n w ! i) k \<longleftrightarrow> k < 8 \<and> bit w (8 * i + k)"
  by (auto simp: to_le_bytes_def bit_simps)

lemma le_bytes_roundtrip: "from_le_bytes (to_le_bytes n w) = take_bit (8 * n) (w :: 'a::len word)"
proof (rule bit_word_eqI)
  fix k assume "k < LENGTH('a)"
  moreover have "k div 8 < n \<longleftrightarrow> k < 8 * n" by auto
  ultimately show "bit (from_le_bytes (to_le_bytes n w) :: 'a word) k = bit (take_bit (8 * n) w) k"
    by (auto simp: bit_from_le_bytes bit_to_le_bytes bit_take_bit_iff)
qed

subsection \<open>The buffer\<close>

definition buf_read_u8 :: "nat \<Rightarrow> dram_buffer \<Rightarrow> u8 option" where
  "buf_read_u8 offset b = (if offset < length b then Some (b ! offset) else None)"

definition buf_write_u8 :: "nat \<Rightarrow> u8 \<Rightarrow> dram_buffer \<Rightarrow> dram_buffer option" where
  "buf_write_u8 offset val b = (if offset < length b then Some (b[offset := val]) else None)"

definition read_slice :: "nat \<Rightarrow> nat \<Rightarrow> dram_buffer \<Rightarrow> u8 list option" where
  "read_slice offset len b = (if offset + len \<le> length b then Some (take len (drop offset b)) else None)"

text \<open>\<open>copy_nonoverlapping\<close> of the data over the buffer.\<close>

definition overwrite :: "nat \<Rightarrow> 'a list \<Rightarrow> 'a list \<Rightarrow> 'a list" where
  "overwrite offset data b = take offset b @ data @ drop (offset + length data) b"

definition write_slice :: "nat \<Rightarrow> u8 list \<Rightarrow> dram_buffer \<Rightarrow> dram_buffer option" where
  "write_slice offset data b = (if offset + length data \<le> length b then Some (overwrite offset data b) else None)"

lemma length_overwrite [simp]: "offset + length data \<le> length b \<Longrightarrow> length (overwrite offset data b) = length b"
  by (simp add: overwrite_def)

lemma nth_overwrite:
  assumes "offset + length data \<le> length b" "i < length b"
  shows "overwrite offset data b ! i = (if offset \<le> i \<and> i < offset + length data then data ! (i - offset) else b ! i)"
  using assms by (auto simp: overwrite_def nth_append min_def)

lemma slice_of_overwrite:
  assumes "offset + length data \<le> length b"
  shows "take (length data) (drop offset (overwrite offset data b)) = data"
  using assms by (simp add: overwrite_def)

lemma slice_disjoint:
  assumes "offset + length data \<le> length b" "o' + len' \<le> length b" "o' + len' \<le> offset \<or> offset + length data \<le> o'"
  shows "take len' (drop o' (overwrite offset data b)) = take len' (drop o' b)"
  using assms by (intro nth_equalityI) (auto simp: nth_overwrite)

lemma read_write_slice:
  assumes "write_slice offset data b = Some b'"
  shows "read_slice offset (length data) b' = Some data"
    "o' + len' \<le> offset \<or> offset + length data \<le> o' \<Longrightarrow> read_slice o' len' b' = read_slice o' len' b"
  using assms by (auto simp: write_slice_def read_slice_def slice_of_overwrite slice_disjoint split: if_splits)

subsection \<open>The memory device\<close>

text \<open>The buffer is shared with the disk, so the record keeps the base address only.\<close>

record memory =
  me_base_addr :: u64

definition memory_load :: "u8 list \<Rightarrow> nat \<Rightarrow> dram_buffer \<Rightarrow> dram_buffer option" where
  "memory_load data offset b = (if offset + length data \<le> length b then write_slice offset data b else Some b)"

definition memory_read_u8 :: "u64 \<Rightarrow> dram_buffer \<Rightarrow> u8 option" where
  "memory_read_u8 offset b = buf_read_u8 (unat offset) b"

definition memory_read_u16 :: "u64 \<Rightarrow> dram_buffer \<Rightarrow> u16 option" where
  "memory_read_u16 offset b = map_option from_le_bytes (read_slice (unat offset) 2 b)"

definition memory_read_u32 :: "u64 \<Rightarrow> dram_buffer \<Rightarrow> u32 option" where
  "memory_read_u32 offset b = map_option from_le_bytes (read_slice (unat offset) 4 b)"

definition memory_read_u64 :: "u64 \<Rightarrow> dram_buffer \<Rightarrow> u64 option" where
  "memory_read_u64 offset b = map_option from_le_bytes (read_slice (unat offset) 8 b)"

definition memory_write_u8 :: "u64 \<Rightarrow> u8 \<Rightarrow> dram_buffer \<Rightarrow> dram_buffer option" where
  "memory_write_u8 offset val b = buf_write_u8 (unat offset) val b"

definition memory_write_u16 :: "u64 \<Rightarrow> u16 \<Rightarrow> dram_buffer \<Rightarrow> dram_buffer option" where
  "memory_write_u16 offset val b = write_slice (unat offset) (to_le_bytes 2 val) b"

definition memory_write_u32 :: "u64 \<Rightarrow> u32 \<Rightarrow> dram_buffer \<Rightarrow> dram_buffer option" where
  "memory_write_u32 offset val b = write_slice (unat offset) (to_le_bytes 4 val) b"

definition memory_write_u64 :: "u64 \<Rightarrow> u64 \<Rightarrow> dram_buffer \<Rightarrow> dram_buffer option" where
  "memory_write_u64 offset val b = write_slice (unat offset) (to_le_bytes 8 val) b"

definition memory_write_bytes :: "u64 \<Rightarrow> u8 list \<Rightarrow> dram_buffer \<Rightarrow> dram_buffer option" where
  "memory_write_bytes offset data b = memory_load data (unat offset) b"

subsection \<open>The byte memory behind the device\<close>

text \<open>Main memory as the byte memory of the split accesses: the buffer at the base address, zero elsewhere.\<close>

definition ram_view :: "u64 \<Rightarrow> dram_buffer \<Rightarrow> byte_mem" where
  "ram_view base b a = (if unat (a - base) < length b then b ! unat (a - base) else 0)"

lemma unat_offset:
  assumes "unat (a - base :: u64) + n \<le> 2 ^ 64" "i < n"
  shows "unat (a + of_nat i - base) = unat (a - base) + i"
proof -
  have i: "unat (of_nat i :: u64) = i" using assms unat_of_nat_u64 [of i] by simp
  have "a + of_nat i - base = (a - base) + of_nat i" by simp
  then have "unat (a + of_nat i - base) = (unat (a - base) + i) mod 2 ^ 64"
    by (simp only: unat_word_ariths i) simp
  then show ?thesis using assms by simp
qed

lemma read_slice_split_load:
  assumes "read_slice (unat (a - base)) n b = Some bs" "length b \<le> 2 ^ 64" "n \<le> 8"
  shows "split_load a n (ram_view base b) = from_le_bytes bs"
proof (rule bit_word_eqI)
  fix k assume "k < LENGTH(64)"
  have s: "unat (a - base) + n \<le> length b" "bs = take n (drop (unat (a - base)) b)"
    using assms(1) by (auto simp: read_slice_def split: if_splits)
  have "ram_view base b (a + of_nat i) = bs ! i" if "i < n" for i
    using unat_offset [of a base n i] that s assms(2) by (simp add: ram_view_def)
  moreover have "length bs = n" using s by simp
  ultimately show "bit (split_load a n (ram_view base b)) k = bit (from_le_bytes bs :: u64) k"
    using assms(3) by (auto simp: bit_split_load bit_from_le_bytes)
qed

lemma write_slice_store_bytes:
  assumes "write_slice (unat (a - base)) (to_le_bytes n (v :: u64)) b = Some b'" "length b \<le> 2 ^ 64" "n \<le> 8"
  shows "ram_view base b' = store_bytes a n v (ram_view base b)"
proof
  fix x
  let ?o = "unat (a - base)"
  have s: "?o + n \<le> length b" "b' = overwrite ?o (to_le_bytes n v) b" using assms(1) by (auto simp: write_slice_def split: if_splits)
  have le: "i < n \<Longrightarrow> to_le_bytes n v ! i = le_byte v i" for i by (simp add: to_le_bytes_def le_byte_def)
  show "ram_view base b' x = store_bytes a n v (ram_view base b) x"
  proof (cases "unat (x - a) < n")
    case True
    then have "unat (a + of_nat (unat (x - a)) - base) = ?o + unat (x - a)"
      using s assms(2) by (intro unat_offset) auto
    then have "unat (x - base) = ?o + unat (x - a)" by simp
    with True s assms(3) show ?thesis by (simp add: ram_view_def store_bytes_at nth_overwrite le)
  next
    case False
    have "\<not> (?o \<le> unat (x - base) \<and> unat (x - base) < ?o + n)"
    proof
      assume h: "?o \<le> unat (x - base) \<and> unat (x - base) < ?o + n"
      then have "unat ((x - base) - (a - base)) = unat (x - base) - ?o" by (intro unat_sub) (simp add: word_le_nat_alt)
      with h False show False by auto
    qed
    with False s assms(3) show ?thesis by (auto simp: ram_view_def store_bytes_at nth_overwrite)
  qed
qed

end
