(* ===== verification/Virtio.thy ===== *)
theory Virtio
  imports Ram
begin

text \<open>
  The VirtIO block device (\<open>soc/devices/virtio_disk.rs\<close>): the MMIO registers, DMA through the shared memory
  buffer, and the processing of the request queue on a notify.

  The device walks the descriptor chain of a request until a descriptor has no successor. The walk is a
  partial function, and \<open>None\<close> of the queue processing is a request that never returns, which a guest can
  build by a chain that closes on itself. \<open>Inl\<close> is a panic of the simulator: a slice of the disk image whose
  end lies before its start. Byte offsets into the image are 64-bit and wrap.
\<close>

subsection \<open>State and registers\<close>

record virtio_block =
  vi_base_addr :: u64
  vi_ram_base :: u64
  vi_disk_image :: "u8 list"
  vi_status :: u32
  vi_queue_num :: u32
  vi_queue_ready :: u32
  vi_queue_notify :: u32
  vi_queue_desc_low :: u32
  vi_queue_desc_high :: u32
  vi_queue_avail_low :: u32
  vi_queue_avail_high :: u32
  vi_queue_used_low :: u32
  vi_queue_used_high :: u32
  vi_interrupt_status :: u32
  vi_last_avail_idx :: u16
  vi_device_features_sel :: u32
  vi_driver_features_sel :: u32

definition virtio_new :: "u64 \<Rightarrow> u64 \<Rightarrow> virtio_block" where
  "virtio_new base_addr ram_base = \<lparr> vi_base_addr = base_addr, vi_ram_base = ram_base, vi_disk_image = [], vi_status = 0,
     vi_queue_num = 0, vi_queue_ready = 0, vi_queue_notify = 0, vi_queue_desc_low = 0, vi_queue_desc_high = 0,
     vi_queue_avail_low = 0, vi_queue_avail_high = 0, vi_queue_used_low = 0, vi_queue_used_high = 0, vi_interrupt_status = 0,
     vi_last_avail_idx = 0, vi_device_features_sel = 0, vi_driver_features_sel = 0 \<rparr>"

definition virtio_load :: "u8 list \<Rightarrow> virtio_block \<Rightarrow> virtio_block" where
  "virtio_load data v = v\<lparr> vi_disk_image := data \<rparr>"

definition DESC_SIZE :: u64 where "DESC_SIZE = 16"
definition SECTOR_SIZE :: u64 where "SECTOR_SIZE = 512"
definition VRING_DESC_F_NEXT :: u16 where "VRING_DESC_F_NEXT = 1"
definition VRING_DESC_F_WRITE :: u16 where "VRING_DESC_F_WRITE = 2"

subsection \<open>DMA\<close>

definition dma_in_range :: "u64 \<Rightarrow> u64 \<Rightarrow> nat \<Rightarrow> dram_buffer \<Rightarrow> bool" where
  "dma_in_range ram_base addr len ram \<longleftrightarrow> ram_base \<le> addr \<and> unat (addr - ram_base) < length ram \<and> unat (addr - ram_base) + len \<le> length ram"

definition dma_read :: "u64 \<Rightarrow> u64 \<Rightarrow> nat \<Rightarrow> dram_buffer \<Rightarrow> u8 list" where
  "dma_read ram_base addr len ram =
    (if dma_in_range ram_base addr len ram then take len (drop (unat (addr - ram_base)) ram) else replicate len 0)"

definition dma_read_u16 :: "u64 \<Rightarrow> u64 \<Rightarrow> dram_buffer \<Rightarrow> u16" where
  "dma_read_u16 ram_base addr ram = from_le_bytes (dma_read ram_base addr 2 ram)"

definition dma_read_u32 :: "u64 \<Rightarrow> u64 \<Rightarrow> dram_buffer \<Rightarrow> u32" where
  "dma_read_u32 ram_base addr ram = from_le_bytes (dma_read ram_base addr 4 ram)"

definition dma_read_u64 :: "u64 \<Rightarrow> u64 \<Rightarrow> dram_buffer \<Rightarrow> u64" where
  "dma_read_u64 ram_base addr ram = from_le_bytes (dma_read ram_base addr 8 ram)"

definition dma_write :: "u64 \<Rightarrow> u64 \<Rightarrow> u8 list \<Rightarrow> dram_buffer \<Rightarrow> dram_buffer" where
  "dma_write ram_base addr data ram =
    (if dma_in_range ram_base addr (length data) ram then overwrite (unat (addr - ram_base)) data ram else ram)"

lemma length_dma_read [simp]: "length (dma_read base addr len ram) = len"
  by (auto simp: dma_read_def dma_in_range_def)

lemma length_dma_write [simp]: "length (dma_write base addr data ram) = length ram"
  by (auto simp: dma_write_def dma_in_range_def)

lemma dma_read_write:
  assumes "dma_in_range base addr (length data) ram"
  shows "dma_read base addr (length data) (dma_write base addr data ram) = data"
  using assms by (simp add: dma_read_def dma_write_def dma_in_range_def slice_of_overwrite)

text \<open>Two ranges of memory that do not overlap, and bytes a write leaves alone.\<close>

definition dma_apart :: "u64 \<Rightarrow> nat \<Rightarrow> u64 \<Rightarrow> nat \<Rightarrow> bool" where
  "dma_apart a m b n \<longleftrightarrow> unat a + m \<le> unat b \<or> unat b + n \<le> unat a"

lemma dma_read_apart:
  assumes "dma_apart addr n waddr (length data)"
  shows "dma_read base addr n (dma_write base waddr data ram) = dma_read base addr n ram"
proof (cases "dma_in_range base addr n ram \<and> dma_in_range base waddr (length data) ram")
  case True
  then have "unat (addr - base) = unat addr - unat base" "unat (waddr - base) = unat waddr - unat base" "unat base \<le> unat addr" "unat base \<le> unat waddr"
    by (auto simp: dma_in_range_def unat_sub word_le_nat_alt)
  with True assms show ?thesis
    by (auto simp: dma_read_def dma_write_def dma_in_range_def dma_apart_def intro!: slice_disjoint)
next
  case False
  then show ?thesis by (auto simp: dma_read_def dma_write_def dma_in_range_def)
qed

subsection \<open>Requests\<close>

type_synonym desc = "u64 \<times> u32 \<times> u16"

definition read_desc :: "u64 \<Rightarrow> u64 \<Rightarrow> u16 \<Rightarrow> dram_buffer \<Rightarrow> desc \<times> u16" where
  "read_desc ram_base desc_addr idx ram =
    (let addr_offset = desc_addr + ucast idx * DESC_SIZE
     in ((dma_read_u64 ram_base addr_offset ram, dma_read_u32 ram_base (addr_offset + 8) ram, dma_read_u16 ram_base (addr_offset + 12) ram),
         dma_read_u16 ram_base (addr_offset + 14) ram))"

text \<open>The walk along a chain; \<open>acc\<close> holds the descriptors pushed so far, in order.\<close>

partial_function (option) desc_chain :: "u32 \<Rightarrow> (u16 \<Rightarrow> desc \<times> u16) \<Rightarrow> u16 \<Rightarrow> desc list \<Rightarrow> desc list option" where
  "desc_chain queue_num rd idx acc =
    (if queue_num \<le> ucast idx then Some acc
     else let ((addr, len, flags), nxt) = rd idx; acc' = acc @ [(addr, len, flags)]
          in if flags AND VRING_DESC_F_NEXT = 0 then Some acc' else desc_chain queue_num rd nxt acc')"

text \<open>The data descriptors of a write, from memory to the image; \<open>None\<close> is the panic of the slice.\<close>

fun disk_write_loop :: "u64 \<Rightarrow> dram_buffer \<Rightarrow> desc list \<Rightarrow> u64 \<Rightarrow> u8 list \<Rightarrow> u32 \<Rightarrow> (u8 list \<times> u32) option" where
  "disk_write_loop ram_base ram [] disk_offset disk written = Some (disk, written)"
| "disk_write_loop ram_base ram ((d_addr, d_len, _) # ds) disk_offset disk written =
    (let data = dma_read ram_base d_addr (unat d_len) ram; disk_end = disk_offset + of_nat (length data)
     in if disk_end \<le> of_nat (length disk) then
          (if disk_end < disk_offset then None
           else disk_write_loop ram_base ram ds (disk_offset + ucast d_len) (overwrite (unat disk_offset) data disk) (written + d_len))
        else disk_write_loop ram_base ram ds (disk_offset + ucast d_len) disk (written + d_len))"

text \<open>The data descriptors of a read, from the image to memory.\<close>

fun disk_read_loop :: "u64 \<Rightarrow> u8 list \<Rightarrow> desc list \<Rightarrow> u64 \<Rightarrow> u64 \<Rightarrow> dram_buffer \<Rightarrow> u32 \<Rightarrow> dram_buffer \<times> u32" where
  "disk_read_loop ram_base disk [] sector_offset current ram written = (ram, written)"
| "disk_read_loop ram_base disk ((d_addr, d_len, d_flags) # ds) sector_offset current ram written =
    (if d_flags AND VRING_DESC_F_WRITE \<noteq> 0 \<and> sector_offset + current < of_nat (length disk) then
       (let start = unat (sector_offset + current); copy_len = min (unat d_len) (length disk - start)
        in disk_read_loop ram_base disk ds sector_offset (current + ucast d_len)
             (dma_write ram_base d_addr (take copy_len (drop start disk)) ram) (written + of_nat copy_len))
     else disk_read_loop ram_base disk ds sector_offset (current + ucast d_len) ram written)"

definition serve_request :: "desc list \<Rightarrow> virtio_block \<Rightarrow> dram_buffer \<Rightarrow> (virtio_block \<times> dram_buffer \<times> u32) option" where
  "serve_request descriptors v ram =
    (if length descriptors < 3 then Some (v, ram, 0)
     else
       let base = vi_ram_base v; (h_addr, _, _) = descriptors ! 0; header = dma_read base h_addr 16 ram;
           type_val = from_le_bytes (take 4 header) :: u32; sector = from_le_bytes (take 8 (drop 8 header)) :: u64;
           (s_addr, _, _) = descriptors ! (length descriptors - 1); sector_offset = sector * SECTOR_SIZE;
           data = butlast (tl descriptors)
       in map_option (\<lambda>(disk, ram1, written). (v\<lparr> vi_disk_image := disk \<rparr>, dma_write base s_addr [0] ram1, written))
            (if type_val = 4 then Some (vi_disk_image v, ram, 0)
             else if type_val = 1 then
               map_option (\<lambda>(disk, written). (disk, ram, written)) (disk_write_loop base ram data sector_offset (vi_disk_image v) 0)
             else (let (ram1, written) = disk_read_loop base (vi_disk_image v) data sector_offset 0 ram 0 in Some (vi_disk_image v, ram1, written))))"

definition push_used :: "u64 \<Rightarrow> u16 \<Rightarrow> u32 \<Rightarrow> virtio_block \<Rightarrow> dram_buffer \<Rightarrow> dram_buffer" where
  "push_used used_addr head_idx len_written v ram =
    (let base = vi_ram_base v; used_idx_addr = used_addr + 2; current_used = dma_read_u16 base used_idx_addr ram;
         used_elem = used_addr + 4 + (ucast current_used mod ucast (vi_queue_num v)) * 8;
         ram1 = dma_write base used_elem (to_le_bytes 4 (ucast head_idx :: u32)) ram;
         ram2 = dma_write base (used_elem + 4) (to_le_bytes 4 len_written) ram1
     in dma_write base used_idx_addr (to_le_bytes 2 (current_used + 1)) ram2)"

definition queue_addr :: "u32 \<Rightarrow> u32 \<Rightarrow> u64" where
  "queue_addr high low = push_bit 32 (ucast high) OR ucast low"

definition avail_head :: "virtio_block \<Rightarrow> dram_buffer \<Rightarrow> u16" where
  "avail_head v ram = dma_read_u16 (vi_ram_base v) (queue_addr (vi_queue_avail_high v) (vi_queue_avail_low v)
     + (4 + (ucast (vi_last_avail_idx v) mod ucast (vi_queue_num v)) * 2)) ram"

text \<open>One turn of the loop: \<open>None\<close> does not return, \<open>Some (Inl ())\<close> panics.\<close>

definition process_one :: "virtio_block \<Rightarrow> dram_buffer \<Rightarrow> (unit + virtio_block \<times> dram_buffer) option" where
  "process_one v ram =
    (let head_idx = avail_head v ram; next_v = (\<lambda>v. v\<lparr> vi_last_avail_idx := vi_last_avail_idx v + 1 \<rparr>)
     in if vi_queue_num v \<le> ucast head_idx then Some (Inr (next_v v, ram))
        else case desc_chain (vi_queue_num v) (\<lambda>i. read_desc (vi_ram_base v) (queue_addr (vi_queue_desc_high v) (vi_queue_desc_low v)) i ram) head_idx [] of
               None \<Rightarrow> None
             | Some descriptors \<Rightarrow> Some (case serve_request descriptors v ram of
                 None \<Rightarrow> Inl ()
               | Some (v1, ram1, written) \<Rightarrow>
                   Inr (next_v v1, push_used (queue_addr (vi_queue_used_high v) (vi_queue_used_low v)) head_idx written v1 ram1)))"

partial_function (option) process_loop :: "u16 \<Rightarrow> virtio_block \<Rightarrow> dram_buffer \<Rightarrow> (unit + virtio_block \<times> dram_buffer) option" where
  "process_loop avail_idx v ram =
    (if vi_last_avail_idx v = avail_idx then Some (Inr (v, ram))
     else Option.bind (process_one v ram) (\<lambda>r. if isl r then Some r else process_loop avail_idx (fst (projr r)) (snd (projr r))))"

definition process_queue :: "virtio_block \<Rightarrow> dram_buffer \<Rightarrow> (unit + virtio_block \<times> dram_buffer) option" where
  "process_queue v ram =
    (if vi_queue_num v = 0 then Some (Inr (v, ram))
     else let avail_idx = dma_read_u16 (vi_ram_base v) (queue_addr (vi_queue_avail_high v) (vi_queue_avail_low v) + 2) ram
          in map_option (map_sum id (\<lambda>(v', ram'). (v'\<lparr> vi_interrupt_status := vi_interrupt_status v' OR 1 \<rparr>, ram'))) (process_loop avail_idx v ram))"

subsection \<open>Register accesses\<close>

definition virtio_sectors :: "virtio_block \<Rightarrow> u64" where
  "virtio_sectors v = of_nat (length (vi_disk_image v)) div SECTOR_SIZE"

definition virtio_read_u32 :: "u64 \<Rightarrow> virtio_block \<Rightarrow> u32" where
  "virtio_read_u32 offset v =
    (if offset = 0x00 then 0x74726976 else if offset = 0x04 then 2 else if offset = 0x08 then 2 else if offset = 0x0c then 0x554d4551
     else if offset = 0x10 then (if vi_device_features_sel v = 1 then 1 else 0)
     else if offset = 0x34 then 16 else if offset = 0x44 then vi_queue_ready v else if offset = 0x60 then vi_interrupt_status v
     else if offset = 0x70 then vi_status v
     else if 0x100 \<le> offset \<and> offset < 0x100 + 0x100 then
       (let config_offset = offset - 0x100
        in if config_offset = 0 then ucast (virtio_sectors v) else if config_offset = 4 then ucast (drop_bit 32 (virtio_sectors v)) else 0)
     else 0)"

definition virtio_set_reg :: "u64 \<Rightarrow> u32 \<Rightarrow> virtio_block \<Rightarrow> virtio_block" where
  "virtio_set_reg offset val v =
    (if offset = 0x14 then v\<lparr> vi_device_features_sel := val \<rparr> else if offset = 0x24 then v\<lparr> vi_driver_features_sel := val \<rparr>
     else if offset = 0x38 then v\<lparr> vi_queue_num := val \<rparr> else if offset = 0x44 then v\<lparr> vi_queue_ready := val \<rparr>
     else if offset = 0x64 then v\<lparr> vi_interrupt_status := vi_interrupt_status v AND NOT val \<rparr>
     else if offset = 0x70 then v\<lparr> vi_status := val \<rparr>
     else if offset = 0x80 then v\<lparr> vi_queue_desc_low := val \<rparr> else if offset = 0x84 then v\<lparr> vi_queue_desc_high := val \<rparr>
     else if offset = 0x90 then v\<lparr> vi_queue_avail_low := val \<rparr> else if offset = 0x94 then v\<lparr> vi_queue_avail_high := val \<rparr>
     else if offset = 0xa0 then v\<lparr> vi_queue_used_low := val \<rparr> else if offset = 0xa4 then v\<lparr> vi_queue_used_high := val \<rparr>
     else v)"

definition virtio_write_u32 :: "u64 \<Rightarrow> u32 \<Rightarrow> virtio_block \<Rightarrow> dram_buffer \<Rightarrow> (unit + virtio_block \<times> dram_buffer) option" where
  "virtio_write_u32 offset val v ram =
    (if offset = 0x50 then process_queue (v\<lparr> vi_queue_notify := val \<rparr>) ram else Some (Inr (virtio_set_reg offset val v, ram)))"

definition virtio_read_u8 :: "u64 \<Rightarrow> virtio_block \<Rightarrow> u8" where
  "virtio_read_u8 offset v = ucast (drop_bit (unat (offset AND 3) * 8) (virtio_read_u32 (offset AND NOT 3) v))"

definition virtio_read_u16 :: "u64 \<Rightarrow> virtio_block \<Rightarrow> u16" where
  "virtio_read_u16 offset v = ucast (drop_bit (unat (offset AND 3) * 8) (virtio_read_u32 (offset AND NOT 3) v))"

definition virtio_read_u64 :: "u64 \<Rightarrow> virtio_block \<Rightarrow> u64" where
  "virtio_read_u64 offset v = ucast (virtio_read_u32 offset v)"

definition virtio_write_u8 :: "u64 \<Rightarrow> u8 \<Rightarrow> virtio_block \<Rightarrow> dram_buffer \<Rightarrow> (unit + virtio_block \<times> dram_buffer) option" where
  "virtio_write_u8 offset val = virtio_write_u32 (offset AND NOT 3) (ucast val)"

definition virtio_write_u16 :: "u64 \<Rightarrow> u16 \<Rightarrow> virtio_block \<Rightarrow> dram_buffer \<Rightarrow> (unit + virtio_block \<times> dram_buffer) option" where
  "virtio_write_u16 offset val = virtio_write_u32 (offset AND NOT 3) (ucast val)"

definition virtio_write_u64 :: "u64 \<Rightarrow> u64 \<Rightarrow> virtio_block \<Rightarrow> dram_buffer \<Rightarrow> (unit + virtio_block \<times> dram_buffer) option" where
  "virtio_write_u64 offset val = virtio_write_u32 offset (ucast val)"

definition virtio_tick :: "virtio_block \<Rightarrow> bool" where
  "virtio_tick v \<longleftrightarrow> vi_interrupt_status v AND 1 \<noteq> 0"

subsection \<open>The queue loop\<close>

text \<open>The index of the driver is read once, so the number of turns is fixed when the loop starts.\<close>

fun process_turns :: "nat \<Rightarrow> virtio_block \<Rightarrow> dram_buffer \<Rightarrow> (unit + virtio_block \<times> dram_buffer) option" where
  "process_turns 0 v ram = Some (Inr (v, ram))"
| "process_turns (Suc n) v ram = Option.bind (process_one v ram) (\<lambda>r. if isl r then Some r else process_turns n (fst (projr r)) (snd (projr r)))"

lemma serve_request_keeps:
  assumes "serve_request ds v ram = Some (v', ram', n)"
  shows "vi_last_avail_idx v' = vi_last_avail_idx v" "vi_queue_num v' = vi_queue_num v" "vi_ram_base v' = vi_ram_base v"
  using assms by (auto simp: serve_request_def Let_def split_beta split: if_splits)

lemma process_one_last:
  assumes "process_one v ram = Some (Inr (v', ram'))"
  shows "vi_last_avail_idx v' = vi_last_avail_idx v + 1"
  using assms serve_request_keeps(1)
  by (fastforce simp: process_one_def Let_def split: if_splits option.splits prod.splits)

lemma process_loop_turns: "process_loop avail v ram = process_turns (unat (avail - vi_last_avail_idx v)) v ram"
proof (induction "unat (avail - vi_last_avail_idx v)" arbitrary: v ram)
  case 0
  then have "avail - vi_last_avail_idx v = 0" by (simp add: unat_eq_zero)
  with 0 show ?case by (subst process_loop.simps) simp
next
  case (Suc n)
  then have ne: "vi_last_avail_idx v \<noteq> avail" by auto
  have m: "unat ((avail - vi_last_avail_idx v) - 1) = n" using Suc(2) by (subst unat_minus_one) auto
  have n: "unat (avail - vi_last_avail_idx v') = n" if "process_one v ram = Some (Inr (v', ram'))" for v' ram'
    using m unfolding process_one_last [OF that] by (simp only: diff_diff_eq)
  have "process_loop avail v ram = Option.bind (process_one v ram) (\<lambda>r. if isl r then Some r else process_loop avail (fst (projr r)) (snd (projr r)))"
    using ne by (subst process_loop.simps) simp
  also have "\<dots> = process_turns (Suc n) v ram"
    unfolding process_turns.simps
  proof (intro Option.bind_cong refl)
    fix r assume r: "process_one v ram = Some r"
    show "(if isl r then Some r else process_loop avail (fst (projr r)) (snd (projr r))) = (if isl r then Some r else process_turns n (fst (projr r)) (snd (projr r)))"
    proof (cases r)
      case (Inr x)
      then have "unat (avail - vi_last_avail_idx (fst x)) = n" using n [of "fst x" "snd x"] r by simp
      then show ?thesis using Suc(1) [of "fst x" "snd x"] Inr by simp
    qed simp
  qed
  finally show ?case using Suc(2) by simp
qed

subsection \<open>Descriptor chains\<close>

definition chain_stops :: "u32 \<Rightarrow> (u16 \<Rightarrow> desc \<times> u16) \<Rightarrow> u16 \<Rightarrow> bool" where
  "chain_stops queue_num rd i \<longleftrightarrow> queue_num \<le> ucast i \<or> snd (snd (fst (rd i))) AND VRING_DESC_F_NEXT = 0"

primrec chain_at :: "(u16 \<Rightarrow> desc \<times> u16) \<Rightarrow> nat \<Rightarrow> u16 \<Rightarrow> u16" where
  "chain_at rd 0 i = i"
| "chain_at rd (Suc n) i = chain_at rd n (snd (rd i))"

lemma desc_chain_step:
  "desc_chain q rd i acc =
    (if q \<le> ucast i then Some acc else if chain_stops q rd i then Some (acc @ [fst (rd i)]) else desc_chain q rd (snd (rd i)) (acc @ [fst (rd i)]))"
  by (subst desc_chain.simps) (auto simp: chain_stops_def Let_def split: prod.splits)

lemma desc_chain_returns:
  assumes "chain_stops q rd (chain_at rd n i)"
  shows "\<exists>ds. desc_chain q rd i acc = Some ds"
  using assms
proof (induction n arbitrary: i acc)
  case 0
  then show ?case by (subst desc_chain_step) auto
next
  case (Suc n)
  then have "chain_stops q rd (chain_at rd n (snd (rd i)))" by simp
  then obtain ds where "desc_chain q rd (snd (rd i)) (acc @ [fst (rd i)]) = Some ds" using Suc.IH by blast
  then show ?case by (subst desc_chain_step) auto
qed

lemma desc_chain_stops:
  assumes "desc_chain q rd i acc = Some ds"
  shows "\<exists>n. chain_stops q rd (chain_at rd n i)"
proof (rule desc_chain.raw_induct [OF _ assms])
  fix f q rd i acc ds
  assume 1: "\<And>q rd i acc ds. f q rd i acc = Some ds \<Longrightarrow> \<exists>n. chain_stops q rd (chain_at rd n i)"
    "(if q \<le> ucast i then Some acc
      else let ((addr, len, flags), nxt) = rd i; acc' = acc @ [(addr, len, flags)]
           in if flags AND VRING_DESC_F_NEXT = 0 then Some acc' else f q rd nxt acc') = Some ds"
  show "\<exists>n. chain_stops q rd (chain_at rd n i)"
  proof (cases "chain_stops q rd i")
    case True
    then show ?thesis by (intro exI [of _ 0]) simp
  next
    case False
    then have "f q rd (snd (rd i)) (acc @ [fst (rd i)]) = Some ds"
      using 1(2) by (auto simp: chain_stops_def Let_def split: prod.splits if_splits)
    then obtain n where "chain_stops q rd (chain_at rd n (snd (rd i)))" using 1(1) by blast
    then show ?thesis by (intro exI [of _ "Suc n"]) simp
  qed
qed

text \<open>The walk returns exactly when it reaches the end of the chain; a chain that closes on itself never does.\<close>

theorem desc_chain_returns_iff: "desc_chain q rd i acc \<noteq> None \<longleftrightarrow> (\<exists>n. chain_stops q rd (chain_at rd n i))"
  using desc_chain_returns desc_chain_stops by (metis not_None_eq)

theorem cyclic_chain_hangs:
  assumes "\<not> chain_stops q rd i" "snd (rd i) = i"
  shows "desc_chain q rd i acc = None"
proof -
  have "chain_at rd n i = i" for n using assms(2) by (induction n) simp_all
  with assms(1) show ?thesis using desc_chain_returns_iff [of q rd i acc] by simp
qed


subsection \<open>Transfers\<close>

definition desc_len :: "desc \<Rightarrow> nat" where
  "desc_len d = unat (fst (snd d))"

definition desc_data :: "u64 \<Rightarrow> dram_buffer \<Rightarrow> desc list \<Rightarrow> u8 list" where
  "desc_data base ram ds = concat (map (\<lambda>d. dma_read base (fst d) (desc_len d) ram) ds)"

definition desc_total :: "desc list \<Rightarrow> nat" where
  "desc_total ds = sum_list (map desc_len ds)"

lemma desc_data_simps [simp]:
  "desc_data base ram [] = []" "desc_data base ram (d # ds) = dma_read base (fst d) (desc_len d) ram @ desc_data base ram ds"
  "desc_total [] = 0" "desc_total (d # ds) = desc_len d + desc_total ds"
  by (simp_all add: desc_data_def desc_total_def)

lemma length_desc_data [simp]: "length (desc_data base ram ds) = desc_total ds"
  by (induction ds) simp_all

lemma overwrite_overwrite:
  assumes "off + length a + length b \<le> length xs"
  shows "overwrite (off + length a) b (overwrite off a xs) = overwrite off (a @ b) xs"
  using assms by (intro nth_equalityI) (auto simp: nth_overwrite nth_append)

lemma u64_add_len:
  assumes "unat off + unat (n :: u32) < 2 ^ 64"
  shows "unat (off + ucast n :: u64) = unat off + unat n"
proof -
  have "unat (ucast n :: u64) = unat n"
    using unsigned_less [of n, where ?'a = nat] by (simp add: unsigned_ucast_eq take_bit_nat_eq_self)
  then show ?thesis using assms by (simp add: unat_word_ariths)
qed

lemma disk_write_loop_data:
  assumes "unat off + desc_total ds \<le> length disk" "length disk < 2 ^ 64"
  shows "\<exists>n. disk_write_loop base ram ds off disk w = Some (overwrite (unat off) (desc_data base ram ds) disk, n)"
  using assms
proof (induction ds arbitrary: off disk w)
  case (Cons d ds)
  obtain a l f where d: "d = (a, l, f)" by (cases d)
  let ?data = "dma_read base a (unat l) ram"
  have off: "unat (off + ucast l) = unat off + unat l" using Cons.prems by (intro u64_add_len) (simp add: d desc_len_def)
  have le: "off + ucast l \<le> of_nat (length disk)" "\<not> off + ucast l < off"
    using Cons.prems off by (simp_all add: d desc_len_def word_le_nat_alt word_less_nat_alt unat_of_nat_u64)
  obtain n where "disk_write_loop base ram ds (off + ucast l) (overwrite (unat off) ?data disk) (w + l)
      = Some (overwrite (unat (off + ucast l)) (desc_data base ram ds) (overwrite (unat off) ?data disk), n)"
    using Cons.IH [of "off + ucast l" "overwrite (unat off) ?data disk" "w + l"] Cons.prems off by (auto simp: d desc_len_def)
  moreover have "overwrite (unat off + unat l) (desc_data base ram ds) (overwrite (unat off) ?data disk) = overwrite (unat off) (?data @ desc_data base ram ds) disk"
    using overwrite_overwrite [of "unat off" ?data "desc_data base ram ds" disk] Cons.prems by (simp add: d desc_len_def)
  ultimately show ?case using le by (simp add: d desc_len_def Let_def off)
qed (simp add: overwrite_def)

definition buffers_ok :: "u64 \<Rightarrow> dram_buffer \<Rightarrow> desc list \<Rightarrow> bool" where
  "buffers_ok base ram ds \<longleftrightarrow> sorted_wrt (\<lambda>d e. dma_apart (fst d) (desc_len d) (fst e) (desc_len e)) ds
     \<and> list_all (\<lambda>d. snd (snd d) AND VRING_DESC_F_WRITE \<noteq> 0 \<and> dma_in_range base (fst d) (desc_len d) ram) ds"

lemma disk_read_loop_frame:
  assumes "\<forall>e \<in> set ds. dma_apart a n (fst e) (desc_len e)"
  shows "dma_read base a n (fst (disk_read_loop base disk ds sec cur ram w)) = dma_read base a n ram
    \<and> length (fst (disk_read_loop base disk ds sec cur ram w)) = length ram"
  using assms
proof (induction ds arbitrary: cur ram w)
  case (Cons d ds)
  obtain b l f where d: "d = (b, l, f)" by (cases d)
  have "dma_apart a n b k" if "k \<le> unat l" for k using that Cons.prems by (auto simp: d dma_apart_def desc_len_def)
  with Cons show ?case by (auto simp: d Let_def dma_read_apart)
qed simp

lemma take_drop_add: "take (m + n) (drop k xs) = take m (drop k xs) @ take n (drop (k + m) xs)"
  by (simp add: take_add) (simp add: add.commute)

lemma disk_read_loop_data:
  assumes "buffers_ok base ram ds" "unat (sec + cur) + desc_total ds \<le> length disk" "length disk < 2 ^ 64"
  shows "desc_data base (fst (disk_read_loop base disk ds sec cur ram w)) ds = take (desc_total ds) (drop (unat (sec + cur)) disk)
    \<and> snd (disk_read_loop base disk ds sec cur ram w) = w + of_nat (desc_total ds)"
  using assms
proof (induction ds arbitrary: cur ram w)
  case (Cons d ds)
  obtain a l f where d: "d = (a, l, f)" by (cases d)
  have off: "unat (sec + cur + ucast l) = unat (sec + cur) + unat l" using Cons.prems(2,3) by (intro u64_add_len) (simp add: d desc_len_def)
  let ?start = "unat (sec + cur)" and ?data = "take (unat l) (drop (unat (sec + cur)) disk)"
  let ?ram = "if sec + cur < of_nat (length disk) then dma_write base a ?data ram else ram"
  have lt: "sec + cur < of_nat (length disk) \<longleftrightarrow> ?start < length disk" using Cons.prems by (simp add: word_less_nat_alt unat_of_nat_u64)
  have copy: "min (unat l) (length disk - ?start) = unat l" using Cons.prems by (simp add: d desc_len_def)
  have step: "disk_read_loop base disk (d # ds) sec cur ram w = disk_read_loop base disk ds sec (cur + ucast l) ?ram (w + l)"
  proof (cases "?start < length disk")
    case True
    with Cons.prems show ?thesis using copy lt by (simp add: d buffers_ok_def Let_def)
  next
    case False
    then have "unat l = 0" using Cons.prems by (simp add: d desc_len_def)
    then have "l = 0" by (simp add: unat_eq_zero)
    with False Cons.prems lt show ?thesis by (simp add: d)
  qed
  have buf: "buffers_ok base ?ram ds" using Cons.prems by (auto simp: buffers_ok_def list_all_iff dma_in_range_def)
  have IH: "desc_data base (fst (disk_read_loop base disk ds sec (cur + ucast l) ?ram (w + l))) ds = take (desc_total ds) (drop (?start + unat l) disk)"
    "snd (disk_read_loop base disk ds sec (cur + ucast l) ?ram (w + l)) = w + l + of_nat (desc_total ds)"
    using Cons.IH [OF buf] Cons.prems off by (simp_all add: d desc_len_def add.assoc)
  have "dma_read base a (unat l) (fst (disk_read_loop base disk ds sec (cur + ucast l) ?ram (w + l))) = dma_read base a (unat l) ?ram"
    using Cons.prems by (intro disk_read_loop_frame [THEN conjunct1]) (auto simp: buffers_ok_def d desc_len_def)
  also have "\<dots> = ?data"
  proof (cases "?start < length disk")
    case True
    have len: "length ?data = unat l" using Cons.prems by (simp add: d desc_len_def)
    have "dma_in_range base a (length ?data) ram" using Cons.prems(1) by (simp only: len) (simp add: buffers_ok_def d desc_len_def)
    with True lt show ?thesis using dma_read_write [of base a ?data ram] unfolding len by simp
  next
    case False
    then have "unat l = 0" using Cons.prems by (simp add: d desc_len_def)
    moreover have "dma_read base a 0 r = []" for r by (simp add: dma_read_def)
    ultimately show ?thesis by simp
  qed
  finally have here: "dma_read base a (unat l) (fst (disk_read_loop base disk ds sec (cur + ucast l) ?ram (w + l))) = ?data" .
  show ?case
    unfolding step desc_data_simps IH unfolding d fst_conv snd_conv desc_len_def here take_drop_add by simp
qed simp

text \<open>A request has a header, data buffers and a status byte.\<close>

definition req_header :: "u64 \<Rightarrow> dram_buffer \<Rightarrow> desc list \<Rightarrow> u32 \<times> u64" where
  "req_header base ram ds = (let header = dma_read base (fst (hd ds)) 16 ram
     in (from_le_bytes (take 4 header), from_le_bytes (take 8 (drop 8 header))))"

definition req_data :: "desc list \<Rightarrow> desc list" where
  "req_data ds = butlast (tl ds)"

lemma serve_write:
  assumes "3 \<le> length ds" "req_header base ram ds = (1, sector)" "vi_ram_base v = base"
    "unat (sector * 512) + desc_total (req_data ds) \<le> length (vi_disk_image v)" "length (vi_disk_image v) < 2 ^ 64"
  shows "\<exists>n. serve_request ds v ram = Some
    (v\<lparr> vi_disk_image := overwrite (unat (sector * 512)) (desc_data base ram (req_data ds)) (vi_disk_image v) \<rparr>,
     dma_write base (fst (last ds)) [0] ram, n)"
proof -
  have ne: "ds \<noteq> []" using assms(1) by auto
  obtain n where "disk_write_loop base ram (req_data ds) (sector * 512) (vi_disk_image v) 0
      = Some (overwrite (unat (sector * 512)) (desc_data base ram (req_data ds)) (vi_disk_image v), n)"
    using disk_write_loop_data [OF assms(4,5)] by blast
  then show ?thesis using assms(1,2,3) ne
    by (intro exI [of _ n]) (auto simp: serve_request_def req_header_def req_data_def SECTOR_SIZE_def Let_def split_beta hd_conv_nth last_conv_nth)
qed

lemma serve_read:
  assumes "3 \<le> length ds" "req_header base ram ds = (0, sector)" "vi_ram_base v = base" "buffers_ok base ram (req_data ds)"
    "unat (sector * 512) + desc_total (req_data ds) \<le> length (vi_disk_image v)" "length (vi_disk_image v) < 2 ^ 64"
    "\<forall>d \<in> set (req_data ds). dma_apart (fst d) (desc_len d) (fst (last ds)) 1"
  shows "\<exists>ram'. serve_request ds v ram = Some (v, ram', of_nat (desc_total (req_data ds)))
    \<and> desc_data base ram' (req_data ds) = take (desc_total (req_data ds)) (drop (unat (sector * 512)) (vi_disk_image v))"
proof -
  have ne: "ds \<noteq> []" using assms(1) by auto
  let ?r = "disk_read_loop base (vi_disk_image v) (req_data ds) (sector * 512) 0 ram 0"
  have d: "desc_data base (fst ?r) (req_data ds) = take (desc_total (req_data ds)) (drop (unat (sector * 512)) (vi_disk_image v))"
    "snd ?r = of_nat (desc_total (req_data ds))"
    using disk_read_loop_data [OF assms(4), of "sector * 512" 0 "vi_disk_image v" 0] assms(5,6) by simp_all
  have "desc_data base (dma_write base (fst (last ds)) [0] (fst ?r)) (req_data ds) = desc_data base (fst ?r) (req_data ds)"
    unfolding desc_data_def using assms(7) by (intro arg_cong [of _ _ concat] map_cong refl dma_read_apart) simp
  moreover have "serve_request ds v ram = Some (v, dma_write base (fst (last ds)) [0] (fst ?r), snd ?r)"
    using assms(1,2,3) ne
    by (auto simp: serve_request_def req_header_def req_data_def SECTOR_SIZE_def Let_def split_beta hd_conv_nth last_conv_nth)
  ultimately show ?thesis using d by auto
qed

text \<open>C33. What the guest writes to the disk is what it reads back: a write request whose buffers fit on the disk is served, and
  a later read request for the same sector and the same number of bytes, however the two are split into
  buffers, delivers the bytes that were in memory when the write was served.\<close>

theorem virtio_disk_roundtrip:
  assumes "3 \<le> length ws" "req_header base ram ws = (1, sector)" "vi_ram_base v = base"
    "unat (sector * 512) + desc_total (req_data ws) \<le> length (vi_disk_image v)" "length (vi_disk_image v) < 2 ^ 64"
    and "3 \<le> length rs" "req_header base ram' rs = (0, sector)" "desc_total (req_data rs) = desc_total (req_data ws)"
    "buffers_ok base ram' (req_data rs)" "\<forall>d \<in> set (req_data rs). dma_apart (fst d) (desc_len d) (fst (last rs)) 1"
  shows "\<exists>v1 ram1 n1 ram2. serve_request ws v ram = Some (v1, ram1, n1)
    \<and> serve_request rs v1 ram' = Some (v1, ram2, of_nat (desc_total (req_data ws)))
    \<and> desc_data base ram2 (req_data rs) = desc_data base ram (req_data ws)"
proof -
  let ?data = "desc_data base ram (req_data ws)" and ?off = "unat (sector * 512)"
  let ?v1 = "v\<lparr> vi_disk_image := overwrite ?off ?data (vi_disk_image v) \<rparr>"
  obtain n where w: "serve_request ws v ram = Some (?v1, dma_write base (fst (last ws)) [0] ram, n)"
    using serve_write [OF assms(1-5)] by blast
  have fit: "?off + length ?data \<le> length (vi_disk_image v)" using assms(4) by simp
  have "\<exists>ram2. serve_request rs ?v1 ram' = Some (?v1, ram2, of_nat (desc_total (req_data rs)))
      \<and> desc_data base ram2 (req_data rs) = take (desc_total (req_data rs)) (drop ?off (vi_disk_image ?v1))"
    using assms fit by (intro serve_read) simp_all
  then obtain ram2 where r: "serve_request rs ?v1 ram' = Some (?v1, ram2, of_nat (desc_total (req_data rs)))"
    "desc_data base ram2 (req_data rs) = take (desc_total (req_data rs)) (drop ?off (vi_disk_image ?v1))" by blast
  have "take (desc_total (req_data rs)) (drop ?off (vi_disk_image ?v1)) = ?data"
    using slice_of_overwrite [OF fit] assms(8) by simp
  with w r assms(8) show ?thesis by metis
qed

definition demo_req :: "u32 \<Rightarrow> u64 \<Rightarrow> dram_buffer" where
  "demo_req ty byte = to_le_bytes 4 ty @ replicate 12 0 @ to_le_bytes 8 byte @ replicate 8 0"

theorem virtio_disk_roundtrip_witness:
  "\<exists>v1 ram1 n1 ram2. serve_request [(0x1000, 16, 1), (0x1010, 4, 1), (0x101F, 1, 2)]
       (virtio_load (replicate 1024 0) (virtio_new 0x2000 0x1000)) (demo_req 1 0xAABBCCDD) = Some (v1, ram1, n1)
    \<and> serve_request [(0x1000, 16, 1), (0x1012, 2, 3), (0x1018, 2, 3), (0x101F, 1, 2)] v1 (demo_req 0 7) = Some (v1, ram2, 4)
    \<and> desc_data 0x1000 ram2 [(0x1012, 2, 3), (0x1018, 2, 3)] = [0xDD, 0xCC, 0xBB, 0xAA]"
proof -
  let ?ws = "[(0x1000, 16, 1), (0x1010, 4, 1), (0x101F, 1, 2)] :: desc list"
    and ?rs = "[(0x1000, 16, 1), (0x1012, 2, 3), (0x1018, 2, 3), (0x101F, 1, 2)] :: desc list"
    and ?v = "virtio_load (replicate 1024 0) (virtio_new 0x2000 0x1000)"
  have "req_header 0x1000 (demo_req 1 0xAABBCCDD) ?ws = (1, 0)" "req_header 0x1000 (demo_req 0 7) ?rs = (0, 0)"
    "desc_data 0x1000 (demo_req 1 0xAABBCCDD) (req_data ?ws) = [0xDD, 0xCC, 0xBB, 0xAA]" "desc_total (req_data ?ws) = 4" "desc_total (req_data ?rs) = 4"
    "buffers_ok 0x1000 (demo_req 0 7) (req_data ?rs)" "\<forall>d \<in> set (req_data ?rs). dma_apart (fst d) (desc_len d) (fst (last ?rs)) 1"
    by code_simp+
  moreover have "vi_ram_base ?v = 0x1000" "length (vi_disk_image ?v) = 1024" by (simp_all add: virtio_load_def virtio_new_def)
  moreover have "req_data ?rs = [(0x1012, 2, 3), (0x1018, 2, 3)]" by (simp add: req_data_def)
  ultimately show ?thesis
    using virtio_disk_roundtrip [where ws = ?ws and base = "0x1000" and ram = "demo_req 1 0xAABBCCDD" and sector = 0 and v = ?v
      and rs = ?rs and ram' = "demo_req 0 7"] by auto
qed

text \<open>A sector number near the top of the 64-bit range makes the end of the slice wrap to a small number, which passes the bounds
  check; the slice then ends before it starts and the simulator panics. The sector number is the guest's.\<close>

theorem virtio_write_panics:
  assumes "3 \<le> length ds" "req_header base ram ds = (1, sector)" "vi_ram_base v = base" "req_data ds = [(d_addr, d_len, f)]"
    "sector * 512 + ucast d_len < sector * 512" "sector * 512 + ucast d_len \<le> of_nat (length (vi_disk_image v))"
  shows "serve_request ds v ram = None"
proof -
  have ne: "ds \<noteq> []" using assms(1) by auto
  have "disk_write_loop base ram [(d_addr, d_len, f)] (sector * 512) (vi_disk_image v) 0 = None"
    using assms(5,6) by (simp add: Let_def)
  then show ?thesis using assms(1-4) ne
    by (auto simp: serve_request_def req_header_def req_data_def SECTOR_SIZE_def Let_def split_beta hd_conv_nth last_conv_nth)
qed

text \<open>A flush, as the standard has it, is a header and a status byte. The device acknowledges chains of at least three
  descriptors only, so the status byte of such a flush is never written.\<close>

theorem virtio_flush_not_acknowledged: "length ds = 2 \<Longrightarrow> serve_request ds v ram = Some (v, ram, 0)"
  by (simp add: serve_request_def)

end
