(* ===== verification/Dram.thy ===== *)
theory Dram
  imports Prelude
begin

text \<open>
  The memory controllers (\<open>soc/memory/controller.rs\<close>): the fixed-latency controller and the DRAM controller
  with open rows per bank, the row-to-row delay and periodic refresh. Cycles are 64-bit and wrap.

  The refresh loop has no bound in the source: it ends when the time of the next refresh has passed the
  current cycle, but every refresh may move the current cycle too. It ends exactly when a refresh is shorter
  than the refresh interval.
\<close>

subsection \<open>State\<close>

record bank_state =
  bk_open_row :: "u64 option"
  bk_busy_until :: u64

record dram_config =
  dc_t_cas :: u64
  dc_t_ras :: u64
  dc_t_pre :: u64
  dc_t_rrd :: u64
  dc_num_banks :: nat
  dc_row_size_bytes :: u64
  dc_t_refi :: u64
  dc_t_rfc :: u64

record dram_controller =
  dr_banks :: "bank_state list"
  dr_num_banks :: nat
  dr_t_cas :: u64
  dr_t_ras :: u64
  dr_t_pre :: u64
  dr_t_rrd :: u64
  dr_t_refi :: u64
  dr_t_rfc :: u64
  dr_row_mask :: u64
  dr_row_shift :: nat
  dr_last_activate_cycle :: "u64 option"
  dr_next_refresh_cycle :: u64

definition trailing_zeros :: "u64 \<Rightarrow> nat" where
  "trailing_zeros w = length (takeWhile (\<lambda>i. \<not> bit w i) [0..<64])"

definition dram_new :: "dram_config \<Rightarrow> dram_controller" where
  "dram_new c = \<lparr> dr_banks = replicate (dc_num_banks c) \<lparr> bk_open_row = None, bk_busy_until = 0 \<rparr>, dr_num_banks = dc_num_banks c,
     dr_t_cas = dc_t_cas c, dr_t_ras = dc_t_ras c, dr_t_pre = dc_t_pre c, dr_t_rrd = dc_t_rrd c, dr_t_refi = dc_t_refi c,
     dr_t_rfc = dc_t_rfc c, dr_row_mask = NOT (dc_row_size_bytes c - 1), dr_row_shift = trailing_zeros (dc_row_size_bytes c),
     dr_last_activate_cycle = None, dr_next_refresh_cycle = (if 0 < dc_t_refi c then dc_t_refi c else - 1) \<rparr>"

definition bank_index :: "dram_controller \<Rightarrow> u64 \<Rightarrow> nat" where
  "bank_index d addr = unat (drop_bit (dr_row_shift d) addr) mod dr_num_banks d"

definition row_addr :: "dram_controller \<Rightarrow> u64 \<Rightarrow> u64" where
  "row_addr d addr = addr AND dr_row_mask d"

subsection \<open>Refresh\<close>

definition refresh_bank :: "u64 \<Rightarrow> bank_state \<Rightarrow> bank_state" where
  "refresh_bank refresh_end b =
    \<lparr> bk_open_row = None, bk_busy_until = (if bk_busy_until b < refresh_end then refresh_end else bk_busy_until b) \<rparr>"

definition refresh_once :: "dram_controller \<times> u64 \<Rightarrow> dram_controller \<times> u64" where
  "refresh_once = (\<lambda>(d, now). let refresh_end = dr_next_refresh_cycle d + dr_t_rfc d
     in (d\<lparr> dr_banks := map (refresh_bank refresh_end) (dr_banks d), dr_next_refresh_cycle := dr_next_refresh_cycle d + dr_t_refi d \<rparr>,
         if now < refresh_end then refresh_end else now))"

definition refresh_due :: "dram_controller \<times> u64 \<Rightarrow> bool" where
  "refresh_due = (\<lambda>(d, now). dr_next_refresh_cycle d \<le> now)"

partial_function (option) refresh_loop :: "dram_controller \<times> u64 \<Rightarrow> (dram_controller \<times> u64) option" where
  "refresh_loop s = (if refresh_due s then refresh_loop (refresh_once s) else Some s)"

definition handle_refresh :: "dram_controller \<Rightarrow> u64 \<Rightarrow> (dram_controller \<times> u64) option" where
  "handle_refresh d now = (if dr_t_refi d = 0 then Some (d, now) else refresh_loop (d, now))"

subsection \<open>Accesses\<close>

definition activate :: "u64 \<Rightarrow> dram_controller \<Rightarrow> dram_controller \<times> u64" where
  "activate ready d =
    (let ready' = (case dr_last_activate_cycle d of
        Some last_act \<Rightarrow> let earliest = last_act + dr_t_rrd d in if ready < earliest then earliest else ready
      | None \<Rightarrow> ready)
     in (d\<lparr> dr_last_activate_cycle := Some ready' \<rparr>, ready'))"

definition open_row :: "nat \<Rightarrow> u64 \<Rightarrow> u64 \<Rightarrow> u64 \<Rightarrow> dram_controller \<Rightarrow> dram_controller \<times> u64" where
  "open_row i row now ready d =
    (let (d1, r) = activate ready d
     in (d1\<lparr> dr_banks := (dr_banks d1)[i := \<lparr> bk_open_row = Some row, bk_busy_until = r + dr_t_ras d1 \<rparr>] \<rparr>,
         (r - now) + dr_t_ras d1 + dr_t_cas d1))"

text \<open>\<open>None\<close>: the refresh loop does not end, or the controller has no banks and the bank index panics.\<close>

definition access_latency :: "u64 \<Rightarrow> u64 \<Rightarrow> dram_controller \<Rightarrow> (dram_controller \<times> u64) option" where
  "access_latency addr now d = Option.bind (handle_refresh d now) (\<lambda>(d1, ready0).
     if dr_num_banks d1 = 0 then None
     else Some (let i = bank_index d1 addr; row = row_addr d1 addr; b = dr_banks d1 ! i;
         ready = (if ready0 < bk_busy_until b then bk_busy_until b else ready0)
     in case bk_open_row b of
          Some r \<Rightarrow>
            if r = row then (d1\<lparr> dr_banks := (dr_banks d1)[i := b\<lparr> bk_busy_until := ready + dr_t_cas d1 \<rparr>] \<rparr>, (ready - now) + dr_t_cas d1)
            else open_row i row now (ready + dr_t_pre d1) d1
        | None \<Rightarrow> open_row i row now ready d1))"

datatype memory_controller = Simple u64 | Dram_ctl dram_controller

definition controller_latency :: "u64 \<Rightarrow> u64 \<Rightarrow> memory_controller \<Rightarrow> (memory_controller \<times> u64) option" where
  "controller_latency addr now m = (case m of
     Simple l \<Rightarrow> Some (m, l)
   | Dram_ctl d \<Rightarrow> map_option (\<lambda>(d', l). (Dram_ctl d', l)) (access_latency addr now d))"

subsection \<open>The refresh loop\<close>

lemma unat_add_small: "unat a + unat b < 2 ^ 64 \<Longrightarrow> unat (a + b :: u64) = unat a + unat b"
  by (simp add: unat_word_ariths)

lemma less_max_word: "unat (if a < b then b else a :: u64) = max (unat a) (unat b)"
  by (auto simp: word_less_nat_alt)

text \<open>One refresh, with cycles read as natural numbers.\<close>

lemma refresh_once_unat:
  assumes "unat (dr_next_refresh_cycle d) + unat (dr_t_rfc d) < 2 ^ 64" "unat (dr_next_refresh_cycle d) + unat (dr_t_refi d) < 2 ^ 64"
  shows "unat (dr_next_refresh_cycle (fst (refresh_once (d, now)))) = unat (dr_next_refresh_cycle d) + unat (dr_t_refi d)"
    "unat (snd (refresh_once (d, now))) = max (unat now) (unat (dr_next_refresh_cycle d) + unat (dr_t_rfc d))"
  using assms by (simp_all add: refresh_once_def Let_def less_max_word unat_add_small)

lemma refresh_once_const:
  "dr_t_refi (fst (refresh_once s)) = dr_t_refi (fst s)" "dr_t_rfc (fst (refresh_once s)) = dr_t_rfc (fst s)"
  "length (dr_banks (fst (refresh_once s))) = length (dr_banks (fst s))" "dr_t_cas (fst (refresh_once s)) = dr_t_cas (fst s)"
  by (simp_all add: refresh_once_def Let_def split_beta)

lemma refresh_once_rows: "b \<in> set (dr_banks (fst (refresh_once s))) \<Longrightarrow> bk_open_row b = None"
  by (auto simp: refresh_once_def Let_def split_beta refresh_bank_def)

lemma refresh_loop_step: "refresh_due s \<Longrightarrow> refresh_loop s = refresh_loop (refresh_once s)" "\<not> refresh_due s \<Longrightarrow> refresh_loop s = Some s"
  by (subst refresh_loop.simps, simp)+

definition refreshed :: "dram_controller \<times> u64 \<Rightarrow> nat \<Rightarrow> dram_controller \<times> u64 \<Rightarrow> bool" where
  "refreshed s n s' \<longleftrightarrow> snd s' < dr_next_refresh_cycle (fst s') \<and> snd s \<le> snd s' \<and> unat (snd s') \<le> unat (snd s) + unat (dr_t_rfc (fst s))
     \<and> unat (dr_next_refresh_cycle (fst s')) = unat (dr_next_refresh_cycle (fst s)) + n * unat (dr_t_refi (fst s))
     \<and> (if n = 0 then s' = s else \<forall>b \<in> set (dr_banks (fst s')). bk_open_row b = None)"

lemma refresh_loop_ends:
  assumes "dr_t_rfc (fst s) < dr_t_refi (fst s)" "unat (snd s) + unat (dr_t_refi (fst s)) < 2 ^ 64"
  shows "\<exists>n s'. refresh_loop s = Some s' \<and> refreshed s n s'"
  using assms
proof (induction "unat (snd s) - unat (dr_next_refresh_cycle (fst s)) + (if refresh_due s then 1 else 0)" arbitrary: s rule: less_induct)
  case less
  obtain d now where s: "s = (d, now)" by (cases s)
  show ?case
  proof (cases "refresh_due s")
    case False
    then show ?thesis
      by (intro exI [of _ 0] exI [of _ s]) (auto simp: refresh_loop_step refreshed_def refresh_due_def split_beta)
  next
    case True
    let ?t = "refresh_once s" and ?next = "unat (dr_next_refresh_cycle d)" and ?refi = "unat (dr_t_refi d)" and ?rfc = "unat (dr_t_rfc d)"
    have due: "?next \<le> unat now" using True by (simp add: refresh_due_def s word_le_nat_alt)
    have refi: "?rfc < ?refi" "unat now + ?refi < 2 ^ 64" using less.prems by (simp_all add: s word_less_nat_alt)
    have t: "unat (dr_next_refresh_cycle (fst ?t)) = ?next + ?refi" "unat (snd ?t) = max (unat now) (?next + ?rfc)"
      unfolding s using refresh_once_unat [of d now] due refi by auto
    note c = refresh_once_const(1,2) [of s, unfolded s fst_conv]
    show ?thesis
    proof (cases "?next + ?rfc \<le> unat now")
      case True
      then have now: "unat (snd ?t) = unat now" using t by simp
      have "unat (snd ?t) - unat (dr_next_refresh_cycle (fst ?t)) + (if refresh_due ?t then 1 else 0)
          < unat (snd s) - unat (dr_next_refresh_cycle (fst s)) + (if refresh_due s then 1 else 0)"
        using refi due \<open>refresh_due s\<close> t(1) now by (auto simp: s refresh_due_def split_beta word_le_nat_alt)
      moreover have "dr_t_rfc (fst ?t) < dr_t_refi (fst ?t)" "unat (snd ?t) + unat (dr_t_refi (fst ?t)) < 2 ^ 64"
        using less.prems refi now c by (simp_all add: s)
      ultimately obtain n s' where "refresh_loop ?t = Some s'" "refreshed ?t n s'" using less.hyps by blast
      with \<open>refresh_due s\<close> t now c refresh_once_rows [of _ s] show ?thesis
        by (intro exI [of _ "Suc n"] exI [of _ s']) (auto simp: refresh_loop_step refreshed_def s word_le_nat_alt split: if_splits)
    next
      case False
      then have "\<not> refresh_due ?t" using t refi by (auto simp: refresh_due_def split_beta word_le_nat_alt)
      with \<open>refresh_due s\<close> t due refi False refresh_once_rows [of _ s] show ?thesis
        by (intro exI [of _ 1] exI [of _ ?t])
          (auto simp: refresh_loop_step refreshed_def s word_le_nat_alt word_less_nat_alt)
    qed
  qed
qed

text \<open>C40. The refresh loop of the DRAM controller ends whenever a refresh is shorter than the refresh interval (and the
  cycle counter does not overflow). It performs whole intervals only, leaves the next refresh in the future, delays the
  access by at most one refresh and closes every row if it refreshed at all.\<close>

theorem handle_refresh_terminates:
  assumes "dr_t_rfc d < dr_t_refi d" "unat now + unat (dr_t_refi d) < 2 ^ 64"
  shows "\<exists>n d' now'. handle_refresh d now = Some (d', now') \<and> now' < dr_next_refresh_cycle d' \<and> now \<le> now'
    \<and> unat now' \<le> unat now + unat (dr_t_rfc d)
    \<and> unat (dr_next_refresh_cycle d') = unat (dr_next_refresh_cycle d) + n * unat (dr_t_refi d)
    \<and> (if n = 0 then d' = d \<and> now' = now else \<forall>b \<in> set (dr_banks d'). bk_open_row b = None)"
proof -
  obtain n d' now' where "refresh_loop (d, now) = Some (d', now')" "refreshed (d, now) n (d', now')"
    using refresh_loop_ends [of "(d, now)"] assms by auto
  moreover have "dr_t_refi d \<noteq> 0" using assms(1) by (auto simp: word_less_nat_alt)
  ultimately show ?thesis by (intro exI [of _ n] exI [of _ d'] exI [of _ now']) (simp add: handle_refresh_def refreshed_def split: if_splits)
qed

definition demo_dram :: dram_controller where
  "demo_dram = dram_new \<lparr> dc_t_cas = 14, dc_t_ras = 14, dc_t_pre = 14, dc_t_rrd = 4, dc_num_banks = 2, dc_row_size_bytes = 2048,
     dc_t_refi = 100, dc_t_rfc = 30 \<rparr>"

theorem handle_refresh_terminates_witness:
  "dr_t_rfc demo_dram < dr_t_refi demo_dram \<and> (\<exists>d' now'. handle_refresh demo_dram 310 = Some (d', now') \<and> now' < dr_next_refresh_cycle d')"
proof -
  have "dr_t_rfc demo_dram < dr_t_refi demo_dram" "unat (310 :: u64) + unat (dr_t_refi demo_dram) < 2 ^ 64"
    by (simp_all add: demo_dram_def dram_new_def)
  from this(1) handle_refresh_terminates [OF this] show ?thesis by blast
qed

text \<open>A refresh that is not shorter than the interval never catches up: the loop condition still holds after any number of
  rounds up to the overflow of the cycle counter.\<close>

theorem refresh_falls_behind:
  assumes "dr_t_refi d \<le> dr_t_rfc d" "refresh_due (d, now)"
    "unat (dr_next_refresh_cycle d) + k * unat (dr_t_refi d) + unat (dr_t_rfc d) < 2 ^ 64"
  shows "refresh_due ((refresh_once ^^ k) (d, now))"
  using assms
proof (induction k arbitrary: d now)
  case (Suc k)
  let ?t = "refresh_once (d, now)" and ?next = "unat (dr_next_refresh_cycle d)"
  have t: "unat (dr_next_refresh_cycle (fst ?t)) = ?next + unat (dr_t_refi d)" "unat (snd ?t) = max (unat now) (?next + unat (dr_t_rfc d))"
    using Suc.prems by (intro refresh_once_unat; simp add: word_le_nat_alt)+
  have c: "dr_t_refi (fst ?t) = dr_t_refi d" "dr_t_rfc (fst ?t) = dr_t_rfc d" by (simp_all add: refresh_once_const)
  have "refresh_due ?t" using t Suc.prems(1) by (auto simp: refresh_due_def split_beta word_le_nat_alt)
  then have "refresh_due ((refresh_once ^^ k) (fst ?t, snd ?t))"
    using Suc.prems t(1) c by (intro Suc.IH) simp_all
  then show ?case by (simp add: funpow_swap1)
qed simp

end
