(* ===== verification/Bus.thy ===== *)
theory Bus
  imports Devices Virtio Dram Mmu
begin

text \<open>
  The interconnect (\<open>soc/interconnect.rs\<close>) and the construction of the system (\<open>soc/builder.rs\<close>): devices sorted by
  base address, routing of physical accesses with the hint of the last device, the tick that collects interrupt lines,
  and the loading of binaries. Boxed devices are a datatype with one constructor per implementation of the \<open>Device\<close>
  trait; the buffer of main memory and the exit request, which devices share, are fields of the bus.

  An access returns (\<open>Done\<close>), stops the simulator by a failed assertion (\<open>Panic\<close>) or never returns (\<open>Hang\<close>).
\<close>

subsection \<open>Devices\<close>

datatype 'a outcome = Done 'a | Panic | Hang

datatype device =
    D_Memory memory
  | D_Uart uart
  | D_Disk virtio_block
  | D_Clint clint
  | D_Plic plic
  | D_Syscon syscon
  | D_Rtc goldfish_rtc
  | D_Htif htif

fun device_name :: "device \<Rightarrow> string" where
  "device_name (D_Memory _) = ''DRAM''"
| "device_name (D_Uart _) = ''UART0''"
| "device_name (D_Disk _) = ''VirtIO-Blk''"
| "device_name (D_Clint _) = ''CLINT''"
| "device_name (D_Plic _) = ''PLIC''"
| "device_name (D_Syscon _) = ''SysCon''"
| "device_name (D_Rtc _) = ''GoldfishRTC''"
| "device_name (D_Htif _) = ''HTIF''"

fun address_range :: "nat \<Rightarrow> device \<Rightarrow> u64 \<times> u64" where
  "address_range ram_len (D_Memory m) = (me_base_addr m, of_nat ram_len)"
| "address_range _ (D_Uart u) = (ua_base_addr u, 0x100)"
| "address_range _ (D_Disk v) = (vi_base_addr v, 0x1000)"
| "address_range _ (D_Clint c) = (cl_base_addr c, 0x10000)"
| "address_range _ (D_Plic p) = (pl_base_addr p, 0x4000000)"
| "address_range _ (D_Syscon s) = (sy_base_addr s, 0x1000)"
| "address_range _ (D_Rtc r) = (rt_base_addr r, 0x1000)"
| "address_range _ (D_Htif h) = (ht_base_addr h, 16)"

fun device_irq :: "device \<Rightarrow> nat option" where
  "device_irq (D_Uart _) = Some 10"
| "device_irq (D_Disk _) = Some 1"
| "device_irq (D_Rtc _) = Some 11"
| "device_irq _ = None"

definition panic_unless :: "'a option \<Rightarrow> 'a outcome" where
  "panic_unless x = (case x of None \<Rightarrow> Panic | Some y \<Rightarrow> Done y)"

text \<open>Reads return the value and the device; the clock reads the host's time.\<close>

fun dev_read_u8 :: "u64 \<Rightarrow> dram_buffer \<Rightarrow> u64 \<Rightarrow> device \<Rightarrow> (u8 \<times> device) outcome" where
  "dev_read_u8 time ram offset (D_Memory m) = panic_unless (map_option (\<lambda>v. (v, D_Memory m)) (memory_read_u8 offset ram))"
| "dev_read_u8 time ram offset (D_Uart u) = Done (map_prod id D_Uart (uart_read_u8 offset u))"
| "dev_read_u8 time ram offset (D_Disk v) = Done (virtio_read_u8 offset v, D_Disk v)"
| "dev_read_u8 time ram offset (D_Clint c) = Done (clint_read_u8 offset c, D_Clint c)"
| "dev_read_u8 time ram offset (D_Plic p) = Done (map_prod id D_Plic (plic_read_u8 offset p))"
| "dev_read_u8 time ram offset (D_Syscon s) = Done (0, D_Syscon s)"
| "dev_read_u8 time ram offset (D_Rtc r) = Done (0, D_Rtc r)"
| "dev_read_u8 time ram offset (D_Htif h) = Done (0, D_Htif h)"

fun dev_read_u16 :: "u64 \<Rightarrow> dram_buffer \<Rightarrow> u64 \<Rightarrow> device \<Rightarrow> (u16 \<times> device) outcome" where
  "dev_read_u16 time ram offset (D_Memory m) = panic_unless (map_option (\<lambda>v. (v, D_Memory m)) (memory_read_u16 offset ram))"
| "dev_read_u16 time ram offset (D_Uart u) = Done (map_prod id D_Uart (uart_read_u16 offset u))"
| "dev_read_u16 time ram offset (D_Disk v) = Done (virtio_read_u16 offset v, D_Disk v)"
| "dev_read_u16 time ram offset (D_Clint c) = Done (clint_read_u16 offset c, D_Clint c)"
| "dev_read_u16 time ram offset (D_Plic p) = Done (map_prod id D_Plic (plic_read_u16 offset p))"
| "dev_read_u16 time ram offset (D_Syscon s) = Done (0, D_Syscon s)"
| "dev_read_u16 time ram offset (D_Rtc r) = Done (0, D_Rtc r)"
| "dev_read_u16 time ram offset (D_Htif h) = Done (0, D_Htif h)"

fun dev_read_u32 :: "u64 \<Rightarrow> dram_buffer \<Rightarrow> u64 \<Rightarrow> device \<Rightarrow> (u32 \<times> device) outcome" where
  "dev_read_u32 time ram offset (D_Memory m) = panic_unless (map_option (\<lambda>v. (v, D_Memory m)) (memory_read_u32 offset ram))"
| "dev_read_u32 time ram offset (D_Uart u) = Done (map_prod id D_Uart (uart_read_u32 offset u))"
| "dev_read_u32 time ram offset (D_Disk v) = Done (virtio_read_u32 offset v, D_Disk v)"
| "dev_read_u32 time ram offset (D_Clint c) = Done (clint_read_u32 offset c, D_Clint c)"
| "dev_read_u32 time ram offset (D_Plic p) = Done (map_prod id D_Plic (plic_read_u32 offset p))"
| "dev_read_u32 time ram offset (D_Syscon s) = Done (0, D_Syscon s)"
| "dev_read_u32 time ram offset (D_Rtc r) = Done (rtc_read_u32 time offset, D_Rtc r)"
| "dev_read_u32 time ram offset (D_Htif h) = Done (0, D_Htif h)"

fun dev_read_u64 :: "u64 \<Rightarrow> dram_buffer \<Rightarrow> u64 \<Rightarrow> device \<Rightarrow> (u64 \<times> device) outcome" where
  "dev_read_u64 time ram offset (D_Memory m) = panic_unless (map_option (\<lambda>v. (v, D_Memory m)) (memory_read_u64 offset ram))"
| "dev_read_u64 time ram offset (D_Uart u) = Done (map_prod id D_Uart (uart_read_u64 offset u))"
| "dev_read_u64 time ram offset (D_Disk v) = Done (virtio_read_u64 offset v, D_Disk v)"
| "dev_read_u64 time ram offset (D_Clint c) = Done (clint_read_u64 offset c, D_Clint c)"
| "dev_read_u64 time ram offset (D_Plic p) = Done (map_prod id D_Plic (plic_read_u64 offset p))"
| "dev_read_u64 time ram offset (D_Syscon s) = Done (0, D_Syscon s)"
| "dev_read_u64 time ram offset (D_Rtc r) = Done (rtc_read_u64 time offset, D_Rtc r)"
| "dev_read_u64 time ram offset (D_Htif h) = Done (0, D_Htif h)"

text \<open>Writes act on the device, the shared buffer and the exit request.\<close>

type_synonym dev_state = "device \<times> dram_buffer \<times> u64"

definition memory_written :: "memory \<Rightarrow> u64 \<Rightarrow> dram_buffer option \<Rightarrow> dev_state outcome" where
  "memory_written m ex r = panic_unless (map_option (\<lambda>ram'. (D_Memory m, ram', ex)) r)"

definition disk_written :: "u64 \<Rightarrow> (unit + virtio_block \<times> dram_buffer) option \<Rightarrow> dev_state outcome" where
  "disk_written ex r = (case r of None \<Rightarrow> Hang | Some (Inl _) \<Rightarrow> Panic | Some (Inr (v, ram')) \<Rightarrow> Done (D_Disk v, ram', ex))"

fun dev_write_u8 :: "u64 \<Rightarrow> u8 \<Rightarrow> dev_state \<Rightarrow> dev_state outcome" where
  "dev_write_u8 offset val (D_Memory m, ram, ex) = memory_written m ex (memory_write_u8 offset val ram)"
| "dev_write_u8 offset val (D_Uart u, ram, ex) = Done (D_Uart (uart_write_u8 offset val u), ram, ex)"
| "dev_write_u8 offset val (D_Disk v, ram, ex) = disk_written ex (virtio_write_u8 offset val v ram)"
| "dev_write_u8 offset val (D_Plic p, ram, ex) = Done (D_Plic (plic_write_u8 offset val p), ram, ex)"
| "dev_write_u8 offset val s = Done s"

fun dev_write_u16 :: "u64 \<Rightarrow> u16 \<Rightarrow> dev_state \<Rightarrow> dev_state outcome" where
  "dev_write_u16 offset val (D_Memory m, ram, ex) = memory_written m ex (memory_write_u16 offset val ram)"
| "dev_write_u16 offset val (D_Uart u, ram, ex) = Done (D_Uart (uart_write_u16 offset val u), ram, ex)"
| "dev_write_u16 offset val (D_Disk v, ram, ex) = disk_written ex (virtio_write_u16 offset val v ram)"
| "dev_write_u16 offset val (D_Plic p, ram, ex) = Done (D_Plic (plic_write_u16 offset val p), ram, ex)"
| "dev_write_u16 offset val s = Done s"

fun dev_write_u32 :: "u64 \<Rightarrow> u32 \<Rightarrow> dev_state \<Rightarrow> dev_state outcome" where
  "dev_write_u32 offset val (D_Memory m, ram, ex) = memory_written m ex (memory_write_u32 offset val ram)"
| "dev_write_u32 offset val (D_Uart u, ram, ex) = Done (D_Uart (uart_write_u32 offset val u), ram, ex)"
| "dev_write_u32 offset val (D_Disk v, ram, ex) = disk_written ex (virtio_write_u32 offset val v ram)"
| "dev_write_u32 offset val (D_Clint c, ram, ex) = Done (D_Clint (clint_write_u32 offset val c), ram, ex)"
| "dev_write_u32 offset val (D_Plic p, ram, ex) = Done (D_Plic (plic_write_u32 offset val p), ram, ex)"
| "dev_write_u32 offset val (D_Syscon s, ram, ex) = Done (D_Syscon s, ram, syscon_write_u32 offset val ex)"
| "dev_write_u32 offset val (D_Rtc r, ram, ex) = Done (D_Rtc r, ram, ex)"
| "dev_write_u32 offset val (D_Htif h, ram, ex) = Done (D_Htif h, ram, htif_write_u32 offset val ex)"

fun dev_write_u64 :: "u64 \<Rightarrow> u64 \<Rightarrow> dev_state \<Rightarrow> dev_state outcome" where
  "dev_write_u64 offset val (D_Memory m, ram, ex) = memory_written m ex (memory_write_u64 offset val ram)"
| "dev_write_u64 offset val (D_Uart u, ram, ex) = Done (D_Uart (uart_write_u64 offset val u), ram, ex)"
| "dev_write_u64 offset val (D_Disk v, ram, ex) = disk_written ex (virtio_write_u64 offset val v ram)"
| "dev_write_u64 offset val (D_Clint c, ram, ex) = Done (D_Clint (clint_write_u64 offset val c), ram, ex)"
| "dev_write_u64 offset val (D_Plic p, ram, ex) = Done (D_Plic (plic_write_u64 offset val p), ram, ex)"
| "dev_write_u64 offset val (D_Syscon s, ram, ex) = Done (D_Syscon s, ram, syscon_write_u64 offset val ex)"
| "dev_write_u64 offset val (D_Rtc r, ram, ex) = Done (D_Rtc r, ram, ex)"
| "dev_write_u64 offset val (D_Htif h, ram, ex) = Done (D_Htif h, ram, htif_write_u64 offset val ex)"

fun bind_outcome :: "'a outcome \<Rightarrow> ('a \<Rightarrow> 'b outcome) \<Rightarrow> 'b outcome" where
  "bind_outcome (Done x) f = f x"
| "bind_outcome Panic f = Panic"
| "bind_outcome Hang f = Hang"

text \<open>\<open>write_bytes\<close>: the memory copies a slice, every other device takes the default loop over bytes.\<close>

fun write_bytes_loop :: "u64 \<Rightarrow> u8 list \<Rightarrow> dev_state \<Rightarrow> dev_state outcome" where
  "write_bytes_loop offset [] s = Done s"
| "write_bytes_loop offset (b # bs) s = bind_outcome (dev_write_u8 offset b s) (write_bytes_loop (offset + 1) bs)"

fun dev_write_bytes :: "u64 \<Rightarrow> u8 list \<Rightarrow> dev_state \<Rightarrow> dev_state outcome" where
  "dev_write_bytes offset data (D_Memory m, ram, ex) = memory_written m ex (memory_write_bytes offset data ram)"
| "dev_write_bytes offset data s = write_bytes_loop offset data s"

text \<open>The tick of a device and whether its line is up; \<open>received\<close> is what standard input has to offer.\<close>

fun device_tick :: "u8 list \<Rightarrow> device \<Rightarrow> device \<times> bool" where
  "device_tick received (D_Uart u) = map_prod D_Uart id (uart_tick received u)"
| "device_tick received (D_Disk v) = (D_Disk v, virtio_tick v)"
| "device_tick received (D_Clint c) = map_prod D_Clint id (clint_tick c)"
| "device_tick received (D_Plic p) = map_prod D_Plic id (plic_tick p)"
| "device_tick received d = (d, False)"


subsection \<open>The interconnect\<close>

record interconnect =
  ic_devices :: "device list"
  ic_width_bytes :: u64
  ic_latency_cycles :: u64
  ic_last_device_idx :: nat
  ic_ram_idx :: "nat option"
  ic_uart_idx :: "nat option"
  ic_htif_idx :: "nat option"
  ic_clint_idx :: "nat option"
  ic_ram :: dram_buffer
  ic_exit_request :: u64

definition ic_new :: "u64 \<Rightarrow> u64 \<Rightarrow> dram_buffer \<Rightarrow> interconnect" where
  "ic_new width latency ram = \<lparr> ic_devices = [], ic_width_bytes = width, ic_latency_cycles = latency, ic_last_device_idx = 0,
     ic_ram_idx = None, ic_uart_idx = None, ic_htif_idx = None, ic_clint_idx = None, ic_ram = ram, ic_exit_request = - 1 \<rparr>"

definition dev_base :: "nat \<Rightarrow> device \<Rightarrow> u64" where
  "dev_base ram_len d = fst (address_range ram_len d)"

definition add_device :: "device \<Rightarrow> interconnect \<Rightarrow> interconnect" where
  "add_device dev b =
    (let ds = sort_key (dev_base (length (ic_ram b))) (ic_devices b @ [dev]); find = (\<lambda>n. position (\<lambda>d. device_name d = n) ds)
     in b\<lparr> ic_devices := ds, ic_ram_idx := find ''DRAM'', ic_uart_idx := find ''UART0'', ic_htif_idx := find ''HTIF'',
           ic_clint_idx := find ''CLINT'', ic_last_device_idx := 0 \<rparr>)"

definition ic_transit_time :: "u64 \<Rightarrow> interconnect \<Rightarrow> u64" where
  "ic_transit_time bytes b = ic_latency_cycles b + of_nat (div_ceil (unat bytes) (unat (ic_width_bytes b)))"

definition in_range :: "u64 \<Rightarrow> u64 \<times> u64 \<Rightarrow> bool" where
  "in_range raw r \<longleftrightarrow> fst r \<le> raw \<and> raw < fst r + snd r"

definition contains :: "interconnect \<Rightarrow> u64 \<Rightarrow> device \<Rightarrow> bool" where
  "contains b raw d \<longleftrightarrow> in_range raw (address_range (length (ic_ram b)) d)"

definition is_valid_address :: "u64 \<Rightarrow> interconnect \<Rightarrow> bool" where
  "is_valid_address raw b \<longleftrightarrow>
    (case ic_ram_idx b of Some i \<Rightarrow> contains b raw (ic_devices b ! i) | None \<Rightarrow> False) \<or> list_ex (contains b raw) (ic_devices b)"

definition get_ram_info :: "interconnect \<Rightarrow> (u64 \<times> u64) option" where
  "get_ram_info b = (case ic_ram_idx b of None \<Rightarrow> None
     | Some i \<Rightarrow> (case ic_devices b ! i of D_Memory m \<Rightarrow> Some (me_base_addr m, me_base_addr m + of_nat (length (ic_ram b))) | _ \<Rightarrow> None))"

text \<open>The device of an address and the new hint: the host-target interface lies inside main memory and is tried first, then the
  last device, main memory, and every device in order.\<close>

definition hit_at :: "interconnect \<Rightarrow> u64 \<Rightarrow> nat option \<Rightarrow> bool" where
  "hit_at b raw i = (case i of Some i \<Rightarrow> contains b raw (ic_devices b ! i) | None \<Rightarrow> False)"

definition find_index :: "u64 \<Rightarrow> interconnect \<Rightarrow> nat option" where
  "find_index raw b =
    (if hit_at b raw (ic_htif_idx b) then ic_htif_idx b
     else if ic_last_device_idx b < length (ic_devices b) \<and> contains b raw (ic_devices b ! ic_last_device_idx b) then Some (ic_last_device_idx b)
     else if hit_at b raw (ic_ram_idx b) then ic_ram_idx b
     else position (contains b raw) (ic_devices b))"

definition find_device :: "u64 \<Rightarrow> interconnect \<Rightarrow> (nat \<times> u64 \<times> interconnect) option" where
  "find_device raw b = map_option (\<lambda>i. (i, raw - dev_base (length (ic_ram b)) (ic_devices b ! i), b\<lparr> ic_last_device_idx := i \<rparr>)) (find_index raw b)"

definition ic_read :: "(dram_buffer \<Rightarrow> u64 \<Rightarrow> device \<Rightarrow> ('a::len word \<times> device) outcome) \<Rightarrow> u64 \<Rightarrow> interconnect \<Rightarrow> ('a word \<times> interconnect) outcome" where
  "ic_read rd raw b = (case find_device raw b of
     None \<Rightarrow> Done (0, b)
   | Some (i, offset, b1) \<Rightarrow> bind_outcome (rd (ic_ram b1) offset (ic_devices b1 ! i)) (\<lambda>(v, d). Done (v, b1\<lparr> ic_devices := (ic_devices b1)[i := d] \<rparr>)))"

definition ic_read_u8 :: "u64 \<Rightarrow> u64 \<Rightarrow> interconnect \<Rightarrow> (u8 \<times> interconnect) outcome" where
  "ic_read_u8 time = ic_read (dev_read_u8 time)"

definition ic_read_u16 :: "u64 \<Rightarrow> u64 \<Rightarrow> interconnect \<Rightarrow> (u16 \<times> interconnect) outcome" where
  "ic_read_u16 time = ic_read (dev_read_u16 time)"

definition ic_read_u32 :: "u64 \<Rightarrow> u64 \<Rightarrow> interconnect \<Rightarrow> (u32 \<times> interconnect) outcome" where
  "ic_read_u32 time = ic_read (dev_read_u32 time)"

definition ic_read_u64 :: "u64 \<Rightarrow> u64 \<Rightarrow> interconnect \<Rightarrow> (u64 \<times> interconnect) outcome" where
  "ic_read_u64 time = ic_read (dev_read_u64 time)"

definition dev_update :: "nat \<Rightarrow> dev_state \<Rightarrow> interconnect \<Rightarrow> interconnect" where
  "dev_update i s b = (case s of (d, ram, ex) \<Rightarrow> b\<lparr> ic_devices := (ic_devices b)[i := d], ic_ram := ram, ic_exit_request := ex \<rparr>)"

definition ic_write :: "(u64 \<Rightarrow> dev_state \<Rightarrow> dev_state outcome) \<Rightarrow> u64 \<Rightarrow> interconnect \<Rightarrow> interconnect outcome" where
  "ic_write wr raw b = (case find_device raw b of
     None \<Rightarrow> Done b
   | Some (i, offset, b1) \<Rightarrow> bind_outcome (wr offset (ic_devices b1 ! i, ic_ram b1, ic_exit_request b1)) (\<lambda>s. Done (dev_update i s b1)))"

definition ic_write_u8 :: "u64 \<Rightarrow> u8 \<Rightarrow> interconnect \<Rightarrow> interconnect outcome" where
  "ic_write_u8 raw val = ic_write (\<lambda>offset. dev_write_u8 offset val) raw"

definition ic_write_u16 :: "u64 \<Rightarrow> u16 \<Rightarrow> interconnect \<Rightarrow> interconnect outcome" where
  "ic_write_u16 raw val = ic_write (\<lambda>offset. dev_write_u16 offset val) raw"

definition ic_write_u32 :: "u64 \<Rightarrow> u32 \<Rightarrow> interconnect \<Rightarrow> interconnect outcome" where
  "ic_write_u32 raw val = ic_write (\<lambda>offset. dev_write_u32 offset val) raw"

definition ic_write_u64 :: "u64 \<Rightarrow> u64 \<Rightarrow> interconnect \<Rightarrow> interconnect outcome" where
  "ic_write_u64 raw val = ic_write (\<lambda>offset. dev_write_u64 offset val) raw"

fun load_bytes :: "u64 \<Rightarrow> u8 list \<Rightarrow> interconnect \<Rightarrow> interconnect outcome" where
  "load_bytes addr [] b = Done b"
| "load_bytes addr (x # xs) b = bind_outcome (ic_write_u8 addr x b) (load_bytes (addr + 1) xs)"

definition load_binary_at :: "u8 list \<Rightarrow> u64 \<Rightarrow> interconnect \<Rightarrow> interconnect outcome" where
  "load_binary_at data addr b = (case find_device addr b of
     None \<Rightarrow> load_bytes addr data b
   | Some (i, offset, b1) \<Rightarrow>
       if offset + of_nat (length data) \<le> snd (address_range (length (ic_ram b1)) (ic_devices b1 ! i)) then
         bind_outcome (dev_write_bytes offset data (ic_devices b1 ! i, ic_ram b1, ic_exit_request b1)) (\<lambda>s. Done (dev_update i s b1))
       else load_bytes addr data b1)"

text \<open>The tick of the bus: every device in order, the interrupt lines collected into a mask for the interrupt controller.\<close>

definition line_mask :: "u8 list \<Rightarrow> device list \<Rightarrow> u64" where
  "line_mask received ds = fold (\<lambda>d m. case device_irq d of
     Some i \<Rightarrow> if snd (device_tick received d) \<and> i < 64 then m OR push_bit i 1 else m | None \<Rightarrow> m) ds 0"

definition as_clint :: "device \<Rightarrow> clint option" where
  "as_clint d = (case d of D_Clint c \<Rightarrow> Some c | _ \<Rightarrow> None)"

definition as_plic :: "device \<Rightarrow> plic option" where
  "as_plic d = (case d of D_Plic p \<Rightarrow> Some p | _ \<Rightarrow> None)"

definition find_plic :: "device list \<Rightarrow> (nat \<times> plic) option" where
  "find_plic ds = (case position (\<lambda>d. as_plic d \<noteq> None) ds of None \<Rightarrow> None | Some i \<Rightarrow> map_option (Pair i) (as_plic (ds ! i)))"

definition ic_tick :: "u8 list \<Rightarrow> interconnect \<Rightarrow> interconnect \<times> bool \<times> bool \<times> bool \<times> bool" where
  "ic_tick received b =
    (let ds = ic_devices b; b1 = b\<lparr> ic_devices := map (fst \<circ> device_tick received) ds \<rparr>;
         timer_irq = list_ex (\<lambda>d. snd (device_tick received d) \<and> device_name d = ''CLINT'') ds;
         msip = (case ic_clint_idx b of None \<Rightarrow> False
           | Some i \<Rightarrow> (case as_clint (ic_devices b1 ! i) of None \<Rightarrow> False | Some c \<Rightarrow> msip_pending c))
     in case find_plic (ic_devices b1) of
          None \<Rightarrow> (b1, timer_irq, msip, False, False)
        | Some (i, p) \<Rightarrow>
            (case plic_check_interrupts (update_irqs (line_mask received ds) p) of (p', meip, seip) \<Rightarrow>
               (b1\<lparr> ic_devices := (ic_devices b1)[i := D_Plic p'] \<rparr>, timer_irq, msip, meip, seip)))"

definition ic_check_kernel_panic :: "interconnect \<Rightarrow> bool" where
  "ic_check_kernel_panic b = (case ic_uart_idx b of None \<Rightarrow> False
     | Some i \<Rightarrow> if i < length (ic_devices b) then (case ic_devices b ! i of D_Uart u \<Rightarrow> ua_panic_detected u | _ \<Rightarrow> False) else False)"


subsection \<open>Building the system\<close>

datatype controller_config = Cfg_Dram dram_config | Cfg_Simple u64

record soc_config =
  sc_bus_width :: u64
  sc_bus_latency :: u64
  sc_ram_base :: u64
  sc_ram_size :: nat
  sc_uart_base :: u64
  sc_uart_quiet :: bool
  sc_clint_base :: u64
  sc_clint_divider :: u64
  sc_disk_base :: u64
  sc_syscon_base :: u64
  sc_tohost_addr :: u64
  sc_controller :: controller_config

record system =
  sys_bus :: interconnect
  sys_mem_controller :: memory_controller

text \<open>\<open>disk_data\<close> is the content of the disk file, empty if there is none. Fresh memory pages are zero.\<close>

definition system_new :: "soc_config \<Rightarrow> u8 list \<Rightarrow> system" where
  "system_new c disk_data =
    (let ram = replicate (sc_ram_size c) 0; bus0 = ic_new (sc_bus_width c) (sc_bus_latency c) ram;
         disk0 = virtio_new (sc_disk_base c) (sc_ram_base c);
         disk = (if disk_data \<noteq> [] then virtio_load disk_data disk0 else disk0);
         bus1 = fold add_device [D_Memory \<lparr> me_base_addr = sc_ram_base c \<rparr>, D_Uart (uart_new (sc_uart_base c) (sc_uart_quiet c)), D_Disk disk,
           D_Clint (clint_new (sc_clint_base c) (sc_clint_divider c)), D_Plic (plic_new 0x0c000000),
           D_Syscon \<lparr> sy_base_addr = sc_syscon_base c \<rparr>, D_Rtc \<lparr> rt_base_addr = 0x101000 \<rparr>] bus0;
         bus2 = (if sc_tohost_addr c \<noteq> 0 then add_device (D_Htif \<lparr> ht_base_addr = sc_tohost_addr c \<rparr>) bus1 else bus1)
     in \<lparr> sys_bus = bus2, sys_mem_controller = (case sc_controller c of Cfg_Dram d \<Rightarrow> Dram_ctl (dram_new d) | Cfg_Simple l \<Rightarrow> Simple l) \<rparr>)"

definition system_tick :: "u8 list \<Rightarrow> system \<Rightarrow> system \<times> bool \<times> bool \<times> bool \<times> bool" where
  "system_tick received s = (case ic_tick received (sys_bus s) of (b, lines) \<Rightarrow> (s\<lparr> sys_bus := b \<rparr>, lines))"

definition system_check_exit :: "system \<Rightarrow> u64 option" where
  "system_check_exit s = check_exit (ic_exit_request (sys_bus s))"

definition add_htif :: "u64 \<Rightarrow> system \<Rightarrow> system" where
  "add_htif tohost_addr s = s\<lparr> sys_bus := add_device (D_Htif \<lparr> ht_base_addr = tohost_addr \<rparr>) (sys_bus s) \<rparr>"

subsection \<open>Well-formed buses\<close>

text \<open>The part of a device that no operation changes.\<close>

definition dev_id :: "device \<Rightarrow> string \<times> (nat \<Rightarrow> u64 \<times> u64)" where
  "dev_id d = (device_name d, \<lambda>n. address_range n d)"

definition plic_low :: "plic \<Rightarrow> bool" where
  "plic_low p \<longleftrightarrow> list_all (\<lambda>w. w = 0) (drop 2 (pl_pending p))"

fun dev_ok :: "device \<Rightarrow> bool" where
  "dev_ok (D_Plic p) \<longleftrightarrow> plic_ok p \<and> plic_low p"
| "dev_ok (D_Clint c) \<longleftrightarrow> clint_ok c"
| "dev_ok _ \<longleftrightarrow> True"

definition same_dev :: "device \<Rightarrow> device \<Rightarrow> bool" where
  "same_dev d d' \<longleftrightarrow> dev_id d' = dev_id d \<and> (dev_ok d \<longrightarrow> dev_ok d')"

lemma same_dev_refl [simp]: "same_dev d d"
  by (simp add: same_dev_def)

lemma same_devI:
  "ua_base_addr u' = ua_base_addr u \<Longrightarrow> same_dev (D_Uart u) (D_Uart u')"
  "vi_base_addr v' = vi_base_addr v \<Longrightarrow> same_dev (D_Disk v) (D_Disk v')"
  "cl_base_addr c' = cl_base_addr c \<Longrightarrow> (clint_ok c \<Longrightarrow> clint_ok c') \<Longrightarrow> same_dev (D_Clint c) (D_Clint c')"
  "pl_base_addr p' = pl_base_addr p \<Longrightarrow> (plic_ok p \<Longrightarrow> plic_ok p') \<Longrightarrow> (plic_low p \<Longrightarrow> plic_low p') \<Longrightarrow> same_dev (D_Plic p) (D_Plic p')"
  by (auto simp: same_dev_def dev_id_def fun_eq_iff)

lemma plic_clear_pending_low: "plic_low p \<Longrightarrow> plic_low (plic_clear_pending i p)"
  by (auto simp: plic_low_def plic_clear_pending_def Let_def list_all_length nth_list_update split: if_splits)

lemma update_irqs_low: "plic_low p \<Longrightarrow> plic_low (update_irqs m p)"
  by (simp add: plic_low_def update_irqs_def)

lemma plic_low_claims: "plic_low (p\<lparr> pl_claims := x \<rparr>) = plic_low p" "plic_low (p\<lparr> pl_enables := y \<rparr>) = plic_low p"
  "plic_low (p\<lparr> pl_thresholds := x \<rparr>) = plic_low p" "plic_low (p\<lparr> pl_priorities := x \<rparr>) = plic_low p"
  by (simp_all add: plic_low_def)

lemma plic_set_claim_same: "plic_low (fst (plic_set_claim c p)) = plic_low p" "pl_base_addr (fst (plic_set_claim c p)) = pl_base_addr p"
  "pl_pending (fst (plic_set_claim c p)) = pl_pending p"
  by (simp_all add: plic_set_claim_def plic_low_claims)

lemma plic_check_interrupts_same:
  "plic_low (fst (plic_check_interrupts p)) = plic_low p" "pl_base_addr (fst (plic_check_interrupts p)) = pl_base_addr p"
  by (simp_all add: plic_check_interrupts_def split_beta plic_set_claim_same)

lemma plic_clear_pending_base: "pl_base_addr (plic_clear_pending i p) = pl_base_addr p"
  by (simp add: plic_clear_pending_def Let_def)

lemma plic_read_u32_same: "plic_low p \<Longrightarrow> plic_low (snd (plic_read_u32 offset p))" "pl_base_addr (snd (plic_read_u32 offset p)) = pl_base_addr p"
  by (simp_all add: plic_read_u32_def Let_def plic_clear_pending_low plic_clear_pending_base)

lemma plic_write_u32_same: "plic_low p \<Longrightarrow> plic_low (plic_write_u32 offset v p)" "pl_base_addr (plic_write_u32 offset v p) = pl_base_addr p"
  by (simp_all add: plic_write_u32_def Let_def plic_clear_pending_low plic_clear_pending_base plic_low_claims)

lemma clint_write_same: "cl_base_addr (clint_write_u32 offset v c) = cl_base_addr c" "clint_ok (clint_write_u32 offset v c) = clint_ok c"
  "cl_base_addr (clint_write_u64 offset w c) = cl_base_addr c" "clint_ok (clint_write_u64 offset w c) = clint_ok c"
  by (simp_all add: clint_write_u32_def clint_write_u64_def clint_ok_def)

lemma uart_same: "ua_base_addr (snd (uart_read_u8 offset u)) = ua_base_addr u" "ua_base_addr (uart_write_u8 offset v u) = ua_base_addr u"
  "ua_base_addr (fst (uart_tick r u)) = ua_base_addr u"
  by (simp_all add: uart_read_u8_def read_rbr_or_dll_def read_iir_def uart_write_u8_def write_thr_or_dll_def write_ier_or_dlm_def
      check_char_for_panic_def uart_tick_def check_stdin_def Let_def split_beta split: list.split)

lemmas access_same = plic_read_u32_same plic_write_u32_same plic_read_u32_ok plic_write_u32_ok clint_write_same uart_same

lemma dev_reads_same:
  "dev_read_u8 t ram off d = Done (v8, d') \<Longrightarrow> same_dev d d'" "dev_read_u16 t ram off d = Done (v16, d') \<Longrightarrow> same_dev d d'"
  "dev_read_u32 t ram off d = Done (v32, d') \<Longrightarrow> same_dev d d'" "dev_read_u64 t ram off d = Done (v64, d') \<Longrightarrow> same_dev d d'"
  by (cases d; auto simp: panic_unless_def uart_read_u16_def uart_read_u32_def uart_read_u64_def plic_read_u8_def plic_read_u16_def
      plic_read_u64_def map_prod_def split_beta access_same intro!: same_devI split: option.splits)+

text \<open>The disk keeps its base address and the size of main memory.\<close>

lemma disk_read_loop_length: "length (fst (disk_read_loop base disk ds sec cur ram w)) = length ram"
  by (induction ds arbitrary: cur ram w) (auto simp: Let_def)

lemma disk_read_loop_len: "disk_read_loop base disk ds sec cur ram w = (ram', n) \<Longrightarrow> length ram' = length ram"
  using disk_read_loop_length [of base disk ds sec cur ram w] by simp

lemma serve_request_same:
  "serve_request ds v ram = Some (v', ram', n) \<Longrightarrow> vi_base_addr v' = vi_base_addr v \<and> length ram' = length ram"
  by (auto simp: serve_request_def Let_def split_beta disk_read_loop_length dest!: disk_read_loop_len split: if_splits)

lemma process_one_same:
  assumes "process_one v ram = Some (Inr (v', ram'))"
  shows "vi_base_addr v' = vi_base_addr v \<and> length ram' = length ram"
  using assms serve_request_same
  by (fastforce simp: process_one_def push_used_def Let_def split: if_splits option.splits prod.splits)

lemma process_turns_same:
  "process_turns n v ram = Some (Inr (v', ram')) \<Longrightarrow> vi_base_addr v' = vi_base_addr v \<and> length ram' = length ram"
proof (induction n arbitrary: v ram)
  case (Suc n)
  then obtain r where r: "process_one v ram = Some r" "(if isl r then Some r else process_turns n (fst (projr r)) (snd (projr r))) = Some (Inr (v', ram'))"
    by (auto simp: Option.bind_eq_Some_conv)
  show ?case
  proof (cases r)
    case (Inr x)
    with r have "process_one v ram = Some (Inr (fst x, snd x))" "process_turns n (fst x) (snd x) = Some (Inr (v', ram'))" by auto
    with Suc.IH process_one_same show ?thesis by metis
  qed (use r in simp)
qed simp

lemma process_queue_same:
  assumes "process_queue v ram = Some (Inr (v', ram'))"
  shows "vi_base_addr v' = vi_base_addr v \<and> length ram' = length ram"
proof (cases "vi_queue_num v = 0")
  case False
  then obtain n r where r: "process_turns n v ram = Some r"
    "map_sum id (\<lambda>(v', ram'). (v'\<lparr> vi_interrupt_status := vi_interrupt_status v' OR 1 \<rparr>, ram')) r = Inr (v', ram')"
    using assms by (auto simp: process_queue_def Let_def process_loop_turns)
  then obtain v1 where "r = Inr (v1, ram')" "vi_base_addr v' = vi_base_addr v1" by (cases r) auto
  with r process_turns_same show ?thesis by metis
qed (use assms in \<open>simp add: process_queue_def\<close>)

lemma virtio_write_same:
  assumes "virtio_write_u32 offset val v ram = Some (Inr (v', ram'))"
  shows "vi_base_addr v' = vi_base_addr v \<and> length ram' = length ram"
  using assms process_queue_same [of "v\<lparr> vi_queue_notify := val \<rparr>" ram v' ram']
  by (auto simp: virtio_write_u32_def virtio_set_reg_def split: if_splits)

definition same_state :: "dev_state \<Rightarrow> dev_state \<Rightarrow> bool" where
  "same_state s s' \<longleftrightarrow> same_dev (fst s) (fst s') \<and> length (fst (snd s')) = length (fst (snd s))"

lemma memory_written_same:
  "memory_written m ex r = Done s' \<Longrightarrow> (\<And>ram'. r = Some ram' \<Longrightarrow> length ram' = length ram) \<Longrightarrow> same_state (D_Memory m, ram, ex) s'"
  by (auto simp: memory_written_def panic_unless_def same_state_def split: option.splits)

lemma disk_written_same: "disk_written ex (virtio_write_u32 offset val v ram) = Done s' \<Longrightarrow> same_state (D_Disk v, ram, ex) s'"
  using virtio_write_same [of offset val v ram]
  by (auto simp: disk_written_def same_state_def intro!: same_devI split: option.splits sum.splits prod.splits)

lemma slice_writes_length: "write_slice off data ram = Some ram' \<Longrightarrow> length ram' = length ram" "buf_write_u8 off b ram = Some ram' \<Longrightarrow> length ram' = length ram"
  by (auto simp: write_slice_def buf_write_u8_def split: if_splits)

lemmas write_defs = memory_write_u8_def memory_write_u16_def memory_write_u32_def memory_write_u64_def virtio_write_u8_def virtio_write_u16_def
  virtio_write_u64_def uart_write_u16_def uart_write_u32_def uart_write_u64_def plic_write_u64_def

lemma dev_writes_same:
  "(dev_write_u8 off b8 s = Done s' \<longrightarrow> same_state s s') \<and> (dev_write_u16 off b16 s = Done s' \<longrightarrow> same_state s s')
   \<and> (dev_write_u32 off b32 s = Done s' \<longrightarrow> same_state s s') \<and> (dev_write_u64 off b64 s = Done s' \<longrightarrow> same_state s s')"
proof -
  obtain d ram ex where s: "s = (d, ram, ex)" by (cases s)
  have m: "memory_written m ex (write_slice o' data ram) = Done s' \<Longrightarrow> same_state (D_Memory m, ram, ex) s'"
    "memory_written m ex (buf_write_u8 o' b ram) = Done s' \<Longrightarrow> same_state (D_Memory m, ram, ex) s'" for m o' data b
    using memory_written_same slice_writes_length by metis+
  have same: "same_dev d' d'' \<Longrightarrow> same_state (d', ram, ex) (d'', ram, ex')" for d' d'' ex' by (simp add: same_state_def)
  show ?thesis unfolding s
    by (cases d) (auto simp: write_defs plic_write_u8_def plic_write_u16_def Let_def split_beta access_same intro!: same same_devI dest: m disk_written_same)
qed

lemma clint_tick_base: "cl_base_addr (fst (clint_tick c)) = cl_base_addr c"
  by (simp add: clint_tick_def Let_def)

lemma device_tick_same: "same_dev d (fst (device_tick r d))"
  by (cases d) (auto simp: map_prod_def split_beta plic_tick_def plic_check_interrupts_same plic_check_interrupts_ok clint_tick_ok access_same
      clint_tick_base Let_def intro!: same_devI)


lemma position_cong_map: "map f xs = map f ys \<Longrightarrow> (\<And>x y. f x = f y \<Longrightarrow> P x = P y) \<Longrightarrow> position P xs = position P ys"
proof (induction xs arbitrary: ys)
  case (Cons x xs)
  obtain y ys' where y: "ys = y # ys'" "f x = f y" "map f xs = map f ys'" using Cons.prems(1) by (cases ys) auto
  show ?case using Cons.prems(2) [OF y(2)] Cons.IH [OF y(3) Cons.prems(2)] by (simp add: y(1))
qed simp

text \<open>No range passes the end of the address space, the ranges of two devices never overlap unless one is the host-target
  interface, which there is at most one of, and the index fields name the right devices.\<close>

definition is_htif :: "device \<Rightarrow> bool" where
  "is_htif d \<longleftrightarrow> device_name d = ''HTIF''"

definition range_ok :: "u64 \<times> u64 \<Rightarrow> bool" where
  "range_ok r \<longleftrightarrow> unat (fst r) + unat (snd r) < 2 ^ 64"

definition range_apart :: "u64 \<times> u64 \<Rightarrow> u64 \<times> u64 \<Rightarrow> bool" where
  "range_apart r q \<longleftrightarrow> fst r + snd r \<le> fst q \<or> fst q + snd q \<le> fst r"

definition ranges_ok :: "nat \<Rightarrow> device list \<Rightarrow> bool" where
  "ranges_ok n ds \<longleftrightarrow> list_all (\<lambda>d. range_ok (address_range n d)) ds
     \<and> (\<forall>i < length ds. \<forall>j < length ds. i \<noteq> j \<longrightarrow>
          \<not> (is_htif (ds ! i) \<and> is_htif (ds ! j))
          \<and> (\<not> is_htif (ds ! i) \<longrightarrow> \<not> is_htif (ds ! j) \<longrightarrow> range_apart (address_range n (ds ! i)) (address_range n (ds ! j))))"

definition ic_ok :: "interconnect \<Rightarrow> bool" where
  "ic_ok b \<longleftrightarrow> ranges_ok (length (ic_ram b)) (ic_devices b) \<and> list_all dev_ok (ic_devices b)
     \<and> ic_ram_idx b = position (\<lambda>d. device_name d = ''DRAM'') (ic_devices b)
     \<and> ic_uart_idx b = position (\<lambda>d. device_name d = ''UART0'') (ic_devices b)
     \<and> ic_htif_idx b = position (\<lambda>d. device_name d = ''HTIF'') (ic_devices b)
     \<and> ic_clint_idx b = position (\<lambda>d. device_name d = ''CLINT'') (ic_devices b)"

lemma ranges_ok_cong:
  assumes "map dev_id ds' = map dev_id ds"
  shows "ranges_ok n ds' = ranges_ok n ds"
proof -
  have len: "length ds' = length ds" using map_eq_imp_length_eq [OF assms] .
  have "dev_id (ds' ! i) = dev_id (ds ! i)" if "i < length ds" for i
    using assms that len by (metis nth_map)
  then have "device_name (ds' ! i) = device_name (ds ! i)" "address_range n (ds' ! i) = address_range n (ds ! i)" if "i < length ds" for i
    using that by (auto simp: dev_id_def dest: fun_cong [of _ _ n])
  then show ?thesis using len by (auto simp: ranges_ok_def is_htif_def list_all_length)
qed

lemma same_devs_ic_ok:
  assumes "ic_ok b" "list_all2 same_dev (ic_devices b) ds" "length ram = length (ic_ram b)"
  shows "ic_ok (b\<lparr> ic_last_device_idx := k, ic_devices := ds, ic_ram := ram, ic_exit_request := ex \<rparr>)"
proof -
  have id: "map dev_id ds = map dev_id (ic_devices b)" using assms(2) by (induction rule: list_all2_induct) (auto simp: same_dev_def)
  have ok: "list_all dev_ok (ic_devices b) \<Longrightarrow> list_all dev_ok ds" using assms(2) by (induction rule: list_all2_induct) (auto simp: same_dev_def)
  have pos: "position (\<lambda>d. device_name d = n) ds = position (\<lambda>d. device_name d = n) (ic_devices b)" for n
    by (rule position_cong_map [OF id]) (auto simp: dev_id_def)
  show ?thesis using assms(1,3) ranges_ok_cong [OF id] ok by (simp add: ic_ok_def pos)
qed

lemma same_dev_update:
  assumes "i < length ds \<Longrightarrow> same_dev (ds ! i) d"
  shows "list_all2 same_dev ds (ds[i := d])"
  using assms by (cases "i < length ds") (auto simp: list_all2_conv_all_nth nth_list_update list_update_beyond)

lemma ic_read_ok:
  assumes "ic_ok b" "ic_read rd raw b = Done (v, b')" "\<And>ram off d v d'. rd ram off d = Done (v, d') \<Longrightarrow> same_dev d d'"
  shows "ic_ok b'"
proof (cases "find_device raw b")
  case (Some x)
  then obtain i where x: "x = (i, raw - dev_base (length (ic_ram b)) (ic_devices b ! i), b\<lparr> ic_last_device_idx := i \<rparr>)" by (auto simp: find_device_def)
  with Some assms(2) obtain d where d: "rd (ic_ram b) (raw - dev_base (length (ic_ram b)) (ic_devices b ! i)) (ic_devices b ! i) = Done (v, d)"
    "b' = b\<lparr> ic_last_device_idx := i, ic_devices := (ic_devices b)[i := d] \<rparr>"
    by (cases "rd (ic_ram b) (raw - dev_base (length (ic_ram b)) (ic_devices b ! i)) (ic_devices b ! i)") (auto simp: ic_read_def)
  have "ic_ok (b\<lparr> ic_last_device_idx := i, ic_devices := (ic_devices b)[i := d], ic_ram := ic_ram b, ic_exit_request := ic_exit_request b \<rparr>)"
    using assms(1) d(1) assms(3) by (intro same_devs_ic_ok same_dev_update) auto
  with d(2) show ?thesis by simp
qed (use assms in \<open>simp add: ic_read_def\<close>)

lemma ic_write_ok:
  assumes "ic_ok b" "ic_write wr raw b = Done b'" "\<And>off s s'. wr off s = Done s' \<Longrightarrow> same_state s s'"
  shows "ic_ok b'"
proof (cases "find_device raw b")
  case (Some x)
  then obtain i where x: "x = (i, raw - dev_base (length (ic_ram b)) (ic_devices b ! i), b\<lparr> ic_last_device_idx := i \<rparr>)" by (auto simp: find_device_def)
  let ?s = "(ic_devices b ! i, ic_ram b, ic_exit_request b)"
  from Some x assms(2) obtain d ram ex where d: "wr (raw - dev_base (length (ic_ram b)) (ic_devices b ! i)) ?s = Done (d, ram, ex)"
    "b' = dev_update i (d, ram, ex) (b\<lparr> ic_last_device_idx := i \<rparr>)"
    by (cases "wr (raw - dev_base (length (ic_ram b)) (ic_devices b ! i)) ?s") (auto simp: ic_write_def)
  have "same_state ?s (d, ram, ex)" using assms(3) d(1) by blast
  then have "ic_ok (b\<lparr> ic_last_device_idx := i, ic_devices := (ic_devices b)[i := d], ic_ram := ram, ic_exit_request := ex \<rparr>)"
    using assms(1) by (intro same_devs_ic_ok same_dev_update) (auto simp: same_state_def)
  with d(2) show ?thesis by (simp add: dev_update_def)
qed (use assms in \<open>simp add: ic_write_def\<close>)


text \<open>Ticks replace every device by its successor and the interrupt controller once more.\<close>

lemma find_plic_iff: "find_plic ds = Some (i, p) \<longleftrightarrow> i < length ds \<and> ds ! i = D_Plic p \<and> (\<forall>j < i. as_plic (ds ! j) = None)"
  by (auto simp: find_plic_def position_Some_iff as_plic_def split: option.splits device.splits) (force simp: as_plic_def position_None_iff set_conv_nth split: device.splits)+

lemma ic_tick_ok:
  assumes "ic_ok b"
  shows "ic_ok (fst (ic_tick received b))"
proof -
  let ?ds = "map (fst \<circ> device_tick received) (ic_devices b)"
  have b1: "list_all2 same_dev (ic_devices b) ?ds" by (simp add: list_all2_conv_all_nth device_tick_same)
  have upd: "ic_ok (b\<lparr> ic_devices := ds \<rparr>)" if "list_all2 same_dev (ic_devices b) ds" for ds
    using same_devs_ic_ok [OF assms that refl, where k = "ic_last_device_idx b" and ex = "ic_exit_request b"] by simp
  show ?thesis
  proof (cases "find_plic ?ds")
    case None
    then show ?thesis using upd [OF b1] by (simp add: ic_tick_def Let_def)
  next
    case (Some x)
    then obtain i p where p: "find_plic ?ds = Some (i, p)" "i < length ?ds" "?ds ! i = D_Plic p" by (cases x) (auto simp: find_plic_iff)
    let ?p = "fst (plic_check_interrupts (update_irqs (line_mask received (ic_devices b)) p))"
    have "same_dev (D_Plic p) (D_Plic ?p)"
      by (rule same_devI) (simp_all add: plic_check_interrupts_same plic_check_interrupts_ok update_irqs_ok update_irqs_low, simp add: update_irqs_def)
    moreover have "same_dev (ic_devices b ! i) (D_Plic p)" using p b1 by (auto simp: list_all2_conv_all_nth)
    ultimately have "same_dev (ic_devices b ! i) (D_Plic ?p)" by (auto simp: same_dev_def)
    then have "list_all2 same_dev (ic_devices b) (?ds[i := D_Plic ?p])" using b1 p(2)
      by (auto simp: list_all2_conv_all_nth nth_list_update)
    then show ?thesis using upd p(1) by (simp add: ic_tick_def Let_def split_beta)
  qed
qed

text \<open>The loops of loading a binary.\<close>

lemma load_bytes_ok: "ic_ok b \<Longrightarrow> load_bytes addr bs b = Done b' \<Longrightarrow> ic_ok b'"
proof (induction bs arbitrary: addr b)
  case (Cons x xs)
  then obtain b1 where "ic_write_u8 addr x b = Done b1" "load_bytes (addr + 1) xs b1 = Done b'" by (cases "ic_write_u8 addr x b") auto
  with Cons show ?case using ic_write_ok [OF Cons.prems(1), of "\<lambda>offset. dev_write_u8 offset x" addr b1] dev_writes_same by (auto simp: ic_write_u8_def)
qed simp

lemma same_state_trans: "same_state a b \<Longrightarrow> same_state b c \<Longrightarrow> same_state a c"
  by (auto simp: same_state_def same_dev_def)

lemma write_bytes_loop_same: "write_bytes_loop off bs s = Done s' \<Longrightarrow> same_state s s'"
proof (induction bs arbitrary: off s)
  case (Cons x xs)
  then obtain s1 where "dev_write_u8 off x s = Done s1" "write_bytes_loop (off + 1) xs s1 = Done s'" by (cases "dev_write_u8 off x s") auto
  with Cons.IH dev_writes_same same_state_trans show ?case by metis
qed (simp add: same_state_def)

lemma dev_write_bytes_same: "dev_write_bytes off bs s = Done s' \<Longrightarrow> same_state s s'"
proof (induction off bs s rule: dev_write_bytes.induct)
  case (1 off bs m ram ex)
  then show ?case by (auto simp: memory_write_bytes_def memory_load_def intro!: memory_written_same dest: slice_writes_length split: if_splits)
qed (auto dest: write_bytes_loop_same)

end
