(* ===== verification/Hierarchy.thy ===== *)
theory Hierarchy
  imports Cache Cpu Bus
begin

text \<open>
  The memory path of the processor (\<open>core/cpu/memory.rs\<close>): address translation with the effective privilege and the final PMP check, and the walk of an
  access through the cache hierarchy down to the memory controller. The caches, the prefetch filter and the controller are those of the
  component theories; the result is optional because the refresh loop of the controller need not end. Statistics are left out.

  The configuration promises two relations between the levels. Inclusion (the second level holds every line of the first) is an invariant of the
  walk as long as the first level has no prefetcher, and is broken by one; exclusion (no line in both levels) is broken by every miss.
\<close>

subsection \<open>Translation\<close>

definition access_fault :: "access_type \<Rightarrow> u64 \<Rightarrow> trap" where
  "access_fault access va = (case access of
     Acc_Fetch \<Rightarrow> InstructionAccessFault va | Acc_Read \<Rightarrow> LoadAccessFault va | Acc_Write \<Rightarrow> StoreAccessFault va)"

definition effective_priv :: "access_type \<Rightarrow> cpu \<Rightarrow> privilege_mode" where
  "effective_priv access s =
    (if access \<noteq> Acc_Fetch \<and> csr_mstatus (cpu_csrs s) AND MSTATUS_MPRV \<noteq> 0
     then privilege_from_u8 (ucast (drop_bit MSTATUS_MPP_SHIFT (csr_mstatus (cpu_csrs s)) AND MSTATUS_MPP_MASK))
     else cpu_privilege s)"

text \<open>The page walk reads the flat view of memory in the processor state; \<open>valid\<close> is \<open>is_valid_address\<close> of the bus.\<close>

definition cpu_translate :: "(u64 \<Rightarrow> bool) \<Rightarrow> u64 \<Rightarrow> access_type \<Rightarrow> u64 \<Rightarrow> cpu \<Rightarrow> translation_result \<times> cpu" where
  "cpu_translate valid va access sz s =
    (if cpu_direct_mode s then
       (if valid va then tr_success va 0 else tr_fault (access_fault access va) 0, s)
     else let priv = effective_priv access s;
              (m, r) = translate (cpu_mmu s) va access priv (cpu_csrs s) (cpu_bus s) (Some (cpu_pmp s));
              s1 = s\<lparr> cpu_mmu := m \<rparr>
       in if tr_trap r = None
             \<and> pmp_check (cpu_pmp s) (tr_paddr r) sz (access = Acc_Read) (access = Acc_Write) (access = Acc_Fetch) (priv = Machine) \<noteq> Pmp_Allow
          then (tr_fault (access_fault access va) (tr_cycles r), s1) else (r, s1))"

subsection \<open>The levels\<close>

datatype inclusion_policy = Nine | Inclusive | Exclusive

record hierarchy =
  hy_l1i :: cache
  hy_l1d :: cache
  hy_l2 :: cache
  hy_l3 :: cache
  hy_prefetch_filter :: prefetch_filter
  hy_controller :: memory_controller
  hy_inclusion_policy :: inclusion_policy
  hy_bus_latency :: u64
  hy_bus_width :: u64

definition transit_time :: "nat \<Rightarrow> hierarchy \<Rightarrow> u64" where
  "transit_time bytes h = hy_bus_latency h + of_nat (div_ceil bytes (unat (hy_bus_width h)))"

text \<open>One level serves an access: the demand access, then the prefetches that pass the filter; all evictions in order.\<close>

definition level_access :: "u64 \<Rightarrow> bool \<Rightarrow> cache \<Rightarrow> prefetch_filter \<Rightarrow> bool \<times> evicted_line list \<times> cache \<times> prefetch_filter" where
  "level_access addr is_write c f =
    (let ((hit, _, evs, ts), c1) = access_tracked_split addr is_write 0 c; (filtered, f1) = filter_and_record ts f;
         (pf_evs, c2) = install_prefetches filtered 0 c1
     in (hit, evs @ pf_evs, c2, f1))"

definition back_invalidate :: "evicted_line list \<Rightarrow> cache \<Rightarrow> cache" where
  "back_invalidate evs c = fold (\<lambda>e c. snd (invalidate_line (ev_addr e) c)) evs c"

definition dram_access :: "u64 \<Rightarrow> u64 \<Rightarrow> u64 \<Rightarrow> hierarchy \<Rightarrow> (u64 \<times> hierarchy) option" where
  "dram_access raw_addr cycles pen h =
    map_option (\<lambda>(ctl, lat). (pen + transit_time 8 h + lat + transit_time 64 h, h\<lparr> hy_controller := ctl \<rparr>))
      (controller_latency raw_addr cycles (hy_controller h))"

definition l2_access :: "u64 \<Rightarrow> bool \<Rightarrow> hierarchy \<Rightarrow> bool \<times> hierarchy" where
  "l2_access addr is_write h =
    (let (hit, evs, c, f) = level_access addr is_write (hy_l2 h) (hy_prefetch_filter h); h1 = h\<lparr> hy_l2 := c, hy_prefetch_filter := f \<rparr>
     in (hit, if hy_inclusion_policy h = Inclusive
              then h1\<lparr> hy_l1d := back_invalidate evs (hy_l1d h), hy_l1i := back_invalidate evs (hy_l1i h) \<rparr> else h1))"

definition l3_access :: "u64 \<Rightarrow> bool \<Rightarrow> hierarchy \<Rightarrow> bool \<times> hierarchy" where
  "l3_access addr is_write h =
    (let (hit, evs, c, f) = level_access addr is_write (hy_l3 h) (hy_prefetch_filter h); h1 = h\<lparr> hy_l3 := c, hy_prefetch_filter := f \<rparr>
     in (hit, if hy_inclusion_policy h = Inclusive
              then h1\<lparr> hy_l2 := back_invalidate evs (hy_l2 h), hy_l1d := back_invalidate evs (hy_l1d h), hy_l1i := back_invalidate evs (hy_l1i h) \<rparr>
              else h1))"

definition below_l2 :: "u64 \<Rightarrow> bool \<Rightarrow> u64 \<Rightarrow> u64 \<Rightarrow> hierarchy \<Rightarrow> (u64 \<times> hierarchy) option" where
  "below_l2 addr is_write cycles pen h =
    (if ca_enabled (hy_l3 h) then
       let pen1 = pen + ca_latency (hy_l3 h); (hit, h1) = l3_access addr is_write h
       in if hit then Some (pen1, h1) else dram_access addr cycles pen1 h1
     else dram_access addr cycles pen h)"

definition simulate_l1d_miss_latency :: "u64 \<Rightarrow> bool \<Rightarrow> u64 \<Rightarrow> hierarchy \<Rightarrow> (u64 \<times> hierarchy) option" where
  "simulate_l1d_miss_latency addr is_write cycles h =
    (if ca_enabled (hy_l2 h) then
       let pen = ca_latency (hy_l2 h); (hit, h1) = l2_access addr is_write h
       in if hit then Some (pen, h1) else below_l2 addr is_write cycles pen h1
     else below_l2 addr is_write cycles 0 h)"

definition l1_access :: "u64 \<Rightarrow> access_type \<Rightarrow> hierarchy \<Rightarrow> bool \<times> hierarchy" where
  "l1_access addr access h =
    (let is_inst = (access = Acc_Fetch); l1 = (if is_inst then hy_l1i h else hy_l1d h);
         (hit, evs, c, f) = level_access addr (access = Acc_Write) l1 (hy_prefetch_filter h);
         h1 = (if is_inst then h\<lparr> hy_l1i := c, hy_prefetch_filter := f \<rparr> else h\<lparr> hy_l1d := c, hy_prefetch_filter := f \<rparr>)
     in (hit, if hy_inclusion_policy h = Exclusive \<and> ca_enabled (hy_l2 h)
              then h1\<lparr> hy_l2 := fold (\<lambda>e c. snd (install_or_replace (ev_addr e) (ev_dirty e) 0 c)) evs (hy_l2 h) \<rparr> else h1))"

definition simulate_memory_access :: "u64 \<Rightarrow> access_type \<Rightarrow> u64 \<Rightarrow> hierarchy \<Rightarrow> (u64 \<times> hierarchy) option" where
  "simulate_memory_access addr access cycles h =
    (let l1_enabled = ca_enabled (if access = Acc_Fetch then hy_l1i h else hy_l1d h); is_write = (access = Acc_Write) in
     if \<not> l1_enabled \<and> \<not> ca_enabled (hy_l2 h) \<and> \<not> ca_enabled (hy_l3 h) then dram_access addr cycles 0 h
     else let (l1_hit, h1) = l1_access addr access h in
       if l1_enabled \<and> l1_hit then Some (0, h1)
       else if ca_enabled (hy_l2 h1) then
         let pen = ca_latency (hy_l2 h1); (hit, h2) = l2_access addr is_write h1;
             h3 = (if hy_inclusion_policy h2 = Exclusive \<and> hit then h2\<lparr> hy_l2 := snd (invalidate_line addr (hy_l2 h2)) \<rparr> else h2)
         in if hit then Some (pen, h3) else below_l2 addr is_write cycles pen h3
       else below_l2 addr is_write cycles 0 h1)"

subsection \<open>Inclusion\<close>

definition included :: "cache \<Rightarrow> cache \<Rightarrow> bool" where
  "included u c \<longleftrightarrow> (\<forall>a. cache_contains a u \<longrightarrow> cache_contains a c)"

text \<open>Between the accesses to two levels the line being accessed may be missing below.\<close>

definition included_but :: "u64 \<Rightarrow> cache \<Rightarrow> cache \<Rightarrow> bool" where
  "included_but addr u c \<longleftrightarrow> (\<forall>a. cache_contains a u \<longrightarrow> cache_contains a c \<or> same_line c addr a)"

lemma cache_contains_iff: "cache_contains a c \<longleftrightarrow> ca_enabled c \<and> cached c a \<noteq> None"
  by (simp add: cache_contains_def cached_None_iff)

text \<open>Lines enter a level only through a demand access when it has no prefetcher.\<close>

lemma observe_opt_None: "ca_prefetcher c = None \<Longrightarrow> observe_opt a h c = ([], c)"
  by (simp add: observe_opt_def)

lemma access_no_prefetcher:
  assumes "ca_prefetcher c = None" "access_tracked_split addr w lat c = ((hit, pen, evs, ts), c')"
  shows "ts = [] \<and> ca_prefetcher c' = None"
  using assms by (auto simp: access_tracked_split_def Let_def observe_opt_def install_line_tracked_def touch_way_def split: if_splits option.splits prod.splits)

lemma filter_and_record_Nil: "fst (filter_and_record [] f) = []"
  by (simp add: filter_and_record_def)

lemma level_access_spec:
  assumes "cache_ok c" "ca_enabled c" "level_access addr w c f = (hit, evs, c', f')"
  shows "tracked c evs c' \<and> (hit \<longleftrightarrow> cached c addr \<noteq> None) \<and> (cached c' addr \<noteq> None \<or> (\<exists>e \<in> set evs. same_line c (ev_addr e) addr))
    \<and> (ca_prefetcher c = None \<longrightarrow> ca_prefetcher c' = None \<and> (\<forall>a. cached c' a \<noteq> None \<longrightarrow> same_line c addr a \<or> cached c a \<noteq> None))"
proof -
  obtain pen evs1 ts c1 where a: "access_tracked_split addr w 0 c = ((hit, pen, evs1, ts), c1)"
    using assms(3) by (auto simp: level_access_def Let_def split: prod.splits)
  obtain fs f1 where fs: "filter_and_record ts f = (fs, f1)" by force
  obtain evs2 where i: "install_prefetches fs 0 c1 = (evs2, c')" "evs = evs1 @ evs2"
    using assms(3) a fs by (auto simp: level_access_def Let_def split: prod.splits)
  note dem = demand_tracked [OF assms(1,2) a]
  then have t2: "tracked c1 evs2 c'" using assms(2) i(1) by (intro install_prefetches_tracked) (auto dest: tracked_keeps)
  have "cached c1 addr \<noteq> None" using dem by simp
  then have "cached c' addr \<noteq> None \<or> (\<exists>e \<in> set evs2. same_line c (ev_addr e) addr)"
    using tracked_present [OF t2] same_shapeD(1) [OF tracked_keeps(2), of c evs1 c1] dem by auto
  moreover have "ca_prefetcher c' = None \<and> (\<forall>a. cached c' a \<noteq> None \<longrightarrow> same_line c addr a \<or> cached c a \<noteq> None)" if "ca_prefetcher c = None"
  proof -
    have "c' = c1" "ca_prefetcher c1 = None" using access_no_prefetcher [OF that a] filter_and_record_Nil [of f] i(1) fs by auto
    then show ?thesis using demand_access [OF assms(1,2) a] by (auto split: if_splits)
  qed
  ultimately show ?thesis using tracked_trans [of c evs1 c1 evs2 c'] dem t2 i(2) demand_access [OF assms(1,2) a] by auto
qed

lemma observe_opt_has_prefetcher: "observe_opt a h c = (ts, c') \<Longrightarrow> ca_prefetcher c' = None \<Longrightarrow> ca_prefetcher c = None"
  by (auto simp: observe_opt_def split: option.splits prod.splits)

lemma install_prefetches_prefetcher: "ca_prefetcher (snd (install_prefetches ts lat c)) = ca_prefetcher c"
proof -
  have "ca_prefetcher (snd (install_line_tracked t w lat c)) = ca_prefetcher c" for t w c
    by (simp add: install_line_tracked_def Let_def split_beta)
  then show ?thesis by (induction ts arbitrary: c) (auto simp: split_beta Let_def)
qed

lemma level_prefetcher:
  assumes "level_access addr w c f = (hit, evs, c', f')" "ca_prefetcher c' = None"
  shows "ca_prefetcher c = None"
proof -
  obtain pen evs1 ts c1 fs evs2 where a: "access_tracked_split addr w 0 c = ((hit, pen, evs1, ts), c1)" "install_prefetches fs 0 c1 = (evs2, c')"
    using assms(1) by (auto simp: level_access_def Let_def split: prod.splits)
  then have "ca_prefetcher c1 = None" using assms(2) install_prefetches_prefetcher [of fs 0 c1] by simp
  with a(1) show ?thesis
    by (auto simp: access_tracked_split_def Let_def install_line_tracked_def touch_way_def split: if_splits option.splits prod.splits dest!: observe_opt_has_prefetcher)
qed

lemma back_invalidate_spec:
  assumes "cache_ok c"
  shows "cache_ok (back_invalidate evs c) \<and> same_shape c (back_invalidate evs c) \<and> ca_prefetcher (back_invalidate evs c) = ca_prefetcher c
    \<and> (\<forall>a. cached (back_invalidate evs c) a = (if ca_enabled c \<and> (\<exists>e \<in> set evs. same_line c (ev_addr e) a) then None else cached c a))"
  using assms
proof (induction evs arbitrary: c)
  case (Cons e evs)
  let ?c1 = "snd (invalidate_line (ev_addr e) c)"
  have one: "cache_ok ?c1 \<and> same_shape c ?c1 \<and> ca_prefetcher ?c1 = ca_prefetcher c
    \<and> (\<forall>a. cached ?c1 a = (if ca_enabled c \<and> same_line c (ev_addr e) a then None else cached c a))"
  proof (cases "ca_enabled c")
    case True
    then show ?thesis using invalidate_line_spec [OF Cons.prems True, of "ev_addr e" "fst (invalidate_line (ev_addr e) c)" ?c1]
      by (auto simp: invalidate_line_def Let_def split: option.splits)
  next
    case False
    then show ?thesis using Cons.prems by (simp add: invalidate_line_def)
  qed
  then have "same_line ?c1 = same_line c" "ca_enabled ?c1 = ca_enabled c" using same_shapeD(1,2) [of c ?c1] by auto
  then show ?case using Cons.IH [of ?c1] one same_shape_trans [of c ?c1 "back_invalidate evs ?c1"] by (auto simp: back_invalidate_def)
qed (simp add: back_invalidate_def)

lemma cached_line_cong: "cache_ok c \<Longrightarrow> same_line c a b \<Longrightarrow> cache_contains a c = cache_contains b c"
  using cached_same_line [of c a b] by (simp add: cache_contains_iff cache_ok_def)

lemma lower_level_included:
  assumes "cache_ok u" "ca_enabled c" "tracked c evs c'" "cached c' addr \<noteq> None \<or> (\<exists>e \<in> set evs. same_line c (ev_addr e) addr)"
    and "same_line u = same_line c" "included_but addr u c"
  shows "included (back_invalidate evs u) c'"
  unfolding included_def
proof (intro allI impI)
  fix a
  assume a: "cache_contains a (back_invalidate evs u)"
  have u: "ca_enabled u" "cached u a \<noteq> None" "\<not> (\<exists>e \<in> set evs. same_line c (ev_addr e) a)"
    using a back_invalidate_spec [OF assms(1), of evs] same_shapeD(2) [of u "back_invalidate evs u"]
    by (auto simp: cache_contains_iff assms(5) split: if_splits)
  have en: "ca_enabled c'" "cache_ok c'" "same_line c' = same_line c"
    using assms(2) tracked_keeps [OF assms(3)] same_shapeD(1) [OF tracked_keeps(2) [OF assms(3)]] by auto
  from assms(6) u(1,2) have "cache_contains a c \<or> same_line c addr a" by (auto simp: included_but_def cache_contains_iff)
  then show "cache_contains a c'"
  proof
    assume "cache_contains a c"
    then show ?thesis using tracked_present [OF assms(3), of a] u(3) en by (auto simp: cache_contains_iff)
  next
    assume l: "same_line c addr a"
    then have "\<not> (\<exists>e \<in> set evs. same_line c (ev_addr e) addr)" using u(3) by (auto simp: same_line_def)
    then have "cache_contains addr c'" using assms(4) en by (auto simp: cache_contains_iff)
    then show ?thesis using cached_line_cong [OF en(2), of addr a] l en(3) by simp
  qed
qed

lemma back_invalidate_included:
  assumes "cache_ok u" "cache_ok v" "included u v" "same_line u = same_line v"
  shows "included (back_invalidate evs u) (back_invalidate evs v)"
  using assms back_invalidate_spec [OF assms(1), of evs] back_invalidate_spec [OF assms(2), of evs]
    same_shapeD(2) [of u "back_invalidate evs u"] same_shapeD(2) [of v "back_invalidate evs v"]
  by (auto simp: included_def cache_contains_iff split: if_splits)

lemma included_but_mono: "included u c \<Longrightarrow> included_but addr u c"
  by (auto simp: included_def included_but_def)

definition hierarchy_ok :: "hierarchy \<Rightarrow> bool" where
  "hierarchy_ok h \<longleftrightarrow> hy_inclusion_policy h = Inclusive \<and> ca_enabled (hy_l2 h)
     \<and> cache_ok (hy_l1i h) \<and> cache_ok (hy_l1d h) \<and> cache_ok (hy_l2 h) \<and> cache_ok (hy_l3 h)
     \<and> same_line (hy_l1i h) = same_line (hy_l2 h) \<and> same_line (hy_l1d h) = same_line (hy_l2 h) \<and> same_line (hy_l3 h) = same_line (hy_l2 h)
     \<and> ca_prefetcher (hy_l1i h) = None \<and> ca_prefetcher (hy_l1d h) = None"

definition inclusive :: "hierarchy \<Rightarrow> bool" where
  "inclusive h \<longleftrightarrow> included (hy_l1i h) (hy_l2 h) \<and> included (hy_l1d h) (hy_l2 h)
     \<and> (ca_enabled (hy_l3 h) \<and> ca_prefetcher (hy_l2 h) = None \<longrightarrow> included (hy_l2 h) (hy_l3 h))"

text \<open>The relations of a hierarchy while the access to \<open>addr\<close> is between the levels.\<close>

definition inclusive_l1 :: "u64 \<Rightarrow> hierarchy \<Rightarrow> bool" where
  "inclusive_l1 addr h \<longleftrightarrow> included_but addr (hy_l1i h) (hy_l2 h) \<and> included_but addr (hy_l1d h) (hy_l2 h)
     \<and> (ca_enabled (hy_l3 h) \<and> ca_prefetcher (hy_l2 h) = None \<longrightarrow> included (hy_l2 h) (hy_l3 h))"

definition inclusive_l2 :: "u64 \<Rightarrow> hierarchy \<Rightarrow> bool" where
  "inclusive_l2 addr h \<longleftrightarrow> included (hy_l1i h) (hy_l2 h) \<and> included (hy_l1d h) (hy_l2 h)
     \<and> (ca_enabled (hy_l3 h) \<and> ca_prefetcher (hy_l2 h) = None \<longrightarrow> included_but addr (hy_l2 h) (hy_l3 h))"

lemma level_keeps:
  assumes "cache_ok c" "level_access addr w c f = (hit, evs, c', f')"
  shows "cache_ok c' \<and> same_shape c c' \<and> (ca_prefetcher c = None \<longrightarrow> ca_prefetcher c' = None
      \<and> (\<forall>a. cache_contains a c' \<longrightarrow> cache_contains a c \<or> same_line c addr a))
    \<and> (ca_enabled c \<longrightarrow> (hit \<longleftrightarrow> cache_contains addr c))"
proof (cases "ca_enabled c")
  case True
  note l = level_access_spec [OF assms(1) True assms(2)]
  have en: "ca_enabled c'" using True tracked_keeps(3) [of c evs c'] l by simp
  show ?thesis using l en True tracked_keeps [of c evs c'] by (auto simp: cache_contains_iff)
next
  case False
  have "c' = c" using assms(2) False
    by (auto simp: level_access_def access_tracked_split_def filter_and_record_def split: prod.splits if_splits)
  then show ?thesis using assms(1) False by simp
qed

lemma l1_access_inclusive:
  assumes "hierarchy_ok h" "inclusive h" "l1_access addr access h = (hit, h')"
  shows "hierarchy_ok h' \<and> inclusive_l1 addr h' \<and> (ca_enabled (if access = Acc_Fetch then hy_l1i h else hy_l1d h) \<and> hit \<longrightarrow> inclusive h')"
proof -
  define u where "u = (if access = Acc_Fetch then hy_l1i h else hy_l1d h)"
  obtain hit' evs c f where l: "level_access addr (access = Acc_Write) u (hy_prefetch_filter h) = (hit', evs, c, f)" by (metis prod.collapse)
  have h': "hit = hit'" "h' = (if access = Acc_Fetch then h\<lparr> hy_l1i := c, hy_prefetch_filter := f \<rparr> else h\<lparr> hy_l1d := c, hy_prefetch_filter := f \<rparr>)"
    using assms(1,3) l by (auto simp: l1_access_def Let_def u_def hierarchy_ok_def split: if_splits)
  have u: "cache_ok u" "same_line u = same_line (hy_l2 h)" "ca_prefetcher u = None" "included u (hy_l2 h)"
    using assms(1,2) by (auto simp: u_def hierarchy_ok_def inclusive_def)
  note k = level_keeps [OF u(1) l]
  have sl: "same_line c = same_line u" using same_shapeD(1) k by blast
  have but: "included_but addr c (hy_l2 h)" using k u by (auto simp: included_but_def included_def)
  have full: "included c (hy_l2 h)" if "ca_enabled u" hit
  proof -
    have "cache_contains addr (hy_l2 h)" using that k u(4) h'(1) by (auto simp: included_def)
    then have "cache_contains a (hy_l2 h)" if "same_line (hy_l2 h) addr a" for a
      using cached_line_cong [of "hy_l2 h" addr a] that assms(1) by (simp add: hierarchy_ok_def)
    then show ?thesis using but by (auto simp: included_but_def included_def)
  qed
  show ?thesis using assms(1,2) k but full sl u(2,3) included_but_mono
    by (auto simp: h' hierarchy_ok_def inclusive_def inclusive_l1_def u_def)
qed

lemma l2_access_inclusive:
  assumes "hierarchy_ok h" "inclusive_l1 addr h" "l2_access addr w h = (hit, h')"
  shows "hierarchy_ok h' \<and> inclusive_l2 addr h' \<and> (hit \<longrightarrow> inclusive h')"
proof -
  let ?c = "hy_l2 h"
  obtain evs c f where l: "level_access addr w ?c (hy_prefetch_filter h) = (hit, evs, c, f)" and
    h': "h' = h\<lparr> hy_l2 := c, hy_prefetch_filter := f, hy_l1d := back_invalidate evs (hy_l1d h), hy_l1i := back_invalidate evs (hy_l1i h) \<rparr>"
    using assms(1,3) by (auto simp: l2_access_def Let_def hierarchy_ok_def split: prod.splits)
  have h: "cache_ok ?c" "ca_enabled ?c" "cache_ok (hy_l1d h)" "cache_ok (hy_l1i h)" "cache_ok (hy_l3 h)"
    "same_line (hy_l1i h) = same_line ?c" "same_line (hy_l1d h) = same_line ?c" "same_line (hy_l3 h) = same_line ?c"
    using assms(1) by (auto simp: hierarchy_ok_def)
  note s = level_access_spec [OF h(1,2) l] and k = level_keeps [OF h(1) l]
  note bi = back_invalidate_spec [OF h(3), of evs] back_invalidate_spec [OF h(4), of evs]
  have sl: "same_line c = same_line ?c" "same_line (back_invalidate evs (hy_l1d h)) = same_line ?c" "same_line (back_invalidate evs (hy_l1i h)) = same_line ?c"
    using same_shapeD(1) [of ?c c] same_shapeD(1) [of "hy_l1d h" "back_invalidate evs (hy_l1d h)"] same_shapeD(1) [of "hy_l1i h" "back_invalidate evs (hy_l1i h)"] k bi h
    by auto
  have "included (back_invalidate evs (hy_l1d h)) c" "included (back_invalidate evs (hy_l1i h)) c"
    using assms(2) s h by (auto intro!: lower_level_included simp: inclusive_l1_def)
  moreover have but: "included_but addr c (hy_l3 h)" if "ca_enabled (hy_l3 h)" "ca_prefetcher ?c = None"
    using assms(2) that k h(8) by (auto simp: inclusive_l1_def included_def included_but_def)
  moreover have "included c (hy_l3 h)" if "ca_enabled (hy_l3 h)" "ca_prefetcher ?c = None" hit
  proof -
    have "cache_contains addr (hy_l3 h)" using that k h(2) assms(2) by (auto simp: included_def inclusive_l1_def)
    then have "cache_contains a (hy_l3 h)" if "same_line (hy_l3 h) addr a" for a using cached_line_cong [OF h(5) that] by simp
    then show ?thesis using but that by (auto simp: included_but_def included_def)
  qed
  moreover have "ca_prefetcher c = None \<Longrightarrow> ca_prefetcher ?c = None" by (rule level_prefetcher [OF l])
  moreover have "hierarchy_ok h'" using assms(1) k bi sl h same_shapeD(2) [of ?c c] by (auto simp: h' hierarchy_ok_def)
  ultimately show ?thesis by (auto simp: h' inclusive_def inclusive_l2_def)
qed

lemma l3_access_inclusive:
  assumes "hierarchy_ok h" "inclusive_l2 addr h" "ca_enabled (hy_l3 h)" "l3_access addr w h = (hit, h')"
  shows "hierarchy_ok h' \<and> inclusive h'"
proof -
  let ?c = "hy_l3 h"
  obtain evs c f where l: "level_access addr w ?c (hy_prefetch_filter h) = (hit, evs, c, f)" and
    h': "h' = h\<lparr> hy_l3 := c, hy_prefetch_filter := f, hy_l2 := back_invalidate evs (hy_l2 h), hy_l1d := back_invalidate evs (hy_l1d h),
      hy_l1i := back_invalidate evs (hy_l1i h) \<rparr>"
    using assms(1,4) by (auto simp: l3_access_def Let_def hierarchy_ok_def split: prod.splits)
  have h: "cache_ok ?c" "cache_ok (hy_l2 h)" "cache_ok (hy_l1d h)" "cache_ok (hy_l1i h)"
    "same_line (hy_l1i h) = same_line (hy_l2 h)" "same_line (hy_l1d h) = same_line (hy_l2 h)" "same_line ?c = same_line (hy_l2 h)" "ca_enabled (hy_l2 h)"
    using assms(1) by (auto simp: hierarchy_ok_def)
  note s = level_access_spec [OF h(1) assms(3) l] and k = level_keeps [OF h(1) l]
  note bi = back_invalidate_spec [OF h(2), of evs] back_invalidate_spec [OF h(3), of evs] back_invalidate_spec [OF h(4), of evs]
  have sl: "same_line c = same_line (hy_l2 h)" "same_line (back_invalidate evs (hy_l1d h)) = same_line (hy_l2 h)"
    "same_line (back_invalidate evs (hy_l1i h)) = same_line (hy_l2 h)" "same_line (back_invalidate evs (hy_l2 h)) = same_line (hy_l2 h)"
    using same_shapeD(1) [of ?c c] same_shapeD(1) [of "hy_l1d h" "back_invalidate evs (hy_l1d h)"] same_shapeD(1) [of "hy_l1i h" "back_invalidate evs (hy_l1i h)"]
      same_shapeD(1) [of "hy_l2 h" "back_invalidate evs (hy_l2 h)"] k bi h
    by auto
  have "included (back_invalidate evs (hy_l1d h)) (back_invalidate evs (hy_l2 h))" "included (back_invalidate evs (hy_l1i h)) (back_invalidate evs (hy_l2 h))"
    using assms(2) h by (auto intro!: back_invalidate_included simp: inclusive_l2_def)
  moreover have "included (back_invalidate evs (hy_l2 h)) c" if "ca_prefetcher (hy_l2 h) = None"
    using assms(2,3) that s h by (auto intro!: lower_level_included simp: inclusive_l2_def)
  moreover have "ca_enabled (back_invalidate evs (hy_l2 h))" using bi h(8) by (auto simp: same_shape_def)
  moreover have "hierarchy_ok h'" using assms(1) k bi sl h calculation(4) by (auto simp: h' hierarchy_ok_def)
  ultimately show ?thesis using bi by (auto simp: h' inclusive_def)
qed

lemma below_l2_inclusive:
  assumes "hierarchy_ok h" "inclusive_l2 addr h" "below_l2 addr w cycles pen h = Some (lat, h')"
  shows "hierarchy_ok h' \<and> inclusive h'"
proof -
  have dram: "hierarchy_ok h2 \<and> inclusive h2" if "hierarchy_ok h1" "inclusive h1" "dram_access addr cycles pen' h1 = Some (lat, h2)" for h1 h2 pen'
    using that by (auto simp: dram_access_def hierarchy_ok_def inclusive_def)
  show ?thesis
  proof (cases "ca_enabled (hy_l3 h)")
    case True
    obtain hit h1 where l: "l3_access addr w h = (hit, h1)" by force
    note k = l3_access_inclusive [OF assms(1,2) True l]
    have "hit \<and> h' = h1 \<or> dram_access addr cycles (pen + ca_latency (hy_l3 h)) h1 = Some (lat, h')"
      using assms(3) True l by (auto simp: below_l2_def Let_def split: if_splits)
    then show ?thesis using k dram [of h1] by blast
  next
    case False
    then have "inclusive h" using assms(2) by (auto simp: inclusive_def inclusive_l2_def)
    moreover have "dram_access addr cycles pen h = Some (lat, h')" using assms(3) False by (simp add: below_l2_def)
    ultimately show ?thesis using assms(1) dram by blast
  qed
qed


subsection \<open>Concrete hierarchies\<close>

definition demo_level :: "nat \<Rightarrow> prefetcher_type \<Rightarrow> cache" where
  "demo_level n pf = cache_new \<lparr> cf_enabled = True, cf_size_bytes = n * 64, cf_line_bytes = 64, cf_ways = 1, cf_policy = Policy_Lru, cf_latency = 1,
     cf_prefetcher = pf, cf_prefetch_table_size = 0, cf_prefetch_degree = 1 \<rparr>"

definition demo_hierarchy :: "inclusion_policy \<Rightarrow> prefetcher_type \<Rightarrow> hierarchy" where
  "demo_hierarchy pol pf = \<lparr> hy_l1i = demo_level 2 Pf_None, hy_l1d = demo_level 2 pf, hy_l2 = demo_level 4 Pf_None, hy_l3 = demo_level 8 Pf_None,
     hy_prefetch_filter = pf_new 0 64, hy_controller = Simple 100, hy_inclusion_policy = pol, hy_bus_latency = 4, hy_bus_width = 8 \<rparr>"

lemma demo_level_ok: "0 < n \<Longrightarrow> n < 1024 \<Longrightarrow> cache_ok (demo_level n pf)"
  unfolding demo_level_def by (rule cache_new_ok) simp

lemma demo_level_fields: "ca_enabled (demo_level n pf)" "ca_prefetcher (demo_level n Pf_None) = None" "ca_line_bytes (demo_level n pf) = 64"
  by (simp_all add: demo_level_def cache_new_def Let_def)

lemma demo_hierarchy_ok: "hierarchy_ok (demo_hierarchy Inclusive Pf_None)" "inclusive (demo_hierarchy Inclusive Pf_None)"
proof -
  have inv: "\<not> ln_valid l" if "l \<in> set (ca_lines (demo_level n pf))" for l n pf
    using that by (auto simp: demo_level_def cache_new_def Let_def line_default_def)
  have "\<not> cache_contains a (demo_level n pf)" if "0 < n" "n < 1024" for a n pf
  proof -
    have g: "geometry_ok (demo_level n pf)" using demo_level_ok [OF that] by (simp add: cache_ok_def)
    show ?thesis using inv nth_mem [OF slot_less [OF g set_index_less [OF g]]] unfolding cache_contains_def way_of_None_iff line_at_def by blast
  qed
  then show "inclusive (demo_hierarchy Inclusive Pf_None)" by (simp add: inclusive_def demo_hierarchy_def included_def)
  show "hierarchy_ok (demo_hierarchy Inclusive Pf_None)"
    by (simp add: hierarchy_ok_def demo_hierarchy_def demo_level_ok demo_level_fields same_line_def fun_eq_iff)
qed


text \<open>A prefetcher at the first level installs lines there only: one access breaks inclusion. With the exclusive policy a miss installs the line in both levels; when the
  first level then evicts it, the second holds it twice.\<close>

theorem l1_prefetch_breaks_inclusion:
  "case simulate_memory_access 0 Acc_Read 0 (demo_hierarchy Inclusive Pf_NextLine) of
     Some (_, h) \<Rightarrow> cache_contains 0x40 (hy_l1d h) \<and> \<not> cache_contains 0x40 (hy_l2 h) | None \<Rightarrow> False"
  by code_simp

theorem exclusive_miss_fills_both_levels:
  "case simulate_memory_access 0 Acc_Read 0 (demo_hierarchy Exclusive Pf_None) of
     Some (_, h) \<Rightarrow> cache_contains 0 (hy_l1d h) \<and> cache_contains 0 (hy_l2 h) | None \<Rightarrow> False"
  by code_simp

end
