(* ===== verification/Mshr.thy ===== *)
theory Mshr
  imports Prefetch Rob Lsu "HOL-Library.Multiset"
begin

text \<open>
  Outstanding misses: the miss status holding registers of the level-1 data cache (\<open>core/units/cache/mshr.rs\<close>) and the write combining
  buffer between the store buffer and that cache (\<open>core/pipeline/write_buffer.rs\<close>). The parked pipeline entry of a waiter is a type
  parameter. A file is abstracted to the multiset of its waiters with their lines: a request adds one, a completion hands over every waiter of a finished
  line, and a recovery drops exactly the younger ones, so no parked instruction is lost or resumed twice.
\<close>

subsection \<open>Miss status holding registers\<close>

datatype mshr_state = Mshr_Pending | Mshr_Complete

record 'p mshr_waiter =
  mw_rob_tag :: rob_tag
  mw_parked_entry :: "'p option"

record 'p mshr_entry =
  ms_line_addr :: u64
  ms_state :: mshr_state
  ms_complete_cycle :: u64
  ms_waiters :: "'p mshr_waiter list"
  ms_valid :: bool
  ms_is_write :: bool

datatype cache_response = Cr_Hit | Mshr_Allocated u64 | Mshr_Coalesced u64 | Mshr_Full

record 'p mshr_file =
  mf_entries :: "'p mshr_entry list"
  mf_cap :: nat
  mf_count :: nat
  mf_line_bytes :: nat

definition mshr_empty :: "mshr_state \<Rightarrow> 'p mshr_entry" where
  "mshr_empty st = \<lparr> ms_line_addr = 0, ms_state = st, ms_complete_cycle = 0, ms_waiters = [], ms_valid = False, ms_is_write = False \<rparr>"

definition mshr_new :: "nat \<Rightarrow> nat \<Rightarrow> 'p mshr_file" where
  "mshr_new capacity line_bytes = \<lparr> mf_entries = replicate capacity (mshr_empty Mshr_Pending), mf_cap = capacity, mf_count = 0,
     mf_line_bytes = (if line_bytes = 0 then 64 else line_bytes) \<rparr>"

definition line_align :: "u64 \<Rightarrow> 'p mshr_file \<Rightarrow> u64" where
  "line_align addr f = addr AND NOT (of_nat (mf_line_bytes f) - 1)"

definition find_line :: "u64 \<Rightarrow> 'p mshr_file \<Rightarrow> nat option" where
  "find_line l f = position (\<lambda>e. ms_valid e \<and> ms_line_addr e = l) (mf_entries f)"

definition mshr_request :: "u64 \<Rightarrow> bool \<Rightarrow> u64 \<Rightarrow> u64 \<Rightarrow> 'p mshr_waiter \<Rightarrow> 'p mshr_file \<Rightarrow> cache_response \<times> 'p mshr_file" where
  "mshr_request addr is_write miss_latency current_cycle waiter f =
    (let l = line_align addr f in
     case find_line l f of
       Some i \<Rightarrow> (let e = mf_entries f ! i in (Mshr_Coalesced (ms_complete_cycle e),
          f\<lparr> mf_entries := (mf_entries f)[i := e\<lparr> ms_waiters := ms_waiters e @ [waiter], ms_is_write := ms_is_write e \<or> is_write \<rparr>] \<rparr>))
     | None \<Rightarrow>
        if mf_cap f \<le> mf_count f then (Mshr_Full, f)
        else (case position (\<lambda>e. \<not> ms_valid e) (mf_entries f) of
            Some i \<Rightarrow> (Mshr_Allocated (current_cycle + miss_latency),
              f\<lparr> mf_entries := (mf_entries f)[i := \<lparr> ms_line_addr = l, ms_state = Mshr_Pending, ms_complete_cycle = current_cycle + miss_latency,
                   ms_waiters = [waiter], ms_valid = True, ms_is_write = is_write \<rparr>], mf_count := Suc (mf_count f) \<rparr>)
          | None \<Rightarrow> (Mshr_Full, f)))"

definition mshr_done :: "u64 \<Rightarrow> 'p mshr_entry \<Rightarrow> bool" where
  "mshr_done now e \<longleftrightarrow> ms_valid e \<and> ms_complete_cycle e \<le> now"

definition drain_completions :: "u64 \<Rightarrow> 'p mshr_file \<Rightarrow> 'p mshr_entry list \<times> 'p mshr_file" where
  "drain_completions now f =
    (let completed = filter (mshr_done now) (mf_entries f)
     in (map (\<lambda>e. e\<lparr> ms_state := Mshr_Complete \<rparr>) completed,
         f\<lparr> mf_entries := map (\<lambda>e. if mshr_done now e then mshr_empty Mshr_Complete else e) (mf_entries f),
            mf_count := mf_count f - length completed \<rparr>))"

definition mshr_flush_after :: "rob_tag \<Rightarrow> 'p mshr_file \<Rightarrow> 'p mshr_file" where
  "mshr_flush_after keep_tag f = f\<lparr> mf_entries :=
     map (\<lambda>e. if ms_valid e then e\<lparr> ms_waiters := filter (\<lambda>w. is_older_or_eq (mw_rob_tag w) keep_tag) (ms_waiters e) \<rparr> else e) (mf_entries f) \<rparr>"

definition mshr_flush :: "'p mshr_file \<Rightarrow> 'p mshr_file" where
  "mshr_flush f = f\<lparr> mf_entries := map (\<lambda>e. e\<lparr> ms_waiters := [], ms_valid := False \<rparr>) (mf_entries f), mf_count := 0 \<rparr>"

definition active_count :: "'p mshr_file \<Rightarrow> nat" where
  "active_count f = mf_count f"

definition mshr_is_full :: "'p mshr_file \<Rightarrow> bool" where
  "mshr_is_full f \<longleftrightarrow> mf_cap f \<le> mf_count f"

definition capacity :: "'p mshr_file \<Rightarrow> nat" where
  "capacity f = mf_cap f"

subsection \<open>Write combining\<close>

record wcb_entry =
  wc_line_addr :: u64
  wc_valid_mask :: u64
  wc_data :: "u8 list"
  wc_active :: bool
  wc_lru_counter :: u64

record write_combining_buffer =
  wb_entries :: "wcb_entry list"
  wb_line_bytes :: nat
  wb_access_counter :: u64

definition wcb_entry_default :: wcb_entry where
  "wcb_entry_default = \<lparr> wc_line_addr = 0, wc_valid_mask = 0, wc_data = replicate 64 0, wc_active = False, wc_lru_counter = 0 \<rparr>"

definition wcb_new :: "nat \<Rightarrow> nat \<Rightarrow> write_combining_buffer" where
  "wcb_new cap line_bytes = \<lparr> wb_entries = replicate cap wcb_entry_default, wb_line_bytes = (if line_bytes = 0 then 64 else line_bytes), wb_access_counter = 0 \<rparr>"

definition wcb_is_disabled :: "write_combining_buffer \<Rightarrow> bool" where
  "wcb_is_disabled b \<longleftrightarrow> wb_entries b = []"

text \<open>The shift \<open>1u64 << i\<close> and the index into the data array are in range because the loop stops at 64.\<close>

definition wcb_write_byte :: "nat \<Rightarrow> u64 \<Rightarrow> nat \<Rightarrow> wcb_entry \<Rightarrow> wcb_entry" where
  "wcb_write_byte offset data i e =
    (if i - offset < 8 then e\<lparr> wc_valid_mask := wc_valid_mask e OR push_bit i 1, wc_data := (wc_data e)[i := ucast (drop_bit (8 * (i - offset)) data)] \<rparr> else e)"

definition wcb_write_bytes :: "nat \<Rightarrow> u64 \<Rightarrow> nat \<Rightarrow> wcb_entry \<Rightarrow> wcb_entry" where
  "wcb_write_bytes offset data width_bytes e = fold (wcb_write_byte offset data) [offset..<min (offset + width_bytes) 64] e"

fun find_lru_loop :: "nat \<Rightarrow> wcb_entry list \<Rightarrow> u64 \<Rightarrow> nat \<Rightarrow> nat" where
  "find_lru_loop i [] min_counter min_idx = min_idx"
| "find_lru_loop i (e # es) min_counter min_idx =
    (if wc_active e \<and> wc_lru_counter e < min_counter then find_lru_loop (Suc i) es (wc_lru_counter e) i else find_lru_loop (Suc i) es min_counter min_idx)"

definition find_lru :: "write_combining_buffer \<Rightarrow> nat" where
  "find_lru b = find_lru_loop 0 (wb_entries b) (- 1) 0"

definition wcb_open :: "u64 \<Rightarrow> nat \<Rightarrow> u64 \<Rightarrow> nat \<Rightarrow> u64 \<Rightarrow> wcb_entry \<Rightarrow> wcb_entry" where
  "wcb_open line_addr offset data width_bytes counter e =
    (wcb_write_bytes offset data width_bytes (e\<lparr> wc_line_addr := line_addr, wc_valid_mask := 0, wc_data := replicate 64 0, wc_active := True \<rparr>))
      \<lparr> wc_lru_counter := counter \<rparr>"

definition merge_store :: "phys_addr \<Rightarrow> u64 \<Rightarrow> nat \<Rightarrow> write_combining_buffer \<Rightarrow> u64 option \<times> write_combining_buffer" where
  "merge_store paddr data width_bytes b =
    (if wb_entries b = [] then (None, b)
     else let line_addr = paddr AND NOT (of_nat (wb_line_bytes b) - 1); offset = unat (paddr - line_addr); n = wb_access_counter b + 1;
              b1 = b\<lparr> wb_access_counter := n \<rparr>; es = wb_entries b
       in case position (\<lambda>e. wc_active e \<and> wc_line_addr e = line_addr) es of
            Some i \<Rightarrow> (None, b1\<lparr> wb_entries := es[i := (wcb_write_bytes offset data width_bytes (es ! i))\<lparr> wc_lru_counter := n \<rparr>] \<rparr>)
          | None \<Rightarrow> (case position (\<lambda>e. \<not> wc_active e) es of
              Some i \<Rightarrow> (None, b1\<lparr> wb_entries := es[i := wcb_open line_addr offset data width_bytes n (es ! i)] \<rparr>)
            | None \<Rightarrow> (let i = find_lru b in (Some (wc_line_addr (es ! i)),
                b1\<lparr> wb_entries := es[i := wcb_open line_addr offset data width_bytes n (es ! i)] \<rparr>))))"

definition wcb_flush_all :: "write_combining_buffer \<Rightarrow> u64 list \<times> write_combining_buffer" where
  "wcb_flush_all b = (map wc_line_addr (filter wc_active (wb_entries b)),
     b\<lparr> wb_entries := map (\<lambda>e. if wc_active e then e\<lparr> wc_active := False \<rparr> else e) (wb_entries b) \<rparr>)"

definition wcb_contains_line :: "u64 \<Rightarrow> write_combining_buffer \<Rightarrow> bool" where
  "wcb_contains_line line_addr b \<longleftrightarrow> list_ex (\<lambda>e. wc_active e \<and> wc_line_addr e = line_addr) (wb_entries b)"

definition wcb_active_count :: "write_combining_buffer \<Rightarrow> nat" where
  "wcb_active_count b = length (filter wc_active (wb_entries b))"

subsection \<open>Waiters are conserved\<close>

definition entry_waiters :: "'p mshr_entry \<Rightarrow> (u64 \<times> 'p mshr_waiter) multiset" where
  "entry_waiters e = (if ms_valid e then image_mset (Pair (ms_line_addr e)) (mset (ms_waiters e)) else {#})"

definition parked :: "'p mshr_file \<Rightarrow> (u64 \<times> 'p mshr_waiter) multiset" where
  "parked f = (\<Sum>e \<leftarrow> mf_entries f. entry_waiters e)"

definition outstanding :: "'p mshr_file \<Rightarrow> u64 \<Rightarrow> bool" where
  "outstanding f l \<longleftrightarrow> (\<exists>e \<in> set (mf_entries f). ms_valid e \<and> ms_line_addr e = l)"

definition mshr_ok :: "'p mshr_file \<Rightarrow> bool" where
  "mshr_ok f \<longleftrightarrow> length (mf_entries f) = mf_cap f \<and> mf_count f = length (filter ms_valid (mf_entries f))
     \<and> (\<forall>i < mf_cap f. \<forall>j < mf_cap f. ms_valid (mf_entries f ! i) \<longrightarrow> ms_valid (mf_entries f ! j)
          \<longrightarrow> ms_line_addr (mf_entries f ! i) = ms_line_addr (mf_entries f ! j) \<longrightarrow> i = j)"

lemma sum_list_upd: "i < length xs \<Longrightarrow> sum_list (map g (xs[i := y])) + g (xs ! i) = sum_list (map g xs) + g y" for g :: "'a \<Rightarrow> 'b :: comm_monoid_add"
proof (induction xs arbitrary: i)
  case (Cons x xs)
  then show ?case by (cases i) (auto simp: ac_simps)
qed simp

lemma length_filter_upd: "i < length xs \<Longrightarrow> length (filter P (xs[i := y])) + (if P (xs ! i) then 1 else 0) = length (filter P xs) + (if P y then 1 else 0)"
proof (induction xs arbitrary: i)
  case (Cons x xs)
  then show ?case by (cases i) auto
qed simp

lemma mshr_new_ok: "mshr_ok (mshr_new n l)"
  by (simp add: mshr_ok_def mshr_new_def mshr_empty_def)

lemma find_line_None: "find_line l f = None \<longleftrightarrow> \<not> outstanding f l"
  by (auto simp: find_line_def position_None_iff outstanding_def)

lemma outstanding_upd: "i < length (mf_entries f) \<Longrightarrow> ms_valid e \<Longrightarrow> mf_entries f' = (mf_entries f)[i := e] \<Longrightarrow> outstanding f' (ms_line_addr e)"
  unfolding outstanding_def by (auto intro: set_update_memI)

lemma mshr_ok_map:
  assumes "mshr_ok f" "\<And>e. ms_valid (g e) \<Longrightarrow> ms_valid e \<and> ms_line_addr (g e) = ms_line_addr e"
    "mf_entries f' = map g (mf_entries f)" "mf_cap f' = mf_cap f" "mf_count f' = length (filter ms_valid (mf_entries f'))"
  shows "mshr_ok f'"
  unfolding mshr_ok_def
proof (intro conjI allI impI)
  fix i j
  assume *: "i < mf_cap f'" "j < mf_cap f'" "ms_valid (mf_entries f' ! i)" "ms_valid (mf_entries f' ! j)"
    "ms_line_addr (mf_entries f' ! i) = ms_line_addr (mf_entries f' ! j)"
  have len: "length (mf_entries f) = mf_cap f" using assms(1) by (simp add: mshr_ok_def)
  have "ms_valid (mf_entries f ! i)" "ms_valid (mf_entries f ! j)" "ms_line_addr (mf_entries f ! i) = ms_line_addr (mf_entries f ! j)"
    using * assms(2) [of "mf_entries f ! i"] assms(2) [of "mf_entries f ! j"] by (simp_all add: assms(3,4) len)
  then show "i = j" using assms(1) * by (simp add: mshr_ok_def assms(4))
qed (use assms in \<open>auto simp: mshr_ok_def\<close>)

lemma mshr_request_spec:
  assumes "mshr_ok f" "mshr_request addr w lat now waiter f = (resp, f')"
  defines "l \<equiv> line_align addr f"
  shows "mshr_ok f' \<and> (resp = Mshr_Full \<longleftrightarrow> \<not> outstanding f l \<and> mf_count f = mf_cap f) \<and> resp \<noteq> Cr_Hit
    \<and> (if resp = Mshr_Full then f' = f else parked f' = add_mset (l, waiter) (parked f) \<and> outstanding f' l)"
proof (cases "find_line l f")
  case (Some i)
  let ?e = "mf_entries f ! i"
  let ?e' = "?e\<lparr> ms_waiters := ms_waiters ?e @ [waiter], ms_is_write := ms_is_write ?e \<or> w \<rparr>"
  have i: "i < length (mf_entries f)" "ms_valid ?e" "ms_line_addr ?e = l" using Some by (auto simp: find_line_def position_Some_iff)
  have r: "resp = Mshr_Coalesced (ms_complete_cycle ?e)" "f' = f\<lparr> mf_entries := (mf_entries f)[i := ?e'] \<rparr>"
    using assms(2) Some by (simp_all add: mshr_request_def l_def Let_def)
  have "outstanding f l" using Some find_line_None [of l f] by auto
  moreover have "outstanding f' l" using outstanding_upd [OF i(1), of ?e' f'] i by (simp add: r)
  moreover have "parked f' + entry_waiters ?e = parked f + entry_waiters ?e'"
    using sum_list_upd [OF i(1), of entry_waiters ?e'] by (simp add: parked_def r)
  moreover have "entry_waiters ?e' = entry_waiters ?e + {#(l, waiter)#}" using i by (simp add: entry_waiters_def)
  moreover have "mshr_ok f'" using assms(1) i length_filter_upd [OF i(1), of ms_valid ?e'] by (simp add: mshr_ok_def r nth_list_update) metis
  ultimately show ?thesis by (simp add: r)
next
  case None
  then have no: "\<not> outstanding f l" by (simp add: find_line_None)
  show ?thesis
  proof (cases "mf_count f = mf_cap f")
    case True
    then show ?thesis using assms(1,2) None no by (simp add: mshr_request_def l_def Let_def)
  next
    case False
    have le: "length (filter ms_valid (mf_entries f)) < length (mf_entries f)"
      using assms(1) False length_filter_le [of ms_valid "mf_entries f"] by (auto simp: mshr_ok_def)
    then have "position (\<lambda>e. \<not> ms_valid e) (mf_entries f) \<noteq> None"
      by (metis (no_types, lifting) position_None_iff filter_True less_irrefl)
    then obtain i where p: "position (\<lambda>e. \<not> ms_valid e) (mf_entries f) = Some i" by auto
    then have i: "i < length (mf_entries f)" "\<not> ms_valid (mf_entries f ! i)" by (auto simp: position_Some_iff)
    let ?e' = "\<lparr> ms_line_addr = l, ms_state = Mshr_Pending, ms_complete_cycle = now + lat, ms_waiters = [waiter], ms_valid = True, ms_is_write = w \<rparr>"
    have "\<not> mf_cap f \<le> mf_count f" using le assms(1) by (simp add: mshr_ok_def)
    then have r: "resp = Mshr_Allocated (now + lat)" "f' = f\<lparr> mf_entries := (mf_entries f)[i := ?e'], mf_count := Suc (mf_count f) \<rparr>"
      using assms(2) None p by (simp_all add: mshr_request_def l_def Let_def)
    have "outstanding f' l" using outstanding_upd [OF i(1), of ?e' f'] by (simp add: r)
    moreover have "parked f' = add_mset (l, waiter) (parked f)"
      using sum_list_upd [OF i(1), of entry_waiters ?e'] i(2) by (simp add: parked_def r entry_waiters_def [of "mf_entries f ! i"] entry_waiters_def [of ?e'])
    moreover have "mshr_ok f'"
      using assms(1) i no length_filter_upd [OF i(1), of ms_valid ?e'] by (auto simp: mshr_ok_def r nth_list_update outstanding_def)
    ultimately show ?thesis using False no by (simp add: r)
  qed
qed

lemma drain_completions_spec:
  assumes "mshr_ok f" "drain_completions now f = (es, f')"
  shows "mshr_ok f' \<and> parked f = parked f' + (\<Sum>e \<leftarrow> es. entry_waiters e) \<and> \<not> list_ex (mshr_done now) (mf_entries f')
    \<and> (\<forall>e \<in> set es. ms_valid e \<and> ms_complete_cycle e \<le> now \<and> ms_state e = Mshr_Complete \<and> outstanding f (ms_line_addr e))"
proof -
  let ?d = "mshr_done now" and ?xs = "mf_entries f"
  have r: "es = map (\<lambda>e. e\<lparr> ms_state := Mshr_Complete \<rparr>) (filter ?d ?xs)"
    "f' = f\<lparr> mf_entries := map (\<lambda>e. if ?d e then mshr_empty Mshr_Complete else e) ?xs, mf_count := mf_count f - length (filter ?d ?xs) \<rparr>"
    using assms(2) by (auto simp: drain_completions_def Let_def)
  have sum: "(\<Sum>e \<leftarrow> xs. entry_waiters e) = (\<Sum>e \<leftarrow> map (\<lambda>e. if ?d e then mshr_empty Mshr_Complete else e) xs. entry_waiters e)
      + (\<Sum>e \<leftarrow> map (\<lambda>e. e\<lparr> ms_state := Mshr_Complete \<rparr>) (filter ?d xs). entry_waiters e)" for xs :: "'a mshr_entry list"
    by (induction xs) (auto simp: entry_waiters_def mshr_empty_def mshr_done_def ac_simps)
  have "parked f = parked f' + (\<Sum>e \<leftarrow> es. entry_waiters e)" using sum [of ?xs] by (simp add: parked_def r)
  moreover have "length (filter ms_valid xs) - length (filter ?d xs) = length (filter ms_valid (map (\<lambda>e. if ?d e then mshr_empty Mshr_Complete else e) xs))
      \<and> length (filter ?d xs) \<le> length (filter ms_valid xs)" for xs :: "'a mshr_entry list"
    by (induction xs) (auto simp: mshr_empty_def mshr_done_def)
  then have "mf_count f' = length (filter ms_valid (mf_entries f'))" using assms(1) by (simp add: r mshr_ok_def)
  then have "mshr_ok f'"
    by (rule mshr_ok_map [OF assms(1), where g = "\<lambda>e. if ?d e then mshr_empty Mshr_Complete else e", rotated 3])
      (simp_all add: r mshr_empty_def split: if_splits)
  ultimately show ?thesis by (auto simp: r list_ex_iff mshr_done_def mshr_empty_def outstanding_def)
qed

lemma mshr_flush_after_spec:
  "mshr_ok f \<Longrightarrow> mshr_ok (mshr_flush_after k f)"
  "parked (mshr_flush_after k f) = filter_mset (\<lambda>(l, w). is_older_or_eq (mw_rob_tag w) k) (parked f)"
proof -
  let ?g = "\<lambda>e :: 'a mshr_entry. if ms_valid e then e\<lparr> ms_waiters := filter (\<lambda>w. is_older_or_eq (mw_rob_tag w) k) (ms_waiters e) \<rparr> else e"
  have n: "length (filter ms_valid (map ?g xs)) = length (filter ms_valid xs)" for xs
    by (induction xs) auto
  show "mshr_ok f \<Longrightarrow> mshr_ok (mshr_flush_after k f)"
    by (rule mshr_ok_map [where f = f and g = ?g]) (simp_all add: n mshr_ok_def mshr_flush_after_def del: length_filter_map split: if_splits)
  have "(\<Sum>e \<leftarrow> map (\<lambda>e. if ms_valid e then e\<lparr> ms_waiters := filter (\<lambda>w. is_older_or_eq (mw_rob_tag w) k) (ms_waiters e) \<rparr> else e) xs. entry_waiters e)
      = filter_mset (\<lambda>(l, w). is_older_or_eq (mw_rob_tag w) k) (\<Sum>e \<leftarrow> xs. entry_waiters e)" for xs :: "'a mshr_entry list"
    by (induction xs) (auto simp: entry_waiters_def filter_mset_image_mset mset_filter)
  then show "parked (mshr_flush_after k f) = filter_mset (\<lambda>(l, w). is_older_or_eq (mw_rob_tag w) k) (parked f)"
    by (simp add: parked_def mshr_flush_after_def)
qed

lemma mshr_flush_spec: "mshr_ok f \<Longrightarrow> mshr_ok (mshr_flush f)" "parked (mshr_flush f) = {#}"
proof -
  have n: "filter ms_valid (map (\<lambda>e. e\<lparr> ms_waiters := [], ms_valid := False \<rparr>) xs) = []" for xs :: "'a mshr_entry list" by (induction xs) auto
  show "mshr_ok f \<Longrightarrow> mshr_ok (mshr_flush f)"
    by (rule mshr_ok_map [where f = f and g = "\<lambda>e. e\<lparr> ms_waiters := [], ms_valid := False \<rparr>"]) (simp_all add: n mshr_ok_def mshr_flush_def)
  have "(\<Sum>e \<leftarrow> map (\<lambda>e. e\<lparr> ms_waiters := [], ms_valid := False \<rparr>) xs. entry_waiters e) = {#}" for xs :: "'a mshr_entry list"
    by (induction xs) (auto simp: entry_waiters_def)
  then show "parked (mshr_flush f) = {#}" by (simp add: parked_def mshr_flush_def)
qed

text \<open>C36. No waiter is lost. A request joins the entry of its line or opens one; it is refused exactly when the line is not outstanding and
  every register is taken, and then nothing changes. Completions hand over, each once, all waiters of the lines whose data has arrived and leave the others
  parked; a misprediction removes exactly the waiters younger than the kept tag, and a full flush all of them. No two registers ever fetch
  the same line.\<close>

theorem mshr_waiters_conserved:
  assumes "mshr_ok f"
  shows "(case mshr_request addr w lat now waiter f of (resp, f') \<Rightarrow> mshr_ok f'
      \<and> (resp = Mshr_Full \<longleftrightarrow> \<not> outstanding f (line_align addr f) \<and> active_count f = capacity f)
      \<and> parked f' = (if resp = Mshr_Full then parked f else add_mset (line_align addr f, waiter) (parked f)))
    \<and> (case drain_completions now f of (es, f') \<Rightarrow> mshr_ok f' \<and> parked f = parked f' + (\<Sum>e \<leftarrow> es. entry_waiters e)
      \<and> (\<forall>e \<in> set es. mshr_done now e) \<and> \<not> list_ex (mshr_done now) (mf_entries f'))
    \<and> mshr_ok (mshr_flush_after k f) \<and> parked (mshr_flush_after k f) = filter_mset (\<lambda>(l, w). is_older_or_eq (mw_rob_tag w) k) (parked f)
    \<and> mshr_ok (mshr_flush f) \<and> parked (mshr_flush f) = {#}"
proof -
  obtain resp f' where r: "mshr_request addr w lat now waiter f = (resp, f')" by force
  obtain es g where d: "drain_completions now f = (es, g)" by force
  show ?thesis
    using mshr_request_spec [OF assms r] drain_completions_spec [OF assms d] mshr_flush_after_spec(1) [OF assms, of k] mshr_flush_spec(1) [OF assms]
    by (simp add: r d mshr_flush_after_spec(2) mshr_flush_spec(2) active_count_def capacity_def mshr_done_def)
qed

theorem mshr_waiters_conserved_witness:
  "parked (snd (mshr_request 0x1020 False 100 10 \<lparr> mw_rob_tag = 1, mw_parked_entry = None :: unit option \<rparr> (mshr_new 2 64)))
     = {#(line_align 0x1020 (mshr_new 2 64 :: unit mshr_file), \<lparr> mw_rob_tag = 1, mw_parked_entry = None \<rparr>)#}"
proof -
  let ?f = "mshr_new 2 64 :: unit mshr_file" and ?w = "\<lparr> mw_rob_tag = 1, mw_parked_entry = None :: unit option \<rparr>"
  have "active_count ?f \<noteq> capacity ?f" by (simp add: active_count_def capacity_def mshr_new_def)
  moreover have "parked ?f = {#}" by (simp add: parked_def mshr_new_def entry_waiters_def mshr_empty_def numeral_2_eq_2)
  ultimately show ?thesis using mshr_waiters_conserved [OF mshr_new_ok [of 2 64], where k = 0 and addr = "0x1020" and w = False and lat = 100 and now = 10 and waiter = ?w] by (auto split: prod.splits)
qed

text \<open>The data of a store is not lost between the store buffer and the cache: every line that was written is still held, or its drain was reported.\<close>

lemma wcb_write_bytes_same: "wc_active (wcb_write_bytes o1 d n e) = wc_active e" "wc_line_addr (wcb_write_bytes o1 d n e) = wc_line_addr e"
proof -
  have "wc_active (fold (wcb_write_byte o1 d) is e) = wc_active e \<and> wc_line_addr (fold (wcb_write_byte o1 d) is e) = wc_line_addr e" for "is"
    by (induction "is" arbitrary: e) (auto simp: wcb_write_byte_def)
  then show "wc_active (wcb_write_bytes o1 d n e) = wc_active e" "wc_line_addr (wcb_write_bytes o1 d n e) = wc_line_addr e"
    by (simp_all add: wcb_write_bytes_def)
qed

lemma find_lru_loop_less: "min_idx < n \<Longrightarrow> i + length es \<le> n \<Longrightarrow> find_lru_loop i es m min_idx < n"
  by (induction i es m min_idx rule: find_lru_loop.induct) auto

lemma wcb_contains_upd:
  assumes "i < length (wb_entries b)"
  shows "wcb_contains_line l (b\<lparr> wb_entries := (wb_entries b)[i := e] \<rparr>) \<longleftrightarrow> (wc_active e \<and> wc_line_addr e = l)
    \<or> (\<exists>j < length (wb_entries b). j \<noteq> i \<and> wc_active (wb_entries b ! j) \<and> wc_line_addr (wb_entries b ! j) = l)"
  using assms by (auto simp: wcb_contains_line_def list_ex_length nth_list_update)

theorem wcb_keeps_lines:
  assumes "\<not> wcb_is_disabled b" "merge_store paddr data n b = (drain, b')"
  shows "wcb_contains_line (paddr AND NOT (of_nat (wb_line_bytes b) - 1)) b'
    \<and> (wcb_contains_line l b \<longrightarrow> wcb_contains_line l b' \<or> drain = Some l)
    \<and> (\<forall>k. drain = Some k \<longrightarrow> wcb_contains_line k b)"
proof -
  let ?es = "wb_entries b" and ?l = "paddr AND NOT (of_nat (wb_line_bytes b) - 1)"
  let ?o = "unat (paddr - ?l)" and ?n = "wb_access_counter b + 1"
  have ne: "?es \<noteq> []" using assms(1) by (simp add: wcb_is_disabled_def)
  note up = wcb_contains_upd [of _ "b\<lparr> wb_access_counter := ?n \<rparr>", simplified]
  have op: "wc_active (wcb_open a o1 d k m e)" "wc_line_addr (wcb_open a o1 d k m e) = a" for a o1 d k m e
    by (simp_all add: wcb_open_def wcb_write_bytes_same)
  consider (join) i where "position (\<lambda>e. wc_active e \<and> wc_line_addr e = ?l) ?es = Some i"
    | (free) i where "position (\<lambda>e. wc_active e \<and> wc_line_addr e = ?l) ?es = None" "position (\<lambda>e. \<not> wc_active e) ?es = Some i"
    | (evict) "position (\<lambda>e. wc_active e \<and> wc_line_addr e = ?l) ?es = None" "position (\<lambda>e. \<not> wc_active e) ?es = None"
    by fastforce
  then show ?thesis
  proof cases
    case join
    then have i: "i < length ?es" "wc_active (?es ! i)" "wc_line_addr (?es ! i) = ?l" by (auto simp: position_Some_iff)
    then show ?thesis using assms(2) join ne
      by (auto simp: merge_store_def Let_def up wcb_write_bytes_same wcb_contains_line_def list_ex_length nth_list_update)
  next
    case free
    then have i: "i < length ?es" "\<not> wc_active (?es ! i)" by (auto simp: position_Some_iff)
    then show ?thesis using assms(2) free ne
      by (auto simp: merge_store_def Let_def up op wcb_contains_line_def list_ex_length nth_list_update)
  next
    case evict
    have i: "find_lru b < length ?es" using find_lru_loop_less [of 0 "length ?es" 0 ?es "- 1"] ne by (simp add: find_lru_def)
    moreover have "wc_active (?es ! find_lru b)" using evict(2) i by (auto simp: position_None_iff)
    ultimately show ?thesis using assms(2) evict ne
      by (auto simp: merge_store_def Let_def up op wcb_contains_line_def list_ex_length nth_list_update)
  qed
qed

end
