(* ===== verification/MemStages.thy ===== *)
theory MemStages
  imports Execute Hierarchy Mshr LoadQueue StoreBuffer
begin

text \<open>
  The memory and writeback stages both backends share (\<open>backend/shared/memory1.rs\<close>, \<open>memory2.rs\<close>, \<open>writeback.rs\<close>). The first translates, probes the data
  cache and parks misses in the miss registers; the second forwards from the store buffer or reads memory, resolves stores and detects loads that
  ran too early; the third records the result in the reorder buffer. Main memory is read through a raw pointer whose only check is that
  the first byte lies in memory: a read past the end is the value \<open>Undefined\<close>. Traces and statistics are left out.

  The properties of the stages are in the theory \<open>MemSpec\<close>; here are the lemmas that count instructions.
\<close>

subsection \<open>Latches\<close>

record mem1_mem2_entry =
  m2_rob_tag :: rob_tag
  m2_pc :: u64
  m2_inst :: u32
  m2_inst_size :: inst_size
  m2_rd :: reg_idx
  m2_rd_phys :: phys_reg
  m2_alu :: u64
  m2_vaddr :: virt_addr
  m2_paddr :: phys_addr
  m2_store_data :: u64
  m2_ctrl :: control_signals
  m2_trap :: "trap option"
  m2_exception_stage :: "exception_stage option"
  m2_fp_flags :: u8
  m2_complete_cycle :: u64
  m2_pte_update :: "pte_update option"
  m2_sfence_vma :: "sfence_vma_info option"

record mem2_wb_entry =
  wb_rob_tag :: rob_tag
  wb_pc :: u64
  wb_inst :: u32
  wb_inst_size :: inst_size
  wb_rd :: reg_idx
  wb_rd_phys :: phys_reg
  wb_alu :: u64
  wb_load_data :: u64
  wb_ctrl :: control_signals
  wb_trap :: "trap option"
  wb_exception_stage :: "exception_stage option"
  wb_fp_flags :: u8
  wb_pte_update :: "pte_update option"
  wb_sfence_vma :: "sfence_vma_info option"
  wb_lr_sc :: "lr_sc_record option"

record mem_unit =
  mu_cpu :: cpu
  mu_bus :: interconnect
  mu_hierarchy :: hierarchy
  mu_l1d_mshrs :: "mem1_mem2_entry mshr_file"
  mu_cache_base :: u64
  mu_misaligned_access_trap :: bool

subsection \<open>First stage\<close>

datatype m1_action = M1_Push mem1_mem2_entry | M1_Stop mem1_mem2_entry | M1_Park phys_reg | M1_Retry

definition to_mem2 :: "ex_mem1_entry \<Rightarrow> u64 \<Rightarrow> u64 \<Rightarrow> trap option \<Rightarrow> exception_stage option \<Rightarrow> u64 \<Rightarrow> pte_update option \<Rightarrow> mem1_mem2_entry" where
  "to_mem2 ex va pa tr st cycle pte = \<lparr> m2_rob_tag = xm_rob_tag ex, m2_pc = xm_pc ex, m2_inst = xm_inst ex, m2_inst_size = xm_inst_size ex,
     m2_rd = xm_rd ex, m2_rd_phys = xm_rd_phys ex, m2_alu = xm_alu ex, m2_vaddr = va, m2_paddr = pa, m2_store_data = xm_store_data ex,
     m2_ctrl = xm_ctrl ex, m2_trap = tr, m2_exception_stage = st, m2_fp_flags = xm_fp_flags ex, m2_complete_cycle = cycle,
     m2_pte_update = pte, m2_sfence_vma = xm_sfence_vma ex \<rparr>"

definition mem_fault :: "ex_mem1_entry \<Rightarrow> trap \<Rightarrow> u64 \<Rightarrow> m1_action" where
  "mem_fault ex t cycle = M1_Stop (to_mem2 ex (xm_alu ex) 0 (Some t) (Some Stage_Memory) cycle None)"

text \<open>The part of the stage after translation: cache probe, miss registers, blocking path and uncached accesses.\<close>

definition memory1_cache :: "u64 \<Rightarrow> ex_mem1_entry \<Rightarrow> u64 \<Rightarrow> pte_update option \<Rightarrow> u64 \<Rightarrow> mem_unit \<Rightarrow> (m1_action \<times> mem_unit) option" where
  "memory1_cache now ex pa pte lat u =
    (let is_write = cs_mem_write (xm_ctrl ex); h = mu_hierarchy u; push = (\<lambda>l. M1_Push (to_mem2 ex (xm_alu ex) pa None None (now + l) pte)) in
     if mu_cache_base u \<le> pa \<and> 0 < capacity (mu_l1d_mshrs u) then
       let (hit, c1) = access_check pa is_write (hy_l1d h); h1 = h\<lparr> hy_l1d := c1 \<rparr> in
       if hit then Some (push (lat + ca_latency c1), u\<lparr> mu_hierarchy := h1 \<rparr>)
       else (case simulate_l1d_miss_latency pa is_write (cpu_cycles (mu_cpu u)) h1 of
           None \<Rightarrow> None
         | Some (l, h2) \<Rightarrow>
            let miss = ca_latency c1 + l; atomic = (cs_atomic_op (xm_ctrl ex) \<noteq> At_None) in
            if is_write \<and> \<not> cs_mem_read (xm_ctrl ex) \<and> \<not> atomic then
              let (_, f) = mshr_request pa True miss now \<lparr> mw_rob_tag = xm_rob_tag ex, mw_parked_entry = None \<rparr> (mu_l1d_mshrs u)
              in Some (push (lat + ca_latency (hy_l1d h2)), u\<lparr> mu_hierarchy := h2, mu_l1d_mshrs := f \<rparr>)
            else
              let (resp, f) = mshr_request pa is_write miss now
                    \<lparr> mw_rob_tag = xm_rob_tag ex, mw_parked_entry = Some (to_mem2 ex (xm_alu ex) pa None None 0 pte) \<rparr> (mu_l1d_mshrs u)
              in Some (if resp = Mshr_Full then M1_Retry else M1_Park (xm_rd_phys ex), u\<lparr> mu_hierarchy := h2, mu_l1d_mshrs := f \<rparr>))
     else if mu_cache_base u \<le> pa then
       map_option (\<lambda>(l, h1). (push (lat + l), u\<lparr> mu_hierarchy := h1 \<rparr>))
         (simulate_memory_access pa (if is_write then Acc_Write else Acc_Read) (cpu_cycles (mu_cpu u)) h)
     else Some (push lat, u))"

definition memory1_one :: "u64 \<Rightarrow> ex_mem1_entry \<Rightarrow> load_queue option \<Rightarrow> mem_unit \<Rightarrow> (m1_action \<times> load_queue option \<times> mem_unit) option" where
  "memory1_one now ex lq u =
    (if xm_trap ex \<noteq> None then Some (M1_Stop (to_mem2 ex (xm_alu ex) 0 (xm_trap ex) (xm_exception_stage ex) now None), lq, u)
     else if \<not> (cs_mem_read (xm_ctrl ex) \<or> cs_mem_write (xm_ctrl ex)) then Some (M1_Push (to_mem2 ex 0 0 None None now None), lq, u)
     else let va = xm_alu ex; is_write = cs_mem_write (xm_ctrl ex); sz = of_nat (width_to_bytes (cs_width (xm_ctrl ex)));
              misaligned = \<not> is_aligned va sz in
       if misaligned \<and> (mu_misaligned_access_trap u \<or> cs_atomic_op (xm_ctrl ex) \<noteq> At_None)
       then Some (mem_fault ex (if is_write then store_misaligned_trap va else load_misaligned_trap va) now, lq, u)
       else let lat0 = (if misaligned then calculate_unaligned_latency va sz 64 else 0); valid = (\<lambda>a. is_valid_address a (mu_bus u));
                (tr, s) = cpu_translate valid va (if is_write then Acc_Write else Acc_Read) sz (mu_cpu u);
                u1 = u\<lparr> mu_cpu := s \<rparr>; lat1 = lat0 + tr_cycles tr in
         case tr_trap tr of
           Some t \<Rightarrow> Some (mem_fault ex t (now + lat1), lq, u1)
         | None \<Rightarrow>
            if cpu_privilege s \<noteq> Machine \<and> \<not> valid (tr_paddr tr)
            then Some (mem_fault ex (if is_write then StoreAccessFault va else LoadAccessFault va) (now + lat1), lq, u1)
            else let lq1 = (if cs_mem_read (xm_ctrl ex) then map_option (lq_fill_address (xm_rob_tag ex) va (tr_paddr tr)) lq else lq)
              in map_option (\<lambda>(act, u2). (act, lq1, u2)) (memory1_cache now ex (tr_paddr tr) (tr_pte_update tr) lat1 u1))"

text \<open>The result of the stage: what is left in the input latch, what was appended to the output, the wakeups to cancel.\<close>

fun memory1_loop :: "u64 \<Rightarrow> ex_mem1_entry list \<Rightarrow> load_queue option \<Rightarrow> mem_unit \<Rightarrow> mem1_mem2_entry list \<Rightarrow> phys_reg list
    \<Rightarrow> (ex_mem1_entry list \<times> mem1_mem2_entry list \<times> phys_reg list \<times> load_queue option \<times> mem_unit) option" where
  "memory1_loop now [] lq u outs cancelled = Some ([], outs, cancelled, lq, u)"
| "memory1_loop now (ex # exs) lq u outs cancelled =
    (case memory1_one now ex lq u of
       None \<Rightarrow> None
     | Some (M1_Push e, lq1, u1) \<Rightarrow> memory1_loop now exs lq1 u1 (outs @ [e]) cancelled
     | Some (M1_Stop e, lq1, u1) \<Rightarrow> Some (exs, outs @ [e], cancelled, lq1, u1)
     | Some (M1_Park r, lq1, u1) \<Rightarrow> memory1_loop now exs lq1 u1 outs (cancelled @ [r])
     | Some (M1_Retry, lq1, u1) \<Rightarrow> Some (ex # exs, outs, cancelled, lq1, u1))"

definition memory1_stage :: "u64 \<Rightarrow> ex_mem1_entry list \<Rightarrow> mem1_mem2_entry list \<Rightarrow> load_queue option \<Rightarrow> mem_unit
    \<Rightarrow> (ex_mem1_entry list \<times> mem1_mem2_entry list \<times> phys_reg list \<times> load_queue option \<times> mem_unit) option" where
  "memory1_stage now input output lq u = memory1_loop now input lq u output []"

text \<open>Completed misses: the line enters the first-level cache, the line it displaces moves down under the exclusive policy, and the parked
  instructions enter the latch of the second stage.\<close>

definition fill_line :: "mem1_mem2_entry mshr_entry \<Rightarrow> hierarchy \<Rightarrow> hierarchy" where
  "fill_line e h =
    (let ((_, ev), c) = install_line_public_tracked (ms_line_addr e) (ms_is_write e) 0 (hy_l1d h); h1 = h\<lparr> hy_l1d := c \<rparr>
     in case ev of
          Some v \<Rightarrow> if hy_inclusion_policy h = Exclusive \<and> ca_enabled (hy_l2 h)
            then h1\<lparr> hy_l2 := snd (install_or_replace (ev_addr v) (ev_dirty v) 0 (hy_l2 h)) \<rparr> else h1
        | None \<Rightarrow> h1)"

definition resumed :: "u64 \<Rightarrow> mem1_mem2_entry mshr_entry \<Rightarrow> mem1_mem2_entry list" where
  "resumed now e = map (\<lambda>p. p\<lparr> m2_complete_cycle := now \<rparr>) (List.map_filter mw_parked_entry (ms_waiters e))"

definition drain_mshr_completions :: "u64 \<Rightarrow> mem1_mem2_entry list \<Rightarrow> mem_unit \<Rightarrow> mem1_mem2_entry list \<times> mem_unit" where
  "drain_mshr_completions now latch u =
    (if capacity (mu_l1d_mshrs u) = 0 then (latch, u)
     else let (es, f) = drain_completions now (mu_l1d_mshrs u)
       in (latch @ concat (map (resumed now) es), u\<lparr> mu_hierarchy := fold fill_line es (mu_hierarchy u), mu_l1d_mshrs := f \<rparr>))"

subsection \<open>Second stage\<close>

datatype 'a access = Value 'a | Undefined | Stopped

fun of_outcome :: "'a outcome \<Rightarrow> 'a access" where
  "of_outcome (Done x) = Value x"
| "of_outcome Panic = Stopped"
| "of_outcome Hang = Stopped"

definition ram_ptr_read :: "u64 \<Rightarrow> nat \<Rightarrow> dram_buffer \<Rightarrow> u64 access" where
  "ram_ptr_read offset n ram = (case read_slice (unat offset) n ram of None \<Rightarrow> Undefined | Some bs \<Rightarrow> Value (from_le_bytes bs))"

definition bus_read :: "u64 \<Rightarrow> mem_width \<Rightarrow> u64 \<Rightarrow> interconnect \<Rightarrow> (u64 \<times> interconnect) access" where
  "bus_read t w pa b = (case w of
     W_Nop \<Rightarrow> Value (0, b)
   | W_Byte \<Rightarrow> of_outcome (map_outcome (map_prod ucast id) (ic_read_u8 t pa b))
   | W_Half \<Rightarrow> of_outcome (map_outcome (map_prod ucast id) (ic_read_u16 t pa b))
   | W_Word \<Rightarrow> of_outcome (map_outcome (map_prod ucast id) (ic_read_u32 t pa b))
   | W_Double \<Rightarrow> of_outcome (ic_read_u64 t pa b))"

definition sign_extend :: "mem_width \<Rightarrow> u64 \<Rightarrow> u64" where
  "sign_extend w v = (case w of W_Byte \<Rightarrow> scast (ucast v :: u8) | W_Half \<Rightarrow> scast (ucast v :: u16) | W_Word \<Rightarrow> scast (ucast v :: u32) | _ \<Rightarrow> v)"

definition nan_box :: "control_signals \<Rightarrow> u64 \<Rightarrow> u64" where
  "nan_box c v = (if cs_fp_reg_write c \<and> cs_width c = W_Word then v OR 0xFFFFFFFF00000000 else v)"

definition extend_load :: "control_signals \<Rightarrow> u64 \<Rightarrow> u64" where
  "extend_load c v = nan_box c (if cs_signed_load c then sign_extend (cs_width c) v else v)"

datatype m2_action = M2_Push mem2_wb_entry | M2_Stop mem2_wb_entry | M2_Stall

record m2_state =
  st_bus :: interconnect
  st_store_buffer :: store_buffer
  st_load_queue :: "load_queue option"
  st_violation :: "(rob_tag \<times> u64) option"

definition to_wb :: "mem1_mem2_entry \<Rightarrow> u64 \<Rightarrow> trap option \<Rightarrow> exception_stage option \<Rightarrow> lr_sc_record option \<Rightarrow> mem2_wb_entry" where
  "to_wb m ld tr st lr = \<lparr> wb_rob_tag = m2_rob_tag m, wb_pc = m2_pc m, wb_inst = m2_inst m, wb_inst_size = m2_inst_size m, wb_rd = m2_rd m,
     wb_rd_phys = m2_rd_phys m, wb_alu = m2_alu m, wb_load_data = ld, wb_ctrl = m2_ctrl m, wb_trap = tr, wb_exception_stage = st,
     wb_fp_flags = m2_fp_flags m, wb_pte_update = m2_pte_update m, wb_sfence_vma = m2_sfence_vma m, wb_lr_sc = lr \<rparr>"

definition record_violation :: "mem1_mem2_entry \<Rightarrow> m2_state \<Rightarrow> m2_state" where
  "record_violation m s = (case st_load_queue s of
     None \<Rightarrow> s
   | Some lq \<Rightarrow> (case lq_check_ordering_violation lq (m2_paddr m) (cs_width (m2_ctrl m)) (m2_rob_tag m) of
       None \<Rightarrow> s
     | Some t \<Rightarrow> (case st_violation s of
         None \<Rightarrow> s\<lparr> st_violation := Some (t, m2_pc m) \<rparr>
       | Some (prev, _) \<Rightarrow> if is_older_than t prev then s\<lparr> st_violation := Some (t, m2_pc m) \<rparr> else s)))"

definition resolve_store :: "mem1_mem2_entry \<Rightarrow> u64 \<Rightarrow> m2_state \<Rightarrow> m2_state" where
  "resolve_store m data s = record_violation m (s\<lparr> st_store_buffer := sb_resolve (m2_rob_tag m) (m2_vaddr m) (m2_paddr m) data (st_store_buffer s) \<rparr>)"

text \<open>The atomic operations read through the bus, word accesses sign-extended.\<close>

definition atomic_read :: "u64 \<Rightarrow> mem1_mem2_entry \<Rightarrow> m2_state \<Rightarrow> (u64 \<times> m2_state) access" where
  "atomic_read t m s = (let w = cs_width (m2_ctrl m) in
     if w \<in> {W_Word, W_Double} then
       (case bus_read t w (m2_paddr m) (st_bus s) of
          Value (v, b) \<Rightarrow> Value (sign_extend w v, s\<lparr> st_bus := b \<rparr>) | Undefined \<Rightarrow> Undefined | Stopped \<Rightarrow> Stopped)
     else Value (0, s))"

definition memory2_atomic :: "u64 \<Rightarrow> mem1_mem2_entry \<Rightarrow> m2_state \<Rightarrow> (m2_action \<times> m2_state) access" where
  "memory2_atomic t m s = (let op = cs_atomic_op (m2_ctrl m); w = cs_width (m2_ctrl m) in
     if op = At_Sc then Value (M2_Push (to_wb m 0 None None (Some (ScRecord (m2_paddr m)))), resolve_store m (m2_store_data m) s)
     else if sb_has_older_store_to (st_store_buffer s) (m2_paddr m) w (m2_rob_tag m) then Value (M2_Stall, s)
     else (case atomic_read t m s of
         Undefined \<Rightarrow> Undefined | Stopped \<Rightarrow> Stopped
       | Value (v, s1) \<Rightarrow>
          if op = At_Lr then Value (M2_Push (to_wb m v None None (Some (LrRecord (m2_paddr m)))), s1)
          else Value (M2_Push (to_wb m v None None None), resolve_store m (atomic_alu op v (m2_store_data m) w) s1)))"

definition read_memory :: "u64 \<Rightarrow> u64 \<Rightarrow> u64 \<Rightarrow> mem1_mem2_entry \<Rightarrow> m2_state \<Rightarrow> (u64 \<times> m2_state) access" where
  "read_memory t ram_start ram_end m s = (let w = cs_width (m2_ctrl m); pa = m2_paddr m in
     if ram_start \<le> pa \<and> pa < ram_end then
       (if w = W_Nop then Value (0, s)
        else case ram_ptr_read (pa - ram_start) (width_to_bytes w) (ic_ram (st_bus s)) of
          Value v \<Rightarrow> Value (v, s) | Undefined \<Rightarrow> Undefined | Stopped \<Rightarrow> Stopped)
     else (case bus_read t w pa (st_bus s) of
          Value (v, b) \<Rightarrow> Value (v, s\<lparr> st_bus := b \<rparr>) | Undefined \<Rightarrow> Undefined | Stopped \<Rightarrow> Stopped))"

definition finish_load :: "mem1_mem2_entry \<Rightarrow> u64 \<Rightarrow> m2_state \<Rightarrow> (m2_action \<times> m2_state) access" where
  "finish_load m ld s = Value (M2_Push (to_wb m ld None None None), s\<lparr> st_load_queue := map_option (lq_fill_data (m2_rob_tag m) ld) (st_load_queue s) \<rparr>)"

definition memory2_load :: "u64 \<Rightarrow> u64 \<Rightarrow> u64 \<Rightarrow> mem1_mem2_entry \<Rightarrow> m2_state \<Rightarrow> (m2_action \<times> m2_state) access" where
  "memory2_load t ram_start ram_end m s =
    (case sb_forward_load (st_store_buffer s) (m2_paddr m) (cs_width (m2_ctrl m)) (m2_rob_tag m) of
       Hit v \<Rightarrow> finish_load m (extend_load (m2_ctrl m) v) s
     | Stall \<Rightarrow> Value (M2_Stall, s)
     | Miss \<Rightarrow> (case read_memory t ram_start ram_end m s of
         Value (v, s1) \<Rightarrow> finish_load m (extend_load (m2_ctrl m) v) s1 | Undefined \<Rightarrow> Undefined | Stopped \<Rightarrow> Stopped))"

definition memory2_one :: "u64 \<Rightarrow> u64 \<Rightarrow> u64 \<Rightarrow> mem1_mem2_entry \<Rightarrow> m2_state \<Rightarrow> (m2_action \<times> m2_state) access" where
  "memory2_one t ram_start ram_end m s =
    (if m2_trap m \<noteq> None then Value (M2_Stop (to_wb m 0 (m2_trap m) (m2_exception_stage m) None), s)
     else if cs_atomic_op (m2_ctrl m) \<noteq> At_None then memory2_atomic t m s
     else if cs_mem_read (m2_ctrl m) then memory2_load t ram_start ram_end m s
     else if cs_mem_write (m2_ctrl m) then Value (M2_Push (to_wb m 0 None None None), resolve_store m (m2_store_data m) s)
     else Value (M2_Push (to_wb m 0 None None None), s))"

fun memory2_loop :: "u64 \<Rightarrow> u64 \<Rightarrow> u64 \<Rightarrow> mem1_mem2_entry list \<Rightarrow> mem2_wb_entry list \<Rightarrow> m2_state
    \<Rightarrow> (mem1_mem2_entry list \<times> mem2_wb_entry list \<times> m2_state) access" where
  "memory2_loop t rs re [] outs s = Value ([], outs, s)"
| "memory2_loop t rs re (m # ms) outs s =
    (case memory2_one t rs re m s of
       Undefined \<Rightarrow> Undefined | Stopped \<Rightarrow> Stopped
     | Value (M2_Push w, s1) \<Rightarrow> memory2_loop t rs re ms (outs @ [w]) s1
     | Value (M2_Stop w, s1) \<Rightarrow> Value (ms, outs @ [w], s1)
     | Value (M2_Stall, s1) \<Rightarrow> Value (m # ms, outs, s1))"

text \<open>The output latch is cleared and the input sorted by the raw tag.\<close>

definition memory2_stage :: "u64 \<Rightarrow> u64 \<Rightarrow> u64 \<Rightarrow> mem1_mem2_entry list \<Rightarrow> m2_state
    \<Rightarrow> (mem1_mem2_entry list \<times> mem2_wb_entry list \<times> m2_state) access" where
  "memory2_stage t ram_start ram_end input s = memory2_loop t ram_start ram_end (sort_key m2_rob_tag input) [] (s\<lparr> st_violation := None \<rparr>)"

subsection \<open>Writeback\<close>

definition wb_value :: "mem2_wb_entry \<Rightarrow> u64" where
  "wb_value w = (if cs_mem_read (wb_ctrl w) then wb_load_data w
     else if cs_control_flow (wb_ctrl w) = CF_Jump then wb_pc w + inst_size_as_u64 (wb_inst_size w) else wb_alu w)"

definition opt_update :: "('a \<Rightarrow> rob \<Rightarrow> rob) \<Rightarrow> 'a option \<Rightarrow> rob \<Rightarrow> rob" where
  "opt_update f x r = (case x of None \<Rightarrow> r | Some v \<Rightarrow> f v r)"

definition writeback_one :: "mem2_wb_entry \<Rightarrow> rob \<Rightarrow> rob" where
  "writeback_one w r = (let t = wb_rob_tag w in
     case wb_trap w of
       Some trp \<Rightarrow> rob_fault t trp (case wb_exception_stage w of None \<Rightarrow> Stage_Memory | Some st \<Rightarrow> st) r
     | None \<Rightarrow> rob_complete t (wb_value w) (opt_update (rob_set_lr_sc t) (wb_lr_sc w) (opt_update (rob_set_sfence_vma t) (wb_sfence_vma w)
         (opt_update (rob_set_pte_update t) (wb_pte_update w) (if wb_fp_flags w \<noteq> 0 then rob_set_fp_flags t (wb_fp_flags w) r else r)))))"

definition writeback_stage :: "mem2_wb_entry list \<Rightarrow> rob \<Rightarrow> rob" where
  "writeback_stage ws r = fold writeback_one ws r"

subsection \<open>No instruction is lost\<close>

definition parked_tag :: "mem1_mem2_entry mshr_waiter \<Rightarrow> rob_tag multiset" where
  "parked_tag w = (case mw_parked_entry w of None \<Rightarrow> {#} | Some e \<Rightarrow> {#m2_rob_tag e#})"

definition parked_tags :: "mem_unit \<Rightarrow> rob_tag multiset" where
  "parked_tags u = (\<Sum>(l, w) \<in># parked (mu_l1d_mshrs u). parked_tag w)"

lemma mu_parked_tags: "parked (mu_l1d_mshrs u') = add_mset (l, w) (parked (mu_l1d_mshrs u)) \<Longrightarrow> parked_tags u' = parked_tag w + parked_tags u"
  by (simp add: parked_tags_def)

lemma parked_tags_same: "mu_l1d_mshrs u' = mu_l1d_mshrs u \<Longrightarrow> parked_tags u' = parked_tags u"
  by (simp add: parked_tags_def)

text \<open>The instruction of an entry goes into the output, into a miss register, or stays.\<close>

fun action_tags :: "m1_action \<Rightarrow> rob_tag multiset" where
  "action_tags (M1_Push e) = {#m2_rob_tag e#}"
| "action_tags (M1_Stop e) = {#m2_rob_tag e#}"
| "action_tags (M1_Park r) = {#}"
| "action_tags M1_Retry = {#}"

definition conserves :: "ex_mem1_entry \<Rightarrow> mem_unit \<Rightarrow> m1_action \<Rightarrow> mem_unit \<Rightarrow> bool" where
  "conserves ex u act u' \<longleftrightarrow> mshr_ok (mu_l1d_mshrs u')
     \<and> action_tags act + parked_tags u' = (if act = M1_Retry then {#} else {#xm_rob_tag ex#}) + parked_tags u"

lemma to_mem2_tag [simp]: "m2_rob_tag (to_mem2 ex va pa tr st cy pte) = xm_rob_tag ex"
  by (simp add: to_mem2_def)

lemma memory1_cache_conserves:
  assumes "mshr_ok (mu_l1d_mshrs u)" "memory1_cache now ex pa pte lat u = Some (act, u')"
  shows "conserves ex u act u'"
proof -
  let ?f = "mu_l1d_mshrs u"
  have push: "conserves ex u (M1_Push (to_mem2 ex va pa tr st cy pte')) (u\<lparr> mu_hierarchy := h \<rparr>)" for va tr st cy pte' h
    using assms(1) by (simp add: conserves_def parked_tags_def)
  show ?thesis
  proof (cases "mu_cache_base u \<le> pa \<and> 0 < capacity ?f")
    case False
    then show ?thesis using assms push [of _ _ _ _ _ "mu_hierarchy u"]
      by (auto simp: memory1_cache_def Let_def push split: if_splits)
  next
    case True
    obtain hit c1 where c: "access_check pa (cs_mem_write (xm_ctrl ex)) (hy_l1d (mu_hierarchy u)) = (hit, c1)" by force
    have req: "mshr_ok f \<and> (if resp = Mshr_Full then f = ?f else parked f = add_mset (line_align pa ?f, w) (parked ?f))"
      if "mshr_request pa wr miss now w ?f = (resp, f)" for wr miss w resp f
      using mshr_request_spec [OF assms(1) that] by (auto split: if_splits)
    show ?thesis using assms True c push req
      by (auto simp: memory1_cache_def Let_def conserves_def parked_tags_def parked_tag_def split: if_splits option.splits prod.splits)
        (auto dest!: req split: if_splits)
  qed
qed

lemma memory1_one_conserves:
  assumes "mshr_ok (mu_l1d_mshrs u)" "memory1_one now ex lq u = Some (act, lq', u')"
  shows "conserves ex u act u'"
proof -
  obtain va sz wr where v: "va = xm_alu ex" "sz = (of_nat (width_to_bytes (cs_width (xm_ctrl ex))) :: u64)" "wr = cs_mem_write (xm_ctrl ex)" by simp
  obtain tr s where t: "cpu_translate (\<lambda>a. is_valid_address a (mu_bus u)) va (if wr then Acc_Write else Acc_Read) sz (mu_cpu u) = (tr, s)" by force
  have here: "conserves ex u act (u\<lparr> mu_cpu := s' \<rparr>)" if "action_tags act = {#xm_rob_tag ex#}" for act s'
    using assms(1) that by (auto simp: conserves_def parked_tags_def)
  have cache: "conserves ex u act u'" if "memory1_cache now ex pa pte lat (u\<lparr> mu_cpu := s \<rparr>) = Some (act, u')" for pa pte lat
    using memory1_cache_conserves [OF _ that] assms(1) by (simp add: conserves_def parked_tags_def)
  have "conserves ex u act u" if "action_tags act = {#xm_rob_tag ex#}" for act using here [OF that, of "mu_cpu u"] by simp
  then show ?thesis using assms(2) here cache t
    by (auto simp: memory1_one_def Let_def mem_fault_def v split: if_splits option.splits)
qed

lemma memory1_loop_conserves:
  assumes "mshr_ok (mu_l1d_mshrs u)" "memory1_loop now exs lq u outs cancelled = Some (rest, outs', cancelled', lq', u')"
  shows "\<exists>done new. exs = done @ rest \<and> outs' = outs @ new \<and> mshr_ok (mu_l1d_mshrs u')
    \<and> mset (map m2_rob_tag new) + parked_tags u' = mset (map xm_rob_tag done) + parked_tags u"
  using assms
proof (induction exs arbitrary: lq u outs cancelled)
  case (Cons ex exs)
  obtain act lq1 u1 where o: "memory1_one now ex lq u = Some (act, lq1, u1)" using Cons.prems(2) by (auto split: option.splits)
  note k = memory1_one_conserves [OF Cons.prems(1) o, unfolded conserves_def]
  show ?case
  proof (cases act)
    case (M1_Push e)
    with Cons.prems(2) o have "memory1_loop now exs lq1 u1 (outs @ [e]) cancelled = Some (rest, outs', cancelled', lq', u')" by simp
    from Cons.IH [OF _ this] k obtain "done" new where "exs = done @ rest" "outs' = (outs @ [e]) @ new" "mshr_ok (mu_l1d_mshrs u')"
      "mset (map m2_rob_tag new) + parked_tags u' = mset (map xm_rob_tag done) + parked_tags u1" by blast
    with k M1_Push show ?thesis by (intro exI [of _ "ex # done"] exI [of _ "e # new"]) auto
  next
    case (M1_Stop e)
    with Cons.prems(2) o k show ?thesis by (intro exI [of _ "[ex]"] exI [of _ "[e]"]) auto
  next
    case (M1_Park r)
    with Cons.prems(2) o have "memory1_loop now exs lq1 u1 outs (cancelled @ [r]) = Some (rest, outs', cancelled', lq', u')" by simp
    from Cons.IH [OF _ this] k obtain "done" new where "exs = done @ rest" "outs' = outs @ new" "mshr_ok (mu_l1d_mshrs u')"
      "mset (map m2_rob_tag new) + parked_tags u' = mset (map xm_rob_tag done) + parked_tags u1" by blast
    with k M1_Park show ?thesis by (intro exI [of _ "ex # done"] exI [of _ new]) auto
  next
    case M1_Retry
    with Cons.prems(2) o k show ?thesis by (intro exI [of _ "[]"]) auto
  qed
qed auto

lemma drain_mshr_conserves:
  assumes "mshr_ok (mu_l1d_mshrs u)" "drain_mshr_completions now latch u = (latch', u')"
  shows "\<exists>new. latch' = latch @ new \<and> mshr_ok (mu_l1d_mshrs u') \<and> parked_tags u = mset (map m2_rob_tag new) + parked_tags u'"
proof (cases "capacity (mu_l1d_mshrs u) = 0")
  case True
  then show ?thesis using assms by (auto simp: drain_mshr_completions_def)
next
  case False
  obtain es f where d: "drain_completions now (mu_l1d_mshrs u) = (es, f)" by force
  note sp = drain_completions_spec [OF assms(1) d]
  have r: "latch' = latch @ concat (map (resumed now) es)" "mu_l1d_mshrs u' = f" using assms(2) False d by (auto simp: drain_mshr_completions_def)
  have "(\<Sum>(l, w) \<in># entry_waiters e. parked_tag w) = mset (map m2_rob_tag (resumed now e))" if "ms_valid e" for e
  proof -
    have "(\<Sum>x \<in># image_mset (Pair (ms_line_addr e)) (mset ws). case x of (l, w) \<Rightarrow> parked_tag w)
        = mset (map m2_rob_tag (map (\<lambda>p. p\<lparr> m2_complete_cycle := now \<rparr>) (List.map_filter mw_parked_entry ws)))" for ws
      by (induction ws) (auto simp: parked_tag_def List.map_filter_simps split: option.splits)
    then show ?thesis using that by (simp add: entry_waiters_def resumed_def)
  qed
  moreover have "\<forall>e \<in> set es. ms_valid e" using sp by blast
  ultimately have "(\<Sum>(l, w) \<in># (\<Sum>e \<leftarrow> es. entry_waiters e). parked_tag w) = mset (map m2_rob_tag (concat (map (resumed now) es)))"
    by (induction es) auto
  then show ?thesis using sp by (auto simp: r parked_tags_def)
qed

lemma memory2_one_tag:
  "memory2_one t rs re m s = Value (M2_Push w, s') \<Longrightarrow> wb_rob_tag w = m2_rob_tag m"
  "memory2_one t rs re m s = Value (M2_Stop w, s') \<Longrightarrow> wb_rob_tag w = m2_rob_tag m"
  by (auto simp: memory2_one_def memory2_atomic_def memory2_load_def finish_load_def to_wb_def Let_def
      split: if_splits access.splits forward_result.splits prod.splits)

lemma memory2_loop_order: "memory2_loop t rs re ms outs s = Value (rest, outs', s')
  \<Longrightarrow> \<exists>new. outs' = outs @ new \<and> map wb_rob_tag new @ map m2_rob_tag rest = map m2_rob_tag ms"
proof (induction ms arbitrary: outs s)
  case (Cons m ms)
  then obtain act s1 where o: "memory2_one t rs re m s = Value (act, s1)" by (auto split: access.splits)
  show ?case
  proof (cases act)
    case (M2_Push w)
    with Cons.prems o have "memory2_loop t rs re ms (outs @ [w]) s1 = Value (rest, outs', s')" by simp
    from Cons.IH [OF this] memory2_one_tag(1) [of t rs re m s w s1] o M2_Push show ?thesis by auto
  qed (use Cons.prems o memory2_one_tag(2) [of t rs re m s _ s1] in auto)
qed auto

end
