(* ===== verification/Soc.thy ===== *)
theory Soc
  imports Bus
begin

text \<open>
  What the system-on-chip as a whole promises: the bus stays well-formed under every access and tick, an access reaches the
  same device whatever was accessed before, accesses to main memory behave as the flat byte memory that the processor theories
  use, and the interrupt lines follow the devices.
\<close>

subsection \<open>Reachable states\<close>

inductive bus_reach :: "interconnect \<Rightarrow> interconnect \<Rightarrow> bool" for b :: interconnect where
  start: "bus_reach b b"
| read8: "bus_reach b c \<Longrightarrow> ic_read_u8 time raw c = Done (v, d) \<Longrightarrow> bus_reach b d"
| read16: "bus_reach b c \<Longrightarrow> ic_read_u16 time raw c = Done (v, d) \<Longrightarrow> bus_reach b d"
| read32: "bus_reach b c \<Longrightarrow> ic_read_u32 time raw c = Done (v, d) \<Longrightarrow> bus_reach b d"
| read64: "bus_reach b c \<Longrightarrow> ic_read_u64 time raw c = Done (v, d) \<Longrightarrow> bus_reach b d"
| write8: "bus_reach b c \<Longrightarrow> ic_write_u8 raw v c = Done d \<Longrightarrow> bus_reach b d"
| write16: "bus_reach b c \<Longrightarrow> ic_write_u16 raw v c = Done d \<Longrightarrow> bus_reach b d"
| write32: "bus_reach b c \<Longrightarrow> ic_write_u32 raw v c = Done d \<Longrightarrow> bus_reach b d"
| write64: "bus_reach b c \<Longrightarrow> ic_write_u64 raw v c = Done d \<Longrightarrow> bus_reach b d"
| load: "bus_reach b c \<Longrightarrow> load_binary_at data addr c = Done d \<Longrightarrow> bus_reach b d"
| tick: "bus_reach b c \<Longrightarrow> bus_reach b (fst (ic_tick received c))"

lemma load_binary_at_ok:
  assumes "ic_ok b" "load_binary_at data addr b = Done b'"
  shows "ic_ok b'"
proof (cases "find_device addr b")
  case None
  with assms show ?thesis by (simp add: load_binary_at_def load_bytes_ok)
next
  case (Some x)
  then obtain i off where x: "x = (i, off, b\<lparr> ic_last_device_idx := i \<rparr>)" by (auto simp: find_device_def)
  let ?b = "b\<lparr> ic_last_device_idx := i \<rparr>"
  have b: "ic_ok ?b" using assms(1) by (simp add: ic_ok_def)
  show ?thesis
  proof (cases "off + of_nat (length data) \<le> snd (address_range (length (ic_ram b)) (ic_devices b ! i))")
    case True
    let ?s = "(ic_devices b ! i, ic_ram b, ic_exit_request b)"
    obtain d ram ex where d: "dev_write_bytes off data ?s = Done (d, ram, ex)" "b' = dev_update i (d, ram, ex) ?b"
      using assms(2) Some x True by (cases "dev_write_bytes off data ?s") (auto simp: load_binary_at_def)
    have "same_state ?s (d, ram, ex)" using d(1) by (rule dev_write_bytes_same)
    then have "ic_ok (b\<lparr> ic_last_device_idx := i, ic_devices := (ic_devices b)[i := d], ic_ram := ram, ic_exit_request := ex \<rparr>)"
      using assms(1) by (intro same_devs_ic_ok same_dev_update) (auto simp: same_state_def)
    with d(2) show ?thesis by (simp add: dev_update_def)
  next
    case False
    with assms(2) Some x b show ?thesis by (auto simp: load_binary_at_def intro: load_bytes_ok)
  qed
qed

lemma reads_ok:
  "ic_ok b \<Longrightarrow> ic_read_u8 t raw b = Done (v8, d) \<Longrightarrow> ic_ok d" "ic_ok b \<Longrightarrow> ic_read_u16 t raw b = Done (v16, d) \<Longrightarrow> ic_ok d"
  "ic_ok b \<Longrightarrow> ic_read_u32 t raw b = Done (v32, d) \<Longrightarrow> ic_ok d" "ic_ok b \<Longrightarrow> ic_read_u64 t raw b = Done (v64, d) \<Longrightarrow> ic_ok d"
  unfolding ic_read_u8_def ic_read_u16_def ic_read_u32_def ic_read_u64_def by (erule (1) ic_read_ok, erule dev_reads_same)+

lemma writes_ok:
  "ic_ok b \<Longrightarrow> ic_write_u8 raw v8 b = Done d \<Longrightarrow> ic_ok d" "ic_ok b \<Longrightarrow> ic_write_u16 raw v16 b = Done d \<Longrightarrow> ic_ok d"
  "ic_ok b \<Longrightarrow> ic_write_u32 raw v32 b = Done d \<Longrightarrow> ic_ok d" "ic_ok b \<Longrightarrow> ic_write_u64 raw v64 b = Done d \<Longrightarrow> ic_ok d"
  unfolding ic_write_u8_def ic_write_u16_def ic_write_u32_def ic_write_u64_def by (erule (1) ic_write_ok, use dev_writes_same in blast)+

text \<open>A bus that starts well-formed stays well-formed, whatever the program and the host do.\<close>

lemma bus_reach_ok:
  assumes "ic_ok b" "bus_reach b c"
  shows "ic_ok c"
  using assms(2)
proof (induction rule: bus_reach.induct)
  case start
  show ?case by (rule assms(1))
next
  case (load c data addr d)
  then show ?case by (blast intro: load_binary_at_ok)
qed (blast intro: reads_ok writes_ok ic_tick_ok)+

subsection \<open>Routing\<close>

text \<open>Where an address belongs, without hints: the host-target interface if it has the address, else the device that
  does.\<close>

definition route :: "interconnect \<Rightarrow> u64 \<Rightarrow> nat option" where
  "route b raw = (case position (\<lambda>d. is_htif d \<and> contains b raw d) (ic_devices b) of
     Some i \<Rightarrow> Some i | None \<Rightarrow> position (\<lambda>d. \<not> is_htif d \<and> contains b raw d) (ic_devices b))"

lemma range_apart_disjoint: "range_apart r q \<Longrightarrow> in_range a r \<Longrightarrow> \<not> in_range a q"
  by (auto simp: range_apart_def in_range_def)

lemma contains_unique:
  assumes "ic_ok b" "i < length (ic_devices b)" "j < length (ic_devices b)" "contains b raw (ic_devices b ! i)" "contains b raw (ic_devices b ! j)"
    "is_htif (ic_devices b ! i) = is_htif (ic_devices b ! j)"
  shows "j = i"
proof (rule ccontr)
  assume "j \<noteq> i"
  with assms have "range_apart (address_range (length (ic_ram b)) (ic_devices b ! i)) (address_range (length (ic_ram b)) (ic_devices b ! j))"
    by (auto simp: ic_ok_def ranges_ok_def)
  with assms(4,5) show False by (auto simp: contains_def dest: range_apart_disjoint)
qed

lemma htif_index:
  assumes "ic_ok b" "i < length (ic_devices b)" "is_htif (ic_devices b ! i)"
  shows "ic_htif_idx b = Some i"
  using assms unfolding ic_ok_def is_htif_def [symmetric]
  by (auto simp: ranges_ok_def intro!: position_unique)

lemma find_index_route:
  assumes "ic_ok b"
  shows "find_index raw b = route b raw"
proof (cases "hit_at b raw (ic_htif_idx b)")
  case True
  then obtain i where i: "ic_htif_idx b = Some i" "contains b raw (ic_devices b ! i)" by (auto simp: hit_at_def split: option.splits)
  have "position (\<lambda>d. device_name d = ''HTIF'') (ic_devices b) = Some i" using i(1) assms by (simp add: ic_ok_def)
  then have "i < length (ic_devices b)" "is_htif (ic_devices b ! i)" by (auto simp: position_Some_iff is_htif_def)
  with i assms have "position (\<lambda>d. is_htif d \<and> contains b raw d) (ic_devices b) = Some i"
    by (intro position_unique) (auto dest: htif_index)
  with True i show ?thesis by (simp add: find_index_def route_def)
next
  case False
  then have no: "\<not> contains b raw (ic_devices b ! i)" if "i < length (ic_devices b)" "is_htif (ic_devices b ! i)" for i
    using htif_index [OF assms that] by (auto simp: hit_at_def)
  then have none: "position (\<lambda>d. is_htif d \<and> contains b raw d) (ic_devices b) = None"
    by (auto simp: position_None_iff set_conv_nth)
  have found: "position (\<lambda>d. \<not> is_htif d \<and> contains b raw d) (ic_devices b) = Some i"
    if "i < length (ic_devices b)" "contains b raw (ic_devices b ! i)" for i
    using that no contains_unique [OF assms] by (intro position_unique) metis+
  have eq: "position (contains b raw) (ic_devices b) = position (\<lambda>d. \<not> is_htif d \<and> contains b raw d) (ic_devices b)"
  proof (cases "position (contains b raw) (ic_devices b)")
    case None
    then have "position (\<lambda>d. \<not> is_htif d \<and> contains b raw d) (ic_devices b) = None" by (simp add: position_None_iff)
    with None show ?thesis by simp
  next
    case (Some i)
    then have "i < length (ic_devices b)" "contains b raw (ic_devices b ! i)" by (auto simp: position_Some_iff)
    with Some found show ?thesis by metis
  qed
  have ram: "hit_at b raw (ic_ram_idx b) \<Longrightarrow> ic_ram_idx b = position (\<lambda>d. \<not> is_htif d \<and> contains b raw d) (ic_devices b)"
    using assms found position_Some_iff [of "\<lambda>d. device_name d = ''DRAM''"] by (auto simp: hit_at_def ic_ok_def split: option.splits)
  show ?thesis using False none found ram by (auto simp: find_index_def route_def eq)
qed


text \<open>C30. Routing. On a well-formed bus an access goes to the device that owns the address, the host-target interface before the
  memory it lies in, and the hint of the last device never changes the outcome. After any sequence of accesses, loads and
  ticks the bus is still well-formed, so this holds for every access of a run.\<close>

theorem bus_routes_by_address:
  assumes "ic_ok b" "bus_reach b c"
  shows "ic_ok c
    \<and> find_device raw (c\<lparr> ic_last_device_idx := k \<rparr>)
      = map_option (\<lambda>i. (i, raw - dev_base (length (ic_ram c)) (ic_devices c ! i), c\<lparr> ic_last_device_idx := i \<rparr>)) (route c raw)
    \<and> (case route c raw of Some i \<Rightarrow> i < length (ic_devices c) \<and> contains c raw (ic_devices c ! i)
        | None \<Rightarrow> (\<forall>d \<in> set (ic_devices c). \<not> contains c raw d))"
proof (intro conjI)
  show c: "ic_ok c" using assms by (rule bus_reach_ok)
  have "contains (c\<lparr> ic_last_device_idx := k \<rparr>) = contains c" by (auto simp: contains_def fun_eq_iff)
  then have "route (c\<lparr> ic_last_device_idx := k \<rparr>) raw = route c raw" by (auto simp: route_def split: option.splits)
  moreover have "ic_ok (c\<lparr> ic_last_device_idx := k \<rparr>)" using c by (simp add: ic_ok_def)
  ultimately show "find_device raw (c\<lparr> ic_last_device_idx := k \<rparr>)
      = map_option (\<lambda>i. (i, raw - dev_base (length (ic_ram c)) (ic_devices c ! i), c\<lparr> ic_last_device_idx := i \<rparr>)) (route c raw)"
    by (simp add: find_device_def find_index_route)
  show "case route c raw of Some i \<Rightarrow> i < length (ic_devices c) \<and> contains c raw (ic_devices c ! i)
      | None \<Rightarrow> (\<forall>d \<in> set (ic_devices c). \<not> contains c raw d)"
    by (auto simp: route_def position_Some_iff position_None_iff split: option.splits)
qed

subsection \<open>Main memory\<close>

lemma find_ram:
  assumes "ic_ok b" "i < length (ic_devices b)" "ic_devices b ! i = D_Memory m" "contains b raw (D_Memory m)"
    "\<And>d. d \<in> set (ic_devices b) \<Longrightarrow> is_htif d \<Longrightarrow> \<not> contains b raw d"
  shows "find_device raw b = Some (i, raw - me_base_addr m, b\<lparr> ic_last_device_idx := i \<rparr>)"
proof -
  have h: "\<not> is_htif (D_Memory m)" by (simp add: is_htif_def)
  have "position (\<lambda>d. is_htif d \<and> contains b raw d) (ic_devices b) = None" using assms(5) by (auto simp: position_None_iff)
  moreover have "position (\<lambda>d. \<not> is_htif d \<and> contains b raw d) (ic_devices b) = Some i"
  proof (rule position_unique [OF assms(2)])
    fix j assume "j < length (ic_devices b)" "\<not> is_htif (ic_devices b ! j) \<and> contains b raw (ic_devices b ! j)"
    then show "j = i" using assms(3,4) h by (intro contains_unique [OF assms(1,2)]) auto
  qed (use assms(3,4) h in simp)
  ultimately have "route b raw = Some i" by (simp add: route_def)
  with assms(1,3) show ?thesis by (simp add: find_device_def find_index_route dev_base_def)
qed

text \<open>An access of \<open>n\<close> bytes that lies in main memory and does not start in the host-target interface.\<close>

definition ram_access :: "interconnect \<Rightarrow> memory \<Rightarrow> u64 \<Rightarrow> nat \<Rightarrow> bool" where
  "ram_access b m raw n \<longleftrightarrow> D_Memory m \<in> set (ic_devices b) \<and> length (ic_ram b) < 2 ^ 64 \<and> 0 < n \<and> me_base_addr m \<le> raw
     \<and> unat (raw - me_base_addr m) + n \<le> length (ic_ram b) \<and> list_all (\<lambda>d. is_htif d \<longrightarrow> \<not> contains b raw d) (ic_devices b)"

lemma ram_access_find:
  assumes "ic_ok b" "ram_access b m raw n"
  shows "\<exists>i < length (ic_devices b). ic_devices b ! i = D_Memory m \<and> find_device raw b = Some (i, raw - me_base_addr m, b\<lparr> ic_last_device_idx := i \<rparr>)"
proof -
  obtain i where i: "i < length (ic_devices b)" "ic_devices b ! i = D_Memory m" using assms(2) by (auto simp: ram_access_def in_set_conv_nth)
  have ok: "range_ok (address_range (length (ic_ram b)) (D_Memory m))"
    using assms i by (auto simp: ic_ok_def ranges_ok_def list_all_length)
  have len: "length (ic_ram b) < 2 ^ 64" using assms(2) by (simp add: ram_access_def)
  then have "unat (me_base_addr m) + length (ic_ram b) < 2 ^ 64" using ok by (simp add: range_ok_def unat_of_nat_u64)
  then have "contains b raw (D_Memory m)"
    using assms(2) len by (auto simp: contains_def in_range_def ram_access_def word_less_nat_alt word_le_nat_alt unat_sub unat_word_ariths unat_of_nat_u64)
  with assms i show "\<exists>i < length (ic_devices b). ic_devices b ! i = D_Memory m \<and> find_device raw b = Some (i, raw - me_base_addr m, b\<lparr> ic_last_device_idx := i \<rparr>)"
    by (intro exI [of _ i]) (auto simp: ram_access_def list_all_iff intro!: find_ram)
qed


lemma ucast_from_le_bytes: "LENGTH('a) \<le> 64 \<Longrightarrow> ucast (from_le_bytes bs :: u64) = (from_le_bytes bs :: 'a::len word)"
  by (rule bit_word_eqI) (auto simp: bit_simps bit_from_le_bytes)

lemma to_le_bytes_ucast: "8 * n \<le> LENGTH('a) \<Longrightarrow> LENGTH('a) \<le> 64 \<Longrightarrow> to_le_bytes n (ucast v :: u64) = to_le_bytes n (v :: 'a::len word)"
  unfolding to_le_bytes_def by (intro map_cong refl bit_word_eqI) (auto simp: bit_simps)

lemma ic_read_ram:
  assumes "ic_ok b" "ram_access b m raw n" "n \<le> 8" "LENGTH('a::len) \<le> 64"
    and rd: "\<And>ram off. rd ram off (D_Memory m) = panic_unless (map_option (\<lambda>v :: 'a word. (v, D_Memory m)) (map_option from_le_bytes (read_slice (unat off) n ram)))"
  shows "\<exists>i. ic_read rd raw b = Done (ucast (split_load raw n (ram_view (me_base_addr m) (ic_ram b))), b\<lparr> ic_last_device_idx := i \<rparr>)"
proof -
  obtain i where i: "i < length (ic_devices b)" "ic_devices b ! i = D_Memory m" "find_device raw b = Some (i, raw - me_base_addr m, b\<lparr> ic_last_device_idx := i \<rparr>)"
    using ram_access_find [OF assms(1,2)] by blast
  obtain bs where bs: "read_slice (unat (raw - me_base_addr m)) n (ic_ram b) = Some bs" using assms(2) by (auto simp: ram_access_def read_slice_def)
  have "split_load raw n (ram_view (me_base_addr m) (ic_ram b)) = from_le_bytes bs"
    using assms(2,3) bs by (intro read_slice_split_load) (auto simp: ram_access_def)
  then have "ucast (split_load raw n (ram_view (me_base_addr m) (ic_ram b))) = (from_le_bytes bs :: 'a word)"
    using assms(4) by (simp add: ucast_from_le_bytes)
  moreover have "(ic_devices b)[i := D_Memory m] = ic_devices b" using i(1,2) by (metis list_update_id)
  ultimately show ?thesis using i bs by (intro exI [of _ i]) (simp add: ic_read_def rd panic_unless_def)
qed

lemma ic_write_ram:
  assumes "ic_ok b" "ram_access b m raw n" "8 * n \<le> LENGTH('a::len)" "LENGTH('a) \<le> 64"
    and wr: "\<And>ram off ex. wr off (D_Memory m, ram, ex) = memory_written m ex (write_slice (unat off) (to_le_bytes n (v :: 'a word)) ram)"
  shows "\<exists>b'. ic_write wr raw b = Done b' \<and> ram_view (me_base_addr m) (ic_ram b') = store_bytes raw n (ucast v) (ram_view (me_base_addr m) (ic_ram b))
    \<and> ic_devices b' = ic_devices b \<and> ic_exit_request b' = ic_exit_request b"
proof -
  obtain i where i: "i < length (ic_devices b)" "ic_devices b ! i = D_Memory m" "find_device raw b = Some (i, raw - me_base_addr m, b\<lparr> ic_last_device_idx := i \<rparr>)"
    using ram_access_find [OF assms(1,2)] by blast
  obtain ram' where r: "write_slice (unat (raw - me_base_addr m)) (to_le_bytes n v) (ic_ram b) = Some ram'" using assms(2) by (auto simp: ram_access_def write_slice_def)
  have "ram_view (me_base_addr m) ram' = store_bytes raw n (ucast v) (ram_view (me_base_addr m) (ic_ram b))"
    using assms r to_le_bytes_ucast [of n v] by (intro write_slice_store_bytes) (auto simp: ram_access_def)
  moreover have "(ic_devices b)[i := D_Memory m] = ic_devices b" using i(1,2) by (metis list_update_id)
  ultimately show ?thesis using i r by (simp add: ic_write_def wr memory_written_def panic_unless_def dev_update_def)
qed

lemma buf_u8_slices: "buf_read_u8 off ram = map_option from_le_bytes (read_slice off 1 ram)" "buf_write_u8 off v ram = write_slice off (to_le_bytes 1 v) ram"
proof -
  have "from_le_bytes [x] = x" for x :: u8 by (rule bit_word_eqI) (simp add: bit_from_le_bytes)
  then show "buf_read_u8 off ram = map_option from_le_bytes (read_slice off 1 ram)"
    by (auto simp: buf_read_u8_def read_slice_def Cons_nth_drop_Suc [symmetric] take_Suc_conv_app_nth)
  have "to_le_bytes 1 v = [v]" by (simp add: to_le_bytes_def)
  then show "buf_write_u8 off v ram = write_slice off (to_le_bytes 1 v) ram"
    by (auto simp: buf_write_u8_def write_slice_def overwrite_def upd_conv_take_nth_drop)
qed

text \<open>C29. Main memory seen through the bus is a flat byte memory. Every read that lies in memory returns the little-endian bytes at
  its address, every write changes exactly these bytes and no device, for all four widths: the bus refines the memory that
  page walks, store draining and load forwarding are proved against.\<close>

theorem bus_is_flat_memory:
  fixes b :: interconnect and m :: memory
  assumes "ic_ok b"
  defines "mem \<equiv> ram_view (me_base_addr m) (ic_ram b)"
  shows "(ram_access b m raw 1 \<longrightarrow> (\<exists>i. ic_read_u8 t raw b = Done (ucast (split_load raw 1 mem), b\<lparr> ic_last_device_idx := i \<rparr>)))
    \<and> (ram_access b m raw 2 \<longrightarrow> (\<exists>i. ic_read_u16 t raw b = Done (ucast (split_load raw 2 mem), b\<lparr> ic_last_device_idx := i \<rparr>)))
    \<and> (ram_access b m raw 4 \<longrightarrow> (\<exists>i. ic_read_u32 t raw b = Done (ucast (split_load raw 4 mem), b\<lparr> ic_last_device_idx := i \<rparr>)))
    \<and> (ram_access b m raw 8 \<longrightarrow> (\<exists>i. ic_read_u64 t raw b = Done (bus_read_u64 \<lparr> bus_mem = mem, bus_width_bytes = w, bus_latency_cycles = l \<rparr> raw, b\<lparr> ic_last_device_idx := i \<rparr>)))
    \<and> (ram_access b m raw 1 \<longrightarrow> (\<exists>b'. ic_write_u8 raw v8 b = Done b' \<and> ram_view (me_base_addr m) (ic_ram b') = store_bytes raw 1 (ucast v8) mem \<and> ic_devices b' = ic_devices b))
    \<and> (ram_access b m raw 2 \<longrightarrow> (\<exists>b'. ic_write_u16 raw v16 b = Done b' \<and> ram_view (me_base_addr m) (ic_ram b') = store_bytes raw 2 (ucast v16) mem \<and> ic_devices b' = ic_devices b))
    \<and> (ram_access b m raw 4 \<longrightarrow> (\<exists>b'. ic_write_u32 raw v32 b = Done b' \<and> ram_view (me_base_addr m) (ic_ram b') = store_bytes raw 4 (ucast v32) mem \<and> ic_devices b' = ic_devices b))
    \<and> (ram_access b m raw 8 \<longrightarrow> (\<exists>b'. ic_write_u64 raw v64 b = Done b' \<and> ram_view (me_base_addr m) (ic_ram b') = store_bytes raw 8 v64 mem \<and> ic_devices b' = ic_devices b))"
proof (intro conjI)
  note rd = ic_read_ram [OF assms(1)] and wr = ic_write_ram [OF assms(1)]
  show "ram_access b m raw 1 \<longrightarrow> (\<exists>i. ic_read_u8 t raw b = Done (ucast (split_load raw 1 mem), b\<lparr> ic_last_device_idx := i \<rparr>))"
    unfolding mem_def ic_read_u8_def by (intro impI, rule rd) (simp_all add: memory_read_u8_def buf_u8_slices)
  show "ram_access b m raw 2 \<longrightarrow> (\<exists>i. ic_read_u16 t raw b = Done (ucast (split_load raw 2 mem), b\<lparr> ic_last_device_idx := i \<rparr>))"
    unfolding mem_def ic_read_u16_def by (intro impI, rule rd) (simp_all add: memory_read_u16_def)
  show "ram_access b m raw 4 \<longrightarrow> (\<exists>i. ic_read_u32 t raw b = Done (ucast (split_load raw 4 mem), b\<lparr> ic_last_device_idx := i \<rparr>))"
    unfolding mem_def ic_read_u32_def by (intro impI, rule rd) (simp_all add: memory_read_u32_def)
  show "ram_access b m raw 8 \<longrightarrow> (\<exists>i. ic_read_u64 t raw b = Done (bus_read_u64 \<lparr> bus_mem = mem, bus_width_bytes = w, bus_latency_cycles = l \<rparr> raw, b\<lparr> ic_last_device_idx := i \<rparr>))"
    using rd [where 'a = 64 and n = 8 and rd = "dev_read_u64 t"] unfolding mem_def ic_read_u64_def by (simp add: memory_read_u64_def bus_read_u64_def)
  show "ram_access b m raw 1 \<longrightarrow> (\<exists>b'. ic_write_u8 raw v8 b = Done b' \<and> ram_view (me_base_addr m) (ic_ram b') = store_bytes raw 1 (ucast v8) mem \<and> ic_devices b' = ic_devices b)"
    using wr [where v = v8 and n = 1 and wr = "\<lambda>offset. dev_write_u8 offset v8"] unfolding mem_def ic_write_u8_def by (auto simp: memory_write_u8_def buf_u8_slices)
  show "ram_access b m raw 2 \<longrightarrow> (\<exists>b'. ic_write_u16 raw v16 b = Done b' \<and> ram_view (me_base_addr m) (ic_ram b') = store_bytes raw 2 (ucast v16) mem \<and> ic_devices b' = ic_devices b)"
    using wr [where v = v16 and n = 2 and wr = "\<lambda>offset. dev_write_u16 offset v16"] unfolding mem_def ic_write_u16_def by (auto simp: memory_write_u16_def)
  show "ram_access b m raw 4 \<longrightarrow> (\<exists>b'. ic_write_u32 raw v32 b = Done b' \<and> ram_view (me_base_addr m) (ic_ram b') = store_bytes raw 4 (ucast v32) mem \<and> ic_devices b' = ic_devices b)"
    using wr [where v = v32 and n = 4 and wr = "\<lambda>offset. dev_write_u32 offset v32"] unfolding mem_def ic_write_u32_def by (auto simp: memory_write_u32_def)
  show "ram_access b m raw 8 \<longrightarrow> (\<exists>b'. ic_write_u64 raw v64 b = Done b' \<and> ram_view (me_base_addr m) (ic_ram b') = store_bytes raw 8 v64 mem \<and> ic_devices b' = ic_devices b)"
    using wr [where v = v64 and n = 8 and wr = "\<lambda>offset. dev_write_u64 offset v64"] unfolding mem_def ic_write_u64_def by (auto simp: memory_write_u64_def)
qed

text \<open>An access that starts in memory and passes its end fails the assertion of the buffer and stops the simulator.\<close>

theorem bus_access_over_the_end_panics:
  assumes "ic_ok b" "ram_access b m raw 1" "length (ic_ram b) < unat (raw - me_base_addr m) + 8"
  shows "ic_read_u64 t raw b = Panic" "ic_write_u64 raw v b = Panic"
proof -
  obtain i where i: "i < length (ic_devices b)" "ic_devices b ! i = D_Memory m" "find_device raw b = Some (i, raw - me_base_addr m, b\<lparr> ic_last_device_idx := i \<rparr>)"
    using ram_access_find [OF assms(1,2)] by blast
  with assms(3) show "ic_read_u64 t raw b = Panic" "ic_write_u64 raw v b = Panic"
    by (simp_all add: ic_read_u64_def ic_read_def ic_write_u64_def ic_write_def memory_read_u64_def read_slice_def panic_unless_def
        memory_write_u64_def memory_written_def write_slice_def)
qed


subsection \<open>Interrupt lines\<close>

text \<open>The line of interrupt \<open>i\<close> is up when a device that owns it asks for service.\<close>

definition line_up :: "u8 list \<Rightarrow> device list \<Rightarrow> nat \<Rightarrow> bool" where
  "line_up received ds i \<longleftrightarrow> list_ex (\<lambda>d. device_irq d = Some i \<and> snd (device_tick received d)) ds"

lemma bit_line_mask: "bit (line_mask received ds) i \<longleftrightarrow> i < 64 \<and> line_up received ds i"
proof -
  let ?f = "\<lambda>d m. case device_irq d of Some j \<Rightarrow> if snd (device_tick received d) \<and> j < 64 then m OR push_bit j 1 else m | None \<Rightarrow> m"
  have "bit (fold ?f ds m) i \<longleftrightarrow> bit m i \<or> (i < 64 \<and> line_up received ds i)" for m :: u64
  proof (induction ds arbitrary: m)
    case (Cons d ds)
    have "bit (?f d m) i \<longleftrightarrow> bit m i \<or> (i < 64 \<and> device_irq d = Some i \<and> snd (device_tick received d))"
      by (auto simp: bit_simps split: option.splits)
    then show ?case by (auto simp: Cons.IH line_up_def)
  qed (simp add: line_up_def)
  then show ?thesis by (simp add: line_mask_def)
qed

lemma device_irq_range: "device_irq d = Some i \<Longrightarrow> i \<in> {1, 10, 11}"
  by (cases d) auto

lemma line_up_range: "line_up received ds i \<Longrightarrow> 0 < i \<and> i < 64 \<and> i div 32 = 0 \<and> i mod 32 = i"
  by (auto simp: line_up_def list_ex_iff dest!: device_irq_range)

lemma update_irqs_qualified:
  assumes "plic_ok p" "plic_low p" "ctx < 2"
  shows "plic_qualified ctx (update_irqs m p) i \<longleftrightarrow> 0 < i \<and> i < 64 \<and> bit m i \<and> bit (pl_enables p ! ctx ! (i div 32)) (i mod 32)
    \<and> pl_thresholds p ! ctx < pl_priorities p ! i"
proof -
  have len: "length (pl_pending p) = 32" using assms(1) by (simp add: plic_ok_def)
  have pend: "pl_pending (update_irqs m p) = (pl_pending p)[0 := ucast m, 1 := ucast (drop_bit 32 m)]" by (simp add: update_irqs_def low32)
  have sel: "pl_enables (update_irqs m p) = pl_enables p" "pl_thresholds (update_irqs m p) = pl_thresholds p" "pl_priorities (update_irqs m p) = pl_priorities p"
    by (simp_all add: update_irqs_def)
  consider "i < 32" | "32 \<le> i" "i < 64" | "64 \<le> i" by linarith
  then show ?thesis
  proof cases
    case 1
    then show ?thesis using len by (auto simp: plic_qualified_def pend sel bit_simps)
  next
    case 2
    then have "i div 32 = 1" "i mod 32 + 32 = i" "i mod 32 < 32" by (auto simp: div_if mod_if)
    then show ?thesis using 2 len by (auto simp: plic_qualified_def pend sel bit_simps add.commute)
  next
    case 3
    then have "2 \<le> i div 32" by (auto simp: le_div_geq)
    moreover have "pl_pending p ! k = 0" if "2 \<le> k" "k < 32" for k
    proof -
      obtain j where j: "k = 2 + j" using \<open>2 \<le> k\<close> le_Suc_ex by blast
      then have "drop 2 (pl_pending p) ! j = 0" using assms(2) that len by (auto simp: plic_low_def list_all_length)
      then show ?thesis using j len by simp
    qed
    moreover have "i < 1024 \<Longrightarrow> i div 32 < 32" by auto
    ultimately have "\<not> plic_qualified ctx (update_irqs m p) i" using len by (auto simp: plic_qualified_def pend)
    with 3 show ?thesis by simp
  qed
qed

lemma plic_lines:
  assumes "plic_ok p" "ctx < 2"
  shows "(if ctx = 0 then fst (snd (plic_check_interrupts p)) else snd (snd (plic_check_interrupts p))) \<longleftrightarrow> (\<exists>i. plic_qualified ctx p i)"
  using plic_set_claim_spec(1) [OF assms(1), of 0] plic_set_claim_spec(1) [of "fst (plic_set_claim 0 p)" 1] assms
  by (cases "ctx = 0") (auto simp: plic_check_interrupts_def split_beta plic_set_claim_keeps less_2_cases_iff)

text \<open>C31. The interrupt lines of one tick. The timer line is up when a core-local interruptor has reached its compare value; an external
  line is up for a context exactly when some device asks for service and its interrupt is enabled for the context with a priority above the
  threshold.\<close>

theorem bus_interrupt_lines:
  assumes "ic_ok b" "find_plic (ic_devices b) = Some (k, p)" "ic_tick received b = (b', timer, msip, meip, seip)" "ctx < 2"
  shows "(timer \<longleftrightarrow> (\<exists>c. D_Clint c \<in> set (ic_devices b) \<and> cl_mtimecmp c \<le> cl_mtime (fst (clint_tick c))))
    \<and> ((if ctx = 0 then meip else seip) \<longleftrightarrow> (\<exists>i. line_up received (ic_devices b) i \<and> bit (pl_enables p ! ctx ! 0) i
       \<and> pl_thresholds p ! ctx < pl_priorities p ! i))"
proof (intro conjI)
  let ?ds = "map (fst \<circ> device_tick received) (ic_devices b)" and ?m = "line_mask received (ic_devices b)"
  have k: "k < length (ic_devices b)" "ic_devices b ! k = D_Plic p" "\<And>j. j < k \<Longrightarrow> as_plic (ic_devices b ! j) = None"
    using assms(2) by (auto simp: find_plic_iff)
  have p: "plic_ok p" "plic_low p" using assms(1) k(1,2) by (auto simp: ic_ok_def list_all_length)
  define q where "q = fst (plic_tick p)"
  have q: "plic_ok q" "plic_low q" "pl_enables q = pl_enables p" "pl_thresholds q = pl_thresholds p" "pl_priorities q = pl_priorities p"
    using p plic_check_interrupts_ok [of p] plic_check_interrupts_same [of p]
    by (auto simp: q_def plic_tick_def plic_check_interrupts_def plic_set_claim_def split_beta)
  have "as_plic (fst (device_tick received d)) = None" if "as_plic d = None" for d
    using that by (cases d) (auto simp: as_plic_def map_prod_def split_beta)
  then have find: "find_plic ?ds = Some (k, q)" using k by (auto simp: find_plic_iff q_def map_prod_def split_beta)
  note tick = assms(3) [unfolded ic_tick_def Let_def, simplified, unfolded find, simplified]
  have t: "timer \<longleftrightarrow> list_ex (\<lambda>d. snd (device_tick received d) \<and> device_name d = ''CLINT'') (ic_devices b)"
    "(meip, seip) = snd (plic_check_interrupts (update_irqs ?m q))"
    using tick by (auto split: prod.splits)
  have "snd (device_tick received d) \<and> device_name d = ''CLINT'' \<longleftrightarrow> (\<exists>c. d = D_Clint c \<and> cl_mtimecmp c \<le> cl_mtime (fst (clint_tick c)))" for d
    by (cases d) (auto simp: map_prod_def split_beta clint_tick_def Let_def)
  then show "timer \<longleftrightarrow> (\<exists>c. D_Clint c \<in> set (ic_devices b) \<and> cl_mtimecmp c \<le> cl_mtime (fst (clint_tick c)))"
    unfolding t(1) list_ex_iff by auto
  have "(if ctx = 0 then meip else seip) \<longleftrightarrow> (\<exists>i. plic_qualified ctx (update_irqs ?m q) i)"
    using plic_lines [OF update_irqs_ok [OF q(1)] assms(4), of ?m] fst_conv [of meip seip] snd_conv [of meip seip] unfolding t(2) by (cases "ctx = 0") simp_all
  also have "\<dots> \<longleftrightarrow> (\<exists>i. line_up received (ic_devices b) i \<and> bit (pl_enables p ! ctx ! 0) i \<and> pl_thresholds p ! ctx < pl_priorities p ! i)"
    unfolding update_irqs_qualified [OF q(1,2) assms(4)] q(3-5) bit_line_mask using line_up_range by metis
  finally show "(if ctx = 0 then meip else seip) \<longleftrightarrow> (\<exists>i. line_up received (ic_devices b) i \<and> bit (pl_enables p ! ctx ! 0) i
      \<and> pl_thresholds p ! ctx < pl_priorities p ! i)" .
qed


subsection \<open>A concrete system\<close>

definition demo_config :: soc_config where
  "demo_config = \<lparr> sc_bus_width = 8, sc_bus_latency = 4, sc_ram_base = 0x80000000, sc_ram_size = 64, sc_uart_base = 0x10000000,
     sc_uart_quiet = False, sc_clint_base = 0x02000000, sc_clint_divider = 10, sc_disk_base = 0x90000000, sc_syscon_base = 0x00100000,
     sc_tohost_addr = 0x80000020, sc_controller = Cfg_Simple 100 \<rparr>"

definition demo_bus :: interconnect where
  "demo_bus = sys_bus (system_new demo_config [])"

lemma demo_bus_devices:
  "ic_devices demo_bus = [D_Syscon \<lparr> sy_base_addr = 0x00100000 \<rparr>, D_Rtc \<lparr> rt_base_addr = 0x101000 \<rparr>, D_Clint (clint_new 0x02000000 10),
     D_Plic (plic_new 0x0c000000), D_Uart (uart_new 0x10000000 False), D_Memory \<lparr> me_base_addr = 0x80000000 \<rparr>,
     D_Htif \<lparr> ht_base_addr = 0x80000020 \<rparr>, D_Disk (virtio_new 0x90000000 0x80000000)]"
  "ic_ram demo_bus = replicate 64 0"
  "ic_ram_idx demo_bus = Some 5" "ic_uart_idx demo_bus = Some 4" "ic_htif_idx demo_bus = Some 6" "ic_clint_idx demo_bus = Some 2"
  by (simp_all add: demo_bus_def demo_config_def system_new_def add_device_def ic_new_def dev_base_def Let_def clint_new_def plic_new_def uart_new_def virtio_new_def)

lemma demo_bus_ok: "ic_ok demo_bus"
proof -
  have "list_all dev_ok (ic_devices demo_bus)"
    by (simp add: demo_bus_devices plic_new_ok clint_new_ok) (simp add: plic_low_def plic_new_def list_all_iff)
  moreover have "ranges_ok 64 (ic_devices demo_bus)"
    unfolding ranges_ok_def demo_bus_devices
    by (simp add: range_ok_def range_apart_def is_htif_def All_less_Suc2 clint_new_def plic_new_def uart_new_def virtio_new_def)
  ultimately show ?thesis unfolding ic_ok_def by (simp add: demo_bus_devices)
qed


theorem bus_routes_by_address_witness:
  "ic_ok (fst (ic_tick [] demo_bus)) \<and> map_option fst (find_device 0x80000024 (fst (ic_tick [] demo_bus)\<lparr> ic_last_device_idx := 5 \<rparr>))
     = route (fst (ic_tick [] demo_bus)) 0x80000024"
  using bus_routes_by_address [OF demo_bus_ok bus_reach.tick [OF bus_reach.start]] by (auto simp: option.map_comp comp_def option.map_ident)

lemma demo_ram_access: "ram_access demo_bus \<lparr> me_base_addr = 0x80000000 \<rparr> 0x80000008 n" if "n \<in> {1, 2, 4, 8}"
  using that by (auto simp: ram_access_def demo_bus_devices is_htif_def contains_def in_range_def)

theorem bus_is_flat_memory_witness:
  "ram_access demo_bus \<lparr> me_base_addr = 0x80000000 \<rparr> 0x80000008 4 \<and> (\<exists>b'. ic_write_u32 0x80000008 0xDEADBEEF demo_bus = Done b'
     \<and> ram_view 0x80000000 (ic_ram b') = store_bytes 0x80000008 4 (ucast (0xDEADBEEF :: u32)) (ram_view 0x80000000 (ic_ram demo_bus)))"
proof -
  let ?m = "\<lparr> me_base_addr = 0x80000000 \<rparr>"
  have "ram_access demo_bus ?m 0x80000008 4" by (rule demo_ram_access) simp
  with bus_is_flat_memory [OF demo_bus_ok, of ?m "0x80000008" 0 0 0 0 0 "0xDEADBEEF" 0] show ?thesis by auto
qed

theorem bus_interrupt_lines_witness:
  "\<exists>b' timer msip meip seip. ic_tick [] demo_bus = (b', timer, msip, meip, seip)
     \<and> (seip \<longleftrightarrow> (\<exists>i. line_up [] (ic_devices demo_bus) i \<and> bit (pl_enables (plic_new 0x0c000000) ! 1 ! 0) i
       \<and> pl_thresholds (plic_new 0x0c000000) ! 1 < pl_priorities (plic_new 0x0c000000) ! i))"
proof -
  obtain b' timer msip meip seip where t: "ic_tick [] demo_bus = (b', timer, msip, meip, seip)" by (metis prod.collapse)
  have "find_plic (ic_devices demo_bus) = Some (3, plic_new 0x0c000000)"
    by (simp add: demo_bus_devices find_plic_def as_plic_def)
  from bus_interrupt_lines [OF demo_bus_ok this t, of 1] t show ?thesis by auto
qed

end
