(* ===== verification/MemSpec.thy ===== *)
theory MemSpec
  imports MemStages Soc
begin

text \<open>
  What the memory stages guarantee together. A load that passes the second stage returns the bytes of memory with the older buffered stores applied, and the
  invariant \<open>m2_inv\<close> keeps this true of every load in the load queue while stores resolve and drain out of order with it: a load that a late store would have changed is reported as a violation.
  The stages neither drop nor duplicate an instruction, also when it waits in a miss register.
\<close>

subsection \<open>Executed loads stay current\<close>

text \<open>Two memories that agree on the bytes a load reads.\<close>

definition agree :: "u64 \<Rightarrow> nat \<Rightarrow> byte_mem \<Rightarrow> byte_mem \<Rightarrow> bool" where
  "agree p n m m' \<longleftrightarrow> (\<forall>i < n. m (p + of_nat i) = m' (p + of_nat i))"

lemma agree_load: "n \<le> 8 \<Longrightarrow> agree p n m m' \<Longrightarrow> split_load p n m = split_load p n m'"
  by (rule bit_word_eqI) (auto simp: bit_split_load agree_def)

lemma agree_effect: "agree p n m m' \<Longrightarrow> agree p n (sb_effect e m) (sb_effect e m')"
  by (auto simp: agree_def sb_effect_def store_bytes_at split: store_resolution.splits)

lemma agree_disjoint:
  assumes "no_wrap p n" "no_wrap q k" "k \<le> 8" "\<not> ranges_overlap p n q k"
  shows "agree p n (store_bytes q k d m) m"
  unfolding agree_def
proof (intro allI impI)
  fix i
  assume i: "i < n"
  have "unat (p + of_nat i) = unat p + i" using i by (intro no_wrap_end no_wrap_le [OF assms(1)]) simp
  moreover have "\<not> (unat p < unat q + k \<and> unat q < unat p + n)" using assms(4) by (simp add: ranges_overlap_iff assms(1,2))
  ultimately have "\<not> unat (p + of_nat i - q) < k" using i unfolding in_range_iff [OF assms(2)] by linarith
  then show "store_bytes q k d m (p + of_nat i) = m (p + of_nat i)" by (simp add: store_bytes_at [OF assms(3)])
qed

text \<open>A pending store in the middle of the buffer resolves to a range the load does not read.\<close>

lemma agree_resolved:
  assumes "\<And>e m. e \<in> set es \<Longrightarrow> P e \<Longrightarrow> sb_effect e m = m" "\<And>e m. e \<in> set es \<Longrightarrow> P e \<Longrightarrow> agree p n (sb_effect (f e) m) m" "agree p n m m'"
  shows "agree p n (mem_with (map (\<lambda>e. if P e then f e else e) es) m) (mem_with es m')"
  using assms
proof (induction es arbitrary: m m')
  case (Cons e es)
  have head: "agree p n (sb_effect (if P e then f e else e) m) (sb_effect e m')"
  proof (cases "P e")
    case True
    then show ?thesis using Cons.prems(1) [of e m'] Cons.prems(2) [of e m] Cons.prems(3) by (simp add: agree_def)
  qed (simp add: agree_effect Cons.prems(3))
  have "agree p n (mem_with (map (\<lambda>e. if P e then f e else e) es) (sb_effect (if P e then f e else e) m)) (mem_with es (sb_effect e m'))"
    using Cons.prems(1,2) head by (intro Cons.IH) auto
  then show ?case by (simp only: list.map mem_with_Cons)
qed (simp add: agree_def)

definition view :: "u64 \<Rightarrow> m2_state \<Rightarrow> byte_mem" where
  "view base s = ram_view base (ic_ram (st_bus s))"

definition load_view :: "store_buffer \<Rightarrow> rob_tag \<Rightarrow> phys_addr \<Rightarrow> mem_width \<Rightarrow> byte_mem \<Rightarrow> u64" where
  "load_view b t p w m = split_load p (width_to_bytes w) (mem_with (older_stores t (ring_window b)) m)"

definition in_ram :: "u64 \<Rightarrow> nat \<Rightarrow> phys_addr \<Rightarrow> mem_width \<Rightarrow> bool" where
  "in_ram base len p w \<longleftrightarrow> base \<le> p \<and> unat (p - base) + width_to_bytes w \<le> len \<and> w \<noteq> W_Nop"

text \<open>Every executed load of main memory in \<open>live\<close> holds the bytes it reads through the buffer, extended as its control signals say.\<close>

definition loads_current :: "u64 \<Rightarrow> (rob_tag \<Rightarrow> control_signals) \<Rightarrow> (rob_tag \<Rightarrow> bool) \<Rightarrow> load_queue \<Rightarrow> m2_state \<Rightarrow> bool" where
  "loads_current base ctrl lim q s \<longleftrightarrow> (\<forall>e \<in> set (ring_live lq_valid q). \<forall>p. lq_state e = Ld_Executed \<longrightarrow> lq_paddr e = Some p \<longrightarrow>
     in_ram base (length (ic_ram (st_bus s))) p (lq_width e) \<longrightarrow> lim (lq_rob_tag e) \<longrightarrow>
     lq_data e = extend_load (ctrl (lq_rob_tag e)) (load_view (st_store_buffer s) (lq_rob_tag e) p (lq_width e) (view base s)))"

definition mem_ok :: "u64 \<Rightarrow> u64 \<Rightarrow> m2_state \<Rightarrow> bool" where
  "mem_ok base hi s \<longleftrightarrow> sb_inv (st_store_buffer s) \<and> (\<forall>e \<in> set (ring_window (st_store_buffer s)). sb_no_wrap e)
     \<and> unat base + length (ic_ram (st_bus s)) < 2 ^ 64 \<and> unat hi = unat base + length (ic_ram (st_bus s))"

lemma in_ram_range:
  assumes "mem_ok base hi s" "in_ram base (length (ic_ram (st_bus s))) p w"
  shows "no_wrap p (width_to_bytes w)" "base \<le> p \<and> p < hi"
    "\<exists>bs. read_slice (unat (p - base)) (width_to_bytes w) (ic_ram (st_bus s)) = Some bs
       \<and> split_load p (width_to_bytes w) (view base s) = from_le_bytes bs"
proof -
  let ?r = "ic_ram (st_bus s)" and ?n = "width_to_bytes w"
  have b: "base \<le> p" "unat (p - base) + ?n \<le> length ?r" "0 < ?n" using assms(2) by (cases w; auto simp: in_ram_def)+
  have sub: "unat (p - base) = unat p - unat base" "unat base \<le> unat p" using b(1) by (simp_all add: unat_sub word_le_nat_alt)
  have hi: "unat base + length ?r < 2 ^ 64" using assms(1) by (simp add: mem_ok_def)
  then show "no_wrap p ?n" unfolding no_wrap_def using b sub by linarith
  show "base \<le> p \<and> p < hi" using b sub assms(1) by (auto simp: mem_ok_def word_less_nat_alt)
  have "read_slice (unat (p - base)) ?n ?r \<noteq> None" using b(2) by (simp add: read_slice_def)
  then obtain bs where bs: "read_slice (unat (p - base)) ?n ?r = Some bs" by auto
  have "length ?r \<le> 2 ^ 64" using assms(1) by (simp add: mem_ok_def)
  with bs show "\<exists>bs. read_slice (unat (p - base)) ?n ?r = Some bs \<and> split_load p ?n (view base s) = from_le_bytes bs"
    unfolding view_def using read_slice_split_load [OF bs] by auto
qed

text \<open>A load that completes holds the bytes memory and the older stores give.\<close>

lemma memory2_load_value:
  assumes "mem_ok base hi s" "in_ram base (length (ic_ram (st_bus s))) (m2_paddr m) (cs_width (m2_ctrl m))"
    and "memory2_load t base hi m s = Value (M2_Push w, s')"
  shows "wb_load_data w = extend_load (m2_ctrl m) (load_view (st_store_buffer s) (m2_rob_tag m) (m2_paddr m) (cs_width (m2_ctrl m)) (view base s))
    \<and> s' = s\<lparr> st_load_queue := map_option (lq_fill_data (m2_rob_tag m) (wb_load_data w)) (st_load_queue s) \<rparr>"
proof -
  let ?p = "m2_paddr m" and ?w = "cs_width (m2_ctrl m)"
  note r = in_ram_range [OF assms(1,2)]
  obtain bs where bs: "read_slice (unat (?p - base)) (width_to_bytes ?w) (ic_ram (st_bus s)) = Some bs" "split_load ?p (width_to_bytes ?w) (view base s) = from_le_bytes bs"
    using r(3) by blast
  have nop: "?w \<noteq> W_Nop" using assms(2) by (simp add: in_ram_def)
  have rd: "read_memory t base hi m s = Value (from_le_bytes bs, s)" using r(2) bs(1) nop by (simp add: read_memory_def ram_ptr_read_def Let_def)
  have "sb_inv (st_store_buffer s)" "\<forall>e \<in> set (ring_window (st_store_buffer s)). sb_no_wrap e" using assms(1) by (auto simp: mem_ok_def)
  note f = forward_load_view [OF this(1) r(1) this(2), of "m2_rob_tag m" "view base s"]
  show ?thesis using assms(3) rd f bs(2)
    by (auto simp: memory2_load_def finish_load_def to_wb_def load_view_def split: forward_result.splits)
qed

lemma load_keeps_current:
  assumes "mem_ok base hi s" "in_ram base (length (ic_ram (st_bus s))) (m2_paddr m) (cs_width (m2_ctrl m))"
    and "memory2_load t base hi m s = Value (M2_Push w, s')" "st_load_queue s = Some q" "lq_inv q" "loads_current base ctrl lim q s"
    and "ctrl (m2_rob_tag m) = m2_ctrl m"
    and "\<forall>e \<in> set (ring_live lq_valid q). lq_rob_tag e = m2_rob_tag m \<longrightarrow> lq_paddr e = Some (m2_paddr m) \<and> lq_width e = cs_width (m2_ctrl m)"
  shows "\<exists>q'. st_load_queue s' = Some q' \<and> lq_inv q' \<and> mem_ok base hi s' \<and> loads_current base ctrl lim q' s'"
proof -
  note v = memory2_load_value [OF assms(1-3)]
  let ?q = "lq_fill_data (m2_rob_tag m) (wb_load_data w) q"
  have s': "st_load_queue s' = Some ?q" "st_bus s' = st_bus s" "st_store_buffer s' = st_store_buffer s" using v assms(4) by auto
  have lq: "ring_live lq_valid ?q = map (\<lambda>e. if lq_rob_tag e = m2_rob_tag m then e\<lparr> lq_data := wb_load_data w, lq_state := Ld_Executed \<rparr> else e) (ring_live lq_valid q)"
    "lq_inv ?q" unfolding lq_fill_data_def by (rule lq_update_spec [OF assms(5)]; simp)+
  have "loads_current base ctrl lim ?q s'"
    using assms(6-8) v unfolding loads_current_def lq(1) by (auto simp: s' view_def)
  moreover have "mem_ok base hi s'" using assms(1) by (simp add: mem_ok_def s')
  ultimately show ?thesis using s'(1) lq(2) by blast
qed

text \<open>A store that resolves changes only younger loads that overlap it, and these are reported.\<close>

lemma older_stores_update:
  "(\<And>e. sb_valid (f e) = sb_valid e) \<Longrightarrow> (\<And>e. sb_rob_tag (f e) = sb_rob_tag e)
   \<Longrightarrow> older_stores t (map (\<lambda>e. if sb_rob_tag e = u then f e else e) es) = map (\<lambda>e. if sb_rob_tag e = u then f e else e) (older_stores t es)"
  by (induction es) (auto simp: older_stores_def)

lemma resolve_keeps_load:
  assumes "sb_inv b" "\<forall>e \<in> set (ring_window b). sb_rob_tag e = u \<longrightarrow> sr_is_pending (sb_resolution e) \<and> sb_width e = w"
    and "no_wrap pa (width_to_bytes w)" "no_wrap p (width_to_bytes lw)"
    and "\<not> (is_older_than u t \<and> ranges_overlap p (width_to_bytes lw) pa (width_to_bytes w))"
  shows "load_view (sb_resolve u va pa data b) t p lw m = load_view b t p lw m"
proof -
  let ?f = "\<lambda>e. e\<lparr> sb_vaddr := va, sb_resolution := Sr_Ready pa data \<rparr>"
  let ?old = "older_stores t (ring_window b)"
  have win: "ring_window (sb_resolve u va pa data b) = map (\<lambda>e. if sb_rob_tag e = u then ?f e else e) (ring_window b)"
    unfolding sb_resolve_def by (rule sb_update_inv(2) [OF assms(1)]) simp_all
  have eff: "sb_effect e m' = m'" if "e \<in> set ?old" "sb_rob_tag e = u" for e m'
    using that assms(2) by (auto simp: older_stores_def sb_effect_def split: store_resolution.splits)
  have new: "agree p (width_to_bytes lw) (sb_effect (?f e) m') m'" if "e \<in> set ?old" "sb_rob_tag e = u" for e m'
  proof -
    have "is_older_than u t" "sb_width e = w" using that assms(2) by (auto simp: older_stores_def)
    then show ?thesis using assms(3-5) by (auto simp: sb_effect_def intro!: agree_disjoint)
  qed
  have "older_stores t (ring_window (sb_resolve u va pa data b)) = map (\<lambda>e. if sb_rob_tag e = u then ?f e else e) ?old"
    unfolding win by (rule older_stores_update) simp_all
  moreover have "agree p (width_to_bytes lw) (mem_with (map (\<lambda>e. if sb_rob_tag e = u then ?f e else e) ?old) m) (mem_with ?old m)"
    by (rule agree_resolved [where P = "\<lambda>e. sb_rob_tag e = u" and f = ?f]) (auto simp: eff new agree_def [of _ _ m m])
  ultimately show ?thesis unfolding load_view_def by (simp add: agree_load)
qed

fun before :: "(rob_tag \<times> u64) option \<Rightarrow> rob_tag \<Rightarrow> bool" where
  "before None t = True"
| "before (Some (v, _)) t = is_older_than t v"

definition ages_in :: "rob_tag \<Rightarrow> load_queue \<Rightarrow> m2_state \<Rightarrow> bool" where
  "ages_in now q s \<longleftrightarrow> (\<forall>e \<in> set (ring_window q). tag_age now (lq_rob_tag e) < 2 ^ 31)
     \<and> (case st_violation s of None \<Rightarrow> True | Some (v, _) \<Rightarrow> tag_age now v < 2 ^ 31)"

lemma record_violation_same [simp]:
  "st_bus (record_violation m s) = st_bus s" "st_store_buffer (record_violation m s) = st_store_buffer s" "st_load_queue (record_violation m s) = st_load_queue s"
  by (simp_all add: record_violation_def split: option.splits)

lemma record_violation_before:
  fixes m :: mem1_mem2_entry
  assumes "lq_inv q" "ages_in now q s" "st_load_queue s = Some q"
  defines "bad \<equiv> filter (lq_violates (m2_paddr m) (width_to_bytes (cs_width (m2_ctrl m))) (m2_rob_tag m)) (ring_live lq_valid q)"
  shows "ages_in now q (record_violation m s)
    \<and> (\<forall>e \<in> set (ring_live lq_valid q). before (st_violation (record_violation m s)) (lq_rob_tag e) \<longrightarrow> before (st_violation s) (lq_rob_tag e) \<and> e \<notin> set bad)"
proof -
  have age: "tag_age now (lq_rob_tag e) < 2 ^ 31" if "e \<in> set (ring_live lq_valid q)" for e using that assms(2) by (auto simp: ages_in_def ring_live_def)
  have w: "\<forall>e \<in> set (ring_window q). tag_age now (lq_rob_tag e) < 2 ^ 31" using assms(2) by (simp add: ages_in_def)
  note chk = lq_violation_oldest [OF assms(1) w, of "m2_paddr m" "cs_width (m2_ctrl m)" "m2_rob_tag m", folded bad_def]
  show ?thesis
  proof (cases "lq_check_ordering_violation q (m2_paddr m) (cs_width (m2_ctrl m)) (m2_rob_tag m)")
    case None
    then show ?thesis using chk assms(2,3) by (simp add: record_violation_def)
  next
    case (Some v)
    have vb: "\<exists>e \<in> set (ring_live lq_valid q). lq_rob_tag e = v" and old: "\<And>e. e \<in> set bad \<Longrightarrow> \<not> is_older_than (lq_rob_tag e) v"
      using chk Some by (auto simp: bad_def)
    then have av: "tag_age now v < 2 ^ 31" using age by blast
    show ?thesis
    proof (cases "st_violation s")
      case None
      then show ?thesis using Some assms(2,3) av old by (auto simp: record_violation_def ages_in_def)
    next
      case (Some pv)
      obtain p pc where pv: "pv = (p, pc)" by force
      have ap: "tag_age now p < 2 ^ 31" using assms(2) Some pv by (simp add: ages_in_def)
      note ord = is_older_than_age [where now = now]
      have oa: "tag_age now (lq_rob_tag e) \<le> tag_age now v" if "e \<in> set bad" for e
        using old [OF that] ord [OF age [of e] av] that by (simp add: bad_def)
      show ?thesis
        using \<open>lq_check_ordering_violation q _ _ _ = Some v\<close> Some pv assms(2,3) av ap age
        by (auto simp: record_violation_def ages_in_def ord dest: oa)
    qed
  qed
qed

lemma resolve_keeps_current:
  fixes m :: mem1_mem2_entry and data :: u64
  assumes "mem_ok base hi s" "lq_inv q" "st_load_queue s = Some q" "ages_in now q s" "loads_current base ctrl (before (st_violation s)) q s"
    and "\<forall>e \<in> set (ring_window (st_store_buffer s)). sb_rob_tag e = m2_rob_tag m \<longrightarrow> sr_is_pending (sb_resolution e) \<and> sb_width e = cs_width (m2_ctrl m)"
    and "no_wrap (m2_paddr m) (width_to_bytes (cs_width (m2_ctrl m)))"
  defines "s' \<equiv> resolve_store m data s"
  shows "mem_ok base hi s' \<and> st_load_queue s' = Some q \<and> ages_in now q s' \<and> loads_current base ctrl (before (st_violation s')) q s' \<and> st_bus s' = st_bus s"
proof -
  let ?b = "st_store_buffer s" and ?u = "m2_rob_tag m" and ?p = "m2_paddr m" and ?w = "cs_width (m2_ctrl m)"
  let ?s1 = "s\<lparr> st_store_buffer := sb_resolve ?u (m2_vaddr m) ?p data ?b \<rparr>"
  have s': "s' = record_violation m ?s1" by (simp add: s'_def resolve_store_def)
  have sb: "sb_inv ?b" "\<forall>e \<in> set (ring_window ?b). sb_no_wrap e" using assms(1) by (auto simp: mem_ok_def)
  have win: "sb_inv (sb_resolve ?u (m2_vaddr m) ?p data ?b)"
    "ring_window (sb_resolve ?u (m2_vaddr m) ?p data ?b) = map (\<lambda>e. if sb_rob_tag e = ?u then e\<lparr> sb_vaddr := m2_vaddr m, sb_resolution := Sr_Ready ?p data \<rparr> else e) (ring_window ?b)"
    unfolding sb_resolve_def by (rule sb_update_inv [OF sb(1)]; simp)+
  have ok: "mem_ok base hi s'" using assms(1,6,7) sb win by (auto simp: mem_ok_def s' sb_no_wrap_def)
  have "ages_in now q ?s1" using assms(4) by (simp add: ages_in_def)
  note rv = record_violation_before [OF assms(2) this, of m, folded s']
  have "loads_current base ctrl (before (st_violation s')) q s'"
    unfolding loads_current_def
  proof (intro ballI allI impI)
    fix e p
    assume e: "e \<in> set (ring_live lq_valid q)" "lq_state e = Ld_Executed" "lq_paddr e = Some p" "in_ram base (length (ic_ram (st_bus s'))) p (lq_width e)"
      "before (st_violation s') (lq_rob_tag e)"
    have r: "in_ram base (length (ic_ram (st_bus s))) p (lq_width e)" using e(4) by (simp add: s')
    have b: "before (st_violation s) (lq_rob_tag e)" "\<not> lq_violates ?p (width_to_bytes ?w) ?u e" using rv e(1,5) assms(3) by auto
    have nw: "no_wrap p (width_to_bytes (lq_width e))" using in_ram_range(1) [OF assms(1) r] .
    have "lq_valid e" using e(1) by (simp add: ring_live_def)
    then have "\<not> (is_older_than ?u (lq_rob_tag e) \<and> ranges_overlap p (width_to_bytes (lq_width e)) ?p (width_to_bytes ?w))"
      using b(2) e(2,3) by (simp add: lq_violates_def is_newer_than_def)
    note keep = resolve_keeps_load [OF sb(1) assms(6,7) nw this, of "m2_vaddr m" data "view base s"]
    have "view base s' = view base s" by (simp add: s' view_def)
    then show "lq_data e = extend_load (ctrl (lq_rob_tag e)) (load_view (st_store_buffer s') (lq_rob_tag e) p (lq_width e) (view base s'))"
      using assms(5) e(1-3) r b(1) keep by (simp add: loads_current_def s')
  qed
  with ok rv assms(3) show ?thesis by (simp add: s')
qed

lemma ic_read_ram_same: "ic_read rd raw b = Done (v, b') \<Longrightarrow> ic_ram b' = ic_ram b"
proof -
  assume r: "ic_read rd raw b = Done (v, b')"
  have bind: "bind_outcome x g = Done y \<longleftrightarrow> (\<exists>a. x = Done a \<and> g a = Done y)" for x :: "('a word \<times> device) outcome" and g and y :: "'a word \<times> interconnect" by (cases x) auto
  have f: "find_device raw b = Some (i, off, b1) \<Longrightarrow> ic_ram b1 = ic_ram b" for i off b1 by (auto simp: find_device_def)
  show ?thesis using r
    by (cases "find_device raw b") (auto simp: ic_read_def bind f)
qed

lemma bus_read_ram_same: "bus_read t w p b = Value (v, b') \<Longrightarrow> ic_ram b' = ic_ram b"
proof -
  have o: "of_outcome (map_outcome (map_prod f id) x) = Value (v, b') \<Longrightarrow> \<exists>u. x = Done (u, b')" for f :: "'w::len word \<Rightarrow> u64" and x
    by (cases x) auto
  show "bus_read t w p b = Value (v, b') \<Longrightarrow> ic_ram b' = ic_ram b"
  proof (cases w)
    case W_Double
    assume "bus_read t w p b = Value (v, b')"
    then have "ic_read_u64 t p b = Done (v, b')" using W_Double by (cases "ic_read_u64 t p b") (auto simp: bus_read_def)
    then show ?thesis unfolding ic_read_u64_def by (rule ic_read_ram_same)
  qed (auto simp: bus_read_def ic_read_u8_def ic_read_u16_def ic_read_u32_def dest!: o dest: ic_read_ram_same)
qed

definition m2_inv :: "u64 \<Rightarrow> u64 \<Rightarrow> rob_tag \<Rightarrow> (rob_tag \<Rightarrow> control_signals) \<Rightarrow> load_queue \<Rightarrow> m2_state \<Rightarrow> bool" where
  "m2_inv base hi now ctrl q s \<longleftrightarrow> mem_ok base hi s \<and> lq_inv q \<and> st_load_queue s = Some q \<and> ages_in now q s
     \<and> loads_current base ctrl (before (st_violation s)) q s"

definition store_fits :: "mem1_mem2_entry \<Rightarrow> m2_state \<Rightarrow> bool" where
  "store_fits m s \<longleftrightarrow> no_wrap (m2_paddr m) (width_to_bytes (cs_width (m2_ctrl m))) \<and> (\<forall>e \<in> set (ring_window (st_store_buffer s)).
     sb_rob_tag e = m2_rob_tag m \<longrightarrow> sr_is_pending (sb_resolution e) \<and> sb_width e = cs_width (m2_ctrl m))"

definition load_fits :: "u64 \<Rightarrow> (rob_tag \<Rightarrow> control_signals) \<Rightarrow> mem1_mem2_entry \<Rightarrow> load_queue \<Rightarrow> m2_state \<Rightarrow> bool" where
  "load_fits base ctrl m q s \<longleftrightarrow> in_ram base (length (ic_ram (st_bus s))) (m2_paddr m) (cs_width (m2_ctrl m)) \<and> ctrl (m2_rob_tag m) = m2_ctrl m
     \<and> (\<forall>e \<in> set (ring_live lq_valid q). lq_rob_tag e = m2_rob_tag m \<longrightarrow> lq_paddr e = Some (m2_paddr m) \<and> lq_width e = cs_width (m2_ctrl m))"

text \<open>What the queues know of an instruction when it reaches the stage: a store waits in the buffer without an address, a load of main memory has its address in
  the load queue.\<close>

definition plain_load :: "mem1_mem2_entry \<Rightarrow> bool" where
  "plain_load m \<longleftrightarrow> m2_trap m = None \<and> cs_atomic_op (m2_ctrl m) = At_None \<and> cs_mem_read (m2_ctrl m)"

definition fits :: "u64 \<Rightarrow> (rob_tag \<Rightarrow> control_signals) \<Rightarrow> load_queue \<Rightarrow> m2_state \<Rightarrow> mem1_mem2_entry \<Rightarrow> bool" where
  "fits base ctrl q s m \<longleftrightarrow> m2_trap m \<noteq> None \<or> (if plain_load m then load_fits base ctrl m q s
     else cs_atomic_op (m2_ctrl m) \<notin> {At_None, At_Lr} \<or> cs_atomic_op (m2_ctrl m) = At_None \<and> cs_mem_write (m2_ctrl m) \<longrightarrow> store_fits m s)"

definition untouched :: "rob_tag \<Rightarrow> m2_state \<Rightarrow> load_queue \<Rightarrow> m2_state \<Rightarrow> load_queue \<Rightarrow> bool" where
  "untouched t s q s' q' \<longleftrightarrow> ic_ram (st_bus s') = ic_ram (st_bus s)
     \<and> (\<forall>e \<in> set (ring_window (st_store_buffer s')). sb_rob_tag e \<noteq> t \<longrightarrow> e \<in> set (ring_window (st_store_buffer s)))
     \<and> (\<forall>e' \<in> set (ring_live lq_valid q'). \<exists>e \<in> set (ring_live lq_valid q). lq_rob_tag e = lq_rob_tag e' \<and> lq_paddr e = lq_paddr e' \<and> lq_width e = lq_width e')"

lemma untouched_fits: "untouched t s q s' q' \<Longrightarrow> m2_rob_tag m \<noteq> t \<Longrightarrow> fits base ctrl q s m \<Longrightarrow> fits base ctrl q' s' m"
proof -
  assume u: "untouched t s q s' q'" and t: "m2_rob_tag m \<noteq> t" and f: "fits base ctrl q s m"
  have "load_fits base ctrl m q s \<Longrightarrow> load_fits base ctrl m q' s'" using u by (auto simp: untouched_def load_fits_def)
  moreover have "store_fits m s \<Longrightarrow> store_fits m s'" using u t by (auto simp: untouched_def store_fits_def)
  ultimately show ?thesis using f unfolding fits_def by presburger
qed

lemma untouched_refl: "ic_ram (st_bus s') = ic_ram (st_bus s) \<Longrightarrow> st_store_buffer s' = st_store_buffer s \<Longrightarrow> untouched t s q s' q"
  by (auto simp: untouched_def)

lemma untouched_trans: "untouched t s q s1 q1 \<Longrightarrow> untouched t s1 q1 s2 q2 \<Longrightarrow> untouched t s q s2 q2"
  unfolding untouched_def by (intro conjI ballI impI; (elim conjE)?) (metis+)

lemma m2_inv_bus: "m2_inv base hi now ctrl q s \<Longrightarrow> ic_ram b = ic_ram (st_bus s) \<Longrightarrow> m2_inv base hi now ctrl q (s\<lparr> st_bus := b \<rparr>)"
  by (simp add: m2_inv_def mem_ok_def ages_in_def loads_current_def view_def)

lemma resolve_store_step:
  assumes "m2_inv base hi now ctrl q s" "store_fits m s"
  shows "m2_inv base hi now ctrl q (resolve_store m data s) \<and> untouched (m2_rob_tag m) s q (resolve_store m data s) q"
proof -
  have k: "mem_ok base hi s" "lq_inv q" "st_load_queue s = Some q" "ages_in now q s" "loads_current base ctrl (before (st_violation s)) q s"
    using assms(1) by (auto simp: m2_inv_def)
  have f: "\<forall>e \<in> set (ring_window (st_store_buffer s)). sb_rob_tag e = m2_rob_tag m \<longrightarrow> sr_is_pending (sb_resolution e) \<and> sb_width e = cs_width (m2_ctrl m)"
    "no_wrap (m2_paddr m) (width_to_bytes (cs_width (m2_ctrl m)))" using assms(2) by (auto simp: store_fits_def)
  note r = resolve_keeps_current [OF k f, of data]
  have "ring_window (st_store_buffer (resolve_store m data s)) = map (\<lambda>e. if sb_rob_tag e = m2_rob_tag m then
      e\<lparr> sb_vaddr := m2_vaddr m, sb_resolution := Sr_Ready (m2_paddr m) data \<rparr> else e) (ring_window (st_store_buffer s))"
    unfolding resolve_store_def sb_resolve_def using k(1) by (simp add: sb_update_inv(2) mem_ok_def)
  then have "untouched (m2_rob_tag m) s q (resolve_store m data s) q" using r by (auto simp: untouched_def)
  then show ?thesis using r k(2) by (simp add: m2_inv_def)
qed

lemma memory2_one_step:
  assumes "m2_inv base hi now ctrl q s" "fits base ctrl q s m" "memory2_one t base hi m s = Value (act, s')"
  shows "\<exists>q'. m2_inv base hi now ctrl q' s' \<and> untouched (m2_rob_tag m) s q s' q'
    \<and> (\<forall>w. act = M2_Push w \<longrightarrow> plain_load m \<longrightarrow> wb_load_data w
         = extend_load (m2_ctrl m) (load_view (st_store_buffer s) (m2_rob_tag m) (m2_paddr m) (cs_width (m2_ctrl m)) (view base s)))"
proof -
  have self: "untouched (m2_rob_tag m) s q s q" by (simp add: untouched_refl)
  consider (stop) "m2_trap m \<noteq> None" | (atomic) "m2_trap m = None" "cs_atomic_op (m2_ctrl m) \<noteq> At_None"
    | (load) "plain_load m" | (other) "m2_trap m = None" "cs_atomic_op (m2_ctrl m) = At_None" "\<not> cs_mem_read (m2_ctrl m)"
    by (cases "m2_trap m = None"; cases "cs_atomic_op (m2_ctrl m) = At_None"; cases "cs_mem_read (m2_ctrl m)") (simp_all add: plain_load_def)
  then show ?thesis
  proof cases
    case stop
    then show ?thesis using assms self by (auto simp: memory2_one_def plain_load_def)
  next
    case load
    then have l: "memory2_load t base hi m s = Value (act, s')" "load_fits base ctrl m q s"
      using assms(2,3) by (auto simp: memory2_one_def plain_load_def fits_def)
    have k: "mem_ok base hi s" "lq_inv q" "st_load_queue s = Some q" "ages_in now q s" "loads_current base ctrl (before (st_violation s)) q s"
      using assms(1) by (auto simp: m2_inv_def)
    have r: "in_ram base (length (ic_ram (st_bus s))) (m2_paddr m) (cs_width (m2_ctrl m))" using l(2) by (simp add: load_fits_def)
    show ?thesis
    proof (cases act)
      case (M2_Push w)
      note lv = memory2_load_value [OF k(1) r l(1) [unfolded M2_Push]]
      let ?q = "lq_fill_data (m2_rob_tag m) (wb_load_data w) q"
      have lq: "ring_live lq_valid ?q = map (\<lambda>e. if lq_rob_tag e = m2_rob_tag m then e\<lparr> lq_data := wb_load_data w, lq_state := Ld_Executed \<rparr> else e) (ring_live lq_valid q)"
        unfolding lq_fill_data_def by (rule lq_update_spec [OF k(2)]) simp_all
      have "map lq_rob_tag (ring_window ?q) = map lq_rob_tag (ring_window q)"
        using k(2) by (simp add: lq_fill_data_def lq_update_def ring_update_first_window lq_inv_def map_upd_first)
      then have im: "lq_rob_tag ` set (ring_window ?q) = lq_rob_tag ` set (ring_window q)" by (metis set_map)
      have "\<forall>t \<in> lq_rob_tag ` set (ring_window ?q). tag_age now t < 2 ^ 31" unfolding im using k(4) by (simp add: ages_in_def)
      moreover have "st_violation s' = st_violation s" using lv by simp
      ultimately have ages: "ages_in now ?q s'" using k(4) by (simp add: ages_in_def)
      have "st_bus s' = st_bus s" "st_store_buffer s' = st_store_buffer s" using lv by simp_all
      then have "untouched (m2_rob_tag m) s q s' ?q" unfolding untouched_def lq by auto
      moreover have "m2_inv base hi now ctrl ?q s'"
        using load_keeps_current [OF k(1) r l(1) [unfolded M2_Push] k(3,2,5)] l(2) lv k(3) ages by (auto simp: m2_inv_def load_fits_def)
      ultimately show ?thesis using lv M2_Push by blast
    qed (use l(1) assms(1) self in \<open>auto simp: memory2_load_def finish_load_def split: forward_result.splits access.splits\<close>)
  next
    case other
    then show ?thesis using assms self resolve_store_step [OF assms(1), of m "m2_store_data m"]
      by (auto simp: memory2_one_def plain_load_def fits_def split: if_splits)
  next
    case atomic
    have a: "memory2_atomic t m s = Value (act, s')" using assms(3) atomic by (simp add: memory2_one_def)
    have pl: "\<not> plain_load m" using atomic by (simp add: plain_load_def)
    have rd: "m2_inv base hi now ctrl q s1 \<and> untouched (m2_rob_tag m) s q s1 q \<and> st_store_buffer s1 = st_store_buffer s" if "atomic_read t m s = Value (v, s1)" for v s1
      using that assms(1) self by (auto simp: atomic_read_def Let_def untouched_def split: if_splits access.splits dest!: bus_read_ram_same intro: m2_inv_bus)
    show ?thesis
    proof (cases "cs_atomic_op (m2_ctrl m) = At_Lr")
      case True
      then show ?thesis using a assms(1) self rd pl by (auto simp: memory2_atomic_def Let_def split: if_splits access.splits)
    next
      case False
      then have f: "store_fits m s" using assms(2) atomic pl by (auto simp: fits_def)
      have st: "m2_inv base hi now ctrl q (resolve_store m d s1) \<and> untouched (m2_rob_tag m) s q (resolve_store m d s1) q"
        if "m2_inv base hi now ctrl q s1" "untouched (m2_rob_tag m) s q s1 q" "st_store_buffer s1 = st_store_buffer s" for d s1
      proof -
        have "store_fits m s1" using f that(3) by (simp add: store_fits_def)
        from resolve_store_step [OF that(1) this] show ?thesis using untouched_trans [OF that(2)] by blast
      qed
      consider (sc) "s' = resolve_store m (m2_store_data m) s" | (stall) "s' = s"
        | (amo) v s1 d where "atomic_read t m s = Value (v, s1)" "s' = resolve_store m d s1"
        using a False by (auto simp: memory2_atomic_def Let_def split: if_splits access.splits)
      then show ?thesis
      proof cases
        case sc
        then show ?thesis using st [OF assms(1) self] pl by blast
      next
        case stall
        then show ?thesis using assms(1) self pl by blast
      next
        case amo
        then show ?thesis using rd [OF amo(1)] st [of s1 d] pl by blast
      qed
    qed
  qed
qed

lemma memory2_loop_inv:
  assumes "m2_inv base hi now ctrl q s" "\<forall>m \<in> set ms. fits base ctrl q s m" "distinct (map m2_rob_tag ms)"
    and "memory2_loop t base hi ms outs s = Value (rest, outs', s')"
  shows "\<exists>q'. m2_inv base hi now ctrl q' s' \<and> ic_ram (st_bus s') = ic_ram (st_bus s)"
  using assms
proof (induction ms arbitrary: q s outs)
  case (Cons m ms)
  obtain act s1 where o: "memory2_one t base hi m s = Value (act, s1)" using Cons.prems(4) by (auto split: access.splits)
  obtain q1 where q1: "m2_inv base hi now ctrl q1 s1" "untouched (m2_rob_tag m) s q s1 q1"
    using memory2_one_step [OF Cons.prems(1) _ o] Cons.prems(2) by auto
  have ram: "ic_ram (st_bus s1) = ic_ram (st_bus s)" using q1(2) by (simp add: untouched_def)
  have fit: "\<forall>m' \<in> set ms. fits base ctrl q1 s1 m'"
  proof
    fix m'
    assume "m' \<in> set ms"
    then have "m2_rob_tag m' \<noteq> m2_rob_tag m" "fits base ctrl q s m'" using Cons.prems(2,3) by (auto simp: rev_image_eqI)
    then show "fits base ctrl q1 s1 m'" by (rule untouched_fits [OF q1(2)])
  qed
  show ?case
  proof (cases act)
    case (M2_Push w)
    with Cons.prems(4) o have "memory2_loop t base hi ms (outs @ [w]) s1 = Value (rest, outs', s')" by simp
    from Cons.IH [OF q1(1) fit _ this] Cons.prems(3) ram show ?thesis by auto
  qed (use Cons.prems(4) o q1(1) ram in auto)
qed auto

text \<open>C5. Speculative loads are caught. Suppose every executed load of main memory holds the bytes that memory with the older buffered stores gives. After a cycle of the second
  memory stage this is still so for every load when no violation is reported, and otherwise for every load older than the reported one, which is where the recovery
  restarts: a store that resolves after a younger load has read its bytes never leaves a stale value behind.\<close>

theorem memory2_keeps_loads_current:
  assumes "m2_inv base hi now ctrl q s" "st_violation s = None" "\<forall>m \<in> set input. fits base ctrl q s m" "distinct (map m2_rob_tag input)"
    and "memory2_stage t base hi input s = Value (rest, outs, s')"
  shows "\<exists>q'. st_load_queue s' = Some q' \<and> loads_current base ctrl (before (st_violation s')) q' s' \<and> view base s' = view base s"
proof -
  have s: "s\<lparr> st_violation := None \<rparr> = s" using assms(2) by (metis m2_state.surjective m2_state.update_convs(4))
  have "memory2_loop t base hi (sort_key m2_rob_tag input) [] s = Value (rest, outs, s')" using assms(5) by (simp add: memory2_stage_def s)
  moreover have "\<forall>m \<in> set (sort_key m2_rob_tag input). fits base ctrl q s m" using assms(3) by simp
  moreover have "distinct (map m2_rob_tag (sort_key m2_rob_tag input))"
    using assms(4) by (metis distinct_sort mset_map mset_sort mset_eq_imp_distinct_iff)
  ultimately obtain q' where "m2_inv base hi now ctrl q' s'" "ic_ram (st_bus s') = ic_ram (st_bus s)"
    using memory2_loop_inv [OF assms(1)] by blast
  then show ?thesis by (auto simp: m2_inv_def view_def)
qed


text \<open>Draining the oldest committed store moves it from the buffer into memory; a younger load sees the same bytes.\<close>

theorem drain_keeps_load_view:
  assumes "sb_inv b" "sb_drain_one b = (b1, Some e)" "is_older_than (sb_rob_tag e) t" "drain_one_store (b, m) = (b', m')"
  shows "load_view b' t p w m' = load_view b t p w m"
proof -
  have d: "ring_window b = e # ring_window b1" "sr_is_committed (sb_resolution e)" using sb_drain_one_spec [OF assms(1,2)] by auto
  have v: "sb_valid e" using assms(1) d(1) by (simp add: sb_inv_def)
  have "b' = b1" "m' = sb_effect e m" using assms(2,4) sb_drain_effect [OF d(2), of m] d(2)
    by (auto simp: drain_one_store_def sb_effect_def write_store_to_memory_def split: store_resolution.splits)
  then show ?thesis using assms(3) d v by (simp add: load_view_def older_stores_def)
qed

text \<open>The pointer read checks the first byte only: a misaligned load whose last bytes lie past the end of memory leaves the buffer.\<close>

theorem load_past_end_of_memory:
  assumes "plain_load m" "base \<le> m2_paddr m" "m2_paddr m < hi" "cs_width (m2_ctrl m) \<noteq> W_Nop"
    and "length (ic_ram (st_bus s)) < unat (m2_paddr m - base) + width_to_bytes (cs_width (m2_ctrl m))"
    and "sb_forward_load (st_store_buffer s) (m2_paddr m) (cs_width (m2_ctrl m)) (m2_rob_tag m) = Miss"
  shows "memory2_one t base hi m s = Undefined"
  using assms by (simp add: memory2_one_def plain_load_def memory2_load_def read_memory_def ram_ptr_read_def read_slice_def Let_def)

subsection \<open>No instruction is lost\<close>

text \<open>C34. Every instruction that enters the memory stages leaves them once. The first stage handles a prefix of its input: each handled instruction is in the output or parked in a miss
  register, the others stay. A completed miss moves its instructions to the second stage. The second stage passes on a prefix of its input in tag order and
  keeps the rest.\<close>

theorem memory_stages_lose_nothing:
  assumes "mshr_ok (mu_l1d_mshrs u)" "memory1_stage now input outs lq u = Some (rest, outs', cancelled, lq', u')"
  shows "(\<exists>passed new. input = passed @ rest \<and> outs' = outs @ new
      \<and> mshr_ok (mu_l1d_mshrs u') \<and> mset (map m2_rob_tag new) + parked_tags u' = mset (map xm_rob_tag passed) + parked_tags u)
    \<and> (\<exists>new u'. drain_mshr_completions now outs' u = (outs' @ new, u') \<and> mshr_ok (mu_l1d_mshrs u') \<and> parked_tags u = mset (map m2_rob_tag new) + parked_tags u')
    \<and> (\<forall>rest2 wb s'. memory2_stage t base hi outs' s = Value (rest2, wb, s') \<longrightarrow> map wb_rob_tag wb @ map m2_rob_tag rest2 = map m2_rob_tag (sort_key m2_rob_tag outs'))"
proof -
  obtain l v where d: "drain_mshr_completions now outs' u = (l, v)" by force
  show ?thesis
    using memory1_loop_conserves [OF assms(1) assms(2) [unfolded memory1_stage_def]] drain_mshr_conserves [OF assms(1) d] memory2_loop_order [of t base hi "sort_key m2_rob_tag outs'" "[]"] d
    by (fastforce simp: memory2_stage_def)
qed

subsection \<open>A store that resolves late\<close>

text \<open>A word load at the start of memory has executed before the older store to the same address resolves.\<close>

definition demo_entry :: "rob_tag \<Rightarrow> bool \<Rightarrow> mem1_mem2_entry" where
  "demo_entry t store = \<lparr> m2_rob_tag = t, m2_pc = 0x1000, m2_inst = 0, m2_inst_size = Standard, m2_rd = 1, m2_rd_phys = 33, m2_alu = 0x80000000, m2_vaddr = 0x80000000,
     m2_paddr = 0x80000000, m2_store_data = 42, m2_ctrl = default_ctrl\<lparr> cs_mem_read := \<not> store, cs_mem_write := store, cs_width := W_Word \<rparr>, m2_trap = None,
     m2_exception_stage = None, m2_fp_flags = 0, m2_complete_cycle = 0, m2_pte_update = None, m2_sfence_vma = None \<rparr>"

definition demo_lq :: load_queue where
  "demo_lq = lq_fill_data 2 0 (lq_fill_address 2 0x80000000 0x80000000 (fst (lq_allocate (lq_new 2) 2 W_Word)))"

definition demo_state :: m2_state where
  "demo_state = \<lparr> st_bus = demo_bus, st_store_buffer = fst (sb_allocate (sb_new 2) 1 W_Word), st_load_queue = Some demo_lq, st_violation = None \<rparr>"

lemma demo_lq_live: "lq_inv demo_lq"
  "ring_window demo_lq = [(lq_entry_new 2 W_Word)\<lparr> lq_vaddr := 0x80000000, lq_paddr := Some 0x80000000, lq_data := 0, lq_state := Ld_Executed \<rparr>]"
proof -
  have "lq_inv (fst (lq_allocate (lq_new 2) 2 W_Word))"
    by (rule lq_allocate_spec(1) [OF lq_new_inv]) (simp_all add: lq_new_def ring_live_def ring_window_def)
  then show "lq_inv demo_lq" unfolding demo_lq_def lq_fill_data_def lq_fill_address_def by (intro lq_update_spec(2)) simp_all
  show "ring_window demo_lq = [(lq_entry_new 2 W_Word)\<lparr> lq_vaddr := 0x80000000, lq_paddr := Some 0x80000000, lq_data := 0, lq_state := Ld_Executed \<rparr>]"
    by (simp add: demo_lq_def lq_fill_data_def lq_fill_address_def lq_update_def ring_update_first_def
      lq_allocate_def lq_is_full_def lq_new_def ring_push_def ring_window_def replicate_2 lq_entry_new_def)
qed

lemma demo_sb: "sb_inv (st_store_buffer demo_state)" "ring_window (st_store_buffer demo_state) = [sb_entry_new 1 W_Word]"
  by (simp_all add: demo_state_def sb_inv_def sb_allocate_def sb_new_def sb_is_full_def ring_push_def ring_window_def ring_wf_def replicate_2 sb_entry_new_def)

lemma demo_mem_ok: "mem_ok 0x80000000 0x80000040 demo_state"
  using demo_sb by (simp add: mem_ok_def sb_no_wrap_def sb_entry_new_def) (simp add: demo_state_def demo_bus_devices)

lemma demo_inv: "m2_inv 0x80000000 0x80000040 3 (\<lambda>_. m2_ctrl (demo_entry 2 False)) demo_lq demo_state"
proof -
  have zero: "ram_view 0x80000000 (replicate 64 0) a = 0" for a by (simp add: ram_view_def)
  have "split_load 0x80000000 4 (ram_view 0x80000000 (replicate 64 0)) = 0" by (rule bit_word_eqI) (simp add: bit_split_load zero)
  then have "loads_current 0x80000000 (\<lambda>_. m2_ctrl (demo_entry 2 False)) (before None) demo_lq demo_state"
    using demo_sb(2) by (simp add: loads_current_def ring_live_def demo_lq_live lq_entry_new_def load_view_def view_def older_stores_def sb_effect_def sb_entry_new_def
        demo_entry_def extend_load_def nan_box_def default_ctrl_def sign_extend_def) (simp add: demo_state_def demo_bus_devices)
  moreover have "ages_in 3 demo_lq demo_state" by (simp add: ages_in_def demo_lq_live lq_entry_new_def tag_age_def demo_state_def)
  ultimately show ?thesis using demo_mem_ok demo_lq_live(1) by (simp add: m2_inv_def demo_state_def)
qed

theorem memory2_keeps_loads_current_witness:
  "\<exists>rest outs s' q'. memory2_stage 0 0x80000000 0x80000040 [demo_entry 1 True] demo_state = Value (rest, outs, s')
     \<and> st_violation s' = Some (2, 0x1000) \<and> loads_current 0x80000000 (\<lambda>_. m2_ctrl (demo_entry 2 False)) (before (st_violation s')) q' s'"
proof -
  have f: "\<forall>m \<in> set [demo_entry 1 True]. fits 0x80000000 (\<lambda>_. m2_ctrl (demo_entry 2 False)) demo_lq demo_state m"
    using demo_sb(2) by (simp add: fits_def plain_load_def store_fits_def demo_entry_def default_ctrl_def no_wrap_def sb_entry_new_def)
  obtain s' where m: "memory2_stage 0 0x80000000 0x80000040 [demo_entry 1 True] demo_state = Value ([], [to_wb (demo_entry 1 True) 0 None None None], s')"
    "s' = resolve_store (demo_entry 1 True) 42 demo_state"
    by (simp add: memory2_stage_def memory2_one_def demo_entry_def default_ctrl_def demo_state_def)
  have "st_violation s' = Some (2, 0x1000)"
    by (simp add: m(2) resolve_store_def record_violation_def demo_state_def lq_check_ordering_violation_def demo_lq_live) code_simp
  then show ?thesis using memory2_keeps_loads_current [OF demo_inv _ f _ m(1)] m(1) by (auto simp: demo_state_def)
qed

lemma demo_load: "\<exists>w s'. memory2_one 0 0x80000000 0x80000040 (demo_entry 2 False) demo_state = Value (M2_Push w, s')"
proof -
  have "sb_forward_load (st_store_buffer demo_state) 0x80000000 W_Word 2 = Miss"
    using demo_sb by (simp add: sb_forward_load_def ring_window_back_conv sb_inv_wf sb_entry_new_def)
  then show ?thesis
    by (simp add: memory2_one_def memory2_load_def read_memory_def demo_entry_def default_ctrl_def ram_ptr_read_def read_slice_def finish_load_def)
      (simp add: demo_state_def demo_bus_devices)
qed


definition demo_ex :: ex_mem1_entry where
  "demo_ex = \<lparr> xm_rob_tag = 7, xm_pc = 0x1000, xm_inst = 0, xm_inst_size = Standard, xm_rd = 1, xm_rd_phys = 33, xm_alu = 0, xm_store_data = 0,
     xm_ctrl = default_ctrl, xm_trap = None, xm_exception_stage = None, xm_fp_flags = 0, xm_sfence_vma = None \<rparr>"

definition demo_unit :: mem_unit where
  "demo_unit = \<lparr> mu_cpu = smode_example, mu_bus = demo_bus, mu_hierarchy = demo_hierarchy Inclusive Pf_None, mu_l1d_mshrs = mshr_new 2 64,
     mu_cache_base = 0x80000000, mu_misaligned_access_trap = True \<rparr>"

theorem memory_stages_lose_nothing_witness:
  "\<exists>passed rest new u'. [demo_ex] = passed @ rest \<and> mset (map m2_rob_tag new) + parked_tags u' = mset (map xm_rob_tag passed) + parked_tags demo_unit
     \<and> memory1_stage 0 [demo_ex] [] None demo_unit = Some (rest, new, [], None, u')"
proof -
  have ok: "mshr_ok (mu_l1d_mshrs demo_unit)" by (simp add: demo_unit_def mshr_new_ok)
  have m: "memory1_stage 0 [demo_ex] [] None demo_unit = Some ([], [to_mem2 demo_ex 0 0 None None 0 None], [], None, demo_unit)"
    by (simp add: memory1_stage_def memory1_one_def demo_ex_def default_ctrl_def)
  from memory_stages_lose_nothing [OF ok m, of 0 0 0 demo_state] m show ?thesis by auto
qed

end
