(* ===== verification/Spec2Isabelle.thy ===== *)
theory Spec2Isabelle
  imports Ghr Engine IssueQueue MemSpec
begin

text \<open>
  A verification library for the rvsim RISC-V simulator.

  rvsim (\<open>src/crates/hardware\<close>) simulates an RV64 hart cycle by cycle: a frontend
  (\<open>core/pipeline/frontend\<close>) fetches, decodes and renames, an out-of-order or in-order backend
  (\<open>core/pipeline/backend\<close>) issues, executes and commits, and both work on the processor state of
  \<open>core/cpu\<close> through the units of \<open>core/units\<close> and the devices of \<open>soc\<close>. What the simulator promises is
  that the speculation inside the pipeline is invisible: what commits is what the program order of the
  instruction set says, whatever was renamed, forwarded, squashed or faulted on the way. The library
  models the parts that carry this promise and proves the promise part by part.

  \<^bold>\<open>Theories\<close>, bottom up (file names are under \<open>src/crates/hardware/src\<close>).

  \<^item> \<open>Prelude\<close>: Rust's integer types as words, casts, arithmetic of ring positions, the collections
    \<open>ring_simps\<close>, \<open>cast_simps\<close> and \<open>inv_intros\<close>.
  \<^item> \<open>Signals\<close>: enums and structs every stage shares (\<open>core/pipeline/signals.rs\<close>, \<open>common/\<close>).
  \<^item> \<open>Alu\<close>, \<open>Lsu\<close>, \<open>Ghr\<close>: integer arithmetic (\<open>core/units/alu\<close>), atomic arithmetic, fences, alignment
    and split accesses (\<open>core/units/lsu\<close>), the branch history register (\<open>core/units/bru/ghr.rs\<close>).
    Products, quotients and shifts are stated over the integers; a split store read back is the value
    that was stored.
  \<^item> \<open>Ring\<close>: the head/tail/count buffer behind three queues, its abstraction to a list and the locale
    \<open>slot\<close> for what a queue needs of its entries; \<open>sb\<close> and \<open>lq\<close> are its interpretations.
  \<^item> \<open>Rob\<close> (\<open>core/pipeline/rob.rs\<close>): the reorder buffer with its tag index. It refines a queue of entries
    in program order; tag arithmetic is modular and program order is tag order.
  \<^item> \<open>StoreBuffer\<close> (\<open>store_buffer.rs\<close>) and \<open>LoadQueue\<close> (\<open>load_queue.rs\<close>): forwarding returns the bytes of
    the youngest older store or reports that it cannot, draining keeps the memory a load sees, the
    violation check finds the oldest load that read too early.
  \<^item> \<open>RegFiles\<close> (\<open>prf.rs\<close>, \<open>free_list.rs\<close>, \<open>rename_map.rs\<close>, \<open>checkpoint.rs\<close>, \<open>scoreboard.rs\<close>): the register
    structures; the locale \<open>reg_table\<close> is the contract of a table indexed by architectural register, \<open>rm\<close>
    and \<open>sc\<close> its interpretations on the rename map and the scoreboard.
  \<^item> \<open>Rename\<close> (\<open>frontend/rename.rs\<close>, recovery of \<open>backend/o3/mod.rs\<close>): the rename stage of both backends,
    full flush, partial flush and checkpoint recovery, with the invariant \<open>ren_inv\<close>.
  \<^item> \<open>Pmp\<close>, \<open>Csr\<close>, \<open>Tlb\<close>, \<open>Mmu\<close> (\<open>core/units/mmu\<close>, \<open>core/arch/csr.rs\<close>): memory protection as a first-match
    rule, the CSR file, the two TLB levels behind the locale \<open>translation_cache\<close> (interpretations \<open>l1\<close> and
    \<open>l2\<close>), the Sv39 walk and its cached equivalent.
  \<^item> \<open>Cpu\<close> (\<open>core/cpu\<close>): registers, CSR access with its WARL rules, trap entry and return, interrupt
    selection, the start and the end of a cycle.
  \<^item> \<open>Isa\<close> and \<open>Asm\<close> (\<open>isa/\<close>): instruction fields, immediates and the expansion of compressed instructions,
    proved against an assembler of the formats of the architecture.
  \<^item> \<open>Decode\<close> (\<open>frontend/decode.rs\<close>): control signals and the loop over a fetch bundle. Its signals meet the
    contract \<open>ctrl_ok\<close> that renaming assumes.
  \<^item> \<open>Mdp\<close> (\<open>core/units/mdp\<close>): the store-set dependence predictor; a load is only ever made to wait for an older
    store and every table access is in bounds.
  \<^item> \<open>IssueQueue\<close> (\<open>backend/o3/issue_queue.rs\<close>, \<open>fu_pool.rs\<close>): the queue and the physical register file as a step
    relation; what is issued carries the contents of its registers, no wakeup is lost, selection is greedy.
  \<^item> \<open>Arch\<close>: RV64IM as the architecture defines it, encodings and values over the integers; the reference for
  \<^item> \<open>Execute\<close> (\<open>backend/o3/execute.rs\<close>, \<open>backend/inorder/execute.rs\<close>): both execute units. Integer instructions have the
    architectural result and successor from encoding to committed path; CSR accesses are refused exactly by the
    privilege rules and deferred to commit otherwise.
  \<^item> \<open>Commit\<close> (\<open>backend/shared/commit.rs\<close>): retirement in program order with every commit-time action.
  \<^item> \<open>Engine\<close>: the renaming state of the out-of-order engine as a step relation whose steps are the calls
    of rename, execute, memory, writeback, commit and the recovery paths; its theorems hold in every
    reachable state.
  \<^item> \<open>Dram\<close> (\<open>soc/memory/controller.rs\<close>): the memory controllers; the refresh loop ends when a refresh is shorter than its interval.
  \<^item> \<open>Devices\<close> (\<open>soc/devices\<close>), \<open>Ram\<close> (\<open>soc/memory\<close>) and \<open>Virtio\<close> (\<open>soc/devices/virtio_disk.rs\<close>): the timer after any number of
    ticks, the interrupt controller against the rule of highest priority, the console and its panic detector, the byte
    buffer of main memory, the disk with its descriptor chains; a sector written is the sector read back.
  \<^item> \<open>Bus\<close> (\<open>soc/interconnect.rs\<close>, \<open>soc/builder.rs\<close>) and \<open>Soc\<close>: routing, accesses and the tick over all devices, with the invariant
    \<open>ic_ok\<close>; in every reachable state an address decides alone which device answers, and main memory behind the bus is the flat
    byte memory that the processor theories work on.

  \<^item> \<open>Replacement\<close>, \<open>Prefetch\<close> and \<open>Cache\<close> (\<open>core/units/cache\<close>, \<open>core/units/prefetch\<close>): the replacement policies, the prefetchers and
    their filter, and the set-associative cache. The locale \<open>write_back\<close> is the contract of a cache with respect to the lines that still
    have to be written back; a write is either in a dirty line or was reported as an eviction.
  \<^item> \<open>Mshr\<close> (\<open>core/units/cache/mshr.rs\<close>, \<open>core/pipeline/write_buffer.rs\<close>): miss registers and write combining; every waiter leaves exactly once.
  \<^item> \<open>Hierarchy\<close> (\<open>core/cpu/memory.rs\<close>): translation as the stages call it and the walk through the cache levels; which accesses keep the
    first level within the second.
  \<^item> \<open>MemStages\<close> (\<open>backend/shared/memory1.rs\<close>, \<open>memory2.rs\<close>, \<open>writeback.rs\<close>) and \<open>MemSpec\<close>: the stages between execute and commit. A load
    returns the memory it should see, a load overtaken by an older store is reported, and no instruction is lost between the latches and
    the miss registers.

  \<^bold>\<open>How the state corresponds.\<close> A struct of the source is a record with its fields in the source's order,
  an enum a datatype. An operation on \<open>&mut self\<close> is a function from the old to the new record; an early
  return is a branch; a panic or an error is \<open>None\<close> or a constructor of a sum. Loops over indices are
  recursions on the number of slots left, or \<open>function\<close>s with a measure.

  \<^bold>\<open>Bounds.\<close> Integers of a fixed width are words: arithmetic wraps, as in the release profile of the
  crate (the debug profile panics instead). \<open>usize\<close> lengths and indices are natural numbers. ROB tags are
  32-bit and compared by their wrapped difference, so the entries in flight must span less than \<open>2 ^ 31\<close>
  tags (\<open>rob_room\<close>); physical registers are 16-bit, so there are at most \<open>2 ^ 16\<close>; checkpoint numbers are
  bytes, so there are at most 256. Addresses in a store or load may not wrap past the top of memory
  (\<open>no_wrap\<close>). The processor theories see the bus as a flat byte memory, which \<open>Soc\<close> justifies for main memory; the interrupt lines the devices raise are an input of the
  cycle; the divider of the timer is nonzero, as the configuration requires.

  \<^bold>\<open>Not modelled.\<close> The fetch stages, the branch predictors (except the history register) and the two \<open>tick\<close> functions that call the
  stages in order: the calls on the modelled structures are steps of \<open>Engine\<close>. The floating-point unit computes with the host's
  arithmetic and is an argument of execute. Statistics, tracing and disassembly only print. The simulator driver, the loader, the
  configuration and the Python bindings are input and output.
\<close>

end
